(* ===== verification/Prelude.thy ===== *)
theory Prelude
  imports Main "HOL-Library.Word" "HOL-Library.Multiset"
begin

text \<open>
  Shared vocabulary of the development: the machine integer types of the C sources, bytes and
  C strings, the little-endian value of a byte buffer, and the generic facts on lists and words
  that the component theories rely on. The collection \<open>le_simps\<close> gathers the facts about
  little-endian values, \<open>buf_simps\<close> the facts about writes into a buffer.
\<close>

unbundle bit_operations_syntax

named_theorems le_simps
named_theorems buf_simps

type_synonym u8 = "8 word"
type_synonym u16 = "16 word"
type_synonym u32 = "32 word"
type_synonym u64 = "64 word"

type_synonym bytes = "u8 list"

text \<open>Sizes and counts of type \<^verbatim>\<open>int\<close> are natural numbers; one that does not fit the type is an overflow.\<close>

definition int_fits :: "nat \<Rightarrow> bool" where
  "int_fits n \<longleftrightarrow> int n < 2 ^ 31"

section \<open>Conversions between widths\<close>

lemma unat_ucast_mod: "unat (ucast (x :: 'a::len word) :: 'b::len word) = unat x mod 2 ^ LENGTH('b)"
  by (simp add: unsigned_ucast_eq take_bit_eq_mod)

lemma unat_ucast_up:
  assumes "LENGTH('a::len) \<le> LENGTH('b::len)"
  shows "unat (ucast (x :: 'a word) :: 'b word) = unat x"
proof -
  have "unat x < 2 ^ LENGTH('a)" by (rule unsigned_less)
  also have "\<dots> \<le> 2 ^ LENGTH('b)" using assms by (rule power_increasing) simp
  finally show ?thesis by (simp add: unat_ucast_mod)
qed

lemma unat_drop_bit_div: "unat (drop_bit k x) = unat x div 2 ^ k"
  by (simp add: unsigned_drop_bit_eq take_bit_nat_eq_self) (simp add: drop_bit_eq_div)

lemma unat_and_mask: "unat (x AND mask n :: 'a::len word) = unat x mod 2 ^ n"
proof -
  have "unat (take_bit n x) = take_bit n (unat x)" by (rule bit_eqI) (auto simp: bit_simps)
  then show ?thesis by (simp only: take_bit_eq_mask [of n x] take_bit_eq_mod [of n "unat x"])
qed

lemma unat_u64_less [simp]: "unat (x :: u64) < 18446744073709551616"
  using unsigned_less [of x, where 'a = nat] by simp

lemma unat_u32_less [simp]: "unat (x :: u32) < 4294967296"
  using unsigned_less [of x, where 'a = nat] by simp

section \<open>Characters and bytes\<close>

text \<open>A C string is its list of characters without the terminating zero byte.\<close>

definition byte_of :: "char \<Rightarrow> u8" where
  "byte_of c = word_of_nat (of_char c)"

definition char_of_byte :: "u8 \<Rightarrow> char" where
  "char_of_byte b = char_of (unat b)"

lemma unat_byte_of [simp]: "unat (byte_of c) = of_char c"
  by (simp add: byte_of_def unat_of_nat take_bit_nat_eq_self)

lemma unat_u8_less [simp]: "unat (b :: u8) < 256"
  using unsigned_less [of b, where 'a = nat] by simp

lemma u8_256: "(256 :: u8) = 0"
  by simp

lemma char_of_byte_of [simp]: "char_of_byte (byte_of c) = c"
  by (simp add: char_of_byte_def)

lemma byte_of_char_of_byte [simp]: "byte_of (char_of_byte b) = b"
  by (simp add: char_of_byte_def byte_of_def)

lemma byte_of_inject [simp]: "byte_of c = byte_of d \<longleftrightarrow> c = d"
  by (metis char_of_byte_of)

section \<open>Little-endian values\<close>

primrec le_val :: "bytes \<Rightarrow> nat" where
  "le_val [] = 0"
| "le_val (b # bs) = unat b + 256 * le_val bs"

primrec le_bytes :: "nat \<Rightarrow> nat \<Rightarrow> bytes" where
  "le_bytes 0 v = []"
| "le_bytes (Suc n) v = word_of_nat v # le_bytes n (v div 256)"

lemma length_le_bytes [simp, le_simps]: "length (le_bytes n v) = n"
  by (induction n arbitrary: v) auto

lemma le_val_append [le_simps]: "le_val (xs @ ys) = le_val xs + 256 ^ length xs * le_val ys"
  by (induction xs) (auto simp: algebra_simps)

lemma le_val_replicate_0 [le_simps, simp]: "le_val (replicate n 0) = 0"
  by (induction n) auto

lemma le_val_less [le_simps]: "le_val xs < 256 ^ length xs"
proof (induction xs)
  case (Cons b xs)
  have "unat b + 256 * le_val xs < 256 + 256 * le_val xs" by simp
  also have "\<dots> = 256 * Suc (le_val xs)" by simp
  also have "\<dots> \<le> 256 * 256 ^ length xs" using Cons by (intro mult_le_mono2) simp
  finally show ?case by simp
qed simp

lemma le_val_bytes [le_simps]: "le_val (le_bytes n v) = v mod 256 ^ n"
proof (induction n arbitrary: v)
  case (Suc n)
  have "v mod 256 ^ Suc n = v mod 256 + 256 * (v div 256 mod 256 ^ n)"
    by (simp add: mod_mult2_eq)
  with Suc show ?case by (simp add: unat_of_nat take_bit_eq_mod)
qed simp

lemma le_bytes_val [le_simps]: "le_bytes (length xs) (le_val xs) = xs"
proof (induction xs)
  case (Cons b xs)
  have "unat b < 256" by simp
  then have "(unat b + 256 * le_val xs) div 256 = le_val xs" by simp
  moreover have "(word_of_nat (unat b + 256 * le_val xs) :: u8) = b"
    by (simp add: u8_256)
  ultimately show ?case using Cons by simp
qed simp

lemma le_val_inject: "length xs = length ys \<Longrightarrow> le_val xs = le_val ys \<longleftrightarrow> xs = ys"
  by (metis le_bytes_val)

section \<open>The C library sort\<close>

text \<open>
  \<^verbatim>\<open>qsort\<close> orders an array by a comparison function; the order of elements that compare
  equal is unspecified. Functions that call it take the sort as an argument, of which
  \<open>qsort_spec\<close> states the documented behaviour: the result is a permutation and no element compares
  greater than a later one. \<open>insort_cmp\<close> is one such sort, used to evaluate the model.
\<close>

type_synonym 'a qsort = "('a \<Rightarrow> 'a \<Rightarrow> int) \<Rightarrow> 'a list \<Rightarrow> 'a list"

definition cmp_ok :: "('a \<Rightarrow> 'a \<Rightarrow> int) \<Rightarrow> 'a set \<Rightarrow> bool" where
  "cmp_ok cmp A \<longleftrightarrow>
     (\<forall>x\<in>A. \<forall>y\<in>A. cmp x y > 0 \<longrightarrow> cmp y x < 0) \<and>
     (\<forall>x\<in>A. \<forall>y\<in>A. \<forall>z\<in>A. cmp x y \<le> 0 \<longrightarrow> cmp y z \<le> 0 \<longrightarrow> cmp x z \<le> 0)"

definition qsort_spec :: "'a qsort \<Rightarrow> bool" where
  "qsort_spec qs \<longleftrightarrow>
     (\<forall>cmp xs. mset (qs cmp xs) = mset xs \<and>
        (cmp_ok cmp (set xs) \<longrightarrow> sorted_wrt (\<lambda>x y. cmp x y \<le> 0) (qs cmp xs)))"

fun ins_cmp :: "('a \<Rightarrow> 'a \<Rightarrow> int) \<Rightarrow> 'a \<Rightarrow> 'a list \<Rightarrow> 'a list" where
  "ins_cmp cmp x [] = [x]"
| "ins_cmp cmp x (y # ys) = (if cmp x y \<le> 0 then x # y # ys else y # ins_cmp cmp x ys)"

definition insort_cmp :: "'a qsort" where
  "insort_cmp cmp xs = foldr (ins_cmp cmp) xs []"

lemma mset_ins_cmp [simp]: "mset (ins_cmp cmp x ys) = add_mset x (mset ys)"
  by (induction ys) auto

lemma mset_insort_cmp [simp]: "mset (insort_cmp cmp xs) = mset xs"
  by (induction xs) (auto simp: insort_cmp_def)

lemma set_ins_cmp [simp]: "set (ins_cmp cmp x ys) = insert x (set ys)"
  by (metis mset_ins_cmp set_mset_add_mset_insert set_mset_mset)

lemma cmp_ok_subset: "cmp_ok cmp A \<Longrightarrow> B \<subseteq> A \<Longrightarrow> cmp_ok cmp B"
  unfolding cmp_ok_def by (meson subsetD)

lemma cmp_ok_trans:
  "cmp_ok cmp A \<Longrightarrow> x \<in> A \<Longrightarrow> y \<in> A \<Longrightarrow> z \<in> A \<Longrightarrow> cmp x y \<le> 0 \<Longrightarrow> cmp y z \<le> 0 \<Longrightarrow> cmp x z \<le> 0"
  unfolding cmp_ok_def by blast

lemma sorted_ins_cmp:
  "cmp_ok cmp (insert x (set ys)) \<Longrightarrow> sorted_wrt (\<lambda>x y. cmp x y \<le> 0) ys \<Longrightarrow>
   sorted_wrt (\<lambda>x y. cmp x y \<le> 0) (ins_cmp cmp x ys)"
proof (induction ys)
  case (Cons y ys)
  have ok: "cmp_ok cmp (insert x (set ys))"
    using Cons.prems(1) by (rule cmp_ok_subset) auto
  show ?case
  proof (cases "cmp x y \<le> 0")
    case True
    have "cmp x z \<le> 0" if "z \<in> set ys" for z
      by (rule cmp_ok_trans [OF Cons.prems(1) _ _ _ True]) (use Cons.prems(2) that in auto)
    with True Cons.prems(2) show ?thesis by simp
  next
    case False
    then have "cmp y x < 0" using Cons.prems(1) unfolding cmp_ok_def by simp
    moreover have "sorted_wrt (\<lambda>x y. cmp x y \<le> 0) (ins_cmp cmp x ys)"
      using Cons.IH [OF ok] Cons.prems(2) by simp
    ultimately show ?thesis using False Cons.prems(2) by simp
  qed
qed simp

lemma sorted_insort_cmp:
  "cmp_ok cmp (set xs) \<Longrightarrow> sorted_wrt (\<lambda>x y. cmp x y \<le> 0) (insort_cmp cmp xs)"
proof (induction xs)
  case (Cons x xs)
  have s: "set (insort_cmp cmp xs) = set xs" by (metis mset_insort_cmp set_mset_mset)
  have "cmp_ok cmp (set xs)" using Cons.prems by (rule cmp_ok_subset) auto
  then have "sorted_wrt (\<lambda>x y. cmp x y \<le> 0) (ins_cmp cmp x (insort_cmp cmp xs))"
    using Cons by (intro sorted_ins_cmp) (simp_all add: s)
  then show ?case by (simp add: insort_cmp_def)
qed (simp add: insort_cmp_def)

lemma qsort_spec_insort_cmp: "qsort_spec insort_cmp"
  unfolding qsort_spec_def by (intro allI conjI impI sorted_insort_cmp mset_insort_cmp)

lemma qsort_mset: "qsort_spec qs \<Longrightarrow> mset (qs cmp xs) = mset xs"
  by (simp add: qsort_spec_def)

lemma qsort_set: "qsort_spec qs \<Longrightarrow> set (qs cmp xs) = set xs"
  by (metis qsort_mset set_mset_mset)

lemma qsort_length: "qsort_spec qs \<Longrightarrow> length (qs cmp xs) = length xs"
  by (metis qsort_mset size_mset)

lemma qsort_sorted: "qsort_spec qs \<Longrightarrow> cmp_ok cmp (set xs) \<Longrightarrow> sorted_wrt (\<lambda>x y. cmp x y \<le> 0) (qs cmp xs)"
  by (simp add: qsort_spec_def)

end
