(* ===== verification/Bytes.thy ===== *)
theory Bytes
  imports Prelude
begin

text \<open>
  The byte packing helpers of \<^verbatim>\<open>src/src/datum_utils.h\<close>: \<^verbatim>\<open>upk_u16le\<close>,
  \<^verbatim>\<open>upk_u32le\<close>, \<^verbatim>\<open>upk_u64le\<close> read a little-endian integer at an offset of a
  buffer, \<^verbatim>\<open>pk_u16le\<close>, \<^verbatim>\<open>pk_u32le\<close>, \<^verbatim>\<open>pk_u64le\<close> write one. A buffer is
  the list of its bytes; the C code may only be called with the whole field inside the buffer, which
  is the hypothesis of the lemmas below. The locale \<open>le_codec\<close> is the contract the header and
  share code relies on: a write is read back, leaves the rest of the buffer alone and keeps its size.
\<close>

section \<open>Operations\<close>

definition datum_align_sz :: "u64 \<Rightarrow> u64 \<Rightarrow> u64" where
  "datum_align_sz min_sz alignment = (min_sz + alignment - 1) div alignment * alignment"

definition upk_u8 :: "bytes \<Rightarrow> nat \<Rightarrow> u8" where
  "upk_u8 buf offset = buf ! offset"

definition upk_u16le :: "bytes \<Rightarrow> nat \<Rightarrow> u16" where
  "upk_u16le buf offset =
     push_bit 0 (ucast (buf ! (offset + 0)))
     OR push_bit 8 (ucast (buf ! (offset + 1)))"

definition upk_u32le :: "bytes \<Rightarrow> nat \<Rightarrow> u32" where
  "upk_u32le buf offset =
     push_bit 0 (ucast (buf ! (offset + 0)))
     OR push_bit 8 (ucast (buf ! (offset + 1)))
     OR push_bit 16 (ucast (buf ! (offset + 2)))
     OR push_bit 24 (ucast (buf ! (offset + 3)))"

definition upk_u64le :: "bytes \<Rightarrow> nat \<Rightarrow> u64" where
  "upk_u64le buf offset =
     push_bit 0 (ucast (buf ! (offset + 0)))
     OR push_bit 8 (ucast (buf ! (offset + 1)))
     OR push_bit 16 (ucast (buf ! (offset + 2)))
     OR push_bit 24 (ucast (buf ! (offset + 3)))
     OR push_bit 32 (ucast (buf ! (offset + 4)))
     OR push_bit 40 (ucast (buf ! (offset + 5)))
     OR push_bit 48 (ucast (buf ! (offset + 6)))
     OR push_bit 56 (ucast (buf ! (offset + 7)))"

definition pk_u8 :: "bytes \<Rightarrow> nat \<Rightarrow> u8 \<Rightarrow> bytes" where
  "pk_u8 buf offset nv = buf[offset := nv]"

definition pk_u16le :: "bytes \<Rightarrow> nat \<Rightarrow> u16 \<Rightarrow> bytes" where
  "pk_u16le buf offset nv =
     buf[offset + 0 := ucast (drop_bit 0 nv AND 0xff),
         offset + 1 := ucast (drop_bit 8 nv AND 0xff)]"

definition pk_u32le :: "bytes \<Rightarrow> nat \<Rightarrow> u32 \<Rightarrow> bytes" where
  "pk_u32le buf offset nv =
     buf[offset + 0 := ucast (drop_bit 0 nv AND 0xff),
         offset + 1 := ucast (drop_bit 8 nv AND 0xff),
         offset + 2 := ucast (drop_bit 16 nv AND 0xff),
         offset + 3 := ucast (drop_bit 24 nv AND 0xff)]"

definition pk_u64le :: "bytes \<Rightarrow> nat \<Rightarrow> u64 \<Rightarrow> bytes" where
  "pk_u64le buf offset nv =
     buf[offset + 0 := ucast (drop_bit 0 nv AND 0xff),
         offset + 1 := ucast (drop_bit 8 nv AND 0xff),
         offset + 2 := ucast (drop_bit 16 nv AND 0xff),
         offset + 3 := ucast (drop_bit 24 nv AND 0xff),
         offset + 4 := ucast (drop_bit 32 nv AND 0xff),
         offset + 5 := ucast (drop_bit 40 nv AND 0xff),
         offset + 6 := ucast (drop_bit 48 nv AND 0xff),
         offset + 7 := ucast (drop_bit 56 nv AND 0xff)]"

section \<open>The contract of a little-endian codec\<close>

locale le_codec =
  fixes width :: nat
    and upk :: "bytes \<Rightarrow> nat \<Rightarrow> 'a::len word"
    and pk :: "bytes \<Rightarrow> nat \<Rightarrow> 'a word \<Rightarrow> bytes"
  assumes length_pk: "length (pk buf off v) = length buf"
    and pk_nth: "i < off \<or> off + width \<le> i \<Longrightarrow> pk buf off v ! i = buf ! i"
    and upk_pk: "off + width \<le> length buf \<Longrightarrow> upk (pk buf off v) off = v"
    and unat_upk: "off + width \<le> length buf \<Longrightarrow> unat (upk buf off) = le_val (take width (drop off buf))"
begin

lemma upk_pk_other:
  assumes "off' + width \<le> off \<or> off + width \<le> off'" and "off' + width \<le> length buf"
  shows "upk (pk buf off v) off' = upk buf off'"
proof -
  have "take width (drop off' (pk buf off v)) = take width (drop off' buf)"
    using assms by (intro nth_equalityI) (auto simp: length_pk pk_nth)
  then show ?thesis
    using unat_upk [of off' buf] unat_upk [of off' "pk buf off v"] assms(2)
    by (simp add: length_pk word_unat_eq_iff)
qed

lemma le_val_pk:
  "off + width \<le> length buf \<Longrightarrow> le_val (take width (drop off (pk buf off v))) = unat v"
  using unat_upk [of off "pk buf off v"] by (simp add: length_pk upk_pk)

lemma pk_split:
  assumes "off + width \<le> length buf"
  shows "pk buf off v = take off buf @ le_bytes width (unat v) @ drop (off + width) buf"
proof -
  let ?p = "pk buf off v"
  have "?p = take off ?p @ take width (drop off ?p) @ drop (off + width) ?p"
    by (metis append_take_drop_id drop_drop add.commute)
  moreover have "take off ?p = take off buf"
    by (rule nth_equalityI) (auto simp: length_pk pk_nth)
  moreover have "drop (off + width) ?p = drop (off + width) buf"
    using assms by (intro nth_equalityI) (auto simp: length_pk pk_nth)
  moreover have "take width (drop off ?p) = le_bytes width (unat v)"
    using le_bytes_val [of "take width (drop off ?p)"] assms by (simp add: length_pk le_val_pk)
  ultimately show ?thesis by simp
qed

end

section \<open>Values of packed words\<close>

text \<open>
  \<open>le_word bs\<close> assembles a word from its bytes, least significant first; each unpacking
  function is an instance, so its value is computed once here for every width.
\<close>

primrec le_word :: "bytes \<Rightarrow> 'a::len word" where
  "le_word [] = 0"
| "le_word (b # bs) = ucast b OR push_bit 8 (le_word bs)"

lemma unat_or_push8:
  assumes l: "8 \<le> LENGTH('a::len)" and x: "unat x < 2 ^ (LENGTH('a) - 8)"
  shows "unat (ucast (b :: u8) OR push_bit 8 (x :: 'a word)) = unat b + 256 * unat x"
proof -
  have d: "(ucast b :: 'a word) AND push_bit 8 x = 0"
    by (rule bit_word_eqI) (auto simp: bit_simps dest: bit_imp_le_length)
  have "256 * Suc (unat x) \<le> 2 ^ 8 * 2 ^ (LENGTH('a) - 8)" using x by simp
  also have "\<dots> = 2 ^ LENGTH('a)" using l by (metis le_add_diff_inverse power_add)
  finally have "256 + 256 * unat x \<le> 2 ^ LENGTH('a)" by simp
  then have s: "unat b + 256 * unat x < 2 ^ LENGTH('a)"
    using unat_u8_less [of b] by linarith
  then have m: "unat (push_bit 8 x) = 256 * unat x"
    by (simp add: unsigned_push_bit_eq take_bit_nat_eq_self)
       (simp add: push_bit_eq_mult take_bit_nat_eq_self)
  have "ucast b OR push_bit 8 x = ucast b + push_bit 8 x"
    by (simp add: disjunctive_add_eq_or [OF d])
  then show ?thesis
    using s l by (simp add: unat_word_ariths m unat_ucast_up)
qed

lemma unat_le_word:
  "8 * length bs \<le> LENGTH('a::len) \<Longrightarrow> unat (le_word bs :: 'a word) = le_val bs"
proof (induction bs)
  case (Cons b bs)
  then have v: "unat (le_word bs :: 'a word) = le_val bs" by simp
  have "le_val bs < 2 ^ (8 * length bs)"
    using le_val_less [of bs] by (simp add: power_mult)
  also have "\<dots> \<le> 2 ^ (LENGTH('a) - 8)"
    using Cons.prems by (intro power_increasing) auto
  finally have "unat (le_word bs :: 'a word) < 2 ^ (LENGTH('a) - 8)" by (simp add: v)
  then show ?case using Cons.prems by (simp add: unat_or_push8 v)
qed simp

lemma take_drop_Suc:
  "off + Suc n \<le> length xs \<Longrightarrow> take (Suc n) (drop off xs) = xs ! off # take n (drop (Suc off) xs)"
  by (simp add: Cons_nth_drop_Suc [symmetric])

lemma upk_u16le_word: "off + 2 \<le> length buf \<Longrightarrow> upk_u16le buf off = le_word (take 2 (drop off buf))"
  by (simp add: upk_u16le_def take_drop_Suc numeral_2_eq_2 push_bit_or or.assoc)

lemma upk_u32le_word: "off + 4 \<le> length buf \<Longrightarrow> upk_u32le buf off = le_word (take 4 (drop off buf))"
  by (simp add: upk_u32le_def take_drop_Suc numeral_eq_Suc push_bit_or or.assoc)

lemma upk_u64le_word: "off + 8 \<le> length buf \<Longrightarrow> upk_u64le buf off = le_word (take 8 (drop off buf))"
  by (simp add: upk_u64le_def take_drop_Suc numeral_eq_Suc push_bit_or or.assoc)

lemma ucast_drop_bit: "(ucast (drop_bit k x) :: u8) = word_of_nat (unat (x :: 'a::len word) div 2 ^ k)"
proof -
  have "(ucast (drop_bit k x) :: u8) = word_of_nat (unat (drop_bit k x))" by simp
  then show ?thesis by (simp only: unat_drop_bit_div)
qed

lemma ucast_and_ff: "(ucast (x AND 0xff) :: u8) = ucast (x :: 'a::len word)"
proof -
  have ff: "(0xff :: 'a word) = mask 8" by (simp add: mask_eq_exp_minus_1)
  show ?thesis unfolding ff
    by (rule bit_word_eqI) (auto simp: bit_simps dest: bit_imp_le_length)
qed

lemma le_bytes_map: "le_bytes n v = map (\<lambda>i. word_of_nat (v div 2 ^ (8 * i))) [0..<n]"
proof (induction n arbitrary: v)
  case (Suc n)
  have "[0..<Suc n] = 0 # map Suc [0..<n]" by (simp add: upt_conv_Cons map_Suc_upt del: upt_Suc)
  then show ?case by (simp add: Suc div_mult2_eq [symmetric] power_add o_def del: upt_Suc)
qed simp

lemma take_drop_map: "off + n \<le> length xs \<Longrightarrow> take n (drop off xs) = map (\<lambda>i. xs ! (off + i)) [0..<n]"
  by (rule nth_equalityI) auto

lemma upt_2_4_8:
  "[0..<2] = [0, 1]" "[0..<4] = [0, 1, 2, 3]" "[0..<8] = [0, 1, 2, 3, 4, 5, 6, 7]"
  by (simp_all add: upt_rec)

lemmas pk_field = take_drop_map le_bytes_map upt_2_4_8 ucast_and_ff ucast_drop_bit

lemma pk_u16le_field:
  "off + 2 \<le> length buf \<Longrightarrow> take 2 (drop off (pk_u16le buf off v)) = le_bytes 2 (unat v)"
  by (simp add: pk_u16le_def pk_field)

lemma pk_u32le_field:
  "off + 4 \<le> length buf \<Longrightarrow> take 4 (drop off (pk_u32le buf off v)) = le_bytes 4 (unat v)"
  by (simp add: pk_u32le_def pk_field)

lemma pk_u64le_field:
  "off + 8 \<le> length buf \<Longrightarrow> take 8 (drop off (pk_u64le buf off v)) = le_bytes 8 (unat v)"
  by (simp add: pk_u64le_def pk_field)

section \<open>The three codecs meet the contract\<close>

interpretation u16: le_codec 2 upk_u16le pk_u16le
proof
  fix buf :: bytes and v :: u16 and off assume "off + 2 \<le> length buf"
  moreover have "length (pk_u16le buf off v) = length buf" by (simp add: pk_u16le_def)
  ultimately show "upk_u16le (pk_u16le buf off v) off = v"
    using unsigned_less [of v, where 'a = nat]
    by (simp add: upk_u16le_word pk_u16le_field word_unat_eq_iff unat_le_word le_val_bytes)
qed (auto simp: pk_u16le_def upk_u16le_word unat_le_word nth_list_update)

interpretation u32: le_codec 4 upk_u32le pk_u32le
proof
  fix buf :: bytes and v :: u32 and off assume "off + 4 \<le> length buf"
  moreover have "length (pk_u32le buf off v) = length buf" by (simp add: pk_u32le_def)
  ultimately show "upk_u32le (pk_u32le buf off v) off = v"
    using unsigned_less [of v, where 'a = nat]
    by (simp add: upk_u32le_word pk_u32le_field word_unat_eq_iff unat_le_word le_val_bytes)
qed (auto simp: pk_u32le_def upk_u32le_word unat_le_word nth_list_update)

interpretation u64: le_codec 8 upk_u64le pk_u64le
proof
  fix buf :: bytes and v :: u64 and off assume "off + 8 \<le> length buf"
  moreover have "length (pk_u64le buf off v) = length buf" by (simp add: pk_u64le_def)
  ultimately show "upk_u64le (pk_u64le buf off v) off = v"
    using unsigned_less [of v, where 'a = nat]
    by (simp add: upk_u64le_word pk_u64le_field word_unat_eq_iff unat_le_word le_val_bytes)
qed (auto simp: pk_u64le_def upk_u64le_word unat_le_word nth_list_update)

lemmas [buf_simps] = u16.length_pk u32.length_pk u64.length_pk u16.pk_split u32.pk_split u64.pk_split

section \<open>Block copies\<close>

text \<open>memcpy of a whole source into a buffer at an offset; memset is the copy of a constant block.\<close>

definition memcpy :: "bytes \<Rightarrow> nat \<Rightarrow> bytes \<Rightarrow> bytes" where
  "memcpy buf off src = take off buf @ src @ drop (off + length src) buf"

definition memset :: "bytes \<Rightarrow> nat \<Rightarrow> u8 \<Rightarrow> nat \<Rightarrow> bytes" where
  "memset buf off v n = memcpy buf off (replicate n v)"

lemma length_memcpy [simp]: "off + length src \<le> length buf \<Longrightarrow> length (memcpy buf off src) = length buf"
  by (simp add: memcpy_def)

lemma length_memset [simp]: "off + n \<le> length buf \<Longrightarrow> length (memset buf off v n) = length buf"
  by (simp add: memset_def)

lemma pk_memcpy:
  "off + 2 \<le> length buf \<Longrightarrow> pk_u16le buf off v = memcpy buf off (le_bytes 2 (unat v))"
  "off + 4 \<le> length buf \<Longrightarrow> pk_u32le buf off w = memcpy buf off (le_bytes 4 (unat w))"
  "off + 8 \<le> length buf \<Longrightarrow> pk_u64le buf off x = memcpy buf off (le_bytes 8 (unat x))"
  by (simp_all add: u16.pk_split u32.pk_split u64.pk_split memcpy_def)

lemma upd_memcpy: "off < length buf \<Longrightarrow> buf[off := b] = memcpy buf off [b]"
  by (simp add: memcpy_def upd_conv_take_nth_drop)

primrec write_all :: "bytes list \<Rightarrow> nat \<Rightarrow> bytes \<Rightarrow> bytes" where
  "write_all [] off buf = buf"
| "write_all (bs # bss) off buf = write_all bss (off + length bs) (memcpy buf off bs)"

text \<open>Copies that follow one another fill the buffer with the concatenation of the fields.\<close>

lemma write_all_concat:
  "off + length (concat bss) \<le> length buf \<Longrightarrow>
    write_all bss off buf = take off buf @ concat bss @ drop (off + length (concat bss)) buf"
proof (induction bss arbitrary: off buf)
  case (Cons bs bss)
  let ?b = "memcpy buf off bs"
  have l: "off \<le> length buf" using Cons.prems by simp
  then have "take (off + length bs) ?b = take off buf @ bs"
    by (simp add: memcpy_def min_def)
  moreover have "drop (off + length bs + length (concat bss)) ?b = drop (off + length bs + length (concat bss)) buf"
    using l by (simp add: memcpy_def min_def) (simp add: add.commute)
  moreover have "write_all bss (off + length bs) ?b
      = take (off + length bs) ?b @ concat bss @ drop (off + length bs + length (concat bss)) ?b"
    using Cons.prems by (intro Cons.IH) simp
  ultimately show ?case by (simp add: add.assoc)
qed simp

text \<open>A field of a concatenation, by the lengths of what stands before it.\<close>

lemma take_drop_field: "length pre = off \<Longrightarrow> length f = n \<Longrightarrow> take n (drop off (pre @ f @ post)) = f"
  by simp

end
