(* ===== verification/Targets.thy ===== *)
theory Targets
  imports Bytes "HOL-Library.Log_Nat"
begin

text \<open>
  Difficulty and target arithmetic of \<^verbatim>\<open>src/src/datum_utils.c\<close>: the 256-bit share target of a
  difficulty (\<^verbatim>\<open>get_target_from_diff\<close>), the target of a compact \<^verbatim>\<open>nbits\<close> field
  (\<^verbatim>\<open>nbits_to_target\<close>), the comparison of hashes with targets (\<^verbatim>\<open>compare_hashes\<close>),
  the block subsidy (\<^verbatim>\<open>block_reward\<close>), and both variants of the power-of-two helpers.
  A target is its 32 bytes, least significant first, so its value is \<open>le_val\<close>. Behaviour that
  traps or is undefined in C (division by zero, a write past the 32-byte buffer) is \<open>None\<close>.
\<close>

section \<open>Share targets\<close>

definition dividend_parts :: "u64 list" where
  "dividend_parts = [0, 0, 0, 0x00000000FFFF0000]"

definition put_quotient :: "u64 \<Rightarrow> nat \<Rightarrow> bytes \<Rightarrow> bytes" where
  "put_quotient quot i result =
     fold (\<lambda>j r. r[8 * i + j := ucast (drop_bit (8 * j) quot AND 0xFF)]) [0..<8] result"

definition target_step :: "u64 \<Rightarrow> nat \<Rightarrow> u64 \<times> bytes \<Rightarrow> u64 \<times> bytes" where
  "target_step diff i = (\<lambda>(remainder, result).
     let temp = (push_bit 64 (ucast remainder) OR ucast (dividend_parts ! i) :: 128 word);
         quot = ucast (temp div ucast diff);
         remainder' = ucast (temp mod ucast diff)
     in (remainder', put_quotient quot i result))"

definition get_target_from_diff :: "u64 \<Rightarrow> bytes option" where
  "get_target_from_diff diff =
     (if diff = 0 then None
      else Some (snd (fold (target_step diff) [3, 2, 1, 0] (0, replicate 32 0))))"

section \<open>Compact targets\<close>

definition nbits_to_target :: "u32 \<Rightarrow> bytes option" where
  "nbits_to_target nbits =
     (let exponent = drop_bit 24 nbits AND 0xff;
          mantissa = nbits AND 0xffffff;
          target = replicate 32 0
      in if exponent \<le> 3 then
           (let mantissa' = drop_bit (8 * (3 - unat exponent)) mantissa
            in Some (fold (\<lambda>i t. t[i := ucast (drop_bit (8 * i) mantissa' AND 0xff)]) [0..<3] target))
         else if unat exponent \<le> 32 then
           Some (fold (\<lambda>i t. t[i + unat exponent - 3 := ucast (drop_bit (8 * i) mantissa AND 0xff)]) [0..<3] target)
         else None)"

section \<open>Comparing a hash with a target\<close>

fun compare_from :: "nat \<Rightarrow> bytes \<Rightarrow> bytes \<Rightarrow> int" where
  "compare_from 0 share_hash target = 0"
| "compare_from (Suc i) share_hash target =
     (if share_hash ! i < target ! i then -1
      else if share_hash ! i > target ! i then 1
      else compare_from i share_hash target)"

definition compare_hashes :: "bytes \<Rightarrow> bytes \<Rightarrow> int" where
  "compare_hashes share_hash target = compare_from 32 share_hash target"

section \<open>Subsidy\<close>

definition block_reward :: "u32 \<Rightarrow> u64" where
  "block_reward block_height =
     (let reward = 5000000000; halvings = block_height div 210000
      in if halvings \<ge> 64 then 0 else drop_bit (unat halvings) reward)"

section \<open>Powers of two\<close>

text \<open>\<open>builtin_clzll\<close> is the compiler's count of leading zero bits, undefined at 0.\<close>

definition builtin_clzll :: "u64 \<Rightarrow> nat" where
  "builtin_clzll x = length (takeWhile (\<lambda>i. \<not> bit x i) (rev [0..<64]))"

definition roundDownToPowerOfTwo_64 :: "u64 \<Rightarrow> u64" where
  "roundDownToPowerOfTwo_64 x = push_bit (63 - builtin_clzll x) 1"

definition floorPoT :: "u64 \<Rightarrow> u8" where
  "floorPoT x = (if x = 0 then 0 else word_of_nat (63 - builtin_clzll x))"

definition roundDownToPowerOfTwo_64_portable :: "u64 \<Rightarrow> u64" where
  "roundDownToPowerOfTwo_64_portable x =
     (let x = x OR drop_bit 1 x;
          x = x OR drop_bit 2 x;
          x = x OR drop_bit 4 x;
          x = x OR drop_bit 8 x;
          x = x OR drop_bit 16 x;
          x = x OR drop_bit 32 x
      in x - drop_bit 1 x)"

function floorPoT_loop :: "u64 \<Rightarrow> u8 \<Rightarrow> u8" where
  "floorPoT_loop x pos =
     (let x' = drop_bit 1 x in if x' = 0 then pos else floorPoT_loop x' (pos + 1))"
  by pat_completeness auto
termination
proof (relation "measure (\<lambda>(x, pos). unat x)")
  fix x x' :: u64 and pos :: u8
  assume "x' = drop_bit 1 x" and "x' \<noteq> 0"
  then show "((x', pos + 1), x, pos) \<in> measure (\<lambda>(x, pos). unat x)"
    by (cases "x = 0") (auto simp: unat_drop_bit_div unat_gt_0)
qed simp

definition floorPoT_portable :: "u64 \<Rightarrow> u8" where
  "floorPoT_portable x = (if x = 0 then 0 else floorPoT_loop x 0)"

declare floorPoT_loop.simps [simp del]

lemma put_quotient_pk: "put_quotient q i r = pk_u64le r (8 * i) q"
  by (simp add: put_quotient_def pk_u64le_def upt_2_4_8)

lemma unat_temp:
  "unat (push_bit 64 (ucast (r :: u64)) OR ucast (p :: u64) :: 128 word) = unat r * 2 ^ 64 + unat p"
proof -
  let ?a = "push_bit 64 (ucast r) :: 128 word" and ?b = "ucast p :: 128 word"
  have "?a AND ?b = 0"
    by (rule bit_word_eqI) (auto simp: bit_simps dest: bit_imp_le_length)
  then have "?a OR ?b = ?a + ?b" by (simp add: disjunctive_add_eq_or)
  moreover have "unat ?b = unat p" "unat (ucast r :: 128 word) = unat r"
    by (rule unat_ucast_up, simp)+
  moreover have "unat r * 2 ^ 64 + unat p < 2 ^ 128"
  proof -
    have "a < 2 ^ 64 \<Longrightarrow> b < 2 ^ 64 \<Longrightarrow> a * 2 ^ 64 + b < (2::nat) ^ 128" for a b by simp
    then show ?thesis by this simp_all
  qed
  ultimately show ?thesis
    by (simp add: unat_word_ariths push_bit_eq_mult)
qed

definition target_inv :: "nat \<Rightarrow> nat \<Rightarrow> nat \<Rightarrow> u64 \<times> bytes \<Rightarrow> bool" where
  "target_inv d h i = (\<lambda>(rem, res). length res = 32 \<and> take (8 * i) res = replicate (8 * i) 0
     \<and> le_val (drop (8 * i) res) * d + unat rem = h \<and> unat rem < d)"

lemma target_inv_step:
  assumes inv: "target_inv (unat diff) h j st" and j: "j = Suc i" and i: "i < 4"
  shows "target_inv (unat diff) (h * 2 ^ 64 + unat (dividend_parts ! i)) i (target_step diff i st)"
proof -
  obtain rem res where st: "st = (rem, res)" by (cases st)
  let ?d = "unat diff" and ?p = "unat (dividend_parts ! i)"
  let ?temp = "push_bit 64 (ucast rem) OR ucast (dividend_parts ! i) :: 128 word"
  let ?t = "unat rem * 2 ^ 64 + ?p"
  let ?q = "ucast (?temp div ucast diff) :: u64" and ?r = "ucast (?temp mod ucast diff) :: u64"
  from inv have len: "length res = 32" and z: "take (8 * Suc i) res = replicate (8 * Suc i) 0"
    and v: "le_val (drop (8 * Suc i) res) * ?d + unat rem = h" and rd: "unat rem < ?d"
    by (auto simp: target_inv_def st j)
  have dl: "?d < 2 ^ 64" and pl: "?p < 2 ^ 64"
    by simp_all
  have d128: "unat (ucast diff :: 128 word) = ?d"
    by (rule unat_ucast_up) simp
  have "?t < Suc (unat rem) * 2 ^ 64" using pl by simp
  also have "\<dots> \<le> ?d * 2 ^ 64" using rd by (intro mult_le_mono1) simp
  finally have "?t div ?d < 2 ^ 64" by (simp add: less_mult_imp_div_less mult.commute)
  moreover have "unat (?temp div ucast diff) = ?t div ?d"
    by (simp only: unat_div_distrib unat_temp d128)
  ultimately have q: "unat ?q = ?t div ?d" by (subst unat_ucast_mod) simp
  have "?t mod ?d < ?d" using rd by (intro mod_less_divisor) linarith
  then have "?t mod ?d < 2 ^ 64" using dl by (rule less_trans)
  moreover have "unat (?temp mod ucast diff) = ?t mod ?d"
    by (simp only: unat_mod_distrib unat_temp d128)
  ultimately have r: "unat ?r = ?t mod ?d" by (subst unat_ucast_mod) simp
  have s: "pk_u64le res (8 * i) ?q = take (8 * i) res @ le_bytes 8 (unat ?q) @ drop (8 * i + 8) res"
    using i len by (intro u64.pk_split) simp
  have t: "take (8 * i) res = replicate (8 * i) 0"
    using arg_cong [OF z, of "take (8 * i)"] by (simp add: min_def)
  have "drop (8 * i) (pk_u64le res (8 * i) ?q) = le_bytes 8 (unat ?q) @ drop (8 * Suc i) res"
    using len i by (simp add: s add.commute)
  then have "le_val (drop (8 * i) (pk_u64le res (8 * i) ?q)) = unat ?q + 2 ^ 64 * le_val (drop (8 * Suc i) res)"
    by (simp only: le_val_append le_val_bytes) simp
  moreover have "(?t div ?d + 2 ^ 64 * le_val (drop (8 * Suc i) res)) * ?d + ?t mod ?d = h * 2 ^ 64 + ?p"
  proof -
    have "(?t div ?d + 2 ^ 64 * L) * ?d + ?t mod ?d = (?t div ?d * ?d + ?t mod ?d) + 2 ^ 64 * L * ?d" for L
      by (simp only: algebra_simps)
    then show ?thesis unfolding v [symmetric] by (simp only: div_mult_mod_eq) (simp only: algebra_simps)
  qed
  moreover have "length (pk_u64le res (8 * i) ?q) = 32" using len by (simp add: u64.length_pk)
  moreover have "?t mod ?d < ?d" using rd by (simp add: gr_implies_not0)
  moreover have "target_step diff i st = (?r, pk_u64le res (8 * i) ?q)"
    by (simp add: st target_step_def Let_def put_quotient_pk)
  moreover have "take (8 * i) (pk_u64le res (8 * i) ?q) = replicate (8 * i) 0"
    using len i by (simp add: s t)
  ultimately show ?thesis
    unfolding target_inv_def by (simp only: q r prod.case)
qed

text \<open>The target written for a nonzero difficulty is 32 bytes whose little-endian value is the floor of
  the difficulty-1 target 0xFFFF * 2^208 divided by the difficulty: the long division over 32-bit limbs loses nothing.\<close>

theorem get_target_from_diff_value:
  assumes "diff \<noteq> 0"
  shows "\<exists>t. get_target_from_diff diff = Some t \<and> length t = 32
    \<and> le_val t = 0xFFFF * 2 ^ 208 div unat diff"
proof -
  have d: "unat diff > 0" using assms by (simp add: unat_gt_0)
  have "target_inv (unat diff) 0 4 (0, replicate 32 0)"
    using d by (simp add: target_inv_def)
  note step = target_inv_step [where diff = diff]
  define s3 where "s3 = target_step diff 3 (0, replicate 32 0)"
  define s2 where "s2 = target_step diff 2 s3"
  define s1 where "s1 = target_step diff 1 s2"
  obtain rem res where s0: "target_step diff 0 s1 = (rem, res)" by (cases "target_step diff 0 s1")
  have "target_inv (unat diff) (0 * 2 ^ 64 + unat (dividend_parts ! 3)) 3 s3"
    unfolding s3_def by (rule step) (use d in \<open>simp_all add: target_inv_def\<close>)
  then have "target_inv (unat diff) ((0 * 2 ^ 64 + unat (dividend_parts ! 3)) * 2 ^ 64 + unat (dividend_parts ! 2)) 2 s2"
    unfolding s2_def by (rule step) simp_all
  then have "target_inv (unat diff) (((0 * 2 ^ 64 + unat (dividend_parts ! 3)) * 2 ^ 64 + unat (dividend_parts ! 2)) * 2 ^ 64
      + unat (dividend_parts ! 1)) 1 s1"
    unfolding s1_def by (rule step) simp_all
  then have "target_inv (unat diff) ((((0 * 2 ^ 64 + unat (dividend_parts ! 3)) * 2 ^ 64 + unat (dividend_parts ! 2)) * 2 ^ 64
      + unat (dividend_parts ! 1)) * 2 ^ 64 + unat (dividend_parts ! 0)) 0 (rem, res)"
    unfolding s0 [symmetric] by (rule step) simp_all
  then have inv: "target_inv (unat diff) (0xFFFF * 2 ^ 208) 0 (rem, res)"
    by (simp add: dividend_parts_def)
  then have v: "0xFFFF * 2 ^ 208 = le_val res * unat diff + unat rem" and "unat rem < unat diff"
    and len: "length res = 32"
    by (auto simp: target_inv_def)
  then have "0xFFFF * 2 ^ 208 div unat diff = le_val res" unfolding v by simp
  moreover have "get_target_from_diff diff = Some res"
    using assms s0 by (simp add: get_target_from_diff_def s1_def s2_def s3_def)
  ultimately show ?thesis using len by simp
qed

theorem get_target_from_diff_value_witness:
  "\<exists>t. get_target_from_diff 1000 = Some t \<and> le_val t = 0xFFFF * 2 ^ 208 div 1000"
  using get_target_from_diff_value [of 1000] by auto

section \<open>Compact targets, comparison, subsidy\<close>

lemma le_val_three:
  assumes "k + 3 \<le> 32"
  shows "le_val ((replicate 32 0)[k := a, Suc k := b, Suc (Suc k) := c])
     = 256 ^ k * (unat a + 256 * unat b + 65536 * unat c)"
proof -
  have "(replicate 32 0)[k := a, Suc k := b, Suc (Suc k) := c]
     = replicate k 0 @ [a, b, c] @ replicate (29 - k) 0"
    using assms by (intro nth_equalityI) (auto simp: nth_append nth_list_update nth_Cons split: nat.splits)
  then show ?thesis by (simp add: le_val_append)
qed

lemma le_val_split3:
  assumes "m < 2 ^ 24"
  shows "unat (word_of_nat m :: u8) + 256 * unat (word_of_nat (m div 2 ^ 8) :: u8)
     + 65536 * unat (word_of_nat (m div 2 ^ 16) :: u8) = m"
proof -
  have "le_bytes 3 m = [word_of_nat m, word_of_nat (m div 2 ^ 8), word_of_nat (m div 2 ^ 16)]"
    by (simp add: le_bytes_map upt_rec)
  then show ?thesis using le_val_bytes [of 3 m] assms by simp
qed

lemma unat_and_mask24: "unat (x AND 0xffffff :: u32) = unat x mod 2 ^ 24"
proof -
  have "(0xffffff :: u32) = mask 24" by (simp add: mask_eq_exp_minus_1)
  then show ?thesis by (simp only: unat_and_mask)
qed

lemma unat_exponent: "unat (drop_bit 24 x AND 0xff :: u32) = unat x div 2 ^ 24"
proof -
  have "(0xff :: u32) = mask 8" by (simp add: mask_eq_exp_minus_1)
  then have "unat (drop_bit 24 x AND 0xff :: u32) = unat x div 2 ^ 24 mod 2 ^ 8"
    by (simp only: unat_and_mask unat_drop_bit_div)
  moreover have "unat x div 2 ^ 24 < 2 ^ 8" by (simp add: less_mult_imp_div_less)
  ultimately show ?thesis by simp
qed

text \<open>Expanding a compact target with exponent at most 32 gives the 32-byte little-endian number that the
  compact form denotes: the 24-bit mantissa shifted by 8 * (exponent - 3) bits, right when the exponent is small.\<close>

theorem nbits_to_target_value:
  assumes "unat nbits div 2 ^ 24 \<le> 32"
  shows "\<exists>t. nbits_to_target nbits = Some t \<and> length t = 32 \<and>
    (let e = unat nbits div 2 ^ 24; m = unat nbits mod 2 ^ 24
     in le_val t = (if e \<le> 3 then m div 2 ^ (8 * (3 - e)) else m * 2 ^ (8 * (e - 3))))"
proof -
  let ?e = "unat nbits div 2 ^ 24" and ?m = "unat nbits mod 2 ^ 24"
  let ?exp = "drop_bit 24 nbits AND 0xff :: u32"
  have ele: "?exp \<le> 3 \<longleftrightarrow> ?e \<le> 3" by (simp add: word_le_nat_alt unat_exponent)
  show ?thesis
  proof (cases "?e \<le> 3")
    case True
    let ?m' = "?m div 2 ^ (8 * (3 - ?e))"
    have "?m' \<le> ?m" by simp
    then have m': "?m' < 2 ^ 24" by (rule le_less_trans) simp
    let ?mw = "drop_bit (8 * (3 - unat ?exp)) (nbits AND 0xffffff)"
    have u: "unat ?mw = ?m'"
      by (simp only: unat_drop_bit_div unat_and_mask24 unat_exponent)
    have "nbits_to_target nbits = Some ((replicate 32 0)[0 := ucast ?mw, Suc 0 := ucast (drop_bit 8 ?mw), Suc (Suc 0) := ucast (drop_bit 16 ?mw)])"
      using True ele by (simp add: nbits_to_target_def Let_def upt_rec ucast_and_ff)
    moreover have "ucast ?mw = (word_of_nat ?m' :: u8)" "ucast (drop_bit 8 ?mw) = (word_of_nat (?m' div 2 ^ 8) :: u8)"
       "ucast (drop_bit 16 ?mw) = (word_of_nat (?m' div 2 ^ 16) :: u8)"
      using ucast_drop_bit [of 0 ?mw] ucast_drop_bit [of 8 ?mw] ucast_drop_bit [of 16 ?mw] unfolding u by simp_all
    ultimately show ?thesis using True le_val_three [of 0] le_val_split3 [OF m'] by (simp add: Let_def numeral_2_eq_2)
  next
    case False
    let ?mw = "nbits AND 0xffffff"
    have u: "unat ?mw = ?m" by (rule unat_and_mask24)
    have "nbits_to_target nbits = Some ((replicate 32 0)[?e - 3 := ucast ?mw, Suc (?e - 3) := ucast (drop_bit 8 ?mw), Suc (Suc (?e - 3)) := ucast (drop_bit 16 ?mw)])"
    proof -
      have "Suc (?e - 3) = ?e - 2" "Suc (Suc (?e - 3)) = ?e - Suc 0" using False by simp_all
      then show ?thesis
        using False ele assms by (simp add: nbits_to_target_def Let_def upt_rec ucast_and_ff unat_exponent)
    qed
    moreover have "ucast ?mw = (word_of_nat ?m :: u8)" "ucast (drop_bit 8 ?mw) = (word_of_nat (?m div 2 ^ 8) :: u8)"
       "ucast (drop_bit 16 ?mw) = (word_of_nat (?m div 2 ^ 16) :: u8)"
      using ucast_drop_bit [of 0 ?mw] ucast_drop_bit [of 8 ?mw] ucast_drop_bit [of 16 ?mw] unfolding u by simp_all
    moreover have "?m < 2 ^ 24" by simp
    ultimately show ?thesis using False assms le_val_three [of "?e - 3"] le_val_split3 [of ?m] 
      by (simp add: Let_def power_mult)
  qed
qed

theorem nbits_to_target_value_witness:
  "\<exists>t. nbits_to_target 0x1d00ffff = Some t \<and> le_val t = 0xFFFF * 2 ^ 208"
  using nbits_to_target_value [of "0x1d00ffff"] by (auto simp: Let_def)

lemma compare_from_sgn:
  "n \<le> length a \<Longrightarrow> n \<le> length b \<Longrightarrow>
   compare_from n a b = sgn (int (le_val (take n a)) - int (le_val (take n b)))"
proof (induction n)
  case (Suc n)
  let ?A = "le_val (take n a)" and ?B = "le_val (take n b)"
  have l: "?A < 256 ^ n" "?B < 256 ^ n"
    using le_val_less [of "take n a"] le_val_less [of "take n b"] Suc.prems by auto
  have s: "le_val (take (Suc n) xs) = le_val (take n xs) + 256 ^ n * unat (xs ! n)" if "Suc n \<le> length xs" for xs
    using that by (simp add: take_Suc_conv_app_nth le_val_append)
  have gt: "x + 256 ^ n * u < y + 256 ^ n * v" if "x < 256 ^ n" "u < v" for x y u v :: nat
  proof -
    have "x + 256 ^ n * u < 256 ^ n * Suc u" using that by simp
    also have "\<dots> \<le> 256 ^ n * v" using that by (intro mult_le_mono2) simp
    finally show ?thesis by simp
  qed
  have sa: "le_val (take (Suc n) a) = ?A + 256 ^ n * unat (a ! n)"
    and sb: "le_val (take (Suc n) b) = ?B + 256 ^ n * unat (b ! n)"
    using s Suc.prems by auto
  show ?case
  proof (cases "unat (a ! n)" "unat (b ! n)" rule: linorder_cases)
    case less
    then have "le_val (take (Suc n) a) < le_val (take (Suc n) b)"
      unfolding sa sb using l by (intro gt)
    with less show ?thesis by (simp add: word_less_nat_alt)
  next
    case equal
    with Suc show ?thesis by (simp add: sa sb word_less_nat_alt)
  next
    case greater
    then have "le_val (take (Suc n) b) < le_val (take (Suc n) a)"
      unfolding sa sb using l by (intro gt)
    with greater show ?thesis by (simp add: word_less_nat_alt)
  qed
qed simp

text \<open>Comparing two 32-byte hashes from the last byte down is the sign of the difference of the
  little-endian numbers they denote.\<close>

theorem compare_hashes_sgn:
  "length a = 32 \<Longrightarrow> length b = 32 \<Longrightarrow> compare_hashes a b = sgn (int (le_val a) - int (le_val b))"
  by (simp add: compare_hashes_def compare_from_sgn)

theorem compare_hashes_sgn_witness:
  "compare_hashes (replicate 32 0) (replicate 31 0 @ [1]) = -1"
proof -
  have "sgn (int (le_val (replicate 32 0)) - int (le_val (replicate 31 0 @ [1]))) = - 1"
    by (simp only: le_val_append le_val_replicate_0) simp
  then show ?thesis using compare_hashes_sgn [of "replicate 32 0" "replicate 31 0 @ [1]"] by simp
qed

text \<open>The block subsidy at every 32-bit height is 50 coins halved once per 210000 blocks, rounded down,
  with no undefined shift after the 64th halving.\<close>

theorem block_reward_value: "unat (block_reward h) = 5000000000 div 2 ^ (unat h div 210000)"
proof -
  have hd: "unat (h div 210000) = unat h div 210000" by (simp add: unat_div_distrib)
  show ?thesis
  proof (cases "unat h div 210000 \<ge> 64")
    case True
    have "(5000000000::nat) < 2 ^ 64" by simp
    also have "\<dots> \<le> 2 ^ (unat h div 210000)" using True by (rule power_increasing) simp
    finally show ?thesis using True by (simp add: block_reward_def Let_def word_le_nat_alt hd)
  next
    case False
    then show ?thesis by (simp add: block_reward_def Let_def word_le_nat_alt hd unat_drop_bit_div)
  qed
qed

section \<open>Powers of two\<close>

definition top_bit :: "u64 \<Rightarrow> nat \<Rightarrow> bool" where
  "top_bit x k \<longleftrightarrow> k < 64 \<and> bit x k \<and> (\<forall>m. bit x m \<longrightarrow> m \<le> k)"

lemma top_bit_ex:
  assumes "x \<noteq> 0" shows "\<exists>k. top_bit x k"
proof -
  let ?S = "{i. bit x i}"
  have fin: "finite ?S" by (rule finite_subset [of _ "{..<64}"]) (auto dest: bit_imp_le_length)
  have "?S \<noteq> {}" using assms by (auto simp: bit_eq_iff)
  with fin have "top_bit x (Max ?S)"
    using Max_in [of ?S] by (auto simp: top_bit_def dest: bit_imp_le_length)
  then show ?thesis ..
qed

lemma top_bit_bounds:
  assumes "top_bit x k"
  shows "2 ^ k \<le> unat x" and "unat x < 2 ^ Suc k"
proof -
  have "odd (unat x div 2 ^ k)" using assms by (simp add: top_bit_def bit_unsigned_iff flip: bit_iff_odd)
  then have "unat x div 2 ^ k \<noteq> 0" by (metis even_zero)
  then show "2 ^ k \<le> unat x" by (simp add: div_eq_0_iff not_less)
  have "take_bit (Suc k) (unat x) = unat x"
    by (rule bit_eqI) (use assms in \<open>auto simp: top_bit_def bit_simps less_Suc_eq_le\<close>)
  then show "unat x < 2 ^ Suc k" by (metis take_bit_nat_less_exp)
qed

lemma clzll_top_bit:
  assumes "top_bit x k" shows "builtin_clzll x = 63 - k"
proof -
  have "k < 64" using assms by (simp add: top_bit_def)
  then have "[0..<64] = [0..<k] @ [k] @ [Suc k..<64]"
    using upt_add_eq_append [of 0 k "64 - k"] by (simp add: upt_conv_Cons)
  then have "rev [0..<64] = rev [Suc k..<64] @ k # rev [0..<k]" by simp
  moreover have "\<forall>i \<in> set (rev [Suc k..<64]). \<not> bit x i" and "bit x k"
    using assms by (auto simp: top_bit_def not_less_eq_eq [symmetric])
  ultimately have "takeWhile (\<lambda>i. \<not> bit x i) (rev [0..<64]) = rev [Suc k..<64]"
    by (auto simp: takeWhile_append2 takeWhile_eq_all_conv takeWhile_append)
  then show ?thesis by (simp add: builtin_clzll_def)
qed

lemma floorPoT_loop_value:
  "2 ^ k \<le> unat x \<Longrightarrow> unat x < 2 ^ Suc k \<Longrightarrow> floorPoT_loop x pos = pos + word_of_nat k"
proof (induction k arbitrary: x pos)
  case 0
  then have "unat (drop_bit 1 x) = 0" by (simp add: unat_drop_bit_div)
  then have "drop_bit 1 x = 0" by (simp add: unat_eq_0)
  then show ?case by (simp add: floorPoT_loop.simps)
next
  case (Suc k)
  have "unat (drop_bit 1 x) = unat x div 2" by (simp add: unat_drop_bit_div)
  with Suc.prems have l: "2 ^ k \<le> unat (drop_bit 1 x)" and u: "unat (drop_bit 1 x) < 2 ^ Suc k" by auto
  from l have "drop_bit 1 x \<noteq> 0" by (metis unat_0 power_not_zero le_zero_eq zero_neq_numeral)
  then show ?case using Suc.IH [OF l u, of "pos + 1"] by (simp add: floorPoT_loop.simps [of x])
qed

lemma smear_step:
  assumes "\<forall>n. bit y n \<longleftrightarrow> (\<exists>m. n \<le> m \<and> m < n + d \<and> bit (x :: u64) m)"
  shows "\<forall>n. bit (y OR drop_bit d y) n \<longleftrightarrow> (\<exists>m. n \<le> m \<and> m < n + 2 * d \<and> bit x m)"
proof
  fix n
  have "bit (y OR drop_bit d y) n \<longleftrightarrow> bit y n \<or> bit y (d + n)" by (simp add: bit_simps)
  also have "\<dots> \<longleftrightarrow> (\<exists>m. n \<le> m \<and> m < n + 2 * d \<and> bit x m)"
  proof
    assume "\<exists>m. n \<le> m \<and> m < n + 2 * d \<and> bit x m"
    then obtain m where m: "n \<le> m" "m < n + 2 * d" "bit x m" by blast
    show "bit y n \<or> bit y (d + n)"
    proof (cases "m < n + d")
      case True
      with m show ?thesis using assms by blast
    next
      case False
      then have "d + n \<le> m" "m < d + n + d" using m by simp_all
      with m(3) show ?thesis using assms by blast
    qed
  next
    assume "bit y n \<or> bit y (d + n)"
    then consider m where "n \<le> m" "m < n + d" "bit x m" | m where "d + n \<le> m" "m < d + n + d" "bit x m"
      using assms by blast
    then show "\<exists>m. n \<le> m \<and> m < n + 2 * d \<and> bit x m"
    proof cases
      case 1
      then show ?thesis by (intro exI [of _ m]) simp
    next
      case 2
      then show ?thesis by (intro exI [of _ m]) simp
    qed
  qed
  finally show "bit (y OR drop_bit d y) n \<longleftrightarrow> (\<exists>m. n \<le> m \<and> m < n + 2 * d \<and> bit x m)" .
qed

lemma portable_top_bit:
  assumes "top_bit x k" shows "roundDownToPowerOfTwo_64_portable x = push_bit k 1"
proof -
  define x1 where "x1 = x OR drop_bit 1 x"
  define x2 where "x2 = x1 OR drop_bit 2 x1"
  define x3 where "x3 = x2 OR drop_bit 4 x2"
  define x4 where "x4 = x3 OR drop_bit 8 x3"
  define x5 where "x5 = x4 OR drop_bit 16 x4"
  define x6 where "x6 = x5 OR drop_bit 32 x5"
  have "\<forall>n. bit x n \<longleftrightarrow> (\<exists>m. n \<le> m \<and> m < n + 1 \<and> bit x m)"
    by (metis less_Suc_eq_le Suc_eq_plus1 le_antisym le_refl)
  from smear_step [OF this] have "\<forall>n. bit x1 n \<longleftrightarrow> (\<exists>m. n \<le> m \<and> m < n + 2 \<and> bit x m)" by (simp add: x1_def)
  from smear_step [OF this] have "\<forall>n. bit x2 n \<longleftrightarrow> (\<exists>m. n \<le> m \<and> m < n + 4 \<and> bit x m)" by (simp add: x2_def)
  from smear_step [OF this] have "\<forall>n. bit x3 n \<longleftrightarrow> (\<exists>m. n \<le> m \<and> m < n + 8 \<and> bit x m)" by (simp add: x3_def)
  from smear_step [OF this] have "\<forall>n. bit x4 n \<longleftrightarrow> (\<exists>m. n \<le> m \<and> m < n + 16 \<and> bit x m)" by (simp add: x4_def)
  from smear_step [OF this] have "\<forall>n. bit x5 n \<longleftrightarrow> (\<exists>m. n \<le> m \<and> m < n + 32 \<and> bit x m)" by (simp add: x5_def)
  from smear_step [OF this] have b6: "\<forall>n. bit x6 n \<longleftrightarrow> (\<exists>m. n \<le> m \<and> m < n + 64 \<and> bit x m)" by (simp add: x6_def)
  have "bit x6 n \<longleftrightarrow> n \<le> k" for n
    unfolding b6 [rule_format] using assms by (auto simp: top_bit_def dest: le_trans)
  then have m: "x6 = mask (Suc k)" using assms
    by (intro bit_word_eqI) (auto simp: bit_simps top_bit_def)
  have "drop_bit 1 x6 AND push_bit k 1 = 0" and "drop_bit 1 x6 OR push_bit k 1 = x6"
    unfolding m by (rule bit_word_eqI, use assms in \<open>auto simp: bit_simps top_bit_def\<close>)+
  then have "drop_bit 1 x6 + push_bit k 1 = x6" by (simp add: disjunctive_add_eq_or)
  then have "x6 - drop_bit 1 x6 = push_bit k 1" by (metis add_diff_cancel_left')
  then show ?thesis
    by (simp only: roundDownToPowerOfTwo_64_portable_def Let_def x1_def x2_def x3_def x4_def x5_def x6_def)
qed

text \<open>The builtin and the portable forms of the power-of-two rounding and of the integer logarithm agree on
  every nonzero word, and they bracket the argument.\<close>

theorem roundDown_variants:
  assumes "x \<noteq> 0"
  shows "roundDownToPowerOfTwo_64_portable x = roundDownToPowerOfTwo_64 x
    \<and> floorPoT_portable x = floorPoT x
    \<and> unat (roundDownToPowerOfTwo_64 x) = 2 ^ unat (floorPoT x)
    \<and> 2 ^ unat (floorPoT x) \<le> unat x \<and> unat x < 2 * 2 ^ unat (floorPoT x)"
proof -
  obtain k where k: "top_bit x k" using top_bit_ex [OF assms] by blast
  then have k64: "k < 64" by (simp add: top_bit_def)
  note b = top_bit_bounds [OF k]
  have fp: "floorPoT x = word_of_nat k" using assms k64 by (simp add: floorPoT_def clzll_top_bit [OF k])
  then have "unat (floorPoT x) = k" using k64 by (simp add: unat_of_nat take_bit_nat_eq_self)
  moreover have "roundDownToPowerOfTwo_64 x = push_bit k 1"
    using k64 by (simp add: roundDownToPowerOfTwo_64_def clzll_top_bit [OF k])
  moreover have "unat (push_bit k 1 :: u64) = 2 ^ k"
  proof -
    have "unat (push_bit k 1 :: u64) = push_bit k 1"
      using k64 by (intro bit_eqI) (auto simp: bit_simps)
    then show ?thesis by (simp add: push_bit_eq_mult)
  qed
  ultimately show ?thesis
    using b assms floorPoT_loop_value [OF b, of 0] by (simp add: portable_top_bit [OF k] floorPoT_portable_def fp)
qed

theorem roundDown_variants_witness:
  "roundDownToPowerOfTwo_64_portable 100 = roundDownToPowerOfTwo_64 100 \<and> 2 ^ unat (floorPoT 100) \<le> (100 :: nat)"
  using roundDown_variants [of 100] by simp

end
