(* ===== verification/Hex.thy ===== *)
theory Hex
  imports Bytes
begin

text \<open>
  Hexadecimal text of \<^verbatim>\<open>src/src/datum_utils.c\<close>: the lookup tables of
  \<^verbatim>\<open>build_hex_lookup\<close>, the conversions between bytes and hex text built on them, the
  variable-length integer and the script number appended to a transaction in hex, and the strict
  decoder \<^verbatim>\<open>datum_pow_decode_hex_exact\<close> of \<^verbatim>\<open>src/src/datum_pow.c\<close>. A string
  argument is its characters up to the terminating zero; a function that appends to a buffer
  returns the characters it appends, whose number is the C return value.
\<close>

section \<open>Digits and printf\<close>

definition hexd :: "nat \<Rightarrow> char" where
  "hexd n = ''0123456789abcdef'' ! n"

definition hexD :: "nat \<Rightarrow> char" where
  "hexD n = ''0123456789ABCDEF'' ! n"

text \<open>\<^verbatim>\<open>printf("%0wx", v)\<close>: the digits of \<open>v\<close>, padded with zeros to at least \<open>w\<close>.\<close>

fun hex_digits :: "nat \<Rightarrow> string" where
  "hex_digits v = (if v < 16 then [hexd v] else hex_digits (v div 16) @ [hexd (v mod 16)])"

declare hex_digits.simps [simp del]

definition fmt_hex :: "nat \<Rightarrow> nat \<Rightarrow> string" where
  "fmt_hex w v = (let ds = hex_digits v in replicate (w - length ds) CHR ''0'' @ ds)"

section \<open>The lookup tables\<close>

text \<open>\<open>hex_key\<close> is the 16-bit index that \<^verbatim>\<open>memcpy\<close> reads from two characters on the
  little-endian hosts the gateway supports.\<close>

definition hex_key :: "char \<Rightarrow> char \<Rightarrow> u16" where
  "hex_key c0 c1 = ucast (byte_of c0) OR push_bit 8 (ucast (byte_of c1))"

definition sprintf_2_2X :: "nat \<Rightarrow> u16" where
  "sprintf_2_2X i = hex_key (hexD (i div 16)) (hexD (i mod 16))"

definition sprintf_2_2x :: "nat \<Rightarrow> u16" where
  "sprintf_2_2x i = hex_key (hexd (i div 16)) (hexd (i mod 16))"

record hex_tables =
  hex_lookup :: "u16 \<Rightarrow> u8"
  uchar_hex_lookup :: "u8 \<Rightarrow> u16"

definition hex_lookup_entry :: "nat \<Rightarrow> hex_tables \<Rightarrow> hex_tables" where
  "hex_lookup_entry i t =
     (let t = t\<lparr>hex_lookup := (hex_lookup t)(sprintf_2_2X i := word_of_nat i)\<rparr>;
          b = sprintf_2_2x i;
          t = t\<lparr>hex_lookup := (hex_lookup t)(b := word_of_nat i)\<rparr>
      in t\<lparr>uchar_hex_lookup := (uchar_hex_lookup t)(word_of_nat i := b)\<rparr>)"

definition build_hex_lookup :: hex_tables where
  "build_hex_lookup =
     fold hex_lookup_entry [0..<256] \<lparr>hex_lookup = (\<lambda>_. 0), uchar_hex_lookup = (\<lambda>_. 0)\<rparr>"

definition hex2bin_uchar :: "char \<Rightarrow> char \<Rightarrow> u8" where
  "hex2bin_uchar c0 c1 = hex_lookup build_hex_lookup (hex_key c0 c1)"

definition uchar_to_hex :: "u8 \<Rightarrow> string" where
  "uchar_to_hex b =
     (let i = uchar_hex_lookup build_hex_lookup b
      in [char_of_byte (ucast i), char_of_byte (ucast (drop_bit 8 i))])"

section \<open>Whole buffers\<close>

text \<open>\<open>hex_to_bin\<close> reads pairs from the front; a last odd character is ignored (\<^verbatim>\<open>len>>1\<close>).
  \<open>hex_to_bin_le\<close> reads pairs from the end of the string.\<close>

definition hex_to_bin :: "string \<Rightarrow> bytes" where
  "hex_to_bin hex = map (\<lambda>i. hex2bin_uchar (hex ! (2 * i)) (hex ! (2 * i + 1))) [0..<length hex div 2]"

definition hex_to_bin_le :: "string \<Rightarrow> bytes" where
  "hex_to_bin_le hex =
     (let len = length hex
      in map (\<lambda>i. hex2bin_uchar (hex ! (len - 2 * (i + 1))) (hex ! (len - 2 * (i + 1) + 1))) [0..<len div 2])"

definition hash2hex :: "bytes \<Rightarrow> string" where
  "hash2hex bs =
     concat (map (\<lambda>i. [hexd (unat (drop_bit 4 (bs ! i) AND 0x0F)), hexd (unat (bs ! i AND 0x0F))]) [0..<32])"

section \<open>Integers in hex\<close>

definition builtin_bswap :: "nat \<Rightarrow> 'a::len word \<Rightarrow> 'a word" where
  "builtin_bswap n x = le_word (rev (le_bytes n (unat x)))"

definition get_bitcoin_varint_len_bytes :: "u64 \<Rightarrow> nat" where
  "get_bitcoin_varint_len_bytes n =
     (if n < 0xFD then 1 else if n \<le> 0xFFFF then 3 else if n \<le> 0xFFFFFFFF then 5 else 9)"

definition append_bitcoin_varint_hex :: "u64 \<Rightarrow> string" where
  "append_bitcoin_varint_hex n =
     (if n < 0xFD then uchar_to_hex (ucast n)
      else if n \<le> 0xFFFF then ''fd'' @ fmt_hex 4 (unat (builtin_bswap 2 (ucast n :: u16)))
      else if n \<le> 0xFFFFFFFF then ''fe'' @ fmt_hex 8 (unat (builtin_bswap 4 (ucast n :: u32)))
      else ''ff'' @ fmt_hex 16 (unat (builtin_bswap 8 n)))"

text \<open>The byte count of \<open>n\<close>: \<^verbatim>\<open>do { count++; temp >>= 8; } while (temp != 0)\<close>.\<close>

function unum_count :: "u64 \<Rightarrow> nat" where
  "unum_count temp = (let temp' = drop_bit 8 temp in if temp' = 0 then 1 else Suc (unum_count temp'))"
  by pat_completeness auto
termination
proof (relation "measure unat")
  fix x x' :: u64
  assume "x' = drop_bit 8 x" and "x' \<noteq> 0"
  then show "(x', x) \<in> measure unat"
    by (cases "x = 0") (auto simp: unat_drop_bit_div unat_gt_0)
qed simp

declare unum_count.simps [simp del]

text \<open>The byte loop: the bytes in hex and whether the last one has its top bit set.\<close>

fun unum_bytes :: "nat \<Rightarrow> u64 \<Rightarrow> bool \<Rightarrow> string \<times> bool" where
  "unum_bytes 0 n last_msb = ('''', last_msb)"
| "unum_bytes (Suc k) n last_msb =
     (let (rest, m) = unum_bytes k (drop_bit 8 n) (n \<ge> 0x80)
      in (uchar_to_hex (ucast (n AND 0xFF)) @ rest, m))"

definition append_UNum_hex :: "u64 \<Rightarrow> string" where
  "append_UNum_hex n =
     (if n = 0 then ''00''
      else if n \<le> 16 then uchar_to_hex (ucast (0x50 + n))
      else let count = unum_count n;
               (body, last_msb) = unum_bytes count n False
           in if last_msb then uchar_to_hex (word_of_nat (count + 1)) @ body @ uchar_to_hex 0
              else uchar_to_hex (word_of_nat count) @ body)"

section \<open>Strict decoding\<close>

definition datum_hex_nibble :: "char \<Rightarrow> int" where
  "datum_hex_nibble c =
     (let v = (of_char c :: int)
      in if 48 \<le> v \<and> v \<le> 57 then v - 48
         else if 97 \<le> v \<and> v \<le> 102 then v - 97 + 10
         else if 65 \<le> v \<and> v \<le> 70 then v - 65 + 10
         else -1)"

text \<open>
  The loop stops at the first character that is no digit; the terminating zero is such a character,
  so it never reads past the end of the string. The result is the whole output, or \<open>None\<close> for \<^verbatim>\<open>false\<close>; the
  bytes that are written before a bad digit are modelled in theory Gbt, for the caller that uses them.
\<close>

fun decode_hex_loop :: "nat \<Rightarrow> string \<Rightarrow> bytes option" where
  "decode_hex_loop 0 hex = (if hex = '''' then Some [] else None)"
| "decode_hex_loop (Suc n) (c0 # c1 # hex) =
     (if datum_hex_nibble c0 < 0 then None
      else if datum_hex_nibble c1 < 0 then None
      else map_option ((#) (hex2bin_uchar c0 c1)) (decode_hex_loop n hex))"
| "decode_hex_loop (Suc n) hex = None"

definition datum_pow_decode_hex_exact :: "string \<Rightarrow> nat \<Rightarrow> bytes option" where
  "datum_pow_decode_hex_exact hex out_len = decode_hex_loop out_len hex"

section \<open>Digits\<close>

lemma nibble_tables:
  "list_all (\<lambda>n. datum_hex_nibble (hexd n) = int n \<and> datum_hex_nibble (hexD n) = int n) [0..<16]"
  by (simp add: upt_rec datum_hex_nibble_def hexd_def hexD_def)

lemma nibble_hexd [simp]: "n < 16 \<Longrightarrow> datum_hex_nibble (hexd n) = int n"
  using nibble_tables by (simp add: list_all_iff)

lemma nibble_hexD [simp]: "n < 16 \<Longrightarrow> datum_hex_nibble (hexD n) = int n"
  using nibble_tables by (simp add: list_all_iff)

lemma ucast_hex_key: "(ucast (hex_key a b) :: u8) = byte_of a" "(ucast (drop_bit 8 (hex_key a b)) :: u8) = byte_of b"
  unfolding hex_key_def by (rule bit_word_eqI, auto simp: bit_simps dest: bit_imp_le_length)+

lemma hex_key_inject [simp]: "hex_key a b = hex_key c d \<longleftrightarrow> a = c \<and> b = d"
  by (metis ucast_hex_key byte_of_inject)

section \<open>The tables\<close>

lemma lookup_fold:
  assumes "\<And>i. i \<in> set xs \<Longrightarrow> sprintf_2_2X i = k \<or> sprintf_2_2x i = k \<Longrightarrow> word_of_nat i = (v :: u8)"
  shows "hex_lookup (fold hex_lookup_entry xs t) k =
    (if \<exists>i \<in> set xs. sprintf_2_2X i = k \<or> sprintf_2_2x i = k then v else hex_lookup t k)"
  using assms
proof (induction xs arbitrary: t)
  case (Cons i xs)
  have "hex_lookup (hex_lookup_entry i t) k =
     (if sprintf_2_2X i = k \<or> sprintf_2_2x i = k then v else hex_lookup t k)"
    using Cons.prems [of i] by (auto simp: hex_lookup_entry_def Let_def)
  with Cons show ?case by auto
qed simp

lemma key_nibbles:
  assumes "i < 256" and "sprintf_2_2X i = hex_key c0 c1 \<or> sprintf_2_2x i = hex_key c0 c1"
  shows "datum_hex_nibble c0 = int (i div 16)" and "datum_hex_nibble c1 = int (i mod 16)"
  using assms by (auto simp: sprintf_2_2X_def sprintf_2_2x_def)

definition same_case_pair :: "char \<Rightarrow> char \<Rightarrow> bool" where
  "same_case_pair c0 c1 \<longleftrightarrow> (\<exists>i < 256. sprintf_2_2X i = hex_key c0 c1 \<or> sprintf_2_2x i = hex_key c0 c1)"

lemma hex2bin_uchar_value:
  "hex2bin_uchar c0 c1 =
     (if same_case_pair c0 c1 then word_of_int (16 * datum_hex_nibble c0 + datum_hex_nibble c1) else 0)"
proof -
  have v: "word_of_nat i = (word_of_int (16 * datum_hex_nibble c0 + datum_hex_nibble c1) :: u8)"
    if "i < 256" "sprintf_2_2X i = hex_key c0 c1 \<or> sprintf_2_2x i = hex_key c0 c1" for i
  proof -
    have "16 * datum_hex_nibble c0 + datum_hex_nibble c1 = int i"
      unfolding key_nibbles [OF that] by (metis mult_div_mod_eq of_nat_add of_nat_mult of_nat_numeral)
    then show ?thesis by simp
  qed
  show ?thesis
    unfolding hex2bin_uchar_def build_hex_lookup_def
    by (subst lookup_fold [where v = "word_of_int (16 * datum_hex_nibble c0 + datum_hex_nibble c1)"])
       (use v in \<open>auto simp: same_case_pair_def\<close>)
qed

lemma uchar_fold:
  "b \<in> set xs \<Longrightarrow> b < 256 \<Longrightarrow> \<forall>x\<in>set xs. x < 256 \<Longrightarrow> 
    uchar_hex_lookup (fold hex_lookup_entry xs t) (word_of_nat b) = sprintf_2_2x b"
proof (induction xs rule: rev_induct)
  case (snoc i xs)
  have "(word_of_nat i :: u8) = word_of_nat b \<longleftrightarrow> i = b"
    using snoc.prems by (auto simp: word_of_nat_eq_iff take_bit_nat_eq_self)
  with snoc show ?case by (auto simp: hex_lookup_entry_def Let_def)
qed simp

lemma uchar_to_hex_digits [simp]: "uchar_to_hex b = [hexd (unat b div 16), hexd (unat b mod 16)]"
proof -
  have "uchar_hex_lookup build_hex_lookup (word_of_nat (unat b)) = sprintf_2_2x (unat b)"
    unfolding build_hex_lookup_def by (rule uchar_fold) auto
  then show ?thesis by (simp add: uchar_to_hex_def Let_def sprintf_2_2x_def ucast_hex_key)
qed

lemma same_case_hexd: "a < 16 \<Longrightarrow> b < 16 \<Longrightarrow> same_case_pair (hexd a) (hexd b)"
  unfolding same_case_pair_def sprintf_2_2x_def by (intro exI [of _ "16 * a + b"]) auto

lemma same_case_hexD: "a < 16 \<Longrightarrow> b < 16 \<Longrightarrow> same_case_pair (hexD a) (hexD b)"
  unfolding same_case_pair_def sprintf_2_2X_def by (intro exI [of _ "16 * a + b"]) auto

lemma hex2bin_hexd [simp]: "a < 16 \<Longrightarrow> b < 16 \<Longrightarrow> hex2bin_uchar (hexd a) (hexd b) = word_of_nat (16 * a + b)"
  by (simp add: hex2bin_uchar_value same_case_hexd)

lemma hex2bin_hexD [simp]: "a < 16 \<Longrightarrow> b < 16 \<Longrightarrow> hex2bin_uchar (hexD a) (hexD b) = word_of_nat (16 * a + b)"
  by (simp add: hex2bin_uchar_value same_case_hexD)

lemma hex2bin_uchar_to_hex [simp]: "hex2bin_uchar (hexd (unat b div 16)) (hexd (unat b mod 16)) = b"
proof -
  have "unat b div 16 < 16" by (simp add: less_mult_imp_div_less)
  then have "hex2bin_uchar (hexd (unat b div 16)) (hexd (unat b mod 16)) = word_of_nat (16 * (unat b div 16) + unat b mod 16)"
    by (intro hex2bin_hexd) simp_all
  also have "\<dots> = b" by (simp only: mult_div_mod_eq) simp
  finally show ?thesis .
qed

section \<open>Round trips\<close>

definition hex_of :: "bytes \<Rightarrow> string" where
  "hex_of bs = concat (map uchar_to_hex bs)"

lemma hex_of_simps [simp]:
  "hex_of [] = ''''" "hex_of (b # bs) = uchar_to_hex b @ hex_of bs" "hex_of (xs @ ys) = hex_of xs @ hex_of ys"
  by (simp_all add: hex_of_def)

lemma length_hex_of [simp]: "length (hex_of bs) = 2 * length bs"
  by (induction bs) auto

lemma hex_to_bin_Cons2 [simp]: "hex_to_bin (c0 # c1 # s) = hex2bin_uchar c0 c1 # hex_to_bin s"
proof -
  have "[0..<Suc (length s div 2)] = 0 # map Suc [0..<length s div 2]"
    by (simp add: upt_conv_Cons map_Suc_upt del: upt_Suc)
  then show ?thesis by (simp add: hex_to_bin_def o_def del: upt_Suc)
qed

lemma hex_to_bin_Nil [simp]: "hex_to_bin '''' = []"
  by (simp add: hex_to_bin_def)

lemma hex_to_bin_of_append: "hex_to_bin (hex_of bs @ s) = bs @ hex_to_bin s"
  by (induction bs) auto

lemma hex_to_bin_le_rev: "even (length s) \<Longrightarrow> hex_to_bin_le s = rev (hex_to_bin s)"
proof (rule nth_equalityI)
  fix i assume "even (length s)" "i < length (hex_to_bin_le s)"
  moreover have "length s - 2 * (i + 1) = 2 * (length s div 2 - Suc i)" if "even (length s)" "i < length s div 2"
    using that by (auto elim!: evenE)
  ultimately show "hex_to_bin_le s ! i = rev (hex_to_bin s) ! i"
    by (simp add: hex_to_bin_le_def hex_to_bin_def Let_def rev_nth)
qed (simp add: hex_to_bin_le_def hex_to_bin_def Let_def)

section \<open>Printed integers\<close>

primrec hexw :: "nat \<Rightarrow> nat \<Rightarrow> string" where
  "hexw 0 v = ''''"
| "hexw (Suc w) v = hexw w (v div 16) @ [hexd (v mod 16)]"

lemma hexw_0 [simp]: "hexw w 0 = replicate w CHR ''0''"
  by (induction w) (auto simp: hexd_def replicate_append_same)

lemma fmt_hex_hexw: "0 < w \<Longrightarrow> v < 16 ^ w \<Longrightarrow> fmt_hex w v = hexw w v"
proof (induction w arbitrary: v)
  case (Suc w)
  show ?case
  proof (cases "v < 16")
    case True
    then show ?thesis by (simp add: fmt_hex_def hex_digits.simps [of v])
  next
    case False
    with Suc.prems have "0 < w" by (cases w) auto
    moreover have "v div 16 < 16 ^ w" using Suc.prems by (simp add: less_mult_imp_div_less mult.commute)
    ultimately have "fmt_hex w (v div 16) = hexw w (v div 16)" by (rule Suc.IH)
    with False show ?thesis by (simp add: fmt_hex_def hex_digits.simps [of v] Let_def)
  qed
qed simp

lemma byte_horner_digits:
  assumes "u < 256"
  shows "(u + 256 * x) div 16 mod 16 = u div (16::nat)" and "(u + 256 * x) mod 16 = u mod 16"
    and "(u + 256 * x) div 16 div 16 = x"
proof -
  have e: "u + 256 * x = u + 16 * (16 * x)" by simp
  have d: "(u + 256 * x) div 16 = u div 16 + 16 * x" unfolding e by (subst div_mult_self2) simp_all
  have "u div 16 < 16" using assms by (simp add: less_mult_imp_div_less)
  then show "(u + 256 * x) div 16 mod 16 = u div 16" "(u + 256 * x) div 16 div 16 = x"
    by (simp_all add: d)
  show "(u + 256 * x) mod 16 = u mod 16" unfolding e by (rule mod_mult_self2)
qed

lemma hexw_le_val: "hexw (2 * length bs) (le_val bs) = hex_of (rev bs)"
proof (induction bs)
  case (Cons b bs)
  then show ?case by (simp add: byte_horner_digits)
qed simp

lemma hex_to_bin_hex_of [simp]: "hex_to_bin (hex_of bs) = bs"
  using hex_to_bin_of_append [of bs "''''"] by simp

lemma fmt_hex_le_val: "bs \<noteq> [] \<Longrightarrow> fmt_hex (2 * length bs) (le_val bs) = hex_of (rev bs)"
  using le_val_less [of bs] by (subst fmt_hex_hexw) (auto simp: hexw_le_val power_mult)

lemma fmt_hex_bswap:
  assumes "0 < n" and "8 * n \<le> LENGTH('a::len)"
  shows "fmt_hex (2 * n) (unat (builtin_bswap n (x :: 'a word))) = hex_of (le_bytes n (unat x))"
proof -
  let ?bs = "rev (le_bytes n (unat x))"
  have "?bs \<noteq> []" using assms(1) by (metis length_0_conv length_le_bytes length_rev less_numeral_extra(3))
  then show ?thesis
    using assms fmt_hex_le_val [of ?bs] by (simp add: builtin_bswap_def unat_le_word)
qed

section \<open>Variable-length integers\<close>

text \<open>Bitcoin's compact size as a decoder: what a node reads back.\<close>

fun read_compact_size :: "bytes \<Rightarrow> (nat \<times> bytes) option" where
  "read_compact_size [] = None"
| "read_compact_size (b # bs) =
     (let k = (if b < 0xFD then 0 else if b = 0xFD then 2 else if b = 0xFE then 4 else 8)
      in if k = 0 then Some (unat b, bs)
         else if length bs < k then None
         else Some (le_val (take k bs), drop k bs))"

lemma hexd_f: "''fd'' = hex_of [0xfd]" "''fe'' = hex_of [0xfe]" "''ff'' = hex_of [0xff]" "''00'' = hex_of [0]"
  by (simp_all add: hexd_def)

lemma append_bitcoin_varint_hex_bytes:
  "append_bitcoin_varint_hex n = hex_of
     (if n < 0xFD then [word_of_nat (unat n)]
      else if n \<le> 0xFFFF then 0xFD # le_bytes 2 (unat n)
      else if n \<le> 0xFFFFFFFF then 0xFE # le_bytes 4 (unat n)
      else 0xFF # le_bytes 8 (unat n))"
proof -
  have w: "fmt_hex 4 (unat (builtin_bswap 2 (ucast n :: u16))) = hex_of (le_bytes 2 (unat (ucast n :: u16)))"
    "fmt_hex 8 (unat (builtin_bswap 4 (ucast n :: u32))) = hex_of (le_bytes 4 (unat (ucast n :: u32)))"
    "fmt_hex 16 (unat (builtin_bswap 8 n)) = hex_of (le_bytes 8 (unat n))"
    using fmt_hex_bswap [of 2 "ucast n :: u16"] fmt_hex_bswap [of 4 "ucast n :: u32"] fmt_hex_bswap [of 8 n] by simp_all
  have "unat (ucast n :: u16) = unat n" if "n \<le> 0xFFFF"
    using that by (simp add: word_le_nat_alt unat_ucast_mod)
  moreover have "unat (ucast n :: u32) = unat n" if "n \<le> 0xFFFFFFFF"
    using that by (simp add: word_le_nat_alt unat_ucast_mod)
  moreover have "(ucast n :: u8) = word_of_nat (unat n)" by simp
  ultimately show ?thesis
    unfolding append_bitcoin_varint_hex_def w hexd_f
    by (auto simp del: uchar_to_hex_digits simp flip: hex_of_simps(3))
qed

text \<open>The hex text appended for an integer decodes to its compact size.\<close>

theorem append_bitcoin_varint_hex_roundtrip:
  "read_compact_size (hex_to_bin (append_bitcoin_varint_hex n) @ rest) = Some (unat n, rest)
   \<and> length (append_bitcoin_varint_hex n) = 2 * get_bitcoin_varint_len_bytes n"
proof -
  consider "unat n < 0xFD" | "\<not> unat n < 0xFD" "unat n \<le> 0xFFFF"
    | "\<not> unat n \<le> 0xFFFF" "unat n \<le> 0xFFFFFFFF" | "\<not> unat n \<le> 0xFFFFFFFF" by linarith
  then show ?thesis
  proof cases
    case 1
    moreover from 1 have "unat (word_of_nat (unat n) :: u8) = unat n" by (simp only: unat_of_nat take_bit_eq_mod) simp
    ultimately show ?thesis
      unfolding append_bitcoin_varint_hex_bytes
      by (simp add: get_bitcoin_varint_len_bytes_def word_less_nat_alt del: hex_of_simps)
  qed (simp_all add: append_bitcoin_varint_hex_bytes get_bitcoin_varint_len_bytes_def word_less_nat_alt
      word_le_nat_alt le_val_bytes del: hex_of_simps)
qed

section \<open>Script numbers\<close>

lemma unum_count_bounds:
  "unat n < 256 ^ unum_count n \<and> 1 \<le> unum_count n \<and> (1 < unum_count n \<longrightarrow> 256 ^ (unum_count n - 1) \<le> unat n)"
proof (induction n rule: unum_count.induct)
  case (1 n)
  let ?n = "drop_bit 8 n"
  have u: "unat ?n = unat n div 256" by (simp add: unat_drop_bit_div)
  show ?case
  proof (cases "?n = 0")
    case True
    then have "unat n < 256" using u by (simp add: div_eq_0_iff)
    with True show ?thesis by (simp add: unum_count.simps [of n])
  next
    case False
    then have c: "unum_count n = Suc (unum_count ?n)" by (simp add: unum_count.simps [of n])
    from 1 False have ih: "unat n div 256 < 256 ^ unum_count ?n" "1 \<le> unum_count ?n"
      "1 < unum_count ?n \<longrightarrow> 256 ^ (unum_count ?n - 1) \<le> unat n div 256"
      by (simp_all add: u)
    have "unat n < 256 * 256 ^ unum_count ?n" using ih(1) by (simp add: div_less_iff_less_mult)
    moreover have "256 ^ unum_count ?n \<le> unat n"
    proof (cases "unum_count ?n = 1")
      case True
      have "unat n div 256 \<noteq> 0" using False u by (metis unat_eq_0)
      then show ?thesis using True by (simp add: div_eq_0_iff not_less)
    next
      case False
      then obtain m where m: "unum_count ?n = Suc m" "0 < m" using ih(2) by (cases "unum_count ?n") auto
      with ih(3) have "256 ^ m \<le> unat n div 256" by simp
      then have "256 ^ m * 256 \<le> unat n div 256 * 256" by (rule mult_le_mono1)
      also have "\<dots> \<le> unat n" by (rule div_times_less_eq_dividend)
      finally show ?thesis using m by simp
    qed
    ultimately show ?thesis by (simp add: c)
  qed
qed

lemma unum_bytes_value:
  "unum_bytes k n m = (hex_of (le_bytes k (unat n)), if k = 0 then m else 0x80 \<le> unat n div 256 ^ (k - 1))"
proof (induction k arbitrary: n m)
  case (Suc k)
  have u: "unat (drop_bit 8 n) = unat n div 256" by (simp add: unat_drop_bit_div)
  have c: "(ucast (n AND 0xFF) :: u8) = word_of_nat (unat n)" by (simp add: ucast_and_ff)
  have "unat n div 256 div 256 ^ (k - 1) = unat n div 256 ^ k" if "k \<noteq> 0"
    using that by (cases k) (simp_all add: div_mult2_eq)
  then show ?case
    unfolding unum_bytes.simps Suc Let_def prod.case c u
    by (simp add: word_le_nat_alt del: uchar_to_hex_digits of_nat_unat)
qed simp

lemma le_bytes_last: "le_bytes (Suc k) v = le_bytes k v @ [word_of_nat (v div 256 ^ k)]"
  by (simp add: le_bytes_map power_mult)

text \<open>A height above 16 is appended as a length byte and its minimal script number.\<close>

theorem append_UNum_hex_scriptnum:
  assumes "16 < n"
  shows "\<exists>body. hex_to_bin (append_UNum_hex n) = word_of_nat (length body) # body
    \<and> le_val body = unat n \<and> body \<noteq> [] \<and> length body \<le> 9 \<and> last body < 0x80
    \<and> (last body = 0 \<longrightarrow> length body > 1 \<and> 0x80 \<le> body ! (length body - 2))"
proof -
  let ?c = "unum_count n" and ?v = "unat n"
  obtain k where k: "?c = Suc k" using unum_count_bounds [of n] by (cases ?c) auto
  note b = unum_count_bounds [of n, unfolded k]
  let ?top = "?v div 256 ^ k"
  have top: "?top < 256" using b by (simp add: less_mult_imp_div_less)
  have val: "le_val (le_bytes (Suc k) ?v) = ?v" using b by (simp add: le_val_bytes del: le_bytes.simps)
  have k8: "k \<le> 7"
  proof (rule ccontr)
    assume "\<not> k \<le> 7"
    then have "256 ^ 8 \<le> (256::nat) ^ k" by (intro power_increasing) auto
    also have "\<dots> \<le> ?v" using b \<open>\<not> k \<le> 7\<close> by simp
    finally have "18446744073709551616 \<le> ?v" by simp
    then show False using unat_u64_less [of n] by linarith
  qed
  have ub: "unum_bytes ?c n False = (hex_of (le_bytes (Suc k) ?v), 0x80 \<le> ?top)"
    unfolding unum_bytes_value k by simp
  have nz: "n \<noteq> 0" "\<not> n \<le> 16" using assms by auto
  have wt: "unat (word_of_nat ?top :: u8) = ?top" using top by (simp only: unat_of_nat take_bit_eq_mod) simp
  show ?thesis
  proof (cases "0x80 \<le> ?top")
    case True
    have "append_UNum_hex n = hex_of (word_of_nat (Suc k + 1) # le_bytes (Suc k) ?v @ [0])"
      unfolding append_UNum_hex_def Let_def ub prod.case using nz True
      by (simp add: k del: le_bytes.simps uchar_to_hex_digits)
    moreover have "(le_bytes (Suc k) ?v @ [0]) ! k = word_of_nat ?top"
      unfolding le_bytes_last by (simp add: nth_append)
    ultimately show ?thesis using True k8 wt
      by (intro exI [of _ "le_bytes (Suc k) ?v @ [0]"]) (simp add: le_val_append val word_le_nat_alt del: le_bytes.simps hex_of_simps of_nat_Suc of_nat_add)
  next
    case False
    have "append_UNum_hex n = hex_of (word_of_nat (Suc k) # le_bytes (Suc k) ?v)"
      unfolding append_UNum_hex_def Let_def ub prod.case using nz False
      by (simp add: k del: le_bytes.simps uchar_to_hex_digits)
    moreover have "?top \<noteq> 0"
    proof (cases k)
      case 0
      then show ?thesis using assms by (simp add: word_less_nat_alt)
    next
      case (Suc j)
      then show ?thesis using b by (simp add: div_eq_0_iff not_less)
    qed
    moreover have "last (le_bytes (Suc k) ?v) = word_of_nat ?top" by (simp only: le_bytes_last) simp
    moreover have "le_bytes (Suc k) ?v \<noteq> []" by simp
    ultimately show ?thesis using False k8 wt
      by (intro exI [of _ "le_bytes (Suc k) ?v"]) (auto simp: val word_less_nat_alt simp del: le_bytes.simps hex_of_simps of_nat_Suc)
  qed
qed

theorem append_UNum_hex_scriptnum_witness:
  "16 < (840000 :: u64) \<and> (\<exists>body. hex_to_bin (append_UNum_hex 840000) = word_of_nat (length body) # body
     \<and> le_val body = 840000)"
  using append_UNum_hex_scriptnum [of 840000] by (auto intro: exI)

section \<open>Strict decoding\<close>

lemma decode_hex_loop_Some:
  "decode_hex_loop n s = Some bs \<Longrightarrow> length s = 2 * n \<and> length bs = n \<and> (\<forall>c \<in> set s. 0 \<le> datum_hex_nibble c) \<and> bs = hex_to_bin s"
proof (induction n s arbitrary: bs rule: decode_hex_loop.induct)
  case (2 n c0 c1 hex)
  then show ?case by (auto split: if_splits)
qed (auto split: if_splits)

lemma decode_hex_loop_None:
  "length s = 2 * n \<Longrightarrow> \<forall>c \<in> set s. 0 \<le> datum_hex_nibble c \<Longrightarrow> decode_hex_loop n s = Some (hex_to_bin s)"
  by (induction n s rule: decode_hex_loop.induct) auto

text \<open>The strict decoder succeeds exactly on the strings of twice the requested number of hexadecimal
  digits, and then returns the bytes of the table-driven conversion.\<close>

theorem datum_pow_decode_hex_exact_iff:
  "datum_pow_decode_hex_exact hex n =
     (if length hex = 2 * n \<and> list_all (\<lambda>c. 0 \<le> datum_hex_nibble c) hex then Some (hex_to_bin hex) else None)"
  using decode_hex_loop_None [of hex n] decode_hex_loop_Some [of n hex]
  by (cases "decode_hex_loop n hex") (auto simp: datum_pow_decode_hex_exact_def list_all_iff)

lemma mixed_case_pair: "\<not> same_case_pair CHR ''a'' CHR ''B''"
proof
  assume "same_case_pair CHR ''a'' CHR ''B''"
  then obtain i where i: "i < 256" "sprintf_2_2X i = hex_key CHR ''a'' CHR ''B'' \<or> sprintf_2_2x i = hex_key CHR ''a'' CHR ''B''"
    by (auto simp: same_case_pair_def)
  from key_nibbles [OF i] have "i div 16 = 10" "i mod 16 = 11" by (simp_all add: datum_hex_nibble_def)
  with i(2) show False by (auto simp: sprintf_2_2X_def sprintf_2_2x_def hexd_def hexD_def)
qed

text \<open>A digit pair whose two letters differ in case is accepted and decoded as zero.\<close>

theorem decode_hex_mixed_case: "datum_pow_decode_hex_exact ''aB'' 1 = Some [0]"
  by (simp add: datum_pow_decode_hex_exact_def datum_hex_nibble_def hex2bin_uchar_value mixed_case_pair)

end
