(* ===== verification/Dupes.thy ===== *)
theory Dupes
  imports Bytes
begin

text \<open>
  Duplicate share detection, \<^verbatim>\<open>src/src/datum_stratum_dupes.c\<close>. Each worker thread keeps a
  table of the shares it accepted: an array of items, chained by pointers into lists ordered by
  nonce, one list per value of the low 16 bits of the nonce. A pointer is the position of its item in
  the array (\<open>None\<close> for NULL). The list walks of the source have no bound of their own, so they are
  partial functions, \<open>None\<close> when the list is circular; the lemmas show that they return.
  \<open>None\<close> also stands for what C leaves undefined: an \<^verbatim>\<open>int\<close> product that overflows, and the use of
  a pointer into the array after \<^verbatim>\<open>realloc\<close> may have moved it. A failing allocation
  (\<^verbatim>\<open>panic_from_thread\<close>) ends the process and is not modelled.
  The locale \<open>share_filter\<close> is the contract of the share handler: a share is reported as a duplicate
  exactly when it was recorded before.
\<close>

section \<open>State\<close>

record dupe_item =
  nonce :: u64
  job_index :: u16
  ntime :: u64
  version_bits :: u32
  extra_nonce_a :: u64
  extra_nonce_b :: u32
  nxt :: "nat option"

record dupes =
  index :: "u16 \<Rightarrow> nat option"
  ptr :: "dupe_item list"
  max_items :: nat
  current_items :: nat

definition zero_item :: dupe_item where
  "zero_item = \<lparr>nonce = 0, job_index = 0, ntime = 0, version_bits = 0, extra_nonce_a = 0, extra_nonce_b = 0, nxt = None\<rparr>"

definition MAX_STRATUM_JOBS :: nat where
  "MAX_STRATUM_JOBS = 256"

text \<open>The table \<^verbatim>\<open>global_cur_stratum_jobs\<close>: the creation time of each current job.\<close>

type_synonym jobs = "nat \<Rightarrow> u64 option"

definition datum_stratum_dupes_init :: "nat \<Rightarrow> nat \<Rightarrow> nat \<Rightarrow> dupes option" where
  "datum_stratum_dupes_init max_clients_per_thread vardiff_target_shares_min share_stale_seconds =
     (let n = max_clients_per_thread * vardiff_target_shares_min * (share_stale_seconds div 60) * 16
      in if int_fits (max_clients_per_thread * vardiff_target_shares_min) \<and> int_fits n
         then Some \<lparr>index = (\<lambda>_. None), ptr = replicate n zero_item, max_items = n, current_items = 0\<rparr>
         else None)"

section \<open>Ordering and pruning\<close>

definition datum_stratum_dupes_cleanup_sort_compare :: "jobs \<Rightarrow> dupe_item \<Rightarrow> dupe_item \<Rightarrow> int" where
  "datum_stratum_dupes_cleanup_sort_compare jobs item1 item2 =
     (if unat (job_index item1) \<ge> MAX_STRATUM_JOBS then 1
      else if unat (job_index item2) \<ge> MAX_STRATUM_JOBS then -1
      else case (jobs (unat (job_index item1)), jobs (unat (job_index item2))) of
        (None, None) \<Rightarrow> 0
      | (None, Some _) \<Rightarrow> 1
      | (Some _, None) \<Rightarrow> -1
      | (Some tsms1, Some tsms2) \<Rightarrow> if tsms1 > tsms2 then -1 else if tsms1 < tsms2 then 1 else 0)"

definition item_tsms :: "jobs \<Rightarrow> dupe_item \<Rightarrow> u64" where
  "item_tsms jobs it =
     (if unat (job_index it) \<ge> MAX_STRATUM_JOBS then 0
      else case jobs (unat (job_index it)) of Some t \<Rightarrow> t | None \<Rightarrow> 0)"

function find_loop :: "jobs \<Rightarrow> dupe_item list \<Rightarrow> u64 \<Rightarrow> int \<Rightarrow> int \<Rightarrow> int \<Rightarrow> int" where
  "find_loop jobs items given_tsms low high result =
     (if low \<le> high then
        let mid = low + (high - low) div 2
        in if item_tsms jobs (items ! nat mid) < given_tsms
           then find_loop jobs items given_tsms low (mid - 1) mid
           else find_loop jobs items given_tsms (mid + 1) high result
      else result)"
  by pat_completeness auto
termination
  by (relation "measure (\<lambda>(jobs, items, given_tsms, low, high, result). nat (high - low + 1))") auto

declare find_loop.simps [simp del]

definition find_first_less_than :: "jobs \<Rightarrow> dupe_item list \<Rightarrow> nat \<Rightarrow> u64 \<Rightarrow> int" where
  "find_first_less_than jobs items n given_tsms = find_loop jobs items given_tsms 0 (int n - 1) (-1)"

definition datum_stratum_dupes_expand :: "dupes \<Rightarrow> dupes option" where
  "datum_stratum_dupes_expand d =
     (let new_max = (max_items d * 125) div 100
      in if int_fits (max_items d * 125)
         then Some (d\<lparr>ptr := ptr d @ replicate (new_max - max_items d) zero_item, max_items := new_max\<rparr>)
         else None)"

section \<open>Rebuilding the lists\<close>

text \<open>Where an item belongs in a list: the last item before it and the first item after it.\<close>

partial_function (option) reorganize_walk ::
  "dupe_item list \<Rightarrow> u64 \<Rightarrow> nat option \<Rightarrow> nat \<Rightarrow> (nat option \<times> nat option) option" where
  "reorganize_walk items n p q =
     (if nonce (items ! q) > n then Some (p, Some q)
      else case nxt (items ! q) of
             None \<Rightarrow> Some (Some q, None)
           | Some q' \<Rightarrow> reorganize_walk items n (Some q) q')"

declare reorganize_walk.simps [code]

definition reorganize_item :: "nat \<Rightarrow> dupes \<Rightarrow> dupes option" where
  "reorganize_item i d =
     (let items = ptr d; ni = ucast (nonce (items ! i) AND 0xffff) :: u16
      in case index d ni of
           None \<Rightarrow> Some (d\<lparr>index := (index d)(ni := Some i), ptr := items[i := (items ! i)\<lparr>nxt := None\<rparr>]\<rparr>)
         | Some q0 \<Rightarrow>
             (case reorganize_walk items (nonce (items ! i)) None q0 of
                None \<Rightarrow> None
              | Some (Some p, q) \<Rightarrow>
                  Some (d\<lparr>ptr := items[p := (items ! p)\<lparr>nxt := Some i\<rparr>, i := (items ! i)\<lparr>nxt := q\<rparr>]\<rparr>)
              | Some (None, q) \<Rightarrow>
                  Some (d\<lparr>index := (index d)(ni := Some i), ptr := items[i := (items ! i)\<lparr>nxt := q\<rparr>]\<rparr>)))"

text \<open>The loop over the array, with the number of positions left; it stops at the first unused item.\<close>

fun reorganize_loop :: "nat \<Rightarrow> nat \<Rightarrow> dupes \<Rightarrow> dupes option" where
  "reorganize_loop 0 i d = Some (d\<lparr>current_items := i\<rparr>)"
| "reorganize_loop (Suc n) i d =
     (if ntime (ptr d ! i) = 0 then Some (d\<lparr>current_items := i\<rparr>)
      else case reorganize_item i d of
             None \<Rightarrow> None
           | Some d' \<Rightarrow> reorganize_loop n (Suc i) d')"

definition datum_stratum_dupes_reorganize :: "dupes \<Rightarrow> dupes option" where
  "datum_stratum_dupes_reorganize d = reorganize_loop (max_items d) 0 d"

section \<open>Cleanup\<close>

text \<open>
  \<open>stale_before\<close> is \<^verbatim>\<open>current_time_millis() - stratum_v1_share_stale_seconds*1000\<close>. With \<open>i\<close> the
  position of the first stale item of the sorted array, the array grows when there is none or when
  less than 5\% of it could be freed.
\<close>

definition cleanup_grows :: "nat \<Rightarrow> int \<Rightarrow> bool" where
  "cleanup_grows n i \<longleftrightarrow> i = -1 \<or> i = int n - 1 \<or> \<not> i < int (n * 95 div 100)"

definition sorted_ptr :: "dupe_item qsort \<Rightarrow> jobs \<Rightarrow> dupes \<Rightarrow> dupe_item list" where
  "sorted_ptr qs jobs d = qs (datum_stratum_dupes_cleanup_sort_compare jobs) (ptr d)"

definition first_stale :: "dupe_item qsort \<Rightarrow> jobs \<Rightarrow> u64 \<Rightarrow> dupes \<Rightarrow> int" where
  "first_stale qs jobs stale_before d = find_first_less_than jobs (sorted_ptr qs jobs d) (max_items d) stale_before"

definition datum_stratum_dupes_cleanup ::
  "dupe_item qsort \<Rightarrow> jobs \<Rightarrow> u64 \<Rightarrow> bool \<Rightarrow> dupes \<Rightarrow> dupes option" where
  "datum_stratum_dupes_cleanup qs jobs stale_before full_wipe d =
     (if full_wipe then Some (d\<lparr>ptr := replicate (max_items d) zero_item, current_items := 0\<rparr>)
      else
        let i = first_stale qs jobs stale_before d;
            d = d\<lparr>ptr := sorted_ptr qs jobs d, index := (\<lambda>_. None)\<rparr>;
            d = (if i \<noteq> -1 \<and> i \<noteq> int (max_items d) - 1 \<and> \<not> int_fits (max_items d * 95) then None
                 else if cleanup_grows (max_items d) i then datum_stratum_dupes_expand d
                 else Some (d\<lparr>current_items := nat i,
                     ptr := take (nat i) (ptr d) @ replicate (max_items d - nat i) zero_item\<rparr>))
        in Option.bind d datum_stratum_dupes_reorganize)"

section \<open>Recording and checking a share\<close>

record share =
  s_nonce :: u64
  s_job_index :: u16
  s_ntime :: u64
  s_version_bits :: u32
  s_extranonce :: bytes

definition share_item :: "share \<Rightarrow> nat option \<Rightarrow> dupe_item" where
  "share_item s n =
     \<lparr>nonce = s_nonce s, job_index = s_job_index s, ntime = s_ntime s, version_bits = s_version_bits s,
      extra_nonce_a = upk_u64le (s_extranonce s) 0, extra_nonce_b = upk_u32le (s_extranonce s) 8, nxt = n\<rparr>"

text \<open>
  The new item takes the next free position, which is also the returned pointer; when that fills the
  array the table is cleaned up before the caller goes on. After a cleanup that pruned the array the
  returned pointer is still that position, whatever item is there by then; after one that grew it, the
  pointer goes to the memory \<^verbatim>\<open>realloc\<close> was given back: \<open>None\<close> in the place of the position.
\<close>

definition datum_stratum_add_new_dupe ::
  "dupe_item qsort \<Rightarrow> jobs \<Rightarrow> u64 \<Rightarrow> dupes \<Rightarrow> share \<Rightarrow> nat option \<Rightarrow> (nat option \<times> dupes) option" where
  "datum_stratum_add_new_dupe qs jobs stale_before d s insert_after =
     (let i = current_items d;
          d = (case insert_after of
                 None \<Rightarrow> d\<lparr>ptr := (ptr d)[i := share_item s None]\<rparr>
               | Some p \<Rightarrow>
                   (let items = (ptr d)[i := share_item s (nxt (ptr d ! p))]
                    in d\<lparr>ptr := items[p := (items ! p)\<lparr>nxt := Some i\<rparr>]\<rparr>));
          d = d\<lparr>current_items := Suc i\<rparr>
      in if current_items d \<ge> max_items d
         then map_option (\<lambda>d'. (if cleanup_grows (max_items d) (first_stale qs jobs stale_before d) then None else Some i, d'))
                (datum_stratum_dupes_cleanup qs jobs stale_before False d)
         else Some (Some i, d))"

definition item_matches :: "share \<Rightarrow> dupe_item \<Rightarrow> bool" where
  "item_matches s it \<longleftrightarrow>
     nonce it = s_nonce s \<and> s_job_index s = job_index it \<and> s_ntime s = ntime it
     \<and> s_version_bits s = version_bits it
     \<and> extra_nonce_a it = upk_u64le (s_extranonce s) 0
     \<and> extra_nonce_b it = upk_u32le (s_extranonce s) 8"

datatype walk_result = IsDupe | InsertBefore "nat option" nat | AtEnd nat

partial_function (option) check_walk ::
  "dupe_item list \<Rightarrow> share \<Rightarrow> nat option \<Rightarrow> nat \<Rightarrow> walk_result option" where
  "check_walk items s p i =
     (if nonce (items ! i) > s_nonce s then Some (InsertBefore p i)
      else if item_matches s (items ! i) then Some IsDupe
      else case nxt (items ! i) of
             None \<Rightarrow> Some (AtEnd i)
           | Some i' \<Rightarrow> check_walk items s (Some i) i')"

declare check_walk.simps [code]

text \<open>
  Two of the four insertions go on with the returned pointer: the first share of a bucket stores it in
  the index, a share that becomes the head of its list is also linked through it to the old head. A
  dangling pointer has no meaning there (\<open>None\<close>).
\<close>

fun first_entry :: "u16 \<Rightarrow> nat option \<times> dupes \<Rightarrow> (bool \<times> dupes) option" where
  "first_entry ni (None, d) = None"
| "first_entry ni (Some i, d) = Some (False, d\<lparr>index := (index d)(ni := Some i)\<rparr>)"

fun new_head :: "u16 \<Rightarrow> nat \<Rightarrow> nat option \<times> dupes \<Rightarrow> (bool \<times> dupes) option" where
  "new_head ni i (None, d) = None"
| "new_head ni i (Some p, d) =
     Some (False, d\<lparr>index := (index d)(ni := Some p), ptr := (ptr d)[p := (ptr d ! p)\<lparr>nxt := Some i\<rparr>]\<rparr>)"

definition datum_stratum_check_for_dupe ::
  "dupe_item qsort \<Rightarrow> jobs \<Rightarrow> u64 \<Rightarrow> dupes \<Rightarrow> share \<Rightarrow> (bool \<times> dupes) option" where
  "datum_stratum_check_for_dupe qs jobs stale_before d s =
     (let nonce_index = ucast (s_nonce s AND 0xffff) :: u16;
          add = datum_stratum_add_new_dupe qs jobs stale_before d s
      in case index d nonce_index of
           None \<Rightarrow> Option.bind (add None) (first_entry nonce_index)
         | Some i0 \<Rightarrow>
             (case check_walk (ptr d) s None i0 of
                None \<Rightarrow> None
              | Some IsDupe \<Rightarrow> Some (True, d)
              | Some (InsertBefore (Some p) i) \<Rightarrow> map_option (\<lambda>(_, d). (False, d)) (add (Some p))
              | Some (InsertBefore None i) \<Rightarrow> Option.bind (add None) (new_head nonce_index i)
              | Some (AtEnd p) \<Rightarrow> map_option (\<lambda>(_, d). (False, d)) (add (Some p))))"

section \<open>List segments\<close>

primrec seg :: "dupe_item list \<Rightarrow> nat option \<Rightarrow> nat list \<Rightarrow> nat option \<Rightarrow> bool" where
  "seg items st [] en = (st = en)"
| "seg items st (j # xs) en = (st = Some j \<and> j < length items \<and> seg items (nxt (items ! j)) xs en)"

lemma seg_append: "seg items st (xs @ ys) en \<longleftrightarrow> (\<exists>m. seg items st xs m \<and> seg items m ys en)"
  by (induction xs arbitrary: st) auto

lemma seg_cong:
  "seg items st xs en \<Longrightarrow> length items' = length items \<Longrightarrow> (\<And>j. j \<in> set xs \<Longrightarrow> nxt (items' ! j) = nxt (items ! j)) \<Longrightarrow>
   seg items' st xs en"
  by (induction xs arbitrary: st) auto

lemma seg_start: "seg items st xs None \<Longrightarrow> st = (if xs = [] then None else Some (hd xs))"
  by (cases xs) auto

definition bucket :: "u64 \<Rightarrow> u16" where
  "bucket n = ucast (n AND 0xffff)"

text \<open>
  The first \<open>n\<close> items are linked into the lists \<open>L\<close>: the list of a bucket holds the positions of
  its items once each, in the order of their nonces.
\<close>

definition chains :: "nat \<Rightarrow> dupe_item list \<Rightarrow> (u16 \<Rightarrow> nat option) \<Rightarrow> (u16 \<Rightarrow> nat list) \<Rightarrow> bool" where
  "chains n items idx L \<longleftrightarrow> n \<le> length items \<and>
     (\<forall>b. seg items (idx b) (L b) None \<and> distinct (L b)
        \<and> set (L b) = {j. j < n \<and> bucket (nonce (items ! j)) = b}
        \<and> sorted_wrt (\<lambda>i j. nonce (items ! i) \<le> nonce (items ! j)) (L b))"

lemma chainsD:
  assumes "chains n items idx L"
  shows "n \<le> length items" "seg items (idx b) (L b) None" "distinct (L b)"
    "set (L b) = {j. j < n \<and> bucket (nonce (items ! j)) = b}"
    "sorted_wrt (\<lambda>i j. nonce (items ! i) \<le> nonce (items ! j)) (L b)"
  using assms by (auto simp: chains_def)

text \<open>Linking item \<open>n\<close> between the parts \<open>ys\<close> and \<open>zs\<close> of its bucket's list.\<close>

lemma chains_insert:
  assumes ch: "chains n items idx L" and n: "n < length items" and len: "length items' = length items"
    and split: "L (bucket v) = ys @ zs" and v: "nonce (items' ! n) = v"
    and nonces: "\<And>j. j < n \<Longrightarrow> nonce (items' ! j) = nonce (items ! j)"
    and others: "\<And>j. j < n \<Longrightarrow> ys = [] \<or> j \<noteq> last ys \<Longrightarrow> nxt (items' ! j) = nxt (items ! j)"
    and pred: "ys \<noteq> [] \<Longrightarrow> nxt (items' ! last ys) = Some n"
    and succ: "nxt (items' ! n) = (if zs = [] then None else Some (hd zs))"
    and lo: "\<And>j. j \<in> set ys \<Longrightarrow> nonce (items ! j) \<le> v" and hi: "\<And>j. j \<in> set zs \<Longrightarrow> v \<le> nonce (items ! j)"
    and idx': "idx' = (if ys = [] then idx(bucket v := Some n) else idx)"
  shows "chains (Suc n) items' idx' (L(bucket v := ys @ n # zs))"
proof -
  let ?b = "bucket v"
  note D = chainsD [OF ch]
  have mem: "j < n" if "j \<in> set (L b)" for j b using that D(4) by auto
  have ymem: "j < n" if "j \<in> set ys \<union> set zs" for j using that mem [of j ?b] split by auto
  have dist: "distinct (ys @ zs)" using D(3) [of ?b] split by simp
  have lz: "ys = [] \<or> last ys \<notin> set zs" using dist by (metis disjoint_iff distinct_append last_in_set)
  from D(2) [of ?b] obtain m where s1: "seg items (idx ?b) ys m" and s2: "seg items m zs None"
    unfolding split seg_append by blast
  have m: "m = (if zs = [] then None else Some (hd zs))" using s2 by (rule seg_start)
  have zs': "seg items' m zs None"
    using s2 len by (rule seg_cong) (use ymem lz in \<open>auto intro!: others\<close>)
  have head: "seg items' (idx' ?b) ys (Some n)"
  proof (cases ys rule: rev_cases)
    case Nil
    then show ?thesis by (simp add: idx')
  next
    case (snoc ys' p)
    then have "seg items (idx ?b) ys' (Some p)" "p < length items" using s1 by (auto simp: seg_append)
    moreover have "seg items' (idx ?b) ys' (Some p)"
      using calculation(1) len by (rule seg_cong) (use ymem dist snoc in \<open>auto intro!: others\<close>)
    ultimately show ?thesis using snoc pred len by (auto simp: seg_append idx')
  qed
  have new: "seg items' (idx' ?b) (ys @ n # zs) None"
    using head zs' n len succ m by (auto simp: seg_append)
  have old: "seg items' (idx' b) (L b) None" if "b \<noteq> ?b" for b
  proof -
    have "idx' b = idx b" using that by (simp add: idx')
    moreover have "seg items' (idx b) (L b) None"
      using D(2) len
    proof (rule seg_cong)
      fix j assume j: "j \<in> set (L b)"
      then have "j \<notin> set (L ?b)" using D(4) that by auto
      moreover have "ys = [] \<or> last ys \<in> set (L ?b)" unfolding split by auto
      ultimately have "ys = [] \<or> j \<noteq> last ys" by blast
      then show "nxt (items' ! j) = nxt (items ! j)" by (rule others [OF mem [OF j]])
    qed
    ultimately show ?thesis by simp
  qed
  have sets: "set ((L(?b := ys @ n # zs)) b) = {j. j < Suc n \<and> bucket (nonce (items' ! j)) = b}" for b
  proof -
    have "{j. j < Suc n \<and> bucket (nonce (items' ! j)) = b} =
      {j. j < n \<and> bucket (nonce (items ! j)) = b} \<union> (if b = ?b then {n} else {})"
      using nonces v by (auto simp: less_Suc_eq)
    also have "\<dots> = set (L b) \<union> (if b = ?b then {n} else {})" by (simp only: D(4))
    finally show ?thesis using split by (cases "b = ?b") auto
  qed
  have srt: "sorted_wrt (\<lambda>i j. nonce (items' ! i) \<le> nonce (items' ! j)) ((L(?b := ys @ n # zs)) b)" for b
  proof (cases "b = ?b")
    case True
    have s: "sorted_wrt (\<lambda>i j. nonce (items ! i) \<le> nonce (items ! j)) (ys @ zs)" using D(5) [of ?b] split by simp
    have "sorted_wrt (\<lambda>i j. nonce (items' ! i) \<le> nonce (items' ! j)) (ys @ zs)"
      using s by (rule sorted_wrt_mono_rel [rotated]) (simp add: ymem nonces)
    then show ?thesis using True by (simp add: sorted_wrt_append v ymem nonces lo hi)
  next
    case False
    have "sorted_wrt (\<lambda>i j. nonce (items' ! i) \<le> nonce (items' ! j)) (L b)"
      using D(5) [of b] by (rule sorted_wrt_mono_rel [rotated]) (simp add: mem [of _ b] nonces)
    with False show ?thesis by simp
  qed
  have dist': "distinct ((L(?b := ys @ n # zs)) b)" for b using dist ymem D(3) [of b] by auto
  have segs: "seg items' (idx' b) ((L(?b := ys @ n # zs)) b) None" for b
    using new old [of b] by (cases "b = ?b") auto
  show ?thesis unfolding chains_def using n len by (simp only: segs dist' sets srt) simp
qed

section \<open>Walking a list\<close>

fun walk_list :: "dupe_item list \<Rightarrow> share \<Rightarrow> nat option \<Rightarrow> nat list \<Rightarrow> walk_result" where
  "walk_list items s p [] = IsDupe"
| "walk_list items s p (i # xs) =
     (if nonce (items ! i) > s_nonce s then InsertBefore p i
      else if item_matches s (items ! i) then IsDupe
      else if xs = [] then AtEnd i else walk_list items s (Some i) xs)"

lemma check_walk_list:
  "seg items (Some i) (i # xs) None \<Longrightarrow> check_walk items s p i = Some (walk_list items s p (i # xs))"
proof (induction xs arbitrary: i p)
  case Nil
  then have "nxt (items ! i) = None" by simp
  then show ?case by (subst check_walk.simps) simp
next
  case (Cons j xs)
  then have "seg items (Some j) (j # xs) None" and "nxt (items ! i) = Some j" by auto
  with Cons.IH [of j] show ?case by (subst check_walk.simps) simp
qed

lemma walk_list_spec:
  assumes "xs \<noteq> []"
  shows "(case walk_list items s p xs of
      IsDupe \<Rightarrow> \<exists>i \<in> set xs. item_matches s (items ! i)
    | InsertBefore q i \<Rightarrow> \<exists>ys zs. xs = ys @ i # zs \<and> nonce (items ! i) > s_nonce s
         \<and> (\<forall>j \<in> set ys. nonce (items ! j) \<le> s_nonce s \<and> \<not> item_matches s (items ! j))
         \<and> q = (if ys = [] then p else Some (last ys))
    | AtEnd i \<Rightarrow> last xs = i \<and> (\<forall>j \<in> set xs. nonce (items ! j) \<le> s_nonce s \<and> \<not> item_matches s (items ! j)))"
  using assms
proof (induction items s p xs rule: walk_list.induct)
  case (2 items s p i xs)
  show ?case
  proof (cases "nonce (items ! i) > s_nonce s \<or> item_matches s (items ! i) \<or> xs = []")
    case True
    then show ?thesis by auto
  next
    case False
    with 2 have ih: "(case walk_list items s (Some i) xs of
      IsDupe \<Rightarrow> \<exists>i \<in> set xs. item_matches s (items ! i)
    | InsertBefore q i' \<Rightarrow> \<exists>ys zs. xs = ys @ i' # zs \<and> nonce (items ! i') > s_nonce s
         \<and> (\<forall>j \<in> set ys. nonce (items ! j) \<le> s_nonce s \<and> \<not> item_matches s (items ! j))
         \<and> q = (if ys = [] then Some i else Some (last ys))
    | AtEnd i' \<Rightarrow> last xs = i' \<and> (\<forall>j \<in> set xs. nonce (items ! j) \<le> s_nonce s \<and> \<not> item_matches s (items ! j)))"
      by simp
    show ?thesis
    proof (cases "walk_list items s (Some i) xs")
      case (InsertBefore q i')
      with ih obtain ys zs where "xs = ys @ i' # zs" "nonce (items ! i') > s_nonce s"
        "\<forall>j \<in> set ys. nonce (items ! j) \<le> s_nonce s \<and> \<not> item_matches s (items ! j)"
        "q = (if ys = [] then Some i else Some (last ys))" by auto
      moreover from False InsertBefore have "walk_list items s p (i # xs) = InsertBefore q i'" by simp
      ultimately show ?thesis unfolding \<open>walk_list items s p (i # xs) = InsertBefore q i'\<close> walk_result.case
        using False by (intro exI [of _ "i # ys"] exI [of _ zs]) auto
    qed (use False ih in auto)
  qed
qed simp

section \<open>Recorded shares\<close>

type_synonym share_key = "u64 \<times> u16 \<times> u64 \<times> u32 \<times> u64 \<times> u32"

definition item_key :: "dupe_item \<Rightarrow> share_key" where
  "item_key it = (nonce it, job_index it, ntime it, version_bits it, extra_nonce_a it, extra_nonce_b it)"

definition share_key :: "share \<Rightarrow> share_key" where
  "share_key s = (s_nonce s, s_job_index s, s_ntime s, s_version_bits s,
     upk_u64le (s_extranonce s) 0, upk_u32le (s_extranonce s) 8)"

definition recorded :: "dupes \<Rightarrow> share_key set" where
  "recorded d = (\<lambda>j. item_key (ptr d ! j)) ` {..<current_items d}"

definition dupes_inv :: "dupes \<Rightarrow> bool" where
  "dupes_inv d \<longleftrightarrow> length (ptr d) = max_items d \<and> (\<exists>L. chains (current_items d) (ptr d) (index d) L)"

lemma item_matches_key: "item_matches s it \<longleftrightarrow> item_key it = share_key s"
  by (auto simp: item_matches_def item_key_def share_key_def)

lemma item_key_share_item [simp]: "item_key (share_item s n) = share_key s"
  by (simp add: item_key_def share_key_def share_item_def)

lemma item_key_nxt [simp]: "item_key (it\<lparr>nxt := n\<rparr>) = item_key it"
  by (simp add: item_key_def)

lemma nonce_key: "nonce it = fst (item_key it)"
  by (simp add: item_key_def)

lemma recorded_bucket:
  assumes "chains (current_items d) (ptr d) (index d) L"
  shows "share_key s \<in> recorded d \<longleftrightarrow> (\<exists>j \<in> set (L (bucket (s_nonce s))). item_matches s (ptr d ! j))"
proof -
  have "bucket (nonce (ptr d ! j)) = bucket (s_nonce s)" if "item_matches s (ptr d ! j)" for j
    using that by (simp add: item_matches_def)
  then show ?thesis
    unfolding recorded_def using chainsD(4) [OF assms, of "bucket (s_nonce s)"]
    by (auto simp: item_matches_key intro: image_eqI [OF sym])
qed

text \<open>What one call records, when the array does not fill up.\<close>

lemma add_new_dupe_step:
  assumes inv: "dupes_inv d" and ch: "chains (current_items d) (ptr d) (index d) L"
    and room: "Suc (current_items d) < max_items d"
    and split: "L (bucket (s_nonce s)) = ys @ zs"
    and lo: "\<And>j. j \<in> set ys \<Longrightarrow> nonce (ptr d ! j) \<le> s_nonce s"
    and hi: "\<And>j. j \<in> set zs \<Longrightarrow> s_nonce s \<le> nonce (ptr d ! j)"
    and len: "length items' = length (ptr d)"
    and new: "items' ! current_items d = share_item s (if zs = [] then None else Some (hd zs))"
    and old: "\<And>j. j < current_items d \<Longrightarrow> ys = [] \<or> j \<noteq> last ys \<Longrightarrow> items' ! j = ptr d ! j"
    and pred: "ys \<noteq> [] \<Longrightarrow> items' ! last ys = (ptr d ! last ys)\<lparr>nxt := Some (current_items d)\<rparr>"
    and d': "d' = d\<lparr>ptr := items', current_items := Suc (current_items d),
       index := (if ys = [] then (index d)(bucket (s_nonce s) := Some (current_items d)) else index d)\<rparr>"
  shows "dupes_inv d' \<and> recorded d' = insert (share_key s) (recorded d)"
proof -
  let ?n = "current_items d"
  have keys: "item_key (items' ! j) = item_key (ptr d ! j)" if "j < ?n" for j
    using old [OF that] pred by (cases "ys = [] \<or> j \<noteq> last ys") auto
  have "chains (Suc ?n) items' (index d') (L(bucket (s_nonce s) := ys @ ?n # zs))"
    using ch _ len split
  proof (rule chains_insert)
    show "?n < length (ptr d)" using inv room by (simp add: dupes_inv_def)
    show "nonce (items' ! ?n) = s_nonce s" by (simp add: new share_item_def)
    show "nonce (items' ! j) = nonce (ptr d ! j)" if "j < ?n" for j using keys [OF that] by (simp add: nonce_key)
    show "nxt (items' ! ?n) = (if zs = [] then None else Some (hd zs))" by (simp add: new share_item_def)
  qed (use old pred lo hi in \<open>auto simp: d'\<close>)
  moreover have "recorded d' = insert (share_key s) (recorded d)"
    unfolding recorded_def d' using keys by (force simp: lessThan_Suc new)
  ultimately show ?thesis using inv len by (auto simp: dupes_inv_def d')
qed

section \<open>Checking a share\<close>

definition checked :: "dupes \<Rightarrow> share \<Rightarrow> (bool \<times> dupes) option \<Rightarrow> bool" where
  "checked d s r \<longleftrightarrow> (\<exists>d'. r = Some (share_key s \<in> recorded d, d') \<and> dupes_inv d'
     \<and> recorded d' = insert (share_key s) (recorded d)
     \<and> max_items d' = max_items d \<and> current_items d' \<le> Suc (current_items d))"

lemma add_after_checked:
  assumes inv: "dupes_inv d" and ch: "chains (current_items d) (ptr d) (index d) L"
    and room: "Suc (current_items d) < max_items d"
    and sp: "L (bucket (s_nonce s)) = ys @ zs" "ys \<noteq> []"
    and lo: "\<And>j. j \<in> set ys \<Longrightarrow> nonce (ptr d ! j) \<le> s_nonce s"
    and hi: "\<And>j. j \<in> set zs \<Longrightarrow> s_nonce s \<le> nonce (ptr d ! j)"
    and new: "share_key s \<notin> recorded d"
  shows "checked d s (map_option (\<lambda>(_, d). (False, d)) (datum_stratum_add_new_dupe qs jobs stale d s (Some (last ys))))"
proof -
  let ?n = "current_items d" and ?p = "last ys" and ?b = "bucket (s_nonce s)"
  have len: "length (ptr d) = max_items d" using inv by (simp add: dupes_inv_def)
  have "?p \<in> set (L ?b)" using sp by simp
  then have p: "?p < ?n" using chainsD(4) [OF ch] by auto
  have "seg (ptr d) (index d ?b) ((butlast ys @ [?p]) @ zs) None" using chainsD(2) [OF ch, of ?b] sp by simp
  then have nx: "nxt (ptr d ! ?p) = (if zs = [] then None else Some (hd zs))"
    unfolding seg_append by (auto dest: seg_start)
  let ?it = "(ptr d)[?n := share_item s (nxt (ptr d ! ?p))]"
  let ?d = "d\<lparr>ptr := ?it[?p := (?it ! ?p)\<lparr>nxt := Some ?n\<rparr>], current_items := Suc ?n\<rparr>"
  have "dupes_inv ?d \<and> recorded ?d = insert (share_key s) (recorded d)"
    by (rule add_new_dupe_step [OF inv ch room sp(1)])
       (use p nx sp(2) lo hi room len in \<open>auto simp: nth_list_update\<close>)
  moreover have "map_option (\<lambda>(_, d). (False, d)) (datum_stratum_add_new_dupe qs jobs stale d s (Some ?p)) = Some (False, ?d)"
    using room by (simp add: datum_stratum_add_new_dupe_def Let_def)
  ultimately show ?thesis using new by (auto simp: checked_def)
qed

lemma add_first_checked:
  assumes inv: "dupes_inv d" and ch: "chains (current_items d) (ptr d) (index d) L"
    and room: "Suc (current_items d) < max_items d"
    and hi: "\<And>j. j \<in> set (L (bucket (s_nonce s))) \<Longrightarrow> s_nonce s \<le> nonce (ptr d ! j)"
    and new: "share_key s \<notin> recorded d"
  shows "checked d s (Some (False, d\<lparr>ptr := (ptr d)[current_items d := share_item s (index d (bucket (s_nonce s)))],
      current_items := Suc (current_items d), index := (index d)(bucket (s_nonce s) := Some (current_items d))\<rparr>))"
proof -
  let ?n = "current_items d" and ?b = "bucket (s_nonce s)"
  have len: "length (ptr d) = max_items d" using inv by (simp add: dupes_inv_def)
  have st: "index d ?b = (if L ?b = [] then None else Some (hd (L ?b)))"
    using chainsD(2) [OF ch] by (rule seg_start)
  let ?d = "d\<lparr>ptr := (ptr d)[?n := share_item s (index d ?b)], current_items := Suc ?n, index := (index d)(?b := Some ?n)\<rparr>"
  have "dupes_inv ?d \<and> recorded ?d = insert (share_key s) (recorded d)"
    by (rule add_new_dupe_step [OF inv ch room, where ys = "[]" and zs = "L ?b"])
       (use st hi room len in auto)
  then show ?thesis using new by (auto simp: checked_def)
qed

lemma check_for_dupe_step:
  assumes inv: "dupes_inv d" and room: "Suc (current_items d) < max_items d"
  shows "checked d s (datum_stratum_check_for_dupe qs jobs stale d s)"
proof -
  let ?n = "current_items d" and ?b = "bucket (s_nonce s)"
  obtain L where ch: "chains ?n (ptr d) (index d) L" and len: "length (ptr d) = max_items d"
    using inv by (auto simp: dupes_inv_def)
  note D = chainsD [OF ch]
  note rec = recorded_bucket [OF ch, of s]
  note first = add_first_checked [OF inv ch room, of s]
  have b: "ucast (s_nonce s AND 0xffff) = ?b" by (simp add: bucket_def)
  show ?thesis
  proof (cases "L ?b")
    case Nil
    then have idx: "index d ?b = None" using D(2) [of ?b] by simp
    have "share_key s \<notin> recorded d" using Nil rec by simp
    moreover have "datum_stratum_check_for_dupe qs jobs stale d s =
        Some (False, d\<lparr>ptr := (ptr d)[?n := share_item s None], current_items := Suc ?n, index := (index d)(?b := Some ?n)\<rparr>)"
      unfolding datum_stratum_check_for_dupe_def Let_def b idx option.case using room
      by (simp add: datum_stratum_add_new_dupe_def Let_def)
    ultimately show ?thesis using Nil first by (simp add: idx)
  next
    case (Cons h t)
    then have sg: "seg (ptr d) (Some h) (h # t) None" and idx: "index d ?b = Some h"
      using D(2) [of ?b] by auto
    note ws = walk_list_spec [where xs = "h # t" and items = "ptr d" and s = s and p = None]
    note unf = datum_stratum_check_for_dupe_def Let_def b idx option.case check_walk_list [OF sg]
    show ?thesis
    proof (cases "walk_list (ptr d) s None (h # t)")
      case IsDupe
      then have "share_key s \<in> recorded d" using ws rec Cons by simp
      then show ?thesis unfolding unf IsDupe using inv by (auto simp: checked_def)
    next
      case (AtEnd i)
      with ws have i: "last (h # t) = i"
        and all: "\<forall>j \<in> set (h # t). nonce (ptr d ! j) \<le> s_nonce s \<and> \<not> item_matches s (ptr d ! j)" by auto
      have "share_key s \<notin> recorded d" using all rec Cons by simp
      with all have "checked d s (map_option (\<lambda>(_, d). (False, d)) (datum_stratum_add_new_dupe qs jobs stale d s (Some (last (h # t)))))"
        by (intro add_after_checked [OF inv ch room, where zs = "[]"]) (auto simp: Cons)
      then show ?thesis unfolding unf AtEnd i by simp
    next
      case (InsertBefore q i)
      with ws obtain ys zs where sp: "h # t = ys @ i # zs" and gt: "nonce (ptr d ! i) > s_nonce s"
        and lo: "\<forall>j \<in> set ys. nonce (ptr d ! j) \<le> s_nonce s \<and> \<not> item_matches s (ptr d ! j)"
        and q: "q = (if ys = [] then None else Some (last ys))" by auto
      have "sorted_wrt (\<lambda>i j. nonce (ptr d ! i) \<le> nonce (ptr d ! j)) (ys @ i # zs)"
        using D(5) [of ?b] Cons sp by simp
      then have hi: "s_nonce s < nonce (ptr d ! j)" if "j \<in> set (i # zs)" for j
        using that gt by (auto simp: sorted_wrt_append)
      then have "\<forall>j \<in> set (i # zs). \<not> item_matches s (ptr d ! j)"
        by (metis item_matches_def order_less_irrefl)
      with lo have new: "share_key s \<notin> recorded d" using rec Cons sp by auto
      show ?thesis
      proof (cases "ys = []")
        case False
        have "checked d s (map_option (\<lambda>(_, d). (False, d)) (datum_stratum_add_new_dupe qs jobs stale d s (Some (last ys))))"
          by (rule add_after_checked [OF inv ch room _ False, where zs = "i # zs"])
             (use Cons sp lo hi new in \<open>auto intro: less_imp_le\<close>)
        then show ?thesis unfolding unf InsertBefore using q False by simp
      next
        case True
        then have "h = i" "t = zs" "q = None" using sp q by auto
        moreover have "\<And>j. j \<in> set (L ?b) \<Longrightarrow> s_nonce s \<le> nonce (ptr d ! j)"
          using Cons hi calculation by (auto intro: less_imp_le)
        moreover have "Option.bind (datum_stratum_add_new_dupe qs jobs stale d s None) (new_head ?b i) =
          Some (False, d\<lparr>ptr := (ptr d)[?n := share_item s (Some i)], current_items := Suc ?n, index := (index d)(?b := Some ?n)\<rparr>)"
          using room len by (simp add: datum_stratum_add_new_dupe_def Let_def share_item_def)
        ultimately show ?thesis using first new unfolding unf InsertBefore by (simp add: idx)
      qed
    qed
  qed
qed

section \<open>Sequences of shares\<close>

fun run_checks :: "('st \<Rightarrow> 'sh \<Rightarrow> (bool \<times> 'st) option) \<Rightarrow> 'st \<Rightarrow> 'sh list \<Rightarrow> (bool list \<times> 'st) option" where
  "run_checks check d [] = Some ([], d)"
| "run_checks check d (s # ss) =
     (case check d s of
        None \<Rightarrow> None
      | Some (v, d') \<Rightarrow> map_option (\<lambda>(vs, d''). (v # vs, d'')) (run_checks check d' ss))"

text \<open>
  The contract between the share handler and the duplicate table: while there is room, a check
  returns, answers whether the share was recorded, and records it.
\<close>

locale share_filter =
  fixes check :: "'st \<Rightarrow> 'sh \<Rightarrow> (bool \<times> 'st) option"
    and inv :: "'st \<Rightarrow> bool" and room :: "'st \<Rightarrow> nat"
    and key :: "'sh \<Rightarrow> 'k" and keys :: "'st \<Rightarrow> 'k set"
  assumes check_ok: "inv d \<Longrightarrow> 0 < room d \<Longrightarrow>
    \<exists>d'. check d s = Some (key s \<in> keys d, d') \<and> inv d' \<and> keys d' = insert (key s) (keys d) \<and> room d \<le> Suc (room d')"
begin

lemma run_exact:
  "inv d \<Longrightarrow> length ss \<le> room d \<Longrightarrow>
   \<exists>d'. run_checks check d ss = Some (map (\<lambda>i. key (ss ! i) \<in> keys d \<union> key ` set (take i ss)) [0..<length ss], d')
      \<and> inv d' \<and> keys d' = keys d \<union> key ` set ss"
proof (induction ss arbitrary: d)
  case (Cons s ss)
  then obtain d1 where d1: "check d s = Some (key s \<in> keys d, d1)" "inv d1" "keys d1 = insert (key s) (keys d)" "room d \<le> Suc (room d1)"
    using check_ok [of d s] by auto
  with Cons.prems have "length ss \<le> room d1" by simp
  with Cons.IH [OF d1(2)] obtain d2 where d2:
    "run_checks check d1 ss = Some (map (\<lambda>i. key (ss ! i) \<in> keys d1 \<union> key ` set (take i ss)) [0..<length ss], d2)"
    "inv d2" "keys d2 = keys d1 \<union> key ` set ss" by blast
  have "[0..<Suc (length ss)] = 0 # map Suc [0..<length ss]"
    by (simp add: upt_conv_Cons map_Suc_upt del: upt_Suc)
  then show ?case using d1 d2 by (auto simp: o_def simp del: upt_Suc)
qed simp

end

interpretation dupe_filter: share_filter
  "datum_stratum_check_for_dupe qs jobs stale" dupes_inv "\<lambda>d. max_items d - Suc (current_items d)" share_key recorded
  for qs jobs stale
proof
  fix d s assume "dupes_inv d" and "0 < max_items d - Suc (current_items d)"
  then have "checked d s (datum_stratum_check_for_dupe qs jobs stale d s)"
    by (intro check_for_dupe_step) simp_all
  then show "\<exists>d'. datum_stratum_check_for_dupe qs jobs stale d s = Some (share_key s \<in> recorded d, d') \<and> dupes_inv d'
      \<and> recorded d' = insert (share_key s) (recorded d)
      \<and> max_items d - Suc (current_items d) \<le> Suc (max_items d' - Suc (current_items d'))"
    by (auto simp: checked_def)
qed

lemma dupes_init_fresh:
  assumes "datum_stratum_dupes_init c t st = Some d"
  shows "dupes_inv d" "recorded d = {}" "current_items d = 0"
  using assms by (auto simp: dupes_inv_def recorded_def datum_stratum_dupes_init_def chains_def Let_def
      intro!: exI [of _ "\<lambda>_. []"] split: if_splits)

text \<open>C24: from a fresh table, as long as fewer shares than the table holds arrive, checking a sequence of
  shares always returns and rejects exactly the shares that repeat an earlier one.\<close>
theorem dupes_exact:
  assumes "datum_stratum_dupes_init clients shares stale_secs = Some d" and "length ss < max_items d"
  shows "\<exists>d'. run_checks (datum_stratum_check_for_dupe qs jobs stale) d ss
     = Some (map (\<lambda>i. share_key (ss ! i) \<in> share_key ` set (take i ss)) [0..<length ss], d')"
proof -
  note fresh = dupes_init_fresh [OF assms(1)]
  have "length ss \<le> max_items d - Suc (current_items d)" using assms(2) fresh by simp
  from dupe_filter.run_exact [OF fresh(1) this, of qs jobs stale] show ?thesis by (auto simp: fresh)
qed

definition ex_share :: "nat \<Rightarrow> share" where
  "ex_share k = \<lparr>s_nonce = word_of_nat k, s_job_index = word_of_nat k, s_ntime = 1, s_version_bits = 0, s_extranonce = replicate 12 0\<rparr>"

text \<open>The smallest table the initialisation makes: one client, one share per minute, stale after a minute.\<close>

definition ex_dupes :: dupes where
  "ex_dupes = \<lparr>index = (\<lambda>_. None), ptr = replicate 16 zero_item, max_items = 16, current_items = 0\<rparr>"

lemma ex_dupes_init: "datum_stratum_dupes_init 1 1 60 = Some ex_dupes"
  by (simp add: datum_stratum_dupes_init_def int_fits_def ex_dupes_def)

theorem dupes_exact_witness:
  "\<exists>d'. run_checks (datum_stratum_check_for_dupe insort_cmp (\<lambda>_. None) 0) ex_dupes
      [ex_share 1, ex_share 2, ex_share 1] = Some ([False, False, True], d')"
proof -
  have "length [ex_share 1, ex_share 2, ex_share 1] < max_items ex_dupes" by (simp add: ex_dupes_def)
  from dupes_exact [OF ex_dupes_init this, of insort_cmp "\<lambda>_. None" 0] show ?thesis
    by (simp add: upt_rec ex_share_def share_key_def)
qed

section \<open>Finding the stale items\<close>

text \<open>Binary search over items in order of decreasing job time.\<close>

lemma find_loop_spec:
  assumes "\<forall>i j. i \<le> j \<longrightarrow> j < length items \<longrightarrow> item_tsms jobs (items ! j) \<le> item_tsms jobs (items ! i)"
    and "0 \<le> low" "high < int (length items)"
    and "\<forall>i < nat low. \<not> item_tsms jobs (items ! i) < g"
    and "low \<le> high + 1"
    and "(result = -1 \<and> high = int (length items) - 1) \<or>
         (0 \<le> result \<and> result = high + 1 \<and> result < int (length items) \<and> item_tsms jobs (items ! nat result) < g)"
  shows "let r = find_loop jobs items g low high result in
    if r = -1 then \<forall>i < length items. \<not> item_tsms jobs (items ! i) < g
    else 0 \<le> r \<and> r < int (length items) \<and> item_tsms jobs (items ! nat r) < g
       \<and> (\<forall>i < nat r. \<not> item_tsms jobs (items ! i) < g)"
  using assms
proof (induction jobs items g low high result rule: find_loop.induct)
  case (1 jobs items g low high result)
  let ?mid = "low + (high - low) div 2"
  show ?case
  proof (cases "low \<le> high")
    case False
    then have "low = high + 1" using "1.prems" by simp
    then show ?thesis using "1.prems" False by (auto simp: find_loop.simps [of jobs items g low high])
  next
    case True
    have mid: "low \<le> ?mid" "?mid \<le> high" using True by auto
    show ?thesis
    proof (cases "item_tsms jobs (items ! nat ?mid) < g")
      case lt: True
      then show ?thesis using "1.IH"(1) [OF True refl lt] "1.prems" mid True
        by (simp add: find_loop.simps [of jobs items g low high] Let_def)
    next
      case ge: False
      have "\<not> item_tsms jobs (items ! i) < g" if "i < nat (?mid + 1)" for i
      proof -
        have "i \<le> nat ?mid" "nat ?mid < length items" using that mid "1.prems"(2,3) by auto
        then have "item_tsms jobs (items ! nat ?mid) \<le> item_tsms jobs (items ! i)" using "1.prems"(1) by blast
        with ge show ?thesis by auto
      qed
      then show ?thesis using "1.IH"(2) [OF True refl ge] "1.prems" mid True ge
        by (simp add: find_loop.simps [of jobs items g low high] Let_def)
    qed
  qed
qed

section \<open>Rebuilding the lists\<close>

lemma reorganize_walk_list:
  "seg items (Some q) (q # xs) None \<Longrightarrow>
   \<exists>ys zs. q # xs = ys @ zs
     \<and> reorganize_walk items n p q = Some (if ys = [] then p else Some (last ys), if zs = [] then None else Some (hd zs))
     \<and> (\<forall>j \<in> set ys. nonce (items ! j) \<le> n) \<and> (zs \<noteq> [] \<longrightarrow> n < nonce (items ! hd zs))"
proof (induction xs arbitrary: q p)
  case Nil
  then have nx: "nxt (items ! q) = None" by simp
  show ?case
  proof (cases "nonce (items ! q) > n")
    case True
    then show ?thesis by (intro exI [of _ "[]"] exI [of _ "[q]"], subst reorganize_walk.simps) simp
  next
    case False
    then show ?thesis using nx by (intro exI [of _ "[q]"] exI [of _ "[]"], subst reorganize_walk.simps) simp
  qed
next
  case (Cons r xs)
  then have nx: "nxt (items ! q) = Some r" and sg: "seg items (Some r) (r # xs) None" by auto
  show ?case
  proof (cases "nonce (items ! q) > n")
    case True
    then show ?thesis by (intro exI [of _ "[]"] exI [of _ "q # r # xs"], subst reorganize_walk.simps) simp
  next
    case False
    obtain ys zs where "r # xs = ys @ zs"
      and "reorganize_walk items n (Some q) r = Some (if ys = [] then Some q else Some (last ys), if zs = [] then None else Some (hd zs))"
      and "\<forall>j \<in> set ys. nonce (items ! j) \<le> n" "zs \<noteq> [] \<longrightarrow> n < nonce (items ! hd zs)"
      using Cons.IH [OF sg, of "Some q"] by blast
    then show ?thesis using False nx
      by (intro exI [of _ "q # ys"] exI [of _ zs], subst reorganize_walk.simps) auto
  qed
qed

definition relinked :: "nat \<Rightarrow> dupes \<Rightarrow> dupes \<Rightarrow> bool" where
  "relinked n d d' \<longleftrightarrow> length (ptr d') = length (ptr d) \<and> max_items d' = max_items d
     \<and> map item_key (ptr d') = map item_key (ptr d) \<and> (\<exists>L. chains n (ptr d') (index d') L)"

lemma reorganize_item_relinked:
  assumes ch: "chains i (ptr d) (index d) L" and i: "i < length (ptr d)"
  shows "\<exists>d'. reorganize_item i d = Some d' \<and> relinked (Suc i) d d'"
proof -
  let ?items = "ptr d" and ?v = "nonce (ptr d ! i)"
  let ?b = "bucket ?v"
  note D = chainsD [OF ch]
  have b: "ucast (?v AND 0xffff) = ?b" by (simp add: bucket_def)
  have lt: "j < i" if "j \<in> set (L ?b)" for j using that D(4) by auto
  have linked: "relinked (Suc i) d d'"
    if sp: "L ?b = ys @ zs" and lo: "\<And>j. j \<in> set ys \<Longrightarrow> nonce (?items ! j) \<le> ?v"
      and hi: "\<And>j. j \<in> set zs \<Longrightarrow> ?v \<le> nonce (?items ! j)"
      and items': "ptr d' = (if ys = [] then ?items else ?items[last ys := (?items ! last ys)\<lparr>nxt := Some i\<rparr>])
          [i := (?items ! i)\<lparr>nxt := if zs = [] then None else Some (hd zs)\<rparr>]"
      and idx': "index d' = (if ys = [] then (index d)(?b := Some i) else index d)"
      and mx: "max_items d' = max_items d" for d' ys zs
  proof -
    have "ys = [] \<or> last ys \<in> set (L ?b)" unfolding sp by auto
    then have p: "ys = [] \<or> last ys < i" using lt by blast
    have "chains (Suc i) (ptr d') (index d') (L(?b := ys @ i # zs))"
      by (rule chains_insert [OF ch i _ sp _ _ _ _ _ lo hi idx'])
         (use p i in \<open>auto simp: items' nth_list_update\<close>)
    moreover have "map item_key (ptr d') = map item_key ?items"
      unfolding items' by (rule nth_equalityI) (use p i in \<open>auto simp: nth_list_update\<close>)
    moreover have "length (ptr d') = length ?items" unfolding items' by simp
    ultimately show ?thesis using mx by (auto simp: relinked_def)
  qed
  show ?thesis
  proof (cases "L ?b")
    case Nil
    then have idx: "index d ?b = None" using D(2) [of ?b] by simp
    show ?thesis unfolding reorganize_item_def Let_def b idx option.case
      by (rule exI, rule conjI, rule refl, rule linked [of "[]" "[]"]) (simp_all add: Nil)
  next
    case (Cons h t)
    then have sg: "seg ?items (Some h) (h # t) None" and idx: "index d ?b = Some h" using D(2) [of ?b] by auto
    obtain ys zs where sp: "h # t = ys @ zs"
      and w: "reorganize_walk ?items ?v None h = Some (if ys = [] then None else Some (last ys), if zs = [] then None else Some (hd zs))"
      and lo: "\<forall>j \<in> set ys. nonce (?items ! j) \<le> ?v" and hi0: "zs \<noteq> [] \<longrightarrow> ?v < nonce (?items ! hd zs)"
      using reorganize_walk_list [OF sg, of ?v None] by blast
    define q where "q = (if zs = [] then None else Some (hd zs))"
    note w = w [folded q_def]
    have "sorted_wrt (\<lambda>i j. nonce (?items ! i) \<le> nonce (?items ! j)) zs"
      using D(5) [of ?b] Cons sp by (simp add: sorted_wrt_append)
    then have hi: "?v \<le> nonce (?items ! j)" if "j \<in> set zs" for j
      using that hi0 by (cases zs) auto
    show ?thesis
    proof (cases "ys = []")
      case True
      show ?thesis unfolding reorganize_item_def Let_def b idx option.case w
        using True by simp (rule linked [of "[]" zs], use True sp Cons hi q_def in auto)
    next
      case False
      show ?thesis unfolding reorganize_item_def Let_def b idx option.case w
        using False by simp (rule linked [of ys zs], use False sp Cons lo hi q_def in auto)
    qed
  qed
qed

lemma length_takeWhile_ntime:
  "length (takeWhile (\<lambda>it. ntime it \<noteq> 0) xs) = length (takeWhile (\<lambda>t. t \<noteq> 0) (map ntime xs))"
  by (simp add: takeWhile_map comp_def)

lemma reorganize_loop_relinked:
  "chains i (ptr d) (index d) L \<Longrightarrow> i + n = length (ptr d) \<Longrightarrow> max_items d = length (ptr d) \<Longrightarrow>
   \<exists>d'. reorganize_loop n i d = Some d' \<and> dupes_inv d' \<and> map item_key (ptr d') = map item_key (ptr d)
      \<and> max_items d' = max_items d
      \<and> current_items d' = i + length (takeWhile (\<lambda>it. ntime it \<noteq> 0) (drop i (ptr d)))"
proof (induction n arbitrary: i d L)
  case 0
  then show ?case by (auto simp: dupes_inv_def)
next
  case (Suc n)
  then have i: "i < length (ptr d)" by simp
  have dr: "drop i (ptr d) = ptr d ! i # drop (Suc i) (ptr d)" using i by (simp add: Cons_nth_drop_Suc)
  show ?case
  proof (cases "ntime (ptr d ! i) = 0")
    case True
    then show ?thesis using Suc.prems dr by (auto simp: dupes_inv_def)
  next
    case False
    obtain d1 L1 where d1: "reorganize_item i d = Some d1" and len: "length (ptr d1) = length (ptr d)"
      and mx: "max_items d1 = max_items d" and keys: "map item_key (ptr d1) = map item_key (ptr d)"
      and ch: "chains (Suc i) (ptr d1) (index d1) L1"
      using reorganize_item_relinked [OF Suc.prems(1) i] by (auto simp: relinked_def)
    have "\<exists>d'. reorganize_loop n (Suc i) d1 = Some d' \<and> dupes_inv d' \<and> map item_key (ptr d') = map item_key (ptr d1)
      \<and> max_items d' = max_items d1
      \<and> current_items d' = Suc i + length (takeWhile (\<lambda>it. ntime it \<noteq> 0) (drop (Suc i) (ptr d1)))"
      using ch by (rule Suc.IH) (use Suc.prems len mx in auto)
    moreover have "map ntime (ptr d1) = map ntime (ptr d)"
      using arg_cong [OF keys, of "map (\<lambda>k. fst (snd (snd k)))"] by (simp add: o_def item_key_def)
    then have "map ntime (drop (Suc i) (ptr d1)) = map ntime (drop (Suc i) (ptr d))" by (simp flip: drop_map)
    then have "length (takeWhile (\<lambda>it. ntime it \<noteq> 0) (drop (Suc i) (ptr d1))) = length (takeWhile (\<lambda>it. ntime it \<noteq> 0) (drop (Suc i) (ptr d)))"
      by (simp only: length_takeWhile_ntime)
    ultimately show ?thesis using False d1 keys mx dr by simp
  qed
qed

lemma reorganize_inv:
  assumes "index d = (\<lambda>_. None)" and "max_items d = length (ptr d)"
  shows "\<exists>d'. datum_stratum_dupes_reorganize d = Some d' \<and> dupes_inv d' \<and> max_items d' = max_items d
     \<and> recorded d' = item_key ` set (takeWhile (\<lambda>it. ntime it \<noteq> 0) (ptr d))"
proof -
  have "chains 0 (ptr d) (index d) (\<lambda>_. [])" using assms by (simp add: chains_def)
  then have "\<exists>d'. reorganize_loop (max_items d) 0 d = Some d' \<and> dupes_inv d' \<and> map item_key (ptr d') = map item_key (ptr d)
      \<and> max_items d' = max_items d
      \<and> current_items d' = 0 + length (takeWhile (\<lambda>it. ntime it \<noteq> 0) (drop 0 (ptr d)))"
    using assms(2) by (intro reorganize_loop_relinked) simp_all
  then obtain d' where d': "datum_stratum_dupes_reorganize d = Some d'" "dupes_inv d'" "max_items d' = max_items d"
    and keys: "map item_key (ptr d') = map item_key (ptr d)"
    and cur: "current_items d' = length (takeWhile (\<lambda>it. ntime it \<noteq> 0) (ptr d))"
    unfolding datum_stratum_dupes_reorganize_def by auto
  have le: "current_items d' \<le> length (ptr d)" unfolding cur by (rule length_takeWhile_le)
  have len: "length (ptr d') = length (ptr d)" using keys by (metis length_map)
  have "recorded d' = set (take (current_items d') (map item_key (ptr d')))"
  proof -
    have "map (\<lambda>j. item_key (ptr d' ! j)) [0..<current_items d'] = take (current_items d') (map item_key (ptr d'))"
      using le len by (intro nth_equalityI) auto
    moreover have "recorded d' = set (map (\<lambda>j. item_key (ptr d' ! j)) [0..<current_items d'])"
      by (simp add: recorded_def atLeast0LessThan)
    ultimately show ?thesis by simp
  qed
  also have "\<dots> = item_key ` set (takeWhile (\<lambda>it. ntime it \<noteq> 0) (ptr d))"
    unfolding keys take_map cur by (simp flip: takeWhile_eq_take)
  finally show ?thesis using d' by blast
qed

section \<open>Cleanup keeps the live shares\<close>

definition job_rank :: "jobs \<Rightarrow> dupe_item \<Rightarrow> nat" where
  "job_rank jobs it = (case jobs (unat (job_index it)) of None \<Rightarrow> 0 | Some t \<Rightarrow> Suc (unat t))"

lemma cleanup_compare_rank:
  assumes "unat (job_index a) < MAX_STRATUM_JOBS" "unat (job_index b) < MAX_STRATUM_JOBS"
  shows "datum_stratum_dupes_cleanup_sort_compare jobs a b =
    (if job_rank jobs b < job_rank jobs a then -1 else if job_rank jobs a < job_rank jobs b then 1 else 0)"
  using assms
  by (auto simp: datum_stratum_dupes_cleanup_sort_compare_def job_rank_def word_less_nat_alt split: option.splits)

lemma cleanup_compare_ok:
  assumes "\<forall>it \<in> A. unat (job_index it) < MAX_STRATUM_JOBS"
  shows "cmp_ok (datum_stratum_dupes_cleanup_sort_compare jobs) A"
  unfolding cmp_ok_def using assms by (auto simp: cleanup_compare_rank split: if_splits)

lemma rank_tsms:
  "unat (job_index a) < MAX_STRATUM_JOBS \<Longrightarrow> unat (job_index b) < MAX_STRATUM_JOBS \<Longrightarrow>
   job_rank jobs b \<le> job_rank jobs a \<Longrightarrow> item_tsms jobs b \<le> item_tsms jobs a"
  by (auto simp: job_rank_def item_tsms_def word_le_nat_alt split: option.splits)

lemma sorted_items_tsms:
  assumes q: "qsort_spec qs" and ok: "\<forall>it \<in> set xs. unat (job_index it) < MAX_STRATUM_JOBS"
    and ij: "i \<le> j" "j < length xs"
  shows "item_tsms jobs (qs (datum_stratum_dupes_cleanup_sort_compare jobs) xs ! j)
     \<le> item_tsms jobs (qs (datum_stratum_dupes_cleanup_sort_compare jobs) xs ! i)"
proof (cases "i = j")
  case False
  let ?cmp = "datum_stratum_dupes_cleanup_sort_compare jobs"
  let ?ys = "qs ?cmp xs"
  have len: "length ?ys = length xs" and set: "set ?ys = set xs" using q by (simp_all add: qsort_length qsort_set)
  have "sorted_wrt (\<lambda>x y. ?cmp x y \<le> 0) ?ys" using q cleanup_compare_ok [OF ok] by (rule qsort_sorted)
  then have "?cmp (?ys ! i) (?ys ! j) \<le> 0" using False ij len by (intro sorted_wrt_nth_less [of "\<lambda>x y. ?cmp x y \<le> 0"]) auto
  moreover have "unat (job_index (?ys ! i)) < MAX_STRATUM_JOBS" "unat (job_index (?ys ! j)) < MAX_STRATUM_JOBS"
    using ok ij len set by (metis le_less_trans nth_mem)+
  ultimately show ?thesis
    by (intro rank_tsms) (auto simp: cleanup_compare_rank split: if_splits)
qed simp

lemma takeWhile_append_zero:
  assumes "\<forall>it \<in> set xs. ntime it \<noteq> 0"
  shows "takeWhile (\<lambda>it. ntime it \<noteq> 0) (xs @ replicate n zero_item) = xs"
  using assms by (cases n; induction xs) (auto simp: zero_item_def)

lemma find_first_take:
  assumes mono: "\<forall>i j. i \<le> j \<longrightarrow> j < length items \<longrightarrow> item_tsms jobs (items ! j) \<le> item_tsms jobs (items ! i)"
    and r: "find_first_less_than jobs items (length items) g = r" and "r \<noteq> -1"
  shows "0 \<le> r \<and> r < int (length items) \<and> (\<forall>it \<in> set items. \<not> item_tsms jobs it < g \<longrightarrow> it \<in> set (take (nat r) items))"
proof -
  have "let r = find_first_less_than jobs items (length items) g in
    if r = -1 then \<forall>i < length items. \<not> item_tsms jobs (items ! i) < g
    else 0 \<le> r \<and> r < int (length items) \<and> item_tsms jobs (items ! nat r) < g
       \<and> (\<forall>i < nat r. \<not> item_tsms jobs (items ! i) < g)"
    unfolding find_first_less_than_def by (rule find_loop_spec [OF mono]) auto
  with assms have b: "0 \<le> r" "r < int (length items)" and lt: "item_tsms jobs (items ! nat r) < g" by (simp_all add: Let_def)
  have "it \<in> set (take (nat r) items)" if it: "it \<in> set items" "\<not> item_tsms jobs it < g" for it
  proof -
    obtain k where k: "k < length items" "it = items ! k" using it(1) by (auto simp: in_set_conv_nth)
    have "k < nat r"
    proof (rule ccontr)
      assume "\<not> k < nat r"
      then have "item_tsms jobs (items ! k) \<le> item_tsms jobs (items ! nat r)" using mono k(1) by simp
      with lt k it(2) show False by auto
    qed
    with k b show ?thesis by (auto simp: in_set_conv_nth)
  qed
  with b show ?thesis by blast
qed

lemma cleanup_unfold:
  "datum_stratum_dupes_cleanup qs jobs stale False d =
    (let i = first_stale qs jobs stale d; e = d\<lparr>ptr := sorted_ptr qs jobs d, index := (\<lambda>_. None)\<rparr>
     in if i \<noteq> -1 \<and> i \<noteq> int (max_items d) - 1 \<and> \<not> int_fits (max_items d * 95) then None
        else if cleanup_grows (max_items d) i then Option.bind (datum_stratum_dupes_expand e) datum_stratum_dupes_reorganize
        else datum_stratum_dupes_reorganize (e\<lparr>current_items := nat i,
               ptr := take (nat i) (sorted_ptr qs jobs d) @ replicate (max_items d - nat i) zero_item\<rparr>))"
  by (simp add: datum_stratum_dupes_cleanup_def Let_def)

text \<open>C26: cleaning up a full table (one small enough for its \<^verbatim>\<open>int\<close> products, without an item of
  \<^verbatim>\<open>ntime\<close> zero and with job indices inside the job table) always succeeds: the index rebuild ends, leaves
  a well-formed table and keeps the record of every share whose job is at or past the stale limit; nothing that
  was not recorded before appears. The zero \<^verbatim>\<open>ntime\<close> is the mark of an unused slot: the share
  handler keeps it out of the table for the jobs whose time it checks, and does not for BLAKE2b jobs (see
  \<open>zero_ntime_empties\<close>).\<close>

theorem cleanup_keeps_live:
  assumes q: "qsort_spec qs" and full: "length (ptr d) = max_items d" "current_items d = max_items d"
    and small: "int_fits (max_items d * 125)"
    and used: "\<forall>it \<in> set (ptr d). ntime it \<noteq> 0 \<and> unat (job_index it) < MAX_STRATUM_JOBS"
  shows "\<exists>d'. datum_stratum_dupes_cleanup qs jobs stale False d = Some d' \<and> dupes_inv d'
     \<and> item_key ` {it \<in> set (ptr d). \<not> item_tsms jobs it < stale} \<subseteq> recorded d' \<and> recorded d' \<subseteq> recorded d"
proof -
  let ?items = "sorted_ptr qs jobs d"
  let ?i = "first_stale qs jobs stale d"
  have len: "length ?items = max_items d" and set: "set ?items = set (ptr d)"
    using q full by (simp_all add: qsort_length qsort_set sorted_ptr_def)
  have mono: "\<forall>i j. i \<le> j \<longrightarrow> j < length ?items \<longrightarrow> item_tsms jobs (?items ! j) \<le> item_tsms jobs (?items ! i)"
    using sorted_items_tsms [OF q, of "ptr d"] used len full unfolding sorted_ptr_def by auto
  have rec: "recorded d = item_key ` set (ptr d)"
    unfolding recorded_def using full by (force simp: in_set_conv_nth image_iff)
  have main: "\<exists>d'. datum_stratum_dupes_reorganize d2 = Some d' \<and> dupes_inv d'
     \<and> item_key ` {it \<in> set (ptr d). \<not> item_tsms jobs it < stale} \<subseteq> recorded d' \<and> recorded d' \<subseteq> recorded d"
    if d2: "ptr d2 = xs @ replicate k zero_item" "index d2 = (\<lambda>_. None)" "max_items d2 = length xs + k"
      and xs: "set xs \<subseteq> set (ptr d)" "{it \<in> set (ptr d). \<not> item_tsms jobs it < stale} \<subseteq> set xs" for d2 xs k
  proof -
    obtain d' where "datum_stratum_dupes_reorganize d2 = Some d'" "dupes_inv d'"
      and r: "recorded d' = item_key ` set (takeWhile (\<lambda>it. ntime it \<noteq> 0) (ptr d2))"
      using reorganize_inv [of d2] d2 by auto
    moreover have "takeWhile (\<lambda>it. ntime it \<noteq> 0) (ptr d2) = xs"
      unfolding d2 using used xs by (intro takeWhile_append_zero) auto
    ultimately show ?thesis using xs rec by auto
  qed
  have fits: "int_fits (max_items d * 95)" using small by (simp add: int_fits_def)
  show ?thesis
  proof (cases "cleanup_grows (max_items d) ?i")
    case True
    have "\<exists>d'. Option.bind (datum_stratum_dupes_expand (d\<lparr>ptr := ?items, index := (\<lambda>_. None)\<rparr>)) datum_stratum_dupes_reorganize = Some d'
       \<and> dupes_inv d' \<and> item_key ` {it \<in> set (ptr d). \<not> item_tsms jobs it < stale} \<subseteq> recorded d' \<and> recorded d' \<subseteq> recorded d"
      unfolding datum_stratum_dupes_expand_def using small
      by (simp add: Let_def) (rule main [of _ ?items "max_items d * 125 div 100 - max_items d"], auto simp: len set)
    then show ?thesis using True fits by (simp add: cleanup_unfold Let_def)
  next
    case False
    have live: "0 \<le> ?i \<and> ?i < int (length ?items) \<and> (\<forall>it \<in> set ?items. \<not> item_tsms jobs it < stale \<longrightarrow> it \<in> set (take (nat ?i) ?items))"
      by (rule find_first_take [OF mono]) (use False len in \<open>auto simp: first_stale_def cleanup_grows_def\<close>)
    have "\<exists>d'. datum_stratum_dupes_reorganize (d\<lparr>ptr := ?items, index := (\<lambda>_. None)\<rparr>\<lparr>current_items := nat ?i,
                     ptr := take (nat ?i) ?items @ replicate (max_items d - nat ?i) zero_item\<rparr>) = Some d' \<and> dupes_inv d'
     \<and> item_key ` {it \<in> set (ptr d). \<not> item_tsms jobs it < stale} \<subseteq> recorded d' \<and> recorded d' \<subseteq> recorded d"
      by (rule main [of _ "take (nat ?i) ?items" "max_items d - nat ?i"])
         (use live len set in \<open>auto dest: in_set_takeD\<close>)
    then show ?thesis using False fits by (simp add: cleanup_unfold Let_def)
  qed
qed

theorem cleanup_keeps_live_witness:
  "\<exists>d'. datum_stratum_dupes_cleanup insort_cmp (\<lambda>_. Some 5) 3 False
        \<lparr>index = \<lambda>_. None, ptr = [share_item (ex_share 1) None], max_items = 1, current_items = 1\<rparr> = Some d'
     \<and> share_key (ex_share 1) \<in> recorded d'"
proof -
  have a: "\<not> item_tsms (\<lambda>_. Some 5) (share_item (ex_share 1) None) < 3"
    "ntime (share_item (ex_share 1) None) \<noteq> 0" "unat (job_index (share_item (ex_share 1) None)) < MAX_STRATUM_JOBS"
    by (simp_all add: item_tsms_def share_item_def ex_share_def MAX_STRATUM_JOBS_def)
  obtain d' where d': "datum_stratum_dupes_cleanup insort_cmp (\<lambda>_. Some 5) 3 False
        \<lparr>index = \<lambda>_. None, ptr = [share_item (ex_share 1) None], max_items = 1, current_items = 1\<rparr> = Some d'"
    and s: "item_key ` {it \<in> set [share_item (ex_share 1) None]. \<not> item_tsms (\<lambda>_. Some 5) it < 3} \<subseteq> recorded d'"
    using cleanup_keeps_live [OF qsort_spec_insort_cmp, of "\<lparr>index = \<lambda>_. None, ptr = [share_item (ex_share 1) None], max_items = 1, current_items = 1\<rparr>" "\<lambda>_. Some 5" 3] a
    by (auto simp: int_fits_def simp del: not_less)
  from s a(1) have "item_key (share_item (ex_share 1) None) \<in> recorded d'" by auto
  with d' show ?thesis by (metis item_key_share_item)
qed

text \<open>
  The array is read up to the first item of \<^verbatim>\<open>ntime\<close> zero. When the sort brings such an item to the
  front, nothing is recorded after the cleanup, whatever the other items are.
\<close>

lemma zero_ntime_empties:
  assumes "qsort_spec qs" and "length (ptr d) = max_items d" and "0 < max_items d"
    and z: "ntime (sorted_ptr qs jobs d ! 0) = 0" and c: "datum_stratum_dupes_cleanup qs jobs stale False d = Some d'"
  shows "recorded d' = {}"
proof -
  have len: "length (sorted_ptr qs jobs d) = max_items d" using assms by (simp add: qsort_length sorted_ptr_def)
  then obtain it xs where ix: "sorted_ptr qs jobs d = it # xs" "ntime it = 0"
    using z assms(3) by (cases "sorted_ptr qs jobs d") auto
  have main: "recorded d' = {}"
    if r: "datum_stratum_dupes_reorganize d2 = Some d'" "index d2 = (\<lambda>_. None)" "max_items d2 = length (ptr d2)"
      "takeWhile (\<lambda>it. ntime it \<noteq> 0) (ptr d2) = []" for d2
    using reorganize_inv [OF r(2,3)] r(1,4) by auto
  let ?i = "first_stale qs jobs stale d"
  have "Suc (length xs) = max_items d" using len ix by simp
  then have grown: "Suc (length xs + 5 * max_items d div 4 - max_items d) = 5 * max_items d div 4" by linarith
  show ?thesis
  proof (cases "cleanup_grows (max_items d) ?i")
    case True
    then show ?thesis using c unfolding cleanup_unfold Let_def datum_stratum_dupes_expand_def
      by (auto split: if_splits bind_splits dest!: main simp: len ix grown)
  next
    case False
    then have i: "nat ?i \<le> max_items d" unfolding cleanup_grows_def by linarith
    have "takeWhile (\<lambda>it. ntime it \<noteq> 0) (take (nat ?i) (it # xs) @ replicate (max_items d - nat ?i) zero_item) = []"
      using ix(2) assms(3) by (cases "nat ?i"; cases "max_items d") (auto simp: zero_item_def)
    then show ?thesis using c False i len unfolding cleanup_unfold Let_def
      by (auto split: if_splits dest!: main simp: ix)
  qed
qed

section \<open>The pointer after a pruning cleanup\<close>

text \<open>A walk that stays among positions whose items are all passed by never returns.\<close>

lemma check_walk_cycle:
  assumes "\<And>i. i \<in> S \<Longrightarrow> nonce (items ! i) \<le> s_nonce s \<and> \<not> item_matches s (items ! i) \<and> (\<exists>j \<in> S. nxt (items ! i) = Some j)"
    and "i \<in> S"
  shows "check_walk items s p i = None"
proof (rule ccontr)
  assume "check_walk items s p i \<noteq> None"
  then obtain y where y: "check_walk items s p i = Some y" by blast
  have "items = items \<longrightarrow> s = s \<longrightarrow> i \<notin> S"
  proof (rule check_walk.raw_induct [where P = "\<lambda>items' s' p i y. items' = items \<longrightarrow> s' = s \<longrightarrow> i \<notin> S", OF _ y], intro impI notI)
    fix f items' s' p i y
    assume ih: "\<And>items' s' p i y. f items' s' p i = Some y \<Longrightarrow> items' = items \<longrightarrow> s' = s \<longrightarrow> i \<notin> S"
      and step: "(if s_nonce s' < nonce (items' ! i) then Some (InsertBefore p i) else if item_matches s' (items' ! i) then Some IsDupe
        else case nxt (items' ! i) of None \<Rightarrow> Some (AtEnd i) | Some x \<Rightarrow> f items' s' (Some i) x) = Some y"
      and eq: "items' = items" "s' = s" and i: "i \<in> S"
    from assms(1) [OF i] obtain j where j: "j \<in> S" "nonce (items ! i) \<le> s_nonce s" "\<not> item_matches s (items ! i)" "nxt (items ! i) = Some j" by blast
    with step have "f items s (Some i) j = Some y" by (simp add: eq not_less [symmetric])
    from ih [OF this] j(1) show False by simp
  qed
  with assms(2) show False by simp
qed

definition hang_share :: "nat \<Rightarrow> nat \<Rightarrow> share" where
  "hang_share n j = \<lparr>s_nonce = push_bit 16 (word_of_nat n), s_job_index = word_of_nat j, s_ntime = 1, s_version_bits = 0, s_extranonce = replicate 12 0\<rparr>"

text \<open>
  Fifteen shares on the smallest table: seven on a job that is stale by now (index 0), eight on the
  current one (index 1), two of all in the bucket of nonces with low half zero. The share \<open>hang_share 8 1\<close>
  then becomes the head of that bucket and fills the table; the cleanup prunes the seven stale items and
  moves the others to the front, and the insertion goes on with the position it had before. The same
  share sent again is accepted, and its insertion links a slot to itself: the walk for a later share of
  the bucket never ends.
\<close>

definition ring_shares :: "share list" where
  "ring_shares =
     map (\<lambda>k. (ex_share (Suc k))\<lparr>s_job_index := 0\<rparr>) [0..<7] @
     map (\<lambda>k. (ex_share (k + 8))\<lparr>s_job_index := 1\<rparr>) [0..<2] @ [hang_share 9 1] @
     map (\<lambda>k. (ex_share (k + 10))\<lparr>s_job_index := 1\<rparr>) [0..<5]"

definition ring_jobs :: jobs where
  "ring_jobs j = (if j = 0 then Some 1000 else Some 2000)"

lemma ring_run:
  "map_option (\<lambda>(rs, d). (rs, index d 0, map nonce (ptr d), map nxt (ptr d)))
    (run_checks (datum_stratum_check_for_dupe insort_cmp ring_jobs 1500) ex_dupes (ring_shares @ [hang_share 8 1, hang_share 8 1]))
  = Some (replicate 17 False, Some 15,
     [8, 9, 589824, 10, 11, 12, 13, 14, 524288, 524288, 0, 0, 0, 0, 0, 0],
     [None, None, None, None, None, None, None, None, Some 2, Some 9, None, None, None, None, None, Some 9])"
  by code_simp

theorem dupes_ring_after_cleanup:
  "\<exists>d. run_checks (datum_stratum_check_for_dupe insort_cmp ring_jobs 1500) ex_dupes
       (ring_shares @ [hang_share 8 1, hang_share 8 1]) = Some (replicate 17 False, d)
     \<and> datum_stratum_check_for_dupe insort_cmp ring_jobs 1500 d (hang_share 10 1) = None"
proof -
  define nonces :: "u64 list" where "nonces = [8, 9, 589824, 10, 11, 12, 13, 14, 524288, 524288, 0, 0, 0, 0, 0, 0]"
  define nexts :: "nat option list" where "nexts = [None, None, None, None, None, None, None, None, Some 2, Some 9, None, None, None, None, None, Some 9]"
  from ring_run obtain d where d: "run_checks (datum_stratum_check_for_dupe insort_cmp ring_jobs 1500) ex_dupes
       (ring_shares @ [hang_share 8 1, hang_share 8 1]) = Some (replicate 17 False, d)" "index d 0 = Some 15"
    and m: "map nonce (ptr d) = nonces" "map nxt (ptr d) = nexts" unfolding nonces_def nexts_def by auto
  have l: "length (ptr d) = 16" using arg_cong [OF m(1), of length] by (simp add: nonces_def)
  have at: "nonce (ptr d ! i) = nonces ! i \<and> nxt (ptr d ! i) = nexts ! i" if "i < 16" for i
    using that by (simp only: l nth_map flip: m)
  have n: "s_nonce (hang_share 10 (Suc 0)) = 655360" by (simp add: hang_share_def)
  have "check_walk (ptr d) (hang_share 10 1) None 15 = None"
    by (rule check_walk_cycle [of "{9, 15}"]) (auto simp: at n item_matches_def nonces_def nexts_def)
  then have "datum_stratum_check_for_dupe insort_cmp ring_jobs 1500 d (hang_share 10 1) = None"
    using d(2) by (simp add: datum_stratum_check_for_dupe_def Let_def n)
  with d(1) show ?thesis by blast
qed

end
