(* ===== verification/Queue.thy ===== *)
theory Queue
  imports Prelude
begin

text \<open>
  The double-buffered queue of \<^verbatim>\<open>src/src/datum_queue.c\<close>, which carries shares from the stratum
  threads to the protocol thread. Producers write into the active buffer; the one consumer swaps the
  buffers and then handles the items of the buffer it took off line. A producer reads the active
  buffer number and its version under one lock and then takes the lock of that buffer, so that it may
  find the buffer swapped; the versions detect this. The theory models the operations as functions on
  the queue record, and the locked sections of the threads as a step relation in which any number of
  producers and the consumer interleave. A lock is its holder, if any; a section that only reads under
  a read lock is one step that requires that no writer holds the lock.
\<close>

section \<open>The queue and its operations\<close>

record 'a dqueue =
  initialized :: bool
  max_entries :: nat
  active_buffer :: nat
  active_buffer_version :: u64
  queue_next :: "nat \<Rightarrow> nat"
  queue_version :: "nat \<Rightarrow> u64"
  buffer :: "nat \<Rightarrow> 'a list"

text \<open>
  Preparing fails when a lock or the buffers cannot be had. Both buffers have room for 16 items more than
  the limit; \<open>z\<close> is the all-zero item of calloc. The number of items of both buffers and the offset of the second one
  are products of type \<^verbatim>\<open>int\<close>; when one of them overflows, which is undefined, the result is \<open>None\<close> as well.
\<close>

definition datum_queue_prep :: "bool \<Rightarrow> bool \<Rightarrow> 'a \<Rightarrow> nat \<Rightarrow> nat \<Rightarrow> 'a dqueue option" where
  "datum_queue_prep locks_ok alloc_ok z max_items item_size =
     (if \<not> locks_ok then None
      else if \<not> int_fits ((max_items + 16) * 2) then None
      else if \<not> alloc_ok then None
      else if \<not> int_fits ((max_items + 16) * item_size) then None
      else Some \<lparr>initialized = True, max_entries = max_items, active_buffer = 0, active_buffer_version = 0,
                 queue_next = (\<lambda>_. 0), queue_version = (\<lambda>_. 0)(1 := 10),
                 buffer = (\<lambda>_. replicate (max_items + 16) z)\<rparr>)"

definition datum_queue_free :: "'a dqueue \<Rightarrow> 'a dqueue option" where
  "datum_queue_free q =
     (if \<not> initialized q then None
      else Some \<lparr>initialized = False, max_entries = 0, active_buffer = 0, active_buffer_version = 0,
                 queue_next = (\<lambda>_. 0), queue_version = (\<lambda>_. 0), buffer = (\<lambda>_. [])\<rparr>)"

definition add_attempts :: nat where
  "add_attempts = 10000000"

definition add_snapshot :: "'a dqueue \<Rightarrow> nat \<times> u64" where
  "add_snapshot q = (active_buffer q, active_buffer_version q)"

text \<open>Storing into a buffer that is held and current; \<open>None\<close> is the overflow error.\<close>

definition add_store :: "'a dqueue \<Rightarrow> nat \<Rightarrow> 'a \<Rightarrow> 'a dqueue option" where
  "add_store q b item =
     (if queue_next q b \<ge> max_entries q then None
      else Some (q\<lparr>buffer := (buffer q)(b := (buffer q b)[queue_next q b := item]),
                   queue_next := (queue_next q)(b := Suc (queue_next q b))\<rparr>))"

text \<open>
  The retry loop as a thread that runs alone sees it: the queue does not change between the attempts.
  The last attempt takes no lock.
\<close>

function add_loop :: "'a dqueue \<Rightarrow> nat \<Rightarrow> nat option" where
  "add_loop q i =
     (if i \<ge> add_attempts then None
      else if i < add_attempts - 1
      then (let (buffer_id, buffer_version) = add_snapshot q
            in if buffer_version \<noteq> queue_version q buffer_id then add_loop q (Suc i) else Some buffer_id)
      else add_loop q (Suc i))"
  by pat_completeness auto
termination by (relation "measure (\<lambda>(_, i). add_attempts - i)") auto

declare add_loop.simps [simp del]

definition datum_queue_add_item :: "'a dqueue \<Rightarrow> 'a \<Rightarrow> 'a dqueue option" where
  "datum_queue_add_item q item =
     (if \<not> initialized q then None
      else case add_loop q 0 of None \<Rightarrow> None | Some b \<Rightarrow> add_store q b item)"

definition offline_of :: "nat \<Rightarrow> nat" where
  "offline_of b = (if b \<noteq> 0 then 0 else 1)"

definition process_retire :: "nat \<Rightarrow> 'a dqueue \<Rightarrow> 'a dqueue" where
  "process_retire b q = q\<lparr>queue_version := (queue_version q)(b := queue_version q b + 1)\<rparr>"

definition process_swap :: "nat \<Rightarrow> 'a dqueue \<Rightarrow> 'a dqueue" where
  "process_swap b q =
     (let off = offline_of b;
          q = q\<lparr>queue_version := (queue_version q)(off := queue_version q off + 1)\<rparr>
      in q\<lparr>active_buffer_version := queue_version q off, active_buffer := off,
           queue_next := (queue_next q)(off := 0)\<rparr>)"

definition process_finish :: "nat \<Rightarrow> 'a dqueue \<Rightarrow> 'a dqueue" where
  "process_finish b q = q\<lparr>queue_next := (queue_next q)(b := 0)\<rparr>"

function handle_loop :: "('a \<Rightarrow> 's \<Rightarrow> 's) \<Rightarrow> 'a dqueue \<Rightarrow> nat \<Rightarrow> nat \<Rightarrow> 's \<Rightarrow> nat \<times> 's" where
  "handle_loop item_handler q b i s =
     (if i < queue_next q b then handle_loop item_handler q b (Suc i) (item_handler (buffer q b ! i) s)
      else (i, s))"
  by pat_completeness auto
termination by (relation "measure (\<lambda>(_, q, b, i, _). queue_next q b - i)") auto

declare handle_loop.simps [simp del]

text \<open>The handler acts on a state of its own; its return value is ignored.\<close>

definition datum_queue_process :: "('a \<Rightarrow> 's \<Rightarrow> 's) \<Rightarrow> 'a dqueue \<Rightarrow> 's \<Rightarrow> (nat \<times> 'a dqueue \<times> 's) option" where
  "datum_queue_process item_handler q s =
     (if \<not> initialized q then None
      else let buffer_id = active_buffer q
           in if queue_next q buffer_id = 0 then Some (0, q, s)
              else let q = process_swap buffer_id (process_retire buffer_id q);
                       (i, s) = handle_loop item_handler q buffer_id 0 s
                   in Some (i, process_finish buffer_id q, s))"

section \<open>The queue as a list\<close>

definition queued :: "'a dqueue \<Rightarrow> nat \<Rightarrow> 'a list" where
  "queued q b = take (queue_next q b) (buffer q b)"

definition pending :: "'a dqueue \<Rightarrow> 'a list" where
  "pending q = queued q (active_buffer q)"

text \<open>
  Well-formed while no thread is inside an operation, after \<open>k\<close> swaps: both versions count the swaps,
  the second one from 10, and the off-line buffer is empty.
\<close>

definition versions_at :: "nat \<Rightarrow> nat \<Rightarrow> u64" where
  "versions_at k b = word_of_nat (k + 10 * b)"

definition bufs_ok :: "'a dqueue \<Rightarrow> bool" where
  "bufs_ok q \<longleftrightarrow> initialized q \<and>
     list_all (\<lambda>b. queue_next q b \<le> max_entries q \<and> max_entries q + 16 = length (buffer q b)) [0, 1]"

definition queue_at :: "nat \<Rightarrow> 'a dqueue \<Rightarrow> bool" where
  "queue_at k q \<longleftrightarrow> bufs_ok q \<and> active_buffer q = k mod 2
     \<and> active_buffer_version q = versions_at k (active_buffer q)
     \<and> list_all (\<lambda>b. queue_version q b = versions_at k b) [0, 1]"

definition queue_ok :: "'a dqueue \<Rightarrow> bool" where
  "queue_ok q \<longleftrightarrow> (\<exists>k. queue_at k q) \<and> queue_next q (offline_of (active_buffer q)) = 0"

lemma versions_at_Suc: "versions_at (Suc k) b = versions_at k b + 1"
  by (simp add: versions_at_def)

lemma offline_mod2: "offline_of (k mod 2) = Suc k mod 2"
  by (simp add: offline_of_def mod_Suc)

lemma offline_neq [simp]: "offline_of b \<noteq> b" "b \<noteq> offline_of b"
  by (auto simp: offline_of_def)

lemma mod2_cases: "k mod 2 = 0 \<or> k mod 2 = (1::nat)" by auto

lemma queue_at_cases:
  "queue_at k q \<Longrightarrow> active_buffer q = 0 \<or> active_buffer q = Suc 0"
  by (auto simp: queue_at_def)

lemma add_loop_current: "queue_at k q \<Longrightarrow> add_loop q i = (if i < add_attempts - 1 then Some (active_buffer q) else None)"
proof -
  assume q: "queue_at k q"
  have "queue_version q (active_buffer q) = active_buffer_version q"
    using q mod2_cases [of k] by (auto simp: queue_at_def)
  then show ?thesis
    by (subst add_loop.simps) (auto simp: add_snapshot_def add_attempts_def add_loop.simps [of _ "Suc i"])
qed

lemma add_store_queued:
  assumes "bufs_ok q" "b = 0 \<or> b = Suc 0" "queue_next q b < max_entries q"
  shows "\<exists>q'. add_store q b x = Some q' \<and> queued q' b = queued q b @ [x]
    \<and> (\<forall>c. c \<noteq> b \<longrightarrow> queued q' c = queued q c \<and> queue_next q' c = queue_next q c) \<and> bufs_ok q'
    \<and> active_buffer q' = active_buffer q \<and> active_buffer_version q' = active_buffer_version q
    \<and> queue_version q' = queue_version q \<and> max_entries q' = max_entries q \<and> initialized q' = initialized q"
proof -
  have l: "queue_next q b < length (buffer q b)" using assms by (auto simp: bufs_ok_def)
  then have "take (Suc (queue_next q b)) ((buffer q b)[queue_next q b := x]) = take (queue_next q b) (buffer q b) @ [x]"
    by (simp add: take_Suc_conv_app_nth)
  with assms show ?thesis by (auto simp: add_store_def queued_def bufs_ok_def)
qed

lemma handle_loop_fold:
  assumes "i \<le> queue_next q b" "queue_next q b \<le> length (buffer q b)"
  shows "handle_loop h q b i s = (queue_next q b, fold h (drop i (queued q b)) s)"
  using assms
proof (induction h q b i s rule: handle_loop.induct)
  case (1 h q b i s)
  show ?case
  proof (cases "i < queue_next q b")
    case True
    then have "drop i (queued q b) = buffer q b ! i # drop (Suc i) (queued q b)"
      using 1 by (subst Cons_nth_drop_Suc [symmetric]) (auto simp: queued_def)
    with True 1 show ?thesis by (subst handle_loop.simps) simp
  qed (use 1 in \<open>subst handle_loop.simps, simp add: queued_def\<close>)
qed

lemma process_swap_at:
  assumes "queue_at k q" "b = active_buffer q"
  shows "queue_at (Suc k) (process_swap b (process_retire b q))"
  using assms mod2_cases [of k]
  by (auto simp: queue_at_def bufs_ok_def process_swap_def process_retire_def Let_def offline_of_def
        versions_at_Suc mod_Suc)

section \<open>The interface of the queue\<close>

primrec add_all :: "('q \<Rightarrow> 'a \<Rightarrow> 'q option) \<Rightarrow> 'q \<Rightarrow> 'a list \<Rightarrow> 'q option" where
  "add_all add q [] = Some q"
| "add_all add q (x # xs) = (case add q x of None \<Rightarrow> None | Some q' \<Rightarrow> add_all add q' xs)"

primrec run_batches :: "('q \<Rightarrow> 'a \<Rightarrow> 'q option) \<Rightarrow> ('q \<Rightarrow> 's \<Rightarrow> (nat \<times> 'q \<times> 's) option) \<Rightarrow>
    'a list list \<Rightarrow> 'q \<Rightarrow> 's \<Rightarrow> ('q \<times> 's) option" where
  "run_batches add process [] q s = Some (q, s)"
| "run_batches add process (xs # xss) q s =
     (case add_all add q xs of
        None \<Rightarrow> None
      | Some q \<Rightarrow> (case process q s of None \<Rightarrow> None | Some (_, q, s) \<Rightarrow> run_batches add process xss q s))"

locale item_queue =
  fixes inv :: "'q \<Rightarrow> bool" and contents :: "'q \<Rightarrow> 'a list" and capacity :: "'q \<Rightarrow> nat"
    and add :: "'q \<Rightarrow> 'a \<Rightarrow> 'q option"
    and process :: "('a \<Rightarrow> 's \<Rightarrow> 's) \<Rightarrow> 'q \<Rightarrow> 's \<Rightarrow> (nat \<times> 'q \<times> 's) option"
  assumes contents_le: "inv q \<Longrightarrow> length (contents q) \<le> capacity q"
    and add_room: "inv q \<Longrightarrow> length (contents q) < capacity q \<Longrightarrow>
      \<exists>q'. add q x = Some q' \<and> inv q' \<and> contents q' = contents q @ [x] \<and> capacity q' = capacity q"
    and add_full: "inv q \<Longrightarrow> capacity q \<le> length (contents q) \<Longrightarrow> add q x = None"
    and process_all: "inv q \<Longrightarrow>
      \<exists>q'. process h q s = Some (length (contents q), q', fold h (contents q) s)
         \<and> inv q' \<and> contents q' = [] \<and> capacity q' = capacity q"
begin

lemma add_all_room:
  "inv q \<Longrightarrow> length (contents q) + length xs \<le> capacity q \<Longrightarrow>
    \<exists>q'. add_all add q xs = Some q' \<and> inv q' \<and> contents q' = contents q @ xs \<and> capacity q' = capacity q"
proof (induction xs arbitrary: q)
  case (Cons x xs)
  then obtain q' where "add q x = Some q'" "inv q'" "contents q' = contents q @ [x]" "capacity q' = capacity q"
    using add_room [of q x] by auto
  with Cons.IH [of q'] Cons.prems show ?case by simp
qed simp

lemma add_all_full:
  "inv q \<Longrightarrow> capacity q < length (contents q) + length xs \<Longrightarrow> add_all add q xs = None"
proof (induction xs arbitrary: q)
  case Nil
  then show ?case using contents_le [of q] by simp
next
  case (Cons x xs)
  show ?case
  proof (cases "length (contents q) < capacity q")
    case True
    then obtain q' where "add q x = Some q'" "inv q'" "contents q' = contents q @ [x]" "capacity q' = capacity q"
      using add_room [of q x] Cons.prems by auto
    with Cons.IH [of q'] Cons.prems show ?thesis by simp
  qed (use Cons.prems add_full in auto)
qed

lemma run_batches_fold:
  "inv q \<Longrightarrow> contents q = [] \<Longrightarrow> \<forall>xs \<in> set xss. length xs \<le> capacity q \<Longrightarrow>
    \<exists>q'. run_batches add (process h) xss q s = Some (q', fold h (concat xss) s) \<and> inv q' \<and> contents q' = []"
proof (induction xss arbitrary: q s)
  case (Cons xs xss)
  then obtain q1 where q1: "add_all add q xs = Some q1" "inv q1" "contents q1 = xs" "capacity q1 = capacity q"
    using add_all_room [of q xs] by auto
  then obtain q2 where "process h q1 s = Some (length xs, q2, fold h xs s)" "inv q2" "contents q2 = []" "capacity q2 = capacity q"
    using process_all [of q1 h s] by auto
  with q1 Cons.IH [of q2 "fold h xs s"] Cons.prems show ?case by simp
qed simp

end

lemma add_item_room:
  assumes "queue_ok q" "length (pending q) < max_entries q"
  shows "\<exists>q'. datum_queue_add_item q x = Some q' \<and> queue_ok q' \<and> pending q' = pending q @ [x] \<and> max_entries q' = max_entries q"
proof -
  obtain k where k: "queue_at k q" and off: "queue_next q (offline_of (active_buffer q)) = 0"
    using assms(1) by (auto simp: queue_ok_def)
  have b: "active_buffer q = 0 \<or> active_buffer q = Suc 0" and ok: "bufs_ok q"
    using k by (auto simp: queue_at_def)
  have n: "queue_next q (active_buffer q) < max_entries q"
    using assms(2) ok b by (auto simp: pending_def queued_def bufs_ok_def)
  obtain q' where q': "add_store q (active_buffer q) x = Some q'"
    "queued q' (active_buffer q) = queued q (active_buffer q) @ [x]"
    "\<forall>c. c \<noteq> active_buffer q \<longrightarrow> queued q' c = queued q c \<and> queue_next q' c = queue_next q c" "bufs_ok q'"
    "active_buffer q' = active_buffer q" "active_buffer_version q' = active_buffer_version q"
    "queue_version q' = queue_version q" "max_entries q' = max_entries q" "initialized q' = initialized q"
    using add_store_queued [OF ok b n, of x] by blast
  have "queue_at k q'" using k q' by (simp add: queue_at_def)
  then have "queue_ok q'" unfolding queue_ok_def using off q'(3,5) by auto
  moreover have "datum_queue_add_item q x = Some q'"
    using k ok q'(1) by (simp add: datum_queue_add_item_def add_loop_current add_attempts_def bufs_ok_def)
  ultimately show ?thesis using q' by (simp add: pending_def)
qed

lemma add_item_full:
  assumes "queue_ok q" "max_entries q \<le> length (pending q)"
  shows "datum_queue_add_item q x = None"
proof -
  obtain k where k: "queue_at k q" using assms(1) by (auto simp: queue_ok_def)
  then have "max_entries q \<le> queue_next q (active_buffer q)" using assms(2) by (simp add: pending_def queued_def)
  with k show ?thesis by (simp add: datum_queue_add_item_def add_loop_current add_attempts_def add_store_def)
qed

lemma process_all_items:
  assumes "queue_ok q"
  shows "\<exists>q'. datum_queue_process h q s = Some (length (pending q), q', fold h (pending q) s)
     \<and> queue_ok q' \<and> pending q' = [] \<and> max_entries q' = max_entries q"
proof -
  obtain k where k: "queue_at k q" and off: "queue_next q (offline_of (active_buffer q)) = 0"
    using assms(1) by (auto simp: queue_ok_def)
  let ?b = "active_buffer q"
  let ?q = "process_swap ?b (process_retire ?b q)"
  have ok: "bufs_ok q" and b: "?b = 0 \<or> ?b = Suc 0" using k by (auto simp: queue_at_def)
  then have le: "queue_next q ?b \<le> length (buffer q ?b)" by (auto simp: bufs_ok_def)
  then have len: "length (pending q) = queue_next q ?b" by (simp add: pending_def queued_def)
  have at: "queue_at (Suc k) ?q" using k by (rule process_swap_at) simp
  have same: "queue_next ?q ?b = queue_next q ?b" "queued ?q ?b = queued q ?b" "buffer ?q = buffer q"
    "active_buffer ?q = offline_of ?b" "max_entries ?q = max_entries q" "queue_next ?q (offline_of ?b) = 0"
    by (simp_all add: process_swap_def process_retire_def queued_def Let_def)
  have h: "handle_loop h ?q ?b 0 s = (queue_next q ?b, fold h (queued q ?b) s)"
    using handle_loop_fold [of 0 ?q ?b h s] same le by simp
  have "queue_at (Suc k) (process_finish ?b ?q)"
    using at by (simp add: queue_at_def bufs_ok_def process_finish_def)
  then have "queue_ok (process_finish ?b ?q)"
    unfolding queue_ok_def using same(4) b by (auto simp: process_finish_def offline_of_def)
  moreover have "pending (process_finish ?b ?q) = []" using same by (simp add: pending_def queued_def process_finish_def)
  moreover have "max_entries (process_finish ?b ?q) = max_entries q" using same by (simp add: process_finish_def)
  moreover have "datum_queue_process h q s = (if queue_next q ?b = 0 then Some (0, q, s)
       else Some (queue_next q ?b, process_finish ?b ?q, fold h (queued q ?b) s))"
    using ok h by (simp add: datum_queue_process_def bufs_ok_def Let_def)
  ultimately show ?thesis using len assms by (cases "queue_next q ?b = 0") (auto simp: pending_def)
qed

interpretation dq: item_queue queue_ok pending max_entries datum_queue_add_item datum_queue_process
proof
  show "length (pending q) \<le> max_entries q" if "queue_ok q" for q :: "'a dqueue"
    using that queue_at_cases [of _ q] by (fastforce simp: queue_ok_def queue_at_def bufs_ok_def pending_def queued_def)
qed (simp_all add: add_item_room add_item_full process_all_items)

lemma prep_ok: "datum_queue_prep True True z n sz = Some q \<Longrightarrow> queue_ok q \<and> pending q = [] \<and> max_entries q = n"
  by (auto split: if_splits simp: datum_queue_prep_def queue_ok_def queue_at_def bufs_ok_def pending_def queued_def versions_at_def
      offline_of_def intro!: exI [of _ 0])

text \<open>A freshly prepared queue hands every batch of items that fits its limit to the handler, all of
  them, once and in the order they were added, however many batches follow one another.\<close>

theorem queue_batches:
  assumes "datum_queue_prep True True z n sz = Some q" and "\<forall>xs \<in> set xss. length xs \<le> n"
  shows "\<exists>q'. run_batches datum_queue_add_item (datum_queue_process h) xss q s = Some (q', fold h (concat xss) s)
     \<and> queue_ok q' \<and> pending q' = []"
  using dq.run_batches_fold [of q xss h s] prep_ok [OF assms(1)] assms(2) by simp

theorem queue_batches_witness:
  "\<exists>q q'. datum_queue_prep True True 0 2 8 = Some q
     \<and> run_batches datum_queue_add_item (datum_queue_process (\<lambda>x s. s @ [x])) [[1, 2], [], [3 :: nat]] q [] = Some (q', [1, 2, 3])"
proof -
  obtain q :: "nat dqueue" where q: "datum_queue_prep True True 0 2 8 = Some q" by (simp add: datum_queue_prep_def int_fits_def)
  then show ?thesis using queue_batches [OF q, of "[[1, 2], [], [3]]" "\<lambda>x s. s @ [x]" "[]"] by auto
qed

text \<open>An add to a full queue fails and never touches memory behind the limit, so a burst of more items
  than the queue has room for ends with an error.\<close>

theorem queue_overflow:
  assumes "queue_ok q" "max_entries q < length (pending q) + length xs"
  shows "add_all datum_queue_add_item q xs = None"
  using assms by (rule dq.add_all_full)

theorem queue_overflow_witness:
  "\<exists>q. datum_queue_prep True True 0 1 8 = Some q \<and> add_all datum_queue_add_item q [1, 2 :: nat] = None"
proof -
  obtain q :: "nat dqueue" where q: "datum_queue_prep True True 0 1 8 = Some q" by (simp add: datum_queue_prep_def int_fits_def)
  then show ?thesis using queue_overflow [of q "[1, 2]"] prep_ok [OF q] by auto
qed

section \<open>Interleaved threads\<close>

text \<open>
  A producer inside \<^verbatim>\<open>datum_queue_add_item\<close>: about to make an attempt, waiting for the lock of
  the buffer it read, or holding it. The consumer inside \<^verbatim>\<open>datum_queue_process\<close>: waiting for
  the lock of the active buffer number, for the buffer it retires, for the other buffer, or handling
  items. The lists \<open>accepted\<close> and \<open>handled\<close> record the items for which an add returned 0 and the items
  passed to the handler; \<open>swaps\<close> counts the swaps.
\<close>

datatype 'a producer = PIdle | PTry 'a nat | PWait 'a nat nat u64 | PHold 'a nat nat u64

datatype consumer = CIdle | CWantActive nat | CWantBuf nat | CWantOff nat | CHandle nat nat

datatype thread = Consumer | Producer nat

record 'a sys =
  que :: "'a dqueue"
  active_lock :: bool
  buf_lock :: "nat \<Rightarrow> thread option"
  prod :: "nat \<Rightarrow> 'a producer"
  cons :: consumer
  accepted :: "'a list"
  handled :: "'a list"
  swaps :: nat

datatype label = Begin | Work

inductive qstep :: "'a sys \<Rightarrow> label \<Rightarrow> 'a sys \<Rightarrow> bool" where
  add_begin: "prod s p = PIdle \<Longrightarrow> initialized (que s) \<Longrightarrow>
    qstep s Begin (s\<lparr>prod := (prod s)(p := PTry x 0)\<rparr>)"
| add_give_up: "prod s p = PTry x i \<Longrightarrow> i \<ge> add_attempts \<Longrightarrow>
    qstep s Work (s\<lparr>prod := (prod s)(p := PIdle)\<rparr>)"
| add_last: "prod s p = PTry x i \<Longrightarrow> i < add_attempts \<Longrightarrow> \<not> i < add_attempts - 1 \<Longrightarrow>
    qstep s Work (s\<lparr>prod := (prod s)(p := PTry x (Suc i))\<rparr>)"
| add_read: "prod s p = PTry x i \<Longrightarrow> i < add_attempts - 1 \<Longrightarrow> \<not> active_lock s \<Longrightarrow>
    add_snapshot (que s) = (b, v) \<Longrightarrow>
    qstep s Work (s\<lparr>prod := (prod s)(p := PWait x i b v)\<rparr>)"
| add_lock: "prod s p = PWait x i b v \<Longrightarrow> buf_lock s b = None \<Longrightarrow>
    qstep s Work (s\<lparr>prod := (prod s)(p := PHold x i b v), buf_lock := (buf_lock s)(b := Some (Producer p))\<rparr>)"
| add_race: "prod s p = PHold x i b v \<Longrightarrow> v \<noteq> queue_version (que s) b \<Longrightarrow>
    qstep s Work (s\<lparr>prod := (prod s)(p := PTry x (Suc i)), buf_lock := (buf_lock s)(b := None)\<rparr>)"
| add_overflow: "prod s p = PHold x i b v \<Longrightarrow> v = queue_version (que s) b \<Longrightarrow> add_store (que s) b x = None \<Longrightarrow>
    qstep s Work (s\<lparr>prod := (prod s)(p := PIdle), buf_lock := (buf_lock s)(b := None)\<rparr>)"
| add_done: "prod s p = PHold x i b v \<Longrightarrow> v = queue_version (que s) b \<Longrightarrow> add_store (que s) b x = Some q \<Longrightarrow>
    qstep s Work (s\<lparr>que := q, prod := (prod s)(p := PIdle), buf_lock := (buf_lock s)(b := None),
                    accepted := accepted s @ [x]\<rparr>)"
| process_begin: "cons s = CIdle \<Longrightarrow> initialized (que s) \<Longrightarrow> b = active_buffer (que s) \<Longrightarrow> buf_lock s b = None \<Longrightarrow>
    queue_next (que s) b \<noteq> 0 \<Longrightarrow> qstep s Begin (s\<lparr>cons := CWantActive b\<rparr>)"
| lock_active: "cons s = CWantActive b \<Longrightarrow> \<not> active_lock s \<Longrightarrow>
    qstep s Work (s\<lparr>cons := CWantBuf b, active_lock := True\<rparr>)"
| retire: "cons s = CWantBuf b \<Longrightarrow> buf_lock s b = None \<Longrightarrow>
    qstep s Work (s\<lparr>cons := CWantOff b, buf_lock := (buf_lock s)(b := Some Consumer), que := process_retire b (que s)\<rparr>)"
| swap: "cons s = CWantOff b \<Longrightarrow> buf_lock s (offline_of b) = None \<Longrightarrow>
    qstep s Work (s\<lparr>cons := CHandle b 0, active_lock := False, que := process_swap b (que s), swaps := Suc (swaps s)\<rparr>)"
| handle: "cons s = CHandle b i \<Longrightarrow> i < queue_next (que s) b \<Longrightarrow>
    qstep s Work (s\<lparr>cons := CHandle b (Suc i), handled := handled s @ [buffer (que s) b ! i]\<rparr>)"
| finish: "cons s = CHandle b i \<Longrightarrow> \<not> i < queue_next (que s) b \<Longrightarrow>
    qstep s Work (s\<lparr>cons := CIdle, buf_lock := (buf_lock s)(b := None), que := process_finish b (que s)\<rparr>)"

definition sys_init :: "'a dqueue \<Rightarrow> 'a sys" where
  "sys_init q = \<lparr>que = q, active_lock = False, buf_lock = (\<lambda>_. None), prod = (\<lambda>_. PIdle), cons = CIdle,
     accepted = [], handled = [], swaps = 0\<rparr>"

inductive reachable :: "'a dqueue \<Rightarrow> 'a sys \<Rightarrow> bool" for q0 where
  reachable_init: "reachable q0 (sys_init q0)"
| reachable_step: "reachable q0 s \<Longrightarrow> qstep s l s' \<Longrightarrow> reachable q0 s'"

section \<open>The invariant of the threads\<close>

definition in_hand :: "'a sys \<Rightarrow> 'a list" where
  "in_hand s = (case cons s of CHandle b i \<Rightarrow> drop i (queued (que s) b) | _ \<Rightarrow> [])"

definition snapshot_ok :: "nat \<Rightarrow> 'a producer \<Rightarrow> bool" where
  "snapshot_ok k p = (case p of
      PWait _ _ b v \<Rightarrow> \<exists>k' \<le> k. b = k' mod 2 \<and> v = versions_at k' b
    | PHold _ _ b v \<Rightarrow> \<exists>k' \<le> k. b = k' mod 2 \<and> v = versions_at k' b
    | _ \<Rightarrow> True)"

definition locks_ok :: "'a sys \<Rightarrow> bool" where
  "locks_ok s \<longleftrightarrow>
     active_lock s = (case cons s of CWantBuf _ \<Rightarrow> True | CWantOff _ \<Rightarrow> True | _ \<Rightarrow> False)
     \<and> (\<forall>b. buf_lock s b = Some Consumer \<longleftrightarrow> (case cons s of CWantOff c \<Rightarrow> b = c | CHandle c _ \<Rightarrow> b = c | _ \<Rightarrow> False))
     \<and> (\<forall>b p. buf_lock s b = Some (Producer p) \<longleftrightarrow> (\<exists>x i v. prod s p = PHold x i b v))"

definition versions_ok :: "'a sys \<Rightarrow> bool" where
  "versions_ok s \<longleftrightarrow>
     (let k = swaps s; q = que s
      in active_buffer q = k mod 2 \<and> active_buffer_version q = versions_at k (active_buffer q)
       \<and> (\<forall>b. b < 2 \<longrightarrow> queue_version q b =
             (case cons s of CWantOff c \<Rightarrow> if b = c then versions_at (Suc k) b else versions_at k b | _ \<Rightarrow> versions_at k b)))"

definition consumer_ok :: "'a sys \<Rightarrow> bool" where
  "consumer_ok s = (let q = que s; a = active_buffer q
     in case cons s of
          CIdle \<Rightarrow> queue_next q (offline_of a) = 0
        | CWantActive b \<Rightarrow> b = a \<and> queue_next q (offline_of a) = 0
        | CWantBuf b \<Rightarrow> b = a \<and> queue_next q (offline_of a) = 0
        | CWantOff b \<Rightarrow> b = a \<and> queue_next q (offline_of a) = 0
        | CHandle b i \<Rightarrow> b = offline_of a \<and> i \<le> queue_next q b)"

definition sys_inv :: "'a sys \<Rightarrow> bool" where
  "sys_inv s \<longleftrightarrow> bufs_ok (que s) \<and> locks_ok s \<and> versions_ok s \<and> consumer_ok s
     \<and> (\<forall>p. snapshot_ok (swaps s) (prod s p))
     \<and> accepted s = handled s @ in_hand s @ pending (que s)"

lemma versions_at_inj:
  "k' \<le> k \<Longrightarrow> k < 2 ^ 64 \<Longrightarrow> versions_at k' b = versions_at k b \<Longrightarrow> k' = k"
proof -
  assume "k' \<le> k" "k < 2 ^ 64" "versions_at k' b = versions_at k b"
  then have "(word_of_nat k' :: u64) = word_of_nat k" by (simp add: versions_at_def)
  then have "unat (word_of_nat k' :: u64) = unat (word_of_nat k :: u64)" by simp
  with \<open>k' \<le> k\<close> \<open>k < 2 ^ 64\<close> show ?thesis by (simp only: unat_of_nat take_bit_eq_mod) simp
qed

text \<open>A producer that finds its version current holds the active buffer.\<close>

lemma current_is_active:
  assumes inv: "sys_inv s" and k: "swaps s < 2 ^ 64"
    and p: "prod s p = PHold x i b v" "v = queue_version (que s) b"
  shows "b = active_buffer (que s) \<and> (b = 0 \<or> b = Suc 0) \<and> (\<forall>j. cons s \<noteq> CHandle b j \<and> cons s \<noteq> CWantOff b)"
proof -
  have b1: "snapshot_ok (swaps s) (prod s p)" and lk: "locks_ok s" and vs: "versions_ok s"
    using inv by (simp_all add: sys_inv_def)
  obtain k' where k': "k' \<le> swaps s" "b = k' mod 2" "v = versions_at k' b"
    using b1 p(1) by (auto simp: snapshot_ok_def)
  have "buf_lock s b = Some (Producer p)" using lk p(1) by (auto simp: locks_ok_def)
  then have "buf_lock s b \<noteq> Some Consumer" by simp
  moreover have "buf_lock s b = Some Consumer \<longleftrightarrow> (case cons s of CWantOff c \<Rightarrow> b = c | CHandle c _ \<Rightarrow> b = c | _ \<Rightarrow> False)"
    using lk by (simp add: locks_ok_def)
  ultimately have c: "cons s \<noteq> CHandle b j \<and> cons s \<noteq> CWantOff b" for j
    by (cases "cons s") auto
  have b2: "b < 2" using k'(2) by simp
  then have "queue_version (que s) b =
     (case cons s of CWantOff c \<Rightarrow> if b = c then versions_at (Suc (swaps s)) b else versions_at (swaps s) b | _ \<Rightarrow> versions_at (swaps s) b)"
    using vs by (simp add: versions_ok_def Let_def)
  then have "queue_version (que s) b = versions_at (swaps s) b"
    using c by (cases "cons s") auto
  then have "versions_at k' b = versions_at (swaps s) b" using k'(3) p(2) by simp
  with k'(1) k have "k' = swaps s" by (rule versions_at_inj)
  then have "b = active_buffer (que s)" using vs k'(2) by (simp add: versions_ok_def Let_def)
  moreover have "b = 0 \<or> b = Suc 0" using b2 by auto
  ultimately show ?thesis using c by blast
qed

section \<open>Every step keeps the invariant\<close>

lemma sys_invD:
  assumes "sys_inv s"
  shows "bufs_ok (que s)" "locks_ok s" "versions_ok s" "consumer_ok s" "snapshot_ok (swaps s) (prod s p)"
    "accepted s = handled s @ in_hand s @ pending (que s)"
  using assms by (simp_all add: sys_inv_def)

text \<open>Steps of a producer that leave the queue, the consumer and the item lists alone.\<close>

lemma producer_frame:
  assumes inv: "sys_inv s" and snap: "snapshot_ok (swaps s) np"
    and lk: "locks_ok (s\<lparr>prod := (prod s)(p := np), buf_lock := bl\<rparr>)"
  shows "sys_inv (s\<lparr>prod := (prod s)(p := np), buf_lock := bl\<rparr>)"
proof -
  let ?s = "s\<lparr>prod := (prod s)(p := np), buf_lock := bl\<rparr>"
  have "versions_ok ?s = versions_ok s" "consumer_ok ?s = consumer_ok s" by (simp_all add: versions_ok_def consumer_ok_def)
  moreover have "in_hand ?s = in_hand s" by (cases "cons s") (simp_all add: in_hand_def)
  ultimately show ?thesis using sys_invD [OF inv] snap lk by (simp add: sys_inv_def)
qed

lemma lock_holder: "locks_ok s \<Longrightarrow> prod s p = PHold x i b v \<Longrightarrow> buf_lock s b = Some (Producer p)"
  unfolding locks_ok_def by blast

lemma locks_okI:
  assumes "active_lock s = (case cons s of CWantBuf _ \<Rightarrow> True | CWantOff _ \<Rightarrow> True | _ \<Rightarrow> False)"
    and "\<And>b. buf_lock s b = Some Consumer \<longleftrightarrow> (case cons s of CWantOff c \<Rightarrow> b = c | CHandle c _ \<Rightarrow> b = c | _ \<Rightarrow> False)"
    and "\<And>b p. buf_lock s b = Some (Producer p) \<longleftrightarrow> (\<exists>x i v. prod s p = PHold x i b v)"
  shows "locks_ok s"
  unfolding locks_ok_def using assms by blast

lemma locks_okD:
  assumes "locks_ok s"
  shows "active_lock s = (case cons s of CWantBuf _ \<Rightarrow> True | CWantOff _ \<Rightarrow> True | _ \<Rightarrow> False)"
    "buf_lock s b = Some Consumer \<longleftrightarrow> (case cons s of CWantOff c \<Rightarrow> b = c | CHandle c _ \<Rightarrow> b = c | _ \<Rightarrow> False)"
    "buf_lock s b = Some (Producer p) \<longleftrightarrow> (\<exists>x i v. prod s p = PHold x i b v)"
  using assms unfolding locks_ok_def by blast+

lemma locks_no_hold:
  assumes "locks_ok s" "\<And>x i b v. prod s p \<noteq> PHold x i b v" "\<And>x i b v. np \<noteq> PHold x i b v"
  shows "locks_ok (s\<lparr>prod := (prod s)(p := np), buf_lock := buf_lock s\<rparr>)"
  using assms by (auto simp: locks_ok_def)

lemma locks_release:
  assumes l: "locks_ok s" and h: "prod s p = PHold x i b v" and np: "\<And>x i b v. np \<noteq> PHold x i b v"
  shows "locks_ok (s\<lparr>prod := (prod s)(p := np), buf_lock := (buf_lock s)(b := None)\<rparr>)"
proof (rule locks_okI)
  have hb: "buf_lock s b = Some (Producer p)" using l h by (rule lock_holder)
  have nb: "prod s p' \<noteq> PHold y j b w" if "p' \<noteq> p" for p' y j w
    using lock_holder [OF l, of p' y j b w] hb that by auto
  have pb: "b' = b" if "prod s p = PHold y j b' w" for y j b' w using that h by simp
  fix b' p'
  show "buf_lock (s\<lparr>prod := (prod s)(p := np), buf_lock := (buf_lock s)(b := None)\<rparr>) b' = Some (Producer p')
     \<longleftrightarrow> (\<exists>x i v. prod (s\<lparr>prod := (prod s)(p := np), buf_lock := (buf_lock s)(b := None)\<rparr>) p' = PHold x i b' v)"
    using locks_okD(3) [OF l, of b' p'] nb [of p'] pb np by (cases "p' = p"; cases "b' = b") auto
  show "buf_lock (s\<lparr>prod := (prod s)(p := np), buf_lock := (buf_lock s)(b := None)\<rparr>) b' = Some Consumer
     \<longleftrightarrow> (case cons (s\<lparr>prod := (prod s)(p := np), buf_lock := (buf_lock s)(b := None)\<rparr>) of
           CWantOff c \<Rightarrow> b' = c | CHandle c _ \<Rightarrow> b' = c | _ \<Rightarrow> False)"
    using locks_okD(2) [OF l, of b'] locks_okD(2) [OF l, of b] hb by (cases "b' = b") simp_all
qed (use locks_okD(1) [OF l] in simp)

lemma locks_acquire:
  assumes l: "locks_ok s" and w: "prod s p = PWait x i b v" and n: "buf_lock s b = None"
  shows "locks_ok (s\<lparr>prod := (prod s)(p := PHold x i b v), buf_lock := (buf_lock s)(b := Some (Producer p))\<rparr>)"
proof (rule locks_okI)
  have nb: "prod s p' \<noteq> PHold y j b w" for p' y j w
    using lock_holder [OF l, of p' y j b w] n by auto
  fix b' p'
  show "buf_lock (s\<lparr>prod := (prod s)(p := PHold x i b v), buf_lock := (buf_lock s)(b := Some (Producer p))\<rparr>) b' = Some (Producer p')
     \<longleftrightarrow> (\<exists>y j w. prod (s\<lparr>prod := (prod s)(p := PHold x i b v), buf_lock := (buf_lock s)(b := Some (Producer p))\<rparr>) p' = PHold y j b' w)"
    using locks_okD(3) [OF l, of b' p'] nb [of p'] w by (cases "p' = p"; cases "b' = b") auto
  show "buf_lock (s\<lparr>prod := (prod s)(p := PHold x i b v), buf_lock := (buf_lock s)(b := Some (Producer p))\<rparr>) b' = Some Consumer
     \<longleftrightarrow> (case cons (s\<lparr>prod := (prod s)(p := PHold x i b v), buf_lock := (buf_lock s)(b := Some (Producer p))\<rparr>) of
           CWantOff c \<Rightarrow> b' = c | CHandle c _ \<Rightarrow> b' = c | _ \<Rightarrow> False)"
    using locks_okD(2) [OF l, of b'] locks_okD(2) [OF l, of b] n by (cases "b' = b") simp_all
qed (use locks_okD(1) [OF l] in simp)

lemma add_read_inv:
  assumes "sys_inv s" "prod s p = PTry x i" "add_snapshot (que s) = (b, v)"
  shows "sys_inv (s\<lparr>prod := (prod s)(p := PWait x i b v)\<rparr>)"
proof -
  have "snapshot_ok (swaps s) (PWait x i b v)"
    using sys_invD(3) [OF assms(1)] assms(3) by (auto simp: snapshot_ok_def versions_ok_def Let_def add_snapshot_def)
  then show ?thesis
    using producer_frame [OF assms(1) _ locks_no_hold [OF sys_invD(2) [OF assms(1)], of p]] assms(2) by simp
qed

lemma add_done_inv:
  assumes inv: "sys_inv s" and k: "swaps s < 2 ^ 64"
    and p: "prod s p = PHold x i b v" "v = queue_version (que s) b" and st: "add_store (que s) b x = Some q"
  shows "sys_inv (s\<lparr>que := q, prod := (prod s)(p := PIdle), buf_lock := (buf_lock s)(b := None), accepted := accepted s @ [x]\<rparr>)"
proof -
  note I = sys_invD [OF inv]
  have b: "b = active_buffer (que s)" "b = 0 \<or> b = Suc 0" and c: "\<And>j. cons s \<noteq> CHandle b j" "cons s \<noteq> CWantOff b"
    using current_is_active [OF inv k p] by blast+
  have lt: "queue_next (que s) b < max_entries (que s)" using st by (auto simp: add_store_def split: if_splits)
  have q: "queued q b = queued (que s) b @ [x]" "bufs_ok q"
    "\<And>c. c \<noteq> b \<Longrightarrow> queued q c = queued (que s) c \<and> queue_next q c = queue_next (que s) c"
    "active_buffer q = active_buffer (que s)" "active_buffer_version q = active_buffer_version (que s)"
    "queue_version q = queue_version (que s)"
    using add_store_queued [OF I(1) b(2) lt, of x] st by auto
  let ?s = "s\<lparr>que := q, prod := (prod s)(p := PIdle), buf_lock := (buf_lock s)(b := None), accepted := accepted s @ [x]\<rparr>"
  have "locks_ok ?s" using locks_release [OF I(2) p(1), of PIdle] by (simp add: locks_ok_def)
  moreover have "versions_ok ?s" using I(3) q by (simp add: versions_ok_def Let_def)
  moreover have "consumer_ok ?s"
    using I(4) q(3) [of "offline_of b"] b(1) unfolding consumer_ok_def by (simp add: q Let_def split: consumer.splits)
  moreover have "in_hand ?s = in_hand s"
    using c q(3) by (cases "cons s") (fastforce simp: in_hand_def)+
  ultimately show ?thesis
    unfolding sys_inv_def using I(5,6) q b(1) by (simp add: pending_def snapshot_ok_def)
qed

lemma retire_inv:
  assumes inv: "sys_inv s" and c: "cons s = CWantBuf b" and l: "buf_lock s b = None"
  shows "sys_inv (s\<lparr>cons := CWantOff b, buf_lock := (buf_lock s)(b := Some Consumer), que := process_retire b (que s)\<rparr>)"
proof -
  note I = sys_invD [OF inv]
  let ?s = "s\<lparr>cons := CWantOff b, buf_lock := (buf_lock s)(b := Some Consumer), que := process_retire b (que s)\<rparr>"
  have "prod s p \<noteq> PHold y j b w" for p y j w using lock_holder [OF I(2), of p y j b w] l by auto
  then have "locks_ok ?s" using I(2) c unfolding locks_ok_def by auto
  moreover have "versions_ok ?s" using I(3) c
    by (simp add: versions_ok_def Let_def process_retire_def versions_at_Suc)
  moreover have "bufs_ok (process_retire b (que s))" using I(1) by (simp add: bufs_ok_def process_retire_def)
  moreover have "consumer_ok ?s" using I(4) c by (simp add: consumer_ok_def process_retire_def Let_def)
  ultimately show ?thesis unfolding sys_inv_def using I(5,6) c
    by (simp add: in_hand_def pending_def queued_def process_retire_def)
qed

lemma swap_inv:
  assumes inv: "sys_inv s" and c: "cons s = CWantOff b" and l: "buf_lock s (offline_of b) = None"
  shows "sys_inv (s\<lparr>cons := CHandle b 0, active_lock := False, que := process_swap b (que s), swaps := Suc (swaps s)\<rparr>)"
proof -
  note I = sys_invD [OF inv]
  let ?q = "process_swap b (que s)"
  let ?s = "s\<lparr>cons := CHandle b 0, active_lock := False, que := ?q, swaps := Suc (swaps s)\<rparr>"
  have b: "b = swaps s mod 2" and off: "queue_next (que s) (offline_of b) = 0"
    using I(3,4) c by (simp_all add: consumer_ok_def versions_ok_def Let_def)
  have act: "active_buffer ?q = offline_of b" by (simp add: process_swap_def Let_def)
  have "locks_ok ?s" using I(2) c by (simp add: locks_ok_def)
  moreover have "versions_ok ?s"
  proof -
    have "queue_version ?q d = versions_at (Suc (swaps s)) d" if d: "d < 2" for d
      using I(3) c d b by (auto simp: versions_ok_def Let_def process_swap_def versions_at_Suc offline_of_def)
    moreover have "active_buffer_version ?q = queue_version ?q (offline_of b)" by (simp add: process_swap_def Let_def)
    ultimately show ?thesis
      using act b by (simp add: versions_ok_def Let_def offline_mod2)
  qed
  moreover have "bufs_ok ?q" using I(1) by (simp add: bufs_ok_def process_swap_def Let_def)
  moreover have "b = offline_of (offline_of b)" using b by (auto simp: offline_of_def)
  then have "consumer_ok ?s" by (simp add: consumer_ok_def act Let_def)
  moreover have "in_hand ?s @ pending ?q = in_hand s @ pending (que s)"
    using I(4) c by (simp add: in_hand_def pending_def queued_def process_swap_def Let_def consumer_ok_def)
  moreover have "snapshot_ok (Suc (swaps s)) (prod s p)" for p
    using I(5) [of p] by (auto simp: snapshot_ok_def split: producer.splits intro: le_SucI)
  ultimately show ?thesis unfolding sys_inv_def using I(6) by simp
qed

lemma handle_inv:
  assumes inv: "sys_inv s" and c: "cons s = CHandle b i" and i: "i < queue_next (que s) b"
  shows "sys_inv (s\<lparr>cons := CHandle b (Suc i), handled := handled s @ [buffer (que s) b ! i]\<rparr>)"
proof -
  note I = sys_invD [OF inv]
  let ?s = "s\<lparr>cons := CHandle b (Suc i), handled := handled s @ [buffer (que s) b ! i]\<rparr>"
  have "b = offline_of (swaps s mod 2)" using I(3,4) c by (simp add: consumer_ok_def versions_ok_def Let_def)
  then have "b = 0 \<or> b = Suc 0" by (auto simp: offline_of_def)
  then have "i < length (queued (que s) b)" using I(1) i by (auto simp: bufs_ok_def queued_def)
  then have "drop i (queued (que s) b) = buffer (que s) b ! i # drop (Suc i) (queued (que s) b)"
    by (subst Cons_nth_drop_Suc [symmetric]) (auto simp: queued_def)
  then have "in_hand s = buffer (que s) b ! i # in_hand ?s" using c by (simp add: in_hand_def)
  moreover have "locks_ok ?s" "versions_ok ?s" "consumer_ok ?s"
    using I(2,3,4) c i by (simp_all add: locks_ok_def versions_ok_def consumer_ok_def Let_def)
  ultimately show ?thesis unfolding sys_inv_def using I(1,5,6) by simp
qed

lemma finish_inv:
  assumes inv: "sys_inv s" and c: "cons s = CHandle b i" and i: "\<not> i < queue_next (que s) b"
  shows "sys_inv (s\<lparr>cons := CIdle, buf_lock := (buf_lock s)(b := None), que := process_finish b (que s)\<rparr>)"
proof -
  note I = sys_invD [OF inv]
  let ?s = "s\<lparr>cons := CIdle, buf_lock := (buf_lock s)(b := None), que := process_finish b (que s)\<rparr>"
  have off: "b = offline_of (active_buffer (que s))" and ie: "i = queue_next (que s) b"
    using I(4) c i by (simp_all add: consumer_ok_def Let_def)
  have "buf_lock s b = Some Consumer" using I(2) c by (simp add: locks_ok_def)
  then have "prod s p \<noteq> PHold y j b w" for p y j w using lock_holder [OF I(2), of p y j b w] by auto
  then have "locks_ok ?s" using I(2) c unfolding locks_ok_def by auto
  moreover have "versions_ok ?s" using I(3) c by (simp add: versions_ok_def process_finish_def Let_def)
  moreover have "consumer_ok ?s" using off by (simp add: consumer_ok_def process_finish_def Let_def)
  moreover have "bufs_ok (process_finish b (que s))" using I(1) by (simp add: bufs_ok_def process_finish_def)
  moreover have "in_hand s = []" using c ie by (simp add: in_hand_def queued_def)
  moreover have "pending (process_finish b (que s)) = pending (que s)"
    using off by (simp add: pending_def queued_def process_finish_def)
  ultimately show ?thesis unfolding sys_inv_def using I(5,6) by (simp add: in_hand_def)
qed

lemma consumer_only_inv:
  assumes inv: "sys_inv s" and ok: "consumer_ok (s\<lparr>cons := c, active_lock := a\<rparr>)"
    and "locks_ok (s\<lparr>cons := c, active_lock := a\<rparr>)" and "versions_ok (s\<lparr>cons := c, active_lock := a\<rparr>)"
    and "in_hand (s\<lparr>cons := c, active_lock := a\<rparr>) = in_hand s"
  shows "sys_inv (s\<lparr>cons := c, active_lock := a\<rparr>)"
  using sys_invD [OF inv] assms by (simp add: sys_inv_def)

lemma qstep_inv:
  assumes "qstep s l s'" "sys_inv s" "swaps s < 2 ^ 64"
  shows "sys_inv s'"
  using assms
proof (induction rule: qstep.induct)
  case (add_begin s p x)
  then show ?case
    using producer_frame [OF add_begin(3) _ locks_no_hold [OF sys_invD(2) [OF add_begin(3)], of p]] by (simp add: snapshot_ok_def)
next
  case (add_give_up s p x i)
  then show ?case
    using producer_frame [OF add_give_up(3) _ locks_no_hold [OF sys_invD(2) [OF add_give_up(3)], of p]] by (simp add: snapshot_ok_def)
next
  case (add_last s p x i)
  then show ?case
    using producer_frame [OF add_last(4) _ locks_no_hold [OF sys_invD(2) [OF add_last(4)], of p]] by (simp add: snapshot_ok_def)
next
  case (add_read s p x i b v)
  then show ?case by (intro add_read_inv)
next
  case (add_lock s p x i b v)
  have "snapshot_ok (swaps s) (PHold x i b v)"
    using sys_invD(5) [OF add_lock(3), of p] add_lock(1) by (simp add: snapshot_ok_def)
  then show ?case using add_lock by (intro producer_frame locks_acquire sys_invD(2))
next
  case (add_race s p x i b v)
  then show ?case by (intro producer_frame locks_release sys_invD(2)) (simp_all add: snapshot_ok_def)
next
  case (add_overflow s p x i b v)
  then show ?case by (intro producer_frame locks_release sys_invD(2)) (simp_all add: snapshot_ok_def)
next
  case (add_done s p x i b v q)
  then show ?case by (intro add_done_inv)
next
  case (process_begin s b)
  note I = sys_invD [OF process_begin(6)]
  have "sys_inv (s\<lparr>cons := CWantActive b, active_lock := active_lock s\<rparr>)"
    by (rule consumer_only_inv [OF process_begin(6)])
       (use I process_begin(1-5) in \<open>simp_all add: consumer_ok_def locks_ok_def versions_ok_def in_hand_def Let_def\<close>)
  then show ?case by simp
next
  case (lock_active s b)
  note I = sys_invD [OF lock_active(3)]
  show ?case
    by (rule consumer_only_inv [OF lock_active(3)])
       (use I lock_active(1-2) in \<open>simp_all add: consumer_ok_def locks_ok_def versions_ok_def in_hand_def Let_def\<close>)
next
  case (retire s b)
  then show ?case by (intro retire_inv)
next
  case (swap s b)
  then show ?case by (intro swap_inv)
next
  case (handle s b i)
  then show ?case by (intro handle_inv)
next
  case (finish s b i)
  then show ?case by (intro finish_inv)
qed

lemma swaps_mono: "qstep s l s' \<Longrightarrow> swaps s \<le> swaps s'"
  by (induction rule: qstep.induct) simp_all

lemma sys_init_inv: "datum_queue_prep True True z n sz = Some q \<Longrightarrow> sys_inv (sys_init q)"
  by (auto split: if_splits simp: datum_queue_prep_def sys_init_def sys_inv_def bufs_ok_def locks_ok_def versions_ok_def consumer_ok_def
      snapshot_ok_def in_hand_def pending_def queued_def versions_at_def Let_def less_2_cases_iff)

lemma reachable_inv:
  "reachable q s \<Longrightarrow> datum_queue_prep True True z n sz = Some q \<Longrightarrow> swaps s < 2 ^ 64 \<Longrightarrow> sys_inv s"
proof (induction rule: reachable.induct)
  case (reachable_step s l s')
  then have "sys_inv s" using swaps_mono [of s l s'] by (meson le_less_trans)
  with reachable_step show ?case using qstep_inv swaps_mono [of s l s'] by (meson le_less_trans)
qed (rule sys_init_inv)

section \<open>No item is lost, duplicated or reordered\<close>

text \<open>C3: whatever the interleaving of producers and consumer, the items for which an add succeeded are,
  in the order of the adds, the items already handled, then the ones the consumer still has to handle,
  then the contents of the active buffer; and no write leaves the allotted part of a buffer.\<close>

theorem queue_no_loss:
  assumes "datum_queue_prep True True z n sz = Some q" "reachable q s" "swaps s < 2 ^ 64"
  shows "accepted s = handled s @ in_hand s @ pending (que s)
     \<and> queue_next (que s) 0 \<le> n \<and> queue_next (que s) 1 \<le> n \<and> length (buffer (que s) 0) = n + 16"
proof -
  have max: "max_entries (que s) = n" using assms(2)
  proof (induction rule: reachable.induct)
    case (reachable_step s l s')
    have "max_entries (que s') = max_entries (que s)" using reachable_step(2)
      by (induction rule: qstep.induct)
         (auto simp: add_store_def process_retire_def process_swap_def process_finish_def Let_def split: if_splits)
    with reachable_step show ?case by simp
  qed (use prep_ok [OF assms(1)] in \<open>simp add: sys_init_def\<close>)
  have "sys_inv s" using assms(2,1,3) by (rule reachable_inv)
  then show ?thesis using max by (auto simp: sys_inv_def bufs_ok_def)
qed

lemma one_add_run:
  assumes q: "datum_queue_prep True True (0::nat) 1 8 = Some q"
  shows "\<exists>s. reachable q s \<and> accepted s = [7] \<and> swaps s = 0"
proof -
  let ?s0 = "sys_init q"
  have f: "prod ?s0 0 = PIdle" "initialized q" "add_snapshot q = (0, 0)" "queue_version q 0 = 0" "buf_lock ?s0 0 = None"
    "\<not> active_lock ?s0" "que ?s0 = q" "swaps ?s0 = 0" "accepted ?s0 = []"
    using q by (auto split: if_splits simp: datum_queue_prep_def sys_init_def add_snapshot_def)
  let ?s1 = "?s0\<lparr>prod := (prod ?s0)(0 := PTry 7 0)\<rparr>"
  have r1: "reachable q ?s1" by (rule reachable_step [OF reachable_init]) (rule qstep.add_begin, use f in simp_all)
  let ?s2 = "?s1\<lparr>prod := (prod ?s1)(0 := PWait 7 0 0 0)\<rparr>"
  have r2: "reachable q ?s2" by (rule reachable_step [OF r1]) (rule qstep.add_read, use f in \<open>simp_all add: add_attempts_def\<close>)
  let ?s3 = "?s2\<lparr>prod := (prod ?s2)(0 := PHold 7 0 0 0), buf_lock := (buf_lock ?s2)(0 := Some (Producer 0))\<rparr>"
  have r3: "reachable q ?s3" by (rule reachable_step [OF r2]) (rule qstep.add_lock, use f in simp_all)
  obtain q' where q': "add_store q 0 7 = Some q'" using q by (auto split: if_splits simp: datum_queue_prep_def add_store_def)
  let ?s4 = "?s3\<lparr>que := q', prod := (prod ?s3)(0 := PIdle), buf_lock := (buf_lock ?s3)(0 := None), accepted := accepted ?s3 @ [7]\<rparr>"
  have r4: "reachable q ?s4" by (rule reachable_step [OF r3]) (rule qstep.add_done [where i = 0 and v = 0], use f q' in simp_all)
  have "accepted ?s4 = [7]" "swaps ?s4 = 0" using f by simp_all
  with r4 show ?thesis by blast
qed

theorem queue_no_loss_witness:
  "\<exists>q s. datum_queue_prep True True (0::nat) 1 8 = Some q \<and> reachable q s \<and> accepted s = [7]
     \<and> handled s @ in_hand s @ pending (que s) = [7]"
proof -
  obtain q where q: "datum_queue_prep True True (0::nat) 1 8 = Some q" by (simp add: datum_queue_prep_def int_fits_def)
  then obtain s where s: "reachable q s" "accepted s = [7]" "swaps s = 0" using one_add_run by blast
  then show ?thesis using queue_no_loss [OF q s(1)] q by auto
qed

text \<open>C22: the locks never block each other for good: in every reachable state with a thread inside an add or
  a process call, some such thread can take its next step.\<close>

theorem queue_progress:
  assumes "datum_queue_prep True True z n sz = Some q" "reachable q s" "swaps s < 2 ^ 64"
    and busy: "cons s \<noteq> CIdle \<or> prod s p \<noteq> PIdle"
  shows "\<exists>s'. qstep s Work s'"
proof -
  have l: "locks_ok s" using reachable_inv [OF assms(2,1,3)] by (rule sys_invD)
  have hold: "\<exists>s'. qstep s Work s'" if "prod s p' = PHold x i b v" for p' x i b v
    using that by (cases "v = queue_version (que s) b"; cases "add_store (que s) b x")
      (blast intro: qstep.add_race qstep.add_overflow qstep.add_done)+
  have hand: "\<exists>s'. qstep s Work s'" if "cons s = CHandle b i" for b i
    using that by (cases "i < queue_next (que s) b") (blast intro: qstep.handle qstep.finish)+
  have taken: "\<exists>s'. qstep s Work s'" if "buf_lock s b \<noteq> None" "cons s \<noteq> CWantOff b" for b
  proof -
    obtain t where "buf_lock s b = Some t" using \<open>buf_lock s b \<noteq> None\<close> by blast
    then show ?thesis using locks_okD(2,3) [OF l, of b] hold hand that(2)
      by (cases t; cases "cons s") auto
  qed
  show ?thesis
  proof (cases "cons s")
    case CIdle
    then have "prod s p \<noteq> PIdle" and a: "\<not> active_lock s" using busy locks_okD(1) [OF l] by simp_all
    then show ?thesis
    proof (cases "prod s p")
      case (PTry x i)
      obtain b v where "add_snapshot (que s) = (b, v)" by (metis surj_pair)
      with PTry a show ?thesis
        by (cases "i < add_attempts - 1"; cases "i < add_attempts") (meson qstep.intros not_less)+
    next
      case (PWait x i b v)
      with taken [of b] CIdle show ?thesis by (cases "buf_lock s b") (auto intro: qstep.add_lock)
    qed (use hold in auto)
  next
    case (CWantActive b)
    then show ?thesis using locks_okD(1) [OF l] by (auto intro: qstep.lock_active)
  next
    case (CWantBuf b)
    with taken [of b] show ?thesis by (cases "buf_lock s b") (auto intro: qstep.retire)
  next
    case (CWantOff b)
    with taken [of "offline_of b"] show ?thesis by (cases "buf_lock s (offline_of b)") (auto intro: qstep.swap)
  qed (rule hand)
qed

theorem queue_progress_witness:
  "\<exists>q s s'. datum_queue_prep True True (0::nat) 1 8 = Some q \<and> reachable q s \<and> prod s 3 = PTry 7 0 \<and> qstep s Work s'"
proof -
  obtain q where q: "datum_queue_prep True True (0::nat) 1 8 = Some q" by (simp add: datum_queue_prep_def int_fits_def)
  let ?s = "(sys_init q)\<lparr>prod := (prod (sys_init q))(3 := PTry 7 0)\<rparr>"
  have "initialized q" using q by (auto split: if_splits simp: datum_queue_prep_def)
  then have r: "reachable q ?s" by (intro reachable_step [OF reachable_init qstep.add_begin]) (simp_all add: sys_init_def)
  have "\<exists>s'. qstep ?s Work s'" by (rule queue_progress [OF q r, of 3]) (simp_all add: sys_init_def)
  with q r show ?thesis by fastforce
qed

end
