(* ===== verification/Pow.thy ===== *)
theory Pow
  imports Hex Targets
begin

text \<open>
  Proof of work, \<^verbatim>\<open>src/src/datum_pow.c\<close>: the time field on the wire, the share target of a
  number of difficulty bits, the header commitment, the work root and the work header hashed by the
  miner, the masked proof-of-work hash, and the serialized 164-byte block header. SHA-256 and BLAKE2b
  come from libsodium and are arguments: \<open>sha\<close> returns the digest of its input, \<open>blake\<close> the 32-byte
  digest or \<open>None\<close> when the library reports an error. Pointer arguments are the bytes they point to
  and are not NULL.
\<close>

section \<open>Time and targets\<close>

definition DATUM_BLAKE2B_USE_TIME_OFFSET :: u8 where
  "DATUM_BLAKE2B_USE_TIME_OFFSET = 4"

definition datum_blake2b_time_on_wire :: "u64 \<Rightarrow> u64 \<Rightarrow> u8 \<Rightarrow> u32 option" where
  "datum_blake2b_time_on_wire ntime offset flags =
     (if flags AND DATUM_BLAKE2B_USE_TIME_OFFSET \<noteq> 0 then
        (if ntime < offset then None
         else let t = ntime - offset
              in if t > 0xFFFFFFFF then None else Some (ucast t))
      else if ntime > 0xFFFFFFFF then None
      else Some (ucast ntime))"

text \<open>
  The byte shift drops whole low bytes; the bit loop runs upwards, so that the byte above is still the
  old one when it is read.
\<close>

definition u256_shr_step :: "nat \<Rightarrow> nat \<Rightarrow> bytes \<Rightarrow> bytes" where
  "u256_shr_step bit_shift i n = n[i := drop_bit bit_shift (n ! i) OR push_bit (8 - bit_shift) (n ! (i + 1))]"

definition datum_u256_shr :: "bytes \<Rightarrow> nat \<Rightarrow> bytes" where
  "datum_u256_shr n bits =
     (let byte_shift = bits div 8;
          bit_shift = bits mod 8;
          n = (if byte_shift \<noteq> 0 then memset (memcpy n 0 (take (32 - byte_shift) (drop byte_shift n))) (32 - byte_shift) 0 byte_shift
               else n)
      in if bit_shift = 0 then n
         else let n = fold (u256_shr_step bit_shift) [0..<31] n
              in n[31 := drop_bit bit_shift (n ! 31)])"

definition datum_blake2b_share_target :: "nat \<Rightarrow> bytes option" where
  "datum_blake2b_share_target bits =
     (if bits \<ge> 224 then None
      else let target = replicate 28 0xff @ replicate 4 0
           in Some (if bits \<noteq> 0 then datum_u256_shr target bits else target))"

section \<open>Hashes\<close>

definition datum_blake2b_256 :: "(bytes \<Rightarrow> bytes option) \<Rightarrow> bytes \<Rightarrow> bytes option" where
  "datum_blake2b_256 blake input = blake input"

definition datum_reverse32 :: "bytes \<Rightarrow> bytes" where
  "datum_reverse32 input = map (\<lambda>i. input ! (31 - i)) [0..<32]"

definition datum_xor_key_is_null :: "bytes \<Rightarrow> bool" where
  "datum_xor_key_is_null xor_key \<longleftrightarrow> take 16 xor_key = replicate 16 0"

definition datum_sha256_tagged :: "(bytes \<Rightarrow> bytes) \<Rightarrow> string \<Rightarrow> bytes \<Rightarrow> bytes" where
  "datum_sha256_tagged sha tag data =
     (let taghash = sha (map byte_of tag) in sha (taghash @ taghash @ data))"

definition datum_blake2b_xor_key_hash :: "(bytes \<Rightarrow> bytes) \<Rightarrow> bytes \<Rightarrow> bytes" where
  "datum_blake2b_xor_key_hash sha xor_key =
     datum_sha256_tagged sha ''Bitcoin block hash PoW XOR key'' (take 16 xor_key)"

definition datum_blake2b_xor_key_mask :: "(bytes \<Rightarrow> bytes) \<Rightarrow> bytes \<Rightarrow> u8 \<Rightarrow> bytes" where
  "datum_blake2b_xor_key_mask sha xor_key clear_bits =
     (if datum_xor_key_is_null xor_key then replicate 32 0
      else let mask = datum_sha256_tagged sha ''Bitcoin block hash PoW XOR mask'' (take 16 xor_key);
               clear_bytes = unat clear_bits div 8;
               rem = unat clear_bits mod 8;
               mask = (if clear_bytes \<noteq> 0 then memset mask 0 0 clear_bytes else mask)
           in if clear_bytes < 32 then mask[clear_bytes := mask ! clear_bytes AND drop_bit rem 0xff] else mask)"

definition datum_blake2b_sia_coinb1 :: "bytes \<Rightarrow> bytes" where
  "datum_blake2b_sia_coinb1 commitment = replicate 3 0 @ take 32 commitment @ replicate 4 0"

definition datum_blake2b_sia_prevhash :: "(bytes \<Rightarrow> bytes) \<Rightarrow> bytes \<Rightarrow> bytes" where
  "datum_blake2b_sia_prevhash sha prevhash =
     (let ordered = datum_reverse32 prevhash;
          out = datum_sha256_tagged sha ''Bitcoin prevblock header, hashed'' ordered
      in memset out 0 0 6)"

definition datum_blake2b_build_work_header ::
  "(bytes \<Rightarrow> bytes) \<Rightarrow> bytes \<Rightarrow> bytes \<Rightarrow> bytes \<Rightarrow> bytes \<Rightarrow> bytes \<Rightarrow> bytes" where
  "datum_blake2b_build_work_header sha work prevhash nonce ntime work_root =
     (let work = memcpy work 0 (datum_blake2b_sia_prevhash sha prevhash);
          work = memcpy work 32 (take 8 nonce);
          work = memcpy work 40 (take 8 ntime)
      in memcpy work 48 (take 32 work_root))"

section \<open>The header commitment\<close>

record header_fields =
  hf_version :: u32
  hf_prevhash :: bytes
  hf_height :: u32
  hf_merkle :: bytes
  hf_time :: u32
  hf_nbits :: u32
  hf_txcount :: u32
  hf_flags :: u8
  hf_clear_bits :: u8

text \<open>The 119-byte first payload, written into an uninitialised buffer; \<open>None\<close> if the offset is not its size.\<close>

definition h1_payload :: "header_fields \<Rightarrow> bytes \<Rightarrow> bytes \<Rightarrow> bytes option" where
  "h1_payload h xor_key_hash buf =
     (let p = pk_u32le buf 0 (hf_version h OR 0x80000000); ofs = 4;
          p = memcpy p ofs (datum_reverse32 (hf_prevhash h)); ofs = ofs + 32;
          p = pk_u32le p ofs (hf_height h); ofs = ofs + 4;
          p = memcpy p ofs (take 32 (hf_merkle h)); ofs = ofs + 32;
          p = pk_u32le p ofs (hf_time h); ofs = ofs + 4;
          p = p[ofs := 0]; ofs = ofs + 1;
          p = pk_u32le p ofs (hf_nbits h); ofs = ofs + 4;
          p = pk_u32le p ofs (hf_txcount h); ofs = ofs + 4;
          p = p[ofs := hf_flags h]; ofs = ofs + 1;
          p = p[ofs := hf_clear_bits h]; ofs = ofs + 1;
          p = memcpy p ofs (take 32 xor_key_hash); ofs = ofs + 32
      in if ofs \<noteq> length buf then None else Some p)"

definition datum_blake2b_header_commitment ::
  "(bytes \<Rightarrow> bytes) \<Rightarrow> bytes \<Rightarrow> bytes \<Rightarrow> header_fields \<Rightarrow> bytes \<Rightarrow> bytes \<Rightarrow> bytes option" where
  "datum_blake2b_header_commitment sha buf1 buf2 h xor_key rhs =
     (let xor_key_hash = datum_blake2b_xor_key_hash sha xor_key
      in case h1_payload h xor_key_hash buf1 of
           None \<Rightarrow> None
         | Some p1 \<Rightarrow>
             (let h1_hash = datum_sha256_tagged sha ''Bitcoin block header 1'' p1;
                  p2 = memcpy buf2 0 h1_hash;
                  p2 = memset p2 32 0 32;
                  p2 = memcpy p2 64 (take 32 rhs)
              in Some (datum_sha256_tagged sha ''Merge-mining hook'' p2)))"

definition datum_blake2b_work_root :: "(bytes \<Rightarrow> bytes option) \<Rightarrow> bytes \<Rightarrow> bytes \<Rightarrow> bytes option" where
  "datum_blake2b_work_root blake commitment extranonce =
     (let leaf = [0] @ datum_blake2b_sia_coinb1 commitment @ take 12 extranonce
      in datum_blake2b_256 blake leaf)"

definition datum_blake2b_pow_hash_le ::
  "(bytes \<Rightarrow> bytes) \<Rightarrow> (bytes \<Rightarrow> bytes option) \<Rightarrow> bytes \<Rightarrow> bytes \<Rightarrow> u8 \<Rightarrow> bytes option" where
  "datum_blake2b_pow_hash_le sha blake work xor_key xor_key_mask_clear_bits =
     (case datum_blake2b_256 blake (take 80 work) of
        None \<Rightarrow> None
      | Some hash \<Rightarrow>
          (let mask = datum_blake2b_xor_key_mask sha xor_key xor_key_mask_clear_bits
           in Some (fold (\<lambda>i hash_le. hash_le[31 - i := (hash ! i) XOR (mask ! i)]) [0..<32] (replicate 32 0))))"

section \<open>The serialized header\<close>

record block_header =
  bh_version :: u32
  bh_prevhash :: bytes
  bh_merkle :: bytes
  bh_time :: u32
  bh_nbits :: u32
  bh_nonce :: bytes
  bh_ntime :: bytes
  bh_extranonce :: bytes
  bh_txcount :: u16
  bh_flags :: u8
  bh_clear_bits :: u8
  bh_xor_key :: bytes
  bh_height :: u32
  bh_rhs :: bytes

definition datum_blake2b_serialize_block_header :: "bytes \<Rightarrow> block_header \<Rightarrow> bytes" where
  "datum_blake2b_serialize_block_header header h =
     (let header = pk_u32le header 0 (bh_version h OR 0x80000000);
          header = memcpy header 4 (take 32 (bh_prevhash h));
          header = memcpy header 36 (take 32 (bh_merkle h));
          header = pk_u32le header 68 (bh_time h);
          header = pk_u32le header 72 (bh_nbits h);
          header = memcpy header 76 (take 8 (bh_nonce h));
          header = memcpy header 84 (take 4 (drop 4 (bh_ntime h)));
          header = memset header 88 0 4;
          header = memcpy header 92 (take 12 (bh_extranonce h));
          header = memcpy header 104 (take 4 (bh_ntime h));
          header = pk_u16le header 108 (bh_txcount h);
          header = header[110 := bh_flags h];
          header = header[111 := bh_clear_bits h];
          header = memcpy header 112 (take 16 (bh_xor_key h));
          header = pk_u32le header 128 (bh_height h)
      in memcpy header 132 (take 32 (bh_rhs h)))"

section \<open>The share target\<close>

lemma length_shr_step [simp]: "length (u256_shr_step b i n) = length n"
  by (simp add: u256_shr_step_def)

lemma shift_pair:
  fixes a b t :: nat
  assumes "a < 256" "256 = p * t" "0 < p"
  shows "(a + 256 * b) div p mod 256 = a div p + (b * t) mod 256"
proof -
  have "a + p * t * b = a + b * t * p" by (simp only: ac_simps)
  then have 1: "(a + 256 * b) div p = a div p + b * t"
    unfolding assms(2) using assms(3) by (simp only: div_mult_self1 [OF less_imp_neq [THEN not_sym]])
  have 2: "a div p < t" using assms(1) unfolding assms(2) by (simp only: less_mult_imp_div_less mult.commute)
  have 3: "(b * t) mod 256 = (b mod p) * t" unfolding assms(2) by (simp only: mult_mod_left)
  have "b mod p + 1 \<le> p" using assms(3) mod_less_divisor [of p b] by linarith
  then have "(b mod p + 1) * t \<le> 256" unfolding assms(2) by (rule mult_le_mono1)
  then have "a div p + b mod p * t < 256" using 2 by (simp only: distrib_right mult_1) 
  then show ?thesis unfolding 1 using 3 by (metis mod_add_right_eq mod_less)
qed

lemma byte_shr_value:
  fixes a b :: u8
  assumes "s < 8"
  shows "unat (drop_bit s a OR push_bit (8 - s) b) = (unat a + 256 * unat b) div 2 ^ s mod 256"
proof -
  have p: "(256::nat) = 2 ^ s * 2 ^ (8 - s)" using assms by (simp flip: power_add)
  have "drop_bit s a OR push_bit (8 - s) b = drop_bit s a + push_bit (8 - s) b"
    using assms by (intro disjunctive_add [symmetric]) (auto simp: bit_simps dest: bit_imp_le_length)
  moreover have u1: "unat (drop_bit s a) = unat a div 2 ^ s" by (rule unat_drop_bit_div)
  moreover have u2: "unat (push_bit (8 - s) b) = (unat b * 2 ^ (8 - s)) mod 256"
    unfolding unsigned_push_bit_eq by (simp only: push_bit_eq_mult take_bit_eq_mod) simp
  moreover have eq: "(unat a + 256 * unat b) div 2 ^ s mod 256 = unat a div 2 ^ s + (unat b * 2 ^ (8 - s)) mod 256"
    using unat_u8_less [of a] p by (intro shift_pair) simp_all
  moreover have "unat (drop_bit s a) + unat (push_bit (8 - s) b) < 2 ^ 8"
    unfolding u1 u2 eq [symmetric] by simp
  ultimately show ?thesis by (simp add: unat_add_lem [THEN iffD1])
qed


text \<open>
  The loop shifts in place from the low end: after \<open>k\<close> steps the first \<open>k\<close> bytes are the bytes of the
  shifted number and the rest is untouched.
\<close>

lemma le_val_byte: "i < length n \<Longrightarrow> unat (n ! i) = le_val n div 256 ^ i mod 256"
proof -
  assume i: "i < length n"
  have "n = take i n @ n ! i # drop (Suc i) n" using i by (rule id_take_nth_drop)
  then have "le_val n = le_val (take i n) + 256 ^ i * (unat (n ! i) + 256 * le_val (drop (Suc i) n))"
    using i le_val_append [of "take i n" "n ! i # drop (Suc i) n"] by simp
  moreover have "le_val (take i n) < 256 ^ i" using le_val_less [of "take i n"] i by simp
  ultimately show ?thesis by simp
qed

definition shifted :: "bytes \<Rightarrow> nat \<Rightarrow> nat \<Rightarrow> bytes" where
  "shifted n s k = map (\<lambda>i. drop_bit s (n ! i) OR push_bit (8 - s) (n ! (i + 1))) [0..<k] @ drop k n"

lemma shr_loop: "k < length n \<Longrightarrow> fold (u256_shr_step s) [0..<k] n = shifted n s k"
proof (induction k)
  case (Suc k)
  have d: "drop k n = n ! k # drop (Suc k) n" using Suc.prems by (simp add: Cons_nth_drop_Suc)
  have "shifted n s k ! k = n ! k" "shifted n s k ! (k + 1) = n ! (k + 1)"
    using Suc.prems by (simp_all add: shifted_def nth_append)
  then have "u256_shr_step s k (shifted n s k) = shifted n s (Suc k)"
    unfolding u256_shr_step_def using Suc.prems by (simp add: shifted_def list_update_append d)
  with Suc show ?case by simp
qed (simp add: shifted_def)


text \<open>The value of a shifted number, from its bytes.\<close>

lemma le_val_bytes_of: "le_val (map (\<lambda>i. word_of_nat (v div 256 ^ i)) [0..<k]) = v mod 256 ^ k"
proof (induction k)
  case (Suc k)
  have "v mod 256 ^ Suc k = v mod 256 ^ k + 256 ^ k * (v div 256 ^ k mod 256)"
    unfolding power_Suc2 mod_mult2_eq by simp
  with Suc show ?case by (simp add: le_val_append unat_of_nat take_bit_eq_mod)
qed simp

lemma datum_u256_shr_bits:
  assumes "length n = 32" "0 < s" "s < 8"
  shows "le_val (let m = fold (u256_shr_step s) [0..<31] n in m[31 := drop_bit s (m ! 31)]) = le_val n div 2 ^ s"
proof -
  let ?v = "le_val n div 2 ^ s"
  have l31: "drop 31 n = [n ! 31]"
    using assms(1) by (simp add: Cons_nth_drop_Suc [symmetric])
  have v: "le_val n < 256 ^ 32" using le_val_less [of n] assms(1) by simp
  have b: "unat (n ! i) = le_val n div 256 ^ i mod 256" if "i < 32" for i using le_val_byte [of i n] that assms(1) by simp
  have lo: "drop_bit s (n ! i) OR push_bit (8 - s) (n ! (i + 1)) = word_of_nat (?v div 256 ^ i)" if "i < 31" for i
  proof -
    let ?w = "le_val n div 256 ^ i"
    have "unat (n ! i) + 256 * unat (n ! (i + 1)) = ?w mod 65536"
    proof -
      have "unat (n ! (i + 1)) = ?w div 256 mod 256" using b [of "i + 1"] that
        by (simp only: power_add power_one_right div_mult2_eq)
      then show ?thesis using b [of i] that mod_mult2_eq [of ?w 256 256] by simp
    qed
    moreover have "?w mod 65536 div 2 ^ s mod 256 = ?w div 2 ^ s mod 256"
    proof -
      have "?w mod (2 ^ s * 2 ^ (16 - s)) div 2 ^ s = ?w div 2 ^ s mod 2 ^ (16 - s)"
        by (simp add: mod_mult2_eq)
      moreover have "(2::nat) ^ s * 2 ^ (16 - s) = 65536" using assms(3) by (simp flip: power_add)
      moreover have "(256::nat) dvd 2 ^ (16 - s)" using assms(3) le_imp_power_dvd [of 8 "16 - s" "2::nat"] by simp
      ultimately show ?thesis by (metis mod_mod_cancel)
    qed
    moreover have "?w div 2 ^ s = ?v div 256 ^ i" by (simp add: div_mult2_eq [symmetric] mult.commute)
    ultimately have "unat (drop_bit s (n ! i) OR push_bit (8 - s) (n ! (i + 1))) = ?v div 256 ^ i mod 256"
      using byte_shr_value [OF assms(3), of "n ! i" "n ! (i + 1)"] by simp
    then show ?thesis by (simp add: word_unat_eq_iff unat_of_nat take_bit_eq_mod)
  qed
  have hi: "drop_bit s (n ! 31) = word_of_nat (?v div 256 ^ 31)"
  proof -
    have "le_val n div 256 ^ 31 < 256" using v by (simp add: less_mult_imp_div_less)
    then have "unat (drop_bit s (n ! 31)) = le_val n div 256 ^ 31 div 2 ^ s"
      using b [of 31] unat_drop_bit_div [of s "n ! 31"] by simp
    also have "\<dots> = ?v div 256 ^ 31" by (simp add: div_mult2_eq [symmetric] mult.commute)
    finally have "drop_bit s (n ! 31) = word_of_nat (?v div 256 ^ 31)" by (metis of_nat_unat ucast_id)
    then show ?thesis .
  qed
  have "shifted n s 31 = map (\<lambda>i. word_of_nat (?v div 256 ^ i)) [0..<31] @ [n ! 31]"
    unfolding shifted_def l31 using lo by simp
  then have "(let m = fold (u256_shr_step s) [0..<31] n in m[31 := drop_bit s (m ! 31)])
     = map (\<lambda>i. word_of_nat (?v div 256 ^ i)) [0..<31] @ [word_of_nat (?v div 256 ^ 31)]"
    using shr_loop [of 31 n s] assms(1) hi by (simp add: Let_def list_update_append nth_append)
  also have "\<dots> = map (\<lambda>i. word_of_nat (?v div 256 ^ i)) [0..<32]"
    using upt_Suc_append [of 0 31] by simp
  finally show ?thesis using v by (simp add: le_val_bytes_of mod_less le_less_trans [OF div_le_dividend])
qed


lemma le_val_append_zeros: "le_val (xs @ replicate n 0) = le_val xs"
  by (simp add: le_val_append)

lemma le_val_drop: "k \<le> length xs \<Longrightarrow> le_val (drop k xs) = le_val xs div 256 ^ k"
proof -
  assume k: "k \<le> length xs"
  have "le_val xs = le_val (take k xs) + 256 ^ k * le_val (drop k xs)"
    using le_val_append [of "take k xs" "drop k xs"] k by (simp add: min_def)
  moreover have "le_val (take k xs) < 256 ^ k" using le_val_less [of "take k xs"] k by (simp add: min_absorb2)
  ultimately show ?thesis by simp
qed

lemma datum_u256_shr_value:
  assumes n: "length n = 32" and bits: "bits < 256"
  shows "le_val (datum_u256_shr n bits) = le_val n div 2 ^ bits"
proof -
  let ?b = "bits div 8" and ?s = "bits mod 8"
  define m where "m = (if ?b \<noteq> 0 then memset (memcpy n 0 (take (32 - ?b) (drop ?b n))) (32 - ?b) 0 ?b else n)"
  have b: "?b < 32" using bits by (simp add: less_mult_imp_div_less)
  have m: "m = drop ?b n @ replicate ?b 0"
  proof (cases "?b = 0")
    case False
    have "take (32 - ?b) (drop ?b n) = drop ?b n" using n by simp
    then show ?thesis using n b False by (simp add: m_def memset_def memcpy_def)
  qed (simp add: m_def)
  have lm: "length m = 32" using m n b by simp
  have vm: "le_val m = le_val n div 256 ^ ?b" unfolding m using n b by (simp only: le_val_append_zeros le_val_drop)
  have "datum_u256_shr n bits = (if ?s = 0 then m
       else let m = fold (u256_shr_step ?s) [0..<31] m in m[31 := drop_bit ?s (m ! 31)])"
    unfolding datum_u256_shr_def m_def Let_def by (rule refl)
  then have "le_val (datum_u256_shr n bits) = le_val m div 2 ^ ?s"
    using datum_u256_shr_bits [OF lm, of ?s] by (cases "?s = 0") simp_all
  also have "\<dots> = le_val n div (2 ^ (8 * ?b) * 2 ^ ?s)"
    unfolding vm by (simp only: div_mult2_eq power_mult) simp
  also have "2 ^ (8 * ?b) * 2 ^ ?s = (2 :: nat) ^ bits" unfolding power_add [symmetric] by simp
  finally show ?thesis .
qed

text \<open>The share target of \<open>bits\<close> difficulty bits, for fewer than 224, is the 224-bit all-ones number
  shifted right: 2^(224 - bits) - 1.\<close>

theorem share_target_value:
  assumes "bits < 224"
  shows "\<exists>t. datum_blake2b_share_target bits = Some t \<and> le_val t = 2 ^ (224 - bits) - 1"
proof -
  let ?t = "replicate 28 0xff @ replicate 4 0 :: bytes"
  have ff: "le_val (replicate n 0xff) = 256 ^ n - 1" for n
  proof (induction n)
    case (Suc n)
    have "(1::nat) \<le> 256 ^ n" by simp
    then have "255 + 256 * (256 ^ n - 1) = (256 * 256 ^ n - 1 :: nat)" by linarith
    with Suc show ?case by simp
  qed simp
  have v: "le_val ?t = 2 ^ 224 - 1" unfolding le_val_append_zeros ff by simp
  have pm: "(Suc a * p - 1) div p = a" if "0 < p" for a p :: nat
    using that by (intro div_nat_eqI) (simp_all add: mult.commute [of p])
  have "(2::nat) ^ 224 = 2 ^ (224 - bits) * 2 ^ bits" unfolding power_add [symmetric] using assms by simp
  then have "((2::nat) ^ 224 - 1) div 2 ^ bits = 2 ^ (224 - bits) - 1"
    using pm [of "2 ^ bits" "2 ^ (224 - bits) - 1"] by simp
  then have "le_val (datum_u256_shr ?t bits) = 2 ^ (224 - bits) - 1"
    using datum_u256_shr_value [of ?t bits] assms v by simp
  moreover have "datum_u256_shr ?t 0 = ?t" by (simp add: datum_u256_shr_def)
  ultimately show ?thesis using assms v by (cases "bits = 0") (auto simp: datum_blake2b_share_target_def Let_def)
qed

theorem share_target_value_witness:
  "\<exists>t. datum_blake2b_share_target 13 = Some t \<and> le_val t = 2 ^ 211 - 1"
  using share_target_value [of 13] by simp

section \<open>The serialized header is read back\<close>

text \<open>The fields of a header that a well-formed caller passes.\<close>

definition header_ok :: "block_header \<Rightarrow> bool" where
  "header_ok h \<longleftrightarrow> length (bh_prevhash h) = 32 \<and> length (bh_merkle h) = 32 \<and> length (bh_nonce h) = 8
     \<and> length (bh_ntime h) = 8 \<and> length (bh_extranonce h) = 12 \<and> length (bh_xor_key h) = 16 \<and> length (bh_rhs h) = 32"

definition header_chunks :: "block_header \<Rightarrow> bytes list" where
  "header_chunks h = [le_bytes 4 (unat (bh_version h OR 0x80000000)), bh_prevhash h, bh_merkle h,
      le_bytes 4 (unat (bh_time h)), le_bytes 4 (unat (bh_nbits h)), bh_nonce h, drop 4 (bh_ntime h), replicate 4 0,
      bh_extranonce h, take 4 (bh_ntime h), le_bytes 2 (unat (bh_txcount h)), [bh_flags h], [bh_clear_bits h],
      bh_xor_key h, le_bytes 4 (unat (bh_height h)), bh_rhs h]"

text \<open>Writes inside a buffer of known size, so that the size is found in one step per write.\<close>

lemma sized_memcpy: "length buf = n \<Longrightarrow> off + length src \<le> n \<Longrightarrow> length (memcpy buf off src) = n"
  by simp

lemma sized_pk:
  "length buf = n \<Longrightarrow> off + 4 \<le> n \<Longrightarrow> pk_u32le buf off v = memcpy buf off (le_bytes 4 (unat v))"
  "length buf = n \<Longrightarrow> off + 2 \<le> n \<Longrightarrow> pk_u16le buf off w = memcpy buf off (le_bytes 2 (unat w))"
  "length buf = n \<Longrightarrow> off + 1 \<le> n \<Longrightarrow> buf[off := b] = memcpy buf off [b]"
  by (simp_all add: pk_memcpy upd_memcpy)

lemma serialize_chunks:
  assumes "header_ok h" "length buf = 164"
  shows "datum_blake2b_serialize_block_header buf h = concat (header_chunks h)"
proof -
  have l: "length (concat (header_chunks h)) = 164" using assms(1) by (simp add: header_chunks_def header_ok_def)
  have "datum_blake2b_serialize_block_header buf h = write_all (header_chunks h) 0 buf"
    using assms by (simp add: datum_blake2b_serialize_block_header_def Let_def header_chunks_def header_ok_def
        sized_pk [where n = 164] sized_memcpy [where n = 164] memset_def del: length_memcpy)
  then show ?thesis using write_all_concat [of 0 "header_chunks h" buf] assms(2) l by simp
qed

text \<open>Reading the header: the layout of the node's 164-byte header.\<close>

definition parse_block_header :: "bytes \<Rightarrow> block_header" where
  "parse_block_header b = \<lparr>bh_version = upk_u32le b 0, bh_prevhash = take 32 (drop 4 b), bh_merkle = take 32 (drop 36 b),
     bh_time = upk_u32le b 68, bh_nbits = upk_u32le b 72, bh_nonce = take 8 (drop 76 b),
     bh_ntime = take 4 (drop 104 b) @ take 4 (drop 84 b), bh_extranonce = take 12 (drop 92 b),
     bh_txcount = upk_u16le b 108, bh_flags = b ! 110, bh_clear_bits = b ! 111, bh_xor_key = take 16 (drop 112 b),
     bh_height = upk_u32le b 128, bh_rhs = take 32 (drop 132 b)\<rparr>"

lemma upk_field:
  "off + 4 \<le> length b \<Longrightarrow> take 4 (drop off b) = le_bytes 4 (unat v) \<Longrightarrow> upk_u32le b off = v"
  "off + 2 \<le> length b \<Longrightarrow> take 2 (drop off b) = le_bytes 2 (unat w) \<Longrightarrow> upk_u16le b off = w"
  using unsigned_less [of v, where 'a = nat] unsigned_less [of w, where 'a = nat]
  by (simp_all add: word_unat_eq_iff u32.unat_upk u16.unat_upk le_val_bytes)

text \<open>A serialized block header is 164 bytes from which every field is read back, the version with the
  header-version flag set.\<close>

theorem serialize_parse:
  assumes "header_ok h" "length buf = 164"
  shows "length (datum_blake2b_serialize_block_header buf h) = 164
    \<and> parse_block_header (datum_blake2b_serialize_block_header buf h) = h\<lparr>bh_version := bh_version h OR 0x80000000\<rparr>"
proof -
  let ?b = "datum_blake2b_serialize_block_header buf h"
  have b: "?b = concat (header_chunks h)" using serialize_chunks [of h buf] assms by simp
  have l: "length ?b = 164" unfolding b using assms(1) by (simp add: header_chunks_def header_ok_def)
  have f: "take 4 (drop 0 ?b) = le_bytes 4 (unat (bh_version h OR 0x80000000))" "take 32 (drop 4 ?b) = bh_prevhash h"
    "take 32 (drop 36 ?b) = bh_merkle h" "take 4 (drop 68 ?b) = le_bytes 4 (unat (bh_time h))"
    "take 4 (drop 72 ?b) = le_bytes 4 (unat (bh_nbits h))" "take 8 (drop 76 ?b) = bh_nonce h"
    "take 4 (drop 84 ?b) = drop 4 (bh_ntime h)" "take 12 (drop 92 ?b) = bh_extranonce h"
    "take 4 (drop 104 ?b) = take 4 (bh_ntime h)" "take 2 (drop 108 ?b) = le_bytes 2 (unat (bh_txcount h))"
    "take 16 (drop 112 ?b) = bh_xor_key h" "take 4 (drop 128 ?b) = le_bytes 4 (unat (bh_height h))"
    "take 32 (drop 132 ?b) = bh_rhs h" "?b ! 110 = bh_flags h" "?b ! 111 = bh_clear_bits h"
    unfolding b using assms(1) by (simp_all add: header_chunks_def header_ok_def nth_append)
  have "parse_block_header ?b = h\<lparr>bh_version := bh_version h OR 0x80000000\<rparr>"
    unfolding parse_block_header_def f
    using f(1,4,5,10,12) l by (simp add: upk_field)
  with l show ?thesis by simp
qed

definition ex_header :: block_header where
  "ex_header = \<lparr>bh_version = 0x20000000, bh_prevhash = replicate 32 1, bh_merkle = replicate 32 2, bh_time = 3,
     bh_nbits = 4, bh_nonce = replicate 8 5, bh_ntime = [0, 1, 2, 3, 4, 5, 6, 7], bh_extranonce = replicate 12 6, bh_txcount = 7,
     bh_flags = 4, bh_clear_bits = 9, bh_xor_key = replicate 16 10, bh_height = 840000, bh_rhs = replicate 32 11\<rparr>"

theorem serialize_parse_witness:
  "bh_ntime (parse_block_header (datum_blake2b_serialize_block_header (replicate 164 0) ex_header)) = [0, 1, 2, 3, 4, 5, 6, 7]"
  using serialize_parse [of ex_header "replicate 164 0"] by (simp add: header_ok_def) (simp add: ex_header_def)

section \<open>The commitment covers every field\<close>

definition fields_ok :: "header_fields \<Rightarrow> bool" where
  "fields_ok h \<longleftrightarrow> length (hf_prevhash h) = 32 \<and> length (hf_merkle h) = 32"

lemma reverse32_rev: "length xs = 32 \<Longrightarrow> datum_reverse32 xs = rev xs"
  by (rule nth_equalityI) (simp_all add: datum_reverse32_def rev_nth)

definition h1_chunks :: "header_fields \<Rightarrow> bytes \<Rightarrow> bytes list" where
  "h1_chunks h k = [le_bytes 4 (unat (hf_version h OR 0x80000000)), rev (hf_prevhash h), le_bytes 4 (unat (hf_height h)),
     hf_merkle h, le_bytes 4 (unat (hf_time h)), [0], le_bytes 4 (unat (hf_nbits h)), le_bytes 4 (unat (hf_txcount h)),
     [hf_flags h], [hf_clear_bits h], k]"

lemma h1_payload_chunks:
  assumes "fields_ok h" "length k = 32" "length buf = 119"
  shows "h1_payload h k buf = Some (concat (h1_chunks h k))"
proof -
  have l: "length (concat (h1_chunks h k)) = 119" using assms by (simp add: h1_chunks_def fields_ok_def)
  have "h1_payload h k buf = Some (write_all (h1_chunks h k) 0 buf)"
    using assms by (simp add: h1_payload_def Let_def h1_chunks_def fields_ok_def reverse32_rev
        sized_pk [where n = 119] sized_memcpy [where n = 119] del: length_memcpy)
  moreover have "write_all (h1_chunks h k) 0 buf = concat (h1_chunks h k)"
    using write_all_concat [of 0 "h1_chunks h k" buf] assms(3) l by simp
  ultimately show ?thesis by simp
qed

lemma le_bytes_inject: "le_bytes n a = le_bytes n b \<Longrightarrow> a < 256 ^ n \<Longrightarrow> b < 256 ^ n \<Longrightarrow> a = b"
  by (metis le_val_bytes mod_less)

lemma le_bytes4_inject: "le_bytes 4 (unat (v :: u32)) = le_bytes 4 (unat w) \<Longrightarrow> v = w"
  using le_bytes_inject [of 4 "unat v" "unat w"] unsigned_less [of v, where 'a = nat] unsigned_less [of w, where 'a = nat]
  by (simp add: word_unat_eq_iff)

lemma concat_same_lengths:
  "map length xss = map length yss \<Longrightarrow> concat xss = concat yss \<Longrightarrow> xss = yss"
proof (induction xss arbitrary: yss)
  case (Cons xs xss)
  then obtain ys yss' where "yss = ys # yss'" by (cases yss) auto
  with Cons show ?case by auto
qed simp

text \<open>C31: for buffers and fields of the sizes the code uses the hashed payload of the header commitment is built, and
  two payloads are equal exactly when the key hashes are equal and the headers agree on every field, the version
  compared with its top bit (the header-version flag the code forces on) set in both.\<close>

theorem h1_payload_injective:
  assumes ok: "fields_ok h" "fields_ok h'" "length k = 32" "length k' = 32" "length buf = 119" "length buf' = 119"
  shows "h1_payload h k buf \<noteq> None \<and>
    (h1_payload h k buf = h1_payload h' k' buf' \<longleftrightarrow>
      k = k' \<and> h\<lparr>hf_version := hf_version h OR 0x80000000\<rparr> = h'\<lparr>hf_version := hf_version h' OR 0x80000000\<rparr>)"
proof -
  have "map length (h1_chunks h k) = map length (h1_chunks h' k')"
    using ok by (simp add: h1_chunks_def fields_ok_def)
  then have "concat (h1_chunks h k) = concat (h1_chunks h' k') \<longleftrightarrow> h1_chunks h k = h1_chunks h' k'"
    by (metis concat_same_lengths)
  also have "\<dots> \<longleftrightarrow> k = k' \<and> h\<lparr>hf_version := hf_version h OR 0x80000000\<rparr> = h'\<lparr>hf_version := hf_version h' OR 0x80000000\<rparr>"
    unfolding h1_chunks_def list.inject by (cases h; cases h') (auto dest!: le_bytes4_inject)
  finally show ?thesis using ok by (simp add: h1_payload_chunks)
qed

definition ex_fields :: "u32 \<Rightarrow> header_fields" where
  "ex_fields t = \<lparr>hf_version = 0x20000000, hf_prevhash = replicate 32 1, hf_height = 2, hf_merkle = replicate 32 3, hf_time = t,
     hf_nbits = 4, hf_txcount = 5, hf_flags = 6, hf_clear_bits = 7\<rparr>"

theorem h1_payload_injective_witness:
  "h1_payload (ex_fields 1) (replicate 32 0) (replicate 119 0) \<noteq> None
    \<and> h1_payload (ex_fields 1) (replicate 32 0) (replicate 119 0) \<noteq> h1_payload (ex_fields 2) (replicate 32 0) (replicate 119 0)"
  using h1_payload_injective [of "ex_fields 1" "ex_fields 2" "replicate 32 0" "replicate 32 0" "replicate 119 0" "replicate 119 0"]
  by (simp add: fields_ok_def) (simp add: ex_fields_def)

section \<open>The mask leaves the leading bits alone\<close>

lemma fold_reverse_writes:
  "k \<le> n \<Longrightarrow> length z = n \<Longrightarrow> j < n \<Longrightarrow>
    fold (\<lambda>i h. h[n - 1 - i := f i]) [0..<k] z ! j = (if n - 1 - j < k then f (n - 1 - j) else z ! j)
    \<and> length (fold (\<lambda>i h. h[n - 1 - i := f i]) [0..<k] z) = n"
proof (induction k arbitrary: j)
  case (Suc k)
  then show ?case by (auto simp: nth_list_update)
qed simp

definition masked :: "bytes \<Rightarrow> bytes \<Rightarrow> bytes" where
  "masked hash msk = map (\<lambda>i. (hash ! i) XOR (msk ! i)) [0..<32]"

lemma pow_hash_rev:
  "datum_blake2b_pow_hash_le sha blake work xk c =
     map_option (\<lambda>hash. rev (masked hash (datum_blake2b_xor_key_mask sha xk c))) (blake (take 80 work))"
proof -
  let ?f = "\<lambda>hash i. (hash ! i) XOR (datum_blake2b_xor_key_mask sha xk c ! i)"
  have "fold (\<lambda>i h. h[31 - i := ?f hash i]) [0..<32] (replicate 32 0)
      = rev (masked hash (datum_blake2b_xor_key_mask sha xk c))" for hash
  proof (rule nth_equalityI)
    show "length (fold (\<lambda>i h. h[31 - i := ?f hash i]) [0..<32] (replicate 32 0)) = length (rev (masked hash (datum_blake2b_xor_key_mask sha xk c)))"
      using fold_reverse_writes [of 32 32 "replicate 32 0" 0 "?f hash"] by (simp add: masked_def)
    fix j assume "j < length (fold (\<lambda>i h. h[31 - i := ?f hash i]) [0..<32] (replicate 32 0))"
    then have j: "j < 32" using fold_reverse_writes [of 32 32 "replicate 32 0" 0 "?f hash"] by simp
    have "31 - j < 32" by linarith
    with j show "fold (\<lambda>i h. h[31 - i := ?f hash i]) [0..<32] (replicate 32 0) ! j = rev (masked hash (datum_blake2b_xor_key_mask sha xk c)) ! j"
      using fold_reverse_writes [of 32 32 "replicate 32 0" j "?f hash"] by (simp add: masked_def rev_nth)
  qed
  then show ?thesis
    by (simp add: datum_blake2b_pow_hash_le_def datum_blake2b_256_def Let_def option.case_eq_if map_option_case split: option.splits)
qed

text \<open>The leading \<open>c\<close> bits of a big-endian number, from its first bytes.\<close>

lemma leading_bits:
  fixes x :: bytes
  assumes l: "length x = 32" and c: "c < 256"
  shows "le_val (rev x) div 2 ^ (256 - c) = le_val (rev (take (c div 8) x)) * 2 ^ (c mod 8) + unat (x ! (c div 8)) div 2 ^ (8 - c mod 8)"
proof -
  let ?n = "c div 8" and ?r = "c mod 8"
  have n: "?n < 32" using c by (simp add: less_mult_imp_div_less)
  have "x = take ?n x @ x ! ?n # drop (Suc ?n) x" using l n by (intro id_take_nth_drop) simp
  then have "rev x = rev (drop (Suc ?n) x) @ x ! ?n # rev (take ?n x)"
    by (metis append.assoc append_Cons append_Nil rev.simps(2) rev_append)
  then have "le_val (rev x) = le_val (rev (drop (Suc ?n) x)) + 256 ^ (31 - ?n) * (unat (x ! ?n) + 256 * le_val (rev (take ?n x)))"
    using l n by (simp add: le_val_append)
  moreover have "le_val (rev (drop (Suc ?n) x)) < 256 ^ (31 - ?n)"
    using le_val_less [of "rev (drop (Suc ?n) x)"] l by simp
  ultimately have "le_val (rev x) div 256 ^ (31 - ?n) = unat (x ! ?n) + 256 * le_val (rev (take ?n x))" by simp
  moreover have "(2::nat) ^ (256 - c) = 256 ^ (31 - ?n) * 2 ^ (8 - ?r)"
  proof -
    have "256 - c = 8 * (31 - ?n) + (8 - ?r)" using n mult_div_mod_eq [of 8 c] mod_less_divisor [of 8 c] by linarith
    then have "(2::nat) ^ (256 - c) = 2 ^ (8 * (31 - ?n)) * 2 ^ (8 - ?r)" by (simp only: power_add)
    then show ?thesis by (simp only: power_mult) simp
  qed
  moreover have "(256::nat) = 2 ^ (8 - ?r) * 2 ^ ?r" by (simp flip: power_add)
  then have "(unat (x ! ?n) + 256 * le_val (rev (take ?n x))) div 2 ^ (8 - ?r) = unat (x ! ?n) div 2 ^ (8 - ?r) + 2 ^ ?r * le_val (rev (take ?n x))"
    using div_mult_self2 [of "2 ^ (8 - ?r)" "unat (x ! ?n)" "2 ^ ?r * le_val (rev (take ?n x))"]
    by (simp only: mult.assoc) simp
  ultimately have "le_val (rev x) div 2 ^ (256 - c) = unat (x ! ?n) div 2 ^ (8 - ?r) + 2 ^ ?r * le_val (rev (take ?n x))"
    by (simp only: div_mult2_eq)
  then show ?thesis by (simp only: mult.commute add.commute)
qed

lemma xor_low_bits:
  fixes a m :: u8
  assumes "r < 8"
  shows "unat (a XOR (m AND drop_bit r 0xff)) div 2 ^ (8 - r) = unat a div 2 ^ (8 - r)"
proof -
  have ff: "(0xff :: u8) = mask 8" by (simp add: mask_eq_exp_minus_1)
  have "drop_bit (8 - r) (a XOR (m AND drop_bit r 0xff)) = drop_bit (8 - r) a"
    unfolding ff using assms by (intro bit_word_eqI) (auto simp: bit_simps)
  then show ?thesis by (metis unat_drop_bit_div)
qed

lemma mask_leading:
  assumes sha: "\<forall>m. length (sha m) = 32"
  shows "length (datum_blake2b_xor_key_mask sha xk c) = 32"
    and "i < unat c div 8 \<Longrightarrow> datum_blake2b_xor_key_mask sha xk c ! i = 0"
    and "\<exists>m. datum_blake2b_xor_key_mask sha xk c ! (unat c div 8) = m AND drop_bit (unat c mod 8) 0xff"
proof -
  let ?n = "unat c div 8"
  have n: "?n < 32" using unat_u8_less [of c] by linarith
  let ?M = "datum_sha256_tagged sha ''Bitcoin block hash PoW XOR mask'' (take 16 xk)"
  let ?Z = "if ?n \<noteq> 0 then memset ?M 0 0 ?n else ?M"
  have lm: "length ?M = 32" using sha by (simp add: datum_sha256_tagged_def Let_def)
  have lz: "length ?Z = 32" using lm n by simp
  have mk: "datum_blake2b_xor_key_mask sha xk c = (if datum_xor_key_is_null xk then replicate 32 0 else ?Z[?n := ?Z ! ?n AND drop_bit (unat c mod 8) 0xff])"
    unfolding datum_blake2b_xor_key_mask_def Let_def using n by (simp only: if_True)
  show "length (datum_blake2b_xor_key_mask sha xk c) = 32" unfolding mk using lz by simp
  show "datum_blake2b_xor_key_mask sha xk c ! i = 0" if i: "i < ?n"
    unfolding mk using i n by (simp add: memset_def memcpy_def nth_append)
  show "\<exists>m. datum_blake2b_xor_key_mask sha xk c ! ?n = m AND drop_bit (unat c mod 8) 0xff"
  proof (cases "datum_xor_key_is_null xk")
    case True
    then show ?thesis unfolding mk using n by (intro exI [of _ 0]) simp
  next
    case False
    then show ?thesis unfolding mk using n lz by (intro exI [of _ "?Z ! ?n"]) (simp only: if_False nth_list_update_eq)
  qed
qed

text \<open>Masking the proof-of-work hash with the XOR key never touches its leading \<open>clear_bits\<close> bits, so the
  work a hash shows does not depend on the key up to that many bits; with the null key the hash is only
  byte-reversed.\<close>

theorem pow_hash_leading_bits:
  assumes sha: "\<forall>m. length (sha m) = 32" and blake: "blake (take 80 work) = Some hash" "length hash = 32"
  shows "\<exists>h. datum_blake2b_pow_hash_le sha blake work xor_key c = Some h \<and> length h = 32
    \<and> le_val h div 2 ^ (256 - unat c) = le_val (rev hash) div 2 ^ (256 - unat c)
    \<and> (datum_xor_key_is_null xor_key \<longrightarrow> h = rev hash)"
proof -
  let ?m = "datum_blake2b_xor_key_mask sha xor_key c" and ?n = "unat c div 8"
  let ?x = "masked hash ?m"
  have c: "unat c < 256" using unat_u8_less [of c] by simp
  then have n: "?n < 32" by (simp add: less_mult_imp_div_less)
  have lx: "length ?x = 32" by (simp add: masked_def)
  have "take ?n ?x = take ?n hash"
    using blake(2) n mask_leading(2) [OF sha] by (intro nth_equalityI) (auto simp: masked_def)
  moreover obtain m where "?m ! ?n = m AND drop_bit (unat c mod 8) 0xff" using mask_leading(3) [OF sha] by blast
  then have "unat (?x ! ?n) div 2 ^ (8 - unat c mod 8) = unat (hash ! ?n) div 2 ^ (8 - unat c mod 8)"
    using n xor_low_bits [of "unat c mod 8" "hash ! ?n" m] by (simp add: masked_def)
  ultimately have "le_val (rev ?x) div 2 ^ (256 - unat c) = le_val (rev hash) div 2 ^ (256 - unat c)"
    using leading_bits [OF lx c] leading_bits [OF blake(2) c] by simp
  moreover have "?x = hash" if "datum_xor_key_is_null xor_key"
    using that blake(2) by (intro nth_equalityI) (auto simp: masked_def datum_blake2b_xor_key_mask_def)
  ultimately show ?thesis using blake lx by (auto simp: pow_hash_rev)
qed

theorem pow_hash_leading_bits_witness:
  "\<exists>h. datum_blake2b_pow_hash_le (\<lambda>_. replicate 32 0xff) (\<lambda>_. Some (0x12 # replicate 31 0)) [] (replicate 16 7) 8 = Some h
     \<and> le_val h div 2 ^ 248 = 0x12"
proof -
  have "le_val (rev (0x12 # replicate 31 0)) div 2 ^ 248 = 0x12" by (simp add: le_val_append)
  then show ?thesis
    using pow_hash_leading_bits [of "\<lambda>_. replicate 32 0xff" "\<lambda>_. Some (0x12 # replicate 31 0)" "[]" "0x12 # replicate 31 0" "replicate 16 7" 8]
    by auto
qed

text \<open>The time field on the wire is the share's time, less the offset when the offset flag is set, and a
  share whose time does not fit 32 bits or lies before the offset is refused; nothing wraps.\<close>

theorem time_on_wire_value:
  "map_option unat (datum_blake2b_time_on_wire ntime offset flags) =
     (let t = int (unat ntime) - (if bit flags 2 then int (unat offset) else 0)
      in if 0 \<le> t \<and> t < 2 ^ 32 then Some (nat t) else None)"
proof -
  have f: "flags AND DATUM_BLAKE2B_USE_TIME_OFFSET \<noteq> 0 \<longleftrightarrow> bit flags 2"
    using and_exp_eq_0_iff_not_bit [of flags 2] by (simp add: DATUM_BLAKE2B_USE_TIME_OFFSET_def)
  have u: "unat (ucast t :: u32) = unat t" if "\<not> t > 0xFFFFFFFF" for t :: u64
    using that by (simp add: word_less_nat_alt unat_ucast_mod)
  show ?thesis
  proof (cases "bit flags 2")
    case True
    have "unat (ntime - offset) = unat ntime - unat offset" if "\<not> ntime < offset"
      using that by (simp add: unat_sub_if' word_less_nat_alt not_less)
    then show ?thesis using f True u [of "ntime - offset"]
      by (auto simp: datum_blake2b_time_on_wire_def Let_def word_less_nat_alt simp del: of_nat_unat)
  next
    case False
    then show ?thesis using f u [of ntime] by (auto simp: datum_blake2b_time_on_wire_def Let_def word_less_nat_alt simp del: of_nat_unat)
  qed
qed

end
