(* ===== verification/Double.thy ===== *)
theory Double
  imports Complex_Main Prelude "HOL-Library.Log_Nat"
begin

text \<open>
  IEEE 754 binary64 arithmetic, for the C type \<^verbatim>\<open>double\<close>: a finite value is the rational it
  denotes (zero without its sign), and every operation rounds its exact result to the nearest
  representable value, ties to even, with subnormal results and overflow to infinity. The conversion
  back to an integer truncates and is undefined (\<open>None\<close>) outside the range of the target. The lemmas
  bound the relative error of a rounding by \<open>2^-53\<close> and show that integers up to \<open>2^53\<close> are exact.
\<close>

section \<open>Rounding\<close>

definition pow2 :: "int \<Rightarrow> rat" where
  "pow2 e = (if 0 \<le> e then 2 ^ nat e else 1 / 2 ^ nat (- e))"

text \<open>The exponent of a positive rational: \<open>pow2 e \<le> x < pow2 (e + 1)\<close>.\<close>

definition exponent2 :: "rat \<Rightarrow> int" where
  "exponent2 x =
     (let (a, b) = quotient_of x;
          e = int (floorlog 2 (nat a)) - int (floorlog 2 (nat b))
      in if pow2 e \<le> x then e else e - 1)"

definition round_even :: "rat \<Rightarrow> int" where
  "round_even x =
     (let f = \<lfloor>x\<rfloor>; d = x - of_int f
      in if d < 1 / 2 then f else if d > 1 / 2 then f + 1 else if even f then f else f + 1)"

definition rnd_exp :: "rat \<Rightarrow> int" where
  "rnd_exp x = max (exponent2 \<bar>x\<bar>) (-1022) - 52"

definition rnd :: "rat \<Rightarrow> rat" where
  "rnd x = (if x = 0 then 0 else of_int (round_even (x / pow2 (rnd_exp x))) * pow2 (rnd_exp x))"

datatype dbl = Fin rat | PInf | NInf | NaN

definition dbl_of :: "rat \<Rightarrow> dbl" where
  "dbl_of x = (let r = rnd x in if r \<ge> 2 ^ 1024 then PInf else if r \<le> - (2 ^ 1024) then NInf else Fin r)"

section \<open>Operations\<close>

fun dneg :: "dbl \<Rightarrow> dbl" where
  "dneg (Fin x) = Fin (- x)"
| "dneg PInf = NInf"
| "dneg NInf = PInf"
| "dneg NaN = NaN"

fun dadd :: "dbl \<Rightarrow> dbl \<Rightarrow> dbl" where
  "dadd (Fin x) (Fin y) = dbl_of (x + y)"
| "dadd NaN _ = NaN"
| "dadd _ NaN = NaN"
| "dadd PInf NInf = NaN"
| "dadd NInf PInf = NaN"
| "dadd PInf _ = PInf"
| "dadd _ PInf = PInf"
| "dadd NInf _ = NInf"
| "dadd _ NInf = NInf"

definition inf_of_sign :: "rat \<Rightarrow> dbl" where
  "inf_of_sign s = (if s = 0 then NaN else if s > 0 then PInf else NInf)"

fun dmul :: "dbl \<Rightarrow> dbl \<Rightarrow> dbl" where
  "dmul (Fin x) (Fin y) = dbl_of (x * y)"
| "dmul NaN _ = NaN"
| "dmul _ NaN = NaN"
| "dmul (Fin x) PInf = inf_of_sign x"
| "dmul (Fin x) NInf = inf_of_sign (- x)"
| "dmul PInf (Fin x) = inf_of_sign x"
| "dmul NInf (Fin x) = inf_of_sign (- x)"
| "dmul PInf PInf = PInf"
| "dmul NInf NInf = PInf"
| "dmul PInf NInf = NInf"
| "dmul NInf PInf = NInf"

text \<open>Division by zero takes the zero as positive.\<close>

fun ddiv :: "dbl \<Rightarrow> dbl \<Rightarrow> dbl" where
  "ddiv (Fin x) (Fin y) = (if y = 0 then inf_of_sign x else dbl_of (x / y))"
| "ddiv NaN _ = NaN"
| "ddiv _ NaN = NaN"
| "ddiv (Fin _) PInf = Fin 0"
| "ddiv (Fin _) NInf = Fin 0"
| "ddiv PInf (Fin x) = (if x < 0 then NInf else PInf)"
| "ddiv NInf (Fin x) = (if x < 0 then PInf else NInf)"
| "ddiv PInf PInf = NaN"
| "ddiv PInf NInf = NaN"
| "ddiv NInf PInf = NaN"
| "ddiv NInf NInf = NaN"

fun dlt :: "dbl \<Rightarrow> dbl \<Rightarrow> bool" where
  "dlt (Fin x) (Fin y) = (x < y)"
| "dlt NaN _ = False"
| "dlt _ NaN = False"
| "dlt NInf y = (y \<noteq> NInf)"
| "dlt (Fin _) PInf = True"
| "dlt (Fin _) NInf = False"
| "dlt PInf _ = False"

definition dle :: "dbl \<Rightarrow> dbl \<Rightarrow> bool" where
  "dle x y \<longleftrightarrow> x \<noteq> NaN \<and> y \<noteq> NaN \<and> (dlt x y \<or> x = y)"

definition of_u64 :: "u64 \<Rightarrow> dbl" where
  "of_u64 n = dbl_of (of_nat (unat n))"

definition to_u64 :: "dbl \<Rightarrow> u64 option" where
  "to_u64 d = (case d of
     Fin x \<Rightarrow> if -1 < x \<and> x < 2 ^ 64 then Some (word_of_int (if x < 0 then 0 else \<lfloor>x\<rfloor>)) else None
   | _ \<Rightarrow> None)"

section \<open>Powers of two\<close>

lemma pow2_pos [simp]: "0 < pow2 e" by (simp add: pow2_def)

lemma pow2_nonzero [simp]: "pow2 e \<noteq> 0" using pow2_pos [of e] by linarith

lemma pow2_nonneg [simp]: "0 \<le> pow2 e" "\<bar>pow2 e\<bar> = pow2 e" using pow2_pos [of e] by linarith+

lemma pow2_add: "pow2 (a + b) = pow2 a * pow2 b"
proof -
  have suc: "pow2 (e + 1) = 2 * pow2 e" for e
  proof (cases "0 \<le> e")
    case True
    then have "nat (e + 1) = Suc (nat e)" by simp
    with True show ?thesis by (simp add: pow2_def)
  next
    case False
    then have "nat (- e) = Suc (nat (- (e + 1)))" by simp
    with False show ?thesis by (cases "e = -1") (simp_all add: pow2_def)
  qed
  have nn: "pow2 (a + int n) = pow2 a * 2 ^ n" for a n
  proof (induction n)
    case (Suc n)
    then show ?case using suc [of "a + int n"] by (simp add: add.assoc) (simp add: add.commute)
  qed simp
  show ?thesis
  proof (cases "0 \<le> b")
    case True
    then show ?thesis using nn [of a "nat b"] by (simp add: pow2_def)
  next
    case False
    then show ?thesis using nn [of "a + b" "nat (- b)"] by (simp add: pow2_def)
  qed
qed

lemma pow2_mono: "a \<le> b \<Longrightarrow> pow2 a \<le> pow2 b"
proof -
  assume "a \<le> b"
  then have "pow2 b = pow2 a * 2 ^ nat (b - a)" using pow2_add [of a "b - a"] by (simp add: pow2_def)
  moreover have "pow2 a * 1 \<le> pow2 a * 2 ^ nat (b - a)" using pow2_pos [of a] by (intro mult_left_mono) simp_all
  ultimately show ?thesis by simp
qed

lemma pow2_nat [simp]: "pow2 (int n) = 2 ^ n" by (simp add: pow2_def)

lemma pow2_0 [simp]: "pow2 0 = 1" by (simp add: pow2_def)

lemma exponent2_bounds:
  assumes "0 < x"
  shows "pow2 (exponent2 x) \<le> x \<and> x < pow2 (exponent2 x + 1)"
proof -
  obtain a b where q: "quotient_of x = (a, b)" by (cases "quotient_of x")
  have b: "0 < b" using q by (rule quotient_of_denom_pos)
  have x: "x = of_int a / of_int b" using q by (rule quotient_of_div)
  then have a: "0 < a" using assms b by (simp add: zero_less_divide_iff)
  let ?la = "floorlog 2 (nat a)" and ?lb = "floorlog 2 (nat b)"
  have la: "2 ^ (?la - 1) \<le> nat a" "nat a < 2 ^ ?la" "0 < ?la"
    using floorlog_bounds [of "nat a" 2] a by (simp_all add: floorlog_def)
  have lb: "2 ^ (?lb - 1) \<le> nat b" "nat b < 2 ^ ?lb" "0 < ?lb"
    using floorlog_bounds [of "nat b" 2] b by (simp_all add: floorlog_def)
  have ra: "(2::rat) ^ (?la - 1) \<le> of_int a" "of_int a < (2::rat) ^ ?la"
    using la(1,2) a by (metis of_nat_le_iff of_nat_numeral of_nat_power of_int_of_nat_eq nat_0_le less_imp_le,
      metis of_nat_less_iff of_nat_numeral of_nat_power of_int_of_nat_eq nat_0_le less_imp_le)
  have rb: "(2::rat) ^ (?lb - 1) \<le> of_int b" "of_int b < (2::rat) ^ ?lb"
    using lb(1,2) b by (metis of_nat_le_iff of_nat_numeral of_nat_power of_int_of_nat_eq nat_0_le less_imp_le,
      metis of_nat_less_iff of_nat_numeral of_nat_power of_int_of_nat_eq nat_0_le less_imp_le)
  define e where "e = int ?la - int ?lb"
  have pb: "(0::rat) < of_int b" "(0::rat) < 2 ^ ?lb" using b by simp_all
  have lo: "pow2 (e - 1) \<le> x"
  proof -
    have "pow2 (e - 1) * 2 ^ ?lb = 2 ^ (?la - 1)"
      using pow2_add [of "e - 1" "int ?lb"] la(3) pow2_nat [of "?la - 1"] by (simp add: e_def of_nat_diff)
    then have "pow2 (e - 1) * of_int b \<le> of_int a"
      using ra(1) rb(2) mult_left_mono [of "of_int b" "2 ^ ?lb" "pow2 (e - 1)"] pow2_pos [of "e - 1"] by linarith
    then show ?thesis unfolding x using pb by (simp add: pos_le_divide_eq)
  qed
  have hi: "x < pow2 (e + 1)"
  proof -
    have "pow2 (e + 1) * 2 ^ (?lb - 1) = 2 ^ ?la"
      using pow2_add [of "e + 1" "int (?lb - 1)"] lb(3) pow2_nat [of ?la] pow2_nat [of "?lb - 1"] by (simp add: e_def of_nat_diff)
    then have "of_int a < pow2 (e + 1) * of_int b"
      using ra(2) rb(1) mult_left_mono [of "2 ^ (?lb - 1)" "of_int b" "pow2 (e + 1)"] pow2_pos [of "e + 1"] by linarith
    then show ?thesis unfolding x using pb by (simp add: pos_divide_less_eq)
  qed
  have "exponent2 x = (if pow2 e \<le> x then e else e - 1)" using q by (simp add: exponent2_def e_def)
  then show ?thesis using lo hi by auto
qed

section \<open>The error of a rounding\<close>

lemma round_even_error: "\<bar>of_int (round_even x) - x\<bar> \<le> 1 / 2"
proof -
  have "of_int \<lfloor>x\<rfloor> \<le> x" "x < of_int \<lfloor>x\<rfloor> + 1" by linarith+
  then show ?thesis by (auto simp: round_even_def Let_def)
qed

lemma round_even_int [simp]: "round_even (of_int n) = n"
  by (simp add: round_even_def)

lemma rnd_0 [simp]: "rnd 0 = 0" by (simp add: rnd_def)

lemma rnd_abs_error: "x \<noteq> 0 \<Longrightarrow> \<bar>rnd x - x\<bar> \<le> pow2 (rnd_exp x) / 2"
proof -
  assume x: "x \<noteq> 0"
  let ?u = "pow2 (rnd_exp x)"
  have "rnd x - x = (of_int (round_even (x / ?u)) - x / ?u) * ?u"
    using x by (simp add: rnd_def left_diff_distrib)
  then have "\<bar>rnd x - x\<bar> = \<bar>of_int (round_even (x / ?u)) - x / ?u\<bar> * ?u" by (simp add: abs_mult)
  also have "\<dots> \<le> 1 / 2 * ?u" by (intro mult_right_mono round_even_error less_imp_le pow2_pos)
  finally show ?thesis by simp
qed

definition eps :: rat where
  "eps = 1 / 2 ^ 53"

lemma pow2_52: "pow2 (-52) / 2 = eps"
  by (simp add: pow2_def eps_def)

text \<open>In the normal range the relative error is at most \<open>eps\<close>.\<close>

lemma rnd_rel_error:
  assumes "pow2 (-1022) \<le> \<bar>x\<bar>"
  shows "\<bar>rnd x - x\<bar> \<le> eps * \<bar>x\<bar>"
proof -
  have x: "0 < \<bar>x\<bar>" using assms pow2_pos [of "-1022"] by linarith
  then have x0: "x \<noteq> 0" by simp
  note e = exponent2_bounds [OF x]
  have "\<not> exponent2 \<bar>x\<bar> + 1 \<le> -1022"
    using pow2_mono [of "exponent2 \<bar>x\<bar> + 1" "-1022"] e assms by linarith
  then have "rnd_exp x = exponent2 \<bar>x\<bar> + (-52)" by (simp add: rnd_exp_def)
  then have "pow2 (rnd_exp x) / 2 = pow2 (exponent2 \<bar>x\<bar>) * eps" by (simp only: pow2_add pow2_52 [symmetric] times_divide_eq_right)
  also have "\<dots> \<le> \<bar>x\<bar> * eps" using e by (intro mult_right_mono) (simp_all add: eps_def)
  finally show ?thesis using rnd_abs_error [OF x0] by (simp add: mult.commute)
qed

lemma rnd_bounds:
  assumes "pow2 (-1022) \<le> x"
  shows "(1 - eps) * x \<le> rnd x" "rnd x \<le> (1 + eps) * x" "0 < rnd x"
proof -
  have x: "0 < x" using assms pow2_pos [of "-1022"] by linarith
  have "\<bar>rnd x - x\<bar> \<le> eps * x" using rnd_rel_error [of x] assms x by simp
  then show lo: "(1 - eps) * x \<le> rnd x" and "rnd x \<le> (1 + eps) * x" by (auto simp: algebra_simps abs_le_iff)
  have "0 < (1 - eps) * x" using x by (simp add: eps_def)
  with lo show "0 < rnd x" by linarith
qed

lemma rnd_nat_exact:
  assumes "n < 2 ^ 53"
  shows "rnd (of_nat n) = of_nat n"
proof (cases "n = 0")
  case False
  let ?x = "of_nat n :: rat" and ?e = "exponent2 (of_nat n)"
  have x: "0 < ?x" using False by simp
  note e = exponent2_bounds [OF x]
  have "0 \<le> ?e"
  proof (rule ccontr)
    assume "\<not> 0 \<le> ?e"
    then have "?x < pow2 0" using e pow2_mono [of "?e + 1" 0] by linarith
    then show False using False by simp
  qed
  moreover have "?e < 53"
  proof (rule ccontr)
    assume "\<not> ?e < 53"
    then have "pow2 (int 53) \<le> ?x" using e pow2_mono [of 53 ?e] by simp
    then have "(2::rat) ^ 53 \<le> of_nat n" by (simp only: pow2_nat)
    then have "(2::nat) ^ 53 \<le> n" by (metis of_nat_le_iff of_nat_numeral of_nat_power)
    then show False using assms by simp
  qed
  ultimately have r: "rnd_exp ?x = - int (nat (52 - ?e))" by (simp add: rnd_exp_def)
  have "?x / pow2 (rnd_exp ?x) = of_int (int n * 2 ^ nat (52 - ?e))"
    unfolding r by (cases "nat (52 - ?e) = 0") (simp_all add: pow2_def)
  then have "rnd ?x = of_int (int n * 2 ^ nat (52 - ?e)) * pow2 (rnd_exp ?x)"
    using False by (simp only: rnd_def round_even_int) simp
  also have "\<dots> = ?x" unfolding r by (cases "nat (52 - ?e) = 0") (simp_all add: pow2_def)
  finally show ?thesis .
qed simp

lemma dbl_of_Fin: "\<bar>rnd x\<bar> < 2 ^ 1024 \<Longrightarrow> dbl_of x = Fin (rnd x)"
  by (auto simp: dbl_of_def Let_def abs_less_iff)

lemma dbl_of_nat: "n < 2 ^ 53 \<Longrightarrow> dbl_of (of_nat n) = Fin (of_nat n)"
proof -
  assume n: "n < 2 ^ 53"
  then have "(of_nat n :: rat) < 2 ^ 53" by (metis of_nat_less_iff of_nat_numeral of_nat_power)
  moreover have "(2::rat) ^ 53 \<le> 2 ^ 1024" by (rule power_increasing) simp_all
  ultimately have "\<bar>rnd (of_nat n)\<bar> < 2 ^ 1024" unfolding rnd_nat_exact [OF n] by linarith
  then show ?thesis using rnd_nat_exact [OF n] by (simp only: dbl_of_Fin)
qed

lemma dbl_of_numeral: "numeral k < (2::nat) ^ 53 \<Longrightarrow> dbl_of (numeral k) = Fin (numeral k)"
  using dbl_of_nat [of "numeral k"] by simp

lemma dbl_of_one: "dbl_of 1 = Fin 1"
  using dbl_of_nat [of 1] by simp

lemma of_u64_exact: "unat n < 2 ^ 53 \<Longrightarrow> of_u64 n = Fin (of_nat (unat n))"
  unfolding of_u64_def by (rule dbl_of_nat)

lemma to_u64_value:
  assumes "0 \<le> x" "x < 2 ^ 64"
  shows "\<exists>n. to_u64 (Fin x) = Some n \<and> of_nat (unat n) \<le> x \<and> x < of_nat (unat n) + 1"
proof -
  have "0 \<le> \<lfloor>x\<rfloor>" "\<lfloor>x\<rfloor> < 2 ^ 64" using assms by (simp_all add: floor_less_iff)
  then have "int (unat (word_of_int \<lfloor>x\<rfloor> :: u64)) = \<lfloor>x\<rfloor>" by (simp add: unsigned_of_int take_bit_int_eq_self)
  then have "of_nat (unat (word_of_int \<lfloor>x\<rfloor> :: u64)) = (of_int \<lfloor>x\<rfloor> :: rat)" by (metis of_int_of_nat_eq)
  moreover have "to_u64 (Fin x) = Some (word_of_int \<lfloor>x\<rfloor>)" using assms by (simp add: to_u64_def)
  moreover have "of_int \<lfloor>x\<rfloor> \<le> x" "x < of_int \<lfloor>x\<rfloor> + 1" by linarith+
  ultimately show ?thesis by auto
qed

end
