(* ===== verification/Chirp.thy ===== *)
theory Chirp
  imports Double Hex
begin

text \<open>
  The CHIRP payout engine, \<^verbatim>\<open>src/src/datum_chirp.c\<close>: the registry of miners with their tenure
  and the work of the last day, the candidates and their weights, the weighted draw and the split of a
  block reward. Addresses are their characters before the terminating zero. The results of malloc and
  realloc are arguments (\<open>alloc n\<close> tells whether a block of \<open>n\<close> elements is granted), and so are the
  libm function \<^verbatim>\<open>pow\<close>, \<^verbatim>\<open>atof\<close>, the environment and \<^verbatim>\<open>qsort\<close>.
  \<open>None\<close> stands for undefined behaviour of the C code.
\<close>

definition CHIRP_WINDOW_SECS :: u64 where "CHIRP_WINDOW_SECS = 24 * 3600"
definition CHIRP_DAYS_FULL :: dbl where "CHIRP_DAYS_FULL = Fin 30"
definition CHIRP_POWER_FULL :: dbl where "CHIRP_POWER_FULL = Fin 2000000000"
definition CHIRP_MAX_N :: nat where "CHIRP_MAX_N = 490"
definition CHIRP_OUTPUT_BUDGET_BYTES :: nat where "CHIRP_OUTPUT_BUDGET_BYTES = 14800"
definition CHIRP_MIN_PAYOUT_SATS :: u64 where "CHIRP_MIN_PAYOUT_SATS = 1000"
definition CHIRP_ACTIVE_GAP_CAP :: u64 where "CHIRP_ACTIVE_GAP_CAP = 3600"
definition CHIRP_ADDR_MAX :: nat where "CHIRP_ADDR_MAX = 128"

section \<open>The registry\<close>

record chirp_share =
  ts :: u64
  work :: dbl

record chirp_miner =
  m_addr :: string
  first_seen :: u64
  last_seen :: u64
  active_secs :: dbl
  shares :: "chirp_share list"
  cap_shares :: nat

text \<open>The list holds the first \<open>n\<close> entries of the array; \<open>cap\<close> is its capacity.\<close>

record chirp_registry =
  miners :: "chirp_miner list"
  cap :: nat

type_synonym alloc = "nat \<Rightarrow> bool"

definition chirp_init :: chirp_registry where
  "chirp_init = \<lparr>miners = [], cap = 0\<rparr>"

definition same_addr :: "string \<Rightarrow> string \<Rightarrow> bool" where
  "same_addr a b \<longleftrightarrow> take (CHIRP_ADDR_MAX - 1) a = take (CHIRP_ADDR_MAX - 1) b"

fun find_addr :: "chirp_miner list \<Rightarrow> string \<Rightarrow> nat \<Rightarrow> nat option" where
  "find_addr [] addr i = None"
| "find_addr (m # ms) addr i = (if same_addr (m_addr m) addr then Some i else find_addr ms addr (Suc i))"

definition new_miner :: "string \<Rightarrow> u64 \<Rightarrow> chirp_miner" where
  "new_miner addr now = \<lparr>m_addr = take (CHIRP_ADDR_MAX - 1) addr, first_seen = now, last_seen = 0,
     active_secs = Fin 0, shares = [], cap_shares = 0\<rparr>"

text \<open>The position of the miner of an address, added if new; \<open>None\<close> when the array cannot grow.\<close>

definition find_or_add :: "alloc \<Rightarrow> chirp_registry \<Rightarrow> string \<Rightarrow> u64 \<Rightarrow> (nat \<times> chirp_registry) option" where
  "find_or_add alloc r addr now =
     (case find_addr (miners r) addr 0 of
        Some i \<Rightarrow> Some (i, r)
      | None \<Rightarrow>
          (let ncap = (if cap r \<noteq> 0 then cap r * 2 else 16)
           in if length (miners r) = cap r \<and> \<not> alloc ncap then None
              else Some (length (miners r),
                         r\<lparr>miners := miners r @ [new_miner addr now],
                           cap := (if length (miners r) = cap r then ncap else cap r)\<rparr>)))"

definition window_cutoff :: "u64 \<Rightarrow> u64" where
  "window_cutoff now = (if now > CHIRP_WINDOW_SECS then now - CHIRP_WINDOW_SECS else 0)"

text \<open>The pruning loop with its write position \<open>w\<close> and running sum; shares are moved down in place.\<close>

fun window_loop :: "u64 \<Rightarrow> nat \<Rightarrow> nat \<Rightarrow> nat \<Rightarrow> chirp_share list \<Rightarrow> dbl \<Rightarrow> nat \<times> chirp_share list \<times> dbl" where
  "window_loop cutoff 0 i w ss acc = (w, ss, acc)"
| "window_loop cutoff (Suc k) i w ss acc =
     (if ts (ss ! i) \<ge> cutoff
      then let ss' = ss[w := ss ! i] in window_loop cutoff k (Suc i) (Suc w) ss' (dadd acc (work (ss' ! i)))
      else window_loop cutoff k (Suc i) w ss acc)"

definition window_work :: "chirp_miner \<Rightarrow> u64 \<Rightarrow> dbl \<times> chirp_miner" where
  "window_work m now =
     (let (w, ss, acc) = window_loop (window_cutoff now) (length (shares m)) 0 0 (shares m) (Fin 0)
      in (acc, m\<lparr>shares := take w ss\<rparr>))"

definition credit_tenure :: "chirp_miner \<Rightarrow> u64 \<Rightarrow> chirp_miner" where
  "credit_tenure m now =
     (let gap = (if now > last_seen m then now - last_seen m else 0);
          m = (if last_seen m \<noteq> 0 \<and> gap < CHIRP_ACTIVE_GAP_CAP
               then m\<lparr>active_secs := dadd (active_secs m) (of_u64 gap)\<rparr> else m)
      in m\<lparr>last_seen := now\<rparr>)"

definition push_share :: "alloc \<Rightarrow> chirp_miner \<Rightarrow> dbl \<Rightarrow> u64 \<Rightarrow> chirp_miner" where
  "push_share alloc m wk now =
     (let ncap = (if cap_shares m \<noteq> 0 then cap_shares m * 2 else 32)
      in if length (shares m) = cap_shares m \<and> \<not> alloc ncap then m
         else m\<lparr>shares := shares m @ [\<lparr>ts = now, work = wk\<rparr>],
                cap_shares := (if length (shares m) = cap_shares m then ncap else cap_shares m)\<rparr>)"

definition chirp_record_share :: "alloc \<Rightarrow> chirp_registry \<Rightarrow> string \<Rightarrow> dbl \<Rightarrow> u64 \<Rightarrow> chirp_registry" where
  "chirp_record_share alloc r addr wk now =
     (case find_or_add alloc r addr now of
        None \<Rightarrow> r
      | Some (i, r) \<Rightarrow>
          r\<lparr>miners := (miners r)[i := push_share alloc (credit_tenure (miners r ! i) now) wk now]\<rparr>)"

section \<open>Candidates\<close>

type_synonym env = "string \<Rightarrow> string option"

definition chirp_env_or :: "env \<Rightarrow> (string \<Rightarrow> dbl) \<Rightarrow> string \<Rightarrow> dbl \<Rightarrow> dbl" where
  "chirp_env_or getenv atof name dflt =
     (case getenv name of Some e \<Rightarrow> if e \<noteq> [] then atof e else dflt | None \<Rightarrow> dflt)"

record chirp_cand =
  c_addr :: string
  weight :: dbl
  c_active_secs :: dbl
  c_power :: dbl

definition clamp1 :: "dbl \<Rightarrow> dbl" where
  "clamp1 x = (if dlt (Fin 1) x then Fin 1 else x)"

definition make_cand :: "dbl \<Rightarrow> dbl \<Rightarrow> chirp_miner \<Rightarrow> dbl \<Rightarrow> dbl \<Rightarrow> chirp_cand" where
  "make_cand days_full power_full m days pwr =
     (let dn = clamp1 (ddiv days days_full);
          pn = clamp1 (ddiv pwr power_full)
      in \<lparr>c_addr = take (CHIRP_ADDR_MAX - 1) (m_addr m), weight = ddiv (dadd dn pn) (Fin 2),
          c_active_secs = active_secs m, c_power = pwr\<rparr>)"

text \<open>The loop returns the candidates and the miners, those it visited pruned.\<close>

fun cand_loop :: "u64 \<Rightarrow> dbl \<Rightarrow> dbl \<Rightarrow> dbl \<Rightarrow> dbl \<Rightarrow> nat \<Rightarrow> chirp_miner list \<Rightarrow> chirp_cand list \<times> chirp_miner list" where
  "cand_loop now days_full power_full min_days min_power room [] = ([], [])"
| "cand_loop now days_full power_full min_days min_power room (m # ms) =
     (if room = 0 then ([], m # ms)
      else let days = ddiv (active_secs m) (Fin 86400);
               (pwr, m) = window_work m now
           in if dlt days min_days \<or> dlt pwr min_power
              then let (cs, ms) = cand_loop now days_full power_full min_days min_power room ms in (cs, m # ms)
              else let (cs, ms) = cand_loop now days_full power_full min_days min_power (room - 1) ms
                   in (make_cand days_full power_full m days pwr # cs, m # ms))"

definition chirp_candidates ::
  "env \<Rightarrow> (string \<Rightarrow> dbl) \<Rightarrow> chirp_registry \<Rightarrow> u64 \<Rightarrow> dbl \<Rightarrow> dbl \<Rightarrow> nat \<Rightarrow> chirp_cand list \<times> chirp_registry" where
  "chirp_candidates getenv atof r now min_days min_power max_out =
     (let days_full = chirp_env_or getenv atof ''CHIRP_DAYS_FULL'' CHIRP_DAYS_FULL;
          power_full = chirp_env_or getenv atof ''CHIRP_POWER_FULL'' CHIRP_POWER_FULL;
          days_full = (if dle days_full (Fin 0) then CHIRP_DAYS_FULL else days_full);
          power_full = (if dle power_full (Fin 0) then CHIRP_POWER_FULL else power_full);
          (cs, ms) = cand_loop now days_full power_full min_days min_power max_out (miners r)
      in (cs, r\<lparr>miners := ms\<rparr>))"

definition chirp_member_stats :: "chirp_miner \<Rightarrow> u64 \<Rightarrow> dbl \<times> dbl \<times> chirp_miner" where
  "chirp_member_stats m now =
     (let days = ddiv (active_secs m) (Fin 86400); (pwr, m) = window_work m now in (days, pwr, m))"

section \<open>The draw\<close>

definition fnv_step :: "u64 \<Rightarrow> char \<Rightarrow> u64" where
  "fnv_step h c = (h XOR ucast (byte_of c)) * 0x00000100000001b3"

definition chirp_u01 :: "u64 \<Rightarrow> string \<Rightarrow> dbl" where
  "chirp_u01 seed addr =
     (let h = foldl fnv_step (0xcbf29ce484222325 XOR seed) addr;
          h = h XOR drop_bit 30 h; h = h * 0xbf58476d1ce4e5b9;
          h = h XOR drop_bit 27 h; h = h * 0x94d049bb133111eb;
          h = h XOR drop_bit 31 h;
          v = ddiv (of_u64 h) (of_u64 0xFFFFFFFFFFFFFFFF);
          v = (if dlt v (dbl_of (1 / 10 ^ 12)) then dbl_of (1 / 10 ^ 12) else v)
      in if dlt (Fin 1) v then Fin 1 else v)"

type_synonym keyed = "dbl \<times> chirp_cand"

definition keyed_cmp_desc :: "keyed \<Rightarrow> keyed \<Rightarrow> int" where
  "keyed_cmp_desc a b = (if dlt (fst a) (fst b) then 1 else if dlt (fst b) (fst a) then -1 else 0)"

definition keyed_of :: "(dbl \<Rightarrow> dbl \<Rightarrow> dbl) \<Rightarrow> u64 \<Rightarrow> chirp_cand \<Rightarrow> keyed" where
  "keyed_of powf seed c = (powf (chirp_u01 seed (c_addr c)) (ddiv (Fin 1) (weight c)), c)"

definition chirp_weighted_draw ::
  "keyed qsort \<Rightarrow> (dbl \<Rightarrow> dbl \<Rightarrow> dbl) \<Rightarrow> alloc \<Rightarrow> chirp_cand list \<Rightarrow> u64 \<Rightarrow> nat \<Rightarrow> chirp_cand list" where
  "chirp_weighted_draw qs powf alloc cands seed n =
     (if \<not> alloc (length cands) then []
      else let kd = map (keyed_of powf seed) (filter (\<lambda>c. \<not> dle (weight c) (Fin 0)) cands);
               kd = qs keyed_cmp_desc kd;
               n_take = (if length kd < n then length kd else n)
           in map snd (take n_take kd))"

section \<open>The split\<close>

definition has_prefix :: "string \<Rightarrow> string \<Rightarrow> bool" where
  "has_prefix p s \<longleftrightarrow> take (length p) s = p"

definition chirp_output_bytes :: "string \<Rightarrow> nat" where
  "chirp_output_bytes addr =
     (let l = length addr;
          script = (if l > 4 \<and> has_prefix ''bc1q'' addr then (if l \<le> 44 then 22 else 34)
                    else if l > 4 \<and> has_prefix ''bc1p'' addr then 34
                    else if l > 0 \<and> addr ! 0 = CHR ''1'' then 25
                    else if l > 0 \<and> addr ! 0 = CHR ''3'' then 23
                    else 34)
      in 9 + script)"

fun fit_budget :: "nat \<Rightarrow> chirp_cand list \<Rightarrow> chirp_cand list" where
  "fit_budget used [] = []"
| "fit_budget used (c # cs) =
     (let b = chirp_output_bytes (c_addr c)
      in if used + b > CHIRP_OUTPUT_BUDGET_BYTES then [] else c # fit_budget (used + b) cs)"

record chirp_payout =
  p_addr :: string
  sats :: u64

fun split_loop :: "u64 \<Rightarrow> dbl \<Rightarrow> chirp_cand list \<Rightarrow> u64 \<Rightarrow> (chirp_payout list \<times> u64) option" where
  "split_loop distributable total_w [] assigned = Some ([], assigned)"
| "split_loop distributable total_w (c # cs) assigned =
     (case to_u64 (dmul (of_u64 distributable) (ddiv (weight c) total_w)) of
        None \<Rightarrow> None
      | Some amt \<Rightarrow>
          if amt \<ge> CHIRP_MIN_PAYOUT_SATS
          then map_option (\<lambda>(ps, a). (\<lparr>p_addr = take (CHIRP_ADDR_MAX - 1) (c_addr c), sats = amt\<rparr> # ps, a))
                 (split_loop distributable total_w cs (assigned + amt))
          else split_loop distributable total_w cs assigned)"

text \<open>
  The fee is computed in 128 bits. The array of winners is not checked: when it is not granted, copying a
  winner into it is undefined.
\<close>

definition base_fee_of :: "u64 \<Rightarrow> u16 \<Rightarrow> u64" where
  "base_fee_of total_value fee_bps = word_of_nat (unat total_value * unat fee_bps div 10000)"

definition chirp_split ::
  "keyed qsort \<Rightarrow> (dbl \<Rightarrow> dbl \<Rightarrow> dbl) \<Rightarrow> alloc \<Rightarrow> alloc \<Rightarrow> chirp_cand list \<Rightarrow> u64 \<Rightarrow> u16 \<Rightarrow> u64
     \<Rightarrow> (chirp_payout list \<times> u64) option" where
  "chirp_split qs powf alloc_w alloc_k cands total_value fee_bps seed =
     (let base_fee = base_fee_of total_value fee_bps;
          distributable = (if total_value > base_fee then total_value - base_fee else 0);
          winners = chirp_weighted_draw qs powf alloc_k cands seed CHIRP_MAX_N
      in if \<not> alloc_w (if cands = [] then 1 else length cands) \<and> winners \<noteq> [] then None
         else let winners = fit_budget 0 winners;
                  total_w = foldl (\<lambda>s c. dadd s (weight c)) (Fin 0) winners
              in if winners = [] \<or> dle total_w (Fin 0) then Some ([], total_value)
                 else map_option (\<lambda>(ps, assigned). (ps, if total_value > assigned then total_value - assigned else 0))
                        (split_loop distributable total_w winners 0))"

section \<open>The address of a user name\<close>

definition chirp_payout_address :: "string \<Rightarrow> nat \<Rightarrow> string" where
  "chirp_payout_address user_identity outsz =
     (let s = (if has_prefix ''sri.lotto.'' user_identity then drop 10 user_identity else user_identity)
      in take (outsz - 1) (takeWhile (\<lambda>c. c \<noteq> CHR ''.'') s))"

section \<open>Rounding errors of the split\<close>

definition wq :: "chirp_cand \<Rightarrow> rat" where
  "wq c = (case weight c of Fin q \<Rightarrow> q | _ \<Rightarrow> 0)"

text \<open>A weight the split is analysed for: a finite double that is not absurdly small.\<close>

definition weight_ok :: "chirp_cand \<Rightarrow> bool" where
  "weight_ok c \<longleftrightarrow> weight c = Fin (wq c) \<and> 1 / 2 ^ 100 \<le> wq c \<and> wq c \<le> 2"

lemma eps_bounds: "0 < eps" "eps < 1" by (simp_all add: eps_def)

lemma pow2_m1022: "pow2 (-1022) \<le> 1 / 2 ^ 600" 
proof -
  have "pow2 (-1022) \<le> pow2 (-600)" by (rule pow2_mono) simp
  also have "pow2 (-600) = 1 / 2 ^ 600" by (simp add: pow2_def)
  finally show ?thesis .
qed

lemma two_powers: "(2::rat) ^ 100 \<le> 2 ^ 600" "(2::rat) ^ 600 \<le> 2 ^ 1024" by (rule power_increasing; simp)+

lemma rnd_sum_fold:
  assumes "\<forall>c \<in> set cs. weight_ok c" and "0 \<le> s0" and "2 ^ length cs * (s0 + sum_list (map wq cs)) < 2 ^ 1024"
  shows "\<exists>s. foldl (\<lambda>s c. dadd s (weight c)) (Fin s0) cs = Fin s
     \<and> (1 - eps) ^ length cs * (s0 + sum_list (map wq cs)) \<le> s \<and> s \<le> 2 ^ length cs * (s0 + sum_list (map wq cs))"
  using assms
proof (induction cs arbitrary: s0)
  case (Cons c cs)
  let ?T = "sum_list (map wq cs)"
  have c: "weight c = Fin (wq c)" "1 / 2 ^ 100 \<le> wq c" using Cons.prems(1) by (simp_all add: weight_ok_def)
  have T: "0 \<le> ?T"
  proof (rule sum_list_nonneg)
    fix x assume "x \<in> set (map wq cs)"
    then obtain c where "c \<in> set cs" "x = wq c" by auto
    moreover have "(0::rat) \<le> 1 / 2 ^ 100" by simp
    ultimately show "0 \<le> x" using Cons.prems(1) by (auto simp: weight_ok_def intro: order_trans)
  qed
  have x0: "1 / 2 ^ 100 \<le> s0 + wq c" using c(2) Cons.prems(2) by linarith
  have "(1::rat) / 2 ^ 600 \<le> 1 / 2 ^ 100" using two_powers(1) by (simp add: field_simps)
  then have x: "pow2 (-1022) \<le> s0 + wq c" using x0 pow2_m1022 by linarith
  note r = rnd_bounds [OF x]
  have pos: "0 < s0 + wq c" using x pow2_pos [of "-1022"] by linarith
  have r2: "rnd (s0 + wq c) \<le> 2 * (s0 + wq c)"
    using r(2) mult_right_mono [of "1 + eps" 2 "s0 + wq c"] eps_bounds pos by linarith
  have up: "2 ^ length cs * (rnd (s0 + wq c) + ?T) \<le> 2 ^ Suc (length cs) * (s0 + wq c + ?T)"
    using r2 T by (simp add: mult_left_mono)
  have "2 ^ Suc (length cs) * (s0 + wq c + ?T) < 2 ^ 1024"
    using Cons.prems(3) by (simp only: list.size add_Suc_right add_0_right sum_list.Cons list.map add.assoc)
  with up have lt: "2 ^ length cs * (rnd (s0 + wq c) + ?T) < 2 ^ 1024" by (rule le_less_trans)
  have "rnd (s0 + wq c) \<le> 2 ^ length cs * (rnd (s0 + wq c) + ?T)"
  proof -
    have "1 * (rnd (s0 + wq c) + ?T) \<le> 2 ^ length cs * (rnd (s0 + wq c) + ?T)"
      using r(3) T by (intro mult_right_mono) simp_all
    moreover have "rnd (s0 + wq c) \<le> 1 * (rnd (s0 + wq c) + ?T)" using T by simp
    ultimately show ?thesis by (rule order_trans [rotated])
  qed
  then have fin: "dadd (Fin s0) (weight c) = Fin (rnd (s0 + wq c))"
    using c(1) lt r(3) by (simp add: dbl_of_Fin)
  obtain s where s: "foldl (\<lambda>s c. dadd s (weight c)) (Fin (rnd (s0 + wq c))) cs = Fin s"
    "(1 - eps) ^ length cs * (rnd (s0 + wq c) + ?T) \<le> s" "s \<le> 2 ^ length cs * (rnd (s0 + wq c) + ?T)"
    using Cons.IH [of "rnd (s0 + wq c)"] Cons.prems(1) r(3) lt by auto
  have "(1 - eps) * (s0 + wq c + ?T) \<le> rnd (s0 + wq c) + ?T"
  proof -
    have "(1 - eps) * ?T \<le> 1 * ?T" using T eps_bounds by (intro mult_right_mono) simp_all
    then show ?thesis using r(1) by (simp only: distrib_left)
  qed
  then have "(1 - eps) ^ length cs * ((1 - eps) * (s0 + wq c + ?T)) \<le> (1 - eps) ^ length cs * (rnd (s0 + wq c) + ?T)"
    using eps_bounds by (intro mult_left_mono) simp_all
  then have "(1 - eps) ^ length (c # cs) * (s0 + sum_list (map wq (c # cs))) \<le> s"
    using s(2) by (simp add: mult.assoc mult.left_commute add.assoc)
  moreover have "s \<le> 2 ^ length (c # cs) * (s0 + sum_list (map wq (c # cs)))"
    using order_trans [OF s(3) up] by (simp only: list.size add_Suc_right add_0_right sum_list.Cons list.map add.assoc)
  ultimately show ?case using s(1) fin by auto
qed simp

lemma one_minus_power: "0 \<le> e \<Longrightarrow> e \<le> 1 \<Longrightarrow> 1 - of_nat n * e \<le> (1 - e) ^ n" for e :: rat
proof (induction n)
  case (Suc n)
  have "(1 - of_nat n * e) * (1 - e) \<le> (1 - e) ^ n * (1 - e)" using Suc by (intro mult_right_mono) simp_all
  moreover have "1 - of_nat (Suc n) * e \<le> (1 - of_nat n * e) * (1 - e)"
    using Suc.prems by (simp add: algebra_simps)
  ultimately show ?case by (simp add: mult.commute)
qed simp

text \<open>What the accumulated rounding of up to 490 winners can add, relative to the exact shares.\<close>

lemma split_slack:
  assumes "n \<le> 490"
  shows "(1 + eps) * (1 + eps) < (1 + 1 / 2 ^ 43) * (1 - eps) ^ n" "0 < (1 - eps) ^ n"
proof -
  have "of_nat n * eps \<le> 490 * eps" using assms eps_bounds(1) by (intro mult_right_mono) simp_all
  then have "1 - 490 * eps \<le> (1 - eps) ^ n" using one_minus_power [of eps n] eps_bounds by linarith
  then have "(1 + 1 / 2 ^ 43) * (1 - 490 * eps) \<le> (1 + 1 / 2 ^ 43) * (1 - eps) ^ n" by (intro mult_left_mono) simp_all
  moreover have "(1 + eps) * (1 + eps) < (1 + 1 / 2 ^ 43) * (1 - 490 * eps)" by (simp add: eps_def)
  ultimately show "(1 + eps) * (1 + eps) < (1 + 1 / 2 ^ 43) * (1 - eps) ^ n" by linarith
  show "0 < (1 - eps) ^ n" using eps_bounds by simp
qed


text \<open>The amount of one winner: defined, and at most its exact share times the rounding slack.\<close>

lemma amount_bound:
  assumes D: "unat D \<le> 2 ^ 43" and w: "weight_ok c" and s: "1 / 2 ^ 100 / 2 ^ 490 \<le> s" "s \<le> 2 ^ 500"
    and slack: "(1 + eps) * (1 + eps) * (wq c / s) \<le> 2"
  shows "\<exists>amt. to_u64 (dmul (of_u64 D) (ddiv (weight c) (Fin s))) = Some amt
     \<and> of_nat (unat amt) \<le> of_nat (unat D) * ((1 + eps) * (1 + eps) * (wq c / s))"
proof -
  let ?d = "of_nat (unat D) :: rat" and ?x = "wq c / s"
  have sp: "0 < s" using s(1) by (rule less_le_trans [rotated]) simp
  have c: "weight c = Fin (wq c)" "1 / 2 ^ 100 \<le> wq c" using w by (simp_all add: weight_ok_def)
  have x600: "1 / 2 ^ 600 \<le> ?x"
  proof -
    have "(1 / 2 ^ 100) / 2 ^ 500 \<le> wq c / s"
      using c(2) s(2) sp by (intro frac_le) simp_all
    moreover have "(1::rat) / 2 ^ 600 = (1 / 2 ^ 100) / 2 ^ 500" by (simp flip: power_add)
    ultimately show ?thesis by simp
  qed
  then have x: "pow2 (-1022) \<le> ?x" using pow2_m1022 by linarith
  note r = rnd_bounds [OF x]
  have xp: "0 < ?x" using x pow2_pos [of "-1022"] by linarith
  have one: "(1 + eps) * ?x \<le> (1 + eps) * (1 + eps) * ?x"
    using eps_bounds xp by (intro mult_right_mono) simp_all
  have r2: "rnd ?x \<le> 2" using r(2) one slack by linarith
  have q: "ddiv (weight c) (Fin s) = Fin (rnd ?x)"
  proof -
    have "(2::rat) < 2 ^ 1024" by simp
    then have "\<bar>rnd ?x\<bar> < 2 ^ 1024" using r2 r(3) by linarith
    then show ?thesis using c(1) sp by (simp add: dbl_of_Fin)
  qed
  have d: "of_u64 D = Fin ?d" using D by (intro of_u64_exact) simp
  show ?thesis
  proof (cases "unat D = 0")
    case True
    then have "dmul (of_u64 D) (ddiv (weight c) (Fin s)) = Fin 0" unfolding d q by (simp add: dbl_of_def)
    then show ?thesis using True by (simp add: to_u64_def)
  next
    case False
    then have "1 \<le> unat D" by simp
    then have d1: "1 \<le> ?d" by (metis of_nat_1 of_nat_le_iff)
    have d43: "?d \<le> 2 ^ 43" using D by (metis of_nat_le_iff of_nat_numeral of_nat_power)
    let ?y = "?d * rnd ?x"
    have nn: "0 \<le> (1 + eps) * (1 + eps) * ?x" using xp eps_bounds(1) by (intro mult_nonneg_nonneg) linarith+
    have "1 * rnd ?x \<le> ?y" using d1 r(3) by (intro mult_right_mono) simp_all
    moreover have "pow2 (-1022) \<le> rnd ?x"
    proof -
      have a: "pow2 (-1022) = 1 / 2 * pow2 (-1021)" using pow2_add [of "-1" "-1021"] by (simp add: pow2_def)
      have "pow2 (-1021) \<le> pow2 (-600)" by (rule pow2_mono) simp
      also have "pow2 (-600) = 1 / 2 ^ 600" by (simp add: pow2_def)
      finally have "pow2 (-1021) \<le> ?x" using x600 by (rule order_trans)
      then have "pow2 (-1022) \<le> 1 / 2 * ?x" unfolding a by (intro mult_left_mono) simp_all
      also have "\<dots> \<le> (1 - eps) * ?x" using xp by (intro mult_right_mono) (simp_all add: eps_def)
      finally show ?thesis using r(1) by linarith
    qed
    ultimately have y: "pow2 (-1022) \<le> ?y" by linarith
    note p = rnd_bounds [OF y]
    have "(1 + eps) * ?y \<le> (1 + eps) * (?d * ((1 + eps) * ?x))"
      using r(2) eps_bounds(1) d1 by (intro mult_left_mono) linarith+
    also have "\<dots> = ?d * ((1 + eps) * (1 + eps) * ?x)" by (simp only: ac_simps)
    finally have up: "rnd ?y \<le> ?d * ((1 + eps) * (1 + eps) * ?x)" using p(2) by linarith
    also have "\<dots> \<le> 2 ^ 43 * 2" using d43 slack nn by (intro mult_mono) simp_all
    finally have lt: "rnd ?y < 2 ^ 64" by simp
    have "(2::rat) ^ 64 \<le> 2 ^ 1024" by (rule power_increasing) simp_all
    then have "dbl_of ?y = Fin (rnd ?y)" using lt p(3) by (intro dbl_of_Fin) linarith
    then have m: "dmul (of_u64 D) (ddiv (weight c) (Fin s)) = Fin (rnd ?y)" unfolding d q by (simp only: dmul.simps)
    obtain n where "to_u64 (Fin (rnd ?y)) = Some n" "of_nat (unat n) \<le> rnd ?y"
      using to_u64_value [of "rnd ?y"] p(3) lt by auto
    then show ?thesis unfolding m using up by (meson order_trans)
  qed
qed

section \<open>The winners\<close>

lemma draw_mset:
  assumes "qsort_spec qs"
  shows "mset (chirp_weighted_draw qs powf alloc cands seed n) \<subseteq># mset (filter (\<lambda>c. \<not> dle (weight c) (Fin 0)) cands)"
proof (cases "alloc (length cands)")
  case True
  let ?f = "filter (\<lambda>c. \<not> dle (weight c) (Fin 0)) cands"
  let ?kd = "qs keyed_cmp_desc (map (keyed_of powf seed) ?f)"
  have "mset (map snd ?kd) = image_mset snd (mset (map (keyed_of powf seed) ?f))"
    using qsort_mset [OF assms] by (metis mset_map)
  also have "\<dots> = mset (map (snd \<circ> keyed_of powf seed) ?f)" by (simp add: multiset.map_comp)
  also have "map (snd \<circ> keyed_of powf seed) ?f = ?f" by (simp add: keyed_of_def o_def)
  finally have m: "mset (map snd ?kd) = mset ?f" .
  have "mset (take k xs) \<subseteq># mset xs" for k and xs :: "chirp_cand list"
    by (metis append_take_drop_id mset_append mset_subset_eq_add_left)
  then have "mset (map snd (take k ?kd)) \<subseteq># mset ?f" for k unfolding m [symmetric] take_map [symmetric] .
  then show ?thesis using True by (simp add: chirp_weighted_draw_def Let_def)
qed (simp add: chirp_weighted_draw_def)

lemma draw_length: "length (chirp_weighted_draw qs powf alloc cands seed n) \<le> n"
  by (simp add: chirp_weighted_draw_def Let_def)

lemma fit_budget_prefix: "\<exists>k. fit_budget used cs = take k cs"
proof (induction cs arbitrary: used)
  case (Cons c cs)
  let ?b = "chirp_output_bytes (c_addr c)"
  obtain k where "fit_budget (used + ?b) cs = take k cs" using Cons by blast
  then show ?case by (cases "used + ?b > CHIRP_OUTPUT_BUDGET_BYTES") (auto simp: Let_def intro: exI [of _ 0] exI [of _ "Suc k"])
qed simp

lemma fit_budget_bytes:
  "used \<le> CHIRP_OUTPUT_BUDGET_BYTES \<Longrightarrow>
    used + sum_list (map (\<lambda>c. chirp_output_bytes (c_addr c)) (fit_budget used cs)) \<le> CHIRP_OUTPUT_BUDGET_BYTES"
proof (induction cs arbitrary: used)
  case (Cons c cs)
  let ?b = "chirp_output_bytes (c_addr c)"
  show ?case
  proof (cases "used + ?b > CHIRP_OUTPUT_BUDGET_BYTES")
    case False
    with Cons.IH [of "used + ?b"] show ?thesis by (simp add: Let_def add.assoc)
  qed (use Cons.prems in \<open>simp add: Let_def\<close>)
qed simp

text \<open>
  The loop over winners whose amounts are defined: it pays the amounts that reach the minimum, in order,
  and returns their sum.
\<close>

definition amount :: "u64 \<Rightarrow> dbl \<Rightarrow> chirp_cand \<Rightarrow> u64 option" where
  "amount D tw c = to_u64 (dmul (of_u64 D) (ddiv (weight c) tw))"

definition pay :: "u64 \<Rightarrow> dbl \<Rightarrow> chirp_cand \<Rightarrow> chirp_payout" where
  "pay D tw c = \<lparr>p_addr = take (CHIRP_ADDR_MAX - 1) (c_addr c), sats = the (amount D tw c)\<rparr>"

definition paid :: "u64 \<Rightarrow> dbl \<Rightarrow> chirp_cand list \<Rightarrow> chirp_cand list" where
  "paid D tw cs = filter (\<lambda>c. the (amount D tw c) \<ge> CHIRP_MIN_PAYOUT_SATS) cs"

lemma split_loop_paid:
  assumes "\<forall>c \<in> set cs. amount D tw c \<noteq> None"
  shows "split_loop D tw cs a = Some (map (pay D tw) (paid D tw cs), a + sum_list (map sats (map (pay D tw) (paid D tw cs))))"
  using assms
proof (induction cs arbitrary: a)
  case (Cons c cs)
  then obtain n where n: "amount D tw c = Some n" by auto
  with Cons show ?case by (auto simp: paid_def pay_def amount_def add.assoc)
qed (simp add: paid_def)

lemma unat_sum_list:
  "sum_list (map unat xs) < 2 ^ 64 \<Longrightarrow> unat (sum_list xs :: u64) = sum_list (map unat xs)"
proof (induction xs)
  case (Cons x xs)
  then have "unat (sum_list xs) = sum_list (map unat xs)" by simp
  with Cons.prems show ?case by (simp add: unat_word_ariths)
qed simp

lemma unat_base_fee:
  assumes "unat tv \<le> 2 ^ 43"
  shows "unat (base_fee_of tv bps) = unat tv * unat bps div 10000"
proof -
  have "unat bps < 2 ^ 16" using unsigned_less [of bps, where 'a = nat] by simp
  then have "unat tv * unat bps \<le> 2 ^ 43 * 2 ^ 16" using assms by (intro mult_mono) simp_all
  then have "unat tv * unat bps div 10000 < 2 ^ 64" by simp
  then show ?thesis by (simp only: base_fee_of_def unat_of_nat take_bit_eq_mod) simp
qed

lemma sum_bound_list:
  "(\<And>c. c \<in> set cs \<Longrightarrow> wq c \<le> (2::rat)) \<Longrightarrow> sum_list (map wq cs) \<le> 2 * of_nat (length cs)"
  by (induction cs) (auto simp: algebra_simps intro: add_mono)

text \<open>All amounts of a list of winners are defined, and together they do not exceed what is distributed.\<close>

lemma winners_amounts:
  assumes D: "unat D \<le> 2 ^ 43" and ws: "\<forall>c \<in> set ws. weight_ok c" "ws \<noteq> []" "length ws \<le> 490"
  shows "\<exists>tw. foldl (\<lambda>s c. dadd s (weight c)) (Fin 0) ws = Fin tw \<and> 0 < tw
    \<and> (\<forall>c \<in> set ws. amount D (Fin tw) c \<noteq> None)
    \<and> sum_list (map (\<lambda>c. unat (the (amount D (Fin tw) c))) ws) \<le> unat D"
proof -
  let ?S = "sum_list (map wq ws)" and ?n = "length ws"
  have w: "1 / 2 ^ 100 \<le> wq c" "wq c \<le> 2" if "c \<in> set ws" for c using ws(1) that by (simp_all add: weight_ok_def)
  have wpos: "0 < wq c" if "c \<in> set ws" for c using w(1) [OF that] by (rule less_le_trans [rotated]) simp
  have mem: "wq c \<le> ?S" if "c \<in> set ws" for c
    using that wpos by (intro member_le_sum_list) (auto simp: less_imp_le)
  have S_lo: "1 / 2 ^ 100 \<le> ?S" using w(1) [of "hd ws"] mem [of "hd ws"] ws(2) by simp
  have S_hi: "?S \<le> 2 * of_nat ?n" using w(2) by (rule sum_bound_list)
  then have S_hi': "?S \<le> 2 ^ 10" using ws(3) by simp
  have n: "(2::rat) ^ ?n \<le> 2 ^ 490" using ws(3) by (rule power_increasing) simp
  have S_pos: "0 < ?S" using S_lo by (rule less_le_trans [rotated]) simp
  have up: "2 ^ ?n * (0 + ?S) \<le> 2 ^ 490 * 2 ^ 10" using n S_hi' S_pos by (intro mult_mono) simp_all
  then have up500: "2 ^ ?n * (0 + ?S) \<le> 2 ^ 500" by (simp only: power_add [symmetric]) simp
  moreover have "(2::rat) ^ 500 < 2 ^ 1024" by (rule power_strict_increasing) simp_all
  ultimately have "2 ^ ?n * (0 + ?S) < 2 ^ 1024" by (rule le_less_trans)
  then obtain s where s: "foldl (\<lambda>s c. dadd s (weight c)) (Fin 0) ws = Fin s"
      "(1 - eps) ^ ?n * (0 + ?S) \<le> s" "s \<le> 2 ^ ?n * (0 + ?S)"
    using rnd_sum_fold [OF ws(1) order_refl] by blast
  have s500: "s \<le> 2 ^ 500" using s(3) up500 by (rule order_trans)
  note sl = split_slack [OF ws(3)]
  have s_lo: "(1 - eps) ^ ?n * ?S \<le> s" using s(2) by simp
  have s_pos: "0 < s" using s_lo sl(2) S_pos by (metis less_le_trans mult_pos_pos)
  have KS: "(1 + eps) * (1 + eps) * (?S / s) < 1 + 1 / 2 ^ 43"
  proof -
    have "(1 + eps) * (1 + eps) * ?S < (1 + 1 / 2 ^ 43) * (1 - eps) ^ ?n * ?S" using sl(1) S_pos by (rule mult_strict_right_mono)
    also have "\<dots> \<le> (1 + 1 / 2 ^ 43) * s" unfolding mult.assoc using s_lo by (intro mult_left_mono) simp_all
    finally show ?thesis using s_pos by (simp add: pos_divide_less_eq)
  qed
  have one: "(1 + eps) * (1 + eps) * (wq c / s) \<le> 2" if "c \<in> set ws" for c
  proof -
    have "(1 + eps) * (1 + eps) * (wq c / s) \<le> (1 + eps) * (1 + eps) * (?S / s)"
      using mem [OF that] s_pos eps_bounds(1) by (intro mult_left_mono divide_right_mono) simp_all
    also have "\<dots> \<le> 1 + 1 / 2 ^ 43" using KS by (rule less_imp_le)
    finally show ?thesis by (rule order_trans) simp
  qed
  have s_lo': "1 / 2 ^ 100 / 2 ^ 490 \<le> s"
  proof -
    have "(1 / 2) ^ ?n \<le> (1 - eps) ^ ?n" by (intro power_mono) (simp_all add: eps_def)
    moreover have "(1::rat) / 2 ^ 490 \<le> (1 / 2) ^ ?n" using n by (simp add: power_one_over frac_le)
    ultimately have "(1 / 2 ^ 490) * (1 / 2 ^ 100) \<le> (1 - eps) ^ ?n * ?S" using S_lo sl(2) by (intro mult_mono) simp_all
    then have "(1 / 2 ^ 490) * (1 / 2 ^ 100) \<le> s" using s_lo by (rule order_trans)
    then show ?thesis by (simp only: times_divide_eq_left mult_1_left divide_divide_eq_left mult.commute)
  qed
  have amt: "\<exists>a. amount D (Fin s) c = Some a \<and> of_nat (unat a) \<le> of_nat (unat D) * ((1 + eps) * (1 + eps) * (wq c / s))"
    if "c \<in> set ws" for c
    unfolding amount_def using D ws(1) that s_lo' s500 one [OF that] by (intro amount_bound) auto
  have le: "of_nat (sum_list (map (\<lambda>c. unat (the (amount D (Fin s) c))) cs))
      \<le> of_nat (unat D) * ((1 + eps) * (1 + eps) * (sum_list (map wq cs) / s))" if "set cs \<subseteq> set ws" for cs
    using that
  proof (induction cs)
    case (Cons c cs)
    then obtain a where "amount D (Fin s) c = Some a" "of_nat (unat a) \<le> of_nat (unat D) * ((1 + eps) * (1 + eps) * (wq c / s))"
      using amt by auto
    with Cons show ?case by (simp add: add_divide_distrib distrib_left add_mono del: of_nat_unat)
  qed simp
  have "sum_list (map (\<lambda>c. unat (the (amount D (Fin s) c))) ws) \<le> unat D"
  proof (cases "unat D = 0")
    case True
    then show ?thesis using le [of ws] by simp
  next
    case False
    have d: "(of_nat (unat D) :: rat) \<le> 2 ^ 43" using D by (metis of_nat_le_iff of_nat_numeral of_nat_power)
    have "of_nat (unat D) * ((1 + eps) * (1 + eps) * (?S / s)) < of_nat (unat D) * (1 + 1 / 2 ^ 43)"
      using KS False by (intro mult_strict_left_mono) (simp_all add: of_nat_0_less_iff del: of_nat_unat)
    with le [OF order_refl]
    have "(of_nat (sum_list (map (\<lambda>c. unat (the (amount D (Fin s) c))) ws)) :: rat) < of_nat (unat D) * (1 + 1 / 2 ^ 43)"
      by (rule le_less_trans)
    also have "\<dots> = of_nat (unat D) + of_nat (unat D) / (2 ^ 43 :: rat)" by (simp only: distrib_left mult_1_right times_divide_eq_right)
    also have "\<dots> \<le> of_nat (unat D) + 1" using d by (intro add_left_mono) (simp add: divide_le_eq del: of_nat_unat)
    finally have "(of_nat (sum_list (map (\<lambda>c. unat (the (amount D (Fin s) c))) ws)) :: rat) < of_nat (unat D + 1)"
      by (simp only: of_nat_add of_nat_1)
    then show ?thesis by (simp only: of_nat_less_iff)
  qed
  moreover have "\<forall>c \<in> set ws. amount D (Fin s) c \<noteq> None" using amt by (metis option.distinct(1))
  ultimately show ?thesis using s(1) s_pos by blast
qed


section \<open>The split pays out exactly the reward\<close>

lemma sum_paid_le: "sum_list (map (\<lambda>c. unat (the (amount D tw c))) (paid D tw cs)) \<le> sum_list (map (\<lambda>c. unat (the (amount D tw c))) cs)"
  by (induction cs) (auto simp: paid_def)

lemma take_bytes: "length a \<le> CHIRP_ADDR_MAX - 1 \<Longrightarrow> take (CHIRP_ADDR_MAX - 1) a = a" by simp

definition cands_ok :: "chirp_cand list \<Rightarrow> bool" where
  "cands_ok cands \<longleftrightarrow> (\<forall>c \<in> set cands. length (c_addr c) \<le> CHIRP_ADDR_MAX - 1 \<and> (dle (weight c) (Fin 0) \<or> weight_ok c))"

definition winners_of :: "keyed qsort \<Rightarrow> (dbl \<Rightarrow> dbl \<Rightarrow> dbl) \<Rightarrow> alloc \<Rightarrow> chirp_cand list \<Rightarrow> u64 \<Rightarrow> chirp_cand list" where
  "winners_of qs powf alloc cands seed = fit_budget 0 (chirp_weighted_draw qs powf alloc cands seed CHIRP_MAX_N)"

lemma winners_props:
  assumes q: "qsort_spec qs" and ok: "cands_ok cands"
  shows "\<forall>c \<in> set (winners_of qs powf alloc cands seed). weight_ok c \<and> length (c_addr c) \<le> CHIRP_ADDR_MAX - 1"
    "length (winners_of qs powf alloc cands seed) \<le> 490" "mset (winners_of qs powf alloc cands seed) \<subseteq># mset cands"
    "sum_list (map (\<lambda>c. chirp_output_bytes (c_addr c)) (winners_of qs powf alloc cands seed)) \<le> CHIRP_OUTPUT_BUDGET_BYTES"
proof -
  let ?d = "chirp_weighted_draw qs powf alloc cands seed CHIRP_MAX_N"
  let ?f = "filter (\<lambda>c. \<not> dle (weight c) (Fin 0)) cands"
  obtain k where k: "winners_of qs powf alloc cands seed = take k ?d" using fit_budget_prefix unfolding winners_of_def by blast
  have "mset (take k ?d) \<subseteq># mset ?d" by (metis append_take_drop_id mset_append mset_subset_eq_add_left)
  also have "mset ?d \<subseteq># mset ?f" using q by (rule draw_mset)
  finally have f: "mset (winners_of qs powf alloc cands seed) \<subseteq># mset ?f" unfolding k .
  then have "set (winners_of qs powf alloc cands seed) \<subseteq> set ?f" by (metis set_mset_mono set_mset_mset)
  then show "\<forall>c \<in> set (winners_of qs powf alloc cands seed). weight_ok c \<and> length (c_addr c) \<le> CHIRP_ADDR_MAX - 1"
    using ok by (auto simp: cands_ok_def)
  show "mset (winners_of qs powf alloc cands seed) \<subseteq># mset cands"
    using f by (rule subset_mset.order_trans) (simp add: mset_filter multiset_filter_subset)
  show "length (winners_of qs powf alloc cands seed) \<le> 490"
    unfolding k using draw_length [of qs powf alloc cands seed CHIRP_MAX_N] by (simp add: CHIRP_MAX_N_def)
  show "sum_list (map (\<lambda>c. chirp_output_bytes (c_addr c)) (winners_of qs powf alloc cands seed)) \<le> CHIRP_OUTPUT_BUDGET_BYTES"
    using fit_budget_bytes [of 0 ?d] by (simp add: winners_of_def)
qed

definition paid_ok :: "u64 \<Rightarrow> u16 \<Rightarrow> chirp_cand list \<Rightarrow> chirp_payout list \<Rightarrow> u64 \<Rightarrow> bool" where
  "paid_ok tv bps cands ps pool \<longleftrightarrow>
     sum_list (map (\<lambda>p. unat (sats p)) ps) + unat pool = unat tv
     \<and> min (unat tv) (unat tv * unat bps div 10000) \<le> unat pool
     \<and> list_all (\<lambda>p. 1000 \<le> unat (sats p)) ps \<and> length ps \<le> 490
     \<and> sum_list (map (\<lambda>p. chirp_output_bytes (p_addr p)) ps) \<le> 14800
     \<and> mset (map p_addr ps) \<subseteq># mset (map c_addr cands)"

lemma paid_ok_payouts:
  assumes tv: "unat tv \<le> 2 ^ 43"
    and D: "D = (if tv > base_fee_of tv bps then tv - base_fee_of tv bps else 0)"
    and s: "sum_list (map (\<lambda>c. unat (the (amount D tw c))) ws) \<le> unat D"
    and ws: "\<forall>c \<in> set ws. length (c_addr c) \<le> CHIRP_ADDR_MAX - 1" "length ws \<le> 490" "mset ws \<subseteq># mset cands"
      "sum_list (map (\<lambda>c. chirp_output_bytes (c_addr c)) ws) \<le> CHIRP_OUTPUT_BUDGET_BYTES"
    and ps: "ps = map (pay D tw) (paid D tw ws)"
    and pool: "pool = (if tv > sum_list (map sats ps) then tv - sum_list (map sats ps) else 0)"
  shows "paid_ok tv bps cands ps pool"
proof -
  let ?n = "sum_list (map (\<lambda>p. unat (sats p)) ps)"
  have pw: "set (paid D tw ws) \<subseteq> set ws" by (auto simp: paid_def)
  have sz: "map (\<lambda>p. unat (sats p)) ps = map (\<lambda>c. unat (the (amount D tw c))) (paid D tw ws)" by (simp add: ps pay_def)
  have nD: "?n \<le> unat D" unfolding sz using sum_paid_le s by (rule order_trans)
  have fee: "unat (base_fee_of tv bps) = unat tv * unat bps div 10000" using tv by (rule unat_base_fee)
  have uD: "unat D = unat tv - unat (base_fee_of tv bps)"
    unfolding D by (simp add: word_less_nat_alt unat_sub_if')
  have "?n < 2 ^ 64" using nD le_less_trans [OF nD unsigned_less [where 'a = nat]] by simp
  then have sum: "unat (sum_list (map sats ps)) = ?n" using unat_sum_list [of "map sats ps"] by (simp add: o_def)
  have up: "unat pool = unat tv - ?n"
    unfolding pool using sum nD uD by (simp add: word_less_nat_alt unat_sub_if')
  have addr: "map p_addr ps = map c_addr (paid D tw ws)"
    unfolding ps using pw ws(1) by (auto simp: pay_def)
  have "mset (paid D tw ws) \<subseteq># mset ws" by (simp add: paid_def mset_filter multiset_filter_subset)
  then have "mset (map c_addr (paid D tw ws)) \<subseteq># mset (map c_addr cands)"
    using ws(3) by (simp add: image_mset_subseteq_mono subset_mset.order_trans)
  moreover have "sum_list (map (\<lambda>p. chirp_output_bytes (p_addr p)) ps) \<le> 14800"
  proof -
    have "map (\<lambda>p. chirp_output_bytes (p_addr p)) ps = map (\<lambda>c. chirp_output_bytes (c_addr c)) (paid D tw ws)"
      using arg_cong [OF addr, of "map chirp_output_bytes"] by (simp add: o_def)
    moreover have "sum_list (map f (filter P xs)) \<le> sum_list (map f xs)" for f :: "chirp_cand \<Rightarrow> nat" and P xs by (induction xs) auto
    ultimately show ?thesis using ws(4) unfolding paid_def CHIRP_OUTPUT_BUDGET_BYTES_def by (metis order_trans)
  qed
  moreover have "list_all (\<lambda>p. 1000 \<le> unat (sats p)) ps"
    by (auto simp: ps paid_def pay_def list_all_iff CHIRP_MIN_PAYOUT_SATS_def word_le_nat_alt)
  moreover have "length ps \<le> 490" using order_trans [OF length_filter_le ws(2)] by (simp add: ps paid_def)
  ultimately show ?thesis unfolding paid_ok_def addr using up nD uD fee by auto
qed

lemma chirp_split_paid:
  assumes "qsort_spec qs" "cands_ok cands" "unat total_value \<le> 2 ^ 43"
    and "alloc_w (if cands = [] then 1 else length cands)"
  shows "\<exists>ps pool. chirp_split qs powf alloc_w alloc_k cands total_value fee_bps seed = Some (ps, pool)
     \<and> paid_ok total_value fee_bps cands ps pool"
proof -
  let ?ws = "winners_of qs powf alloc_k cands seed"
  define D where "D = (if total_value > base_fee_of total_value fee_bps then total_value - base_fee_of total_value fee_bps else 0)"
  note W = winners_props [OF assms(1,2), of powf alloc_k seed]
  let ?tw = "foldl (\<lambda>s c. dadd s (weight c)) (Fin 0) ?ws"
  have split: "chirp_split qs powf alloc_w alloc_k cands total_value fee_bps seed =
     (if ?ws = [] \<or> dle ?tw (Fin 0) then Some ([], total_value)
      else map_option (\<lambda>(ps, a). (ps, if total_value > a then total_value - a else 0)) (split_loop D ?tw ?ws 0))"
    using assms(4) by (simp add: chirp_split_def Let_def winners_of_def D_def)
  show ?thesis
  proof (cases "?ws = []")
    case True
    then show ?thesis unfolding split by (simp add: paid_ok_def)
  next
    case False
    have D43: "unat D \<le> 2 ^ 43" using assms(3) by (auto simp: D_def unat_sub_if' word_less_nat_alt)
    obtain tw where tw: "?tw = Fin tw" "0 < tw" "\<forall>c \<in> set ?ws. amount D (Fin tw) c \<noteq> None"
      "sum_list (map (\<lambda>c. unat (the (amount D (Fin tw) c))) ?ws) \<le> unat D"
      using winners_amounts [OF D43, of ?ws] W(1,2) False by auto
    define ps where "ps = map (pay D (Fin tw)) (paid D (Fin tw) ?ws)"
    define pool where "pool = (if total_value > sum_list (map sats ps) then total_value - sum_list (map sats ps) else 0)"
    have "\<not> dle ?tw (Fin 0)" using tw(1,2) by (simp add: dle_def)
    moreover have "split_loop D ?tw ?ws 0 = Some (ps, sum_list (map sats ps))"
      unfolding tw(1) split_loop_paid [OF tw(3)] ps_def [symmetric] by simp
    ultimately have "chirp_split qs powf alloc_w alloc_k cands total_value fee_bps seed = Some (ps, pool)"
      unfolding split using False by (simp add: pool_def)
    moreover have "paid_ok total_value fee_bps cands ps pool"
      using W(1) by (intro paid_ok_payouts [OF assms(3) D_def tw(4) _ W(2,3,4) ps_def pool_def]) auto
    ultimately show ?thesis by blast
  qed
qed

text \<open>C2: for every reward up to 2^43 satoshis and candidates with sane weights, the split is defined and
  conserves the reward in spite of the floating-point arithmetic: payouts and pool share add up to the
  reward exactly, the pool gets at least its fee, every payout reaches the minimum, at most 490 outputs
  within the byte budget are made, and each goes to a candidate of the draw.\<close>

theorem chirp_split_conserves:
  assumes "qsort_spec qs" "cands_ok cands" "unat total_value \<le> 2 ^ 43"
    and "alloc_w (if cands = [] then 1 else length cands)"
  shows "\<exists>ps pool. chirp_split qs powf alloc_w alloc_k cands total_value fee_bps seed = Some (ps, pool)
     \<and> paid_ok total_value fee_bps cands ps pool"
  using assms by (rule chirp_split_paid)

definition ex_cand :: "string \<Rightarrow> rat \<Rightarrow> chirp_cand" where
  "ex_cand a q = \<lparr>c_addr = a, weight = Fin q, c_active_secs = Fin 0, c_power = Fin 0\<rparr>"

theorem chirp_split_conserves_witness:
  "\<exists>ps pool. chirp_split insort_cmp (\<lambda>u e. u) (\<lambda>_. True) (\<lambda>_. True) [ex_cand ''bc1qa'' (1/2), ex_cand ''1b'' (1/4)] 312500000 90 7
       = Some (ps, pool) \<and> sum_list (map (\<lambda>p. unat (sats p)) ps) + unat pool = 312500000 \<and> 2812500 \<le> unat pool"
proof -
  have "cands_ok [ex_cand ''bc1qa'' (1/2), ex_cand ''1b'' (1/4)]"
    by (simp add: cands_ok_def ex_cand_def weight_ok_def wq_def CHIRP_ADDR_MAX_def)
  then obtain ps pool where p: "chirp_split insort_cmp (\<lambda>u e. u) (\<lambda>_. True) (\<lambda>_. True) [ex_cand ''bc1qa'' (1/2), ex_cand ''1b'' (1/4)] 312500000 90 7
       = Some (ps, pool)" "paid_ok 312500000 90 [ex_cand ''bc1qa'' (1/2), ex_cand ''1b'' (1/4)] ps pool"
    using chirp_split_conserves [of insort_cmp "[ex_cand ''bc1qa'' (1/2), ex_cand ''1b'' (1/4)]" 312500000 "\<lambda>_. True" "\<lambda>u e. u" "\<lambda>_. True" 90 7]
      qsort_spec_insort_cmp by auto
  from p(2) have "sum_list (map (\<lambda>p. unat (sats p)) ps) + unat pool = 312500000 \<and> 2812500 \<le> unat pool"
    by (simp add: paid_ok_def)
  with p(1) show ?thesis by blast
qed

section \<open>The draw takes the best keys\<close>

definition key_of :: "(dbl \<Rightarrow> dbl \<Rightarrow> dbl) \<Rightarrow> u64 \<Rightarrow> chirp_cand \<Rightarrow> dbl" where
  "key_of powf seed c = fst (keyed_of powf seed c)"

text \<open>The keys are comparable when none of them is NaN.\<close>

lemma dlt_total: "a \<noteq> NaN \<Longrightarrow> b \<noteq> NaN \<Longrightarrow> dlt a b \<or> dlt b a \<or> a = b"
  by (cases a; cases b) auto

lemma dlt_trans: "dlt a b \<Longrightarrow> dlt b c \<Longrightarrow> dlt a c"
  by (cases a; cases b; cases c) auto

lemma dlt_irrefl: "\<not> dlt a a"
  by (cases a) auto

lemma dlt_asym: "dlt a b \<Longrightarrow> \<not> dlt b a"
  using dlt_trans dlt_irrefl by blast

lemma not_dlt_trans:
  assumes "a \<noteq> NaN" "b \<noteq> NaN" "c \<noteq> NaN" "\<not> dlt a b" "\<not> dlt b c"
  shows "\<not> dlt a c"
  using assms by (cases a; cases b; cases c) auto

lemma keyed_cmp_le: "keyed_cmp_desc a b \<le> 0 \<longleftrightarrow> \<not> dlt (fst a) (fst b)"
  by (simp add: keyed_cmp_desc_def)

lemma keyed_cmp_ok:
  assumes "\<forall>k \<in> A. fst k \<noteq> NaN"
  shows "cmp_ok keyed_cmp_desc A"
  unfolding cmp_ok_def
proof (intro conjI ballI impI)
  fix x y assume "0 < keyed_cmp_desc x y"
  then show "keyed_cmp_desc y x < 0"
    using dlt_asym by (auto simp: keyed_cmp_desc_def split: if_splits)
next
  fix x y z assume "x \<in> A" "y \<in> A" "z \<in> A" "keyed_cmp_desc x y \<le> 0" "keyed_cmp_desc y z \<le> 0"
  then show "keyed_cmp_desc x z \<le> 0"
    unfolding keyed_cmp_le using assms not_dlt_trans [of "fst x" "fst y" "fst z"] by blast
qed

definition eligible :: "chirp_cand list \<Rightarrow> chirp_cand list" where
  "eligible cands = filter (\<lambda>c. \<not> dle (weight c) (Fin 0)) cands"

text \<open>The draw returns as many candidates of positive weight as there are and are asked for, each at most
  once, and no candidate left out has a better key than one drawn, so the winners are determined by the
  seed, the addresses and the weights up to equal keys.\<close>

theorem draw_best:
  assumes q: "qsort_spec qs" and a: "alloc (length cands)"
    and keys: "\<forall>c \<in> set (eligible cands). key_of powf seed c \<noteq> NaN"
    and w: "W = chirp_weighted_draw qs powf alloc cands seed n"
  shows "length W = min n (length (eligible cands))
     \<and> (\<exists>L. mset (W @ L) = mset (eligible cands) \<and> (\<forall>c \<in> set W. \<forall>l \<in> set L. \<not> dlt (key_of powf seed c) (key_of powf seed l)))"
proof -
  let ?kd = "qs keyed_cmp_desc (map (keyed_of powf seed) (eligible cands))"
  let ?t = "min n (length (eligible cands))"
  have len: "length ?kd = length (eligible cands)" using q by (simp add: qsort_length)
  have W: "W = map snd (take ?t ?kd)"
    using a len by (simp add: w chirp_weighted_draw_def Let_def eligible_def min_def)
  have set: "set ?kd = keyed_of powf seed ` set (eligible cands)" using q by (simp add: qsort_set)
  then have ok: "cmp_ok keyed_cmp_desc (set (map (keyed_of powf seed) (eligible cands)))"
    using keys by (intro keyed_cmp_ok) (auto simp: key_of_def)
  have srt: "sorted_wrt (\<lambda>x y. keyed_cmp_desc x y \<le> 0) ?kd" using q ok by (rule qsort_sorted)
  have "sorted_wrt (\<lambda>x y. keyed_cmp_desc x y \<le> 0) (take ?t ?kd @ drop ?t ?kd)" using srt by (simp only: append_take_drop_id)
  then have cmp: "\<forall>x \<in> set (take ?t ?kd). \<forall>y \<in> set (drop ?t ?kd). keyed_cmp_desc x y \<le> 0"
    unfolding sorted_wrt_append by blast
  have key: "fst x = key_of powf seed (snd x)" if "x \<in> set ?kd" for x using that set by (auto simp: keyed_of_def key_of_def)
  let ?L = "map snd (drop ?t ?kd)"
  have "mset (W @ ?L) = mset (map snd ?kd)" unfolding W by (simp only: map_append [symmetric] append_take_drop_id)
  also have "\<dots> = mset (map snd (map (keyed_of powf seed) (eligible cands)))" using qsort_mset [OF q] by (metis mset_map)
  also have "\<dots> = mset (eligible cands)" by (simp add: keyed_of_def o_def)
  finally have "mset (W @ ?L) = mset (eligible cands)" .
  moreover have "\<forall>c \<in> set W. \<forall>l \<in> set ?L. \<not> dlt (key_of powf seed c) (key_of powf seed l)"
  proof (intro ballI)
    fix c l assume "c \<in> set W" "l \<in> set ?L"
    then obtain x y where x: "x \<in> set (take ?t ?kd)" "c = snd x" and y: "y \<in> set (drop ?t ?kd)" "l = snd y" unfolding W by auto
    then have "keyed_cmp_desc x y \<le> 0" using cmp by blast
    then have "\<not> dlt (fst x) (fst y)" by (auto simp: keyed_cmp_desc_def split: if_splits)
    then show "\<not> dlt (key_of powf seed c) (key_of powf seed l)"
      using key x y by (metis in_set_dropD in_set_takeD)
  qed
  moreover have "length W = ?t" unfolding W using len by simp
  ultimately show ?thesis by blast
qed

theorem draw_best_witness:
  "length (chirp_weighted_draw insort_cmp (\<lambda>u e. e) (\<lambda>_. True) [ex_cand ''a'' (1/2), ex_cand ''b'' 0, ex_cand ''c'' (1/4)] 7 1) = 1"
proof -
  let ?c = "[ex_cand ''a'' (1/2), ex_cand ''b'' 0, ex_cand ''c'' (1/4)]"
  have e: "eligible ?c = [ex_cand ''a'' (1/2), ex_cand ''c'' (1/4)]" by (simp add: eligible_def ex_cand_def dle_def)
  have "\<forall>c \<in> set (eligible ?c). key_of (\<lambda>u e. e) 7 c \<noteq> NaN"
    unfolding e by (simp add: key_of_def keyed_of_def ex_cand_def dbl_of_def Let_def)
  with e show ?thesis using draw_best [OF qsort_spec_insort_cmp, of "\<lambda>_. True" ?c "\<lambda>u e. e" 7 _ 1] by simp
qed

section \<open>The registry\<close>

definition miner_ok :: "chirp_miner \<Rightarrow> bool" where
  "miner_ok m \<longleftrightarrow> length (m_addr m) \<le> CHIRP_ADDR_MAX - 1 \<and> length (shares m) \<le> cap_shares m"

definition registry_ok :: "chirp_registry \<Rightarrow> bool" where
  "registry_ok r \<longleftrightarrow> length (miners r) \<le> cap r \<and> distinct (map m_addr (miners r)) \<and> (\<forall>m \<in> set (miners r). miner_ok m)"

lemma same_addr_ok: "length a \<le> CHIRP_ADDR_MAX - 1 \<Longrightarrow> same_addr a b \<longleftrightarrow> a = take (CHIRP_ADDR_MAX - 1) b"
  by (simp add: same_addr_def)

lemma find_addr_Some:
  "find_addr ms addr k = Some i \<Longrightarrow> k \<le> i \<and> i - k < length ms \<and> same_addr (m_addr (ms ! (i - k))) addr"
proof (induction ms addr k rule: find_addr.induct)
  case (2 m ms addr k)
  show ?case
  proof (cases "same_addr (m_addr m) addr")
    case False
    then have "Suc k \<le> i \<and> i - Suc k < length ms \<and> same_addr (m_addr (ms ! (i - Suc k))) addr" using 2 by simp
    moreover from this have "i - k = Suc (i - Suc k)" by linarith
    ultimately show ?thesis by simp
  qed (use 2 in simp)
qed simp

lemma find_addr_None: "find_addr ms addr k = None \<longleftrightarrow> (\<forall>m \<in> set ms. \<not> same_addr (m_addr m) addr)"
  by (induction ms addr k rule: find_addr.induct) auto

lemma push_ok: "miner_ok m \<Longrightarrow> miner_ok (push_share alloc m wk now)"
  by (auto simp: miner_ok_def push_share_def Let_def)

lemma push_addr [simp]: "m_addr (push_share alloc m wk now) = m_addr m"
  by (simp add: push_share_def Let_def)

lemma credit_same [simp]: "m_addr (credit_tenure m now) = m_addr m" "shares (credit_tenure m now) = shares m"
  "cap_shares (credit_tenure m now) = cap_shares m" "last_seen (credit_tenure m now) = now"
  by (simp_all add: credit_tenure_def Let_def)

text \<open>
  What the clients of the registry rely on: recording a share of one address changes the entry of that
  address, by a function of the old entry, and no other.
\<close>

locale addr_store =
  fixes inv :: "'r \<Rightarrow> bool" and lookup :: "'r \<Rightarrow> string \<Rightarrow> 'm option" and key :: "string \<Rightarrow> string"
    and record_one :: "'r \<Rightarrow> string \<times> 'e \<Rightarrow> 'r" and entry :: "'m option \<Rightarrow> string \<times> 'e \<Rightarrow> 'm"
  assumes inv_record: "inv r \<Longrightarrow> inv (record_one r e)"
    and lookup_record: "inv r \<Longrightarrow>
      lookup (record_one r e) b = (if b = key (fst e) then Some (entry (lookup r b) e) else lookup r b)"
begin

lemma inv_record_all: "inv r \<Longrightarrow> inv (foldl record_one r es)"
  by (induction es arbitrary: r) (simp_all add: inv_record)

text \<open>The entry of an address is determined by the events of that address, in order.\<close>

lemma lookup_record_all:
  "inv r \<Longrightarrow> lookup (foldl record_one r es) b
     = foldl (\<lambda>m e. Some (entry m e)) (lookup r b) (filter (\<lambda>e. key (fst e) = b) es)"
  by (induction es arbitrary: r) (auto simp: inv_record lookup_record)

end

definition lookup_miner :: "chirp_registry \<Rightarrow> string \<Rightarrow> chirp_miner option" where
  "lookup_miner r a = find (\<lambda>m. m_addr m = a) (miners r)"

definition addr_key :: "string \<Rightarrow> string" where
  "addr_key a = take (CHIRP_ADDR_MAX - 1) a"

type_synonym share_event = "string \<times> dbl \<times> u64"

definition record_event :: "chirp_registry \<Rightarrow> share_event \<Rightarrow> chirp_registry" where
  "record_event r e = chirp_record_share (\<lambda>_. True) r (fst e) (fst (snd e)) (snd (snd e))"

definition miner_entry :: "chirp_miner option \<Rightarrow> share_event \<Rightarrow> chirp_miner" where
  "miner_entry m e = push_share (\<lambda>_. True)
     (credit_tenure (case m of None \<Rightarrow> new_miner (fst e) (snd (snd e)) | Some m \<Rightarrow> m) (snd (snd e))) (fst (snd e)) (snd (snd e))"

lemma entry_addr: "miner_ok m \<Longrightarrow> m_addr (push_share alloc (credit_tenure m now) wk now) = m_addr m"
  by simp

lemma new_miner_ok: "miner_ok (new_miner a now)" "m_addr (new_miner a now) = addr_key a"
  by (simp_all add: miner_ok_def new_miner_def addr_key_def)

lemma credit_ok: "miner_ok m \<Longrightarrow> miner_ok (credit_tenure m now)"
  by (simp add: miner_ok_def)

lemma find_update:
  assumes "distinct (map f ms)" "i < length ms" "f m = f (ms ! i)"
  shows "find (\<lambda>m. f m = b) (ms[i := m]) = (if b = f (ms ! i) then Some m else find (\<lambda>m. f m = b) ms)"
  using assms
proof (induction ms arbitrary: i)
  case (Cons x ms)
  then show ?case by (cases i) auto
qed simp

lemma find_snoc: "find P (xs @ [x]) = (case find P xs of None \<Rightarrow> if P x then Some x else None | Some y \<Rightarrow> Some y)"
  by (induction xs) auto

lemma record_share_ok:
  assumes ok: "registry_ok r"
  shows "registry_ok (chirp_record_share alloc r a wk now)"
proof (cases "find_addr (miners r) a 0")
  case None
  let ?m = "push_share alloc (credit_tenure (new_miner a now) now) wk now"
  show ?thesis
  proof (cases "length (miners r) = cap r \<and> \<not> alloc (if cap r \<noteq> 0 then cap r * 2 else 16)")
    case True
    then show ?thesis using None ok by (simp add: chirp_record_share_def find_or_add_def Let_def)
  next
    case False
    have "miner_ok ?m" by (intro push_ok credit_ok new_miner_ok)
    moreover have "addr_key a \<notin> m_addr ` set (miners r)"
      using None ok same_addr_ok by (auto simp: find_addr_None registry_ok_def miner_ok_def addr_key_def)
    ultimately show ?thesis using False None ok new_miner_ok(2) [of a now]
      by (auto simp: chirp_record_share_def find_or_add_def Let_def registry_ok_def list_update_append)
  qed
next
  case (Some i)
  then have i: "i < length (miners r)" using find_addr_Some [OF Some] by simp
  let ?m = "push_share alloc (credit_tenure (miners r ! i) now) wk now"
  have "miner_ok ?m" using ok i by (intro push_ok credit_ok) (auto simp: registry_ok_def)
  moreover have "map m_addr ((miners r)[i := ?m]) = map m_addr (miners r)" using i by (simp add: map_update list_update_same_conv)
  ultimately show ?thesis using Some ok set_update_subset_insert [of "miners r" i ?m]
    by (auto simp: chirp_record_share_def find_or_add_def registry_ok_def)
qed

lemma record_share_lookup:
  assumes ok: "registry_ok r"
  shows "lookup_miner (record_event r e) b = (if b = addr_key (fst e) then Some (miner_entry (lookup_miner r b) e) else lookup_miner r b)"
proof (cases "find_addr (miners r) (fst e) 0")
  case None
  then have "addr_key (fst e) \<notin> m_addr ` set (miners r)"
    using ok same_addr_ok by (auto simp: find_addr_None registry_ok_def miner_ok_def addr_key_def)
  then have "lookup_miner r (addr_key (fst e)) = None" unfolding lookup_miner_def find_None_iff by (metis imageI)
  then show ?thesis using None new_miner_ok(2) [of "fst e"]
    by (auto simp: record_event_def chirp_record_share_def find_or_add_def Let_def lookup_miner_def miner_entry_def
        list_update_append find_snoc split: option.splits)
next
  case (Some i)
  then have i: "i < length (miners r)" and s: "same_addr (m_addr (miners r ! i)) (fst e)" using find_addr_Some [OF Some] by simp_all
  then have k: "m_addr (miners r ! i) = addr_key (fst e)"
    using ok same_addr_ok by (auto simp: registry_ok_def miner_ok_def addr_key_def)
  have d: "distinct (map m_addr (miners r))" using ok by (simp add: registry_ok_def)
  let ?m = "push_share (\<lambda>_. True) (credit_tenure (miners r ! i) (snd (snd e))) (fst (snd e)) (snd (snd e))"
  have l: "lookup_miner r (addr_key (fst e)) = Some (miners r ! i)"
    using find_update [OF d i, of "miners r ! i" "addr_key (fst e)"] k by (simp add: lookup_miner_def)
  have "lookup_miner (record_event r e) b = find (\<lambda>m. m_addr m = b) ((miners r)[i := ?m])"
    using Some by (simp add: record_event_def chirp_record_share_def find_or_add_def lookup_miner_def)
  also have "\<dots> = (if b = m_addr (miners r ! i) then Some ?m else find (\<lambda>m. m_addr m = b) (miners r))"
    using d i by (intro find_update) simp_all
  finally show ?thesis using l k by (simp add: lookup_miner_def miner_entry_def)
qed

interpretation registry: addr_store registry_ok lookup_miner addr_key record_event miner_entry
  by unfold_locales (simp_all add: record_share_lookup, simp add: record_event_def record_share_ok)

section \<open>Tenure\<close>

text \<open>The time credited for shares at the given times: gaps of less than an hour after an earlier share.\<close>

fun credited :: "nat \<Rightarrow> nat list \<Rightarrow> nat" where
  "credited prev [] = 0"
| "credited prev (t # tms) = (if prev \<noteq> 0 \<and> t - prev < 3600 then t - prev else 0) + credited t tms"

definition event_times :: "share_event list \<Rightarrow> nat list" where
  "event_times es = map (\<lambda>e. unat (snd (snd e))) es"

lemma active_push [simp]: "active_secs (push_share al m wk now) = active_secs m" "last_seen (push_share al m wk now) = last_seen m"
  by (simp_all add: push_share_def Let_def)

lemma credit_active:
  assumes "active_secs m = Fin (of_nat n)" "n + credited (unat (last_seen m)) [unat now] < 2 ^ 53"
  shows "active_secs (credit_tenure m now) = Fin (of_nat (n + credited (unat (last_seen m)) [unat now]))"
proof -
  let ?gap = "if now > last_seen m then now - last_seen m else 0"
  have g: "unat ?gap = unat now - unat (last_seen m)" by (simp add: word_less_nat_alt unat_sub_if')
  have z: "last_seen m \<noteq> 0 \<longleftrightarrow> unat (last_seen m) \<noteq> 0" by (simp add: unat_eq_0)
  show ?thesis
  proof (cases "last_seen m \<noteq> 0 \<and> ?gap < CHIRP_ACTIVE_GAP_CAP")
    case True
    then have c: "credited (unat (last_seen m)) [unat now] = unat ?gap"
      using z g by (simp add: word_less_nat_alt CHIRP_ACTIVE_GAP_CAP_def)
    have "unat ?gap < 2 ^ 53" using assms(2) unfolding c by linarith
    then have "of_u64 ?gap = Fin (of_nat (unat ?gap))" by (rule of_u64_exact)
    moreover have "dadd (Fin (of_nat n)) (Fin (of_nat (unat ?gap))) = Fin (of_nat (n + unat ?gap))"
    proof -
      have lt: "n + unat ?gap < 2 ^ 53" using assms(2) unfolding c .
      then have "(of_nat (n + unat ?gap) :: rat) < 2 ^ 53" by (metis of_nat_less_iff of_nat_numeral of_nat_power)
      moreover have "(2::rat) ^ 53 \<le> 2 ^ 1024" by (rule power_increasing) simp_all
      ultimately have "\<bar>rnd (of_nat (n + unat ?gap))\<bar> < 2 ^ 1024" unfolding rnd_nat_exact [OF lt] by linarith
      then show ?thesis using rnd_nat_exact [OF lt] by (simp only: dadd.simps of_nat_add [symmetric] dbl_of_Fin)
    qed
    ultimately show ?thesis using True assms(1) unfolding c by (simp only: credit_tenure_def Let_def if_True simp_thms chirp_miner.simps) simp
  next
    case False
    then have "credited (unat (last_seen m)) [unat now] = 0"
      using z g by (auto simp: word_less_nat_alt CHIRP_ACTIVE_GAP_CAP_def)
    moreover have "active_secs (credit_tenure m now) = active_secs m" using False by (simp only: credit_tenure_def Let_def if_False chirp_miner.simps) simp
    ultimately show ?thesis using assms(1) by simp
  qed
qed

lemma entry_fold:
  "active_secs m = Fin (of_nat n) \<Longrightarrow> n + credited (unat (last_seen m)) (event_times es) < 2 ^ 53 \<Longrightarrow>
    \<exists>m'. foldl (\<lambda>m e. Some (miner_entry m e)) (Some m) es = Some m'
      \<and> active_secs m' = Fin (of_nat (n + credited (unat (last_seen m)) (event_times es)))
      \<and> length (shares m') = length (shares m) + length es"
proof (induction es arbitrary: m n)
  case (Cons e es)
  let ?now = "snd (snd e)" and ?m = "miner_entry (Some m) e"
  let ?c = "credited (unat (last_seen m)) [unat ?now]"
  have t: "credited (unat (last_seen m)) (event_times (e # es)) = ?c + credited (unat ?now) (event_times es)"
    by (simp add: event_times_def)
  have "active_secs ?m = Fin (of_nat (n + ?c))" "last_seen ?m = ?now" "length (shares ?m) = Suc (length (shares m))"
    using credit_active [OF Cons.prems(1), of ?now] Cons.prems(2) unfolding t
    by (simp_all add: miner_entry_def del: of_nat_add) (simp add: push_share_def Let_def)
  with Cons.IH [of ?m "n + ?c"] Cons.prems(2) show ?case unfolding t by (simp add: add.assoc)
qed (simp add: event_times_def)

text \<open>C27: however the shares of different miners interleave, the tenure on record for an address is exactly
  the sum of the gaps of less than an hour between consecutive shares of that address, with no rounding,
  and every one of its shares is on record.\<close>

theorem tenure_exact:
  assumes "es' = filter (\<lambda>e. addr_key (fst e) = b) es" "es' \<noteq> []" "credited 0 (event_times es') < 2 ^ 53"
  shows "\<exists>m. lookup_miner (foldl record_event chirp_init es) b = Some m
     \<and> active_secs m = Fin (of_nat (credited 0 (event_times es'))) \<and> length (shares m) = length es'"
proof -
  obtain e rest where e: "es' = e # rest" using assms(2) by (cases es') auto
  have l: "lookup_miner (foldl record_event chirp_init es) b = foldl (\<lambda>m e. Some (miner_entry m e)) None es'"
    using registry.lookup_record_all [of chirp_init es b] assms(1)
    by (simp add: chirp_init_def registry_ok_def lookup_miner_def)
  let ?m = "new_miner (fst e) (snd (snd e))"
  have "miner_entry None e = miner_entry (Some ?m) e" by (simp add: miner_entry_def)
  then have "foldl (\<lambda>m e. Some (miner_entry m e)) None es' = foldl (\<lambda>m e. Some (miner_entry m e)) (Some ?m) es'"
    unfolding e by simp
  moreover have "\<exists>m'. foldl (\<lambda>m e. Some (miner_entry m e)) (Some ?m) es' = Some m'
      \<and> active_secs m' = Fin (of_nat (0 + credited (unat (last_seen ?m)) (event_times es')))
      \<and> length (shares m') = length (shares ?m) + length es'"
    using assms(3) by (intro entry_fold) (simp_all add: new_miner_def)
  ultimately show ?thesis unfolding l by (simp add: new_miner_def)
qed

theorem tenure_exact_witness:
  "\<exists>m. lookup_miner (foldl record_event chirp_init [(''a'', Fin 1, 100), (''b'', Fin 1, 150), (''a'', Fin 1, 160), (''a'', Fin 1, 9000)]) ''a'' = Some m
     \<and> active_secs m = Fin 60 \<and> length (shares m) = 3"
  using tenure_exact [of "[(''a'', Fin 1, 100), (''a'', Fin 1, 160), (''a'', Fin 1, 9000)]" "''a''"
      "[(''a'', Fin 1, 100), (''b'', Fin 1, 150), (''a'', Fin 1, 160), (''a'', Fin 1, 9000)]"]
  by (simp add: addr_key_def CHIRP_ADDR_MAX_def event_times_def numeral_3_eq_3)

section \<open>The window\<close>

lemma window_loop_filter:
  "i + k = length ss \<Longrightarrow> w \<le> i \<Longrightarrow> window_loop cutoff k i w ss acc = (w', ss', acc') \<Longrightarrow>
    take w' ss' = take w ss @ filter (\<lambda>s. ts s \<ge> cutoff) (drop i ss) \<and> length ss' = length ss
    \<and> acc' = foldl dadd acc (map work (filter (\<lambda>s. ts s \<ge> cutoff) (drop i ss)))"
proof (induction cutoff k i w ss acc rule: window_loop.induct)
  case (2 cutoff k i w ss acc)
  have d: "drop i ss = ss ! i # drop (Suc i) ss" using 2(3) by (simp add: Cons_nth_drop_Suc)
  let ?ss = "ss[w := ss ! i]"
  have dd: "drop (Suc i) ?ss = drop (Suc i) ss" using 2(4) by simp
  have tk: "take (Suc w) ?ss = take w ss @ [ss ! i]" using 2(3,4) by (simp add: take_Suc_conv_app_nth)
  have nth: "?ss ! i = ss ! i" using 2(3,4) by (cases "w = i") simp_all
  show ?case
  proof (cases "ts (ss ! i) \<ge> cutoff")
    case True
    with 2 show ?thesis unfolding d by (simp add: Let_def dd tk nth)
  next
    case False
    with 2 show ?thesis unfolding d by simp
  qed
qed simp

text \<open>Computing the work of the window keeps exactly the shares not older than the window, in order, and
  returns the sum of their work; a second computation at the same time changes nothing.\<close>

theorem window_work_prunes:
  "window_work m now = (foldl dadd (Fin 0) (map work (filter (\<lambda>s. ts s \<ge> window_cutoff now) (shares m))),
     m\<lparr>shares := filter (\<lambda>s. ts s \<ge> window_cutoff now) (shares m)\<rparr>)
   \<and> window_work (snd (window_work m now)) now = window_work m now"
proof -
  have w: "window_work m now = (foldl dadd (Fin 0) (map work (filter (\<lambda>s. ts s \<ge> window_cutoff now) (shares m))),
     m\<lparr>shares := filter (\<lambda>s. ts s \<ge> window_cutoff now) (shares m)\<rparr>)" for m
  proof -
    obtain w' ss' acc' where l: "window_loop (window_cutoff now) (length (shares m)) 0 0 (shares m) (Fin 0) = (w', ss', acc')"
      by (metis prod_cases3)
    with window_loop_filter [OF _ _ l] show ?thesis by (simp add: window_work_def)
  qed
  show ?thesis unfolding w by simp
qed

section \<open>Names\<close>

text \<open>The payout address of a user name has no dot and fits its buffer; for an address without dots that
  fits, it is recovered from both spellings of the name, with and without a worker.\<close>

theorem payout_address_recovered:
  assumes "CHR ''.'' \<notin> set a" "length a < n" "\<not> has_prefix ''sri.lotto.'' (a @ CHR ''.'' # w)"
  shows "chirp_payout_address (a @ CHR ''.'' # w) n = a \<and> chirp_payout_address (''sri.lotto.'' @ a @ CHR ''.'' # w) n = a
    \<and> chirp_payout_address a n = a"
proof -
  have t: "takeWhile (\<lambda>c. c \<noteq> CHR ''.'') (a @ CHR ''.'' # w) = a" "takeWhile (\<lambda>c. c \<noteq> CHR ''.'') a = a"
    using assms(1) by (induction a) auto
  have p: "has_prefix ''sri.lotto.'' (''sri.lotto.'' @ x)" for x by (simp add: has_prefix_def)
  have np: "\<not> has_prefix ''sri.lotto.'' a"
  proof
    assume "has_prefix ''sri.lotto.'' a"
    then have e: "take (length ''sri.lotto.'') a = ''sri.lotto.''" unfolding has_prefix_def .
    have "CHR ''.'' \<in> set (take (length ''sri.lotto.'') a)" unfolding e by simp
    then show False using assms(1) by (meson in_set_takeD)
  qed
  have d: "drop 10 (''sri.lotto.'' @ x) = x" for x :: string by simp
  have n: "take (n - 1) a = a" using assms(2) by simp
  show ?thesis
    unfolding chirp_payout_address_def Let_def using assms(3) np by (simp only: p d t n if_True if_False simp_thms)
qed

theorem payout_address_recovered_witness:
  "chirp_payout_address ''sri.lotto.bc1qx.rig1'' 128 = ''bc1qx'' \<and> chirp_payout_address ''bc1qx.rig1'' 128 = ''bc1qx''"
  using payout_address_recovered [of "''bc1qx''" 128 "''rig1''"] by (simp add: has_prefix_def)

end
