(* ===== verification/Coinbase.thy ===== *)
theory Coinbase
  imports Hex Targets
begin

text \<open>
  The generation transaction, \<^verbatim>\<open>src/src/datum_coinbaser.c\<close>. The transaction of a job is kept as two
  pieces of hex text, \<open>coinb1\<close> and \<open>coinb2\<close>; a miner's 12 extranonce bytes stand between them, either at
  the end of the input script or in an \<^verbatim>\<open>OP_RETURN\<close> output. Text appended at an index of a buffer is
  text appended to a string. Several pairs are made per job, for miners with different limits on
  their sizes. The theory also holds the per-user transaction of \<^verbatim>\<open>datum_blake2b_build_user_coinbase\<close>
  and the parser of the outputs sent by the pool, \<^verbatim>\<open>datum_coinbaser_v2_parse\<close>.
\<close>

section \<open>The input script\<close>

record cb_conf =
  datum_active :: bool
  tag_primary :: string
  override_tag_primary :: string
  tag_secondary :: string
  prime_id :: u32
  coinbase_unique_id :: u32
  mining_pool_address :: string
  override_mining_pool_scriptsig :: bytes
  mining_blake2b_chirp :: bool

record cb_template =
  header_version :: nat
  blake2b_headline :: bytes
  default_witness_commitment :: string
  sizelimit :: int
  weightlimit :: int
  txn_total_size :: int
  txn_total_weight :: int

definition MAX_COINBASE_TAG_SPACE :: int where
  "MAX_COINBASE_TAG_SPACE = 86"

definition headline_of :: "cb_template option \<Rightarrow> bytes" where
  "headline_of tmpl = (case tmpl of None \<Rightarrow> [] | Some t \<Rightarrow> if header_version t \<ge> 2 then blake2b_headline t else [])"

definition push_prefix :: "int \<Rightarrow> bytes" where
  "push_prefix k = (if k \<le> 75 then [word_of_int k] else [0x4C, word_of_int k])"

definition headline_push :: "bytes \<Rightarrow> bytes" where
  "headline_push hl = (if hl = [] then [] else push_prefix (int (length hl)) @ hl)"

definition secondary_tag :: "cb_conf \<Rightarrow> string \<Rightarrow> string" where
  "secondary_tag conf sup_name =
     take 95 (if sup_name \<noteq> [] then
                (if tag_secondary conf \<noteq> [] then tag_secondary conf @ ''/'' @ sup_name else sup_name)
              else tag_secondary conf)"

text \<open>
  The lengths of the tags made to fit, and the length of the push; the third component tells whether the
  push still does not fit, which panics. Removing the secondary tag subtracts its new length, 0, and 1.
\<close>

definition tag_fit :: "int \<Rightarrow> int \<Rightarrow> int \<Rightarrow> int \<times> int" where
  "tag_fit t0 t1 max_tag_space =
     (let k = t0 + t1 + 2;
          k = (if t1 = 0 then (if t0 = 0 then k - 2 else k - 1) else k)
      in if k > max_tag_space
         then let excess = k - max_tag_space
              in if t1 > excess then (t1 - excess, max_tag_space)
                 else if t1 \<noteq> 0 then (0, k - (0 + 1)) else (t1, k)
         else (t1, k))"

definition tag_bytes :: "bytes \<Rightarrow> bytes \<Rightarrow> int \<Rightarrow> bytes" where
  "tag_bytes tag0 tag1 k =
     (if k > 0 then
        push_prefix k
        @ (if tag0 \<noteq> [] then tag0 @ (if tag1 = [] then [0x00] else [0x2F])
           else if tag1 \<noteq> [] then [0x2F] else [])
        @ (if tag1 \<noteq> [] then tag1 @ [0x00] else [])
      else [0x01, 0x00])"

definition uid_bytes :: "cb_conf \<Rightarrow> bytes" where
  "uid_bytes conf =
     (let uid = coinbase_unique_id conf; pid = prime_id conf
      in if pid = 0 \<and> \<not> datum_active conf
         then [0x03, 0xFF, ucast uid, ucast (drop_bit 8 uid)]
         else [0x07, 0xFF, ucast uid, ucast (drop_bit 8 uid),
               ucast pid, ucast (drop_bit 8 pid), ucast (drop_bit 16 pid), ucast (drop_bit 24 pid)])"

text \<open>The text of the input script and the position of the target byte in it; \<open>None\<close> is the panic.\<close>

definition generate_coinbase_input :: "cb_conf \<Rightarrow> u64 \<Rightarrow> cb_template option \<Rightarrow> string \<Rightarrow> (string \<times> nat) option" where
  "generate_coinbase_input conf height tmpl sup_name =
     (let cb = append_UNum_hex height;
          hl = headline_of tmpl;
          max_tag_space = MAX_COINBASE_TAG_SPACE - (if hl \<noteq> [] then int (length hl) + 2 else 0);
          max_tag_space = (if max_tag_space < 0 then 0 else max_tag_space);
          cb = cb @ hex_of (headline_push hl);
          tag0 = map byte_of (if \<not> datum_active conf then tag_primary conf else override_tag_primary conf);
          sec_tag = map byte_of (secondary_tag conf sup_name);
          (t1, k) = tag_fit (int (length tag0)) (int (length sec_tag)) max_tag_space
      in if k > max_tag_space then None
         else let cb = cb @ hex_of (tag_bytes tag0 (take (nat t1) sec_tag) k)
              in Some (cb @ hex_of (uid_bytes conf), length cb div 2 + 1))"

section \<open>Outputs that fit\<close>

record cb_output =
  output_script :: bytes
  value_sats :: u64

record cb_job =
  height :: u32
  coinbase_value :: u64
  enprefix :: u16
  pool_addr_script :: bytes
  carousel_supplier_name :: string
  block_template :: cb_template

definition out_cost :: "cb_output \<Rightarrow> int" where
  "out_cost x = int (length (output_script x)) + 9"

definition takes_output :: "u64 \<Rightarrow> int \<Rightarrow> u64 \<Rightarrow> cb_output \<Rightarrow> bool" where
  "takes_output cbv room mval x \<longleftrightarrow> out_cost x \<le> room \<and> mval + value_sats x \<le> cbv"

text \<open>The counting loop: how many outputs go in at all, and how many of them in \<open>coinb1\<close> of the special type.\<close>

fun count_outputs :: "u64 \<Rightarrow> bool \<Rightarrow> cb_output list \<Rightarrow> int \<Rightarrow> int \<Rightarrow> bool \<Rightarrow> nat \<Rightarrow> nat \<Rightarrow> u64 \<Rightarrow> nat \<times> nat" where
  "count_outputs cbv special [] i i2 c1full c1cnt m mval = (c1cnt, m)"
| "count_outputs cbv special (x # xs) i i2 c1full c1cnt m mval =
     (if takes_output cbv i mval x
      then let inc1 = (special \<and> \<not> c1full \<and> out_cost x \<le> i2);
               i2 = (if inc1 then i2 - out_cost x else i2);
               c1cnt = (if inc1 then Suc c1cnt else c1cnt);
               c1full = (if inc1 then c1full else True);
               i = i - out_cost x; m = Suc m; mval = mval + value_sats x
           in if i < 30 \<or> mval \<ge> cbv then (c1cnt, m)
              else count_outputs cbv special xs i i2 c1full c1cnt m mval
      else count_outputs cbv special xs i i2 c1full c1cnt m mval)"

definition out_hex :: "u64 \<Rightarrow> bytes \<Rightarrow> string" where
  "out_hex v script = fmt_hex 16 (unat (builtin_bswap 8 v)) @ append_bitcoin_varint_hex (word_of_nat (length script)) @ hex_of script"

definition en_output_hex :: "u16 \<Rightarrow> string" where
  "en_output_hex enp = ''0000000000000000106a0e'' @ fmt_hex 4 (unat enp)"

record emitted =
  e_mval :: u64
  e_c1 :: string
  e_c2 :: string
  e_en :: bool

text \<open>Emitting output number \<open>k\<close>, and the loop with the outputs left to count down \<open>m\<close>.\<close>

definition emit_one :: "bool \<Rightarrow> nat \<Rightarrow> u16 \<Rightarrow> nat \<Rightarrow> cb_output \<Rightarrow> emitted \<Rightarrow> emitted" where
  "emit_one special c1cnt enp k x e =
     (let e = e\<lparr>e_mval := e_mval e + value_sats x\<rparr>;
          o_hex = out_hex (value_sats x) (output_script x)
      in if special \<and> k < c1cnt then e\<lparr>e_c1 := e_c1 e @ o_hex\<rparr>
         else let e = (if special \<and> k = c1cnt then e\<lparr>e_c1 := e_c1 e @ en_output_hex enp, e_en := True\<rparr> else e)
              in e\<lparr>e_c2 := e_c2 e @ o_hex\<rparr>)"

fun emit_outputs :: "u64 \<Rightarrow> bool \<Rightarrow> nat \<Rightarrow> u16 \<Rightarrow> cb_output list \<Rightarrow> nat \<Rightarrow> int \<Rightarrow> nat \<Rightarrow> emitted \<Rightarrow> emitted" where
  "emit_outputs cbv special c1cnt enp [] k j m e = e"
| "emit_outputs cbv special c1cnt enp (x # xs) k j m e =
     (if takes_output cbv j (e_mval e) x
      then let j = j - out_cost x; m = m - 1; e = emit_one special c1cnt enp k x e
           in if m = 0 \<or> j < 30 \<or> e_mval e \<ge> cbv then e
              else emit_outputs cbv special c1cnt enp xs (Suc k) j m e
      else emit_outputs cbv special c1cnt enp xs (Suc k) j m e)"

definition witness_hex :: "cb_job \<Rightarrow> string" where
  "witness_hex s = (let w = default_witness_commitment (block_template s)
     in ''0000000000000000'' @ fmt_hex 2 (length w div 2) @ w)"

definition ff_seq :: string where "ff_seq = ''ffffffff''"

text \<open>\<open>c1\<close> is the start of \<open>coinb1\<close> made by the caller; \<open>coinb2\<close> is still empty.\<close>

definition generate_coinbase_txns_for_stratum_job_subtypebysize ::
  "cb_job \<Rightarrow> cb_output list \<Rightarrow> int \<Rightarrow> bool \<Rightarrow> bool \<Rightarrow> string \<Rightarrow> string \<times> string" where
  "generate_coinbase_txns_for_stratum_job_subtypebysize s outs remaining_size space_for_en special c1 =
     (let cbv = coinbase_value s;
          i2 = (if special then max 0 ((300 - int (length c1)) div 2) else 0);
          space_for_en = (if special then False else space_for_en);
          (c1cnt, m) = count_outputs cbv special outs remaining_size i2 False 0 0 0;
          (c1, c2, en_done, m) =
            (if space_for_en then (c1, ff_seq @ append_bitcoin_varint_hex (word_of_nat (m + 2)), False, m + 2)
             else let c1 = c1 @ append_bitcoin_varint_hex (word_of_nat (m + 3))
                  in if \<not> special then (c1 @ en_output_hex (enprefix s), '''', True, m + 3) else (c1, '''', False, m + 3));
          e = emit_outputs cbv special c1cnt (enprefix s) outs 0 remaining_size m
                \<lparr>e_mval = 0, e_c1 = c1, e_c2 = c2, e_en = en_done\<rparr>;
          c1 = (if \<not> space_for_en \<and> \<not> e_en e then e_c1 e @ en_output_hex (enprefix s) else e_c1 e);
          c2 = e_c2 e @ (if cbv > e_mval e then out_hex (cbv - e_mval e) (pool_addr_script s)
                         else ''0000000000000000036a0100'')
      in (c1, c2 @ witness_hex s @ ''00000000''))"

text \<open>The division by 4 of a weight is an arithmetic right shift.\<close>

definition datum_stratum_coinbase_fit_to_template :: "int \<Rightarrow> int \<Rightarrow> cb_template \<Rightarrow> int" where
  "datum_stratum_coinbase_fit_to_template max_sz fixed_bytes t =
     (let i = fixed_bytes + max_sz;
          header_extra = (if header_version t \<ge> 2 then 84 else 0);
          over_size = i + txn_total_size t + 85 + 36 + header_extra > sizelimit t;
          j1 = sizelimit t - (txn_total_size t + 85 + 36 + header_extra) - fixed_bytes;
          over_weight = i * 4 + txn_total_weight t + 340 + 36 > weightlimit t;
          j2 = (weightlimit t - (txn_total_weight t + 340 + 36)) div 4 - fixed_bytes
      in if over_size \<and> j1 < 0 then 0
         else if over_weight \<and> j2 < 0 then 0
         else let msz1 = (if over_weight then j2 else if over_size then j1 else max_sz + fixed_bytes);
                  msz1 = (if msz1 < 0 then 0 else msz1)
              in if msz1 < max_sz - fixed_bytes then msz1 else max_sz - fixed_bytes)"

section \<open>All transactions of a job\<close>

definition cbstart_hex :: string where
  "cbstart_hex = ''01000000010000000000000000000000000000000000000000000000000000000000000000ffffffff''"

text \<open>The start of \<open>coinb1\<close>: with the extranonce in the input script, or with the sequence number after it.\<close>

definition coinb1_start :: "bool \<Rightarrow> string \<Rightarrow> u16 \<Rightarrow> string" where
  "coinb1_start en_in_script cb enp =
     (let sz = length cb div 2
      in cbstart_hex @ append_bitcoin_varint_hex (word_of_nat (if en_in_script then sz + 15 else sz)) @ cb
         @ (if en_in_script then uchar_to_hex 0x0E @ fmt_hex 4 (unat enp) else ff_seq))"

record cb_pair =
  coinb1 :: string
  coinb2 :: string

text \<open>The transaction that only pays the pool, and the one without the other transactions' fees.\<close>

definition empty_coinbase :: "cb_job \<Rightarrow> bool \<Rightarrow> string \<Rightarrow> cb_pair \<times> cb_pair" where
  "empty_coinbase s space_for_en c1 =
     (let pool = out_hex (coinbase_value s) (pool_addr_script s);
          sub_pool = fmt_hex 16 (unat (builtin_bswap 8 (block_reward (height s)))) @ drop 16 pool;
          tail_hex = witness_hex s @ ''00000000''
      in if space_for_en
         then (\<lparr>coinb1 = c1, coinb2 = ff_seq @ append_bitcoin_varint_hex 2 @ pool @ tail_hex\<rparr>,
               \<lparr>coinb1 = c1, coinb2 = ff_seq @ append_bitcoin_varint_hex 1 @ sub_pool @ ''00000000''\<rparr>)
         else (\<lparr>coinb1 = c1 @ append_bitcoin_varint_hex 3 @ en_output_hex (enprefix s), coinb2 = pool @ tail_hex\<rparr>,
               \<lparr>coinb1 = c1 @ append_bitcoin_varint_hex 2 @ en_output_hex (enprefix s), coinb2 = sub_pool @ ''00000000''\<rparr>))"

text \<open>The subsidy-only transaction is \<open>None\<close> when it is left as it was.\<close>

record cb_result =
  coinbases :: "cb_pair list"
  subsidy_only :: "cb_pair option"
  target_pot_index :: nat
  blake2b_coinbase_index :: nat

text \<open>
  The script of the pool's own output: the one sent by the pool, or the script of the configured address,
  where \<open>addr_script\<close> is \<^verbatim>\<open>addr_2_output_script\<close>.
\<close>

definition set_pool_script :: "(string \<Rightarrow> bytes) \<Rightarrow> cb_conf \<Rightarrow> cb_job \<Rightarrow> cb_job" where
  "set_pool_script addr_script conf s = s\<lparr>pool_addr_script :=
     (if datum_active conf then override_mining_pool_scriptsig conf else addr_script (mining_pool_address conf))\<rparr>"

definition generate_base_coinbase_txns_for_stratum_job ::
  "(string \<Rightarrow> bytes) \<Rightarrow> cb_conf \<Rightarrow> cb_job \<Rightarrow> bool \<Rightarrow> (cb_pair \<times> cb_pair option \<times> nat) option" where
  "generate_base_coinbase_txns_for_stratum_job addr_script conf s new_block =
     (let s = set_pool_script addr_script conf s
      in if pool_addr_script s = [] then None
         else case generate_coinbase_input conf (ucast (height s)) (Some (block_template s)) (carousel_supplier_name s) of
           None \<Rightarrow> None
         | Some (cb, pot) \<Rightarrow>
             (let space_for_en = (length cb div 2 \<le> 85);
                  (e, sub) = empty_coinbase s space_for_en (coinb1_start space_for_en cb (enprefix s))
              in Some (e, if new_block then Some sub else None, pot + (length cbstart_hex + 2) div 2)))"

definition cb_req_sz :: "cb_job \<Rightarrow> bool \<Rightarrow> int \<Rightarrow> nat \<Rightarrow> int" where
  "cb_req_sz s space_for_en cb_input_sz ty =
     119 + int (length (pool_addr_script s)) + cb_input_sz + (if \<not> space_for_en \<or> ty = 2 then 10 else 0)"

definition type_max :: "nat \<Rightarrow> int" where
  "type_max ty = [0, 500, 755, 6500, 16000, 2250] ! ty"

text \<open>The outputs of the payout engine, \<open>fill\<close>, are asked for when no pool is connected and none are there.\<close>

definition available_outputs :: "(cb_job \<Rightarrow> cb_output list) \<Rightarrow> cb_conf \<Rightarrow> cb_job \<Rightarrow> cb_output list \<Rightarrow> cb_output list" where
  "available_outputs fill conf s outs =
     (if \<not> datum_active conf \<and> mining_blake2b_chirp conf \<and> header_version (block_template s) \<ge> 2 \<and> outs = []
      then fill s else outs)"

definition type_coinbase :: "cb_job \<Rightarrow> cb_output list \<Rightarrow> string \<Rightarrow> nat \<Rightarrow> cb_pair" where
  "type_coinbase s outs cb ty =
     (let sz = length cb div 2;
          space_for_en = (sz \<le> 85);
          room = datum_stratum_coinbase_fit_to_template (type_max ty) (cb_req_sz s space_for_en (int sz) ty) (block_template s);
          (c1, c2) = generate_coinbase_txns_for_stratum_job_subtypebysize s outs room (ty \<noteq> 2 \<and> space_for_en) (ty = 2)
                       (coinb1_start (ty \<noteq> 2 \<and> space_for_en) cb (enprefix s))
      in \<lparr>coinb1 = c1, coinb2 = c2\<rparr>)"

definition generate_coinbase_txns_for_stratum_job ::
  "(string \<Rightarrow> bytes) \<Rightarrow> (cb_job \<Rightarrow> cb_output list) \<Rightarrow> cb_conf \<Rightarrow> cb_job \<Rightarrow> cb_output list \<Rightarrow> bool \<Rightarrow> cb_result option" where
  "generate_coinbase_txns_for_stratum_job addr_script fill conf s outs empty_only =
     (let s = set_pool_script addr_script conf s;
          outs = available_outputs fill conf s outs;
          empty_only = (if outs = [] then True else empty_only)
      in if pool_addr_script s = [] then None
         else case generate_coinbase_input conf (ucast (height s)) (Some (block_template s)) (carousel_supplier_name s) of
           None \<Rightarrow> None
         | Some (cb, pot) \<Rightarrow>
             (let space_for_en = (length cb div 2 \<le> 85);
                  (e, sub) = empty_coinbase s space_for_en (coinb1_start space_for_en cb (enprefix s))
              in Some \<lparr>coinbases = (if empty_only then replicate 6 e else e # map (type_coinbase s outs cb) [1, 2, 3, 4, 5]),
                       subsidy_only = (if empty_only then Some sub else None),
                       target_pot_index = pot + (length cbstart_hex + 2) div 2,
                       blake2b_coinbase_index = (if empty_only then 0 else 4)\<rparr>))"

section \<open>Transactions\<close>

text \<open>
  A reference serialization of a generation transaction and its parser, following the Bitcoin wire format:
  version 1, one input that spends nothing, its script and sequence number, the outputs, lock time 0.
\<close>

definition compact :: "nat \<Rightarrow> bytes" where
  "compact n = (if n < 0xFD then [word_of_nat n] else if n \<le> 0xFFFF then 0xFD # le_bytes 2 n
     else if n \<le> 0xFFFFFFFF then 0xFE # le_bytes 4 n else 0xFF # le_bytes 8 n)"

type_synonym txout = "nat \<times> bytes"

definition ser_out :: "txout \<Rightarrow> bytes" where
  "ser_out x = le_bytes 8 (fst x) @ compact (length (snd x)) @ snd x"

definition tx_start :: bytes where
  "tx_start = [1, 0, 0, 0, 1] @ replicate 32 0 @ replicate 4 0xff"

definition ser_tx :: "bytes \<Rightarrow> txout list \<Rightarrow> bytes" where
  "ser_tx script outs = tx_start @ compact (length script) @ script @ replicate 4 0xff
     @ compact (length outs) @ concat (map ser_out outs) @ replicate 4 0"

definition take_exact :: "nat \<Rightarrow> bytes \<Rightarrow> (bytes \<times> bytes) option" where
  "take_exact n bs = (if length bs < n then None else Some (take n bs, drop n bs))"

definition parse_out :: "bytes \<Rightarrow> (txout \<times> bytes) option" where
  "parse_out bs = (case take_exact 8 bs of None \<Rightarrow> None | Some (v, bs) \<Rightarrow>
     (case read_compact_size bs of None \<Rightarrow> None | Some (n, bs) \<Rightarrow>
        (case take_exact n bs of None \<Rightarrow> None | Some (sc, bs) \<Rightarrow> Some ((le_val v, sc), bs))))"

fun parse_outs :: "nat \<Rightarrow> bytes \<Rightarrow> (txout list \<times> bytes) option" where
  "parse_outs 0 bs = Some ([], bs)"
| "parse_outs (Suc n) bs = (case parse_out bs of None \<Rightarrow> None | Some (x, bs) \<Rightarrow>
     (case parse_outs n bs of None \<Rightarrow> None | Some (xs, bs) \<Rightarrow> Some (x # xs, bs)))"

definition parse_tx :: "bytes \<Rightarrow> (bytes \<times> txout list) option" where
  "parse_tx bs = (case take_exact 41 bs of None \<Rightarrow> None | Some (st, bs) \<Rightarrow>
     if st \<noteq> tx_start then None
     else (case read_compact_size bs of None \<Rightarrow> None | Some (n, bs) \<Rightarrow>
       (case take_exact n bs of None \<Rightarrow> None | Some (sc, bs) \<Rightarrow>
         (case take_exact 4 bs of None \<Rightarrow> None | Some (sq, bs) \<Rightarrow>
           if sq \<noteq> replicate 4 0xff then None
           else (case read_compact_size bs of None \<Rightarrow> None | Some (m, bs) \<Rightarrow>
             (case parse_outs m bs of None \<Rightarrow> None | Some (outs, bs) \<Rightarrow>
               if bs = replicate 4 0 then Some (sc, outs) else None))))))"

lemma varint_compact: "n < 2 ^ 64 \<Longrightarrow> append_bitcoin_varint_hex (word_of_nat n) = hex_of (compact n)"
proof -
  assume n: "n < 2 ^ 64"
  then have u: "unat (word_of_nat n :: u64) = n" by (simp only: unat_of_nat take_bit_eq_mod) simp
  then show ?thesis unfolding append_bitcoin_varint_hex_bytes compact_def
    by (simp add: word_less_nat_alt word_le_nat_alt)
qed

lemma read_compact: "n < 2 ^ 64 \<Longrightarrow> read_compact_size (compact n @ rest) = Some (n, rest)"
proof -
  assume n: "n < 2 ^ 64"
  have w: "unat (word_of_nat n :: u8) = n" if "n < 256" using that by (simp add: unat_of_nat take_bit_eq_mod)
  show ?thesis unfolding compact_def using n w le_val_bytes [of 2 n] le_val_bytes [of 4 n] le_val_bytes [of 8 n]
    by (auto simp: read_compact_size.simps word_less_nat_alt)
qed

lemma take_exact_append: "length a = n \<Longrightarrow> take_exact n (a @ b) = Some (a, b)"
  by (simp add: take_exact_def)

definition txout_ok :: "txout \<Rightarrow> bool" where
  "txout_ok x \<longleftrightarrow> fst x < 2 ^ 64 \<and> length (snd x) < 2 ^ 64"

lemma parse_ser_out: "txout_ok x \<Longrightarrow> parse_out (ser_out x @ rest) = Some (x, rest)"
  by (simp add: parse_out_def ser_out_def txout_ok_def take_exact_append read_compact le_val_bytes)

lemma parse_ser_outs: "list_all txout_ok xs \<Longrightarrow> parse_outs (length xs) (concat (map ser_out xs) @ rest) = Some (xs, rest)"
  by (induction xs) (simp_all add: parse_ser_out)

lemma parse_ser_tx:
  assumes "list_all txout_ok outs" "length script < 2 ^ 64" "length outs < 2 ^ 64"
  shows "parse_tx (ser_tx script outs) = Some (script, outs)"
proof -
  have "length tx_start = 41" by (simp add: tx_start_def)
  then show ?thesis using assms
    by (simp add: parse_tx_def ser_tx_def take_exact_append read_compact parse_ser_outs)
qed

section \<open>Which outputs are taken\<close>

fun selected :: "u64 \<Rightarrow> int \<Rightarrow> u64 \<Rightarrow> cb_output list \<Rightarrow> cb_output list" where
  "selected cbv room mval [] = []"
| "selected cbv room mval (x # xs) =
     (if takes_output cbv room mval x
      then x # (if room - out_cost x < 30 \<or> mval + value_sats x \<ge> cbv then []
                else selected cbv (room - out_cost x) (mval + value_sats x) xs)
      else selected cbv room mval xs)"

lemma count_selected: "snd (count_outputs cbv sp xs i i2 f c m mval) = m + length (selected cbv i mval xs)"
  by (induction xs arbitrary: i i2 f c m mval) (simp_all add: Let_def)

lemma selected_length: "length (selected cbv room mval xs) \<le> length xs"
  by (induction xs arbitrary: room mval) (auto simp: le_SucI)

lemma selected_set: "set (selected cbv room mval xs) \<subseteq> set xs"
  by (induction xs arbitrary: room mval) auto

definition outs_hex :: "cb_output list \<Rightarrow> string" where
  "outs_hex xs = concat (map (\<lambda>x. out_hex (value_sats x) (output_script x)) xs)"

definition sum_sats :: "cb_output list \<Rightarrow> u64" where
  "sum_sats xs = sum_list (map value_sats xs)"

lemma outs_hex_simps [simp]: "outs_hex [] = ''''" "outs_hex (x # xs) = out_hex (value_sats x) (output_script x) @ outs_hex xs"
  "outs_hex (xs @ ys) = outs_hex xs @ outs_hex ys"
  by (simp_all add: outs_hex_def)

lemma sum_sats_simps [simp]: "sum_sats [] = 0" "sum_sats (x # xs) = value_sats x + sum_sats xs"
  by (simp_all add: sum_sats_def)

text \<open>
  The emitting loop puts the taken outputs, in order, first into \<open>coinb1\<close> and then into \<open>coinb2\<close>; the
  extranonce output follows the ones in \<open>coinb1\<close>, at the latest when the loop is over.
\<close>

definition close_en :: "bool \<Rightarrow> u16 \<Rightarrow> emitted \<Rightarrow> string" where
  "close_en sp enp e = (if sp \<and> \<not> e_en e then e_c1 e @ en_output_hex enp else e_c1 e)"

lemma emit_split:
  assumes "length (selected cbv j (e_mval e) xs) < m" and "e_en e \<longrightarrow> \<not> sp \<or> c1cnt < k"
  shows "\<exists>A B. selected cbv j (e_mval e) xs = A @ B
     \<and> e_mval (emit_outputs cbv sp c1cnt enp xs k j m e) = e_mval e + sum_sats (A @ B)
     \<and> close_en sp enp (emit_outputs cbv sp c1cnt enp xs k j m e)
         = e_c1 e @ outs_hex A @ (if sp \<and> \<not> e_en e then en_output_hex enp else '''')
     \<and> e_c2 (emit_outputs cbv sp c1cnt enp xs k j m e) = e_c2 e @ outs_hex B \<and> (\<not> sp \<or> c1cnt \<le> k \<longrightarrow> A = [])
     \<and> (\<not> sp \<longrightarrow> e_en (emit_outputs cbv sp c1cnt enp xs k j m e) = e_en e)"
  using assms
proof (induction xs arbitrary: k j m e)
  case Nil
  then show ?case by (simp add: close_en_def)
next
  case (Cons x xs)
  show ?case
  proof (cases "takes_output cbv j (e_mval e) x")
    case False
    have pre: "length (selected cbv j (e_mval e) xs) < m" "e_en e \<longrightarrow> \<not> sp \<or> c1cnt < Suc k" using Cons.prems False by auto
    have e: "emit_outputs cbv sp c1cnt enp (x # xs) k j m e = emit_outputs cbv sp c1cnt enp xs (Suc k) j m e"
      "selected cbv j (e_mval e) (x # xs) = selected cbv j (e_mval e) xs" using False by simp_all
    obtain A B where "selected cbv j (e_mval e) xs = A @ B"
         "e_mval (emit_outputs cbv sp c1cnt enp xs (Suc k) j m e) = e_mval e + sum_sats (A @ B)"
         "close_en sp enp (emit_outputs cbv sp c1cnt enp xs (Suc k) j m e)
             = e_c1 e @ outs_hex A @ (if sp \<and> \<not> e_en e then en_output_hex enp else '''')"
         "e_c2 (emit_outputs cbv sp c1cnt enp xs (Suc k) j m e) = e_c2 e @ outs_hex B" "\<not> sp \<or> c1cnt \<le> Suc k \<longrightarrow> A = []"
         "\<not> sp \<longrightarrow> e_en (emit_outputs cbv sp c1cnt enp xs (Suc k) j m e) = e_en e"
      using Cons.IH [OF pre] by blast
    then show ?thesis unfolding e by - (rule exI [of _ A], rule exI [of _ B], auto)
  next
    case True
    let ?o = "out_hex (value_sats x) (output_script x)"
    let ?mv = "e_mval e + value_sats x" and ?j = "j - out_cost x"
    define inc1 where "inc1 \<longleftrightarrow> sp \<and> k < c1cnt"
    define close where "close \<longleftrightarrow> sp \<and> k = c1cnt"
    define e' where "e' = emit_one sp c1cnt enp k x e"
    have e': "e_mval e' = ?mv" "e_c1 e' = e_c1 e @ (if inc1 then ?o else if close then en_output_hex enp else '''')"
      "e_c2 e' = e_c2 e @ (if inc1 then '''' else ?o)" "e_en e' = (e_en e \<or> close)"
      by (auto simp: e'_def emit_one_def Let_def inc1_def close_def)
    have excl: "inc1 \<Longrightarrow> \<not> close" "inc1 \<Longrightarrow> sp" "close \<Longrightarrow> sp" by (auto simp: inc1_def close_def)
    have step: "emit_outputs cbv sp c1cnt enp (x # xs) k j m e =
       (if m - 1 = 0 \<or> ?j < 30 \<or> ?mv \<ge> cbv then e' else emit_outputs cbv sp c1cnt enp xs (Suc k) ?j (m - 1) e')"
      using True e'(1) by (simp add: Let_def e'_def)
    have ms: "length (selected cbv j (e_mval e) (x # xs)) < m" using Cons.prems(1) .
    have ne: "inc1 \<or> close \<Longrightarrow> \<not> e_en e" using Cons.prems(2) by (auto simp: inc1_def close_def)
    have inc: "\<not> close \<and> sp \<and> \<not> e_en e \<and> \<not> c1cnt \<le> k" if inc1
      using that excl ne unfolding inc1_def by linarith
    show ?thesis
    proof (cases "?j < 30 \<or> ?mv \<ge> cbv")
      case stop: True
      then have r: "emit_outputs cbv sp c1cnt enp (x # xs) k j m e = e'" unfolding step by auto
      have sel: "selected cbv j (e_mval e) (x # xs) = [x]" using True stop by auto
      show ?thesis
      proof (cases inc1)
        case True
        note f = inc [OF True]
        show ?thesis unfolding r sel
          by (rule exI [of _ "[x]"], rule exI [of _ "[]"]) (simp add: e' close_en_def True f)
      next
        case False
        show ?thesis unfolding r sel using ne excl
          by - (rule exI [of _ "[]"], rule exI [of _ "[x]"], cases close, simp_all add: e' close_en_def False)
      qed
    next
      case go: False
      have sel: "selected cbv j (e_mval e) (x # xs) = x # selected cbv ?j (e_mval e') xs" using True go by (simp add: e')
      have lt: "length (selected cbv ?j (e_mval e') xs) < m - 1" using ms unfolding sel by simp
      then have r: "emit_outputs cbv sp c1cnt enp (x # xs) k j m e = emit_outputs cbv sp c1cnt enp xs (Suc k) ?j (m - 1) e'"
        unfolding step using go by auto
      have "e_en e' \<longrightarrow> \<not> sp \<or> c1cnt < Suc k" using Cons.prems(2) by (auto simp: e' close_def)
      with lt obtain A B where AB: "selected cbv ?j (e_mval e') xs = A @ B"
         "e_mval (emit_outputs cbv sp c1cnt enp xs (Suc k) ?j (m - 1) e') = e_mval e' + sum_sats (A @ B)"
         "close_en sp enp (emit_outputs cbv sp c1cnt enp xs (Suc k) ?j (m - 1) e')
             = e_c1 e' @ outs_hex A @ (if sp \<and> \<not> e_en e' then en_output_hex enp else '''')"
         "e_c2 (emit_outputs cbv sp c1cnt enp xs (Suc k) ?j (m - 1) e') = e_c2 e' @ outs_hex B" "\<not> sp \<or> c1cnt \<le> Suc k \<longrightarrow> A = []"
         "\<not> sp \<longrightarrow> e_en (emit_outputs cbv sp c1cnt enp xs (Suc k) ?j (m - 1) e') = e_en e'"
        using Cons.IH [of ?j e' "m - 1" "Suc k"] by blast
      show ?thesis
      proof (cases inc1)
        case True
        note f = inc [OF True]
        show ?thesis unfolding r sel AB
          by (rule exI [of _ "x # A"], rule exI [of _ B]) (simp add: e' add.assoc True f)
      next
        case False
        then have "A = []" using AB(5) by (auto simp: inc1_def)
        with False show ?thesis unfolding r sel AB using ne excl AB(6)
          by - (rule exI [of _ "[]"], rule exI [of _ "x # B"], auto simp: e' add.assoc)
      qed
    qed
  qed
qed

section \<open>Both pieces make a transaction\<close>

definition en_prefix :: "u16 \<Rightarrow> bytes" where
  "en_prefix enp = rev (le_bytes 2 (unat enp))"

definition to_txout :: "cb_output \<Rightarrow> txout" where
  "to_txout x = (unat (value_sats x), output_script x)"

definition en_txout :: "u16 \<Rightarrow> bytes \<Rightarrow> txout" where
  "en_txout enp en = (0, [0x6a, 0x0e] @ en_prefix enp @ en)"

lemma length_en_prefix [simp]: "length (en_prefix enp) = 2"
  by (simp add: en_prefix_def)

lemma fmt_hex_en_prefix: "fmt_hex 4 (unat enp) = hex_of (en_prefix enp)"
proof -
  have "le_val (le_bytes 2 (unat enp)) = unat enp"
    using unsigned_less [of enp, where ?'a = nat] by (simp add: le_val_bytes)
  then show ?thesis using fmt_hex_le_val [of "le_bytes 2 (unat enp)"]
    by (simp add: en_prefix_def del: le_bytes.simps) (metis length_le_bytes list.size(3) zero_neq_numeral)
qed

lemma fmt_hex_byte: "n < 256 \<Longrightarrow> fmt_hex 2 n = hex_of [word_of_nat n]"
proof -
  assume "n < 256"
  then have "le_val [word_of_nat n :: u8] = n" by (simp add: unat_of_nat take_bit_eq_mod)
  then show ?thesis using fmt_hex_le_val [of "[word_of_nat n]"] by simp
qed

lemma hexd_value: "hexd 0 = CHR ''0''" "hexd 1 = CHR ''1''" "hexd (Suc 0) = CHR ''1''" "hexd 3 = CHR ''3''" "hexd 6 = CHR ''6''"
    "hexd 10 = CHR ''a''" "hexd 14 = CHR ''e''" "hexd 15 = CHR ''f''"
  by (simp_all add: hexd_def)

lemma le_bytes_zero [simp]: "le_bytes n 0 = replicate n 0"
  by (induction n) simp_all

lemma hex_of_repeat: "hex_of (replicate n b) = concat (replicate n (hex_of [b]))"
  by (induction n) simp_all

lemma concat_rep4: "concat (replicate 4 [x, y]) = [x, y, x, y, x, y, x, y]"
  by (simp add: eval_nat_numeral)

lemma concat_rep8: "concat (replicate 8 x) = concat (replicate 4 x) @ concat (replicate 4 x)"
  by (simp add: eval_nat_numeral)

lemma concat_rep32: "concat (replicate 32 x) = concat (replicate 8 x) @ concat (replicate 8 x) @ concat (replicate 8 x) @ concat (replicate 8 x)"
  by (simp add: eval_nat_numeral)

lemmas hex_literal = hex_of_repeat concat_rep32 concat_rep8 concat_rep4 hexd_value

lemma lit_zero8: "''0000000000000000'' = hex_of (le_bytes 8 0)"
  by (simp add: hex_literal)

lemma lit_zero4: "''00000000'' = hex_of (replicate 4 0)"
  by (simp add: hex_literal)

lemma lit_ff: "ff_seq = hex_of (replicate 4 0xff)"
  by (simp add: ff_seq_def hex_literal)

lemma lit_start: "cbstart_hex = hex_of tx_start"
  unfolding cbstart_hex_def tx_start_def by (simp add: hex_literal)

lemma lit_dead: "''0000000000000000036a0100'' = hex_of (ser_out (0, [0x6a, 0x01, 0x00]))"
  by (simp add: ser_out_def compact_def hex_literal)

lemma out_hex_bytes: "length script < 2 ^ 64 \<Longrightarrow> out_hex v script = hex_of (ser_out (unat v, script))"
  using fmt_hex_bswap [of 8 v] by (simp add: out_hex_def ser_out_def varint_compact)

lemma outs_hex_bytes: "list_all (\<lambda>x. length (output_script x) < 2 ^ 64) xs \<Longrightarrow> outs_hex xs = hex_of (concat (map (ser_out \<circ> to_txout) xs))"
  by (induction xs) (simp_all add: out_hex_bytes to_txout_def)

text \<open>The start of the extranonce output, completed by the 12 bytes between the pieces.\<close>

lemma en_output_bytes:
  "length en = 12 \<Longrightarrow> \<exists>bs. en_output_hex enp = hex_of bs \<and> bs @ en = ser_out (en_txout enp en)"
proof (rule exI [of _ "le_bytes 8 0 @ [0x10, 0x6a, 0x0e] @ en_prefix enp"], rule conjI)
  show "en_output_hex enp = hex_of (le_bytes 8 0 @ [0x10, 0x6a, 0x0e] @ en_prefix enp)"
    by (simp add: en_output_hex_def fmt_hex_en_prefix hex_literal)
qed (simp add: ser_out_def en_txout_def compact_def)

lemma witness_hex_bytes:
  assumes "default_witness_commitment (block_template s) = hex_of wc" "length wc < 0xFD"
  shows "witness_hex s = hex_of (ser_out (0, wc))"
  using assms by (simp add: witness_hex_def Let_def lit_zero8 fmt_hex_byte ser_out_def compact_def del: le_bytes.simps)

definition rest_txout :: "cb_job \<Rightarrow> u64 \<Rightarrow> txout" where
  "rest_txout s mval = (if coinbase_value s > mval then (unat (coinbase_value s - mval), pool_addr_script s)
     else (0, [0x6a, 0x01, 0x00]))"

definition coinbase_outs :: "cb_job \<Rightarrow> bool \<Rightarrow> bytes \<Rightarrow> bytes \<Rightarrow> cb_output list \<Rightarrow> cb_output list \<Rightarrow> txout list" where
  "coinbase_outs s en_in_script en wc A B =
     map to_txout A @ (if en_in_script then [] else [en_txout (enprefix s) en]) @ map to_txout B
     @ [rest_txout s (sum_sats (A @ B)), (0, wc)]"

definition coinbase_script :: "bytes \<Rightarrow> bool \<Rightarrow> u16 \<Rightarrow> bytes \<Rightarrow> bytes" where
  "coinbase_script cbs en_in_script enp en = (if en_in_script then cbs @ 0x0e # en_prefix enp @ en else cbs)"

definition job_ok :: "cb_job \<Rightarrow> bytes \<Rightarrow> cb_output list \<Rightarrow> bool" where
  "job_ok s wc outs \<longleftrightarrow> length (pool_addr_script s) \<le> 64 \<and> default_witness_commitment (block_template s) = hex_of wc
     \<and> length wc \<le> 47 \<and> length outs \<le> 512 \<and> list_all (\<lambda>x. length (output_script x) \<le> 64) outs
     \<and> sum_list (map (unat \<circ> value_sats) outs) < 2 ^ 64"

lemma coinb1_start_bytes:
  assumes "length cbs < 2 ^ 32"
  shows "coinb1_start b (hex_of cbs) enp = hex_of (tx_start @ compact (length cbs + (if b then 15 else 0)) @ cbs
    @ (if b then 0x0e # en_prefix enp else replicate 4 0xff))"
proof -
  have "uchar_to_hex 0x0E = hex_of [0x0e]" by (simp add: hexd_value)
  then show ?thesis using assms
    by (simp add: coinb1_start_def Let_def lit_start varint_compact lit_ff fmt_hex_en_prefix del: uchar_to_hex_digits of_nat_add)
qed

lemma rest_hex: "length (pool_addr_script s) \<le> 64 \<Longrightarrow>
    (if coinbase_value s > mval then out_hex (coinbase_value s - mval) (pool_addr_script s) else ''0000000000000000036a0100'')
    = hex_of (ser_out (rest_txout s mval))"
  by (simp add: rest_txout_def out_hex_bytes lit_dead del: hex_of_simps)

lemma subtype_tx:
  assumes ok: "job_ok s wc outs" and cbs: "length cbs < 2 ^ 32" and en: "length en = 12"
    and inscript_def: "inscript = (space_for_en \<and> \<not> special)"
  shows "\<exists>A B b1 b2. selected (coinbase_value s) room 0 outs = A @ B
    \<and> generate_coinbase_txns_for_stratum_job_subtypebysize s outs room space_for_en special
        (coinb1_start inscript (hex_of cbs) (enprefix s)) = (hex_of b1, hex_of b2)
    \<and> b1 @ en @ b2 = ser_tx (coinbase_script cbs inscript (enprefix s) en) (coinbase_outs s inscript en wc A B)"
proof -
  let ?cbv = "coinbase_value s" and ?enp = "enprefix s" 
  define st where "st = coinb1_start inscript (hex_of cbs) (enprefix s)"
  let ?sel = "selected ?cbv room 0 outs"
  define i2 where "i2 = (if special then max 0 ((300 - int (length st)) div 2) else 0)"
  obtain c1cnt m where cm: "count_outputs ?cbv special outs room i2 False 0 0 0 = (c1cnt, m)" by fastforce
  then have m: "m = length ?sel" using count_selected [of ?cbv special outs room i2 False 0 0 0] by simp
  define n where "n = (if inscript then m + 2 else m + 3)"
  define c1 where "c1 = (if inscript then st else st @ append_bitcoin_varint_hex (word_of_nat n) @ (if special then '''' else en_output_hex ?enp))"
  define c2 where "c2 = (if inscript then ff_seq @ append_bitcoin_varint_hex (word_of_nat n) else '''')"
  define e0 where "e0 = \<lparr>e_mval = 0, e_c1 = c1, e_c2 = c2, e_en = (\<not> inscript \<and> \<not> special)\<rparr>"
  define e where "e = emit_outputs ?cbv special c1cnt ?enp outs 0 room n e0"
  have gen: "generate_coinbase_txns_for_stratum_job_subtypebysize s outs room space_for_en special st =
     ((if \<not> inscript \<and> \<not> e_en e then e_c1 e @ en_output_hex ?enp else e_c1 e),
      e_c2 e @ (if ?cbv > e_mval e then out_hex (?cbv - e_mval e) (pool_addr_script s) else ''0000000000000000036a0100'')
        @ witness_hex s @ ''00000000'')"
    unfolding generate_coinbase_txns_for_stratum_job_subtypebysize_def Let_def i2_def [symmetric] cm prod.case e_def e0_def c1_def c2_def n_def
    by (cases space_for_en; cases special) (simp_all add: inscript_def)
  have "length (selected ?cbv room (e_mval e0) outs) < n" "e_en e0 \<longrightarrow> \<not> special \<or> c1cnt < 0"
    by (auto simp: e0_def n_def m)
  from emit_split [OF this, of ?enp, folded e_def] obtain A B where AB: "?sel = A @ B" "e_mval e = sum_sats (A @ B)"
    "close_en special ?enp e = c1 @ outs_hex A @ (if special then en_output_hex ?enp else '''')"
    "e_c2 e = c2 @ outs_hex B" "\<not> special \<longrightarrow> A = []" "\<not> special \<longrightarrow> e_en e = (\<not> inscript)"
    by (auto simp: e0_def split: if_splits)
  have c1': "(if \<not> inscript \<and> \<not> e_en e then e_c1 e @ en_output_hex ?enp else e_c1 e)
      = c1 @ outs_hex A @ (if special then en_output_hex ?enp else '''')"
    using AB(3,6) by (auto simp: close_en_def inscript_def)
  have "set A \<union> set B \<subseteq> set outs" using AB(1) selected_set [of ?cbv room 0 outs] by auto
  moreover have "list_all (\<lambda>x. length (output_script x) \<le> 64) outs" using ok by (simp add: job_ok_def)
  ultimately have "list_all (\<lambda>x. length (output_script x) < 2 ^ 64) A" "list_all (\<lambda>x. length (output_script x) < 2 ^ 64) B"
    by (fastforce simp: list_all_iff)+
  note outs = this [THEN outs_hex_bytes]
  obtain eb where eb: "en_output_hex ?enp = hex_of eb" "eb @ en = ser_out (en_txout ?enp en)" using en_output_bytes [OF en] by blast
  have len: "length outs \<le> 512" "length wc < 0xFD" "length (pool_addr_script s) \<le> 64"
      "default_witness_commitment (block_template s) = hex_of wc" using ok by (auto simp: job_ok_def)
  have "m \<le> 512" using selected_length [of ?cbv room 0 outs] m len(1) by linarith
  then have n: "append_bitcoin_varint_hex (word_of_nat n) = hex_of (compact n)" by (intro varint_compact) (simp add: n_def)
  have lo: "length (coinbase_outs s inscript en wc A B) = n" using arg_cong [OF AB(1), of length]
    by (simp add: coinbase_outs_def n_def m)
  note rest = rest_hex [OF len(3), of "e_mval e"] and wit = witness_hex_bytes [OF len(4,2)]
  note st = st_def [unfolded coinb1_start_bytes [OF cbs]]
  define b2 where "b2 = (if inscript then replicate 4 0xff @ compact n else []) @ concat (map (ser_out \<circ> to_txout) B)
     @ ser_out (rest_txout s (e_mval e)) @ ser_out (0, wc) @ replicate 4 0"
  define b1 where "b1 = tx_start @ compact (length cbs + (if inscript then 15 else 0)) @ cbs
    @ (if inscript then 0x0e # en_prefix ?enp else replicate 4 0xff @ compact n @ (if special then [] else eb))
    @ concat (map (ser_out \<circ> to_txout) A) @ (if special then eb else [])"
  have "generate_coinbase_txns_for_stratum_job_subtypebysize s outs room space_for_en special st = (hex_of b1, hex_of b2)"
    by (rule gen [unfolded c1' rest wit AB(4) lit_zero4, THEN trans])
      (auto simp: c1_def c2_def n outs lit_ff st b1_def b2_def eb(1) inscript_def simp del: hex_of_simps(2))
  moreover have "b1 @ en @ b2 = ser_tx (coinbase_script cbs inscript ?enp en) (coinbase_outs s inscript en wc A B)"
  proof -
    have A: "\<not> special \<Longrightarrow> A = []" and x: "inscript \<Longrightarrow> \<not> special" using AB(5) by (auto simp: inscript_def)
    have eb': "eb @ en @ r = ser_out (en_txout ?enp en) @ r" for r using eb(2) by (metis append.assoc)
    consider (a) "inscript" "\<not> special" "A = []" | (b) "\<not> inscript" "special" | (c) "\<not> inscript" "\<not> special" "A = []" using A x by blast
    then show ?thesis
    proof cases
      case a
      then show ?thesis unfolding ser_tx_def lo using en
        by (simp add: b1_def b2_def coinbase_script_def coinbase_outs_def AB(2) comp_def)
    next
      case b
      then show ?thesis unfolding ser_tx_def lo
        by (simp add: b1_def b2_def coinbase_script_def coinbase_outs_def AB(2) comp_def eb')
    next
      case c
      then show ?thesis unfolding ser_tx_def lo
        by (simp add: b1_def b2_def coinbase_script_def coinbase_outs_def AB(2) comp_def eb')
    qed
  qed
  ultimately show ?thesis using AB(1) unfolding st_def
    by - (rule exI [of _ A], rule exI [of _ B], rule exI [of _ b1], rule exI [of _ b2], intro conjI)
qed

section \<open>What a transaction pays\<close>

definition out_sum :: "cb_output list \<Rightarrow> nat" where
  "out_sum xs = sum_list (map (unat \<circ> value_sats) xs)"

lemma out_sum_simps [simp]: "out_sum [] = 0" "out_sum (x # xs) = unat (value_sats x) + out_sum xs"
  by (simp_all add: out_sum_def)

lemma unat_add_u64: "unat a + unat b < 2 ^ 64 \<Longrightarrow> unat (a + b :: u64) = unat a + unat b"
  by (simp add: unat_word_ariths)

lemma selected_values:
  assumes "unat mval + out_sum xs < 2 ^ 64" "mval \<le> cbv"
  shows "unat (mval + sum_sats (selected cbv room mval xs)) = unat mval + out_sum (selected cbv room mval xs)
     \<and> mval + sum_sats (selected cbv room mval xs) \<le> cbv"
  using assms
proof (induction xs arbitrary: room mval)
  case (Cons x xs)
  show ?case
  proof (cases "takes_output cbv room mval x")
    case True
    have a: "unat (mval + value_sats x) = unat mval + unat (value_sats x)" using Cons.prems by (intro unat_add_u64) simp
    have le: "mval + value_sats x \<le> cbv" using True by (simp add: takes_output_def)
    have "unat (mval + value_sats x) + out_sum xs < 2 ^ 64" using Cons.prems a by simp
    from Cons.IH [OF this le, of "room - out_cost x"] show ?thesis using True a le by (simp add: add.assoc [symmetric])
  next
    case False
    then show ?thesis using Cons.IH [of mval room] Cons.prems by simp
  qed
qed simp

lemma out_sum_append [simp]: "out_sum (xs @ ys) = out_sum xs + out_sum ys"
  by (simp add: out_sum_def)

lemma sum_to_txout: "sum_list (map (fst \<circ> to_txout) xs) = out_sum xs"
  by (simp add: out_sum_def comp_def to_txout_def)

lemma coinbase_outs_sum:
  assumes "out_sum outs < 2 ^ 64" "selected (coinbase_value s) room 0 outs = A @ B"
  shows "sum_list (map fst (coinbase_outs s b en wc A B)) = unat (coinbase_value s)"
proof -
  have v: "unat (sum_sats (A @ B)) = out_sum A + out_sum B" "sum_sats (A @ B) \<le> coinbase_value s"
    using selected_values [of 0 outs "coinbase_value s" room] assms by auto
  have "sum_list (map fst (coinbase_outs s b en wc A B)) = out_sum A + out_sum B + fst (rest_txout s (sum_sats (A @ B)))"
    by (simp add: coinbase_outs_def sum_to_txout en_txout_def)
  also have "fst (rest_txout s (sum_sats (A @ B))) = unat (coinbase_value s) - unat (sum_sats (A @ B))"
    using v(2) by (auto simp: rest_txout_def unat_sub less_imp_le not_less)
  finally show ?thesis using v by (simp add: word_le_nat_alt)
qed

lemma coinbase_outs_ok:
  assumes "job_ok s wc outs" "set A \<union> set B \<subseteq> set outs" "length en = 12"
  shows "list_all txout_ok (coinbase_outs s b en wc A B)"
proof -
  have "list_all (\<lambda>x. length (output_script x) \<le> 64) outs" using assms(1) by (simp add: job_ok_def)
  then have "list_all txout_ok (map to_txout A)" "list_all txout_ok (map to_txout B)"
    using assms(2) by (fastforce simp: list_all_iff txout_ok_def to_txout_def)+
  moreover have "txout_ok (rest_txout s v)" for v using assms(1) by (auto simp: rest_txout_def txout_ok_def job_ok_def)
  moreover have "txout_ok (0, wc)" "txout_ok (en_txout (enprefix s) en)" using assms(1,3) by (auto simp: txout_ok_def job_ok_def en_txout_def)
  ultimately show ?thesis by (simp add: coinbase_outs_def)
qed

section \<open>The input script as bytes\<close>

lemma unum_count_le: "unum_count n \<le> 8"
proof (rule ccontr)
  assume "\<not> unum_count n \<le> 8"
  then have "256 ^ 8 \<le> (256::nat) ^ (unum_count n - 1)" by (intro power_increasing) auto
  also have "\<dots> \<le> unat n" using unum_count_bounds [of n] \<open>\<not> unum_count n \<le> 8\<close> by simp
  finally have "18446744073709551616 \<le> unat n" by simp
  then show False using unat_u64_less [of n] by linarith
qed

lemma append_UNum_hex_some: "\<exists>bs. append_UNum_hex n = hex_of bs \<and> length bs \<le> 10"
proof -
  have z: "''00'' = hex_of [0]" "uchar_to_hex b = hex_of [b]" for b by (simp_all add: hexd_value)
  let ?body = "le_bytes (unum_count n) (unat n)"
  consider "n = 0" | "n \<noteq> 0" "n \<le> 16" | "n \<noteq> 0" "\<not> n \<le> 16" by blast
  then show ?thesis
  proof cases
    case 3
    obtain m where ub: "unum_bytes (unum_count n) n False = (hex_of ?body, m)" using unum_bytes_value by blast
    have "append_UNum_hex n = hex_of (word_of_nat (unum_count n + (if m then 1 else 0)) # ?body @ (if m then [0] else []))"
      unfolding append_UNum_hex_def Let_def ub prod.case z(2) using 3 by (simp del: hex_of_simps(2) of_nat_add flip: hex_of_simps(3))
    moreover have "length (word_of_nat (unum_count n + (if m then 1 else 0)) # ?body @ (if m then [0::u8] else [])) \<le> 10"
      using unum_count_le [of n] by simp
    ultimately show ?thesis by blast
  next
    case 1
    then show ?thesis by (intro exI [of _ "[0]"]) (simp add: append_UNum_hex_def hexd_value)
  next
    case 2
    then show ?thesis by (intro exI [of _ "[ucast (0x50 + n)]"]) (simp add: append_UNum_hex_def)
  qed
qed

lemma tag_bytes_length: "length (tag_bytes t0 t1 k) \<le> 4 + length t0 + length t1"
  by (auto simp: tag_bytes_def push_prefix_def)

lemma tag_fit_bounds:
  assumes "tag_fit t0 t1 mx = (t1', k)" "0 \<le> t0" "0 \<le> t1" "k \<le> mx"
  shows "0 \<le> t1' \<and> t1' \<le> t1 \<and> t0 + t1' \<le> k"
  using assms by (auto simp: tag_fit_def Let_def split: if_splits)

text \<open>
  An input script is text of bytes; the target byte, at the returned position, is 0xFF until it is set.
\<close>

lemma generate_coinbase_input_bytes:
  assumes g: "generate_coinbase_input conf h tmpl snm = Some (cb, pot)" and hl: "length (headline_of tmpl) \<le> 100"
  shows "\<exists>cbs. cb = hex_of cbs \<and> pot < length cbs \<and> cbs ! pot = 0xFF \<and> length cbs \<le> 210"
proof -
  define mx where "mx = (let m = MAX_COINBASE_TAG_SPACE - (if headline_of tmpl \<noteq> [] then int (length (headline_of tmpl)) + 2 else 0)
    in if m < 0 then 0 else m)"
  define tag0 where "tag0 = map byte_of (if \<not> datum_active conf then tag_primary conf else override_tag_primary conf)"
  define sec where "sec = map byte_of (secondary_tag conf snm)"
  obtain t1 k where fit: "tag_fit (int (length tag0)) (int (length sec)) mx = (t1, k)" by fastforce
  obtain ub where ub: "append_UNum_hex h = hex_of ub" "length ub \<le> 10" using append_UNum_hex_some by blast
  define pre where "pre = ub @ headline_push (headline_of tmpl) @ tag_bytes tag0 (take (nat t1) sec) k"
  have "(if k > mx then None else Some (hex_of (pre @ uid_bytes conf), length pre + 1)) = Some (cb, pot)"
    using g unfolding generate_coinbase_input_def Let_def mx_def [unfolded Let_def, symmetric] tag0_def [symmetric] sec_def [symmetric]
      fit prod.case ub(1) by (auto simp: pre_def split: if_splits)
  then have k: "k \<le> mx" and r: "cb = hex_of (pre @ uid_bytes conf)" "pot = length pre + 1" by (auto split: if_splits)
  have "\<exists>u us. uid_bytes conf = u # 0xFF # us \<and> length us \<le> 6"
    by (cases "prime_id conf = 0 \<and> \<not> datum_active conf") (auto simp: uid_bytes_def Let_def)
  then obtain u us where u: "uid_bytes conf = u # 0xFF # us" "length us \<le> 6" by blast
  have "mx \<le> 86" by (simp add: mx_def Let_def MAX_COINBASE_TAG_SPACE_def)
  with tag_fit_bounds [OF fit] k have t: "length tag0 + length (take (nat t1) sec) \<le> 86" by auto
  have "length (headline_push (headline_of tmpl)) \<le> 102" using hl by (simp add: headline_push_def push_prefix_def)
  with t ub(2) tag_bytes_length [of tag0 "take (nat t1) sec" k] have "length pre \<le> 202" by (simp add: pre_def)
  with r u show ?thesis by (intro exI [of _ "pre @ uid_bytes conf"]) (simp add: nth_append)
qed

text \<open>The transactions without outputs of the payout.\<close>

definition pool_outs :: "cb_job \<Rightarrow> u64 \<Rightarrow> bool \<Rightarrow> bytes \<Rightarrow> txout list" where
  "pool_outs s v en_in_script en = (if en_in_script then [] else [en_txout (enprefix s) en]) @ [(unat v, pool_addr_script s)]"

lemma empty_tx:
  assumes "length (pool_addr_script s) \<le> 64" "default_witness_commitment (block_template s) = hex_of wc" "length wc \<le> 47"
    and cbs: "length cbs < 2 ^ 32" and en: "length en = 12"
    and e: "empty_coinbase s b (coinb1_start b (hex_of cbs) (enprefix s)) = (p, q)"
  shows "\<exists>b1 b2 s1 s2. p = \<lparr>coinb1 = hex_of b1, coinb2 = hex_of b2\<rparr> \<and> q = \<lparr>coinb1 = hex_of s1, coinb2 = hex_of s2\<rparr>
    \<and> b1 @ en @ b2 = ser_tx (coinbase_script cbs b (enprefix s) en) (pool_outs s (coinbase_value s) b en @ [(0, wc)])
    \<and> s1 @ en @ s2 = ser_tx (coinbase_script cbs b (enprefix s) en) (pool_outs s (block_reward (height s)) b en)"
proof -
  let ?v = "coinbase_value s" and ?r = "block_reward (height s)" and ?sc = "pool_addr_script s"
  obtain eb where eb: "en_output_hex (enprefix s) = hex_of eb" "eb @ en = ser_out (en_txout (enprefix s) en)"
    using en_output_bytes [OF en] by blast
  then have eb': "eb @ en @ r = ser_out (en_txout (enprefix s) en) @ r" for r by (metis append.assoc)
  have w: "witness_hex s = hex_of (ser_out (0, wc))" using assms(2,3) by (intro witness_hex_bytes) auto
  have pool: "out_hex v ?sc = hex_of (ser_out (unat v, ?sc))" for v using assms(1) by (intro out_hex_bytes) simp
  have f16: "fmt_hex 16 (unat (builtin_bswap 8 v)) = hex_of (le_bytes 8 (unat v))" for v :: u64 using fmt_hex_bswap [of 8 v] by simp
  have sub: "fmt_hex 16 (unat (builtin_bswap 8 ?r)) @ drop 16 (out_hex ?v ?sc) = out_hex ?r ?sc"
    by (simp add: out_hex_def f16)
  have vi: "append_bitcoin_varint_hex 1 = hex_of (compact 1)" "append_bitcoin_varint_hex 2 = hex_of (compact 2)"
    "append_bitcoin_varint_hex 3 = hex_of (compact 3)"
    using varint_compact [of 1] varint_compact [of 2] varint_compact [of 3] by simp_all
  note e' = e [unfolded empty_coinbase_def Let_def sub, unfolded pool w vi lit_ff lit_zero4 eb(1) coinb1_start_bytes [OF cbs]]
  let ?st = "tx_start @ compact (length cbs + (if b then 15 else 0)) @ cbs @ (if b then 0x0e # en_prefix (enprefix s) else replicate 4 0xff)"
  let ?P = "ser_out (unat ?v, ?sc)" and ?S = "ser_out (unat ?r, ?sc)" and ?t = "ser_out (0, wc) @ replicate 4 0"
  show ?thesis
  proof (cases b)
    case True
    then show ?thesis using e' en
      by - (rule exI [of _ ?st], rule exI [of _ "replicate 4 0xff @ compact 2 @ ?P @ ?t"], rule exI [of _ ?st],
          rule exI [of _ "replicate 4 0xff @ compact 1 @ ?S @ replicate 4 0"],
          simp add: ser_tx_def pool_outs_def coinbase_script_def numeral_2_eq_2 del: hex_of_simps(2))
  next
    case False
    then show ?thesis using e' en
      by - (rule exI [of _ "?st @ compact 3 @ eb"], rule exI [of _ "?P @ ?t"], rule exI [of _ "?st @ compact 2 @ eb"],
          rule exI [of _ "?S @ replicate 4 0"],
          simp add: ser_tx_def pool_outs_def coinbase_script_def eb' numeral_2_eq_2 numeral_3_eq_3 del: hex_of_simps(2))
  qed
qed

section \<open>Every transaction of a job\<close>

definition tx_of :: "cb_pair \<Rightarrow> bytes \<Rightarrow> bytes" where
  "tx_of p en = hex_to_bin (coinb1 p) @ en @ hex_to_bin (coinb2 p)"

text \<open>
  What is claimed of a pair: with any extranonce it is a transaction with the input script \<open>cbs\<close>, which pays
  \<open>v\<close> in all, commits to the extranonce, and has the target byte at \<open>pot\<close>.
\<close>

definition pair_pays :: "bytes \<Rightarrow> nat \<Rightarrow> u16 \<Rightarrow> nat \<Rightarrow> bytes \<Rightarrow> cb_pair \<Rightarrow> bool" where
  "pair_pays cbs pot enp v en p \<longleftrightarrow>
     (case parse_tx (tx_of p en) of None \<Rightarrow> False
      | Some (script, outs) \<Rightarrow> sum_list (map fst outs) = v \<and> tx_of p en ! pot = 0xFF
          \<and> (script = cbs @ 0x0e # en_prefix enp @ en \<or> script = cbs \<and> en_txout enp en \<in> set outs))"

lemma tx_of_hex [simp]: "tx_of \<lparr>coinb1 = hex_of a, coinb2 = hex_of b\<rparr> en = a @ en @ b"
  by (simp add: tx_of_def)

lemma ser_tx_nth: "length script < 0xFD \<Longrightarrow> i < length script \<Longrightarrow> ser_tx script outs ! (42 + i) = script ! i"
  by (simp add: ser_tx_def compact_def tx_start_def nth_append)

lemma pair_pays_ser:
  assumes tx: "tx_of p en = ser_tx (coinbase_script cbs b enp en) outs" and outs: "list_all txout_ok outs" "length outs \<le> 1000"
    and len: "length cbs \<le> 210" "length en = 12" and pot: "i < length cbs" "cbs ! i = 0xFF"
    and v: "sum_list (map fst outs) = v" and e: "\<not> b \<Longrightarrow> en_txout enp en \<in> set outs"
  shows "pair_pays cbs (42 + i) enp v en p"
proof -
  let ?sc = "coinbase_script cbs b enp en"
  have l: "length ?sc < 0xFD" "i < length ?sc" "?sc ! i = cbs ! i" using len pot by (auto simp: coinbase_script_def nth_append)
  have "parse_tx (tx_of p en) = Some (?sc, outs)" unfolding tx using l outs by (intro parse_ser_tx) auto
  moreover have "tx_of p en ! (42 + i) = 0xFF" unfolding tx using ser_tx_nth [OF l(1,2)] l(3) pot by simp
  ultimately show ?thesis using v e by (auto simp: pair_pays_def coinbase_script_def)
qed

lemma type_coinbase_pays:
  assumes ok: "job_ok s wc outs" and cbs: "length cbs \<le> 210" "i < length cbs" "cbs ! i = 0xFF" and en: "length en = 12"
  shows "pair_pays cbs (42 + i) (enprefix s) (unat (coinbase_value s)) en (type_coinbase s outs (hex_of cbs) ty)"
proof -
  define space where "space \<longleftrightarrow> ty \<noteq> 2 \<and> length cbs \<le> 85"
  have in_script: "space = (space \<and> \<not> ty = 2)" by (auto simp: space_def)
  have "length cbs < 2 ^ 32" using cbs by simp
  from subtype_tx [OF ok this en in_script, of "datum_stratum_coinbase_fit_to_template (type_max ty)
      (cb_req_sz s (length cbs \<le> 85) (int (length cbs)) ty) (block_template s)"]
  obtain A B b1 b2 room where t: "selected (coinbase_value s) room 0 outs = A @ B"
    "type_coinbase s outs (hex_of cbs) ty = \<lparr>coinb1 = hex_of b1, coinb2 = hex_of b2\<rparr>"
    "b1 @ en @ b2 = ser_tx (coinbase_script cbs space (enprefix s) en) (coinbase_outs s space en wc A B)"
    by (auto simp: type_coinbase_def Let_def space_def)
  have sub: "set A \<union> set B \<subseteq> set outs" "length A + length B \<le> length outs"
    using t(1) selected_set [of "coinbase_value s" room 0 outs] selected_length [of "coinbase_value s" room 0 outs] by auto
  have "length (coinbase_outs s space en wc A B) \<le> 1000" using sub(2) ok by (simp add: coinbase_outs_def job_ok_def)
  moreover have "out_sum outs < 2 ^ 64" using ok by (simp add: job_ok_def out_sum_def)
  ultimately show ?thesis unfolding t(2) using t(3) cbs en coinbase_outs_ok [OF ok sub(1) en, of space] coinbase_outs_sum [OF _ t(1), of space en wc]
    by (intro pair_pays_ser) (auto simp: coinbase_outs_def)
qed

lemma empty_coinbase_pays:
  assumes ok: "job_ok s wc outs" and cbs: "length cbs \<le> 210" "i < length cbs" "cbs ! i = 0xFF" and en: "length en = 12"
    and e: "empty_coinbase s b (coinb1_start b (hex_of cbs) (enprefix s)) = (p, q)"
  shows "pair_pays cbs (42 + i) (enprefix s) (unat (coinbase_value s)) en p
    \<and> pair_pays cbs (42 + i) (enprefix s) (unat (block_reward (height s))) en q"
proof -
  have "length (pool_addr_script s) \<le> 64" "default_witness_commitment (block_template s) = hex_of wc" "length wc \<le> 47" "length cbs < 2 ^ 32"
    using ok cbs by (auto simp: job_ok_def)
  note j = this
  from empty_tx [OF j en e] obtain b1 b2 s1 s2 where t: "p = \<lparr>coinb1 = hex_of b1, coinb2 = hex_of b2\<rparr>" "q = \<lparr>coinb1 = hex_of s1, coinb2 = hex_of s2\<rparr>"
    "b1 @ en @ b2 = ser_tx (coinbase_script cbs b (enprefix s) en) (pool_outs s (coinbase_value s) b en @ [(0, wc)])"
    "s1 @ en @ s2 = ser_tx (coinbase_script cbs b (enprefix s) en) (pool_outs s (block_reward (height s)) b en)" by blast
  have o: "list_all txout_ok (pool_outs s v b en)" "length (pool_outs s v b en) \<le> 2" "sum_list (map fst (pool_outs s v b en)) = unat v"
    "\<not> b \<Longrightarrow> en_txout (enprefix s) en \<in> set (pool_outs s v b en)" for v
    using j en by (auto simp: pool_outs_def txout_ok_def en_txout_def)
  have w: "txout_ok (0, wc)" using j by (simp add: txout_ok_def)
  have "pair_pays cbs (42 + i) (enprefix s) (unat (coinbase_value s)) en p"
    using t(3) cbs en w o [of "coinbase_value s"] unfolding t(1)
    by (intro pair_pays_ser [where b = b and outs = "pool_outs s (coinbase_value s) b en @ [(0, wc)]"]) auto
  moreover have "pair_pays cbs (42 + i) (enprefix s) (unat (block_reward (height s))) en q"
    using t(4) cbs en o [of "block_reward (height s)"] unfolding t(2)
    by (intro pair_pays_ser [where b = b and outs = "pool_outs s (block_reward (height s)) b en"]) auto
  ultimately show ?thesis ..
qed

text \<open>C1: every transaction made for a job parses, whatever the extranonce, pays exactly the coinbase value,
  commits to the extranonce and has its target byte where \<open>target_pot_index\<close> says; the subsidy-only
  transaction pays the subsidy.
\<close>

theorem generate_coinbase_txns_pay:
  assumes "generate_coinbase_txns_for_stratum_job addr_script fill conf s outs empty_only = Some r"
    and "job_ok (set_pool_script addr_script conf s) wc (available_outputs fill conf (set_pool_script addr_script conf s) outs)"
    and "length (blake2b_headline (block_template s)) \<le> 100" and "length en = 12"
  shows "\<exists>cbs. generate_coinbase_input conf (ucast (height s)) (Some (block_template s)) (carousel_supplier_name s)
        = Some (hex_of cbs, target_pot_index r - 42)
    \<and> length (coinbases r) = 6
    \<and> list_all (pair_pays cbs (target_pot_index r) (enprefix s) (unat (coinbase_value s)) en) (coinbases r)
    \<and> list_all (pair_pays cbs (target_pot_index r) (enprefix s) (unat (block_reward (height s))) en) (case subsidy_only r of None \<Rightarrow> [] | Some q \<Rightarrow> [q])"
proof -
  define s' where "s' = set_pool_script addr_script conf s"
  have s': "enprefix s' = enprefix s" "coinbase_value s' = coinbase_value s" "height s' = height s" "block_template s' = block_template s"
    "carousel_supplier_name s' = carousel_supplier_name s" by (simp_all add: s'_def set_pool_script_def)
  define outs' where "outs' = available_outputs fill conf s' outs"
  note ok = assms(2) [folded s'_def, folded outs'_def]
  obtain cb i where g: "generate_coinbase_input conf (ucast (height s')) (Some (block_template s')) (carousel_supplier_name s') = Some (cb, i)"
    using assms(1) unfolding generate_coinbase_txns_for_stratum_job_def Let_def s'_def [symmetric]
    by (auto split: if_splits option.splits)
  have "length (headline_of (Some (block_template s'))) \<le> 100" using assms(3) by (simp add: headline_of_def s')
  from generate_coinbase_input_bytes [OF g this] obtain cbs where cbs: "cb = hex_of cbs" "i < length cbs" "cbs ! i = 0xFF" "length cbs \<le> 210" by blast
  obtain p q where pq: "empty_coinbase s' (length cbs \<le> 85) (coinb1_start (length cbs \<le> 85) (hex_of cbs) (enprefix s')) = (p, q)" by fastforce
  have st: "(length cbstart_hex + 2) div 2 = 42" by (simp add: lit_start tx_start_def)
  from assms(1) have r: "length (coinbases r) = 6" "set (coinbases r) \<subseteq> insert p (range (type_coinbase s' outs' (hex_of cbs)))"
     "subsidy_only r = None \<or> subsidy_only r = Some q" "target_pot_index r = 42 + i"
    unfolding generate_coinbase_txns_for_stratum_job_def Let_def s'_def [symmetric] outs'_def [symmetric] g st
    by (auto simp: cbs(1) pq split: if_splits)
  note e = empty_coinbase_pays [OF ok cbs(4,2,3) assms(4) pq] and t = type_coinbase_pays [OF ok cbs(4,2,3) assms(4)]
  have "list_all (pair_pays cbs (target_pot_index r) (enprefix s) (unat (coinbase_value s)) en) (coinbases r)"
    using e t r(2) by (auto simp: list_all_iff r(4) s')
  then show ?thesis using e r(1,3) by (intro exI [of _ cbs]) (use g in \<open>auto simp: r(4) s' cbs(1)\<close>)
qed

definition demo_conf :: cb_conf where
  "demo_conf = \<lparr>datum_active = False, tag_primary = ''DATUM'', override_tag_primary = '''', tag_secondary = ''x'', prime_id = 0,
     coinbase_unique_id = 7, mining_pool_address = ''p'', override_mining_pool_scriptsig = [], mining_blake2b_chirp = False\<rparr>"

definition demo_template :: cb_template where
  "demo_template = \<lparr>header_version = 2, blake2b_headline = [1, 2, 3], default_witness_commitment = hex_of (replicate 38 0xAA),
     sizelimit = 4000000, weightlimit = 4000000, txn_total_size = 1000, txn_total_weight = 4000\<rparr>"

definition demo_job :: cb_job where
  "demo_job = \<lparr>height = 900000, coinbase_value = 312500000, enprefix = 0x1234, pool_addr_script = [], carousel_supplier_name = '''',
     block_template = demo_template\<rparr>"

definition demo_outs :: "cb_output list" where
  "demo_outs = [\<lparr>output_script = replicate 22 1, value_sats = 300000000\<rparr>, \<lparr>output_script = replicate 25 2, value_sats = 2500000\<rparr>]"

abbreviation demo_addr :: "string \<Rightarrow> bytes" where "demo_addr \<equiv> (\<lambda>a. replicate 22 (0::u8))"

lemmas demo_defs = demo_conf_def demo_template_def demo_job_def demo_outs_def

lemma demo_generates: "\<exists>r. generate_coinbase_txns_for_stratum_job demo_addr (\<lambda>s. []) demo_conf demo_job demo_outs False = Some r"
proof -
  have "\<exists>cb. generate_coinbase_input demo_conf 900000 (Some demo_template) '''' = Some cb"
    by (simp add: demo_defs generate_coinbase_input_def Let_def headline_of_def MAX_COINBASE_TAG_SPACE_def secondary_tag_def tag_fit_def)
  then obtain cb pot where "generate_coinbase_input demo_conf 900000 (Some demo_template) '''' = Some (cb, pot)" by auto
  moreover have "block_template demo_job = demo_template" "height demo_job = 900000" "carousel_supplier_name demo_job = ''''"
    by (simp_all add: demo_job_def)
  ultimately show ?thesis
    by (simp add: generate_coinbase_txns_for_stratum_job_def Let_def set_pool_script_def demo_conf_def [THEN arg_cong, of datum_active] split: prod.split)
qed

theorem generate_coinbase_txns_pay_witness:
  "\<exists>r cbs. generate_coinbase_txns_for_stratum_job demo_addr (\<lambda>s. []) demo_conf demo_job demo_outs False = Some r
    \<and> length (coinbases r) = 6
    \<and> list_all (pair_pays cbs (target_pot_index r) 0x1234 312500000 (replicate 12 9)) (coinbases r)"
proof -
  obtain r where r: "generate_coinbase_txns_for_stratum_job demo_addr (\<lambda>s. []) demo_conf demo_job demo_outs False = Some r"
    using demo_generates by blast
  have j: "job_ok (set_pool_script demo_addr demo_conf demo_job) (replicate 38 0xAA)
      (available_outputs (\<lambda>s. []) demo_conf (set_pool_script demo_addr demo_conf demo_job) demo_outs)"
    "length (blake2b_headline (block_template demo_job)) \<le> 100"
    by (simp_all add: job_ok_def set_pool_script_def available_outputs_def demo_defs)
  have d: "enprefix demo_job = 0x1234" "unat (coinbase_value demo_job) = 312500000" by (simp_all add: demo_job_def)
  show ?thesis using generate_coinbase_txns_pay [OF r j(1,2), of "replicate 12 9"] r unfolding d by auto
qed

section \<open>The transaction of one user\<close>

record user_conf =
  mining_blake2b_template :: bool
  mining_blake2b_template_carousel :: bool
  mining_template_supplier_address :: string
  mining_template_pool_bps :: int
  mining_template_supplier_bps :: int

definition STRATUM_COINBASE1_MAX_LEN :: nat where "STRATUM_COINBASE1_MAX_LEN = 1024"

definition STRATUM_COINBASE2_MAX_LEN :: nat where "STRATUM_COINBASE2_MAX_LEN = 32768"

definition le8 :: "u64 \<Rightarrow> bytes" where
  "le8 v = map (\<lambda>b. ucast (drop_bit (8 * b) v)) [0..<8]"

definition user_out :: "u64 \<Rightarrow> bytes \<Rightarrow> bytes" where
  "user_out v script = le8 v @ [word_of_nat (length script)] @ script"

text \<open>
  The supplier's script and value, \<open>None\<close> outside the template mode or when the address has no script, and
  the fee rate in effect. \<open>carousel\<close> is the supplier pinned to the job.
\<close>

definition supplier_of :: "(string \<Rightarrow> bytes) \<Rightarrow> user_conf \<Rightarrow> string \<Rightarrow> u64 \<Rightarrow> u16 \<Rightarrow> (bytes \<times> u64) option \<times> u16" where
  "supplier_of addr_script uc carousel total_value fee_bps =
     (let sup_addr = (if mining_blake2b_template_carousel uc then carousel else mining_template_supplier_address uc)
      in if mining_blake2b_template uc \<and> sup_addr \<noteq> []
         then let script = addr_script sup_addr
              in if length script = 0 \<or> length script > 64 then (None, fee_bps)
                 else (Some (script, total_value * word_of_int (mining_template_supplier_bps uc) div 10000),
                       word_of_int (mining_template_pool_bps uc))
         else (None, fee_bps))"

text \<open>
  The two binary pieces; \<open>pool_coinb1\<close> is \<open>coinb1_bin\<close> of the job's first pair. \<open>None\<close> is the result
  \<^verbatim>\<open>false\<close>.
\<close>

definition datum_blake2b_build_user_coinbase ::
  "(string \<Rightarrow> bytes) \<Rightarrow> user_conf \<Rightarrow> cb_job \<Rightarrow> string \<Rightarrow> bytes \<Rightarrow> bytes \<Rightarrow> bytes \<Rightarrow> bytes \<Rightarrow> u16 \<Rightarrow> (bytes \<times> bytes) option" where
  "datum_blake2b_build_user_coinbase addr_script uc s carousel pool_coinb1 witness_bin user_script fee_script fee_bps =
     (if length user_script = 0 \<or> length user_script > 64 then None
      else if length fee_script = 0 \<or> length fee_script > 64 then None
      else if length pool_coinb1 = 0 \<or> length pool_coinb1 > STRATUM_COINBASE1_MAX_LEN div 2 then None
      else let total_value = coinbase_value s;
               (supplier, eff_fee_bps) = supplier_of addr_script uc carousel total_value fee_bps;
               supplier_value = (case supplier of None \<Rightarrow> 0 | Some (_, v) \<Rightarrow> v);
               fee_value = total_value * ucast eff_fee_bps div 10000;
               user_value = total_value - fee_value - supplier_value;
               wc_len = length (default_witness_commitment (block_template s)) div 2;
               wc_len = (if wc_len > 48 then 0 else wc_len);
               outcount = 2 + (if supplier = None then 0 else 1) + (if wc_len > 0 then 1 else 0);
               c = replicate 4 0xff @ [word_of_nat outcount] @ user_out user_value user_script
                   @ (case supplier of None \<Rightarrow> [] | Some (script, v) \<Rightarrow> user_out v script)
                   @ user_out fee_value fee_script
                   @ (if wc_len > 0 then replicate 8 0 @ [word_of_nat wc_len] @ take wc_len witness_bin else [])
                   @ replicate 4 0
           in if length c > STRATUM_COINBASE2_MAX_LEN div 2 then None else Some (pool_coinb1, c))"

section \<open>The outputs sent by the pool\<close>

definition output_sigops :: "bytes \<Rightarrow> nat" where
  "output_sigops script = (if script ! 0 = 0x76 then 4 else 0)"

text \<open>The parsing loop on the bytes from \<open>cidx\<close> on; \<open>None\<close> is an error in the middle of the data.\<close>

function v2_loop :: "u64 \<Rightarrow> bytes \<Rightarrow> u64 \<Rightarrow> (cb_output \<times> nat) list \<Rightarrow> (cb_output \<times> nat) list option" where
  "v2_loop cbv rest tally outs =
     (if rest = [] then Some outs
      else if length rest < 8 + 1 then None
      else let outval = upk_u64le rest 0
           in if outval + tally > cbv then Some outs
              else let slen = unat (rest ! 8)
                   in if slen < 2 \<or> slen > 64 \<or> 9 + slen > length rest then None
                      else let script = take slen (drop 9 rest);
                               outs = outs @ [(\<lparr>output_script = script, value_sats = outval\<rparr>, output_sigops script)]
                           in if length outs \<ge> 512 then Some outs
                              else v2_loop cbv (drop (9 + slen) rest) (tally + outval) outs)"
  by pat_completeness auto
termination by (relation "measure (\<lambda>(_, rest, _). length rest)") auto

declare v2_loop.simps [simp del]

record v2_result =
  v2_outputs :: "(cb_output \<times> nat) list"
  v2_id :: "nat option"
  v2_freed :: bool

definition datum_coinbaser_v2_parse :: "u64 \<Rightarrow> bytes option \<Rightarrow> bool \<Rightarrow> v2_result" where
  "datum_coinbaser_v2_parse cbv coinbaser must_free =
     (case coinbaser of
        None \<Rightarrow> \<lparr>v2_outputs = [], v2_id = None, v2_freed = False\<rparr>
      | Some bs \<Rightarrow>
          if length bs < 9 then \<lparr>v2_outputs = [], v2_id = None, v2_freed = False\<rparr>
          else case v2_loop cbv (drop 1 bs) 0 [] of
            None \<Rightarrow> \<lparr>v2_outputs = [], v2_id = None, v2_freed = False\<rparr>
          | Some outs \<Rightarrow> \<lparr>v2_outputs = outs, v2_id = Some (unat (bs ! 0)), v2_freed = must_free\<rparr>)"

lemma le8_bytes: "le8 v = le_bytes 8 (unat v)"
  by (simp add: le8_def le_bytes_map ucast_drop_bit del: of_nat_unat)

lemma user_out_ser: "length script \<le> 64 \<Longrightarrow> user_out v script = ser_out (unat v, script)"
  by (simp add: user_out_def ser_out_def compact_def le8_bytes)

definition split_of :: "(string \<Rightarrow> bytes) \<Rightarrow> user_conf \<Rightarrow> string \<Rightarrow> u64 \<Rightarrow> u16 \<Rightarrow> nat \<times> nat" where
  "split_of addr_script uc carousel v fee_bps =
     (case supplier_of addr_script uc carousel v fee_bps of
        (None, _) \<Rightarrow> (0, unat v * unat fee_bps div 10000)
      | (Some _, _) \<Rightarrow> (unat v * nat (mining_template_supplier_bps uc) div 10000, unat v * nat (mining_template_pool_bps uc) div 10000))"

text \<open>The bounds that the configuration reader enforces on the rates, and a reward whose products fit 64 bits.\<close>

definition rates_ok :: "user_conf \<Rightarrow> u64 \<Rightarrow> u16 \<Rightarrow> bool" where
  "rates_ok uc v fee_bps \<longleftrightarrow> 0 \<le> mining_template_supplier_bps uc \<and> 0 \<le> mining_template_pool_bps uc
     \<and> mining_template_supplier_bps uc + mining_template_pool_bps uc < 10000 \<and> fee_bps < 10000 \<and> unat v < 2 ^ 50"

lemma rate_product:
  assumes "n < 10000" "unat (v :: u64) < 2 ^ 50"
  shows "unat (v * word_of_nat n div 10000) = unat v * n div 10000"
proof -
  have n: "unat (word_of_nat n :: u64) = n" using assms by (simp add: unat_of_nat take_bit_eq_mod)
  have "unat v * n \<le> 2 ^ 50 * 10000" using assms by (intro mult_mono) auto
  then have "unat v * n < 18446744073709551616" by simp
  then have "unat (v * word_of_nat n) = unat v * n" using n by (simp add: unat_word_ariths)
  then show ?thesis by (simp add: unat_div)
qed

lemma rate_sum: "a + b < 10000 \<Longrightarrow> v * a div 10000 + v * b div 10000 \<le> (v :: nat)"
proof -
  assume "a + b < 10000"
  have "v * a div 10000 + v * b div 10000 \<le> (v * a + v * b) div 10000" by linarith
  also have "v * a + v * b = v * (a + b)" by (simp add: distrib_left)
  also have "v * (a + b) div 10000 \<le> v * 10000 div 10000" using \<open>a + b < 10000\<close> by (intro div_le_mono mult_left_mono) auto
  finally show ?thesis by simp
qed

lemma supplier_of_cases:
  assumes "rates_ok uc v fee_bps" "supplier_of addr_script uc carousel v fee_bps = (sup_r, bps)"
    "split_of addr_script uc carousel v fee_bps = (sv, fv)"
  shows "unat (v * ucast bps div 10000) = fv \<and> (case sup_r of None \<Rightarrow> sv = 0 | Some (sc, w) \<Rightarrow> length sc \<le> 64 \<and> unat w = sv) \<and> fv + sv \<le> unat v"
proof (cases sup_r)
  case None
  then have bps: "bps = fee_bps" using assms(2) by (auto simp: supplier_of_def Let_def split: if_splits)
  have "unat fee_bps < 10000" using assms(1) by (simp add: rates_ok_def word_less_nat_alt)
  then show ?thesis using None bps assms rate_product [of "unat fee_bps" v] rate_sum [of "unat fee_bps" 0 "unat v"]
    by (auto simp: split_of_def rates_ok_def)
next
  case (Some p)
  then obtain sc w where p: "sup_r = Some (sc, w)" by (cases p) auto
  let ?a = "nat (mining_template_supplier_bps uc)" and ?b = "nat (mining_template_pool_bps uc)"
  have ab: "?a + ?b < 10000" "word_of_int (mining_template_supplier_bps uc) = (word_of_nat ?a :: u64)"
    "(word_of_int (mining_template_pool_bps uc) :: u16) = word_of_nat ?b"
    using assms(1) by (auto simp: rates_ok_def)
  have "unat (word_of_nat ?b :: u16) = ?b" using ab(1) by (simp add: unat_of_nat take_bit_eq_mod)
  then have ub: "(ucast (word_of_nat ?b :: u16) :: u64) = word_of_nat ?b" by (metis of_nat_unat)
  have "length sc \<le> 64 \<and> w = v * word_of_nat ?a div 10000 \<and> bps = word_of_nat ?b"
    using assms(2) p ab by (auto simp: supplier_of_def Let_def split: if_splits)
  then show ?thesis using assms p ub rate_product [of ?a v] rate_product [of ?b v] ab(1) rate_sum [of ?b ?a "unat v"]
    by (auto simp: split_of_def rates_ok_def)
qed

text \<open>C29: when the extranonce is in the input script, the per-user transaction parses, has the input of the
  pool's transaction, pays the supplier and the fee their shares, rounded down, and the user all the rest.
\<close>

theorem user_coinbase_pays:
  assumes "datum_blake2b_build_user_coinbase addr_script uc s carousel pool_coinb1 wc user_script fee_script fee_bps = Some (c1, c2)"
    and "hex_of pool_coinb1 = coinb1_start True (hex_of cbs) (enprefix s)" and "length cbs \<le> 210" and "length en = 12"
    and "default_witness_commitment (block_template s) = hex_of wc" and "0 < length wc" and "length wc \<le> 48"
    and "rates_ok uc (coinbase_value s) fee_bps"
  shows "\<exists>sup_out sv fv. split_of addr_script uc carousel (coinbase_value s) fee_bps = (sv, fv)
     \<and> parse_tx (c1 @ en @ c2) = Some (cbs @ 0x0e # en_prefix (enprefix s) @ en,
         [(unat (coinbase_value s) - fv - sv, user_script)] @ sup_out @ [(fv, fee_script), (0, wc)])
     \<and> sum_list (map fst sup_out) = sv \<and> fv + sv \<le> unat (coinbase_value s)"
proof -
  let ?v = "coinbase_value s"
  obtain sr bps where sr: "supplier_of addr_script uc carousel ?v fee_bps = (sr, bps)" by fastforce
  obtain sv fv where sp: "split_of addr_script uc carousel ?v fee_bps = (sv, fv)" by fastforce
  note c = supplier_of_cases [OF assms(8) sr sp]
  define so where "so = (case sr of None \<Rightarrow> [] | Some (sc, w) \<Rightarrow> [(unat w, sc)])"
  have so: "(case sr of None \<Rightarrow> [] | Some (sc, w) \<Rightarrow> user_out w sc) = concat (map ser_out so)" "list_all txout_ok so" "sum_list (map fst so) = sv"
    "length so = (if sr = None then 0 else 1)"
    using c by (auto simp: so_def user_out_ser txout_ok_def split: option.splits)
  define w where "w = (case sr of None \<Rightarrow> 0 | Some (_, x) \<Rightarrow> x)"
  have w: "unat w = sv" using c by (auto simp: w_def split: option.splits)
  let ?f = "?v * ucast bps div 10000"
  have f: "unat ?f = fv" using c by simp
  have u: "unat (?v - ?f - w) = unat ?v - fv - sv"
  proof -
    have "unat (?v - ?f) = unat ?v - fv" using c f by (subst unat_sub) (auto simp: word_le_nat_alt)
    then show ?thesis using c w by (subst unat_sub) (auto simp: word_le_nat_alt)
  qed
  have lens: "length user_script \<le> 64" "length fee_script \<le> 64" "c1 = pool_coinb1"
    using assms(1) by (auto simp: datum_blake2b_build_user_coinbase_def Let_def sr split: if_splits)
  let ?n = "2 + (if sr = None then 0 else 1) + 1 :: nat"
  let ?outs = "[(unat ?v - fv - sv, user_script)] @ so @ [(fv, fee_script), (0, wc)]"
  have wit: "replicate 8 0 @ [word_of_nat (length wc)] @ wc = ser_out (0, wc)" using assms(7) by (simp add: ser_out_def compact_def)
  have "c2 = replicate 4 0xff @ [word_of_nat ?n] @ user_out (?v - ?f - w) user_script
        @ (case sr of None \<Rightarrow> [] | Some (sc, w) \<Rightarrow> user_out w sc) @ user_out ?f fee_script
        @ (replicate 8 0 @ [word_of_nat (length wc)] @ wc) @ replicate 4 0"
    using assms(1,5,6,7) by (auto simp: datum_blake2b_build_user_coinbase_def Let_def sr w_def split: if_splits)
  also have "[word_of_nat ?n] = compact (length ?outs)" using so(4) by (simp add: compact_def)
  finally have c2: "c2 = replicate 4 0xff @ compact (length ?outs) @ concat (map ser_out ?outs) @ replicate 4 0"
    unfolding wit so(1) using lens u f by (simp add: user_out_ser)
  have "hex_to_bin (hex_of pool_coinb1) = tx_start @ compact (length cbs + 15) @ cbs @ 0x0e # en_prefix (enprefix s)"
    unfolding assms(2) using assms(3) by (subst coinb1_start_bytes) (simp_all del: hex_of_simps)
  then have "c1 @ en @ c2 = ser_tx (cbs @ 0x0e # en_prefix (enprefix s) @ en) ?outs"
    unfolding c2 using assms(4) lens(3) by (simp add: ser_tx_def)
  moreover have "fv < 18446744073709551616" "unat ?v - fv - sv < 18446744073709551616" using c unat_u64_less [of ?v] by linarith+
  then have "list_all txout_ok ?outs" using so(2) lens assms(7) by (simp add: txout_ok_def)
  ultimately have "parse_tx (c1 @ en @ c2) = Some (cbs @ 0x0e # en_prefix (enprefix s) @ en, ?outs)"
    using parse_ser_tx [of ?outs] assms(3,4) so(4) by simp
  then show ?thesis using sp so(3) c by - (rule exI [of _ so], rule exI [of _ sv], rule exI [of _ fv], simp)
qed

definition demo_user_conf :: user_conf where
  "demo_user_conf = \<lparr>mining_blake2b_template = True, mining_blake2b_template_carousel = False, mining_template_supplier_address = ''s'',
     mining_template_pool_bps = 100, mining_template_supplier_bps = 300\<rparr>"

theorem user_coinbase_pays_witness:
  "\<exists>c1 c2 sup_out sv fv. parse_tx (c1 @ replicate 12 9 @ c2) = Some (0x0e # en_prefix 0x1234 @ replicate 12 9,
      [(312500000 - fv - sv, replicate 22 1)] @ sup_out @ [(fv, replicate 22 2), (0, replicate 38 0xAA)])
     \<and> sum_list (map fst sup_out) = sv \<and> fv + sv \<le> 312500000"
proof -
  let ?c1 = "tx_start @ compact 15 @ 0x0e # en_prefix 0x1234"
  have "\<exists>c2. datum_blake2b_build_user_coinbase demo_addr demo_user_conf demo_job '''' ?c1 (replicate 38 0xAA) (replicate 22 1) (replicate 22 2) 90 = Some (?c1, c2)"
    by (simp add: datum_blake2b_build_user_coinbase_def Let_def supplier_of_def demo_user_conf_def demo_job_def demo_template_def
        user_out_def le8_def tx_start_def compact_def STRATUM_COINBASE1_MAX_LEN_def STRATUM_COINBASE2_MAX_LEN_def)
  then obtain c2 where b: "datum_blake2b_build_user_coinbase demo_addr demo_user_conf demo_job '''' ?c1 (replicate 38 0xAA) (replicate 22 1) (replicate 22 2) 90 = Some (?c1, c2)" by blast
  have h: "hex_of ?c1 = coinb1_start True (hex_of []) (enprefix demo_job)" by (subst coinb1_start_bytes) (simp_all add: demo_job_def)
  have r: "rates_ok demo_user_conf (coinbase_value demo_job) 90" "default_witness_commitment (block_template demo_job) = hex_of (replicate 38 0xAA)"
    by (simp_all add: rates_ok_def demo_user_conf_def demo_job_def demo_template_def)
  have d: "enprefix demo_job = 0x1234" "unat (coinbase_value demo_job) = 312500000" by (simp_all add: demo_job_def)
  from user_coinbase_pays [OF b h _ _ r(2) _ _ r(1), of "replicate 12 9", unfolded d]
  obtain so sv fv where "parse_tx (?c1 @ replicate 12 9 @ c2) = Some (0x0e # en_prefix 0x1234 @ replicate 12 9,
      [(312500000 - fv - sv, replicate 22 1)] @ so @ [(fv, replicate 22 2), (0, replicate 38 0xAA)])"
     "sum_list (map fst so) = sv" "fv + sv \<le> 312500000" by auto
  then show ?thesis by blast
qed

lemma parse_out_value: "parse_out bs = Some (x, r) \<Longrightarrow> fst x = le_val (take 8 bs)"
  by (auto simp: parse_out_def take_exact_def split: option.splits if_splits)

text \<open>When the input script is too long for the extranonce, the pool's first piece already ends in an
  output, and the per-user second piece does not fit behind it: the result does not parse, or
  pays more than the coinbase value.
\<close>

theorem user_coinbase_misfit:
  assumes "datum_blake2b_build_user_coinbase addr_script uc s carousel pool_coinb1 wc user_script fee_script fee_bps = Some (c1, c2)"
    and "hex_of pool_coinb1 = coinb1_start False (hex_of cbs) (enprefix s) @ append_bitcoin_varint_hex 3 @ en_output_hex (enprefix s)"
    and "length cbs \<le> 210" and "length en = 12" and "unat (coinbase_value s) < 12884901887"
  shows "case parse_tx (c1 @ en @ c2) of None \<Rightarrow> True | Some (_, outs) \<Rightarrow> unat (coinbase_value s) < sum_list (map fst outs)"
proof -
  obtain eb where eb: "en_output_hex (enprefix s) = hex_of eb" "eb @ en = ser_out (en_txout (enprefix s) en)"
    using en_output_bytes [OF assms(4)] by blast
  then have eb': "eb @ en @ r = ser_out (en_txout (enprefix s) en) @ r" for r by (metis append.assoc)
  have "\<exists>w rest. c2 = replicate 4 0xff @ w # rest \<and> 2 \<le> unat w" "c1 = pool_coinb1"
    using assms(1) by (auto simp: datum_blake2b_build_user_coinbase_def Let_def split: if_splits prod.splits)
  then obtain w rest where c2: "c2 = replicate 4 0xff @ w # rest" "2 \<le> unat w" and c1: "c1 = pool_coinb1" by blast
  have big: "12884901887 \<le> le_val (take 8 c2)"
  proof -
    have "replicate 4 x = [x, x, x, x]" for x :: u8 by (simp add: eval_nat_numeral)
    then have "le_val (replicate 4 (0xff::u8)) = 4294967295" by simp
    then show ?thesis using c2(2) by (simp add: c2(1) le_val_append)
  qed
  have v3: "append_bitcoin_varint_hex 3 = hex_of (compact 3)" using varint_compact [of 3] by simp
  have "hex_to_bin (hex_of pool_coinb1) = tx_start @ compact (length cbs) @ cbs @ replicate 4 0xff @ compact 3 @ eb"
    unfolding assms(2) eb(1) v3 using assms(3) by (subst coinb1_start_bytes) (simp_all add: hex_to_bin_of_append del: hex_of_simps)
  then have tx: "c1 @ en @ c2 = tx_start @ compact (length cbs) @ cbs @ replicate 4 0xff @ compact 3 @ ser_out (en_txout (enprefix s) en) @ c2"
    unfolding c1 by (simp add: eb')
  have ts: "length tx_start = 41" by (simp add: tx_start_def)
  have e: "txout_ok (en_txout (enprefix s) en)" using assms(4) by (simp add: txout_ok_def en_txout_def)
  have po: "case parse_outs 3 (ser_out (en_txout (enprefix s) en) @ c2) of None \<Rightarrow> True
      | Some (outs, _) \<Rightarrow> 12884901887 \<le> sum_list (map fst outs)"
    using big parse_out_value by (fastforce simp: numeral_3_eq_3 parse_ser_out [OF e] split: option.splits)
  show ?thesis unfolding tx parse_tx_def using assms(3,5) po ts
    by (auto simp: take_exact_append read_compact split: option.splits)
qed

theorem user_coinbase_misfit_witness:
  "\<exists>c1 c2. hex_of c1 = coinb1_start False (hex_of (replicate 86 1)) 0x1234 @ append_bitcoin_varint_hex 3 @ en_output_hex 0x1234
     \<and> datum_blake2b_build_user_coinbase demo_addr demo_user_conf demo_job '''' c1 (replicate 38 0xAA) (replicate 22 1) (replicate 22 2) 90 = Some (c1, c2)
     \<and> (case parse_tx (c1 @ replicate 12 9 @ c2) of None \<Rightarrow> True | Some (_, outs) \<Rightarrow> 312500000 < sum_list (map fst outs))"
proof -
  obtain eb where eb: "en_output_hex 0x1234 = hex_of eb" "eb @ replicate 12 9 = ser_out (en_txout 0x1234 (replicate 12 9))"
    using en_output_bytes [of "replicate 12 9", where enp = "0x1234"] by auto
  from arg_cong [OF eb(2), of length] have le: "length eb = 13" by (simp add: ser_out_def en_txout_def compact_def)
  have v3: "append_bitcoin_varint_hex 3 = hex_of (compact 3)" using varint_compact [of 3] by simp
  define c1 where "c1 = tx_start @ compact 86 @ replicate 86 1 @ replicate 4 0xff @ compact 3 @ eb"
  have h: "hex_of c1 = coinb1_start False (hex_of (replicate 86 1)) 0x1234 @ append_bitcoin_varint_hex 3 @ en_output_hex 0x1234"
    unfolding eb(1) v3 c1_def by (subst coinb1_start_bytes) simp_all
  have c1: "length c1 = 146" using le by (simp add: c1_def tx_start_def compact_def)
  then have "c1 \<noteq> []" by auto
  with c1 have "\<exists>c2. datum_blake2b_build_user_coinbase demo_addr demo_user_conf demo_job '''' c1 (replicate 38 0xAA) (replicate 22 1) (replicate 22 2) 90 = Some (c1, c2)"
    by (simp add: datum_blake2b_build_user_coinbase_def Let_def supplier_of_def demo_user_conf_def demo_job_def demo_template_def
        user_out_def le8_def STRATUM_COINBASE1_MAX_LEN_def STRATUM_COINBASE2_MAX_LEN_def)
  then obtain c2 where b: "datum_blake2b_build_user_coinbase demo_addr demo_user_conf demo_job '''' c1 (replicate 38 0xAA) (replicate 22 1) (replicate 22 2) 90 = Some (c1, c2)" by blast
  have d: "enprefix demo_job = 0x1234" "unat (coinbase_value demo_job) = 312500000" by (simp_all add: demo_job_def)
  show ?thesis using user_coinbase_misfit [OF b, of "replicate 86 1" "replicate 12 9", unfolded d] h b
    by - (rule exI [of _ c1], rule exI [of _ c2], simp del: hex_of_simps)
qed

section \<open>Parsing the pool's outputs\<close>

definition v2_entry :: "cb_output \<Rightarrow> cb_output \<times> nat" where
  "v2_entry x = (x, output_sigops (output_script x))"

definition v2_encode :: "u8 \<Rightarrow> cb_output list \<Rightarrow> bytes" where
  "v2_encode i outs = i # concat (map (\<lambda>x. le8 (value_sats x) @ [word_of_nat (length (output_script x))] @ output_script x) outs)"

definition v2_script_ok :: "cb_output \<Rightarrow> bool" where
  "v2_script_ok x \<longleftrightarrow> 2 \<le> length (output_script x) \<and> length (output_script x) \<le> 64"

lemma upk_le8: "upk_u64le (le8 v @ r) 0 = v"
proof -
  have "upk_u64le (le8 v @ r) 0 = le_word (le_bytes 8 (unat v))" by (simp add: upk_u64le_word le8_bytes)
  then have "unat (upk_u64le (le8 v @ r) 0) = unat v"
    using unat_u64_less [of v] by (simp add: unat_le_word le_val_bytes)
  then show ?thesis by (simp only: word_unat_eq_iff)
qed

lemma v2_loop_step:
  assumes "v2_script_ok x" "\<not> value_sats x + tally > cbv"
  shows "v2_loop cbv (le8 (value_sats x) @ [word_of_nat (length (output_script x))] @ output_script x @ r) tally acc
    = (if length acc \<ge> 511 then Some (acc @ [v2_entry x]) else v2_loop cbv r (tally + value_sats x) (acc @ [v2_entry x]))"
proof -
  let ?l = "length (output_script x)"
  let ?b = "le8 (value_sats x) @ [word_of_nat ?l] @ output_script x @ r"
  have l: "2 \<le> ?l" "?l \<le> 64" using assms(1) by (auto simp: v2_script_ok_def)
  have l8: "length (le8 (value_sats x)) = 8" by (simp add: le8_def)
  have ul: "unat (word_of_nat ?l :: u8) = ?l" using l by (simp add: unat_of_nat take_bit_eq_mod)
  have n8: "?b ! 8 = word_of_nat ?l" using l8 by (simp add: nth_append)
  have d9: "drop 9 ?b = output_script x @ r" "drop (9 + ?l) ?b = r" using l8 by simp_all
  show ?thesis
    unfolding v2_loop.simps [of cbv ?b] n8 Let_def ul d9 upk_le8 using l l8 assms(2)
    by (cases x) (auto simp: v2_entry_def)
qed

lemma v2_loop_encode:
  assumes "list_all v2_script_ok outs" "length acc + length outs \<le> 512" "unat tally + out_sum outs \<le> unat cbv"
  shows "v2_loop cbv (concat (map (\<lambda>x. le8 (value_sats x) @ [word_of_nat (length (output_script x))] @ output_script x) outs) @ r) tally acc
    = (if length acc + length outs = 512 \<and> outs \<noteq> [] then Some (acc @ map v2_entry outs)
       else v2_loop cbv r (tally + sum_sats outs) (acc @ map v2_entry outs))"
  using assms
proof (induction outs arbitrary: tally acc)
  case Nil
  then show ?case by simp
next
  case (Cons x outs)
  have "unat tally + unat (value_sats x) < 18446744073709551616" using Cons.prems(3) unat_u64_less [of cbv] out_sum_simps(2) [of x outs] by linarith
  then have s: "unat (tally + value_sats x) = unat tally + unat (value_sats x)" by (intro unat_add_u64) simp
  then have "\<not> value_sats x + tally > cbv" using Cons.prems(3) by (simp add: word_less_nat_alt add.commute)
  moreover have "v2_script_ok x" using Cons.prems by simp
  ultimately show ?case using Cons.IH [of "acc @ [v2_entry x]" "tally + value_sats x"] Cons.prems s v2_loop_step [where x = x and tally = tally and cbv = cbv and acc = acc]
    by (cases outs) (auto simp: add.assoc)
qed

text \<open>Outputs encoded as the pool sends them, worth no more than the coinbase value, are parsed back in order.\<close>

theorem v2_parse_roundtrip:
  assumes "list_all v2_script_ok outs" and "0 < length outs" and "length outs \<le> 512" and "out_sum outs \<le> unat cbv"
  shows "datum_coinbaser_v2_parse cbv (Some (v2_encode i outs)) must_free
    = \<lparr>v2_outputs = map v2_entry outs, v2_id = Some (unat i), v2_freed = must_free\<rparr>"
proof -
  have "\<not> length (v2_encode i outs) < 9" using assms(2) by (cases outs) (auto simp: v2_encode_def le8_def)
  moreover have "v2_loop cbv [] t acc = Some acc" for t acc by (simp add: v2_loop.simps)
  ultimately show ?thesis using v2_loop_encode [of outs "[]" 0 cbv "[]"] assms
    by (simp add: datum_coinbaser_v2_parse_def v2_encode_def)
qed

theorem v2_parse_roundtrip_witness:
  "datum_coinbaser_v2_parse 312500000 (Some (v2_encode 3 demo_outs)) True
    = \<lparr>v2_outputs = map v2_entry demo_outs, v2_id = Some 3, v2_freed = True\<rparr>"
  using v2_parse_roundtrip [of demo_outs 312500000 3 True] by (simp add: demo_outs_def v2_script_ok_def)

definition wrap_outs :: "cb_output list" where
  "wrap_outs = [\<lparr>output_script = [1, 2], value_sats = 5\<rparr>, \<lparr>output_script = [3, 4], value_sats = 0xFFFFFFFFFFFFFFFE\<rparr>]"

text \<open>The check against the coinbase value is made on a 64-bit sum that wraps: an output of almost
  \<open>2 ^ 64\<close> satoshis is accepted after a small one.
\<close>

theorem v2_parse_wraps:
  "v2_outputs (datum_coinbaser_v2_parse 10 (Some (v2_encode 1 wrap_outs)) True) = map v2_entry wrap_outs \<and> 10 < out_sum wrap_outs"
proof -
  let ?a = "wrap_outs ! 0" and ?b = "wrap_outs ! 1"
  have "v2_script_ok ?a" "v2_script_ok ?b" "\<not> value_sats ?a + 0 > 10" "\<not> value_sats ?b + (0 + value_sats ?a) > 10"
    by (simp_all add: wrap_outs_def v2_script_ok_def)
  note steps = v2_loop_step [OF this(1,3)] v2_loop_step [OF this(2,4), where r = "[]", unfolded append_Nil2 add_0 One_nat_def]
  have "v2_encode 1 wrap_outs = 1 # le8 (value_sats ?a) @ [word_of_nat (length (output_script ?a))] @ output_script ?a
      @ le8 (value_sats ?b) @ [word_of_nat (length (output_script ?b))] @ output_script ?b @ []"
    by (simp add: v2_encode_def wrap_outs_def)
  moreover have "v2_loop 10 [] t acc = Some acc" for t acc by (simp add: v2_loop.simps)
  moreover have "length (le8 v) = 8" for v by (simp add: le8_def)
  ultimately have "v2_outputs (datum_coinbaser_v2_parse 10 (Some (v2_encode 1 wrap_outs)) True) = [v2_entry ?a, v2_entry ?b]"
    unfolding datum_coinbaser_v2_parse_def by (simp add: steps del: append_Cons append_assoc)
  then show ?thesis by (simp add: wrap_outs_def)
qed

text \<open>Data that is cut off in the middle of an output gives no outputs, and is not released.\<close>

theorem v2_parse_truncated:
  assumes "list_all v2_script_ok outs" and "0 < length outs" and "length outs < 512" and "out_sum outs \<le> unat cbv" and "0 < length junk" and "length junk < 9"
  shows "datum_coinbaser_v2_parse cbv (Some (v2_encode i outs @ junk)) must_free = \<lparr>v2_outputs = [], v2_id = None, v2_freed = False\<rparr>"
proof -
  have "\<not> length (v2_encode i outs @ junk) < 9" using assms(2) by (cases outs) (auto simp: v2_encode_def le8_def)
  moreover have "v2_loop cbv junk t acc = None" for t acc using assms(5,6) by (auto simp: v2_loop.simps)
  ultimately show ?thesis using v2_loop_encode [of outs "[]" 0 cbv junk] assms
    by (simp add: datum_coinbaser_v2_parse_def v2_encode_def)
qed

theorem v2_parse_truncated_witness:
  "datum_coinbaser_v2_parse 312500000 (Some (v2_encode 3 demo_outs @ [7])) True = \<lparr>v2_outputs = [], v2_id = None, v2_freed = False\<rparr>"
  using v2_parse_truncated [of demo_outs 312500000 "[7]" 3 True] by (simp add: demo_outs_def v2_script_ok_def)

section \<open>Sizes\<close>

definition cost_sum :: "cb_output list \<Rightarrow> int" where
  "cost_sum xs = sum_list (map out_cost xs)"

lemma selected_cost: "cost_sum (selected cbv room mval xs) \<le> max 0 room"
proof (induction xs arbitrary: room mval)
  case (Cons x xs)
  show ?case
    using Cons.IH [of "room - out_cost x" "mval + value_sats x"] Cons.IH [of room mval]
    by (auto simp: cost_sum_def takes_output_def out_cost_def)
qed (simp add: cost_sum_def)

lemma concat_outs_length:
  "list_all (\<lambda>x. length (output_script x) \<le> 64) xs \<Longrightarrow> int (length (concat (map ser_out (map to_txout xs)))) = cost_sum xs"
  by (induction xs) (simp_all add: cost_sum_def ser_out_def to_txout_def out_cost_def compact_def)

lemma fit_le: "fixed \<le> mx \<Longrightarrow> datum_stratum_coinbase_fit_to_template mx fixed t \<le> mx - fixed"
  by (simp add: datum_stratum_coinbase_fit_to_template_def Let_def)

text \<open>A transaction of a type is at most five bytes longer than the type's limit.
\<close>

theorem type_coinbase_size:
  assumes "job_ok s wc outs" and "length cbs \<le> 210" and "length en = 12" and "length wc \<le> 38" and "3 \<le> length (pool_addr_script s)"
    and "ty \<in> {1, 2, 3, 4, 5}"
  shows "int (length (tx_of (type_coinbase s outs (hex_of cbs) ty) en)) \<le> type_max ty + 5"
proof -
  define space where "space \<longleftrightarrow> ty \<noteq> 2 \<and> length cbs \<le> 85"
  have in_script: "space = (space \<and> \<not> ty = 2)" by (auto simp: space_def)
  let ?req = "cb_req_sz s (length cbs \<le> 85) (int (length cbs)) ty"
  define room where "room = datum_stratum_coinbase_fit_to_template (type_max ty) ?req (block_template s)"
  have "length cbs < 2 ^ 32" using assms(2) by simp
  from subtype_tx [OF assms(1) this assms(3) in_script, of room]
  obtain A B b1 b2 where t: "selected (coinbase_value s) room 0 outs = A @ B"
    "type_coinbase s outs (hex_of cbs) ty = \<lparr>coinb1 = hex_of b1, coinb2 = hex_of b2\<rparr>"
    "b1 @ en @ b2 = ser_tx (coinbase_script cbs space (enprefix s) en) (coinbase_outs s space en wc A B)"
    by (auto simp: type_coinbase_def Let_def space_def room_def)
  have j: "length (pool_addr_script s) \<le> 64" "length outs \<le> 512" "list_all (\<lambda>x. length (output_script x) \<le> 64) outs"
    using assms(1) by (auto simp: job_ok_def)
  have AB: "set (A @ B) \<subseteq> set outs" "length (A @ B) \<le> 512"
    using t(1) selected_set [of "coinbase_value s" room 0 outs] selected_length [of "coinbase_value s" room 0 outs] j(2) by auto
  then have l: "list_all (\<lambda>x. length (output_script x) \<le> 64) A" "list_all (\<lambda>x. length (output_script x) \<le> 64) B"
    using j(3) by (auto simp: list_all_iff)
  have req: "?req = 119 + int (length (pool_addr_script s)) + int (length cbs) + (if space then 0 else 10)"
    by (auto simp: cb_req_sz_def space_def)
  have "type_max ty \<ge> 500" using assms(6) by (auto simp: type_max_def)
  then have "?req \<le> type_max ty" using req j(1) assms(2) by simp
  then have "max 0 room \<le> type_max ty - ?req" using fit_le [of ?req "type_max ty" "block_template s"] by (simp add: room_def)
  moreover have "cost_sum A + cost_sum B \<le> max 0 room" using selected_cost [of "coinbase_value s" room 0 outs] t(1) by (simp add: cost_sum_def)
  ultimately have cost: "cost_sum A + cost_sum B \<le> type_max ty - ?req" by linarith
  have c1: "length (compact n) \<le> 3" if "n \<le> 600" for n using that by (simp add: compact_def)
  have sc: "length (coinbase_script cbs space (enprefix s) en) = length cbs + (if space then 15 else 0)" using assms(3) by (simp add: coinbase_script_def)
  have cs: "length (compact (length cbs + (if space then 15 else 0))) = 1" using assms(2) by (simp add: compact_def)
  have co: "length (compact (length (coinbase_outs s space en wc A B))) \<le> 3" using AB(2) by (intro c1) (simp add: coinbase_outs_def)
  have rest: "length (ser_out (rest_txout s v)) \<le> 9 + length (pool_addr_script s)" for v
    using j(1) assms(5) by (simp add: ser_out_def rest_txout_def compact_def)
  have wit: "length (ser_out (0, wc)) \<le> 47" using assms(4) by (simp add: ser_out_def compact_def)
  have e: "length (ser_out (en_txout (enprefix s) en)) = 25" using assms(3) by (simp add: ser_out_def en_txout_def compact_def)
  have outs_len: "int (length (concat (map ser_out (coinbase_outs s space en wc A B)))) \<le> cost_sum A + cost_sum B + (if space then 0 else 25) + 56 + int (length (pool_addr_script s))"
    using concat_outs_length [OF l(1)] concat_outs_length [OF l(2)] e wit rest [of "sum_sats (A @ B)"] by (simp add: coinbase_outs_def)
  have "int (length (ser_tx (coinbase_script cbs space (enprefix s) en) (coinbase_outs s space en wc A B))) \<le> type_max ty + 5"
    using outs_len co cost req cs unfolding ser_tx_def length_append sc by (simp add: tx_start_def split: if_splits)
  then show ?thesis unfolding t(2) tx_of_hex t(3) .
qed

theorem type_coinbase_size_witness:
  "int (length (tx_of (type_coinbase (set_pool_script demo_addr demo_conf demo_job) demo_outs (hex_of (replicate 20 1)) 2) (replicate 12 9))) \<le> 760"
  using type_coinbase_size [of "set_pool_script demo_addr demo_conf demo_job" "replicate 38 0xAA" demo_outs "replicate 20 1" "replicate 12 9" 2]
  by (simp add: job_ok_def set_pool_script_def demo_defs type_max_def)

lemma append_UNum_hex_small: "n < 2 ^ 23 \<Longrightarrow> \<exists>bs. append_UNum_hex n = hex_of bs \<and> length bs \<le> 4"
proof -
  assume n: "n < 2 ^ 23"
  have un: "unat n < 8388608" using n by (simp add: word_less_nat_alt)
  obtain bs where bs: "append_UNum_hex n = hex_of bs" using append_UNum_hex_some by blast
  let ?c = "unum_count n"
  note b = unum_count_bounds [of n]
  have c: "?c \<le> 3"
  proof (rule ccontr)
    assume "\<not> ?c \<le> 3"
    then have "256 ^ 3 \<le> (256::nat) ^ (?c - 1)" by (intro power_increasing) auto
    then show False using b un \<open>\<not> ?c \<le> 3\<close> by simp
  qed
  have "\<not> 0x80 \<le> unat n div 256 ^ (?c - 1)" if "?c = 3" using un by (simp add: that div_le_mono not_le less_mult_imp_div_less)
  then have "length (append_UNum_hex n) \<le> 8" using c b
    by (cases "?c = 3") (auto simp: append_UNum_hex_def Let_def unum_bytes_value split: prod.splits)
  then show ?thesis using bs by auto
qed

lemma tag_bytes_fit:
  assumes "tag_fit (int (length t0)) (int (length t1)) mx = (j, k)" "k \<le> mx" "k > 0"
  shows "length (tag_bytes t0 (take (nat j) t1) k) \<le> length (push_prefix k) + nat k"
  using assms by (auto simp: tag_bytes_def tag_fit_def Let_def split: if_splits)

text \<open>Below height \<open>2 ^ 23\<close> and with a headline of at most 84 bytes the input script keeps the limit of 100 bytes.
\<close>

theorem coinbase_input_limit:
  assumes "generate_coinbase_input conf h tmpl sup_name = Some (cb, pot)" and "h < 2 ^ 23" and "length (headline_of tmpl) \<le> 84"
  shows "\<exists>cbs. cb = hex_of cbs \<and> length cbs \<le> 100"
proof -
  let ?hl = "headline_of tmpl"
  define mx where "mx = (let m = MAX_COINBASE_TAG_SPACE - (if ?hl \<noteq> [] then int (length ?hl) + 2 else 0) in if m < 0 then 0 else m)"
  define tag0 where "tag0 = map byte_of (if \<not> datum_active conf then tag_primary conf else override_tag_primary conf)"
  define sec where "sec = map byte_of (secondary_tag conf sup_name)"
  obtain t1 k where fit: "tag_fit (int (length tag0)) (int (length sec)) mx = (t1, k)" by fastforce
  obtain ub where ub: "append_UNum_hex h = hex_of ub" "length ub \<le> 4" using append_UNum_hex_small [OF assms(2)] by blast
  define pre where "pre = ub @ headline_push ?hl @ tag_bytes tag0 (take (nat t1) sec) k"
  have "(if k > mx then None else Some (hex_of (pre @ uid_bytes conf), length pre + 1)) = Some (cb, pot)"
    using assms(1) unfolding generate_coinbase_input_def Let_def mx_def [unfolded Let_def, symmetric] tag0_def [symmetric] sec_def [symmetric]
      fit prod.case ub(1) by (auto simp: pre_def split: if_splits)
  then have k: "k \<le> mx" and r: "cb = hex_of (pre @ uid_bytes conf)" by (auto split: if_splits)
  have u: "length (uid_bytes conf) \<le> 8" by (simp add: uid_bytes_def Let_def)
  have mx: "mx = (if ?hl = [] then 86 else 84 - int (length ?hl))" using assms(3) by (simp add: mx_def Let_def MAX_COINBASE_TAG_SPACE_def)
  have hp: "length (headline_push ?hl) = (if ?hl = [] then 0 else length ?hl + (if length ?hl \<le> 75 then 1 else 2))"
    by (simp add: headline_push_def push_prefix_def)
  have tb: "length (tag_bytes tag0 (take (nat t1) sec) k) \<le> (if k \<le> 0 then 2 else (if k \<le> 75 then 1 else 2) + nat k)"
    using tag_bytes_fit [OF fit k] by (cases "k > 0") (auto simp: push_prefix_def tag_bytes_def)
  have "length (headline_push ?hl) + length (tag_bytes tag0 (take (nat t1) sec) k) \<le> 88"
    using tb k assms(3) unfolding hp mx by (auto split: if_splits)
  then show ?thesis using r ub(2) u by (intro exI [of _ "pre @ uid_bytes conf"]) (simp add: pre_def)
qed

theorem coinbase_input_limit_witness:
  "\<exists>cb pot cbs. generate_coinbase_input demo_conf 900000 (Some demo_template) '''' = Some (cb, pot) \<and> cb = hex_of cbs \<and> length cbs \<le> 100"
proof -
  have "\<exists>cb. generate_coinbase_input demo_conf 900000 (Some demo_template) '''' = Some cb"
    by (simp add: demo_defs generate_coinbase_input_def Let_def headline_of_def MAX_COINBASE_TAG_SPACE_def secondary_tag_def tag_fit_def)
  then obtain cb pot where g: "generate_coinbase_input demo_conf 900000 (Some demo_template) '''' = Some (cb, pot)" by auto
  show ?thesis using coinbase_input_limit [OF g] g by (auto simp: headline_of_def demo_template_def)
qed

text \<open>Dropping the secondary tag subtracts 1 and not the tag's length: a primary tag of 84 bytes fits alone,
  but with a secondary tag of two bytes generation ends in the panic, and with one of one byte the push is
  announced one byte longer than the bytes that follow for it.
\<close>

theorem coinbase_tag_drop:
  "generate_coinbase_input (demo_conf\<lparr>tag_primary := replicate 84 CHR ''p'', tag_secondary := ''''\<rparr>) 900000 None '''' \<noteq> None
   \<and> generate_coinbase_input (demo_conf\<lparr>tag_primary := replicate 84 CHR ''p'', tag_secondary := ''xy''\<rparr>) 900000 None '''' = None
   \<and> tag_fit 84 1 86 = (0, 86) \<and> length (tag_bytes (replicate 84 0x70) [] 86) = length (push_prefix 86) + 85"
  by (simp add: demo_defs generate_coinbase_input_def Let_def headline_of_def MAX_COINBASE_TAG_SPACE_def secondary_tag_def tag_fit_def
      tag_bytes_def push_prefix_def)

text \<open>A headline of 100 bytes, which a template may carry, gives an input script above 100 bytes.\<close>

theorem coinbase_headline_over:
  "case generate_coinbase_input (demo_conf\<lparr>tag_primary := '''', tag_secondary := ''''\<rparr>) 900000
      (Some (demo_template\<lparr>blake2b_headline := replicate 100 7\<rparr>)) '''' of None \<Rightarrow> False | Some (cb, _) \<Rightarrow> 2 * 100 < length cb"
  by (simp add: demo_defs generate_coinbase_input_def Let_def headline_of_def MAX_COINBASE_TAG_SPACE_def secondary_tag_def tag_fit_def
      tag_bytes_def push_prefix_def headline_push_def uid_bytes_def)

section \<open>The coinbaser thread\<close>

text \<open>
  The thread remembers the index of the job it looked at, whether there was one, and whether it has to be
  served. \<open>jobs\<close> holds the jobs by index with their flag \<open>need_coinbaser\<close>; \<open>fetch\<close> is
  \<^verbatim>\<open>datum_protocol_coinbaser_fetch\<close>, the number of outputs or a negative number. A round returns the index
  of the job whose transactions were generated, if any.
\<close>

record cb_thread =
  sjob :: int
  thread_job :: "int option"
  thread_need :: bool

definition thread_poll :: "int \<Rightarrow> (int \<rightharpoonup> bool) \<Rightarrow> cb_thread \<Rightarrow> cb_thread" where
  "thread_poll latest jobs t =
     (if latest \<noteq> sjob t
      then case jobs latest of
             Some need_coinbaser \<Rightarrow> t\<lparr>thread_job := Some latest, sjob := latest, thread_need := (if need_coinbaser then True else thread_need t)\<rparr>
           | None \<Rightarrow> t\<lparr>thread_job := None, thread_need := False\<rparr>
      else t)"

definition datum_coinbaser_round ::
  "bool \<Rightarrow> (int \<Rightarrow> int) \<Rightarrow> bool \<Rightarrow> int \<Rightarrow> (int \<rightharpoonup> bool) \<Rightarrow> cb_thread \<Rightarrow> cb_thread \<times> (int \<rightharpoonup> bool) \<times> int option" where
  "datum_coinbaser_round active fetch rwlocks_init_done latest jobs t =
     (let t = thread_poll latest jobs t
      in if thread_need t
         then case thread_job t of
           None \<Rightarrow> (t, jobs, None)
         | Some j \<Rightarrow>
             let i = (if active then fetch j else 0)
             in if i \<ge> 0
                then if rwlocks_init_done then (t\<lparr>thread_need := False\<rparr>, jobs(j \<mapsto> False), Some j) else (t, jobs, Some j)
                else (t, jobs, None)
         else (t, jobs, None))"

text \<open>A new job that needs outputs is served in the round that sees it, unless the fetch fails; then it is tried again.\<close>

lemma coinbaser_round_serves:
  assumes "latest \<noteq> sjob t" "jobs latest = Some True" "\<not> active \<or> 0 \<le> fetch latest"
  shows "\<exists>t'. datum_coinbaser_round active fetch True latest jobs t = (t', jobs(latest \<mapsto> False), Some latest) \<and> \<not> thread_need t'"
  using assms by (auto simp: datum_coinbaser_round_def thread_poll_def Let_def)

lemma coinbaser_round_retries:
  assumes "jobs latest \<noteq> None" "thread_need t" "thread_job t = Some (sjob t)" "fetch latest < 0"
  shows "\<exists>t'. datum_coinbaser_round True fetch True latest jobs t = (t', jobs, None) \<and> thread_need t' \<and> thread_job t' = Some (sjob t')"
  using assms by (auto simp: datum_coinbaser_round_def thread_poll_def Let_def)

end
