(* ===== verification/Bech32.thy ===== *)
theory Bech32
  imports Bytes
begin

text \<open>
  Segregated-witness addresses, \<^verbatim>\<open>src/src/thirdparty_segwit_addr.c\<close>: the checksum of Bech32 and Bech32m, the
  encoder and the decoder, the regrouping of bits, and the address functions on top of them. A C string
  is a list of characters without the final null; the result 0 is \<open>None\<close>.
\<close>

section \<open>Checksum and alphabet\<close>

datatype bech32_encoding = BECH32_ENCODING_NONE | BECH32_ENCODING_BECH32 | BECH32_ENCODING_BECH32M

definition bech32_gen :: "u32 \<Rightarrow> nat \<Rightarrow> u32 \<Rightarrow> u32" where
  "bech32_gen pre k g = (if bit (drop_bit 25 pre) k then g else 0)"

definition bech32_polymod_step :: "u32 \<Rightarrow> u32" where
  "bech32_polymod_step pre =
     push_bit 5 (pre AND 0x1FFFFFF) XOR bech32_gen pre 0 0x3b6a57b2 XOR bech32_gen pre 1 0x26508e6d
       XOR bech32_gen pre 2 0x1ea119fa XOR bech32_gen pre 3 0x3d4233dd XOR bech32_gen pre 4 0x2a1462b3"

text \<open>For \<open>BECH32_ENCODING_NONE\<close> the code aborts; it is never called with it.\<close>

definition bech32_final_constant :: "bech32_encoding \<Rightarrow> u32" where
  "bech32_final_constant enc = (if enc = BECH32_ENCODING_BECH32 then 1 else 0x2bc830a3)"

definition charset :: string where
  "charset = ''qpzry9x8gf2tvdw0s3jn54khce6mua7l''"

definition charset_rev :: "int list" where
  "charset_rev = [
    -1, -1, -1, -1, -1, -1, -1, -1, -1, -1, -1, -1, -1, -1, -1, -1,
    -1, -1, -1, -1, -1, -1, -1, -1, -1, -1, -1, -1, -1, -1, -1, -1,
    -1, -1, -1, -1, -1, -1, -1, -1, -1, -1, -1, -1, -1, -1, -1, -1,
    15, -1, 10, 17, 21, 20, 26, 30,  7,  5, -1, -1, -1, -1, -1, -1,
    -1, 29, -1, 24, 13, 25,  9,  8, 23, -1, 18, 22, 31, 27, 19, -1,
     1,  0,  3, 16, 11, 28, 12, 14,  6,  4,  2, -1, -1, -1, -1, -1,
    -1, 29, -1, 24, 13, 25,  9,  8, 23, -1, 18, 22, 31, 27, 19, -1,
     1,  0,  3, 16, 11, 28, 12, 14,  6,  4,  2, -1, -1, -1, -1, -1]"

abbreviation code :: "char \<Rightarrow> nat" where
  "code c \<equiv> of_char c"

definition is_upper :: "char \<Rightarrow> bool" where
  "is_upper c \<longleftrightarrow> 65 \<le> code c \<and> code c \<le> 90"

definition is_lower :: "char \<Rightarrow> bool" where
  "is_lower c \<longleftrightarrow> 97 \<le> code c \<and> code c \<le> 122"

section \<open>Encoding\<close>

definition chk_high :: "char \<Rightarrow> u32 \<Rightarrow> u32" where
  "chk_high c chk = bech32_polymod_step chk XOR word_of_nat (code c div 32)"

definition chk_low :: "char \<Rightarrow> u32 \<Rightarrow> u32" where
  "chk_low c chk = bech32_polymod_step chk XOR word_of_nat (code c mod 32)"

definition chk_data :: "u8 \<Rightarrow> u32 \<Rightarrow> u32" where
  "chk_data v chk = bech32_polymod_step chk XOR ucast v"

fun encode_hrp :: "string \<Rightarrow> u32 \<Rightarrow> u32 option" where
  "encode_hrp [] chk = Some chk"
| "encode_hrp (c # hrp) chk =
     (if code c < 33 \<or> code c > 126 then None
      else if is_upper c then None
      else encode_hrp hrp (chk_high c chk))"

fun encode_data :: "bytes \<Rightarrow> u32 \<Rightarrow> (string \<times> u32) option" where
  "encode_data [] chk = Some ('''', chk)"
| "encode_data (v # vs) chk =
     (if drop_bit 5 v \<noteq> 0 then None
      else case encode_data vs (chk_data v chk) of None \<Rightarrow> None
        | Some (s, chk) \<Rightarrow> Some (charset ! unat v # s, chk))"

definition bech32_encode :: "string \<Rightarrow> bytes \<Rightarrow> bech32_encoding \<Rightarrow> string option" where
  "bech32_encode hrp data enc =
     (case encode_hrp hrp 1 of None \<Rightarrow> None
      | Some chk \<Rightarrow>
          if length hrp + 7 + length data > 90 then None
          else let chk = fold chk_low hrp (bech32_polymod_step chk)
               in case encode_data data chk of None \<Rightarrow> None
                  | Some (s, chk) \<Rightarrow>
                      let chk = (bech32_polymod_step ^^ 6) chk XOR bech32_final_constant enc
                      in Some (hrp @ ''1'' @ s @ map (\<lambda>i. charset ! unat (drop_bit ((5 - i) * 5) chk AND 0x1f)) [0..<6]))"

section \<open>Decoding\<close>

text \<open>The loops return what they read, the checksum and whether they saw lower- and upper-case letters.\<close>

fun decode_hrp :: "string \<Rightarrow> u32 \<Rightarrow> bool \<Rightarrow> bool \<Rightarrow> (string \<times> u32 \<times> bool \<times> bool) option" where
  "decode_hrp [] chk lo up = Some ('''', chk, lo, up)"
| "decode_hrp (c # cs) chk lo up =
     (if code c < 33 \<or> code c > 126 then None
      else let ch = (if is_lower c then c else if is_upper c then char_of (code c - 65 + 97) else c)
           in case decode_hrp cs (chk_high ch chk) (lo \<or> is_lower c) (up \<or> is_upper c) of None \<Rightarrow> None
              | Some (hrp, r) \<Rightarrow> Some (ch # hrp, r))"

fun decode_data :: "string \<Rightarrow> u32 \<Rightarrow> bool \<Rightarrow> bool \<Rightarrow> (bytes \<times> u32 \<times> bool \<times> bool) option" where
  "decode_data [] chk lo up = Some ([], chk, lo, up)"
| "decode_data (c # cs) chk lo up =
     (let v = (if code c \<ge> 128 then -1 else charset_rev ! code c)
      in if v = -1 then None
         else case decode_data cs (chk_data (word_of_int v) chk) (lo \<or> is_lower c) (up \<or> is_upper c) of None \<Rightarrow> None
           | Some (vs, r) \<Rightarrow> Some (word_of_int v # vs, r))"

definition bech32_decode :: "string \<Rightarrow> (bech32_encoding \<times> string \<times> bytes) option" where
  "bech32_decode input =
     (let input_len = length input
      in if input_len < 8 \<or> input_len > 90 then None
         else let data_len = length (takeWhile (\<lambda>c. c \<noteq> CHR ''1'') (rev input))
              in if 1 + data_len \<ge> input_len \<or> data_len < 6 then None
                 else let hrp_len = input_len - (1 + data_len)
                      in case decode_hrp (take hrp_len input) 1 False False of None \<Rightarrow> None
                         | Some (hrp, chk, lo, up) \<Rightarrow>
                             let chk = fold chk_low (take hrp_len input) (bech32_polymod_step chk)
                             in case decode_data (drop (hrp_len + 1) input) chk lo up of None \<Rightarrow> None
                                | Some (vs, chk, lo, up) \<Rightarrow>
                                    if lo \<and> up then None
                                    else if chk = bech32_final_constant BECH32_ENCODING_BECH32
                                         then Some (BECH32_ENCODING_BECH32, hrp, take (data_len - 6) vs)
                                    else if chk = bech32_final_constant BECH32_ENCODING_BECH32M
                                         then Some (BECH32_ENCODING_BECH32M, hrp, take (data_len - 6) vs)
                                    else None)"

section \<open>Regrouping bits\<close>

text \<open>The inner loop, for the group sizes 5 and 8 of its callers: the groups put out and the bits left.\<close>

fun convert_out :: "nat \<Rightarrow> u32 \<Rightarrow> nat \<Rightarrow> bytes \<times> nat" where
  "convert_out outbits val bits =
     (if outbits = 0 \<or> bits < outbits then ([], bits)
      else let (out, r) = convert_out outbits val (bits - outbits)
           in (ucast (drop_bit (bits - outbits) val AND (push_bit outbits 1 - 1)) # out, r))"

declare convert_out.simps [simp del]

fun convert_loop :: "nat \<Rightarrow> nat \<Rightarrow> bytes \<Rightarrow> u32 \<Rightarrow> nat \<Rightarrow> bytes \<times> u32 \<times> nat" where
  "convert_loop outbits inbits [] val bits = ([], val, bits)"
| "convert_loop outbits inbits (x # xs) val bits =
     (let val = push_bit inbits val OR ucast x;
          (out, bits) = convert_out outbits val (bits + inbits);
          (rest, r) = convert_loop outbits inbits xs val bits
      in (out @ rest, r))"

definition convert_bits :: "nat \<Rightarrow> bytes \<Rightarrow> nat \<Rightarrow> bool \<Rightarrow> bytes option" where
  "convert_bits outbits xs inbits pad =
     (let maxv = push_bit outbits 1 - 1;
          (out, val, bits) = convert_loop outbits inbits xs 0 0;
          lastv = push_bit (outbits - bits) val AND maxv
      in if pad then Some (out @ (if bits \<noteq> 0 then [ucast lastv] else []))
         else if lastv \<noteq> 0 \<or> bits \<ge> inbits then None
         else Some out)"

section \<open>Addresses\<close>

definition segwit_addr_encode :: "string \<Rightarrow> int \<Rightarrow> bytes \<Rightarrow> string option" where
  "segwit_addr_encode hrp witver witprog =
     (if witver > 16 then None
      else if witver = 0 \<and> length witprog \<noteq> 20 \<and> length witprog \<noteq> 32 then None
      else if length witprog < 2 \<or> length witprog > 40 then None
      else let enc = (if witver > 0 then BECH32_ENCODING_BECH32M else BECH32_ENCODING_BECH32)
           in case convert_bits 5 witprog 8 True of None \<Rightarrow> None
              | Some d \<Rightarrow> bech32_encode hrp (word_of_int witver # d) enc)"

definition segwit_addr_decode :: "string \<Rightarrow> string \<Rightarrow> (int \<times> bytes) option" where
  "segwit_addr_decode hrp addr =
     (case bech32_decode addr of None \<Rightarrow> None
      | Some (enc, hrp_actual, data) \<Rightarrow>
          if length data = 0 \<or> length data > 65 then None
          else if hrp \<noteq> hrp_actual then None
          else if data ! 0 > 16 then None
          else if data ! 0 = 0 \<and> enc \<noteq> BECH32_ENCODING_BECH32 then None
          else if data ! 0 > 0 \<and> enc \<noteq> BECH32_ENCODING_BECH32M then None
          else case convert_bits 8 (drop 1 data) 5 False of None \<Rightarrow> None
            | Some witdata \<Rightarrow>
                if length witdata < 2 \<or> length witdata > 40 then None
                else if data ! 0 = 0 \<and> length witdata \<noteq> 20 \<and> length witdata \<noteq> 32 then None
                else Some (uint (data ! 0), witdata))"

section \<open>The checksum is linear\<close>

lemma gen_xor: "bech32_gen (a XOR b) k g = bech32_gen a k g XOR bech32_gen b k g"
  by (simp add: bech32_gen_def bit_drop_bit_eq bit_xor_iff)

lemma step_xor: "bech32_polymod_step (a XOR b) = bech32_polymod_step a XOR bech32_polymod_step b"
  by (simp add: bech32_polymod_step_def gen_xor push_bit_xor bit.conj_xor_distrib2 ac_simps)

lemma gen_lt: "g < 0x40000000 \<Longrightarrow> bech32_gen a k g < 0x40000000"
  by (simp add: bech32_gen_def)

lemma word_lt_iff_take: "x < 0x40000000 \<longleftrightarrow> take_bit 30 x = (x :: u32)"
proof -
  have "unat (take_bit 30 x) = take_bit 30 (unat x)" by (simp add: unsigned_take_bit_eq)
  also have "\<dots> = unat x mod 2 ^ 30" by (simp only: take_bit_eq_mod)
  finally have "unat (take_bit 30 x) = unat x mod 2 ^ 30" .
  then have "take_bit 30 x = x \<longleftrightarrow> unat x mod 2 ^ 30 = unat x" by (metis word_unat_eq_iff)
  also have "\<dots> \<longleftrightarrow> unat x < 2 ^ 30" by (metis mod_less mod_less_divisor zero_less_numeral zero_less_power)
  finally show ?thesis by (simp add: word_less_nat_alt)
qed

lemma xor_lt: "a < 0x40000000 \<Longrightarrow> b < 0x40000000 \<Longrightarrow> (a XOR b :: u32) < 0x40000000"
  by (simp add: word_lt_iff_take)

lemma step_lt: "bech32_polymod_step x < 0x40000000"
proof -
  have "push_bit 5 (x AND 0x1FFFFFF) < (0x40000000 :: u32)"
  proof -
    have m: "(0x1FFFFFF :: u32) = mask 25" by (simp add: mask_eq_exp_minus_1)
    have "unat (x AND 0x1FFFFFF) < 2 ^ 25" unfolding m by (simp add: unat_and_mask)
    then have "unat (push_bit 5 (x AND 0x1FFFFFF)) < 2 ^ 30"
      by (simp add: push_bit_eq_mult unat_word_ariths)
    then show ?thesis by (simp add: word_less_nat_alt)
  qed
  then show ?thesis unfolding bech32_polymod_step_def by (intro xor_lt gen_lt) simp_all
qed

lemma step_small:
  assumes "x < 0x2000000"
  shows "bech32_polymod_step x = push_bit 5 x"
proof -
  have u: "unat x < 2 ^ 25" using assms by (simp add: word_less_nat_alt)
  then have "unat (drop_bit 25 x) = 0" by (simp add: unat_drop_bit_div)
  then have d: "drop_bit 25 x = 0" by (simp only: unat_eq_0)
  have m: "(0x1FFFFFF :: u32) = mask 25" by (simp add: mask_eq_exp_minus_1)
  have "unat (x AND 0x1FFFFFF) = unat x" unfolding m using u by (simp add: unat_and_mask)
  then have "x AND 0x1FFFFFF = x" by (simp only: word_unat_eq_iff)
  then show ?thesis by (simp add: bech32_polymod_step_def bech32_gen_def d)
qed

lemma split5: "push_bit 5 (drop_bit 5 y) XOR (y AND 0x1f) = (y :: u32)"
proof -
  have m: "(0x1f :: u32) = mask 5" by (simp add: mask_eq_exp_minus_1)
  show ?thesis unfolding m by (rule bit_eqI) (auto simp: bit_simps)
qed

definition chk_digit :: "u32 \<Rightarrow> nat \<Rightarrow> u8" where
  "chk_digit c i = ucast (drop_bit ((5 - i) * 5) c AND 0x1f)"

lemma ucast_chk_digit: "ucast (chk_digit c i) = drop_bit ((5 - i) * 5) c AND 0x1f"
proof -
  have m: "(0x1f :: u32) = mask 5" by (simp add: mask_eq_exp_minus_1)
  show ?thesis unfolding chk_digit_def m by (rule bit_eqI) (auto simp: bit_simps)
qed

text \<open>Feeding the six checksum digits of \<open>c\<close> after \<open>d\<close> leads to the value that \<open>c\<close> was made from.\<close>

lemma checksum_digits:
  assumes "c < 0x40000000" "i \<le> 6"
  shows "fold chk_data (map (chk_digit c) [0..<i]) d = (bech32_polymod_step ^^ i) d XOR drop_bit (30 - 5 * i) c"
  using assms(2)
proof (induction i)
  case 0
  have "unat (drop_bit 30 c) = 0" using assms(1) by (simp add: unat_drop_bit_div word_less_nat_alt)
  then have "drop_bit 30 c = 0" by (simp only: unat_eq_0)
  then show ?case by simp
next
  case (Suc i)
  let ?h = "drop_bit (30 - 5 * i) c" and ?l = "drop_bit (30 - 5 * Suc i) c"
  have hl: "?h = drop_bit 5 ?l" using Suc.prems by (simp add: drop_bit_drop_bit ac_simps)
  have "unat c < 2 ^ 30" using assms(1) by (simp add: word_less_nat_alt)
  moreover have "2 ^ (5 * i) * 2 ^ (30 - 5 * i) = (2 ^ 30 :: nat)" using Suc.prems by (simp flip: power_add)
  ultimately have "unat c div 2 ^ (30 - 5 * i) < 2 ^ (5 * i)" by (metis less_mult_imp_div_less)
  also have "(2 :: nat) ^ (5 * i) \<le> 2 ^ 25" using Suc.prems by (intro power_increasing) auto
  finally have "?h < 0x2000000" by (simp add: word_less_nat_alt unat_drop_bit_div)
  then have st: "bech32_polymod_step ?h = push_bit 5 ?h" by (rule step_small)
  have ix: "(5 - i) * 5 = 30 - 5 * Suc i" using Suc.prems by simp
  have "fold chk_data (map (chk_digit c) [0..<Suc i]) d = bech32_polymod_step (fold chk_data (map (chk_digit c) [0..<i]) d) XOR (?l AND 0x1f)"
    by (simp add: chk_data_def ucast_chk_digit ix)
  also have "\<dots> = (bech32_polymod_step ^^ Suc i) d XOR (push_bit 5 ?h XOR (?l AND 0x1f))"
    using Suc by (simp add: step_xor st xor.assoc)
  also have "push_bit 5 ?h XOR (?l AND 0x1f) = ?l" unfolding hl by (rule split5)
  finally show ?case .
qed

section \<open>Decoding an encoded string\<close>

definition sym :: "u8 \<Rightarrow> char" where
  "sym v = charset ! unat v"

lemma charset_table:
  "list_all (\<lambda>v. let c = charset ! v in code c < 128 \<and> charset_rev ! code c = int v \<and> \<not> is_upper c \<and> c \<noteq> CHR ''1'') [0..<32]"
  by code_simp

lemma sym_props:
  assumes "v < 32"
  shows "code (sym v) < 128" "charset_rev ! code (sym v) = uint v" "\<not> is_upper (sym v)" "sym v \<noteq> CHR ''1''"
proof -
  have "unat v < 32" using assms by (simp add: word_less_nat_alt)
  then have "unat v \<in> set [0..<32]" by simp
  with charset_table have "let c = charset ! unat v in code c < 128 \<and> charset_rev ! code c = int (unat v) \<and> \<not> is_upper c \<and> c \<noteq> CHR ''1''"
    unfolding list_all_iff by blast
  then show "code (sym v) < 128" "charset_rev ! code (sym v) = uint v" "\<not> is_upper (sym v)" "sym v \<noteq> CHR ''1''"
    by (simp_all add: sym_def Let_def)
qed

lemma drop5_iff: "drop_bit 5 v = (0 :: u8) \<longleftrightarrow> v < 32"
proof -
  have "drop_bit 5 v = 0 \<longleftrightarrow> unat (drop_bit 5 v) = 0" by (simp only: unat_eq_0)
  also have "\<dots> \<longleftrightarrow> unat v < 32" by (simp add: unat_drop_bit_div div_eq_0_iff)
  finally show ?thesis by (simp add: word_less_nat_alt)
qed

lemma encode_data_Some: "encode_data vs chk = Some (s, chk') \<Longrightarrow> list_all (\<lambda>v. v < 32) vs \<and> s = map sym vs \<and> chk' = fold chk_data vs chk"
  by (induction vs arbitrary: chk s) (auto simp: sym_def drop5_iff split: if_splits option.splits)

lemma encode_data_small: "list_all (\<lambda>v. v < 32) vs \<Longrightarrow> encode_data vs chk = Some (map sym vs, fold chk_data vs chk)"
  by (induction vs arbitrary: chk) (auto simp: sym_def drop5_iff)

lemma decode_data_sym: "list_all (\<lambda>v. v < 32) vs \<Longrightarrow> \<exists>lo'. decode_data (map sym vs) chk lo up = Some (vs, fold chk_data vs chk, lo', up)"
proof (induction vs arbitrary: chk lo)
  case (Cons v vs)
  then have v: "v < 32" and vs: "list_all (\<lambda>v. v < 32) vs" by simp_all
  note Cons.IH [OF vs, of "chk_data v chk" "lo \<or> is_lower (sym v)"]
  moreover have "uint v \<noteq> -1" using uint_ge_0 [of v] by linarith
  ultimately show ?case using sym_props [OF v] by (auto simp: Let_def)
qed simp

lemma encode_hrp_decode: "encode_hrp hrp chk = Some chk' \<Longrightarrow> \<exists>lo'. decode_hrp hrp chk lo False = Some (hrp, chk', lo', False)"
proof (induction hrp arbitrary: chk lo)
  case (Cons c hrp)
  then have c: "\<not> (code c < 33 \<or> code c > 126)" "\<not> is_upper c" and e: "encode_hrp hrp (chk_high c chk) = Some chk'"
    by (auto split: if_splits)
  from Cons.IH [OF e, of "lo \<or> is_lower c"] c show ?case by (auto simp: Let_def)
qed simp

lemma chk_digit_small: "chk_digit c i < 32"
proof -
  have m: "(0x1f :: u32) = mask 5" by (simp add: mask_eq_exp_minus_1)
  have "unat (drop_bit ((5 - i) * 5) c AND 0x1f) < 32" unfolding m by (simp add: unat_and_mask)
  then show ?thesis by (simp add: chk_digit_def word_less_nat_alt unat_ucast_mod)
qed

lemma unat_chk_digit: "unat (drop_bit ((5 - i) * 5) c AND 0x1f) = unat (chk_digit c i)"
  using unat_u8_less [of "chk_digit c i"] by (simp flip: ucast_chk_digit add: unat_ucast_mod del: unat_u8_less)

text \<open>A string made by the encoder is decoded to the same encoding, human-readable part and data.\<close>

lemma bech32_decode_encode:
  assumes "bech32_encode hrp data enc = Some s" and "hrp \<noteq> []" and "enc \<noteq> BECH32_ENCODING_NONE"
  shows "bech32_decode s = Some (enc, hrp, data)"
proof -
  obtain chk0 where h: "encode_hrp hrp 1 = Some chk0" using assms(1) by (auto simp: bech32_encode_def split: option.splits)
  define chk1 where "chk1 = fold chk_low hrp (bech32_polymod_step chk0)"
  have len: "length hrp + 7 + length data \<le> 90" using assms(1) h by (auto simp: bech32_encode_def split: if_splits)
  obtain d chk2 where d: "encode_data data chk1 = Some (d, chk2)"
    using assms(1) h by (auto simp: bech32_encode_def Let_def chk1_def split: if_splits option.splits)
  from encode_data_Some [OF d] have e: "list_all (\<lambda>v. v < 32) data" "d = map sym data" "chk2 = fold chk_data data chk1" by auto
  obtain c where c: "c = (bech32_polymod_step ^^ 6) chk2 XOR bech32_final_constant enc" by blast
  define vs where "vs = data @ map (chk_digit c) [0..<6]"
  have dig: "map (\<lambda>i. charset ! unat (drop_bit ((5 - i) * 5) c AND 0x1f)) [0..<6] = map sym (map (chk_digit c) [0..<6])"
    by (simp only: map_map comp_def sym_def unat_chk_digit)
  have "s = hrp @ ''1'' @ map sym data @ map (\<lambda>i. charset ! unat (drop_bit ((5 - i) * 5) c AND 0x1f)) [0..<6]"
    using assms(1) h len d unfolding bech32_encode_def by (simp add: Let_def e(2) chk1_def [symmetric] c [symmetric] del: drop_bit_xor)
  then have s: "s = hrp @ ''1'' @ map sym vs" by (simp only: dig vs_def map_append)
  have small: "list_all (\<lambda>v. v < 32) vs" using e(1) chk_digit_small by (auto simp: vs_def list_all_iff)
  have "bech32_final_constant enc < 0x40000000" by (simp add: bech32_final_constant_def)
  then have "c < 0x40000000" unfolding c using step_lt by (intro xor_lt) (simp_all add: eval_nat_numeral)
  from checksum_digits [OF this, of 6 chk2] have fin: "fold chk_data vs chk1 = bech32_final_constant enc"
    by (simp add: vs_def e(3) [symmetric] c xor.assoc [symmetric])
  have no1: "\<forall>x \<in> set (rev (map sym vs)). x \<noteq> CHR ''1''" using small sym_props(4) by (auto simp: list_all_iff)
  have tw: "takeWhile (\<lambda>c. c \<noteq> CHR ''1'') (rev s) = rev (map sym vs)" unfolding s
    using takeWhile_append2 [of "rev (map sym vs)" "\<lambda>c. c \<noteq> CHR ''1''" "CHR ''1'' # rev hrp"] no1 by simp
  have lv: "length vs = length data + 6" by (simp add: vs_def)
  have ls: "length s = length hrp + 1 + length vs" by (simp add: s)
  have hl: "length s - (1 + length vs) = length hrp" "take (length hrp) s = hrp" "drop (length hrp + 1) s = map sym vs" using ls by (simp_all add: s)
  obtain lo where dh: "decode_hrp hrp 1 False False = Some (hrp, chk0, lo, False)" using encode_hrp_decode [OF h] by blast
  obtain lo' where dd: "decode_data (map sym vs) chk1 lo False = Some (vs, bech32_final_constant enc, lo', False)"
    using decode_data_sym [OF small, of chk1 lo False] fin by auto
  have "bech32_decode s = (if bech32_final_constant enc = bech32_final_constant BECH32_ENCODING_BECH32 then Some (BECH32_ENCODING_BECH32, hrp, data)
      else if bech32_final_constant enc = bech32_final_constant BECH32_ENCODING_BECH32M then Some (BECH32_ENCODING_BECH32M, hrp, data) else None)"
    unfolding bech32_decode_def Let_def tw length_rev length_map hl dh using len ls lv assms(2)
    by (simp add: chk1_def [symmetric] dd) (simp add: vs_def Suc_le_eq)
  then show ?thesis using assms(3) by (cases enc) (auto simp: bech32_final_constant_def)
qed

section \<open>Numbers by big-endian digits\<close>

definition be_val :: "nat \<Rightarrow> nat list \<Rightarrow> nat" where
  "be_val b ds = foldl (\<lambda>a d. a * b + d) 0 ds"

lemma be_val_Nil [simp]: "be_val b [] = 0"
  by (simp add: be_val_def)

lemma be_val_snoc: "be_val b (ds @ [d]) = be_val b ds * b + d"
  by (simp add: be_val_def)

lemma be_val_append: "be_val b (xs @ ys) = be_val b xs * b ^ length ys + be_val b ys"
  by (induction ys rule: rev_induct) (simp_all add: be_val_snoc algebra_simps flip: append_assoc)

lemma be_val_single [simp]: "be_val b [d] = d"
  by (simp add: be_val_def)

lemma be_val_Cons: "be_val b (d # ds) = d * b ^ length ds + be_val b ds"
  using be_val_append [of b "[d]" ds] by simp

lemma be_val_less: "list_all (\<lambda>d. d < b) ds \<Longrightarrow> be_val b ds < b ^ length ds"
proof (induction ds)
  case (Cons d ds)
  then have "be_val b (d # ds) < d * b ^ length ds + b ^ length ds" by (simp add: be_val_Cons)
  also have "\<dots> = Suc d * b ^ length ds" by simp
  also have "\<dots> \<le> b * b ^ length ds" using Cons.prems by (intro mult_right_mono) auto
  finally show ?case by simp
qed simp

lemma be_val_inject:
  "length xs = length ys \<Longrightarrow> list_all (\<lambda>d. d < b) xs \<Longrightarrow> list_all (\<lambda>d. d < b) ys \<Longrightarrow> be_val b xs = be_val b ys \<Longrightarrow> xs = ys"
proof (induction xs ys rule: list_induct2)
  case (Cons x xs y ys)
  have l: "be_val b xs < b ^ length xs" "be_val b ys < b ^ length xs" using Cons be_val_less [of b xs] be_val_less [of b ys] by auto
  have e: "x * b ^ length xs + be_val b xs = y * b ^ length xs + be_val b ys" using Cons by (simp add: be_val_Cons)
  have "0 < b ^ length xs" using l(1) by (rule order.strict_trans1 [OF le0])
  then have "x = y" using arg_cong [OF e, of "\<lambda>z. z div b ^ length xs"] l by simp
  then show ?case using e Cons by simp
qed simp

section \<open>Regrouping is undone\<close>

abbreviation digits :: "bytes \<Rightarrow> nat list" where
  "digits bs \<equiv> map unat bs"

lemma mod_split: "v mod 2 ^ (a + b) = (v div 2 ^ a mod 2 ^ b) * 2 ^ a + v mod (2 ^ a :: nat)"
  by (simp add: power_add mod_mult2_eq)

lemma convert_out_spec:
  assumes "0 < k" "k \<le> 8" "bits \<le> 32"
  shows "\<exists>out. convert_out k val bits = (out, bits mod k) \<and> length out = bits div k \<and> list_all (\<lambda>d. d < 2 ^ k) (digits out)
     \<and> be_val (2 ^ k) (digits out) * 2 ^ (bits mod k) + unat val mod 2 ^ (bits mod k) = unat val mod 2 ^ bits"
  using assms(3)
proof (induction bits rule: less_induct)
  case (less bits)
  show ?case
  proof (cases "bits < k")
    case True
    then show ?thesis using assms by (simp add: convert_out.simps)
  next
    case False
    let ?b = "bits - k"
    have "?b < bits" "?b \<le> 32" using False assms(1) less.prems by linarith+
    from less.IH [OF this] obtain out where o: "convert_out k val ?b = (out, ?b mod k)" "length out = ?b div k"
      "list_all (\<lambda>d. d < 2 ^ k) (digits out)" "be_val (2 ^ k) (digits out) * 2 ^ (?b mod k) + unat val mod 2 ^ (?b mod k) = unat val mod 2 ^ ?b"
      by blast
    have bk: "bits mod k = ?b mod k" "bits div k = Suc (?b div k)" using False assms(1) by (simp_all add: le_mod_geq le_div_geq)
    define w where "w = (ucast (drop_bit ?b val AND (push_bit k 1 - 1)) :: u8)"
    have "push_bit k 1 - 1 = (mask k :: u32)" by (simp add: mask_eq_exp_minus_1 push_bit_eq_mult)
    then have "unat (drop_bit ?b val AND (push_bit k 1 - 1)) = unat val div 2 ^ ?b mod 2 ^ k" by (simp only: unat_and_mask unat_drop_bit_div)
    moreover have "unat val div 2 ^ ?b mod 2 ^ k < 256" using assms(2) power_increasing [of k 8 "2 :: nat"] mod_less_divisor [of "2 ^ k" "unat val div 2 ^ ?b"]
      by (simp del: mod_less_divisor)
    ultimately have w: "unat w = unat val div 2 ^ ?b mod 2 ^ k" by (simp add: w_def unat_ucast_mod)
    have p: "2 ^ (?b mod k) * (2 ^ k) ^ (?b div k) = (2 :: nat) ^ ?b" by (simp flip: power_mult power_add)
    have c: "convert_out k val bits = (w # out, ?b mod k)" using False assms(1) o(1) by (subst convert_out.simps) (simp add: w_def)
    have "be_val (2 ^ k) (digits (w # out)) * 2 ^ (?b mod k) = unat w * 2 ^ ?b + be_val (2 ^ k) (digits out) * 2 ^ (?b mod k)"
      by (simp add: be_val_Cons o(2) algebra_simps p)
    also have "\<dots> + unat val mod 2 ^ (?b mod k) = unat w * 2 ^ ?b + unat val mod 2 ^ ?b" using o(4) by simp
    also have "\<dots> = unat val mod 2 ^ bits" using mod_split [of "unat val" ?b k] False w by simp
    finally show ?thesis using c o bk w by (intro exI [of _ "w # out"]) simp
  qed
qed

lemma unat_push_or:
  assumes "unat x < 2 ^ n" "a + n \<le> 32" "n \<le> 8"
  shows "unat (push_bit n (val :: u32) OR ucast (x :: u8)) mod 2 ^ (a + n) = (unat val mod 2 ^ a) * 2 ^ n + unat x"
proof -
  have bx: "\<not> bit x i" if "n \<le> i" for i
  proof
    assume "bit x i"
    then have "bit (unat x) i" by (simp add: bit_unsigned_iff)
    moreover have "2 ^ n \<le> (2 :: nat) ^ i" using that by simp
    ultimately show False using assms(1) by (simp add: bit_iff_odd)
  qed
  have d: "push_bit n val AND (ucast x :: u32) = 0"
    by (rule bit_word_eqI) (auto simp: bit_simps bx)
  have "(2 :: nat) ^ n \<le> 2 ^ 8" using assms(3) by (intro power_increasing) auto
  then have "unat (word_of_nat (2 ^ n) :: u32) = 2 ^ n" by (simp only: unat_of_nat take_bit_eq_mod) simp
  then have u2: "unat (2 ^ n :: u32) = 2 ^ n" by simp
  have ux: "unat (ucast x :: u32) = unat x" by (rule unat_ucast_up) simp
  have "push_bit n val OR ucast x = push_bit n val + ucast x" by (simp add: disjunctive_add_eq_or [OF d])
  then have "unat (push_bit n val OR ucast x) mod 2 ^ (a + n) = (unat val * 2 ^ n + unat x) mod 2 ^ 32 mod 2 ^ (a + n)"
    by (simp add: unat_word_ariths ux push_bit_eq_mult u2 mod_simps)
  also have "\<dots> = (unat val * 2 ^ n + unat x) mod 2 ^ (a + n)" using assms(2) by (intro mod_mod_cancel le_imp_power_dvd)
  also have "\<dots> = (unat val mod 2 ^ a) * 2 ^ n + unat x"
    using mod_split [of "unat val * 2 ^ n + unat x" n a] assms(1) by (simp add: add.commute)
  finally show ?thesis .
qed

lemma convert_loop_spec:
  assumes k: "0 < k" "k \<le> 8" and n: "n \<le> 8" and "bits < k" "list_all (\<lambda>d. d < 2 ^ n) (digits xs)"
  shows "\<exists>out val' bits'. convert_loop k n xs val bits = (out, val', bits') \<and> bits' < k \<and> length out * k + bits' = bits + length xs * n
     \<and> list_all (\<lambda>d. d < 2 ^ k) (digits out)
     \<and> be_val (2 ^ k) (digits out) * 2 ^ bits' + unat val' mod 2 ^ bits' = (unat val mod 2 ^ bits) * 2 ^ (length xs * n) + be_val (2 ^ n) (digits xs)"
  using assms(4,5)
proof (induction xs arbitrary: val bits)
  case (Cons x xs)
  define v where "v = push_bit n val OR ucast x"
  have "bits + n \<le> 32" using Cons.prems k n by simp
  from convert_out_spec [OF k this, of v] obtain out where o: "convert_out k v (bits + n) = (out, (bits + n) mod k)" "length out = (bits + n) div k"
    "list_all (\<lambda>d. d < 2 ^ k) (digits out)"
    "be_val (2 ^ k) (digits out) * 2 ^ ((bits + n) mod k) + unat v mod 2 ^ ((bits + n) mod k) = unat v mod 2 ^ (bits + n)" by blast
  have uv: "unat v mod 2 ^ (bits + n) = (unat val mod 2 ^ bits) * 2 ^ n + unat x"
    unfolding v_def using Cons.prems k n by (intro unat_push_or) auto
  let ?b = "(bits + n) mod k"
  have "?b < k" using k by simp
  moreover have "list_all (\<lambda>d. d < 2 ^ n) (digits xs)" using Cons.prems by simp
  ultimately obtain out2 val' bits' where i: "convert_loop k n xs v ?b = (out2, val', bits')" "bits' < k" "length out2 * k + bits' = ?b + length xs * n"
    "list_all (\<lambda>d. d < 2 ^ k) (digits out2)"
    "be_val (2 ^ k) (digits out2) * 2 ^ bits' + unat val' mod 2 ^ bits' = (unat v mod 2 ^ ?b) * 2 ^ (length xs * n) + be_val (2 ^ n) (digits xs)"
    using Cons.IH [of ?b v] by blast
  have c: "convert_loop k n (x # xs) val bits = (out @ out2, val', bits')" by (simp add: v_def [symmetric] o(1) i(1))
  have "length out * k + ?b = bits + n" unfolding o(2) by simp
  then have l: "length (out @ out2) * k + bits' = bits + length (x # xs) * n" using i(3) by (simp add: algebra_simps)
  have p: "(2 ^ k) ^ length out2 * 2 ^ bits' = (2 :: nat) ^ ?b * 2 ^ (length xs * n)"
    using i(3) by (metis mult.commute power_add power_mult)
  have "be_val (2 ^ k) (digits (out @ out2)) * 2 ^ bits' + unat val' mod 2 ^ bits'
      = be_val (2 ^ k) (digits out) * ((2 ^ k) ^ length out2 * 2 ^ bits') + (be_val (2 ^ k) (digits out2) * 2 ^ bits' + unat val' mod 2 ^ bits')"
    by (simp add: be_val_append algebra_simps)
  also have "\<dots> = (be_val (2 ^ k) (digits out) * 2 ^ ?b + unat v mod 2 ^ ?b) * 2 ^ (length xs * n) + be_val (2 ^ n) (digits xs)"
    unfolding p i(5) by (simp add: algebra_simps)
  also have "\<dots> = ((unat val mod 2 ^ bits) * 2 ^ n + unat x) * 2 ^ (length xs * n) + be_val (2 ^ n) (digits xs)" unfolding o(4) uv ..
  also have "\<dots> = (unat val mod 2 ^ bits) * 2 ^ (length (x # xs) * n) + be_val (2 ^ n) (digits (x # xs))"
    by (simp add: be_val_Cons algebra_simps power_add power_mult [symmetric])
  finally show ?case using c i(2,4) l o(3) by simp
qed simp

lemma last_group:
  assumes "b \<le> k" "k \<le> 8"
  shows "unat (push_bit (k - b) (val :: u32) AND (push_bit k 1 - 1)) = (unat val mod 2 ^ b) * 2 ^ (k - b)"
proof -
  have m: "push_bit k 1 - 1 = (mask k :: u32)" by (simp add: mask_eq_exp_minus_1 push_bit_eq_mult)
  have "unat (push_bit (k - b) val AND (push_bit k 1 - 1)) = unat (push_bit (k - b) val OR ucast (0 :: u8)) mod 2 ^ (b + (k - b))"
    unfolding m using assms by (simp add: unat_and_mask)
  also have "\<dots> = (unat val mod 2 ^ b) * 2 ^ (k - b)" using assms by (subst unat_push_or) simp_all
  finally show ?thesis .
qed

lemma bytes_small: "list_all (\<lambda>d. d < 2 ^ 8) (digits xs)"
  by (simp add: list_all_iff)

lemma convert_8_5:
  "\<exists>ys p. convert_bits 5 xs 8 True = Some ys \<and> list_all (\<lambda>d. d < 2 ^ 5) (digits ys) \<and> p < 5 \<and> length ys * 5 = length xs * 8 + p
     \<and> be_val (2 ^ 5) (digits ys) = be_val (2 ^ 8) (digits xs) * 2 ^ p"
proof -
  have "\<exists>out val' bits'. convert_loop 5 8 xs 0 0 = (out, val', bits') \<and> bits' < 5 \<and> length out * 5 + bits' = 0 + length xs * 8
     \<and> list_all (\<lambda>d. d < 2 ^ 5) (digits out)
     \<and> be_val (2 ^ 5) (digits out) * 2 ^ bits' + unat val' mod 2 ^ bits' = (unat (0 :: u32) mod 2 ^ 0) * 2 ^ (length xs * 8) + be_val (2 ^ 8) (digits xs)"
    by (rule convert_loop_spec) (simp_all add: bytes_small del: power_numeral)
  then obtain out val b where o: "convert_loop 5 8 xs 0 0 = (out, val, b)" "b < 5" "length out * 5 + b = length xs * 8"
    "list_all (\<lambda>d. d < 2 ^ 5) (digits out)" "be_val (2 ^ 5) (digits out) * 2 ^ b + unat val mod 2 ^ b = be_val (2 ^ 8) (digits xs)" by auto
  show ?thesis
  proof (cases "b = 0")
    case True
    then show ?thesis using o by (intro exI [of _ out] exI [of _ 0]) (simp add: convert_bits_def)
  next
    case False
    define w where "w = (ucast (push_bit (5 - b) val AND (push_bit 5 1 - 1)) :: u8)"
    have "unat (push_bit (5 - b) val AND (push_bit 5 1 - 1)) = (unat val mod 2 ^ b) * 2 ^ (5 - b)" using o(2) by (intro last_group) auto
    moreover have "(unat val mod 2 ^ b) * 2 ^ (5 - b) < 2 ^ b * 2 ^ (5 - b)" by simp
    then have "(unat val mod 2 ^ b) * 2 ^ (5 - b) < 32" using o(2) by (simp flip: power_add)
    ultimately have w: "unat w = (unat val mod 2 ^ b) * 2 ^ (5 - b)" "unat w < 32" by (simp_all add: w_def unat_ucast_mod)
    have "be_val (2 ^ 5) (digits (out @ [w])) = (be_val (2 ^ 5) (digits out) * 2 ^ b + unat val mod 2 ^ b) * 2 ^ (5 - b)"
      using o(2) w(1) by (simp add: be_val_snoc distrib_right mult.assoc flip: power_add)
    then have "be_val (2 ^ 5) (digits (out @ [w])) = be_val (2 ^ 8) (digits xs) * 2 ^ (5 - b)" unfolding o(5) .
    then show ?thesis using o False w by (intro exI [of _ "out @ [w]"] exI [of _ "5 - b"]) (simp add: convert_bits_def w_def)
  qed
qed

lemma convert_5_8:
  assumes "list_all (\<lambda>d. d < 2 ^ 5) (digits ys)" "p < 5" "length ys * 5 = length xs * 8 + p" "be_val (2 ^ 5) (digits ys) = be_val (2 ^ 8) (digits xs) * 2 ^ p"
  shows "convert_bits 8 ys 5 False = Some xs"
proof -
  have "\<exists>out val' bits'. convert_loop 8 5 ys 0 0 = (out, val', bits') \<and> bits' < 8 \<and> length out * 8 + bits' = 0 + length ys * 5
     \<and> list_all (\<lambda>d. d < 2 ^ 8) (digits out)
     \<and> be_val (2 ^ 8) (digits out) * 2 ^ bits' + unat val' mod 2 ^ bits' = (unat (0 :: u32) mod 2 ^ 0) * 2 ^ (length ys * 5) + be_val (2 ^ 5) (digits ys)"
    using assms(1) by (intro convert_loop_spec) simp_all
  then obtain out val b where o: "convert_loop 8 5 ys 0 0 = (out, val, b)" "b < 8" "length out * 8 + b = length ys * 5"
    "be_val (2 ^ 8) (digits out) * 2 ^ b + unat val mod 2 ^ b = be_val (2 ^ 5) (digits ys)" by auto
  have "length out * 8 + b = length xs * 8 + p" using o(3) assms(3) by simp
  then have l: "length out = length xs" and b: "b = p" using o(2) assms(2) by presburger+
  have e: "be_val (2 ^ 8) (digits out) * 2 ^ p + unat val mod 2 ^ p = be_val (2 ^ 8) (digits xs) * 2 ^ p" using o(4) assms(4) b by simp
  have r: "unat val mod 2 ^ p = 0" using arg_cong [OF e, of "\<lambda>z. z mod 2 ^ p"] by simp
  then have "be_val (2 ^ 8) (digits out) = be_val (2 ^ 8) (digits xs)" using e by simp
  then have "digits out = digits xs" using l bytes_small [of out] bytes_small [of xs] by (intro be_val_inject [of _ _ "2 ^ 8"]) (simp_all del: power_numeral)
  then have x: "out = xs" by (metis injI inj_map_eq_map word_unat_eq_iff)
  have "unat (push_bit (8 - p) val AND (push_bit 8 1 - 1)) = 0" using assms(2) r by (subst last_group) auto
  then have "push_bit (8 - p) val AND (push_bit 8 1 - 1) = 0" by (simp only: unat_eq_0)
  then show ?thesis using o(1) x b assms(2) by (simp add: convert_bits_def)
qed

text \<open>A witness program encoded as an address is decoded from it again, with its version.\<close>

lemma segwit_addr_roundtrip:
  assumes "segwit_addr_encode hrp witver witprog = Some addr" and "hrp \<noteq> []" and "0 \<le> witver"
  shows "segwit_addr_decode hrp addr = Some (witver, witprog)"
proof -
  obtain ys p where y: "convert_bits 5 witprog 8 True = Some ys" "list_all (\<lambda>d. d < 2 ^ 5) (digits ys)" "p < 5" "length ys * 5 = length witprog * 8 + p"
     "be_val (2 ^ 5) (digits ys) = be_val (2 ^ 8) (digits witprog) * 2 ^ p" using convert_8_5 [of witprog] by blast
  note dec = convert_5_8 [OF y(2-5)]
  define enc where "enc = (if witver > 0 then BECH32_ENCODING_BECH32M else BECH32_ENCODING_BECH32)"
  have g: "witver \<le> 16" "2 \<le> length witprog" "length witprog \<le> 40" "witver = 0 \<longrightarrow> length witprog = 20 \<or> length witprog = 32"
    and b: "bech32_encode hrp (word_of_int witver # ys) enc = Some addr"
    using assms(1) y(1) by (auto simp: segwit_addr_encode_def Let_def enc_def split: if_splits)
  have d: "bech32_decode addr = Some (enc, hrp, word_of_int witver # ys)" using b assms(2) by (intro bech32_decode_encode) (auto simp: enc_def)
  have w: "uint (word_of_int witver :: u8) = witver" using assms(3) g(1) by (simp add: uint_word_of_int take_bit_eq_mod)
  then have w': "(word_of_int witver :: u8) > 16 \<longleftrightarrow> False" "(word_of_int witver :: u8) = 0 \<longleftrightarrow> witver = 0" "(word_of_int witver :: u8) > 0 \<longleftrightarrow> witver > 0"
    using assms(3) g(1) by (auto simp: word_less_alt word_uint_eq_iff)
  have l: "length ys \<le> 64" using y(3,4) g(3) by simp
  show ?thesis unfolding segwit_addr_decode_def d using dec g l w w' by (auto simp: enc_def)
qed

lemma segwit_addr_encode_bc:
  assumes "0 \<le> witver" "witver \<le> 16" "2 \<le> length witprog" "length witprog \<le> 40" "witver = 0 \<longrightarrow> length witprog = 20 \<or> length witprog = 32"
  shows "\<exists>r. segwit_addr_encode ''bc'' witver witprog = Some (''bc1'' @ r) \<and> length witprog + 6 \<le> length r \<and> r ! 0 = sym (word_of_int witver)"
proof -
  obtain ys p where y: "convert_bits 5 witprog 8 True = Some ys" "list_all (\<lambda>d. d < 2 ^ 5) (digits ys)" "p < 5" "length ys * 5 = length witprog * 8 + p"
    using convert_8_5 [of witprog] by blast
  have "uint (word_of_int witver :: u8) = witver" using assms(1,2) by (simp add: uint_word_of_int take_bit_eq_mod)
  then have "(word_of_int witver :: u8) < 32" using assms(2) by (simp add: word_less_alt)
  then have d: "list_all (\<lambda>v. v < 32) (word_of_int witver # ys)" using y(2) by (simp add: list_all_iff word_less_nat_alt)
  have l: "\<not> length ''bc'' + 7 + length (word_of_int witver # ys :: bytes) > 90" using y(3,4) assms(4) by simp
  obtain chk where h: "encode_hrp ''bc'' 1 = Some chk" by (simp add: is_upper_def)
  show ?thesis
    unfolding segwit_addr_encode_def Let_def y(1) bech32_encode_def h option.case encode_data_small [OF d] prod.case using assms l y(3,4) by simp
qed

end
