(* ===== verification/Base58.thy ===== *)
theory Base58
  imports Bech32
begin

text \<open>
  Base-58 text with a checksum, \<^verbatim>\<open>src/src/thirdparty_base58.c\<close>: the decoder on 32-bit limbs, the encoder with
  its moving bound, the checksum and the output scripts of addresses. SHA-256, \<open>sha\<close>, is an argument.
\<close>

section \<open>Decoding\<close>

definition b58digits_map :: "int list" where
  "b58digits_map = [
    -1,-1,-1,-1,-1,-1,-1,-1, -1,-1,-1,-1,-1,-1,-1,-1,
    -1,-1,-1,-1,-1,-1,-1,-1, -1,-1,-1,-1,-1,-1,-1,-1,
    -1,-1,-1,-1,-1,-1,-1,-1, -1,-1,-1,-1,-1,-1,-1,-1,
    -1, 0, 1, 2, 3, 4, 5, 6,  7, 8,-1,-1,-1,-1,-1,-1,
    -1, 9,10,11,12,13,14,15, 16,-1,17,18,19,20,21,-1,
    22,23,24,25,26,27,28,29, 30,31,32,-1,-1,-1,-1,-1,
    -1,33,34,35,36,37,38,39, 40,41,42,43,-1,44,45,46,
    47,48,49,50,51,52,53,54, 55,56,57,-1,-1,-1,-1,-1]"

text \<open>Multiply the limbs, the most significant first, by 58 and add \<open>c\<close>; the carry out is returned.\<close>

fun limbs_mul58 :: "u32 list \<Rightarrow> u32 \<Rightarrow> u32 list \<times> u32" where
  "limbs_mul58 [] c = ([], c)"
| "limbs_mul58 (x # xs) c =
     (let (ys, c) = limbs_mul58 xs c;
          t = (ucast x :: u64) * 58 + ucast c
      in (ucast (t AND 0xFFFFFFFF) # ys, ucast (drop_bit 32 t)))"

fun b58_digits :: "u32 \<Rightarrow> string \<Rightarrow> u32 list \<Rightarrow> u32 list option" where
  "b58_digits zeromask [] outi = Some outi"
| "b58_digits zeromask (ch # s) outi =
     (if code ch \<ge> 128 then None
      else if b58digits_map ! code ch = -1 then None
      else let (outi, c) = limbs_mul58 outi (word_of_int (b58digits_map ! code ch))
           in if c \<noteq> 0 then None
              else if outi ! 0 AND zeromask \<noteq> 0 then None
              else b58_digits zeromask s outi)"

definition limb_bytes :: "nat \<Rightarrow> u32 \<Rightarrow> bytes" where
  "limb_bytes n x = map (\<lambda>i. ucast (drop_bit (8 * (n - 1 - i)) x AND 0xff)) [0..<n]"

text \<open>The bytes and the count stored in \<^verbatim>\<open>*binszp\<close>; the count is a \<^verbatim>\<open>size_t\<close> that ends nonnegative.\<close>

definition b58tobin :: "nat \<Rightarrow> string \<Rightarrow> (bytes \<times> nat) option" where
  "b58tobin binsz b58 =
     (let outisz = (binsz + 3) div 4;
          bytesleft = binsz mod 4;
          zeromask = (if bytesleft \<noteq> 0 then push_bit (bytesleft * 8) 0xFFFFFFFF else 0);
          zerocount = length (takeWhile (\<lambda>c. c = CHR ''1'') b58)
      in case b58_digits zeromask (drop zerocount b58) (replicate outisz 0) of None \<Rightarrow> None
         | Some outi \<Rightarrow>
             let bin = (if bytesleft \<noteq> 0 then limb_bytes bytesleft (outi ! 0) @ concat (map (limb_bytes 4) (drop 1 outi))
                        else concat (map (limb_bytes 4) outi))
             in Some (bin, binsz - length (takeWhile (\<lambda>b. b = 0) bin) + zerocount))"

section \<open>The checksum\<close>

definition my_dblsha256 :: "(bytes \<Rightarrow> bytes) \<Rightarrow> bytes \<Rightarrow> bytes" where
  "my_dblsha256 sha d = sha (sha d)"

text \<open>Past the leading zeros of both; \<open>None\<close> is a read past the end of the bytes. The string ends in a null.\<close>

fun skip_zeros :: "bytes \<Rightarrow> string \<Rightarrow> (bytes \<times> string) option" where
  "skip_zeros [] s = None"
| "skip_zeros (b # bs) s = (if b = 0 \<and> s \<noteq> [] \<and> s ! 0 = CHR ''1'' then skip_zeros bs (drop 1 s) else Some (b # bs, s))"

definition b58check :: "(bytes \<Rightarrow> bytes) \<Rightarrow> bytes \<Rightarrow> string \<Rightarrow> int option" where
  "b58check sha bin s =
     (if length bin < 4 then Some (-4)
      else if drop (length bin - 4) bin \<noteq> take 4 (my_dblsha256 sha (take (length bin - 4) bin)) then Some (-1)
      else case skip_zeros bin s of None \<Rightarrow> None
        | Some (bs, s) \<Rightarrow>
            if bs ! 0 = 0 \<or> (s \<noteq> [] \<and> s ! 0 = CHR ''1'') then Some (-3)
            else Some (uint (bin ! 0)))"

section \<open>Encoding\<close>

definition b58digits_ordered :: string where
  "b58digits_ordered = ''123456789ABCDEFGHJKLMNPQRSTUVWXYZabcdefghijkmnopqrstuvwxyz''"

text \<open>One byte into the digits, from the last one to the first; the index where it stopped is the next bound.\<close>

fun b58_push :: "nat \<Rightarrow> nat \<Rightarrow> nat \<Rightarrow> nat list \<Rightarrow> nat list \<times> nat" where
  "b58_push high carry j buf =
     (if j > high \<or> carry \<noteq> 0
      then let carry = carry + 256 * buf ! j;
               buf = buf[j := carry mod 58];
               carry = carry div 58
           in if j = 0 then (buf, 0) else b58_push high carry (j - 1) buf
      else (buf, j))"

declare b58_push.simps [simp del]

fun b58_bytes :: "bytes \<Rightarrow> nat list \<Rightarrow> nat \<Rightarrow> nat list" where
  "b58_bytes [] buf high = buf"
| "b58_bytes (b # bs) buf high =
     (let (buf, j) = b58_push high (unat b) (length buf - 1) buf in b58_bytes bs buf j)"

text \<open>The text, when its length and the final null fit \<open>b58sz\<close>.\<close>

definition b58enc :: "nat \<Rightarrow> bytes \<Rightarrow> string option" where
  "b58enc b58sz data =
     (let zcount = length (takeWhile (\<lambda>b. b = 0) data);
          size = (length data - zcount) * 138 div 100 + 1;
          buf = b58_bytes (drop zcount data) (replicate size 0) (size - 1);
          ds = dropWhile (\<lambda>d. d = 0) buf
      in if b58sz \<le> zcount + length ds then None
         else Some (replicate zcount CHR ''1'' @ map (\<lambda>d. b58digits_ordered ! d) ds))"

definition b58check_enc :: "(bytes \<Rightarrow> bytes) \<Rightarrow> nat \<Rightarrow> u8 \<Rightarrow> bytes \<Rightarrow> string option" where
  "b58check_enc sha b58c_sz ver data =
     (let buf = ver # data in b58enc b58c_sz (buf @ take 4 (my_dblsha256 sha buf)))"

section \<open>Scripts of addresses\<close>

text \<open>The script written and the length returned: a length above \<open>outsz\<close> comes with nothing written.\<close>

definition blkmk_address_to_script :: "(bytes \<Rightarrow> bytes) \<Rightarrow> nat \<Rightarrow> string \<Rightarrow> (bytes \<times> nat) option" where
  "blkmk_address_to_script sha outsz addr =
     (case b58tobin 25 addr of None \<Rightarrow> Some ([], 0)
      | Some (addrbin, _) \<Rightarrow>
          (case b58check sha addrbin addr of None \<Rightarrow> None
           | Some addrver \<Rightarrow>
               if addrver = 0 \<or> addrver = 111
               then if outsz < 25 then Some ([], 25)
                    else Some ([0x76, 0xa9, 0x14] @ take 20 (drop 1 addrbin) @ [0x88, 0xac], 25)
               else if addrver = 5 \<or> addrver = 196
               then if outsz < 23 then Some ([], 23)
                    else Some ([0xa9, 0x14] @ take 20 (drop 1 addrbin) @ [0x87], 23)
               else Some ([], 0)))"

section \<open>The decoder computes the value of its digits\<close>

abbreviation ord58 :: "nat \<Rightarrow> char" where
  "ord58 d \<equiv> b58digits_ordered ! d"

lemma b58_table:
  "list_all (\<lambda>d. let c = ord58 d in code c < 128 \<and> b58digits_map ! code c = int d \<and> (c = CHR ''1'' \<longleftrightarrow> d = 0)) [0..<58]"
  by (simp add: b58digits_ordered_def b58digits_map_def upt_rec numeral_eq_Suc of_char_def)

lemma ord58_props:
  assumes "d < 58"
  shows "code (ord58 d) < 128" "b58digits_map ! code (ord58 d) = int d" "ord58 d = CHR ''1'' \<longleftrightarrow> d = 0"
proof -
  have "d \<in> set [0..<58]" using assms by simp
  with b58_table have "let c = ord58 d in code c < 128 \<and> b58digits_map ! code c = int d \<and> (c = CHR ''1'' \<longleftrightarrow> d = 0)"
    unfolding list_all_iff by blast
  then show "code (ord58 d) < 128" "b58digits_map ! code (ord58 d) = int d" "ord58 d = CHR ''1'' \<longleftrightarrow> d = 0"
    by (simp_all add: Let_def)
qed

abbreviation limbs :: "u32 list \<Rightarrow> nat list" where
  "limbs xs \<equiv> map unat xs"

lemma limbs_less: "be_val (2 ^ 32) (limbs xs) < (2 ^ 32) ^ length xs"
  using be_val_less [of "2 ^ 32" "limbs xs"] by (simp add: list_all_iff)

lemma limbs_mul58_value:
  assumes "unat c < 58"
  shows "\<exists>ys c'. limbs_mul58 xs c = (ys, c') \<and> length ys = length xs \<and> unat c' < 58
    \<and> unat c' * (2 ^ 32) ^ length xs + be_val (2 ^ 32) (limbs ys) = be_val (2 ^ 32) (limbs xs) * 58 + unat c"
proof (induction xs)
  case Nil
  then show ?case using assms by simp
next
  case (Cons x xs)
  then obtain ys c1 where i: "limbs_mul58 xs c = (ys, c1)" "length ys = length xs" "unat c1 < 58"
    "unat c1 * (2 ^ 32) ^ length xs + be_val (2 ^ 32) (limbs ys) = be_val (2 ^ 32) (limbs xs) * 58 + unat c" by blast
  define t where "t = (ucast x :: u64) * 58 + ucast c1"
  have ux: "unat (ucast x :: u64) = unat x" "unat (ucast c1 :: u64) = unat c1" by (simp_all add: unat_ucast_up)
  have tb: "unat x * 58 + unat c1 < 58 * 4294967296" using i(3) unat_u32_less [of x] by linarith
  then have t: "unat t = unat x * 58 + unat c1" unfolding t_def by (simp add: unat_word_ariths ux)
  have m: "(0xFFFFFFFF :: u64) = mask 32" by (simp add: mask_eq_exp_minus_1)
  have lo: "unat (ucast (t AND 0xFFFFFFFF) :: u32) = unat t mod 2 ^ 32" unfolding m by (simp add: unat_ucast_mod unat_and_mask)
  have "unat t div 2 ^ 32 < 58" unfolding t using tb by (intro less_mult_imp_div_less) simp
  then have hi: "unat (ucast (drop_bit 32 t) :: u32) = unat t div 2 ^ 32" "unat t div 2 ^ 32 < 58" by (simp_all add: unat_ucast_mod unat_drop_bit_div)
  have "limbs_mul58 (x # xs) c = (ucast (t AND 0xFFFFFFFF) # ys, ucast (drop_bit 32 t))" by (simp add: i(1) t_def Let_def)
  moreover have "unat t div 2 ^ 32 * (2 ^ 32) ^ length (x # xs) + be_val (2 ^ 32) (limbs (ucast (t AND 0xFFFFFFFF) # ys))
      = be_val (2 ^ 32) (limbs (x # xs)) * 58 + unat c"
  proof -
    let ?B = "(2 ^ 32 :: nat) ^ length xs"
    obtain q r where qr: "unat t div 2 ^ 32 = q" "unat t mod 2 ^ 32 = r" "q * 2 ^ 32 + r = unat t" by (metis div_mult_mod_eq)
    have "unat t div 2 ^ 32 * (2 ^ 32) ^ length (x # xs) + be_val (2 ^ 32) (limbs (ucast (t AND 0xFFFFFFFF) # ys))
        = (q * 2 ^ 32 + r) * ?B + be_val (2 ^ 32) (limbs ys)"
      unfolding list.map be_val_Cons lo qr(1,2) by (simp add: i(2) distrib_right)
    also have "\<dots> = (unat x * 58 + unat c1) * ?B + be_val (2 ^ 32) (limbs ys)" unfolding qr(3) t ..
    also have "\<dots> = be_val (2 ^ 32) (limbs (x # xs)) * 58 + unat c" using i(4) by (simp add: be_val_Cons distrib_right)
    finally show ?thesis .
  qed
  ultimately show ?case using hi i(2) by simp
qed

text \<open>Seven limbs hold 25 bytes when the first limb is a byte.\<close>

lemma first_limb_iff:
  assumes "length xs = 7"
  shows "xs ! 0 AND 0xFFFFFF00 = 0 \<longleftrightarrow> be_val (2 ^ 32) (limbs xs) < 256 ^ 25"
proof -
  obtain x r where x: "xs = x # r" "length r = 6" using assms by (cases xs) auto
  have v: "be_val (2 ^ 32) (limbs xs) = unat x * (2 ^ 32) ^ 6 + be_val (2 ^ 32) (limbs r)" by (simp add: x be_val_Cons)
  have r: "be_val (2 ^ 32) (limbs r) < (2 ^ 32) ^ 6" using limbs_less [of r] x(2) by simp
  have m: "(0xFFFFFF00 :: u32) = push_bit 8 (mask 24)" by (simp add: mask_eq_exp_minus_1 push_bit_eq_mult)
  have "x AND 0xFFFFFF00 = 0 \<longleftrightarrow> x AND mask 8 = x"
  proof
    assume z: "x AND 0xFFFFFF00 = 0"
    show "x AND mask 8 = x"
    proof (rule bit_eqI)
      fix n
      assume n: "possible_bit TYPE(u32) n"
      have "\<not> bit (x AND 0xFFFFFF00) n" by (simp add: z)
      then show "bit (x AND mask 8) n = bit x n" unfolding m using n by (auto simp: bit_simps)
    qed
  next
    assume "x AND mask 8 = x"
    then have "x AND 0xFFFFFF00 = (x AND mask 8) AND 0xFFFFFF00" by simp
    also have "\<dots> = 0" unfolding m by (rule bit_eqI) (auto simp: bit_simps)
    finally show "x AND 0xFFFFFF00 = 0" .
  qed
  also have "\<dots> \<longleftrightarrow> unat x mod 2 ^ 8 = unat x" by (simp only: unat_and_mask word_unat_eq_iff)
  also have "\<dots> \<longleftrightarrow> unat x < 256" by (auto simp: mod_less_divisor intro: mod_less)
  also have "\<dots> \<longleftrightarrow> be_val (2 ^ 32) (limbs xs) < 256 ^ 25"
  proof
    assume "unat x < 256"
    then have "unat x * (2 ^ 32) ^ 6 \<le> 255 * (2 ^ 32) ^ 6" by simp
    then show "be_val (2 ^ 32) (limbs xs) < 256 ^ 25" using v r by simp
  next
    assume "be_val (2 ^ 32) (limbs xs) < 256 ^ 25"
    then have "unat x * (2 ^ 32) ^ 6 < 256 * (2 ^ 32) ^ 6" using v by simp
    then show "unat x < 256" by simp
  qed
  finally show ?thesis by (simp add: x)
qed

text \<open>A text of digits whose number fits 25 bytes is read to that number.\<close>

lemma b58_digits_value:
  assumes "list_all (\<lambda>d. d < 58) ds" "length outi = 7"
    and "be_val (2 ^ 32) (limbs outi) * 58 ^ length ds + be_val 58 ds < 256 ^ 25"
  shows "\<exists>r. b58_digits 0xFFFFFF00 (map ord58 ds) outi = Some r \<and> length r = 7
     \<and> be_val (2 ^ 32) (limbs r) = be_val (2 ^ 32) (limbs outi) * 58 ^ length ds + be_val 58 ds"
  using assms
proof (induction ds arbitrary: outi)
  case (Cons d ds)
  let ?V = "be_val (2 ^ 32) (limbs outi)"
  have d: "d < 58" using Cons.prems by simp
  have "unat (word_of_int (int d) :: u32) = d" using d by (simp add: unat_of_nat take_bit_eq_mod)
  then have u: "unat (word_of_int (b58digits_map ! code (ord58 d)) :: u32) = d" by (simp only: ord58_props(2) [OF d])
  obtain ys c where l: "limbs_mul58 outi (word_of_int (b58digits_map ! code (ord58 d))) = (ys, c)" "length ys = 7"
    "unat c * (2 ^ 32) ^ 7 + be_val (2 ^ 32) (limbs ys) = ?V * 58 + d"
    using limbs_mul58_value [of "word_of_int (b58digits_map ! code (ord58 d))" outi] u d Cons.prems(2) by auto
  have e: "?V * 58 ^ length (d # ds) + be_val 58 (d # ds) = (?V * 58 + d) * 58 ^ length ds + be_val 58 ds"
    by (simp add: be_val_Cons algebra_simps)
  have "?V * 58 + d \<le> (?V * 58 + d) * 58 ^ length ds + be_val 58 ds" by (rule trans_le_add1) simp
  with Cons.prems(3) e have lt: "?V * 58 + d < 256 ^ 25" by linarith
  have "unat c = 0"
  proof (rule ccontr)
    assume "unat c \<noteq> 0"
    then have "1 * (2 ^ 32) ^ 7 \<le> unat c * (2 ^ 32) ^ 7" by (intro mult_right_mono) auto
    then show False using l(3) lt by simp
  qed
  then have c: "c = 0" by (simp only: unat_eq_0)
  then have ys: "be_val (2 ^ 32) (limbs ys) = ?V * 58 + d" using l(3) by simp
  have z: "ys ! 0 AND 0xFFFFFF00 = 0" using first_limb_iff [OF l(2)] ys lt by simp
  have dd: "list_all (\<lambda>d. d < 58) ds" using Cons.prems by simp
  have "be_val (2 ^ 32) (limbs ys) * 58 ^ length ds + be_val 58 ds < 256 ^ 25" unfolding ys using Cons.prems(3) e by linarith
  from Cons.IH [OF dd l(2) this] obtain r where "b58_digits 0xFFFFFF00 (map ord58 ds) ys = Some r" "length r = 7"
    "be_val (2 ^ 32) (limbs r) = (?V * 58 + d) * 58 ^ length ds + be_val 58 ds" unfolding ys by blast
  then show ?case unfolding e using ord58_props [OF d] l(1) c z by simp
qed simp

lemma unat_limb_bytes:
  "n \<le> 4 \<Longrightarrow> be_val 256 (digits (limb_bytes n x)) = unat x mod 256 ^ n" "length (limb_bytes n x) = n"
proof -
  have b: "unat (ucast (drop_bit k x AND 0xff) :: u8) = unat x div 2 ^ k mod 256" for k
  proof -
    have m: "(0xff :: u32) = mask 8" by (simp add: mask_eq_exp_minus_1)
    show ?thesis unfolding m by (simp add: unat_ucast_mod unat_and_mask unat_drop_bit_div)
  qed
  have "be_val 256 (map (\<lambda>i. unat x div 2 ^ (8 * (m - 1 - i)) mod 256) [0..<m]) = unat x mod 256 ^ m" for m
  proof (induction m)
    case (Suc m)
    have "map (\<lambda>i. unat x div 2 ^ (8 * (Suc m - 1 - i)) mod 256) [0..<Suc m]
        = (unat x div 256 ^ m mod 256) # map (\<lambda>i. unat x div 2 ^ (8 * (m - 1 - i)) mod 256) [0..<m]"
      by (subst upt_conv_Cons) (simp_all add: power_mult map_Suc_upt [symmetric] del: upt_Suc)
    moreover have "unat x mod 256 ^ Suc m = (unat x div 256 ^ m mod 256) * 256 ^ m + unat x mod 256 ^ m"
      using mod_mult2_eq [of "unat x" "256 ^ m" 256] by (simp only: power_Suc2 mult.commute)
    ultimately show ?case using Suc by (simp add: be_val_Cons del: upt_Suc power_Suc)
  qed simp
  then show "n \<le> 4 \<Longrightarrow> be_val 256 (digits (limb_bytes n x)) = unat x mod 256 ^ n" by (simp add: limb_bytes_def b comp_def)
qed (simp add: limb_bytes_def)

lemma concat_limb_bytes:
  "length (concat (map (limb_bytes 4) xs)) = 4 * length xs \<and> be_val 256 (digits (concat (map (limb_bytes 4) xs))) = be_val (2 ^ 32) (limbs xs)"
proof (induction xs)
  case (Cons x xs)
  have "(256 :: nat) ^ (4 * length xs) = (2 ^ 32) ^ length xs" by (simp add: power_mult)
  then show ?case using Cons unat_limb_bytes(1) [of 4 x] by (simp add: be_val_append be_val_Cons unat_limb_bytes(2))
qed simp

section \<open>The encoder computes the digits\<close>

lemma all_zero_val: "(\<And>k. k < length ds \<Longrightarrow> ds ! k = 0) \<Longrightarrow> be_val b ds = 0"
proof -
  assume "\<And>k. k < length ds \<Longrightarrow> ds ! k = 0"
  then have "ds = replicate (length ds) 0" by (intro nth_equalityI) simp_all
  moreover have "be_val b (replicate n 0) = 0" for n by (induction n) (simp_all add: be_val_Cons)
  ultimately show ?thesis by metis
qed

lemma b58_push_value:
  assumes "j < length buf" "list_all (\<lambda>d. d < 58) buf" "\<And>k. k \<le> high \<Longrightarrow> k \<le> j \<Longrightarrow> buf ! k = 0"
    and "256 * be_val 58 (take (Suc j) buf) + carry < 58 ^ Suc j"
  shows "\<exists>buf' h. b58_push high carry j buf = (buf', h) \<and> length buf' = length buf \<and> list_all (\<lambda>d. d < 58) buf' \<and> h \<le> j
    \<and> be_val 58 (take (Suc j) buf') = 256 * be_val 58 (take (Suc j) buf) + carry \<and> drop (Suc j) buf' = drop (Suc j) buf
    \<and> (h = 0 \<or> (\<forall>k \<le> h. buf' ! k = 0))"
  using assms
proof (induction j arbitrary: carry buf)
  case 0
  obtain d r where b: "buf = d # r" using 0 by (cases buf) auto
  show ?case
  proof (cases "carry = 0 \<and> d = 0")
    case True
    then show ?thesis using 0 b by (subst b58_push.simps) (auto simp: Let_def)
  next
    case False
    have z: "high \<ge> 0 \<Longrightarrow> d = 0" using 0(3) [of 0] b by simp
    then have "carry \<noteq> 0" "d = 0" using False by auto
    then show ?thesis using 0 b by (subst b58_push.simps) (auto simp: Let_def)
  qed
next
  case (Suc j)
  show ?case
  proof (cases "Suc j > high \<or> carry \<noteq> 0")
    case False
    then have c: "carry = 0" "Suc j \<le> high" by auto
    have z: "be_val 58 (take (Suc (Suc j)) buf) = 0" using Suc.prems(1,3) c by (intro all_zero_val) auto
    have "b58_push high carry (Suc j) buf = (buf, Suc j)" using False by (subst b58_push.simps) simp
    then show ?thesis using Suc.prems z c by auto
  next
    case True
    let ?c = "carry + 256 * buf ! Suc j"
    define b1 where "b1 = buf[Suc j := ?c mod 58]"
    have step: "b58_push high carry (Suc j) buf = b58_push high (?c div 58) j b1" using True by (subst b58_push.simps) (simp add: b1_def Let_def)
    have tk: "take (Suc j) b1 = take (Suc j) buf" by (simp add: b1_def)
    let ?Q = "be_val 58 (take (Suc j) buf)"
    have sp: "be_val 58 (take (Suc (Suc j)) buf) = ?Q * 58 + buf ! Suc j" using Suc.prems(1) by (simp add: take_Suc_conv_app_nth [of "Suc j"] be_val_snoc)
    have v: "256 * (?Q * 58 + buf ! Suc j) + carry = (256 * ?Q + ?c div 58) * 58 + ?c mod 58" by simp
    then have lt: "256 * be_val 58 (take (Suc j) b1) + ?c div 58 < 58 ^ Suc j" using Suc.prems(4) unfolding sp tk by simp
    have p: "j < length b1" "list_all (\<lambda>d. d < 58) b1" "\<And>k. k \<le> high \<Longrightarrow> k \<le> j \<Longrightarrow> b1 ! k = 0"
      using Suc.prems by (auto simp: b1_def list_all_length nth_list_update)
    from Suc.IH [OF p lt] obtain buf' h where i: "b58_push high (?c div 58) j b1 = (buf', h)" "length buf' = length b1" "list_all (\<lambda>d. d < 58) buf'" "h \<le> j"
      "be_val 58 (take (Suc j) buf') = 256 * be_val 58 (take (Suc j) b1) + ?c div 58" "drop (Suc j) buf' = drop (Suc j) b1" "h = 0 \<or> (\<forall>k \<le> h. buf' ! k = 0)"
      by blast
    have lb: "length b1 = length buf" by (simp add: b1_def)
    have "buf' ! Suc j = b1 ! Suc j" using arg_cong [OF i(6), of "\<lambda>l. l ! 0"] i(2) Suc.prems(1) lb by simp
    then have d: "buf' ! Suc j = ?c mod 58" using Suc.prems(1) by (simp add: b1_def)
    have "be_val 58 (take (Suc (Suc j)) buf') = (256 * ?Q + ?c div 58) * 58 + ?c mod 58"
      using Suc.prems(1) i(2,5) lb d tk by (simp add: take_Suc_conv_app_nth [of "Suc j"] be_val_snoc)
    moreover have "drop (Suc (Suc j)) buf' = drop (Suc (Suc j)) buf"
      using arg_cong [OF i(6), of "drop 1"] by (simp add: b1_def)
    ultimately show ?thesis using step i lb v sp by auto
  qed
qed

text \<open>The buffer is long enough, and until the last byte its first digit stays free.\<close>

lemma b58_bytes_value:
  assumes "list_all (\<lambda>d. d < 58) buf" "length buf = n" "high < n" "bs \<noteq> [] \<Longrightarrow> \<forall>k \<le> high. buf ! k = 0"
    and "be_val 58 buf < 256 ^ k" "256 ^ (k + length bs) \<le> (58 :: nat) ^ n" "bs \<noteq> [] \<Longrightarrow> 256 ^ (k + length bs - 1) \<le> (58 :: nat) ^ (n - 1)"
  shows "list_all (\<lambda>d. d < 58) (b58_bytes bs buf high) \<and> length (b58_bytes bs buf high) = n
    \<and> be_val 58 (b58_bytes bs buf high) = be_val 58 buf * 256 ^ length bs + be_val 256 (digits bs)"
  using assms
proof (induction bs arbitrary: buf high k)
  case (Cons b bs)
  let ?N = "be_val 58 buf"
  have "256 * ?N + unat b < 256 * 256 ^ k"
  proof -
    have "256 * Suc ?N \<le> 256 * 256 ^ k" using Cons.prems(5) by (intro mult_left_mono) auto
    then show ?thesis using unat_u8_less [of b] by (simp del: unat_u8_less)
  qed
  then have nk: "256 * ?N + unat b < 256 ^ Suc k" by simp
  have mono: "(256 :: nat) ^ Suc k \<le> 256 ^ (k + length (b # bs))" by (intro power_increasing) auto
  have n0: "0 < n" using Cons.prems(3) by simp
  have tk: "take (Suc (n - 1)) buf = buf" "take n buf = buf" "Suc (n - 1) = n" using Cons.prems(2) n0 by simp_all
  have "n - 1 < length buf" using Cons.prems(2) n0 by simp
  moreover have "\<And>k. k \<le> high \<Longrightarrow> k \<le> n - 1 \<Longrightarrow> buf ! k = 0" using Cons.prems(4) by simp
  moreover have "256 * be_val 58 (take (Suc (n - 1)) buf) + unat b < 58 ^ Suc (n - 1)" unfolding tk using nk mono Cons.prems(6) by linarith
  ultimately obtain buf' h where p: "b58_push high (unat b) (n - 1) buf = (buf', h)" "length buf' = n" "list_all (\<lambda>d. d < 58) buf'" "h \<le> n - 1"
    "be_val 58 (take n buf') = 256 * ?N + unat b" "h = 0 \<or> (\<forall>k \<le> h. buf' ! k = 0)"
    using b58_push_value [of "n - 1" buf high "unat b"] Cons.prems(1,2) unfolding tk by blast
  have v: "be_val 58 buf' = 256 * ?N + unat b" using p(2,5) by simp
  have z: "\<forall>k \<le> h. buf' ! k = 0" if "bs \<noteq> []"
  proof -
    have "(256 :: nat) ^ Suc k \<le> 256 ^ (k + length (b # bs) - 1)" using that by (intro power_increasing) (cases bs; simp)+
    then have "be_val 58 buf' < 58 ^ (n - 1)" unfolding v using nk Cons.prems(7) by simp
    moreover obtain d r where "buf' = d # r" "length r = n - 1" using p(2) n0 by (cases buf') auto
    ultimately have "buf' ! 0 = 0" by (cases d) (auto simp: be_val_Cons)
    then show ?thesis using p(6) by auto
  qed
  have r: "h < n" "be_val 58 buf' < 256 ^ Suc k" "256 ^ (Suc k + length bs) \<le> (58 :: nat) ^ n" "256 ^ (Suc k + length bs - 1) \<le> (58 :: nat) ^ (n - 1)"
    using p(4) n0 v nk Cons.prems(6,7) by auto
  have "b58_bytes (b # bs) buf high = b58_bytes bs buf' h" using p(1) Cons.prems(2) by simp
  then show ?case using Cons.IH [OF p(3,2) r(1) z r(2,3)] r(4) v by (simp add: be_val_Cons algebra_simps)
qed simp

lemma b58_size: "256 ^ m \<le> (58 :: nat) ^ (m * 138 div 100 + 1)"
proof -
  have "(256 ^ m) ^ 100 = ((256 :: nat) ^ 100) ^ m" by (simp only: power_mult [symmetric] mult.commute)
  also have "\<dots> \<le> (58 ^ 138) ^ m" by (rule power_mono) simp_all
  also have "\<dots> = (58 :: nat) ^ (m * 138)" by (simp only: power_mult [symmetric] mult.commute)
  also have "\<dots> \<le> 58 ^ ((m * 138 div 100 + 1) * 100)" by (intro power_increasing) auto
  also have "\<dots> = (58 ^ (m * 138 div 100 + 1)) ^ 100" by (simp only: power_mult)
  finally show ?thesis by (subst (asm) power_mono_iff) simp_all
qed

lemma b58_size_pred: "0 < m \<Longrightarrow> 256 ^ (m - 1) \<le> (58 :: nat) ^ (m * 138 div 100)"
proof -
  assume "0 < m"
  then have "(m - 1) * 138 div 100 + 1 \<le> m * 138 div 100" by (cases m) auto
  then have "(58 :: nat) ^ ((m - 1) * 138 div 100 + 1) \<le> 58 ^ (m * 138 div 100)" by (intro power_increasing) auto
  then show ?thesis using b58_size [of "m - 1"] by simp
qed

lemma be_val_dropWhile: "be_val b (dropWhile (\<lambda>d. d = 0) ds) = be_val b ds"
  by (induction ds) (simp_all add: be_val_Cons)

lemma be_val_drop_zeros: "be_val 256 (digits (drop (length (takeWhile (\<lambda>b. b = 0) bs)) bs)) = be_val 256 (digits bs)"
  by (induction bs) (simp_all add: be_val_Cons)

text \<open>The digits of an encoded text: leading zeros as ones, then a number without leading zero.\<close>

lemma b58enc_digits:
  assumes "b58enc sz bs = Some s"
  shows "\<exists>ds. s = replicate (length (takeWhile (\<lambda>b. b = 0) bs)) CHR ''1'' @ map ord58 ds \<and> list_all (\<lambda>d. d < 58) ds
    \<and> (ds \<noteq> [] \<longrightarrow> ds ! 0 \<noteq> 0) \<and> be_val 58 ds = be_val 256 (digits bs)"
proof -
  let ?z = "length (takeWhile (\<lambda>b. b = 0) bs)"
  let ?r = "drop ?z bs"
  define n where "n = length ?r * 138 div 100 + 1"
  define buf where "buf = b58_bytes ?r (replicate n 0) (n - 1)"
  define ds where "ds = dropWhile (\<lambda>d. d = 0) buf"
  have s: "s = replicate ?z CHR ''1'' @ map ord58 ds" using assms
    by (auto simp: b58enc_def Let_def ds_def buf_def n_def split: if_splits)
  have zv: "be_val 58 (replicate n 0) = 0" by (rule all_zero_val) simp
  have n: "0 < n" "n - 1 = length ?r * 138 div 100" by (simp_all add: n_def)
  have "list_all (\<lambda>d. d < 58) (b58_bytes ?r (replicate n 0) (n - 1)) \<and> length (b58_bytes ?r (replicate n 0) (n - 1)) = n
    \<and> be_val 58 (b58_bytes ?r (replicate n 0) (n - 1)) = be_val 58 (replicate n 0) * 256 ^ length ?r + be_val 256 (digits ?r)"
  proof (rule b58_bytes_value)
    show "256 ^ (0 + length ?r) \<le> (58 :: nat) ^ n" using b58_size [of "length ?r"] by (simp only: n_def add_0)
    show "256 ^ (0 + length ?r - 1) \<le> (58 :: nat) ^ (n - 1)" if "?r \<noteq> []"
      unfolding n(2) add_0 by (rule b58_size_pred) (use that in simp)
  qed (use n zv in \<open>auto simp: list_all_length\<close>)
  then have v: "list_all (\<lambda>d. d < 58) buf" "be_val 58 buf = be_val 256 (digits ?r)" unfolding zv buf_def by simp_all
  have "list_all (\<lambda>d. d < 58) ds" using v(1) set_dropWhileD unfolding ds_def list_all_iff by fastforce
  moreover have "ds ! 0 \<noteq> 0" if "ds \<noteq> []" using hd_dropWhile [of "\<lambda>d. d = 0" buf] that by (simp add: ds_def hd_conv_nth)
  moreover have "be_val 58 ds = be_val 256 (digits bs)" unfolding ds_def be_val_dropWhile v(2) by (rule be_val_drop_zeros)
  ultimately show ?thesis using s by blast
qed

lemma digits_inject: "digits a = digits b \<Longrightarrow> a = b"
  by (metis injI inj_map_eq_map word_unat_eq_iff)

lemma b58tobin_b58enc:
  assumes "b58enc sz bs = Some s" "length bs = 25"
  shows "b58tobin 25 s = Some (bs, 25)"
proof -
  let ?z = "length (takeWhile (\<lambda>b. b = 0) bs)"
  obtain ds where d: "s = replicate ?z CHR ''1'' @ map ord58 ds" "list_all (\<lambda>d. d < 58) ds" "ds \<noteq> [] \<longrightarrow> ds ! 0 \<noteq> 0" "be_val 58 ds = be_val 256 (digits bs)"
    using b58enc_digits [OF assms(1)] by blast
  have "takeWhile (\<lambda>c. c = CHR ''1'') (map ord58 ds) = []"
  proof (cases ds)
    case (Cons x xs)
    then show ?thesis using d(2,3) ord58_props(3) [of x] by simp
  qed simp
  then have tw: "length (takeWhile (\<lambda>c. c = CHR ''1'') s) = ?z" unfolding d(1) by (simp add: takeWhile_append)
  then have dr: "drop (length (takeWhile (\<lambda>c. c = CHR ''1'') s)) s = map ord58 ds" unfolding tw by (simp add: d(1))
  have bs: "be_val 256 (digits bs) < 256 ^ 25" using be_val_less [of 256 "digits bs"] assms(2) by (simp add: list_all_iff)
  have zv: "be_val (2 ^ 32) (limbs (replicate 7 0)) = 0" by (rule all_zero_val) simp
  have "\<exists>r. b58_digits 0xFFFFFF00 (map ord58 ds) (replicate 7 0) = Some r \<and> length r = 7
     \<and> be_val (2 ^ 32) (limbs r) = be_val (2 ^ 32) (limbs (replicate 7 0)) * 58 ^ length ds + be_val 58 ds"
    by (rule b58_digits_value) (use d(2,4) bs zv in simp_all)
  then obtain r where r: "b58_digits 0xFFFFFF00 (map ord58 ds) (replicate 7 0) = Some r" "length r = 7" "be_val (2 ^ 32) (limbs r) = be_val 256 (digits bs)"
    unfolding zv d(4) by auto
  obtain x t where x: "r = x # t" "length t = 6" using r(2) by (cases r) auto
  let ?bin = "limb_bytes 1 x @ concat (map (limb_bytes 4) t)"
  have "unat x < 256"
  proof (rule ccontr)
    assume "\<not> unat x < 256"
    then have "256 * (2 ^ 32) ^ 6 \<le> unat x * (2 ^ 32) ^ 6" by (intro mult_right_mono) auto
    then show False using r(3) bs x by (simp add: be_val_Cons)
  qed
  then have "be_val 256 (digits (limb_bytes 1 x)) = unat x" using unat_limb_bytes(1) [of 1 x] by simp
  then have "be_val 256 (digits ?bin) = be_val 256 (digits bs)"
    using concat_limb_bytes [of t] r(3) x by (simp add: be_val_append be_val_Cons)
  moreover have "length ?bin = 25" using concat_limb_bytes [of t] x(2) by (simp add: unat_limb_bytes(2))
  moreover have "list_all (\<lambda>d. d < 256) (digits b)" for b by (simp add: list_all_iff)
  ultimately have "digits ?bin = digits bs" using assms(2) by (intro be_val_inject [of _ _ 256]) (simp_all only: length_map)
  then have bin: "?bin = bs" by (rule digits_inject)
  have "length (takeWhile (\<lambda>b. b = 0) bs) \<le> 25" using length_takeWhile_le [of "\<lambda>b. b = 0" bs] assms(2) by simp
  moreover have zm: "(if (25 :: nat) mod 4 \<noteq> 0 then push_bit (25 mod 4 * 8) 0xFFFFFFFF else 0) = (0xFFFFFF00 :: u32)" by code_simp
  moreover have "(25 + 3 :: nat) div 4 = 7" by simp
  ultimately show ?thesis unfolding b58tobin_def Let_def dr zm using r(1) bin x(1) tw by (simp only: option.case) simp
qed

lemma length_takeWhile_0: "bs = replicate (length (takeWhile (\<lambda>b. b = 0) bs)) 0 @ drop (length (takeWhile (\<lambda>b. b = 0) bs)) bs"
  by (induction bs) auto

lemma skip_zeros_replicate:
  "r \<noteq> [] \<Longrightarrow> r ! 0 \<noteq> 0 \<Longrightarrow> skip_zeros (replicate z 0 @ r) (replicate z CHR ''1'' @ s) = Some (r, s)"
proof (induction z)
  case 0
  then show ?case by (cases r) simp_all
qed simp

text \<open>An encoded text passes the check: it returns the version byte.\<close>

lemma b58check_b58enc:
  assumes "b58enc sz bs = Some s" "length bs \<ge> 4" "drop (length bs - 4) bs = take 4 (my_dblsha256 sha (take (length bs - 4) bs))"
    and nz: "\<not> list_all (\<lambda>b. b = 0) bs"
  shows "b58check sha bs s = Some (uint (bs ! 0))"
proof -
  let ?z = "length (takeWhile (\<lambda>b. b = 0) bs)"
  obtain ds where d: "s = replicate ?z CHR ''1'' @ map ord58 ds" "list_all (\<lambda>d. d < 58) ds" "ds \<noteq> [] \<longrightarrow> ds ! 0 \<noteq> 0" "be_val 58 ds = be_val 256 (digits bs)"
    using b58enc_digits [OF assms(1)] by blast
  have r: "drop ?z bs \<noteq> []" using nz by (induction bs) auto
  have r0: "drop ?z bs ! 0 \<noteq> 0" using r by (induction bs) auto
  have "skip_zeros (replicate ?z 0 @ drop ?z bs) (replicate ?z CHR ''1'' @ map ord58 ds) = Some (drop ?z bs, map ord58 ds)"
    using r r0 by (rule skip_zeros_replicate)
  then have sk: "skip_zeros bs s = Some (drop ?z bs, map ord58 ds)" unfolding d(1) length_takeWhile_0 [symmetric] .
  have "\<not> (map ord58 ds \<noteq> [] \<and> map ord58 ds ! 0 = CHR ''1'')"
  proof
    assume a: "map ord58 ds \<noteq> [] \<and> map ord58 ds ! 0 = CHR ''1''"
    then obtain x xs where x: "ds = x # xs" by (cases ds) auto
    then show False using a d(2,3) ord58_props(3) [of x] by simp
  qed
  then show ?thesis unfolding b58check_def sk using assms(2,3) r0 by auto
qed

text \<open>The length and the first character of an encoded text.\<close>

lemma b58enc_length:
  assumes "b58enc sz bs = Some s"
  shows "length bs \<le> length s"
proof -
  let ?z = "length (takeWhile (\<lambda>b. b = 0) bs)"
  obtain ds where d: "s = replicate ?z CHR ''1'' @ map ord58 ds" "list_all (\<lambda>d. d < 58) ds" "be_val 58 ds = be_val 256 (digits bs)"
    using b58enc_digits [OF assms] by blast
  have zl: "?z \<le> length bs" by (rule length_takeWhile_le)
  show ?thesis
  proof (cases "drop ?z bs")
    case Nil
    then show ?thesis using d(1) by simp
  next
    case (Cons b r)
    have "b \<noteq> 0" using Cons by (induction bs) (auto split: if_splits)
    then have b: "1 \<le> unat b" using unat_eq_0 [of b] by linarith
    have "58 ^ length r \<le> (256 :: nat) ^ length r" by (rule power_mono) simp_all
    also have "\<dots> \<le> be_val 256 (digits (drop ?z bs))" using b by (simp add: Cons be_val_Cons trans_le_add1)
    also have "\<dots> = be_val 58 ds" unfolding d(3) by (rule be_val_drop_zeros)
    also have "\<dots> < 58 ^ length ds" using d(2) by (rule be_val_less)
    finally have "length r < length ds" by simp
    moreover have "length bs - ?z = Suc (length r)" using arg_cong [OF Cons, of length] by (simp only: length_drop list.size)
    ultimately show ?thesis using d(1) zl by simp
  qed
qed

lemma be_val_first:
  assumes "list_all (\<lambda>d. d < 58) ds" "ds \<noteq> [] \<longrightarrow> ds ! 0 \<noteq> 0" "2 * 58 ^ 33 \<le> be_val 58 ds" "be_val 58 ds < 3 * 58 ^ 33"
  shows "\<exists>r. ds = 2 # r"
proof -
  obtain d r where d: "ds = d # r" using assms(3) by (cases ds) auto
  have r: "be_val 58 r < 58 ^ length r" using assms(1) d by (intro be_val_less) simp
  have "1 * 58 ^ length r \<le> d * (58 :: nat) ^ length r" using assms(2) d by (intro mult_right_mono) auto
  then have "58 ^ length r \<le> be_val 58 ds" unfolding d be_val_Cons by (simp only: mult_1 trans_le_add1)
  then have "(58 :: nat) ^ length r < 58 ^ 34" using assms(4) by simp
  then have a: "length r < 34" by (simp only: power_strict_increasing_iff)
  have "d * 58 ^ length r + be_val 58 r < (d + 1) * 58 ^ length r" using r by simp
  also have "\<dots> \<le> 58 * 58 ^ length r" using assms(1) d by (intro mult_right_mono) auto
  finally have "2 * 58 ^ 33 < (58 :: nat) ^ Suc (length r)" using assms(3) by (simp add: d be_val_Cons)
  then have "(58 :: nat) ^ 33 < 58 ^ Suc (length r)" by simp
  then have "33 < Suc (length r)" by (simp only: power_strict_increasing_iff)
  with a have l: "length r = 33" by simp
  have "d * 58 ^ 33 \<le> be_val 58 ds" by (simp add: d be_val_Cons l)
  with assms(4) have "d * 58 ^ 33 < 3 * (58 :: nat) ^ 33" by linarith
  then have "d < 3" by (simp only: mult_less_cancel2)
  moreover have "2 * (58 :: nat) ^ 33 < (d + 1) * 58 ^ 33" using assms(3) r by (simp add: d be_val_Cons l)
  then have "2 < d + 1" by (simp only: mult_less_cancel2)
  ultimately show ?thesis using d by simp
qed

end
