(* ===== verification/Address.thy ===== *)
theory Address
  imports Base58
begin

text \<open>
  Addresses and output scripts, \<^verbatim>\<open>addr_2_output_script\<close> and \<^verbatim>\<open>output_script_2_addr\<close> of
  \<^verbatim>\<open>src/src/datum_utils.c\<close>, over the two address formats. SHA-256 is an argument. \<open>None\<close> stands for a
  read outside the data.
\<close>

section \<open>From an address to its script\<close>

definition segwit_hrp :: "string \<Rightarrow> string" where
  "segwit_hrp addr = (if addr ! 0 = CHR ''t'' then ''tb''
     else if length addr > 5 \<and> addr ! 2 = CHR ''r'' \<and> addr ! 3 = CHR ''t'' \<and> addr ! 4 = CHR ''1'' then ''bcrt'' else ''bc'')"

text \<open>The script written and the length returned.\<close>

definition addr_2_output_script :: "(bytes \<Rightarrow> bytes) \<Rightarrow> string \<Rightarrow> nat \<Rightarrow> (bytes \<times> nat) option" where
  "addr_2_output_script sha addr max_len =
     (if length addr < 16 then Some ([], 0)
      else if addr ! 0 = CHR ''b'' \<and> addr ! 1 = CHR ''c'' \<or> addr ! 0 = CHR ''t'' \<and> addr ! 1 = CHR ''b''
      then case segwit_addr_decode (segwit_hrp addr) addr of
             None \<Rightarrow> Some ([], 0)
           | Some (witver, witprog) \<Rightarrow>
               if \<not> (witver = 0 \<and> (length witprog = 20 \<or> length witprog = 32) \<or> witver = 1 \<and> length witprog = 32) then Some ([], 0)
               else if max_len < length witprog + 2 then Some ([], 0)
               else Some ((if witver \<noteq> 0 then word_of_int (witver + 0x50) else 0) # word_of_nat (length witprog) # witprog, length witprog + 2)
      else case blkmk_address_to_script sha max_len addr of None \<Rightarrow> None
        | Some (script, sz) \<Rightarrow> if sz > 2147483647 then Some (script, 0) else Some (script, sz))"

section \<open>From a script to its address\<close>

text \<open>The text written and the number returned.\<close>

definition output_script_2_addr :: "(bytes \<Rightarrow> bytes) \<Rightarrow> bytes \<Rightarrow> (string \<times> nat) option" where
  "output_script_2_addr sha script =
     (let len = length script; unknown = Some (''UNKNOWN'', 7)
      in if len = 0 then Some ('''', 0)
         else if script ! 0 = 0x6A then Some (''OP_RETURN'', 9)
         else if script ! 0 = 0xA9 \<or> script ! 0 = 0x76
         then if script ! 0 = 0xA9 \<and> len \<noteq> 23 \<or> script ! 0 \<noteq> 0xA9 \<and> len \<noteq> 25 then Some ('''', 0)
              else let temp = (if script ! 0 = 0xA9 then 5 # take 20 (drop 2 script) else 0 # take 20 (drop 3 script));
                       temp = temp @ take 4 (my_dblsha256 sha temp)
                   in case b58enc 255 temp of None \<Rightarrow> unknown | Some addr \<Rightarrow> Some (addr, length addr + 1)
         else if script ! 0 = 0 \<or> script ! 0 = 0x51
         then if len < 4 \<or> len > 42 then unknown
              else if script ! 1 < 0x02 \<or> script ! 1 > 0x28 then unknown
              else let version = (if script ! 0 = 0 then 0 else uint (script ! 0) - 0x50);
                       programLen = unat (script ! 1)
                   in if programLen + 2 > len then None
                      else case segwit_addr_encode ''bc'' version (take programLen (drop 2 script)) of
                             None \<Rightarrow> unknown | Some addr \<Rightarrow> Some (addr, length addr)
         else unknown)"

section \<open>Round trip\<close>

definition p2pkh :: "bytes \<Rightarrow> bytes" where
  "p2pkh h = [0x76, 0xa9, 0x14] @ h @ [0x88, 0xac]"

definition p2sh :: "bytes \<Rightarrow> bytes" where
  "p2sh h = [0xa9, 0x14] @ h @ [0x87]"

definition witness_script :: "int \<Rightarrow> bytes \<Rightarrow> bytes" where
  "witness_script v prog = (if v \<noteq> 0 then word_of_int (v + 0x50) else 0) # word_of_nat (length prog) # prog"

definition std_script :: "bytes \<Rightarrow> bool" where
  "std_script s \<longleftrightarrow>
     (length s = 25 \<and> s = p2pkh (take 20 (drop 3 s)) \<and> take 20 (drop 3 s) \<noteq> replicate 20 0)
     \<or> (length s = 23 \<and> s = p2sh (take 20 (drop 2 s)))
     \<or> (length s = 22 \<and> s = witness_script 0 (drop 2 s))
     \<or> (length s = 34 \<and> (s = witness_script 0 (drop 2 s) \<or> s = witness_script 1 (drop 2 s)))"

lemma witness_roundtrip:
  assumes "s = witness_script v prog" "v = 0 \<or> v = 1" "length prog = 32 \<or> v = 0 \<and> length prog = 20"
  shows "\<exists>a. output_script_2_addr sha s = Some (a, length a) \<and> addr_2_output_script sha a 64 = Some (s, length s)"
proof -
  obtain r where r: "segwit_addr_encode ''bc'' v prog = Some (''bc1'' @ r)" "length prog + 6 \<le> length r"
    using segwit_addr_encode_bc [of v prog] assms(2,3) by auto
  have d: "segwit_addr_decode ''bc'' (''bc1'' @ r) = Some (v, prog)" using r(1) assms(2) by (intro segwit_addr_roundtrip) auto
  have h: "segwit_hrp (''bc1'' @ r) = ''bc''" by (simp add: segwit_hrp_def)
  have l: "length s = length prog + 2" "drop 2 s = prog" by (simp_all add: assms(1) witness_script_def)
  have u: "unat (word_of_nat (length prog) :: u8) = length prog" using assms(3) by auto
  have s01: "s ! 0 = (if v = 0 then 0 else 0x51)" "s ! 1 = word_of_nat (length prog)" using assms(2) by (auto simp: assms(1) witness_script_def)
  have n1: "\<not> (s ! 1 < 2 \<or> s ! 1 > 0x28)" unfolding s01 using assms(3) by auto
  have ver: "(if s ! 0 = 0 then 0 else uint (s ! 0) - 0x50) = v" using assms(2) s01 by auto
  have "output_script_2_addr sha s = Some (''bc1'' @ r, length (''bc1'' @ r))"
    unfolding output_script_2_addr_def Let_def ver s01(2) u l(2)
    using s01 n1 l(1) assms(2,3) r(1) by auto
  moreover have "addr_2_output_script sha (''bc1'' @ r) 64 = Some (s, length s)"
    unfolding addr_2_output_script_def h d using assms r(2) by (auto simp: witness_script_def)
  ultimately show ?thesis by blast
qed

lemma b58_push_length: "length (fst (b58_push high carry j buf)) = length buf"
  by (induction high carry j buf rule: b58_push.induct) (subst b58_push.simps, auto simp: Let_def)

lemma b58_bytes_length: "length (b58_bytes bs buf high) = length buf"
proof (induction bs arbitrary: buf high)
  case (Cons b bs)
  then show ?case using b58_push_length [of high "unat b" "length buf - 1" buf] by (auto split: prod.split)
qed simp

lemma b58enc_defined: "length bs \<le> 25 \<Longrightarrow> \<exists>s. b58enc 255 bs = Some s"
proof -
  assume l: "length bs \<le> 25"
  let ?z = "length (takeWhile (\<lambda>b. b = 0) bs)"
  let ?n = "(length bs - ?z) * 138 div 100 + 1"
  have "length (dropWhile (\<lambda>d. d = 0) (b58_bytes (drop ?z bs) (replicate ?n 0) (?n - 1))) \<le> ?n"
    using length_dropWhile_le [of "\<lambda>d. d = 0" "b58_bytes (drop ?z bs) (replicate ?n 0) (?n - 1)"] b58_bytes_length [of "drop ?z bs" "replicate ?n 0" "?n - 1"]
    by (simp only: length_replicate)
  moreover have "?z \<le> 25" using length_takeWhile_le [of "\<lambda>b. b = 0" bs] l by simp
  moreover have "?n \<le> 40" using l by simp
  ultimately have "\<not> 255 \<le> ?z + length (dropWhile (\<lambda>d. d = 0) (b58_bytes (drop ?z bs) (replicate ?n 0) (?n - 1)))" by linarith
  then show ?thesis unfolding b58enc_def Let_def by (simp only: if_False) blast
qed

lemma be_val_bytes_less: "be_val 256 (digits bs) < 256 ^ length bs"
  using be_val_less [of 256 "digits bs"] by (simp add: list_all_iff)

lemma b58_address:
  assumes ver: "ver = 0 \<and> h \<noteq> replicate 20 0 \<or> ver = 5" and h: "length h = 20" and sha: "\<And>d. length (sha d) = 32"
  defines "bs \<equiv> (ver # h) @ take 4 (my_dblsha256 sha (ver # h))"
  shows "\<exists>a. b58enc 255 bs = Some a \<and> b58tobin 25 a = Some (bs, 25) \<and> b58check sha bs a = Some (uint ver)
    \<and> 16 \<le> length a \<and> a ! 0 \<noteq> CHR ''b'' \<and> a ! 0 \<noteq> CHR ''t''"
proof -
  have l: "length bs = 25" using h sha by (simp add: bs_def my_dblsha256_def)
  obtain a where a: "b58enc 255 bs = Some a" using b58enc_defined [of bs] l by auto
  have c: "drop (length bs - 4) bs = take 4 (my_dblsha256 sha (take (length bs - 4) bs))" using h sha by (simp add: l bs_def my_dblsha256_def)
  have nz: "\<not> list_all (\<lambda>b. b = 0) bs"
  proof
    assume "list_all (\<lambda>b. b = 0) bs"
    then have "ver = 0" "list_all (\<lambda>b. b = 0) h" by (simp_all add: bs_def)
    then have "replicate (length h) 0 = h" by (intro replicate_length_same) (simp add: list_all_iff)
    then show False using ver \<open>ver = 0\<close> h by simp
  qed
  obtain ds where d: "a = replicate (length (takeWhile (\<lambda>b. b = 0) bs)) CHR ''1'' @ map ord58 ds" "list_all (\<lambda>d. d < 58) ds" "ds \<noteq> [] \<longrightarrow> ds ! 0 \<noteq> 0"
      "be_val 58 ds = be_val 256 (digits bs)"
    using b58enc_digits [OF a] by blast
  have "a ! 0 \<noteq> CHR ''b'' \<and> a ! 0 \<noteq> CHR ''t''"
  proof (cases "ver = 0")
    case True
    then show ?thesis by (simp add: d(1) bs_def)
  next
    case False
    then have v: "ver = 5" using ver by simp
    let ?r = "h @ take 4 (my_dblsha256 sha (ver # h))"
    have bs: "bs = 5 # ?r" "length ?r = 24" using v l by (simp_all add: bs_def)
    have "be_val 256 (digits ?r) < 256 ^ 24" using be_val_bytes_less [of ?r] unfolding bs(2) .
    moreover have "be_val 58 ds = 5 * 256 ^ 24 + be_val 256 (digits ?r)" unfolding d(4) bs(1) using bs(2) by (simp only: list.map be_val_Cons length_map) simp
    ultimately have "2 * 58 ^ 33 \<le> be_val 58 ds" "be_val 58 ds < 3 * 58 ^ 33" by simp_all
    from be_val_first [OF d(2,3) this] obtain r where "ds = 2 # r" by blast
    then have "a ! 0 = ord58 2" by (simp add: d(1) bs(1))
    then show ?thesis by (simp add: b58digits_ordered_def)
  qed
  moreover have "16 \<le> length a" using b58enc_length [OF a] l by simp
  moreover have "b58check sha bs a = Some (uint (bs ! 0))" using a l c nz by (intro b58check_b58enc) simp_all
  ultimately show ?thesis using a b58tobin_b58enc [OF a l] by (auto simp: bs_def)
qed

text \<open>C25: the address shown for a standard output script is read back to that script.\<close>

theorem address_roundtrip:
  assumes "std_script s" and "\<And>d. length (sha d) = 32"
  shows "\<exists>a n. output_script_2_addr sha s = Some (a, n) \<and> addr_2_output_script sha a 64 = Some (s, length s)"
proof -
  consider (pkh) h where "length h = 20" "h \<noteq> replicate 20 0" "s = p2pkh h" | (sh) h where "length h = 20" "s = p2sh h"
    | (wit) v prog where "s = witness_script v prog" "v = 0 \<or> v = 1" "length prog = 32 \<or> v = 0 \<and> length prog = 20"
  proof -
    have "length (take 20 (drop 3 s)) = 20" if "length s = 25" using that by simp
    moreover have "length (take 20 (drop 2 s)) = 20" if "length s = 23" using that by simp
    moreover have "length (drop 2 s) = 20" if "length s = 22" using that by simp
    moreover have "length (drop 2 s) = 32" if "length s = 34" using that by simp
    ultimately show thesis using assms(1) pkh [of "take 20 (drop 3 s)"] sh [of "take 20 (drop 2 s)"] wit [of 0 "drop 2 s"] wit [of 1 "drop 2 s"]
      unfolding std_script_def by argo
  qed
  then show ?thesis
  proof cases
    case pkh
    let ?bs = "(0 # h) @ take 4 (my_dblsha256 sha (0 # h))"
    obtain a where a: "b58enc 255 ?bs = Some a" "b58tobin 25 a = Some (?bs, 25)" "b58check sha ?bs a = Some (uint (0 :: u8))"
      "16 \<le> length a" "a ! 0 \<noteq> CHR ''b''" "a ! 0 \<noteq> CHR ''t''"
      using b58_address [of 0 h sha] pkh assms(2) by auto
    have "output_script_2_addr sha s = Some (a, length a + 1)" using a(1) pkh by (simp add: output_script_2_addr_def p2pkh_def)
    moreover have "addr_2_output_script sha a 64 = Some (s, length s)"
      using a pkh by (simp add: addr_2_output_script_def blkmk_address_to_script_def p2pkh_def)
    ultimately show ?thesis by blast
  next
    case sh
    let ?bs = "(5 # h) @ take 4 (my_dblsha256 sha (5 # h))"
    obtain a where a: "b58enc 255 ?bs = Some a" "b58tobin 25 a = Some (?bs, 25)" "b58check sha ?bs a = Some (uint (5 :: u8))"
      "16 \<le> length a" "a ! 0 \<noteq> CHR ''b''" "a ! 0 \<noteq> CHR ''t''"
      using b58_address [of 5 h sha] sh assms(2) by auto
    have "output_script_2_addr sha s = Some (a, length a + 1)" using a(1) sh by (simp add: output_script_2_addr_def p2sh_def)
    moreover have "addr_2_output_script sha a 64 = Some (s, length s)"
      using a sh by (simp add: addr_2_output_script_def blkmk_address_to_script_def p2sh_def)
    ultimately show ?thesis by blast
  next
    case wit
    then show ?thesis using witness_roundtrip [of s v prog sha] by blast
  qed
qed

theorem address_roundtrip_witness:
  "std_script (p2sh (replicate 20 9)) \<and> (\<exists>a n. output_script_2_addr (\<lambda>d. replicate 32 3) (p2sh (replicate 20 9)) = Some (a, n)
     \<and> addr_2_output_script (\<lambda>d. replicate 32 3) a 64 = Some (p2sh (replicate 20 9), 23))"
proof -
  have "std_script (p2sh (replicate 20 9))" by (simp add: std_script_def p2sh_def)
  moreover have "length (p2sh (replicate 20 9)) = 23" by (simp add: p2sh_def)
  ultimately show ?thesis using address_roundtrip [of "p2sh (replicate 20 9)" "\<lambda>d. replicate 32 3"] by simp
qed

text \<open>A script whose announced program is longer than the script makes the address function read past its end.\<close>

theorem output_script_2_addr_overread:
  "output_script_2_addr sha [0x00, 0x14, 0xAB, 0xCD] = None"
  by (simp add: output_script_2_addr_def)

end
