(* ===== verification/Util.thy ===== *)
theory Util
  imports Bech32
begin

text \<open>
  The remaining helpers of \<^verbatim>\<open>src/src/datum_utils.c\<close>: SipHash in its general and its word-aligned form, the
  Base64 decoder, the filters for worker names and user agents, strict number parsing and the comparison
  of secrets in constant time. The host is little-endian; a \<^verbatim>\<open>size_t\<close> has 64 bits.
\<close>

section \<open>SipHash\<close>

record sip =
  v0 :: u64
  v1 :: u64
  v2 :: u64
  v3 :: u64

definition SIPHASH_ROTATE :: "u64 \<Rightarrow> nat \<Rightarrow> u64" where
  "SIPHASH_ROTATE a b = push_bit b a OR drop_bit (64 - b) a"

text \<open>The new values of the four arguments that are assigned.\<close>

definition SIPHASH_HALF_ROUND :: "u64 \<Rightarrow> u64 \<Rightarrow> u64 \<Rightarrow> u64 \<Rightarrow> nat \<Rightarrow> nat \<Rightarrow> u64 \<times> u64 \<times> u64 \<times> u64" where
  "SIPHASH_HALF_ROUND a b c d e f =
     (let a = a + b; c = c + d; b = SIPHASH_ROTATE b e XOR a; d = SIPHASH_ROTATE d f XOR c; a = SIPHASH_ROTATE a 32
      in (a, b, c, d))"

definition sip_half_a :: "sip \<Rightarrow> sip" where
  "sip_half_a s = (let (a, b, c, d) = SIPHASH_HALF_ROUND (v0 s) (v1 s) (v2 s) (v3 s) 13 16
     in \<lparr>v0 = a, v1 = b, v2 = c, v3 = d\<rparr>)"

definition sip_half_b :: "sip \<Rightarrow> sip" where
  "sip_half_b s = (let (a, b, c, d) = SIPHASH_HALF_ROUND (v2 s) (v1 s) (v0 s) (v3 s) 17 21
     in \<lparr>v0 = c, v1 = b, v2 = a, v3 = d\<rparr>)"

definition SIPHASH_DOUBLE_ROUND :: "sip \<Rightarrow> sip" where
  "SIPHASH_DOUBLE_ROUND s = sip_half_b (sip_half_a (sip_half_b (sip_half_a s)))"

definition sip_init :: "bytes \<Rightarrow> sip" where
  "sip_init key = (let k0 = upk_u64le key 0; k1 = upk_u64le key 8
     in \<lparr>v0 = k0 XOR 0x736f6d6570736575, v1 = k1 XOR 0x646f72616e646f6d, v2 = k0 XOR 0x6c7967656e657261, v3 = k1 XOR 0x7465646279746573\<rparr>)"

definition sip_absorb :: "u64 \<Rightarrow> sip \<Rightarrow> sip" where
  "sip_absorb mi s = (let s = SIPHASH_DOUBLE_ROUND (s\<lparr>v3 := v3 s XOR mi\<rparr>) in s\<lparr>v0 := v0 s XOR mi\<rparr>)"

text \<open>The loop over whole words: the state and the bytes left.\<close>

function sip_words :: "bytes \<Rightarrow> sip \<Rightarrow> sip \<times> bytes" where
  "sip_words src s = (if length src \<ge> 8 then sip_words (drop 8 src) (sip_absorb (upk_u64le src 0) s) else (s, src))"
  by pat_completeness auto
termination by (relation "measure (\<lambda>(src, _). length src)") auto

declare sip_words.simps [simp del]

definition sip_finish :: "u64 \<Rightarrow> sip \<Rightarrow> u64" where
  "sip_finish b s =
     (let s = sip_absorb b s; s = s\<lparr>v2 := v2 s XOR 0xff\<rparr>;
          s = SIPHASH_DOUBLE_ROUND (SIPHASH_DOUBLE_ROUND s)
      in (v0 s XOR v1 s) XOR (v2 s XOR v3 s))"

text \<open>The last bytes in a word that is zero above them.\<close>

definition sip_tail :: "bytes \<Rightarrow> u64" where
  "sip_tail m = le_word (m @ replicate (8 - length m) 0)"

definition datum_siphash :: "bytes \<Rightarrow> bytes \<Rightarrow> u64" where
  "datum_siphash src key =
     (let b = push_bit 56 (word_of_nat (length src)); (s, m) = sip_words src (sip_init key)
      in sip_finish (b OR sip_tail m) s)"

definition datum_siphash_mod8 :: "bytes \<Rightarrow> bytes \<Rightarrow> u64" where
  "datum_siphash_mod8 src key =
     (let b = push_bit 56 (word_of_nat (length src)); (s, _) = sip_words src (sip_init key)
      in sip_finish b s)"

section \<open>Base64\<close>

definition b64d :: "nat list" where
  "b64d = replicate 10 66 @ [64] @ replicate 32 66 @ [62, 66, 66, 66, 63] @ [52..<62] @ [66, 66, 66, 65, 66, 66, 66] @ [0..<26]
     @ replicate 6 66 @ [26..<52] @ replicate 133 66"

text \<open>The loop and what follows it: the decoded bytes, or the error code. \<open>room\<close> is the room given in \<^verbatim>\<open>*outLen\<close>.\<close>

fun b64_loop :: "nat \<Rightarrow> bytes \<Rightarrow> u32 \<Rightarrow> nat \<Rightarrow> bytes \<Rightarrow> nat + (u32 \<times> nat \<times> bytes)" where
  "b64_loop room [] buf iter out = Inr (buf, iter, out)"
| "b64_loop room (x # xs) buf iter out =
     (let c = b64d ! unat x
      in if c = 64 then b64_loop room xs buf iter out
         else if c = 66 then Inl 1
         else if c = 65 then Inr (buf, iter, out)
         else let buf = push_bit 6 buf OR word_of_nat c; iter = iter + 1
              in if iter = 4
                 then if length out + 3 > room then Inl 2
                      else b64_loop room xs 0 0 (out @ [ucast (drop_bit 16 buf AND 255), ucast (drop_bit 8 buf AND 255), ucast (buf AND 255)])
                 else b64_loop room xs buf iter out)"

definition base64_decode :: "bytes \<Rightarrow> nat \<Rightarrow> nat + bytes" where
  "base64_decode xs room =
     (case b64_loop room xs 0 0 [] of Inl e \<Rightarrow> Inl e
      | Inr (buf, iter, out) \<Rightarrow>
          if iter = 3 then if length out + 2 > room then Inl 3
                           else Inr (out @ [ucast (drop_bit 10 buf AND 255), ucast (drop_bit 2 buf AND 255)])
          else if iter = 2 then if length out + 1 > room then Inl 4 else Inr (out @ [ucast (drop_bit 4 buf AND 255)])
          else Inr out)"

section \<open>Filtered copies\<close>

definition is_alnum :: "char \<Rightarrow> bool" where
  "is_alnum c \<longleftrightarrow> is_upper c \<or> is_lower c \<or> 48 \<le> code c \<and> code c \<le> 57"

definition workerchar :: "char \<Rightarrow> bool" where
  "workerchar c \<longleftrightarrow> is_alnum c \<or> c \<in> set ''.-_=@,''"

definition uachar :: "char \<Rightarrow> bool" where
  "uachar c \<longleftrightarrow> is_alnum c \<or> c \<in> set ''.-_=@, |/:<>;'' \<or> code c = 39"

text \<open>The copying loop of both functions; \<open>None\<close> is the result \<^verbatim>\<open>false\<close>.\<close>

fun copy_chars :: "(char \<Rightarrow> bool) \<Rightarrow> string \<Rightarrow> nat \<Rightarrow> string" where
  "copy_chars ok [] maxlen = []"
| "copy_chars ok (c # cs) maxlen =
     (if maxlen > 1 then if ok c then c # copy_chars ok cs (maxlen - 1) else copy_chars ok cs maxlen else [])"

definition strncpy_workerchars :: "string option \<Rightarrow> nat \<Rightarrow> string option" where
  "strncpy_workerchars s maxlen = (case s of None \<Rightarrow> None | Some s \<Rightarrow> if maxlen = 0 then None else Some (copy_chars workerchar s maxlen))"

definition strncpy_uachars :: "string option \<Rightarrow> nat \<Rightarrow> string option" where
  "strncpy_uachars s maxlen = (case s of None \<Rightarrow> None | Some s \<Rightarrow> if maxlen = 0 then None else Some (copy_chars uachar s maxlen))"

section \<open>Strict parsing\<close>

fun atoi_loop :: "string \<Rightarrow> u64 \<Rightarrow> u64" where
  "atoi_loop [] ret = ret"
| "atoi_loop (c # cs) ret =
     (if code c < 48 \<or> code c > 57 then -1
      else let digit = word_of_nat (code c - 48)
           in if ret > (-1 - digit) div 10 then -1 else atoi_loop cs (ret * 10 + digit))"

definition datum_atoi_strict_u64 :: "string \<Rightarrow> u64" where
  "datum_atoi_strict_u64 s = (if s = [] then -1 else atoi_loop s 0)"

definition datum_atoi_strict :: "string \<Rightarrow> int" where
  "datum_atoi_strict s = (let ret = datum_atoi_strict_u64 s in if ret = -1 \<or> ret > 2147483647 then -1 else uint ret)"

definition datum_str_to_bool_strict :: "string \<Rightarrow> bool option" where
  "datum_str_to_bool_strict s = (if s = ''0'' then Some False else if s = ''1'' then Some True else None)"

section \<open>Comparing secrets\<close>

definition char_size_t :: "char \<Rightarrow> u64" where
  "char_size_t c = scast (byte_of c)"

text \<open>\<open>secret\<close> is the text with its length; the text of length 0 is replaced by the one null character.\<close>

definition datum_secure_strequals :: "string \<Rightarrow> string option \<Rightarrow> bool" where
  "datum_secure_strequals secret guess =
     (case guess of None \<Rightarrow> False
      | Some g \<Rightarrow>
          let acc = word_of_nat (length secret) XOR word_of_nat (length g);
              sec = (if secret = [] then [CHR 0x00] else secret)
          in fold (\<lambda>i acc. acc OR (char_size_t (g ! i) XOR char_size_t (sec ! (i mod length sec)))) [0..<length g] acc = (0 :: u64))"

section \<open>Both forms of SipHash\<close>

lemma sip_words_left: "length (snd (sip_words src s)) = length src mod 8"
proof (induction src s rule: sip_words.induct)
  case (1 src s)
  show ?case
  proof (cases "length src \<ge> 8")
    case True
    then show ?thesis using 1 by (subst sip_words.simps) (simp add: le_mod_geq)
  qed (subst sip_words.simps, simp)
qed

lemma le_word_zeros: "le_word (replicate n 0) = 0"
  by (induction n) simp_all

text \<open>On input of whole words the short form of SipHash computes the same as the general one.\<close>

theorem siphash_mod8_equiv:
  assumes "length src mod 8 = 0"
  shows "datum_siphash_mod8 src key = datum_siphash src key"
proof -
  obtain s m where w: "sip_words src (sip_init key) = (s, m)" by fastforce
  then have "m = []" using sip_words_left [of src "sip_init key"] assms by simp
  then have "sip_tail m = 0" by (simp add: sip_tail_def le_word_zeros)
  then show ?thesis by (simp add: datum_siphash_def datum_siphash_mod8_def w)
qed

theorem siphash_mod8_equiv_witness: "datum_siphash_mod8 (replicate 16 5) (replicate 16 1) = datum_siphash (replicate 16 5) (replicate 16 1)"
  using siphash_mod8_equiv [of "replicate 16 5" "replicate 16 1"] by simp

section \<open>Filtered copies\<close>

lemma copy_chars_filter: "copy_chars ok s maxlen = take (maxlen - 1) (filter ok s)"
proof (induction s arbitrary: maxlen)
  case (Cons c s)
  then show ?case by (cases "maxlen - 1") auto
qed simp

section \<open>Strict numbers\<close>

definition is_digit :: "char \<Rightarrow> bool" where
  "is_digit c \<longleftrightarrow> 48 \<le> code c \<and> code c \<le> 57"

definition dec_val :: "string \<Rightarrow> nat" where
  "dec_val s = be_val 10 (map (\<lambda>c. code c - 48) s)"

lemma atoi_loop_value:
  "atoi_loop s ret = (if list_all is_digit s \<and> unat ret * 10 ^ length s + dec_val s < 2 ^ 64
     then word_of_nat (unat ret * 10 ^ length s + dec_val s) else -1)"
proof (induction s arbitrary: ret)
  case Nil
  then show ?case by (simp add: dec_val_def)
next
  case (Cons c s)
  show ?case
  proof (cases "is_digit c")
    case False
    then show ?thesis by (auto simp: is_digit_def)
  next
    case True
    define d where "d = code c - 48"
    have d9: "d \<le> 9" using True unfolding d_def is_digit_def by linarith
    have ud: "unat (word_of_nat d :: u64) = d" using d9 by (simp add: unat_of_nat take_bit_eq_mod)
    have mx: "unat (-1 :: u64) = 18446744073709551615" by (simp add: unsigned_minus_1_eq_mask mask_eq_exp_minus_1)
    have "(word_of_nat d :: u64) \<le> -1" by simp
    then have "unat (-1 - word_of_nat d :: u64) = 18446744073709551615 - d" by (simp only: unat_sub mx ud)
    then have q: "unat ((-1 - word_of_nat d :: u64) div 10) = (18446744073709551615 - d) div 10" by (simp add: unat_div)
    have ov: "ret > (-1 - word_of_nat d) div 10 \<longleftrightarrow> 18446744073709551616 \<le> unat ret * 10 + d"
      unfolding word_less_nat_alt q div_less_iff_less_mult [OF zero_less_numeral] using d9 by linarith
    have v: "unat ret * 10 ^ length (c # s) + dec_val (c # s) = (unat ret * 10 + d) * 10 ^ length s + dec_val s"
      by (simp add: dec_val_def be_val_Cons d_def algebra_simps)
    have step: "atoi_loop (c # s) ret = (if ret > (-1 - word_of_nat d) div 10 then -1 else atoi_loop s (ret * 10 + word_of_nat d))"
      using True by (auto simp: Let_def d_def is_digit_def)
    have big: "unat ret * 10 + d \<le> (unat ret * 10 + d) * 10 ^ length s + dec_val s" by (rule trans_le_add1) simp
    show ?thesis
    proof (cases "18446744073709551616 \<le> unat ret * 10 + d")
      case t: True
      then have "\<not> (unat ret * 10 + d) * 10 ^ length s + dec_val s < 2 ^ 64" using big by simp
      then show ?thesis unfolding step v using t ov by simp
    next
      case False
      then have "unat (ret * 10 + word_of_nat d) = unat ret * 10 + d" by (simp add: unat_word_ariths ud)
      then show ?thesis unfolding step v Cons.IH using False ov True by simp
    qed
  qed
qed

text \<open>The strict parser returns the number of a nonempty text of digits below \<open>2 ^ 64\<close>, and the error value otherwise.\<close>

theorem atoi_strict_u64_value:
  "datum_atoi_strict_u64 s = (if s \<noteq> [] \<and> list_all is_digit s \<and> dec_val s < 2 ^ 64 then word_of_nat (dec_val s) else -1)"
  unfolding datum_atoi_strict_u64_def atoi_loop_value by simp

section \<open>Base64 text is decoded\<close>

definition b64_alphabet :: string where
  "b64_alphabet = ''ABCDEFGHIJKLMNOPQRSTUVWXYZabcdefghijklmnopqrstuvwxyz0123456789+/''"

definition b64c :: "nat \<Rightarrow> u8" where
  "b64c s = byte_of (b64_alphabet ! s)"

definition b64_pad :: u8 where
  "b64_pad = byte_of (CHR ''='')"

text \<open>The standard encoding, with padding.\<close>

fun b64_encode :: "bytes \<Rightarrow> bytes" where
  "b64_encode [] = []"
| "b64_encode [a] = [b64c (unat a div 4), b64c (unat a mod 4 * 16), b64_pad, b64_pad]"
| "b64_encode [a, b] = [b64c (unat a div 4), b64c (unat a mod 4 * 16 + unat b div 16), b64c (unat b mod 16 * 4), b64_pad]"
| "b64_encode (a # b # c # r) =
     [b64c (unat a div 4), b64c (unat a mod 4 * 16 + unat b div 16), b64c (unat b mod 16 * 4 + unat c div 64), b64c (unat c mod 64)]
     @ b64_encode r"

lemma b64_table: "list_all (\<lambda>s. b64d ! code (b64_alphabet ! s) = s) [0..<64]"
  by code_simp

lemma b64d_b64c: "s < 64 \<Longrightarrow> b64d ! unat (b64c s) = s"
  using b64_table by (simp add: list_all_iff b64c_def)

lemma b64d_pad: "b64d ! unat b64_pad = 65"
  by code_simp

definition shl6 :: "u32 \<Rightarrow> nat \<Rightarrow> u32" where
  "shl6 buf c = push_bit 6 buf OR word_of_nat c"

lemma unat_shl6: "c < 64 \<Longrightarrow> unat buf < 2 ^ 18 \<Longrightarrow> unat (shl6 buf c) = unat buf * 64 + c"
proof -
  assume c: "c < 64" and b: "unat buf < 2 ^ 18"
  have u: "unat (word_of_nat c :: u8) = c" using c by (simp add: unat_of_nat take_bit_eq_mod)
  then have w: "(word_of_nat c :: u32) = ucast (word_of_nat c :: u8)" by (metis of_nat_unat)
  have "unat (shl6 buf c) mod 2 ^ (26 + 6) = (unat buf mod 2 ^ 26) * 2 ^ 6 + unat (word_of_nat c :: u8)"
    unfolding shl6_def w by (rule unat_push_or) (simp_all add: u c)
  then show ?thesis using b u by simp
qed

lemma b64_step:
  assumes "s < 64" "iter < 3"
  shows "b64_loop room (b64c s # xs) buf iter out = b64_loop room xs (shl6 buf s) (Suc iter) out"
  using assms b64d_b64c [OF assms(1)] by (simp add: Let_def shl6_def)

lemma b64_step4:
  assumes "s < 64" "length out + 3 \<le> room"
  shows "b64_loop room (b64c s # xs) buf (Suc (Suc (Suc 0))) out = b64_loop room xs 0 0 (out @ [ucast (drop_bit 16 (shl6 buf s) AND 255), ucast (drop_bit 8 (shl6 buf s) AND 255), ucast (shl6 buf s AND 255)])"
  using assms b64d_b64c [OF assms(1)] by (simp add: Let_def shl6_def)

lemma b64_stop: "b64_loop room (b64_pad # xs) buf iter out = Inr (buf, iter, out)"
  using b64d_pad by (simp add: Let_def)

lemma byte_extract:
  assumes "unat w div 2 ^ k mod 256 = unat (a :: u8)"
  shows "ucast (drop_bit k (w :: u32) AND 255) = a"
proof -
  have m: "(255 :: u32) = mask 8" by (simp add: mask_eq_exp_minus_1)
  have "unat (ucast (drop_bit k w AND 255) :: u8) = unat a" unfolding m using assms by (simp add: unat_ucast_mod unat_and_mask unat_drop_bit_div)
  then show ?thesis by (simp only: word_unat_eq_iff)
qed

lemma sextets:
  fixes a b c :: nat
  assumes "a < 256" "b < 256" "c < 256"
  shows "a div 4 < 64" "a mod 4 * 16 + b div 16 < 64" "b mod 16 * 4 + c div 64 < 64" "c mod 64 < 64"
    "(a div 4) * 64 + (a mod 4 * 16 + b div 16) = a * 16 + b div 16"
    "(a * 16 + b div 16) * 64 + (b mod 16 * 4 + c div 64) = a * 1024 + b * 4 + c div 64"
    "(a * 1024 + b * 4 + c div 64) * 64 + c mod 64 = a * 65536 + b * 256 + c"
    "(a * 65536 + b * 256 + c) div 65536 mod 256 = a" "(a * 65536 + b * 256 + c) div 256 mod 256 = b" "(a * 65536 + b * 256 + c) mod 256 = c"
    "a * 1024 + b * 4 + c div 64 < 262144" "a * 16 + b div 16 < 262144"
proof -
  show "a div 4 < 64" "a mod 4 * 16 + b div 16 < 64" "b mod 16 * 4 + c div 64 < 64" "c mod 64 < 64" "a * 1024 + b * 4 + c div 64 < 262144" "a * 16 + b div 16 < 262144"
    using assms by linarith+
  show "(a div 4) * 64 + (a mod 4 * 16 + b div 16) = a * 16 + b div 16" "(a * 16 + b div 16) * 64 + (b mod 16 * 4 + c div 64) = a * 1024 + b * 4 + c div 64"
    "(a * 1024 + b * 4 + c div 64) * 64 + c mod 64 = a * 65536 + b * 256 + c"
  proof -
    obtain A R B S C T where "a div 4 = A" "a mod 4 = R" "a = A * 4 + R" "b div 16 = B" "b mod 16 = S" "b = B * 16 + S" "c div 64 = C" "c mod 64 = T" "c = C * 64 + T"
      by (metis div_mult_mod_eq)
    then show "(a div 4) * 64 + (a mod 4 * 16 + b div 16) = a * 16 + b div 16" "(a * 16 + b div 16) * 64 + (b mod 16 * 4 + c div 64) = a * 1024 + b * 4 + c div 64"
      "(a * 1024 + b * 4 + c div 64) * 64 + c mod 64 = a * 65536 + b * 256 + c" by simp_all
  qed
  have "(a * 65536 + b * 256 + c) div 65536 = a" "(a * 65536 + b * 256 + c) div 256 = a * 256 + b" using assms by (intro div_nat_eqI; simp)+
  then show "(a * 65536 + b * 256 + c) div 65536 mod 256 = a" "(a * 65536 + b * 256 + c) div 256 mod 256 = b" using assms by simp_all
  have "a * 65536 + b * 256 + c = c + (a * 256 + b) * 256" by simp
  then show "(a * 65536 + b * 256 + c) mod 256 = c" using assms by (simp only: mod_mult_self1 mod_less)
qed

lemma b64_group:
  assumes "length out + 3 \<le> room"
  shows "b64_loop room ([b64c (unat a div 4), b64c (unat a mod 4 * 16 + unat b div 16), b64c (unat b mod 16 * 4 + unat c div 64), b64c (unat c mod 64)] @ xs) 0 0 out
    = b64_loop room xs 0 0 (out @ [a, b, c])"
proof -
  have lt: "unat a < 256" "unat b < 256" "unat c < 256" by simp_all
  have s: "unat a div 4 < 64" "unat a mod 4 * 16 + unat b div 16 < 64" "unat b mod 16 * 4 + unat c div 64 < 64" "unat c mod 64 < 64"
    using sextets(1-4) [OF lt] by simp_all
  define w1 where "w1 = shl6 0 (unat a div 4)"
  define w2 where "w2 = shl6 w1 (unat a mod 4 * 16 + unat b div 16)"
  define w3 where "w3 = shl6 w2 (unat b mod 16 * 4 + unat c div 64)"
  define w4 where "w4 = shl6 w3 (unat c mod 64)"
  have u1: "unat w1 = unat a div 4" unfolding w1_def using s(1) by (subst unat_shl6) simp_all
  have u2: "unat w2 = unat a * 16 + unat b div 16" unfolding w2_def using s u1 sextets(5) [OF lt] by (subst unat_shl6) simp_all
  have u3: "unat w3 = unat a * 1024 + unat b * 4 + unat c div 64" unfolding w3_def using s u2 lt sextets(6) [OF lt] by (subst unat_shl6) simp_all
  have u4: "unat w4 = unat a * 65536 + unat b * 256 + unat c" unfolding w4_def using s u3 sextets(7,11) [OF lt] by (subst unat_shl6) simp_all
  have "unat w4 div 2 ^ 16 mod 256 = unat a" "unat w4 div 2 ^ 8 mod 256 = unat b" "unat w4 div 2 ^ 0 mod 256 = unat c"
    unfolding u4 using sextets(8-10) [OF lt] by simp_all
  note e = this [THEN byte_extract]
  then show ?thesis using s assms
    by (simp add: b64_step b64_step4 w1_def [symmetric] w2_def [symmetric] w3_def [symmetric] w4_def [symmetric] del: b64_loop.simps(2))
qed

lemma b64_tail2:
  fixes a b :: u8
  shows "\<exists>w. b64_loop room [b64c (unat a div 4), b64c (unat a mod 4 * 16 + unat b div 16), b64c (unat b mod 16 * 4), b64_pad] 0 0 out = Inr (w, 3, out)
     \<and> ucast (drop_bit 10 w AND 255) = a \<and> ucast (drop_bit 2 w AND 255) = b"
proof -
  have lt: "unat a < 256" "unat b < 256" "unat (0 :: u8) < 256" by simp_all
  define w1 where "w1 = shl6 0 (unat a div 4)"
  define w2 where "w2 = shl6 w1 (unat a mod 4 * 16 + unat b div 16)"
  define w3 where "w3 = shl6 w2 (unat b mod 16 * 4)"
  have u1: "unat w1 = unat a div 4" unfolding w1_def using sextets(1) [OF lt] by (subst unat_shl6) simp_all
  have u2: "unat w2 = unat a * 16 + unat b div 16" unfolding w2_def using sextets(1,2,5) [OF lt] u1 by (subst unat_shl6) simp_all
  have u3: "unat w3 = unat a * 1024 + unat b * 4" unfolding w3_def using sextets(3,6,12) [OF lt] u2 by (subst unat_shl6) simp_all
  have "unat w3 div 2 ^ 10 mod 256 = unat a" "unat w3 div 2 ^ 2 mod 256 = unat b"
  proof -
    have "(unat a * 1024 + unat b * 4) div 1024 = unat a" "(unat a * 1024 + unat b * 4) div 4 = unat a * 256 + unat b" using lt by (intro div_nat_eqI; simp)+
    then show "unat w3 div 2 ^ 10 mod 256 = unat a" "unat w3 div 2 ^ 2 mod 256 = unat b" unfolding u3 using lt by simp_all
  qed
  note e = this [THEN byte_extract]
  have "b64_loop room [b64c (unat a div 4), b64c (unat a mod 4 * 16 + unat b div 16), b64c (unat b mod 16 * 4), b64_pad] 0 0 out = Inr (w3, 3, out)"
    using sextets(1-3) [OF lt] by (simp add: b64_step b64_stop w1_def w2_def w3_def numeral_3_eq_3 del: b64_loop.simps(2))
  then show ?thesis using e by blast
qed

lemma b64_tail1:
  fixes a :: u8
  shows "\<exists>w. b64_loop room [b64c (unat a div 4), b64c (unat a mod 4 * 16), b64_pad, b64_pad] 0 0 out = Inr (w, 2, out) \<and> ucast (drop_bit 4 w AND 255) = a"
proof -
  have lt: "unat a < 256" "unat (0 :: u8) < 256" "unat (0 :: u8) < 256" by simp_all
  define w1 where "w1 = shl6 0 (unat a div 4)"
  define w2 where "w2 = shl6 w1 (unat a mod 4 * 16)"
  have u1: "unat w1 = unat a div 4" unfolding w1_def using sextets(1) [OF lt] by (subst unat_shl6) simp_all
  have u2: "unat w2 = unat a * 16" unfolding w2_def using sextets(1,2,5) [OF lt] u1 by (subst unat_shl6) simp_all
  have "unat w2 div 2 ^ 4 mod 256 = unat a" unfolding u2 using lt by simp
  then have "ucast (drop_bit 4 w2 AND 255) = a" by (rule byte_extract)
  moreover have "b64_loop room [b64c (unat a div 4), b64c (unat a mod 4 * 16), b64_pad, b64_pad] 0 0 out = Inr (w2, 2, out)"
    using sextets(1,2) [OF lt] by (simp add: b64_step b64_stop w1_def w2_def numeral_2_eq_2 del: b64_loop.simps(2))
  ultimately show ?thesis by blast
qed

definition b64_rest :: "u32 \<Rightarrow> nat \<Rightarrow> bytes" where
  "b64_rest buf iter = (if iter = 3 then [ucast (drop_bit 10 buf AND 255), ucast (drop_bit 2 buf AND 255)]
     else if iter = 2 then [ucast (drop_bit 4 buf AND 255)] else [])"

lemma b64_all:
  "length out + length bs \<le> room \<Longrightarrow> \<exists>buf iter out'. b64_loop room (b64_encode bs) 0 0 out = Inr (buf, iter, out') \<and> out' @ b64_rest buf iter = out @ bs"
proof (induction bs arbitrary: out rule: b64_encode.induct)
  case 1
  then show ?case by (simp add: b64_rest_def)
next
  case (2 a)
  obtain w where "b64_loop room (b64_encode [a]) 0 0 out = Inr (w, 2, out)" "b64_rest w 2 = [a]"
    using b64_tail1 [of room a out] by (auto simp: b64_rest_def simp del: b64_loop.simps)
  then show ?case by (metis (full_types))
next
  case (3 a b)
  obtain w where "b64_loop room (b64_encode [a, b]) 0 0 out = Inr (w, 3, out)" "b64_rest w 3 = [a, b]"
    using b64_tail2 [of room a b out] by (auto simp: b64_rest_def simp del: b64_loop.simps)
  then show ?case by (metis (full_types))
next
  case (4 a b c r)
  then have "length (out @ [a, b, c]) + length r \<le> room" "length out + 3 \<le> room" by simp_all
  then show ?case using "4.IH" [of "out @ [a, b, c]"] by (simp only: b64_encode.simps b64_group) simp
qed

text \<open>Bytes in standard Base64 are decoded to themselves when the output has room for them.\<close>

theorem base64_roundtrip:
  assumes "length bs \<le> room"
  shows "base64_decode (b64_encode bs) room = Inr bs"
proof -
  obtain buf iter out where l: "b64_loop room (b64_encode bs) 0 0 [] = Inr (buf, iter, out)" "out @ b64_rest buf iter = bs"
    using b64_all [of "[]" bs room] assms by auto
  have "length out + length (b64_rest buf iter) \<le> room" using l(2) assms by auto
  then show ?thesis using l by (auto simp: base64_decode_def b64_rest_def split: if_splits)
qed

theorem base64_roundtrip_witness: "base64_decode (b64_encode [1, 2, 3, 4]) 10 = Inr [1, 2, 3, 4]"
  using base64_roundtrip [of "[1, 2, 3, 4]" 10] by simp

section \<open>The comparison is equality\<close>

lemma char_size_t_inject: "char_size_t c = char_size_t d \<longleftrightarrow> c = d"
proof -
  have "c = d" if "char_size_t c = char_size_t d"
  proof -
    have b: "ucast (scast x :: u64) = x" for x :: u8 by (rule bit_word_eqI) (auto simp: bit_simps)
    have "byte_of c = byte_of d" using arg_cong [OF that, of "ucast :: u64 \<Rightarrow> u8"] by (simp only: char_size_t_def b)
    then show ?thesis by simp
  qed
  then show ?thesis by auto
qed

lemma word_xor_zero: "a XOR b = (0 :: u64) \<longleftrightarrow> a = b"
proof
  assume "a XOR b = 0"
  then have "(a XOR b) XOR b = 0 XOR b" by (simp only:)
  then show "a = b" by (simp add: xor.assoc)
qed simp

lemma fold_or_zero: "fold (\<lambda>i acc. acc OR f i) xs acc = (0 :: u64) \<longleftrightarrow> acc = 0 \<and> (\<forall>i \<in> set xs. f i = 0)"
  by (induction xs arbitrary: acc) (auto simp: or_eq_0_iff)

text \<open>The comparison in constant time is equality of the texts.\<close>

theorem secure_strequals_eq:
  assumes "length secret < 2 ^ 64" and "length g < 2 ^ 64"
  shows "datum_secure_strequals secret (Some g) \<longleftrightarrow> secret = g"
proof -
  have l: "(word_of_nat (length secret) XOR word_of_nat (length g) :: u64) = 0 \<longleftrightarrow> length secret = length g"
  proof -
    have "unat (word_of_nat (length secret) :: u64) = length secret" "unat (word_of_nat (length g) :: u64) = length g"
      using assms by (simp_all only: unat_of_nat take_bit_eq_mod) simp_all
    moreover have "(word_of_nat (length secret) XOR word_of_nat (length g) :: u64) = 0 \<longleftrightarrow> (word_of_nat (length secret) :: u64) = word_of_nat (length g)"
      by (rule word_xor_zero)
    ultimately show ?thesis by (metis word_unat_eq_iff)
  qed
  have x: "char_size_t c XOR char_size_t d = 0 \<longleftrightarrow> c = d" for c d by (simp add: char_size_t_inject word_xor_zero)
  show ?thesis
  proof (cases "length secret = length g")
    case False
    then show ?thesis using l by (auto simp: datum_secure_strequals_def Let_def fold_or_zero)
  next
    case True
    then show ?thesis using l by (auto simp: datum_secure_strequals_def Let_def fold_or_zero x intro: nth_equalityI)
  qed
qed

theorem secure_strequals_eq_witness: "datum_secure_strequals ''key'' (Some ''key'') \<and> \<not> datum_secure_strequals ''key'' (Some ''kez'')"
  using secure_strequals_eq [of "''key''" "''key''"] secure_strequals_eq [of "''key''" "''kez''"] by simp

end
