(* ===== verification/ChirpGlue.thy ===== *)
theory ChirpGlue
  imports Chirp Coinbase
begin

text \<open>
  The payout engine inside the gateway, \<^verbatim>\<open>src/src/datum_chirp_glue.c\<close>: the global registry and its
  persistence, recording of accepted shares, and the outputs of a block. The lock makes each function one
  step. The document read from and written to disk is the list of its members in order; a stored share
  that is not a pair of numbers is \<open>None\<close>. \<^verbatim>\<open>addr_2_output_script\<close> and \<^verbatim>\<open>chirp_snapshot_commit\<close> are
  arguments (\<open>addr_script\<close>, \<open>commit\<close>).
\<close>

definition CHIRP_MIN_DAYS :: dbl where "CHIRP_MIN_DAYS = Fin 7"
definition CHIRP_MIN_POWER :: dbl where "CHIRP_MIN_POWER = Fin 5000000"
definition CHIRP_FEE_BPS :: int where "CHIRP_FEE_BPS = 90"
definition CHIRP_SNAPSHOT_TAG :: string where "CHIRP_SNAPSHOT_TAG = ''CHIRP1''"

section \<open>State and persistence\<close>

record saved_miner =
  s_addr :: string
  s_first_seen :: int
  s_last_seen :: int
  s_active_secs :: dbl
  s_shares :: "(int \<times> dbl) option list"

record glue =
  g_chirp :: chirp_registry
  g_inited :: bool
  g_last_save :: u64

fun load_shares :: "alloc \<Rightarrow> u64 \<Rightarrow> (int \<times> dbl) option list \<Rightarrow> chirp_miner \<Rightarrow> chirp_miner" where
  "load_shares alloc cutoff [] m = m"
| "load_shares alloc cutoff (None # ps) m = load_shares alloc cutoff ps m"
| "load_shares alloc cutoff (Some (t, wk) # ps) m =
     (if word_of_int t < cutoff then load_shares alloc cutoff ps m
      else if length (shares m) = cap_shares m
      then let ncap = (if cap_shares m \<noteq> 0 then cap_shares m * 2 else 32)
           in if alloc ncap
              then load_shares alloc cutoff ps (m\<lparr>shares := shares m @ [\<lparr>ts = word_of_int t, work = wk\<rparr>], cap_shares := ncap\<rparr>)
              else m
      else load_shares alloc cutoff ps (m\<lparr>shares := shares m @ [\<lparr>ts = word_of_int t, work = wk\<rparr>]\<rparr>))"

definition load_member :: "alloc \<Rightarrow> u64 \<Rightarrow> saved_miner \<Rightarrow> chirp_miner \<Rightarrow> chirp_miner" where
  "load_member alloc now sm m =
     (let m = m\<lparr>shares := [], first_seen := word_of_int (s_first_seen sm), last_seen := word_of_int (s_last_seen sm), active_secs := s_active_secs sm\<rparr>;
          m = (if first_seen m = 0 then m\<lparr>first_seen := now\<rparr> else m)
      in load_shares alloc (window_cutoff now) (s_shares sm) m)"

definition load_one :: "alloc \<Rightarrow> u64 \<Rightarrow> saved_miner \<Rightarrow> chirp_registry \<Rightarrow> chirp_registry" where
  "load_one alloc now sm r =
     (let r = chirp_record_share alloc r (s_addr sm) (Fin 0) now
      in case find_addr (miners r) (s_addr sm) 0 of None \<Rightarrow> r
         | Some i \<Rightarrow> r\<lparr>miners := (miners r)[i := load_member alloc now sm (miners r ! i)]\<rparr>)"

definition chirp_load_locked :: "alloc \<Rightarrow> u64 \<Rightarrow> saved_miner list option \<Rightarrow> chirp_registry \<Rightarrow> chirp_registry" where
  "chirp_load_locked alloc now db r = (case db of None \<Rightarrow> r | Some sms \<Rightarrow> fold (load_one alloc now) sms r)"

text \<open>A number that is not finite has no JSON value: the member's tenure is then missing, which loads as 0, and the share has no work.\<close>

definition json_real :: "dbl \<Rightarrow> dbl option" where
  "json_real d = (case d of Fin x \<Rightarrow> Some d | _ \<Rightarrow> None)"

definition save_miner :: "chirp_miner \<Rightarrow> saved_miner" where
  "save_miner m = \<lparr>s_addr = m_addr m, s_first_seen = sint (first_seen m), s_last_seen = sint (last_seen m),
     s_active_secs = (case json_real (active_secs m) of Some d \<Rightarrow> d | None \<Rightarrow> Fin 0),
     s_shares = map (\<lambda>x. map_option (Pair (sint (ts x))) (json_real (work x))) (shares m)\<rparr>"

definition chirp_save_locked :: "chirp_registry \<Rightarrow> saved_miner list" where
  "chirp_save_locked r = map save_miner (miners r)"

definition glue_ready :: "alloc \<Rightarrow> u64 \<Rightarrow> saved_miner list option \<Rightarrow> glue \<Rightarrow> glue" where
  "glue_ready alloc now db g =
     (if \<not> g_inited g then g\<lparr>g_chirp := chirp_load_locked alloc now db chirp_init, g_inited := True, g_last_save := now\<rparr> else g)"

definition chirp_glue_init :: "alloc \<Rightarrow> u64 \<Rightarrow> saved_miner list option \<Rightarrow> glue \<Rightarrow> glue" where
  "chirp_glue_init alloc now db g = glue_ready alloc now db g"

definition chirp_glue_record :: "alloc \<Rightarrow> u64 \<Rightarrow> saved_miner list option \<Rightarrow> string \<Rightarrow> u64 \<Rightarrow> glue \<Rightarrow> glue" where
  "chirp_glue_record alloc now db username diff g =
     (if username = [] then g
      else let addr = chirp_payout_address username CHIRP_ADDR_MAX
           in if addr = [] then g
              else let g = glue_ready alloc now db g
                   in g\<lparr>g_chirp := chirp_record_share alloc (g_chirp g) addr (of_u64 diff) now\<rparr>)"

definition chirp_glue_maybe_save :: "u64 \<Rightarrow> glue \<Rightarrow> glue \<times> saved_miner list option" where
  "chirp_glue_maybe_save now g =
     (if g_inited g \<and> now - g_last_save g \<ge> 30 then (g\<lparr>g_last_save := now\<rparr>, Some (chirp_save_locked (g_chirp g))) else (g, None))"

section \<open>The outputs of a block\<close>

definition chirp_snapshot_enabled :: "env \<Rightarrow> bool" where
  "chirp_snapshot_enabled getenv =
     (case getenv ''CHIRP_SNAPSHOT_COMMIT'' of None \<Rightarrow> True
      | Some e \<Rightarrow> \<not> (e \<noteq> [] \<and> (e ! 0 = CHR ''0'' \<or> e ! 0 = CHR ''n'' \<or> e ! 0 = CHR ''N'')))"

definition seed_of :: "bytes \<Rightarrow> u64" where
  "seed_of prevhash = fold (\<lambda>i seed. seed OR push_bit (8 * i) (ucast (prevhash ! i))) [0..<8] 0"

definition fee_of :: "int \<Rightarrow> u16" where
  "fee_of chirp_fee_bps = word_of_int (if chirp_fee_bps > 0 then chirp_fee_bps else CHIRP_FEE_BPS)"

text \<open>The supplier's script and the amount, \<open>None\<close> without supplier or with an invalid address.\<close>

definition supplier_share :: "(string \<Rightarrow> bytes) \<Rightarrow> user_conf \<Rightarrow> string \<Rightarrow> u64 \<Rightarrow> (bytes \<times> u64) option" where
  "supplier_share addr_script uc carousel v =
     (if mining_blake2b_template uc \<and> carousel \<noteq> []
      then let bps = word_of_int (mining_template_supplier_bps uc) :: u16; script = addr_script carousel
           in if script = [] then None else Some (script, word_of_nat (unat v * unat bps div 10000))
      else None)"

fun payout_outs :: "(string \<Rightarrow> bytes) \<Rightarrow> nat \<Rightarrow> chirp_payout list \<Rightarrow> cb_output list" where
  "payout_outs addr_script written [] = []"
| "payout_outs addr_script written (p # ps) =
     (if written < 500
      then let script = addr_script (p_addr p)
           in if script = [] then payout_outs addr_script written ps
              else \<lparr>output_script = script, value_sats = sats p\<rparr> # payout_outs addr_script (Suc written) ps
      else [])"

definition snapshot_out :: "bytes option \<Rightarrow> cb_output list" where
  "snapshot_out h = (case h of None \<Rightarrow> []
     | Some h32 \<Rightarrow> [\<lparr>output_script = [0x6a, 6 + 32] @ map byte_of CHIRP_SNAPSHOT_TAG @ h32, value_sats = 0\<rparr>])"

definition supplier_out :: "(bytes \<times> u64) option \<Rightarrow> cb_output list" where
  "supplier_out sp = (case sp of None \<Rightarrow> []
     | Some (script, v) \<Rightarrow> if v \<ge> CHIRP_MIN_PAYOUT_SATS then [\<lparr>output_script = script, value_sats = v\<rparr>] else [])"

text \<open>
  The outputs and the state; \<open>None\<close> is the undefined behaviour of the split. \<open>alloc\<close> grants the arrays of the registry
  and of the candidates, \<open>alloc_w\<close> that of the winners and \<open>alloc_k\<close> that of the draw.
\<close>

definition chirp_glue_fill_outputs ::
  "keyed qsort \<Rightarrow> (dbl \<Rightarrow> dbl \<Rightarrow> dbl) \<Rightarrow> env \<Rightarrow> (string \<Rightarrow> dbl) \<Rightarrow> alloc \<Rightarrow> alloc \<Rightarrow> alloc \<Rightarrow> (string \<Rightarrow> bytes)
   \<Rightarrow> (chirp_cand list \<Rightarrow> chirp_payout list \<Rightarrow> u64 \<Rightarrow> bytes option) \<Rightarrow> u64 \<Rightarrow> saved_miner list option \<Rightarrow> user_conf \<Rightarrow> int
   \<Rightarrow> u64 \<Rightarrow> bytes \<Rightarrow> string \<Rightarrow> glue \<Rightarrow> (cb_output list \<times> glue) option" where
  "chirp_glue_fill_outputs qs powf getenv atof alloc alloc_w alloc_k addr_script commit now db uc chirp_fee_bps cbv prevhash carousel g =
     (if cbv = 0 then Some ([], g)
      else let seed = seed_of prevhash;
               g = glue_ready alloc now db g;
               capn = (if length (miners (g_chirp g)) \<noteq> 0 then length (miners (g_chirp g)) else 1)
           in if \<not> alloc capn then Some ([], g)
              else let min_days = chirp_env_or getenv atof ''CHIRP_MIN_DAYS'' CHIRP_MIN_DAYS;
                       min_power = chirp_env_or getenv atof ''CHIRP_MIN_POWER'' CHIRP_MIN_POWER;
                       fee_bps = fee_of chirp_fee_bps;
                       sp = supplier_share addr_script uc carousel cbv;
                       split_total = cbv - (case sp of None \<Rightarrow> 0 | Some (_, v) \<Rightarrow> v);
                       (cands, r) = chirp_candidates getenv atof (g_chirp g) now min_days min_power capn;
                       g = g\<lparr>g_chirp := r\<rparr>
                   in case chirp_split qs powf alloc_w alloc_k cands split_total fee_bps seed of None \<Rightarrow> None
                      | Some (payouts, pool_total) \<Rightarrow>
                          let h = (if chirp_snapshot_enabled getenv then commit cands payouts pool_total else None);
                              first_outs = snapshot_out h @ supplier_out sp
                          in Some (first_outs @ payout_outs addr_script (length first_outs) payouts, g))"

section \<open>Saving and loading\<close>

lemma load_shares_all:
  "\<exists>c. load_shares (\<lambda>_. True) cutoff (map (\<lambda>x. Some (sint (ts x), work x)) ss) m
     = m\<lparr>shares := shares m @ filter (\<lambda>x. ts x \<ge> cutoff) ss, cap_shares := c\<rparr>"
proof (induction ss arbitrary: m)
  case Nil
  show ?case by (rule exI [of _ "cap_shares m"]) simp
next
  case (Cons x ss)
  show ?case
  proof (cases "ts x < cutoff")
    case True
    then show ?thesis using Cons.IH [of m] by (simp add: not_le)
  next
    case False
    then have t: "load_shares (\<lambda>_. True) cutoff (map (\<lambda>x. Some (sint (ts x), work x)) (x # ss)) m
      = load_shares (\<lambda>_. True) cutoff (map (\<lambda>x. Some (sint (ts x), work x)) ss)
          (if length (shares m) = cap_shares m
           then m\<lparr>shares := shares m @ [x], cap_shares := if cap_shares m \<noteq> 0 then cap_shares m * 2 else 32\<rparr>
           else m\<lparr>shares := shares m @ [x]\<rparr>)"
      by (cases x) (simp add: Let_def)
    have f: "filter (\<lambda>x. ts x \<ge> cutoff) (x # ss) = x # filter (\<lambda>x. ts x \<ge> cutoff) ss" using False by simp
    show ?thesis
    proof (cases "length (shares m) = cap_shares m")
      case True
      let ?m = "m\<lparr>shares := shares m @ [x], cap_shares := if cap_shares m \<noteq> 0 then cap_shares m * 2 else 32\<rparr>"
      obtain c where "load_shares (\<lambda>_. True) cutoff (map (\<lambda>x. Some (sint (ts x), work x)) ss) ?m
        = ?m\<lparr>shares := shares ?m @ filter (\<lambda>x. ts x \<ge> cutoff) ss, cap_shares := c\<rparr>" using Cons.IH [of ?m] by blast
      then show ?thesis unfolding t f using True by (intro exI [of _ c]) simp
    next
      case False
      let ?m = "m\<lparr>shares := shares m @ [x]\<rparr>"
      obtain c where "load_shares (\<lambda>_. True) cutoff (map (\<lambda>x. Some (sint (ts x), work x)) ss) ?m
        = ?m\<lparr>shares := shares ?m @ filter (\<lambda>x. ts x \<ge> cutoff) ss, cap_shares := c\<rparr>" using Cons.IH [of ?m] by blast
      then show ?thesis unfolding t f using False by (intro exI [of _ c]) simp
    qed
  qed
qed

text \<open>What a saved member is after loading: without the old shares; the capacity is not part of it.\<close>

definition pruned :: "u64 \<Rightarrow> chirp_miner \<Rightarrow> chirp_miner" where
  "pruned now m = m\<lparr>shares := filter (\<lambda>x. ts x \<ge> window_cutoff now) (shares m), cap_shares := 0\<rparr>"

definition forget_cap :: "chirp_miner \<Rightarrow> chirp_miner" where
  "forget_cap m = m\<lparr>cap_shares := 0\<rparr>"

lemma m_addr_load_member: "m_addr (load_member alloc now sm m) = m_addr m"
proof -
  have "m_addr (load_shares alloc c ps m) = m_addr m" for c ps m
    by (induction alloc c ps m rule: load_shares.induct) (auto simp: Let_def)
  then show ?thesis by (simp add: load_member_def Let_def)
qed

definition miner_finite :: "chirp_miner \<Rightarrow> bool" where
  "miner_finite m \<longleftrightarrow> (\<exists>q. active_secs m = Fin q) \<and> (\<forall>x \<in> set (shares m). \<exists>q. work x = Fin q)"

lemma save_miner_finite:
  assumes "miner_finite m"
  shows "save_miner m = \<lparr>s_addr = m_addr m, s_first_seen = sint (first_seen m), s_last_seen = sint (last_seen m),
     s_active_secs = active_secs m, s_shares = map (\<lambda>x. Some (sint (ts x), work x)) (shares m)\<rparr>"
proof -
  have "map (\<lambda>x. map_option (Pair (sint (ts x))) (json_real (work x))) (shares m) = map (\<lambda>x. Some (sint (ts x), work x)) (shares m)"
    using assms by (intro map_cong) (auto simp: miner_finite_def json_real_def)
  then show ?thesis using assms by (auto simp: save_miner_def miner_finite_def json_real_def)
qed

lemma load_one_new:
  assumes "\<forall>x \<in> set (miners r). m_addr x \<noteq> m_addr m \<and> length (m_addr x) \<le> CHIRP_ADDR_MAX - 1"
    and "length (m_addr m) \<le> CHIRP_ADDR_MAX - 1" "first_seen m \<noteq> 0" "miner_finite m"
  shows "\<exists>c m'. load_one (\<lambda>_. True) now (save_miner m) r = r\<lparr>miners := miners r @ [m'], cap := c\<rparr>
    \<and> forget_cap m' = pruned now m \<and> m_addr m' = m_addr m"
proof -
  have n: "find_addr (miners r) (m_addr m) 0 = None" using assms(1,2) by (auto simp: find_addr_None same_addr_ok)
  define x where "x = push_share (\<lambda>_. True) (credit_tenure (new_miner (m_addr m) now) now) (Fin 0) now"
  obtain c where r: "chirp_record_share (\<lambda>_. True) r (m_addr m) (Fin 0) now = r\<lparr>miners := miners r @ [x], cap := c\<rparr>"
    using n by (intro that [of "if length (miners r) = cap r then if cap r \<noteq> 0 then cap r * 2 else 16 else cap r"])
      (simp add: chirp_record_share_def find_or_add_def Let_def x_def)
  have xa: "m_addr x = m_addr m" using assms(2) by (simp add: x_def new_miner_def)
  have fl: "find_addr (xs @ [x]) (m_addr m) k = Some (k + length xs)" if "find_addr xs (m_addr m) k = None" for xs k
    using that by (induction xs "m_addr m" k rule: find_addr.induct) (auto simp: xa same_addr_def split: if_splits)
  define y where "y = load_member (\<lambda>_. True) now (save_miner m) x"
  have "load_one (\<lambda>_. True) now (save_miner m) r = r\<lparr>miners := miners r @ [y], cap := c\<rparr>"
    unfolding load_one_def by (simp add: save_miner_finite [OF assms(4)] r fl [OF n] y_def Let_def list_update_append)
  moreover have "forget_cap y = pruned now m"
  proof -
    let ?m0 = "x\<lparr>shares := [], first_seen := first_seen m, last_seen := last_seen m, active_secs := active_secs m\<rparr>"
    obtain d where d: "load_shares (\<lambda>_. True) (window_cutoff now) (map (\<lambda>x. Some (sint (ts x), work x)) (shares m)) ?m0
       = ?m0\<lparr>shares := filter (\<lambda>x. ts x \<ge> window_cutoff now) (shares m), cap_shares := d\<rparr>"
      using load_shares_all [of "window_cutoff now" "shares m" ?m0] by auto
    have "y = ?m0\<lparr>shares := filter (\<lambda>x. ts x \<ge> window_cutoff now) (shares m), cap_shares := d\<rparr>"
      using assms(3) by (simp add: y_def load_member_def save_miner_finite [OF assms(4)] d)
    then show ?thesis by (cases m) (simp add: forget_cap_def pruned_def xa)
  qed
  moreover have "m_addr y = m_addr m" by (simp add: y_def m_addr_load_member xa)
  ultimately show ?thesis by blast
qed

lemma load_all:
  assumes "\<forall>x \<in> set (miners r). length (m_addr x) \<le> CHIRP_ADDR_MAX - 1" "distinct (map m_addr (miners r) @ map m_addr ms)"
    and "\<forall>m \<in> set ms. length (m_addr m) \<le> CHIRP_ADDR_MAX - 1 \<and> first_seen m \<noteq> 0 \<and> miner_finite m"
  shows "map forget_cap (miners (fold (load_one (\<lambda>_. True) now) (map save_miner ms) r)) = map forget_cap (miners r) @ map (pruned now) ms"
  using assms
proof (induction ms arbitrary: r)
  case (Cons m ms)
  have "\<forall>x \<in> set (miners r). m_addr x \<noteq> m_addr m \<and> length (m_addr x) \<le> CHIRP_ADDR_MAX - 1"
    using Cons.prems(1,2) by (auto simp: image_iff)
  then obtain c m' where l: "load_one (\<lambda>_. True) now (save_miner m) r = r\<lparr>miners := miners r @ [m'], cap := c\<rparr>" "forget_cap m' = pruned now m" "m_addr m' = m_addr m"
    using load_one_new [of r m now] Cons.prems(3) by auto
  have "map forget_cap (miners (fold (load_one (\<lambda>_. True) now) (map save_miner ms) (r\<lparr>miners := miners r @ [m'], cap := c\<rparr>)))
      = map forget_cap (miners (r\<lparr>miners := miners r @ [m'], cap := c\<rparr>)) @ map (pruned now) ms"
    using Cons.prems l(3) by (intro Cons.IH) auto
  then show ?case using l by simp
qed simp

text \<open>A registry of finite numbers that is saved and loaded again has the same members, in order, without the shares that left the window.\<close>

theorem registry_save_load:
  assumes "registry_ok r" and "list_all (\<lambda>m. first_seen m \<noteq> 0 \<and> miner_finite m) (miners r)"
  shows "map forget_cap (miners (chirp_load_locked (\<lambda>_. True) now (Some (chirp_save_locked r)) chirp_init)) = map (pruned now) (miners r)"
  using load_all [of chirp_init "miners r" now] assms
  by (auto simp: chirp_load_locked_def chirp_save_locked_def chirp_init_def registry_ok_def miner_ok_def list_all_iff)

theorem registry_save_load_witness:
  "map forget_cap (miners (chirp_load_locked (\<lambda>_. True) 200000 (Some (chirp_save_locked
      (foldl record_event chirp_init [(''a'', Fin 1, 100), (''b'', Fin 1, 150000)]))) chirp_init))
    = map (pruned 200000) (miners (foldl record_event chirp_init [(''a'', Fin 1, 100), (''b'', Fin 1, 150000)]))"
proof (rule registry_save_load)
  have "registry_ok chirp_init" by (simp add: registry_ok_def chirp_init_def)
  then show "registry_ok (foldl record_event chirp_init [(''a'', Fin 1, 100), (''b'', Fin 1, 150000)])" by (rule registry.inv_record_all)
  show "list_all (\<lambda>m. first_seen m \<noteq> 0 \<and> miner_finite m) (miners (foldl record_event chirp_init [(''a'', Fin 1, 100), (''b'', Fin 1, 150000)]))"
    by (simp add: record_event_def chirp_record_share_def find_or_add_def chirp_init_def Let_def push_share_def credit_tenure_def
        new_miner_def same_addr_def CHIRP_ADDR_MAX_def miner_finite_def)
qed

section \<open>The outputs are within the reward\<close>

definition out_total :: "cb_output list \<Rightarrow> nat" where
  "out_total outs = sum_list (map (unat \<circ> value_sats) outs)"

definition outs_fit :: "cb_output list \<Rightarrow> bool" where
  "outs_fit outs \<longleftrightarrow> list_all (\<lambda>x. length (output_script x) \<le> 64) outs"

lemma out_total_append [simp]: "out_total (xs @ ys) = out_total xs + out_total ys"
  by (simp add: out_total_def)

lemma out_total_Nil [simp]: "out_total [] = 0"
  by (simp add: out_total_def)

lemma out_total_Cons [simp]: "out_total (x # xs) = unat (value_sats x) + out_total xs"
  by (simp add: out_total_def)

lemma payout_outs_total: "out_total (payout_outs addr_script w ps) \<le> sum_list (map (\<lambda>p. unat (sats p)) ps)"
  by (induction addr_script w ps rule: payout_outs.induct) (auto simp: Let_def)

lemma payout_outs_length: "w + length (payout_outs addr_script w ps) \<le> max w 500"
  by (induction addr_script w ps rule: payout_outs.induct) (auto simp: Let_def)

lemma payout_outs_scripts: "\<forall>a. length (addr_script a) \<le> 64 \<Longrightarrow> outs_fit (payout_outs addr_script w ps)"
  by (induction addr_script w ps rule: payout_outs.induct) (auto simp: Let_def outs_fit_def)

text \<open>The supplier's share is at most the reward, so the rest is what the split gets.\<close>

definition supplier_sats :: "(bytes \<times> u64) option \<Rightarrow> u64" where
  "supplier_sats sp = (case sp of None \<Rightarrow> 0 | Some (_, v) \<Rightarrow> v)"

lemma supplier_share_le:
  assumes "0 \<le> mining_template_supplier_bps uc" "mining_template_supplier_bps uc \<le> 10000"
  shows "unat (supplier_sats (supplier_share addr_script uc carousel v)) \<le> unat v"
proof -
  have b: "unat (word_of_int (mining_template_supplier_bps uc) :: u16) \<le> 10000"
    using assms by (simp add: unsigned_of_int take_bit_eq_mod nat_le_iff)
  have "unat v * unat (word_of_int (mining_template_supplier_bps uc) :: u16) div 10000 \<le> unat v"
    using mult_le_mono2 [OF b, of "unat v"] by (simp add: div_le_mono [of _ "unat v * 10000" 10000, simplified])
  then show ?thesis
    using unsigned_less [of v, where 'a = nat]
    by (auto simp: supplier_sats_def supplier_share_def Let_def unat_of_nat take_bit_eq_mod)
qed

lemma supplier_out_total: "out_total (supplier_out sp) \<le> unat (supplier_sats sp)"
  by (auto simp: supplier_out_def supplier_sats_def split: option.splits prod.splits)

lemma supplier_out_length: "length (supplier_out sp) \<le> 1"
  by (auto simp: supplier_out_def split: option.splits prod.splits)

lemma supplier_out_fit:
  "\<forall>a. length (addr_script a) \<le> 64 \<Longrightarrow> outs_fit (supplier_out (supplier_share addr_script uc carousel v))"
  by (auto simp: supplier_out_def supplier_share_def outs_fit_def Let_def)

lemma snapshot_out_ok:
  assumes "\<forall>x. h = Some x \<longrightarrow> length x = 32"
  shows "out_total (snapshot_out h) = 0" "length (snapshot_out h) \<le> 1" "outs_fit (snapshot_out h)"
  using assms by (auto simp: snapshot_out_def outs_fit_def CHIRP_SNAPSHOT_TAG_def split: option.splits)

text \<open>The candidates of the draw: those of the registry after the lazy start.\<close>

definition glue_candidates :: "env \<Rightarrow> (string \<Rightarrow> dbl) \<Rightarrow> alloc \<Rightarrow> u64 \<Rightarrow> saved_miner list option \<Rightarrow> glue \<Rightarrow> chirp_cand list" where
  "glue_candidates getenv atof alloc now db g =
     (let r = g_chirp (glue_ready alloc now db g)
      in fst (chirp_candidates getenv atof r now (chirp_env_or getenv atof ''CHIRP_MIN_DAYS'' CHIRP_MIN_DAYS)
           (chirp_env_or getenv atof ''CHIRP_MIN_POWER'' CHIRP_MIN_POWER) (if length (miners r) \<noteq> 0 then length (miners r) else 1)))"

text \<open>
  Numbers of a registry: no tenure is NaN and the work of every share is finite. JSON has only finite numbers, so a
  file always has them, and the calls of the gateway keep them.
\<close>

fun is_fin :: "dbl \<Rightarrow> bool" where
  "is_fin (Fin x) = True"
| "is_fin PInf = False"
| "is_fin NInf = False"
| "is_fin NaN = False"

definition miner_numeric :: "chirp_miner \<Rightarrow> bool" where
  "miner_numeric m \<longleftrightarrow> active_secs m \<noteq> NaN \<and> list_all (\<lambda>x. is_fin (work x)) (shares m)"

definition saved_numeric :: "saved_miner \<Rightarrow> bool" where
  "saved_numeric sm \<longleftrightarrow> is_fin (s_active_secs sm) \<and> list_all (\<lambda>p. case p of None \<Rightarrow> True | Some (_, wk) \<Rightarrow> is_fin wk) (s_shares sm)"

definition numeric :: "glue \<Rightarrow> saved_miner list option \<Rightarrow> bool" where
  "numeric g db \<longleftrightarrow> list_all miner_numeric (miners (g_chirp g)) \<and> (case db of None \<Rightarrow> True | Some sms \<Rightarrow> list_all saved_numeric sms)"

lemma is_fin_of_u64: "is_fin (of_u64 n)"
proof (cases "n = 0")
  case True
  then show ?thesis by (simp add: of_u64_def dbl_of_def)
next
  case False
  let ?x = "of_nat (unat n) :: rat"
  have x1: "1 \<le> ?x" using False by (metis One_nat_def Suc_leI of_nat_1 of_nat_le_iff unat_gt_0)
  have "pow2 (-1022) \<le> pow2 0" by (rule pow2_mono) simp
  then have r: "rnd ?x \<le> (1 + eps) * ?x" "0 < rnd ?x" using rnd_bounds [of ?x] x1 by simp_all
  have "?x < of_nat (2 ^ 64)" using unsigned_less [of n, where 'a = nat] by (simp only: of_nat_less_iff) simp
  moreover have "(1 + eps) * ?x \<le> 2 * ?x" using x1 by (intro mult_right_mono) (simp_all add: eps_def)
  ultimately have "rnd ?x < 2 ^ 65" using r(1) by simp
  moreover have "(2::rat) ^ 65 \<le> 2 ^ 1024" by (rule power_increasing) simp_all
  ultimately show ?thesis using r(2) by (simp add: of_u64_def dbl_of_Fin)
qed

lemma dbl_of_number [simp]: "dbl_of x \<noteq> NaN"
  by (simp add: dbl_of_def Let_def)

lemma dadd_number: "a \<noteq> NaN \<Longrightarrow> is_fin b \<Longrightarrow> dadd a b \<noteq> NaN"
  by (cases a; cases b) simp_all

lemma numeric_record:
  assumes "list_all miner_numeric (miners r)" "is_fin wk"
  shows "list_all miner_numeric (miners (chirp_record_share alloc r addr wk now))"
proof -
  have c: "miner_numeric (push_share alloc (credit_tenure m now) wk now)" if "miner_numeric m" for m
    using that assms(2) by (auto simp: miner_numeric_def push_share_def credit_tenure_def Let_def dadd_number is_fin_of_u64)
  have n: "miner_numeric (new_miner addr now)" by (simp add: miner_numeric_def new_miner_def)
  have f: "list_all miner_numeric (miners r') \<and> i < length (miners r')" if f: "find_or_add alloc r addr now = Some (i, r')" for i r'
    using f assms(1) n by (auto simp: find_or_add_def Let_def dest: find_addr_Some split: option.splits if_splits)
  show ?thesis
  proof (cases "find_or_add alloc r addr now")
    case None
    then show ?thesis using assms(1) by (simp add: chirp_record_share_def)
  next
    case (Some p)
    then obtain i r' where p: "find_or_add alloc r addr now = Some (i, r')" by (cases p) auto
    note f [OF p]
    then have "list_all miner_numeric ((miners r')[i := push_share alloc (credit_tenure (miners r' ! i) now) wk now])"
      using c [of "miners r' ! i"] set_update_subset_insert [of "miners r'" i] by (fastforce simp: list_all_iff)
    then show ?thesis using p by (simp add: chirp_record_share_def)
  qed
qed

lemma numeric_load_shares:
  "miner_numeric m \<Longrightarrow> list_all (\<lambda>p. case p of None \<Rightarrow> True | Some (_, wk) \<Rightarrow> is_fin wk) ps \<Longrightarrow>
    miner_numeric (load_shares alloc cutoff ps m)"
  by (induction alloc cutoff ps m rule: load_shares.induct) (auto simp: miner_numeric_def Let_def)

lemma numeric_load_one:
  assumes "list_all miner_numeric (miners r)" "saved_numeric sm"
  shows "list_all miner_numeric (miners (load_one alloc now sm r))"
proof -
  let ?r = "chirp_record_share alloc r (s_addr sm) (Fin 0) now"
  have r: "list_all miner_numeric (miners ?r)" using assms(1) by (rule numeric_record) simp
  have "miner_numeric (load_member alloc now sm m)" for m
    using assms(2) unfolding load_member_def Let_def
    by (intro numeric_load_shares) (cases "s_active_secs sm"; simp add: miner_numeric_def saved_numeric_def)+
  then have "list_all miner_numeric ((miners ?r)[i := load_member alloc now sm (miners ?r ! i)])" for i
    using r set_update_subset_insert [of "miners ?r" i] by (fastforce simp: list_all_iff)
  with r show ?thesis by (simp add: load_one_def Let_def split: option.split)
qed

lemma numeric_ready: "numeric g db \<Longrightarrow> list_all miner_numeric (miners (g_chirp (glue_ready alloc now db g)))"
proof -
  have f: "list_all saved_numeric sms \<Longrightarrow> list_all miner_numeric (miners r) \<Longrightarrow> list_all miner_numeric (miners (fold (load_one alloc now) sms r))" for sms r
    by (induction sms arbitrary: r) (simp_all add: numeric_load_one)
  assume "numeric g db"
  then show ?thesis using f [of _ chirp_init]
    by (auto simp: numeric_def glue_ready_def chirp_load_locked_def chirp_init_def split: option.splits)
qed

lemma numeric_glue_record: "numeric g db \<Longrightarrow> list_all miner_numeric (miners (g_chirp (chirp_glue_record alloc now db username diff g)))"
  by (simp add: chirp_glue_record_def Let_def numeric_record numeric_ready is_fin_of_u64) (simp add: numeric_def)

text \<open>
  Sane thresholds: what the environment sets (or the defaults) are numbers, the least tenure is at least \<open>2^-40\<close> days,
  the least work is not negative and full tenure is at most \<open>2^40\<close> days. A full value that is not positive is replaced
  by its default in the code.
\<close>

definition thresholds_sane :: "env \<Rightarrow> (string \<Rightarrow> dbl) \<Rightarrow> bool" where
  "thresholds_sane getenv atof \<longleftrightarrow>
     dle (Fin (1 / 2 ^ 40)) (chirp_env_or getenv atof ''CHIRP_MIN_DAYS'' CHIRP_MIN_DAYS)
     \<and> dle (Fin 0) (chirp_env_or getenv atof ''CHIRP_MIN_POWER'' CHIRP_MIN_POWER)
     \<and> dle (chirp_env_or getenv atof ''CHIRP_DAYS_FULL'' CHIRP_DAYS_FULL) (Fin (2 ^ 40))
     \<and> dlt (chirp_env_or getenv atof ''CHIRP_POWER_FULL'' CHIRP_POWER_FULL) PInf"

lemma rnd_nonneg: "0 \<le> x \<Longrightarrow> 0 \<le> rnd x"
proof -
  assume "0 \<le> x"
  then have "0 \<le> \<lfloor>x / pow2 (rnd_exp x)\<rfloor>" by simp
  then have "0 \<le> round_even (x / pow2 (rnd_exp x))" by (simp add: round_even_def Let_def)
  then show ?thesis by (simp add: rnd_def)
qed

lemma pow2_small: "1 / 2 ^ 200 \<le> x \<Longrightarrow> pow2 (-1022) \<le> x"
proof -
  have "pow2 (-1022) \<le> pow2 (-200)" by (rule pow2_mono) simp
  then show "1 / 2 ^ 200 \<le> x \<Longrightarrow> ?thesis" by (simp add: pow2_def)
qed

text \<open>A clamped ratio lies between 0 and 1, and it is no smaller than its least value but for rounding.\<close>

definition at_least :: "rat \<Rightarrow> dbl \<Rightarrow> bool" where
  "at_least a x \<longleftrightarrow> x = PInf \<or> (\<exists>q. x = Fin q \<and> a \<le> q)"

lemma at_least_not_dlt: "x \<noteq> NaN \<Longrightarrow> \<not> dlt x y \<Longrightarrow> dle (Fin a) y \<Longrightarrow> at_least a x"
  by (cases x; cases y) (auto simp: at_least_def dle_def)

lemma at_least_mono: "at_least a x \<Longrightarrow> b \<le> a \<Longrightarrow> at_least b x"
  by (auto simp: at_least_def)

lemma clamped_ratio:
  assumes "at_least a x" "0 \<le> a" "0 < b"
  shows "\<exists>y. clamp1 (ddiv x (Fin b)) = Fin y \<and> 0 \<le> y \<and> y \<le> 1"
proof (cases "x = PInf")
  case True
  then show ?thesis using assms(3) by (simp add: clamp1_def)
next
  case False
  then obtain q where q: "x = Fin q" "0 \<le> q" using assms(1,2) by (auto simp: at_least_def)
  have "0 \<le> rnd (q / b)" using q(2) assms(3) by (simp add: rnd_nonneg)
  then show ?thesis using q(1) assms(3) by (auto simp: clamp1_def dbl_of_def Let_def)
qed

lemma clamped_ratio_least:
  assumes "at_least (1 / 2 ^ 40) x" "0 < b" "b \<le> 2 ^ 40"
  shows "\<exists>y. clamp1 (ddiv x (Fin b)) = Fin y \<and> 1 / 2 ^ 81 \<le> y \<and> y \<le> 1"
proof (cases "x = PInf")
  case True
  then show ?thesis using assms(2) by (simp add: clamp1_def)
next
  case False
  then obtain q where q: "x = Fin q" "1 / 2 ^ 40 \<le> q" using assms(1) by (auto simp: at_least_def)
  have "1 / 2 ^ 40 / 2 ^ 40 \<le> q / b" using q(2) assms(2,3) by (intro frac_le) simp_all
  then have r: "1 / 2 ^ 80 \<le> q / b" by simp
  moreover have "(1::rat) / 2 ^ 200 \<le> 1 / 2 ^ 80" by simp
  ultimately have "1 / 2 ^ 200 \<le> q / b" by (rule order_trans [rotated])
  then have "(1 - eps) * (q / b) \<le> rnd (q / b)" by (intro rnd_bounds pow2_small)
  moreover have "(1 / 2) * (1 / 2 ^ 80) \<le> (1 - eps) * (q / b)" using r by (intro mult_mono) (simp_all add: eps_def)
  ultimately have "(1 / 2) * (1 / 2 ^ 80) \<le> rnd (q / b)" by (metis order_trans)
  then have "1 / 2 ^ 81 \<le> rnd (q / b)" by simp
  then show ?thesis using q(1) assms(2) by (auto simp: clamp1_def dbl_of_def Let_def)
qed

lemma dbl_of_small: "1 / 2 ^ 200 \<le> x \<Longrightarrow> x \<le> 2 \<Longrightarrow> \<exists>y. dbl_of x = Fin y \<and> x / 2 \<le> y \<and> y \<le> x * 9 / 8"
proof -
  assume x: "1 / 2 ^ 200 \<le> x" "x \<le> 2"
  note r = rnd_bounds [OF pow2_small [OF x(1)]]
  have p: "0 < x" using x(1) by (rule less_le_trans [rotated]) simp
  have lo: "(1 / 2) * x \<le> (1 - eps) * x" and hi: "(1 + eps) * x \<le> (9 / 8) * x"
    using p by (simp_all add: eps_def)
  have b1: "(1 / 2) * x \<le> rnd x" using lo r(1) by (rule order_trans)
  have b2: "rnd x \<le> (9 / 8) * x" using r(2) hi by (rule order_trans)
  have b: "x / 2 \<le> rnd x" "rnd x \<le> x * 9 / 8" using b1 b2 by simp_all
  have "(3::rat) < 2 ^ 1024" by (rule less_le_trans [of _ "2 ^ 2"]) (simp, rule power_increasing, simp_all)
  then have "\<bar>rnd x\<bar> < 2 ^ 1024" using r(3) b(2) x(2) by linarith
  then show ?thesis using b by (simp only: dbl_of_Fin) simp
qed

lemma make_cand_ok:
  assumes "at_least (1 / 2 ^ 40) days" "at_least 0 pwr" "0 < b" "b \<le> 2 ^ 40" "0 < c"
  shows "weight_ok (make_cand (Fin b) (Fin c) m days pwr) \<and> length (c_addr (make_cand (Fin b) (Fin c) m days pwr)) \<le> CHIRP_ADDR_MAX - 1"
proof -
  obtain y where y: "clamp1 (ddiv days (Fin b)) = Fin y" "1 / 2 ^ 81 \<le> y" "y \<le> 1"
    using clamped_ratio_least [OF assms(1,3,4)] by blast
  obtain z where z: "clamp1 (ddiv pwr (Fin c)) = Fin z" "0 \<le> z" "z \<le> 1"
    using clamped_ratio [OF assms(2) _ assms(5)] by auto
  have e: "(1::rat) / 2 ^ 200 \<le> e1 \<and> 1 / 2 ^ 100 \<le> e1 / 4" if "1 / 2 ^ 83 \<le> e1" for e1
  proof -
    have "(1::rat) / 2 ^ 200 \<le> 1 / 2 ^ 83" "(1::rat) / 2 ^ 98 \<le> 1 / 2 ^ 83" by simp_all
    with that have "1 / 2 ^ 200 \<le> e1" "1 / 2 ^ 98 \<le> e1" by (metis order_trans)+
    then show ?thesis by simp
  qed
  have y83: "4 * (1 / 2 ^ 83) \<le> y" using y(2) by simp
  define t where "t = (1::rat) / 2 ^ 83"
  have t: "0 < t" "4 * t \<le> y" using y83 by (simp_all add: t_def)
  have yz: "t \<le> y + z" "y + z \<le> 2" using y(3) z t by linarith+
  obtain s where s: "dbl_of (y + z) = Fin s" "(y + z) / 2 \<le> s" "s \<le> (y + z) * 9 / 8"
    using dbl_of_small [of "y + z"] e [OF yz(1) [unfolded t_def]] yz(2) by blast
  have "4 * t \<le> y + z" using t(2) z(2) by linarith
  then have "2 * t \<le> s" using s(2) by simp
  moreover have "s \<le> 9 / 4" using s(3) yz(2) by simp
  ultimately have s2: "t \<le> s / 2" "s / 2 \<le> 9 / 8" "s / 2 \<le> 2" by simp_all
  obtain w where w: "dbl_of (s / 2) = Fin w" "s / 2 / 2 \<le> w" "w \<le> s / 2 * 9 / 8"
    using dbl_of_small [of "s / 2"] e [OF s2(1) [unfolded t_def]] s2(3) by blast
  have "t / 2 \<le> w" using w(2) s2(1) by simp
  moreover have "w \<le> 2" using w(3) s2(2) by simp
  moreover have "1 / 2 ^ 100 \<le> t / 2" by (simp add: t_def)
  ultimately have "1 / 2 ^ 100 \<le> w" "w \<le> 2" by (metis order_trans)+
  with y z s w show ?thesis by (simp add: make_cand_def weight_ok_def wq_def)
qed

lemma window_work_number:
  assumes "list_all (\<lambda>x. is_fin (work x)) (shares m)"
  shows "fst (window_work m now) \<noteq> NaN"
proof -
  have f: "foldl dadd a xs \<noteq> NaN" if "a \<noteq> NaN" "list_all is_fin xs" for a xs
    using that by (induction xs arbitrary: a) (simp_all add: dadd_number)
  obtain w ss acc where l: "window_loop (window_cutoff now) (length (shares m)) 0 0 (shares m) (Fin 0) = (w, ss, acc)"
    by (metis prod_cases3)
  from window_loop_filter [OF _ _ l]
  have "acc = foldl dadd (Fin 0) (map work (filter (\<lambda>s. ts s \<ge> window_cutoff now) (shares m)))" by simp
  then have "acc \<noteq> NaN" using f [of "Fin 0"] assms by (simp add: list_all_iff)
  then show ?thesis by (simp add: window_work_def l)
qed

lemma cand_loop_cands_ok:
  assumes "list_all miner_numeric ms" "dle (Fin (1 / 2 ^ 40)) md" "dle (Fin 0) mp" "0 < b" "b \<le> 2 ^ 40" "0 < c"
  shows "cands_ok (fst (cand_loop now (Fin b) (Fin c) md mp room ms))"
  using assms
proof (induction now "Fin b" "Fin c" md mp room ms rule: cand_loop.induct)
  case (2 now md mp room m ms)
  obtain p m' where w: "window_work m now = (p, m')" by fastforce
  have p: "p \<noteq> NaN" using window_work_number [of m now] 2(3) w by (simp add: miner_numeric_def)
  let ?days = "ddiv (active_secs m) (Fin 86400)"
  have d: "?days \<noteq> NaN" using 2(3) by (cases "active_secs m") (simp_all add: miner_numeric_def)
  have c: "cands_ok [make_cand (Fin b) (Fin c) m' ?days p]" if "\<not> (dlt ?days md \<or> dlt p mp)"
    using make_cand_ok [of ?days p b c m'] that at_least_not_dlt [OF d _ 2(4)] at_least_not_dlt [OF p _ 2(5)] 2(6-8)
    by (simp add: cands_ok_def)
  show ?case
  proof (cases "room = 0")
    case False
    obtain cs ms1 where r1: "cand_loop now (Fin b) (Fin c) md mp room ms = (cs, ms1)" by fastforce
    obtain cs' ms2 where r2: "cand_loop now (Fin b) (Fin c) md mp (room - 1) ms = (cs', ms2)" by fastforce
    show ?thesis
    proof (cases "dlt ?days md \<or> dlt p mp")
      case True
      with 2(1) [OF False refl refl w [symmetric] True] 2(3-8) False w r1 show ?thesis by (simp add: Let_def)
    next
      case no: False
      with 2(2) [OF False refl refl w [symmetric] no] 2(3-8) False w r2 have "cands_ok cs'" by simp
      moreover have "fst (cand_loop now (Fin b) (Fin c) md mp room (m # ms)) = make_cand (Fin b) (Fin c) m' ?days p # cs'"
        using False no w r2 by (simp add: Let_def)
      ultimately show ?thesis using c [OF no] by (simp add: cands_ok_def)
    qed
  qed (simp add: cands_ok_def)
qed (simp add: cands_ok_def)

lemma full_value:
  assumes "dle (Fin lo) dflt" "0 < lo" "dlt dflt PInf" "dlt x PInf"
  shows "\<exists>b. (if dle x (Fin 0) then dflt else x) = Fin b \<and> 0 < b"
proof (cases "dle x (Fin 0)")
  case True
  then show ?thesis using assms(1-3) by (cases dflt) (auto simp: dle_def)
next
  case False
  then show ?thesis using assms(4) by (cases x) (auto simp: dle_def)
qed

text \<open>The candidates of a registry of numbers under sane thresholds have weights for which the split is exact.\<close>

lemma candidates_ok:
  assumes "numeric g db" "thresholds_sane getenv atof"
  shows "cands_ok (glue_candidates getenv atof alloc now db g)"
proof -
  let ?d = "chirp_env_or getenv atof ''CHIRP_DAYS_FULL'' CHIRP_DAYS_FULL"
  let ?p = "chirp_env_or getenv atof ''CHIRP_POWER_FULL'' CHIRP_POWER_FULL"
  have d: "dlt ?d PInf" "dle ?d (Fin (2 ^ 40))" "dlt ?p PInf"
    using assms(2) by (cases ?d; auto simp: thresholds_sane_def dle_def)+
  obtain b where b: "(if dle ?d (Fin 0) then CHIRP_DAYS_FULL else ?d) = Fin b" "0 < b"
    using full_value [of 30 CHIRP_DAYS_FULL ?d] d(1) by (auto simp: CHIRP_DAYS_FULL_def dle_def)
  obtain c where c: "(if dle ?p (Fin 0) then CHIRP_POWER_FULL else ?p) = Fin c" "0 < c"
    using full_value [of 1 CHIRP_POWER_FULL ?p] d(3) by (auto simp: CHIRP_POWER_FULL_def dle_def)
  have b40: "b \<le> 2 ^ 40" using b d(2) by (auto simp: CHIRP_DAYS_FULL_def dle_def split: if_splits)
  let ?r = "g_chirp (glue_ready alloc now db g)"
  have "cands_ok (fst (cand_loop now (Fin b) (Fin c) (chirp_env_or getenv atof ''CHIRP_MIN_DAYS'' CHIRP_MIN_DAYS)
      (chirp_env_or getenv atof ''CHIRP_MIN_POWER'' CHIRP_MIN_POWER) n (miners ?r)))" for n
    using assms(2) by (intro cand_loop_cands_ok numeric_ready assms(1) b(2) b40 c(2)) (simp_all add: thresholds_sane_def)
  then show ?thesis unfolding glue_candidates_def chirp_candidates_def Let_def b(1) c(1) by (simp add: case_prod_beta)
qed

text \<open>What the outputs promise the transaction maker: they are within the reward and leave the pool its fee of the part that is drawn for.\<close>

definition fill_ok :: "u64 \<Rightarrow> nat \<Rightarrow> u16 \<Rightarrow> cb_output list \<Rightarrow> bool" where
  "fill_ok cbv supplied bps outs \<longleftrightarrow>
     out_total outs + min (unat cbv - supplied) ((unat cbv - supplied) * unat bps div 10000) \<le> unat cbv
     \<and> length outs \<le> 500 \<and> outs_fit outs"

text \<open>The outputs written for a split of what the supplier leaves.\<close>

lemma written_outputs_ok:
  assumes sp: "sp = supplier_share addr_script uc carousel cbv" and le: "unat (supplier_sats sp) \<le> unat cbv"
    and p: "paid_ok (cbv - supplier_sats sp) bps cands ps pool"
    and h: "\<forall>x. h = Some x \<longrightarrow> length x = 32" and a: "\<forall>a. length (addr_script a) \<le> 64"
    and outs: "outs = (snapshot_out h @ supplier_out sp) @ payout_outs addr_script (length (snapshot_out h @ supplier_out sp)) ps"
  shows "fill_ok cbv (unat (supplier_sats sp)) bps outs"
proof -
  let ?tv = "cbv - supplier_sats sp" and ?k = "length (snapshot_out h @ supplier_out sp)"
  have tv: "unat ?tv = unat cbv - unat (supplier_sats sp)" using le by (simp add: unat_sub word_le_nat_alt)
  note H = snapshot_out_ok [OF h]
  have s: "out_total outs \<le> unat (supplier_sats sp) + sum_list (map (\<lambda>p. unat (sats p)) ps)"
    unfolding outs using H(1) supplier_out_total [of sp] payout_outs_total [of addr_script ?k ps] by simp
  have len: "length outs \<le> 500"
    unfolding outs using H(2) supplier_out_length [of sp] payout_outs_length [of ?k addr_script ps] by simp
  have fit: "outs_fit outs"
    using H(3) supplier_out_fit [OF a, of uc carousel cbv] payout_outs_scripts [OF a] by (simp add: outs sp outs_fit_def)
  have "sum_list (map (\<lambda>p. unat (sats p)) ps) + min (unat ?tv) (unat ?tv * unat bps div 10000) \<le> unat ?tv"
    using p unfolding paid_ok_def by linarith
  then have "out_total outs + min (unat ?tv) (unat ?tv * unat bps div 10000) \<le> unat cbv" using s tv le by linarith
  then show ?thesis using len fit by (simp add: fill_ok_def tv)
qed

text \<open>C23: for a reward of up to 2^43 satoshis, a registry and a file of numbers and sane thresholds the payout outputs are
  produced whenever the array of the winners, the one allocation the code does not check, is granted; whatever the other
  allocations do, their values with the pool's fee stay within the reward, and they are at most 500 with scripts of at
  most 64 bytes, as the transaction maker requires.
\<close>

theorem fill_outputs_within_reward:
  assumes "qsort_spec qs" "\<forall>a. length (addr_script a) \<le> 64" "\<forall>c ps t h. commit c ps t = Some h \<longrightarrow> length h = 32"
    and "unat cbv \<le> 2 ^ 43" "0 \<le> mining_template_supplier_bps uc" "mining_template_supplier_bps uc \<le> 10000"
    and "numeric g db" "thresholds_sane getenv atof" "\<forall>n. alloc_w n"
  shows "\<exists>outs g'. chirp_glue_fill_outputs qs powf getenv atof alloc alloc_w alloc_k addr_script commit now db uc bps cbv prevhash carousel g = Some (outs, g')
     \<and> fill_ok cbv (unat (supplier_sats (supplier_share addr_script uc carousel cbv))) (fee_of bps) outs"
proof (cases "cbv = 0")
  case True
  then show ?thesis by (simp add: chirp_glue_fill_outputs_def fill_ok_def outs_fit_def)
next
  case nz: False
  let ?g = "glue_ready alloc now db g"
  let ?n = "if length (miners (g_chirp ?g)) \<noteq> 0 then length (miners (g_chirp ?g)) else 1"
  show ?thesis
  proof (cases "alloc ?n")
    case False
    have "chirp_glue_fill_outputs qs powf getenv atof alloc alloc_w alloc_k addr_script commit now db uc bps cbv prevhash carousel g = Some ([], ?g)"
      unfolding chirp_glue_fill_outputs_def Let_def if_not_P [OF nz] if_P [OF False] by (rule refl)
    then show ?thesis by (auto simp: fill_ok_def outs_fit_def intro: order_trans [OF min.cobounded1])
  next
    case True
    define sp where "sp = supplier_share addr_script uc carousel cbv"
    have le: "unat (supplier_sats sp) \<le> unat cbv" unfolding sp_def using assms(5,6) by (rule supplier_share_le)
    define cands where "cands = glue_candidates getenv atof alloc now db g"
    obtain r' where r': "chirp_candidates getenv atof (g_chirp ?g) now (chirp_env_or getenv atof ''CHIRP_MIN_DAYS'' CHIRP_MIN_DAYS)
        (chirp_env_or getenv atof ''CHIRP_MIN_POWER'' CHIRP_MIN_POWER) ?n = (cands, r')"
      by (simp add: cands_def glue_candidates_def Let_def prod_eq_iff)
    have "unat (cbv - supplier_sats sp) \<le> 2 ^ 43" using le assms(4) by (simp add: unat_sub word_le_nat_alt)
    from chirp_split_paid [OF assms(1) candidates_ok [OF assms(7,8), of alloc now, folded cands_def] this, of alloc_w powf alloc_k "fee_of bps" "seed_of prevhash"]
    obtain ps pool where p: "chirp_split qs powf alloc_w alloc_k cands (cbv - supplier_sats sp) (fee_of bps) (seed_of prevhash) = Some (ps, pool)"
      "paid_ok (cbv - supplier_sats sp) (fee_of bps) cands ps pool" using assms(9) by blast
    define h where "h = (if chirp_snapshot_enabled getenv then commit cands ps pool else None)"
    have h: "\<forall>x. h = Some x \<longrightarrow> length x = 32" using assms(3) by (simp add: h_def)
    have "chirp_glue_fill_outputs qs powf getenv atof alloc alloc_w alloc_k addr_script commit now db uc bps cbv prevhash carousel g
        = Some ((snapshot_out h @ supplier_out sp) @ payout_outs addr_script (length (snapshot_out h @ supplier_out sp)) ps, ?g\<lparr>g_chirp := r'\<rparr>)"
      unfolding chirp_glue_fill_outputs_def Let_def if_not_P [OF nz] if_not_P [OF iffD2 [OF not_not True]] r' sp_def [symmetric]
        supplier_sats_def [symmetric] prod.case p(1) option.case h_def [symmetric] by (rule refl)
    with written_outputs_ok [OF sp_def le p(2) h assms(2) refl] show ?thesis by (simp add: sp_def)
  qed
qed

definition ex_glue :: glue where
  "ex_glue = \<lparr>g_chirp = \<lparr>miners = [\<lparr>m_addr = ''bc1qm'', first_seen = 1, last_seen = 60, active_secs = Fin 2592000,
      shares = [\<lparr>ts = 50, work = Fin 2000000000\<rparr>], cap_shares = 32\<rparr>], cap = 16\<rparr>, g_inited = True, g_last_save = 0\<rparr>"

theorem fill_outputs_within_reward_witness:
  "\<exists>outs g'. chirp_glue_fill_outputs insort_cmp (\<lambda>u e. u) (\<lambda>_. None) (\<lambda>_. Fin 0) (\<lambda>_. True) (\<lambda>_. True) (\<lambda>_. True) (\<lambda>_. [0x51]) (\<lambda>_ _ _. None) 100 None
       \<lparr>mining_blake2b_template = True, mining_blake2b_template_carousel = True, mining_template_supplier_address = [],
         mining_template_pool_bps = 100, mining_template_supplier_bps = 300\<rparr> 90 312500000 [] ''bc1qsup'' ex_glue = Some (outs, g')
     \<and> fill_ok 312500000 9375000 90 outs"
proof -
  let ?uc = "\<lparr>mining_blake2b_template = True, mining_blake2b_template_carousel = True, mining_template_supplier_address = [],
         mining_template_pool_bps = 100, mining_template_supplier_bps = 300\<rparr>"
  have n: "numeric ex_glue None" by (simp add: numeric_def ex_glue_def miner_numeric_def)
  have e: "thresholds_sane (\<lambda>_. None) (\<lambda>_. Fin 0)"
    by (simp add: thresholds_sane_def chirp_env_or_def CHIRP_MIN_DAYS_def CHIRP_MIN_POWER_def CHIRP_DAYS_FULL_def CHIRP_POWER_FULL_def dle_def)
  have s: "unat (supplier_sats (supplier_share (\<lambda>_. [0x51]) ?uc ''bc1qsup'' 312500000)) = 9375000" "fee_of 90 = 90"
    by (simp_all add: supplier_sats_def supplier_share_def fee_of_def)
  show ?thesis
    using fill_outputs_within_reward [of insort_cmp "\<lambda>_. [0x51]" "\<lambda>_ _ _. None" 312500000 ?uc, OF qsort_spec_insort_cmp _ _ _ _ _ n e,
       of "\<lambda>_. True" "\<lambda>u e. u" "\<lambda>_. True" "\<lambda>_. True" 100 90 "[]" "''bc1qsup''"] by (simp add: s)
qed

section \<open>The registry stays well formed\<close>

text \<open>
  The calls of the gateway, each one step under the lock, with every outcome of the allocator, the clock, the
  file and the environment.
\<close>

inductive glue_step :: "keyed qsort \<Rightarrow> (dbl \<Rightarrow> dbl \<Rightarrow> dbl) \<Rightarrow> (string \<Rightarrow> bytes) \<Rightarrow> glue \<Rightarrow> glue \<Rightarrow> bool"
  for qs powf addr_script where
  step_init: "glue_step qs powf addr_script g (chirp_glue_init alloc now db g)"
| step_record: "glue_step qs powf addr_script g (chirp_glue_record alloc now db username diff g)"
| step_save: "glue_step qs powf addr_script g (fst (chirp_glue_maybe_save now g))"
| step_fill: "chirp_glue_fill_outputs qs powf getenv atof alloc alloc_w alloc_k addr_script commit now db uc bps cbv prevhash carousel g = Some (outs, g')
    \<Longrightarrow> glue_step qs powf addr_script g g'"

definition glue_start :: glue where
  "glue_start = \<lparr>g_chirp = chirp_init, g_inited = False, g_last_save = 0\<rparr>"

lemma registry_ok_init: "registry_ok chirp_init"
  by (simp add: registry_ok_def chirp_init_def)

lemma load_shares_ok: "miner_ok m \<Longrightarrow> miner_ok (load_shares alloc cutoff ps m)"
  by (induction alloc cutoff ps m rule: load_shares.induct) (auto simp: miner_ok_def Let_def)

lemma load_member_ok: "miner_ok m \<Longrightarrow> miner_ok (load_member alloc now sm m)"
  unfolding load_member_def Let_def by (rule load_shares_ok) (auto simp: miner_ok_def)

lemma registry_ok_update:
  assumes "registry_ok r" "i < length (miners r)" "miner_ok m" "m_addr m = m_addr (miners r ! i)"
  shows "registry_ok (r\<lparr>miners := (miners r)[i := m]\<rparr>)"
proof -
  have "map m_addr ((miners r)[i := m]) = map m_addr (miners r)" using assms(2,4) by (simp add: map_update list_update_same_conv)
  then show ?thesis using assms set_update_subset_insert [of "miners r" i m] by (auto simp: registry_ok_def)
qed

lemma load_one_ok: "registry_ok r \<Longrightarrow> registry_ok (load_one alloc now sm r)"
proof -
  assume r: "registry_ok r"
  let ?r = "chirp_record_share alloc r (s_addr sm) (Fin 0) now"
  have ok: "registry_ok ?r" by (rule record_share_ok [OF r])
  show ?thesis
  proof (cases "find_addr (miners ?r) (s_addr sm) 0")
    case None
    then show ?thesis using ok by (simp add: load_one_def Let_def)
  next
    case (Some i)
    then have i: "i < length (miners ?r)" using find_addr_Some [OF Some] by simp
    then have "miner_ok (miners ?r ! i)" using ok by (simp add: registry_ok_def)
    from registry_ok_update [OF ok i load_member_ok [OF this] m_addr_load_member] Some show ?thesis by (simp add: load_one_def Let_def)
  qed
qed

lemma chirp_load_locked_ok: "registry_ok r \<Longrightarrow> registry_ok (chirp_load_locked alloc now db r)"
proof -
  have "registry_ok r \<Longrightarrow> registry_ok (fold (load_one alloc now) sms r)" for sms r
    by (induction sms arbitrary: r) (simp_all add: load_one_ok)
  then show "registry_ok r \<Longrightarrow> ?thesis" by (simp add: chirp_load_locked_def split: option.split)
qed

lemma glue_ready_ok: "registry_ok (g_chirp g) \<Longrightarrow> registry_ok (g_chirp (glue_ready alloc now db g))"
  by (simp add: glue_ready_def chirp_load_locked_ok registry_ok_init)

lemma window_work_ok: "miner_ok m \<Longrightarrow> window_work m now = (p, m') \<Longrightarrow> miner_ok m' \<and> m_addr m' = m_addr m"
proof -
  assume m: "miner_ok m" and w: "window_work m now = (p, m')"
  obtain w' ss' acc' where l: "window_loop (window_cutoff now) (length (shares m)) 0 0 (shares m) (Fin 0) = (w', ss', acc')"
    by (metis prod_cases3)
  with window_loop_filter [OF _ _ l] have "length (take w' ss') \<le> length (shares m)" by (auto simp: length_filter_le)
  with m w l show ?thesis by (auto simp: window_work_def miner_ok_def)
qed

lemma cand_loop_ok:
  "cand_loop now df pf md mp room ms = (cs, ms') \<Longrightarrow> \<forall>m \<in> set ms. miner_ok m
   \<Longrightarrow> map m_addr ms' = map m_addr ms \<and> (\<forall>m \<in> set ms'. miner_ok m)"
proof (induction now df pf md mp room ms arbitrary: cs ms' rule: cand_loop.induct)
  case (2 now df pf md mp room m ms)
  obtain p m' where w: "window_work m now = (p, m')" by fastforce
  with 2(4) have "miner_ok m'" "m_addr m' = m_addr m" by (auto dest: window_work_ok)
  with 2 w show ?case by (auto simp: Let_def split: if_splits prod.splits)
qed auto

lemma chirp_candidates_ok:
  assumes "chirp_candidates getenv atof r now md mp n = (cs, r')" "registry_ok r"
  shows "registry_ok r'"
proof -
  define df where "df = chirp_env_or getenv atof ''CHIRP_DAYS_FULL'' CHIRP_DAYS_FULL"
  define pf where "pf = chirp_env_or getenv atof ''CHIRP_POWER_FULL'' CHIRP_POWER_FULL"
  obtain cs' ms' where c: "cand_loop now (if dle df (Fin 0) then CHIRP_DAYS_FULL else df) (if dle pf (Fin 0) then CHIRP_POWER_FULL else pf)
      md mp n (miners r) = (cs', ms')" by fastforce
  have r': "r' = r\<lparr>miners := ms'\<rparr>"
    using assms(1) unfolding chirp_candidates_def Let_def df_def [symmetric] pf_def [symmetric] c by simp
  from cand_loop_ok [OF c] assms(2) have m: "map m_addr ms' = map m_addr (miners r)" "\<forall>m \<in> set ms'. miner_ok m"
    by (auto simp: registry_ok_def)
  have "length ms' = length (miners r)" using m(1) by (rule map_eq_imp_length_eq)
  then show ?thesis using assms(2) m(2) unfolding r' registry_ok_def by (simp add: m(1))
qed

lemma fill_outputs_ok:
  assumes "chirp_glue_fill_outputs qs powf getenv atof alloc alloc_w alloc_k addr_script commit now db uc bps cbv prevhash carousel g = Some (outs, g')"
    and "registry_ok (g_chirp g)"
  shows "registry_ok (g_chirp g')"
proof -
  let ?g = "glue_ready alloc now db g"
  have ok: "registry_ok (g_chirp ?g)" by (rule glue_ready_ok [OF assms(2)])
  let ?r = "g_chirp ?g"
  obtain cs r' where c: "chirp_candidates getenv atof ?r now (chirp_env_or getenv atof ''CHIRP_MIN_DAYS'' CHIRP_MIN_DAYS)
      (chirp_env_or getenv atof ''CHIRP_MIN_POWER'' CHIRP_MIN_POWER) (if length (miners ?r) \<noteq> 0 then length (miners ?r) else 1) = (cs, r')"
    by fastforce
  have "g' = g \<or> g' = ?g \<or> g' = ?g\<lparr>g_chirp := r'\<rparr>"
  proof (cases "cbv = 0")
    case True
    then show ?thesis using assms(1) by (simp add: chirp_glue_fill_outputs_def)
  next
    case nz: False
    note f = assms(1) [unfolded chirp_glue_fill_outputs_def Let_def c if_not_P [OF nz] prod.case]
    show ?thesis
    proof (cases "alloc (if length (miners ?r) \<noteq> 0 then length (miners ?r) else 1)")
      case True
      show ?thesis using f unfolding if_not_P [OF iffD2 [OF not_not True]] by (auto split: option.splits prod.splits)
    next
      case False
      show ?thesis using f unfolding if_P [OF False] by simp
    qed
  qed
  with chirp_candidates_ok [OF c ok] show ?thesis using ok assms(2) by auto
qed

lemma glue_step_ok: "glue_step qs powf addr_script g g' \<Longrightarrow> registry_ok (g_chirp g) \<Longrightarrow> registry_ok (g_chirp g')"
proof (induction rule: glue_step.induct)
  case (step_init g alloc now db)
  then show ?case by (simp add: chirp_glue_init_def glue_ready_ok)
next
  case (step_record g alloc now db username diff)
  then show ?case by (simp add: chirp_glue_record_def Let_def record_share_ok glue_ready_ok)
next
  case (step_save g now)
  then show ?case by (simp add: chirp_glue_maybe_save_def)
next
  case step_fill
  then show ?case using fill_outputs_ok by blast
qed

text \<open>C30: in every sequence of calls, with failing allocations, arbitrary clocks and an arbitrary file, the registry stays well formed: one member per address, addresses within their buffers, and no array beyond its capacity.\<close>

theorem glue_registry_wellformed:
  assumes "(glue_step qs powf addr_script)\<^sup>*\<^sup>* glue_start g"
  shows "registry_ok (g_chirp g)"
  using assms by (induction rule: rtranclp_induct) (auto simp: glue_start_def registry_ok_init dest: glue_step_ok)

theorem glue_registry_wellformed_witness:
  "registry_ok (g_chirp (chirp_glue_record (\<lambda>_. True) 200 None ''bc1qm.w1'' 1000 glue_start))"
  by (rule glue_registry_wellformed [of insort_cmp "\<lambda>u e. u" "\<lambda>_. []"]) (rule r_into_rtranclp, rule step_record)

end
