(* ===== verification/Json.thy ===== *)
theory Json
  imports Util Double
begin

text \<open>
  Text formats shared by the stratum server: parsed JSON values with the accessors the code calls on them
  (an absent or differently typed value is \<open>None\<close>, as \<^verbatim>\<open>NULL\<close> in the code; an object is the list of its members
  in order, with distinct keys), decimal and padded hexadecimal output, and \<^verbatim>\<open>strtoul\<close> for base 16 with a
  64-bit \<^verbatim>\<open>unsigned long\<close>.
\<close>

section \<open>JSON values\<close>

datatype json =
    JNull
  | JBool bool
  | JInt int
  | JReal dbl
  | JString string
  | JArray "json list"
  | JObject "(string \<times> json) list"

definition json_array_get :: "json \<Rightarrow> nat \<Rightarrow> json option" where
  "json_array_get j i = (case j of JArray xs \<Rightarrow> if i < length xs then Some (xs ! i) else None | _ \<Rightarrow> None)"

definition json_object_get :: "json \<Rightarrow> string \<Rightarrow> json option" where
  "json_object_get j key = (case j of JObject kvs \<Rightarrow> map_of kvs key | _ \<Rightarrow> None)"

definition json_string_value :: "json \<Rightarrow> string option" where
  "json_string_value j = (case j of JString s \<Rightarrow> Some s | _ \<Rightarrow> None)"

definition json_object_size :: "json \<Rightarrow> nat" where
  "json_object_size j = (case j of JObject kvs \<Rightarrow> length kvs | _ \<Rightarrow> 0)"

definition json_is_number :: "json \<Rightarrow> bool" where
  "json_is_number j = (case j of JInt _ \<Rightarrow> True | JReal _ \<Rightarrow> True | _ \<Rightarrow> False)"

definition json_number_value :: "json \<Rightarrow> dbl" where
  "json_number_value j = (case j of JInt i \<Rightarrow> dbl_of (of_int i) | JReal d \<Rightarrow> d | _ \<Rightarrow> Fin 0)"

text \<open>The string at a position of the parameters, as the handlers read it.\<close>

definition param_string :: "json \<Rightarrow> nat \<Rightarrow> string option" where
  "param_string params i = Option.bind (json_array_get params i) json_string_value"

section \<open>Numbers as text\<close>

fun dec_digits :: "nat \<Rightarrow> string" where
  "dec_digits n = (if n < 10 then [char_of (48 + n)] else dec_digits (n div 10) @ [char_of (48 + n mod 10)])"

declare dec_digits.simps [simp del]

definition quoted :: "string \<Rightarrow> string" where
  "quoted s = CHR 0x22 # s @ [CHR 0x22]"

section \<open>strtoul\<close>

definition hex_value :: "char \<Rightarrow> nat option" where
  "hex_value c = (if 48 \<le> code c \<and> code c \<le> 57 then Some (code c - 48)
     else if 97 \<le> code c \<and> code c \<le> 102 then Some (code c - 87)
     else if 65 \<le> code c \<and> code c \<le> 70 then Some (code c - 55) else None)"

definition is_space :: "char \<Rightarrow> bool" where
  "is_space c \<longleftrightarrow> c = CHR '' '' \<or> 9 \<le> code c \<and> code c \<le> 13"

fun hex_prefix :: "nat \<Rightarrow> string \<Rightarrow> nat" where
  "hex_prefix acc [] = acc"
| "hex_prefix acc (c # cs) = (case hex_value c of None \<Rightarrow> acc | Some d \<Rightarrow> hex_prefix (16 * acc + d) cs)"

definition skip_0x :: "string \<Rightarrow> string" where
  "skip_0x s = (if length s > 2 \<and> s ! 0 = CHR ''0'' \<and> (s ! 1 = CHR ''x'' \<or> s ! 1 = CHR ''X'') \<and> hex_value (s ! 2) \<noteq> None then drop 2 s else s)"

text \<open>A value out of range gives the largest one; a minus sign negates the result.\<close>

definition strtoul16 :: "string \<Rightarrow> u64" where
  "strtoul16 s =
     (let s = dropWhile is_space s;
          neg = (s \<noteq> [] \<and> s ! 0 = CHR ''-'');
          s = (if s \<noteq> [] \<and> (s ! 0 = CHR ''-'' \<or> s ! 0 = CHR ''+'') then drop 1 s else s);
          v = hex_prefix 0 (skip_0x s)
      in if v \<ge> 2 ^ 64 then -1 else if neg then - word_of_nat v else word_of_nat v)"

end
