(* ===== verification/Usermods.thy ===== *)
theory Usermods
  imports Json
begin

text \<open>
  User name modifiers: their configuration in \<^verbatim>\<open>src/src/datum_conf.c\<close> and the choice of the address a share
  is credited to in \<^verbatim>\<open>src/src/datum_stratum.c\<close>. The packed array of modifiers is the list of its entries, the
  ranges of one up to the terminating null address.
\<close>

section \<open>Configuration\<close>

record addr_range =
  range_addr :: string
  range_max :: u16

record username_mod =
  modname :: string
  ranges :: "addr_range list"

definition dceil :: "dbl \<Rightarrow> dbl" where
  "dceil d = (case d of Fin x \<Rightarrow> Fin (of_int \<lceil>x\<rceil>) | _ \<Rightarrow> d)"

text \<open>The first pass over the object: every member is null or an object of nonnegative numbers and nulls.\<close>

definition proportion_ok :: "json \<Rightarrow> bool" where
  "proportion_ok p \<longleftrightarrow> p = JNull \<or> json_is_number p \<and> \<not> dlt (json_number_value p) (Fin 0)"

definition moddefn_ok :: "json \<Rightarrow> bool" where
  "moddefn_ok d = (case d of JNull \<Rightarrow> True | JObject kvs \<Rightarrow> list_all (proportion_ok \<circ> snd) kvs | _ \<Rightarrow> False)"

text \<open>The bound of a range: \<open>None\<close> for a sum that does not give a single share number.\<close>

definition nonce_max_of :: "dbl \<Rightarrow> u16 option" where
  "nonce_max_of acc = (let d = dadd (dceil (dmul acc (Fin 65536))) (Fin (-1))
     in if dlt d (Fin 0) then None
        else if dlt (Fin 0xffff) d then Some 0xffff
        else Some (case d of Fin x \<Rightarrow> word_of_int \<lfloor>x\<rfloor> | _ \<Rightarrow> 0))"

fun parse_ranges :: "dbl \<Rightarrow> (string \<times> json) list \<Rightarrow> addr_range list" where
  "parse_ranges acc [] = []"
| "parse_ranges acc ((addr, p) # ps) =
     (if p = JNull then parse_ranges acc ps
      else let acc = dadd acc (json_number_value p)
           in case nonce_max_of acc of None \<Rightarrow> parse_ranges acc ps
              | Some nonce_max \<Rightarrow>
                  \<lparr>range_addr = addr, range_max = nonce_max\<rparr> # (if nonce_max = 0xffff then [] else parse_ranges acc ps))"

text \<open>The result of the parser, \<open>None\<close> for -1; \<open>Some []\<close> stands for the null pointer.\<close>

definition datum_config_parse_username_mods :: "json \<Rightarrow> username_mod list option" where
  "datum_config_parse_username_mods item =
     (if json_object_size item = 0 then (if item = JNull \<or> item = JObject [] then Some [] else None)
      else case item of
        JObject mods \<Rightarrow>
          if list_all (moddefn_ok \<circ> snd) mods
          then Some (concat (map (\<lambda>(name, d). case d of JObject kvs \<Rightarrow> [\<lparr>modname = name, ranges = parse_ranges (Fin 0) kvs\<rparr>] | _ \<Rightarrow> []) mods))
          else None
      | _ \<Rightarrow> None)"

fun datum_username_mods_find :: "username_mod list \<Rightarrow> string \<Rightarrow> username_mod option" where
  "datum_username_mods_find [] name = None"
| "datum_username_mods_find (u # us) name = (if name = modname u then Some u else datum_username_mods_find us name)"

section \<open>The name a share is credited to\<close>

text \<open>The first range that reaches the share's number.\<close>

definition pick_range :: "u16 \<Rightarrow> addr_range list \<Rightarrow> addr_range option" where
  "pick_range share_rnd rs = find (\<lambda>r. share_rnd \<le> range_max r) rs"

text \<open>
  \<open>name\<close> is the part before the tilde, so the tilde is at its length; the buffer has \<open>buf_sz\<close> bytes. A dot only
  after the tilde makes the length to copy negative, that is as large as the buffer: \<open>None\<close> is a copy from
  beyond the end of the user name.
\<close>

definition datum_stratum_mod_username :: "username_mod list \<Rightarrow> string \<Rightarrow> string \<Rightarrow> nat \<Rightarrow> u16 \<Rightarrow> string \<Rightarrow> string \<Rightarrow> string option" where
  "datum_stratum_mod_username umods pool_address username_s buf_sz share_rnd name mdname =
     (case datum_username_mods_find umods mdname of
        None \<Rightarrow> Some username_s
      | Some umod \<Rightarrow>
          (case pick_range share_rnd (ranges umod) of
             None \<Rightarrow> Some pool_address
           | Some rg \<Rightarrow>
               if range_addr rg = [] then Some (take (buf_sz - 1) name)
               else if length (range_addr rg) \<ge> buf_sz \<or> CHR ''.'' \<notin> set username_s then Some (range_addr rg)
               else let period = length (takeWhile (\<lambda>c. c \<noteq> CHR ''.'') username_s);
                        rest = drop period username_s;
                        max_len = buf_sz - length (range_addr rg) - 1
                    in if period \<le> length name then Some (range_addr rg @ take (min (length name - period) max_len) rest)
                       else if max_len \<le> length rest + 1 then Some (range_addr rg @ take max_len rest)
                       else None))"

text \<open>The step of the submission: a name with a tilde is modified.\<close>

definition modified_username :: "username_mod list \<Rightarrow> string \<Rightarrow> string \<Rightarrow> u16 \<Rightarrow> string option" where
  "modified_username umods pool_address username_s share_rnd =
     (if umods = [] \<or> CHR ''~'' \<notin> set username_s then Some username_s
      else let name = takeWhile (\<lambda>c. c \<noteq> CHR ''~'') username_s
           in datum_stratum_mod_username umods pool_address username_s 256 share_rnd name (drop (length name + 1) username_s))"

end
