(* ===== verification/Merkle.thy ===== *)
theory Merkle
  imports Hex
begin

text \<open>
  The merkle tree of a job in \<^verbatim>\<open>src/src/datum_stratum.c\<close>: the branches beside the path of the coinbase
  transaction, computed level by level in a fixed scratch array, and the root from the hash of a coinbase
  transaction. Double SHA-256, \<open>H\<close>, is an argument.
\<close>

section \<open>From the coinbase transaction to the root\<close>

definition stratum_job_merkle_root_calc :: "(bytes \<Rightarrow> bytes) \<Rightarrow> bytes list \<Rightarrow> bytes \<Rightarrow> bytes" where
  "stratum_job_merkle_root_calc H branches coinbase_txn_hash =
     fold (\<lambda>branch next. H (next @ branch)) branches coinbase_txn_hash"

section \<open>The branches\<close>

definition TEMPLIST_SIZE :: nat where "TEMPLIST_SIZE = 16384"

text \<open>
  Entry \<open>k\<close> of the current level: on the first level the coinbase transaction stands before the transactions
  of the template, on the others the level starts at \<open>cur\<close> in the scratch array. Entry 0 is never read.
\<close>

definition level_entry :: "bytes list \<Rightarrow> nat \<Rightarrow> nat \<Rightarrow> bytes list \<Rightarrow> nat \<Rightarrow> bytes" where
  "level_entry txids q cur mem k = (if q = 0 then txids ! (k - 1) else mem ! (cur + k))"

definition level_branch :: "bytes list \<Rightarrow> nat \<Rightarrow> nat \<Rightarrow> bool \<Rightarrow> nat \<Rightarrow> bytes list \<Rightarrow> bytes" where
  "level_branch txids q cur level_needs_dupe next_level_size mem =
     (if q = 0 then txids ! 0
      else if level_needs_dupe \<and> 0 = next_level_size - 1 then mem ! cur else mem ! (cur + 1))"

text \<open>The entries of the next level from \<open>i\<close> on, \<open>m\<close> of them; \<open>None\<close> is a write past the scratch array.\<close>

fun level_fill :: "(bytes \<Rightarrow> bytes) \<Rightarrow> bytes list \<Rightarrow> nat \<Rightarrow> nat \<Rightarrow> nat \<Rightarrow> bool \<Rightarrow> nat \<Rightarrow> nat \<Rightarrow> nat \<Rightarrow> bytes list \<Rightarrow> bytes list option" where
  "level_fill H txids q cur nxt dupe n 0 i mem = Some mem"
| "level_fill H txids q cur nxt dupe n (Suc m) i mem =
     (let combined = level_entry txids q cur mem (2 * i)
            @ (if dupe \<and> i = n - 1 then level_entry txids q cur mem (2 * i) else level_entry txids q cur mem (2 * i + 1))
      in if nxt + i \<ge> TEMPLIST_SIZE then None
         else level_fill H txids q cur nxt dupe n m (Suc i) (mem[nxt + i := H combined]))"

function merkle_levels :: "(bytes \<Rightarrow> bytes) \<Rightarrow> bytes list \<Rightarrow> nat \<Rightarrow> nat \<Rightarrow> nat \<Rightarrow> nat \<Rightarrow> bytes list \<Rightarrow> bytes list option" where
  "merkle_levels H txids q lsz cur nxt mem =
     (if lsz > 1
      then let dupe = (lsz mod 2 \<noteq> 0);
               n = (if dupe then lsz + 1 else lsz) div 2
           in case level_fill H txids q cur nxt dupe n (n - 1) 1 mem of None \<Rightarrow> None
              | Some mem' \<Rightarrow> map_option ((#) (level_branch txids q cur dupe n mem)) (merkle_levels H txids (Suc q) n nxt (nxt + n + 1) mem')
      else Some [])"
  by pat_completeness auto
termination by (relation "measure (\<lambda>(_, _, _, lsz, _). lsz)") auto

declare merkle_levels.simps [simp del]

text \<open>
  \<open>templist\<close> is the content the scratch array happens to have. More than 16383 transactions panic, which
  ends the process; a write past the scratch array is undefined behaviour.
\<close>

datatype branches_result = Branches "bytes list" | Too_Many_Txns_Panic | Scratch_Overrun

definition stratum_calculate_merkle_branches :: "(bytes \<Rightarrow> bytes) \<Rightarrow> bytes list \<Rightarrow> bytes list \<Rightarrow> branches_result" where
  "stratum_calculate_merkle_branches H txids templist =
     (if length txids > 16383 then Too_Many_Txns_Panic
      else if txids = [] then Branches []
      else case merkle_levels H txids 0 (length txids + 1) 0 0 templist of
             None \<Rightarrow> Scratch_Overrun
           | Some bs \<Rightarrow> Branches bs)"

text \<open>What the caller goes on with: neither of the two failures returns to it.\<close>

fun returned_branches :: "branches_result \<Rightarrow> bytes list option" where
  "returned_branches (Branches bs) = Some bs"
| "returned_branches Too_Many_Txns_Panic = None"
| "returned_branches Scratch_Overrun = None"

text \<open>The text of the branches in a notification: the first is copied from the template, byte by byte reversed.\<close>

definition reverse_pairs :: "string \<Rightarrow> string" where
  "reverse_pairs hex = concat (map (\<lambda>j. take 2 (drop ((31 - j) * 2) hex)) [0..<32])"

definition merklebranches_hex :: "string \<Rightarrow> bytes list \<Rightarrow> string list" where
  "merklebranches_hex txid_hex bs = (case bs of [] \<Rightarrow> [] | b # bs \<Rightarrow> reverse_pairs txid_hex # map hash2hex bs)"

fun join_comma :: "string list \<Rightarrow> string" where
  "join_comma [] = ''''"
| "join_comma [s] = s"
| "join_comma (s # ss) = s @ '','' @ join_comma ss"

definition merklebranches_full :: "string list \<Rightarrow> string" where
  "merklebranches_full hs = ''['' @ join_comma (map (\<lambda>h. CHR 0x22 # h @ [CHR 0x22]) hs) @ '']''"

section \<open>The tree itself\<close>

text \<open>A level of the tree from the one below; an odd last entry is paired with itself.\<close>

fun pair_level :: "(bytes \<Rightarrow> bytes) \<Rightarrow> bytes list \<Rightarrow> bytes list" where
  "pair_level H (x # y # zs) = H (x @ y) # pair_level H zs"
| "pair_level H [x] = [H (x @ x)]"
| "pair_level H [] = []"

lemma length_pair_level: "length (pair_level H xs) = (length xs + 1) div 2"
  by (induction H xs rule: pair_level.induct) auto

function merkle_root :: "(bytes \<Rightarrow> bytes) \<Rightarrow> bytes list \<Rightarrow> bytes" where
  "merkle_root H xs = (if length xs \<le> 1 then hd xs else merkle_root H (pair_level H xs))"
  by pat_completeness auto
termination by (relation "measure (\<lambda>(_, xs). length xs)") (auto simp: length_pair_level)

declare merkle_root.simps [simp del]

lemma nth_pair_level:
  "i < length (pair_level H xs) \<Longrightarrow> pair_level H xs ! i
     = H (xs ! (2 * i) @ (if 2 * i + 1 < length xs then xs ! (2 * i + 1) else xs ! (2 * i)))"
proof (induction H xs arbitrary: i rule: pair_level.induct)
  case (1 H x y zs)
  then show ?case by (cases i) auto
qed auto

section \<open>The branches give the root\<close>

text \<open>The entries of a level except the first.\<close>

definition level_at :: "bytes list \<Rightarrow> nat \<Rightarrow> nat \<Rightarrow> bytes list \<Rightarrow> bytes list \<Rightarrow> bool" where
  "level_at txids q cur mem lvl \<longleftrightarrow> (\<forall>k. 1 \<le> k \<and> k < length lvl \<longrightarrow> level_entry txids q cur mem k = lvl ! k)"

lemma level_entry_write: "q = 0 \<or> cur + k < p \<Longrightarrow> level_entry txids q cur (mem[p := v]) k = level_entry txids q cur mem k"
  by (auto simp: level_entry_def)

lemma level_fill_spec:
  assumes "level_at txids q cur mem lvl" and "q = 0 \<or> cur + length lvl \<le> nxt"
    and "n = (length lvl + 1) div 2" and "dupe = odd (length lvl)" and "i + m = n" and "1 \<le> i"
    and "nxt + n \<le> TEMPLIST_SIZE" and "length mem = TEMPLIST_SIZE"
  shows "\<exists>mem'. level_fill H txids q cur nxt dupe n m i mem = Some mem' \<and> length mem' = TEMPLIST_SIZE
    \<and> (\<forall>k. i \<le> k \<and> k < n \<longrightarrow> mem' ! (nxt + k) = pair_level H lvl ! k) \<and> (\<forall>j < nxt + i. mem' ! j = mem ! j)"
  using assms
proof (induction H txids q cur nxt dupe n m i mem rule: level_fill.induct)
  case (1 H txids q cur nxt dupe n i mem)
  then show ?case by auto
next
  case (2 H txids q cur nxt dupe n m i mem)
  note A = 2(2-)
  let ?c = "level_entry txids q cur mem (2 * i) @ (if dupe \<and> i = n - 1 then level_entry txids q cur mem (2 * i) else level_entry txids q cur mem (2 * i + 1))"
  let ?mem = "mem[nxt + i := H ?c]"
  have i: "i < n" and l: "2 * i < length lvl" using A(3,5) by linarith+
  have dup: "dupe \<and> i = n - 1 \<longleftrightarrow> \<not> 2 * i + 1 < length lvl"
  proof -
    have "2 * i + 1 < length lvl \<or> 2 * i + 1 = length lvl" using l by linarith
    moreover have "2 * n = length lvl + (if odd (length lvl) then 1 else 0)" unfolding A(3) by (auto elim: oddE)
    ultimately have "odd (length lvl) \<and> i = n - 1 \<longleftrightarrow> \<not> 2 * i + 1 < length lvl" using i by (auto split: if_splits)
    then show ?thesis using A(4) by simp
  qed
  have e: "level_entry txids q cur mem (2 * i) = lvl ! (2 * i)" using A(1) l A(6) by (simp add: level_at_def)
  have e': "2 * i + 1 < length lvl \<Longrightarrow> level_entry txids q cur mem (2 * i + 1) = lvl ! (2 * i + 1)"
    using A(1) unfolding level_at_def by (metis le_add2)
  have v: "H ?c = pair_level H lvl ! i"
    using i A(3) dup e e' by (auto simp: nth_pair_level length_pair_level)
  have lvl': "level_at txids q cur ?mem lvl"
    using A(1,2) unfolding level_at_def by (auto simp: level_entry_write)
  have fit: "nxt + i < TEMPLIST_SIZE" using i A(7) by linarith
  obtain mem' where m: "level_fill H txids q cur nxt dupe n m (Suc i) ?mem = Some mem'" "length mem' = TEMPLIST_SIZE"
    "\<forall>k. Suc i \<le> k \<and> k < n \<longrightarrow> mem' ! (nxt + k) = pair_level H lvl ! k" "\<forall>j < nxt + Suc i. mem' ! j = ?mem ! j"
    using 2(1) [OF refl _ lvl' A(2,3,4) _ _ A(7)] fit A(5,8) by auto
  have "mem' ! (nxt + i) = H ?c" using m(4) fit A(8) by simp
  then have "\<forall>k. i \<le> k \<and> k < n \<longrightarrow> mem' ! (nxt + k) = pair_level H lvl ! k"
    using m(3) v by (metis Suc_leI le_neq_implies_less)
  moreover have "level_fill H txids q cur nxt dupe n (Suc m) i mem = Some mem'" using m(1) fit by (simp add: Let_def)
  moreover have "\<forall>j < nxt + i. mem' ! j = mem ! j" using m(4) by simp
  ultimately show ?case using m(2) by blast
qed

lemma stratum_job_merkle_root_calc_Cons:
  "stratum_job_merkle_root_calc H (b # bs) x = stratum_job_merkle_root_calc H bs (H (x @ b))"
  by (simp add: stratum_job_merkle_root_calc_def)

text \<open>A level of at most \<open>2 ^ p\<close> entries needs at most its length and \<open>2 * p\<close> more places of the scratch array.\<close>

lemma merkle_levels_spec:
  assumes "level_at txids q cur mem lvl" and "q = 0 \<or> cur + length lvl \<le> nxt" and "lvl \<noteq> []"
    and "length lvl \<le> 2 ^ p" and "nxt + length lvl + 2 * p \<le> TEMPLIST_SIZE" and "length mem = TEMPLIST_SIZE"
  shows "\<exists>bs. merkle_levels H txids q (length lvl) cur nxt mem = Some bs \<and> length bs \<le> p
    \<and> stratum_job_merkle_root_calc H bs (lvl ! 0) = merkle_root H lvl"
  using assms
proof (induction p arbitrary: q cur nxt mem lvl)
  case 0
  then have "length lvl = 1" by (cases lvl) auto
  then show ?case by (cases lvl) (auto simp: merkle_levels.simps merkle_root.simps stratum_job_merkle_root_calc_def)
next
  case (Suc p)
  show ?case
  proof (cases "length lvl = 1")
    case True
    then show ?thesis by (cases lvl) (auto simp: merkle_levels.simps merkle_root.simps stratum_job_merkle_root_calc_def)
  next
    case False
    then have gt: "length lvl > 1" using Suc.prems(3) by (cases lvl) auto
    define n where "n = (length lvl + 1) div 2"
    have n: "(if length lvl mod 2 \<noteq> 0 then length lvl + 1 else length lvl) div 2 = n" unfolding n_def by presburger
    have n1: "1 \<le> n" "2 * n \<le> length lvl + 1" using gt by (simp_all add: n_def)
    have room: "nxt + n \<le> TEMPLIST_SIZE" using Suc.prems(5) n1(2) gt by linarith
    obtain mem' where m: "level_fill H txids q cur nxt (length lvl mod 2 \<noteq> 0) n (n - 1) 1 mem = Some mem'" "length mem' = TEMPLIST_SIZE"
      "\<forall>k. 1 \<le> k \<and> k < n \<longrightarrow> mem' ! (nxt + k) = pair_level H lvl ! k"
      using level_fill_spec [OF Suc.prems(1,2) n_def, of "length lvl mod 2 \<noteq> 0" 1 "n - 1" H] n1 room Suc.prems(6)
      by (auto simp: odd_iff_mod_2_eq_one)
    have len: "length (pair_level H lvl) = n" by (simp add: length_pair_level n_def)
    have branch: "level_branch txids q cur (length lvl mod 2 \<noteq> 0) n mem = lvl ! 1"
    proof -
      have "level_entry txids q cur mem 1 = lvl ! 1" using Suc.prems(1) gt by (simp add: level_at_def)
      moreover have "\<not> (length lvl mod 2 \<noteq> 0 \<and> 0 = n - 1)" using gt unfolding n_def by presburger
      ultimately show ?thesis by (auto simp: level_branch_def level_entry_def)
    qed
    have "n \<le> 2 ^ p" using Suc.prems(4) n1(2) by simp
    moreover have "level_at txids (Suc q) nxt mem' (pair_level H lvl)" using m(3) len by (simp add: level_at_def level_entry_def)
    moreover have "pair_level H lvl \<noteq> []" using len n1(1) by (metis list.size(3) not_one_le_zero)
    moreover have "nxt + n + 1 + n + 2 * p \<le> TEMPLIST_SIZE" using Suc.prems(5) n1(2) by simp
    ultimately obtain bs where bs: "merkle_levels H txids (Suc q) n nxt (nxt + n + 1) mem' = Some bs" "length bs \<le> p"
      "stratum_job_merkle_root_calc H bs (pair_level H lvl ! 0) = merkle_root H (pair_level H lvl)"
      using Suc.IH [of "Suc q" nxt mem' "pair_level H lvl" "nxt + n + 1"] m(2) len by auto
    have "pair_level H lvl ! 0 = H (lvl ! 0 @ lvl ! 1)" using nth_pair_level [of 0 H lvl] len n1(1) gt by simp
    moreover have "merkle_root H lvl = merkle_root H (pair_level H lvl)" using gt by (subst merkle_root.simps) simp
    moreover have "merkle_levels H txids q (length lvl) cur nxt mem = Some (lvl ! 1 # bs)"
      using gt m(1) bs(1) branch by (subst merkle_levels.simps) (simp only: if_True Let_def n option.case option.map)
    ultimately show ?thesis using bs by (simp add: stratum_job_merkle_root_calc_Cons)
  qed
qed

text \<open>C14: for up to 16355 transactions the branches are computed, at most 14 of them, and from the hash of any coinbase transaction they give the root of the merkle tree over it and the transactions.\<close>

theorem merkle_branches_root:
  assumes "length txids \<le> 16355" and "length templist = TEMPLIST_SIZE"
  shows "\<exists>bs. stratum_calculate_merkle_branches H txids templist = Branches bs \<and> length bs \<le> 14
    \<and> (\<forall>cb. stratum_job_merkle_root_calc H bs cb = merkle_root H (cb # txids))"
proof (cases "txids = []")
  case True
  then show ?thesis by (simp add: stratum_calculate_merkle_branches_def stratum_job_merkle_root_calc_def merkle_root.simps)
next
  case False
  have spec: "\<exists>bs. merkle_levels H txids 0 (length txids + 1) 0 0 templist = Some bs \<and> length bs \<le> 14
      \<and> stratum_job_merkle_root_calc H bs cb = merkle_root H (cb # txids)" for cb
  proof -
    have "level_at txids 0 0 templist (cb # txids)" by (simp add: level_at_def level_entry_def nth_Cons')
    from merkle_levels_spec [OF this, of 0 14 H] assms show ?thesis by (simp add: TEMPLIST_SIZE_def)
  qed
  then obtain bs where bs: "merkle_levels H txids 0 (length txids + 1) 0 0 templist = Some bs" "length bs \<le> 14" by blast
  moreover have "stratum_job_merkle_root_calc H bs cb = merkle_root H (cb # txids)" for cb using spec [of cb] bs(1) by auto
  moreover have "stratum_calculate_merkle_branches H txids templist = Branches bs"
    using False assms(1) bs(1) by (simp add: stratum_calculate_merkle_branches_def)
  ultimately show ?thesis by blast
qed

text \<open>The witness: with the hash that keeps the last byte of each half, three transactions.\<close>

theorem merkle_branches_root_witness:
  "stratum_job_merkle_root_calc (\<lambda>b. drop (length b - 2) b)
     (the (returned_branches (stratum_calculate_merkle_branches (\<lambda>b. drop (length b - 2) b) [[1], [2], [3]] (replicate TEMPLIST_SIZE [])))) [9]
   = merkle_root (\<lambda>b. drop (length b - 2) b) [[9], [1], [2], [3]]"
  using merkle_branches_root [of "[[1], [2], [3]]" "replicate TEMPLIST_SIZE []" "\<lambda>b. drop (length b - 2) b"] by auto

section \<open>The scratch array is too short\<close>

fun scratch_over :: "nat \<Rightarrow> nat \<Rightarrow> nat \<Rightarrow> bool" where
  "scratch_over 0 lsz nxt = False"
| "scratch_over (Suc d) lsz nxt =
     (let n = (lsz + 1) div 2 in lsz > 1 \<and> (n > 1 \<and> nxt + n > TEMPLIST_SIZE \<or> scratch_over d n (nxt + n + 1)))"

lemma level_fill_over: "0 < m \<Longrightarrow> nxt + i + m > TEMPLIST_SIZE \<Longrightarrow> level_fill H txids q cur nxt dupe n m i mem = None"
  by (induction H txids q cur nxt dupe n m i mem rule: level_fill.induct) (auto simp: Let_def)

lemma merkle_levels_over:
  "scratch_over d lsz nxt \<Longrightarrow> merkle_levels H txids q lsz cur nxt mem = None"
proof (induction d arbitrary: lsz q cur nxt mem)
  case (Suc d)
  define n where "n = (lsz + 1) div 2"
  have gt: "lsz > 1" using Suc.prems by (simp add: Let_def)
  have n: "(if lsz mod 2 \<noteq> 0 then lsz + 1 else lsz) div 2 = n" unfolding n_def by presburger
  have step: "merkle_levels H txids q lsz cur nxt mem =
     (case level_fill H txids q cur nxt (lsz mod 2 \<noteq> 0) n (n - 1) 1 mem of None \<Rightarrow> None
      | Some mem' \<Rightarrow> map_option ((#) (level_branch txids q cur (lsz mod 2 \<noteq> 0) n mem)) (merkle_levels H txids (Suc q) n nxt (nxt + n + 1) mem'))"
    using gt by (subst merkle_levels.simps) (simp only: if_True Let_def n)
  from Suc.prems consider "n > 1" "nxt + n > TEMPLIST_SIZE" | "scratch_over d n (nxt + n + 1)" by (auto simp: Let_def n_def)
  then show ?case
  proof cases
    case 1
    then show ?thesis unfolding step by (simp add: level_fill_over)
  next
    case 2
    then show ?thesis unfolding step using Suc.IH [OF 2] by (simp split: option.split)
  qed
qed simp

lemma scratch_over_numeral:
  "scratch_over (numeral d) lsz nxt =
     (lsz > 1 \<and> ((lsz + 1) div 2 > 1 \<and> nxt + (lsz + 1) div 2 > TEMPLIST_SIZE
        \<or> scratch_over (pred_numeral d) ((lsz + 1) div 2) (nxt + (lsz + 1) div 2 + 1)))"
  unfolding numeral_eq_Suc [of d] by (simp add: Let_def)

text \<open>
  With 16383 transactions, the largest number the function accepts, it writes past its scratch array; one
  more would have been refused.
\<close>

theorem merkle_branches_overflow:
  assumes "length txids = 16383"
  shows "stratum_calculate_merkle_branches H txids templist = Scratch_Overrun"
proof -
  have "scratch_over 14 16384 0" by (simp add: TEMPLIST_SIZE_def scratch_over_numeral)
  then have "merkle_levels H txids 0 16384 0 0 templist = None" by (rule merkle_levels_over)
  then show ?thesis using assms by (auto simp: stratum_calculate_merkle_branches_def)
qed

theorem merkle_branches_overflow_witness:
  "stratum_calculate_merkle_branches (\<lambda>b. b) (replicate 16383 [7]) (replicate 16384 []) = Scratch_Overrun"
  by (rule merkle_branches_overflow) simp

end
