(* ===== verification/Stratum.thy ===== *)
theory Stratum
  imports Merkle Pow Coinbase Base58 Usermods Dupes
begin

text \<open>
  The connections of the stratum server, \<^verbatim>\<open>src/src/datum_stratum.c\<close>: jobs, the state of a miner, replies and
  errors, difficulty adjustment, notifications and the handshake. A connection is its miner data and its send
  buffer, text of at most \<^verbatim>\<open>CLIENT_BUFFER\<close> characters; \<open>now\<close> is the loop's clock \<^verbatim>\<open>loop_tsms\<close>.
\<close>

section \<open>Data\<close>

record txn =
  x_txid_hex :: string
  x_txid_bin :: bytes
  x_hash_hex :: string
  x_hash_bin :: bytes
  x_size :: u32
  x_weight :: u32
  x_fee_sats :: u64
  x_sigops :: u32
  x_data_hex :: string
  x_data_binary :: bytes

record template =
  t_coinbasevalue :: u64
  t_mintime :: u64
  t_curtime :: u64
  t_sizelimit :: u64
  t_weightlimit :: u64
  t_height :: u32
  t_version :: u32
  t_sigoplimit :: u32
  t_bits :: string
  t_bits_bin :: bytes
  t_bits_uint :: u32
  t_previousblockhash :: string
  t_previousblockhash_bin :: bytes
  t_default_witness_commitment :: string
  t_default_witness_commitment_bin :: bytes
  t_block_target_hex :: string
  t_block_target :: bytes
  t_header_version :: nat
  t_header_transaction_count :: u32
  t_header_flags :: u8
  t_header_time_offset :: u32
  t_clear_bits :: u8
  t_xor_key :: bytes
  t_merge_mining_rhs :: bytes
  t_blake2b_headline :: bytes
  t_txn_total_weight :: u32
  t_txn_total_size :: u32
  t_txn_total_sigops :: u32
  t_txns :: "txn list"

abbreviation t_txids :: "template \<Rightarrow> bytes list" where
  "t_txids t \<equiv> map x_txid_bin (t_txns t)"

abbreviation t_txn_data_hex :: "template \<Rightarrow> string list" where
  "t_txn_data_hex t \<equiv> map x_data_hex (t_txns t)"

text \<open>A coinbase transaction in two pieces, as text and as bytes.\<close>

record coinbase =
  coinb1_text :: string
  coinb2_text :: string
  coinb1_bin :: bytes
  coinb2_bin :: bytes

record stratum_job =
  j_global_index :: nat
  j_job_id :: string
  j_prevhash :: string
  j_prevhash_bin :: bytes
  j_version :: string
  j_version_uint :: u32
  j_nbits :: string
  j_nbits_bin :: bytes
  j_nbits_uint :: u32
  j_ntime :: string
  j_block_target :: bytes
  j_blake2b_commitment :: bytes
  j_blake2b_sia_prevhash :: bytes
  j_blake2b_sia_coinb1 :: bytes
  j_blake2b_time_on_wire :: u32
  j_template :: template
  j_merklebranches_bin :: "bytes list"
  j_merklebranches_full :: string
  j_coinbase :: "coinbase list"
  j_subsidy_only_coinbase :: coinbase
  j_target_pot_index :: nat
  j_blake2b_coinbase_index :: nat
  j_height :: u64
  j_tsms :: u64
  j_is_stale_prevblock :: bool
  j_is_datum_job :: bool
  j_job_state :: nat
  j_need_coinbaser :: bool
  j_is_new_block :: bool
  j_enprefix :: u16
  j_coinbase_value :: u64
  j_pool_addr_script :: bytes
  j_carousel_supplier :: string
  j_carousel_supplier_name :: string
  j_datum_job_idx :: u8

record user_stats =
  us_active_index :: bool
  us_last_swap_tsms :: u64
  us_last_swap_ms :: u64
  us_diff_accepted :: "u64 \<times> u64"
  us_last_share_tsms :: u64

record miner =
  m_sid :: u32
  m_sid_inv :: u32
  m_request_id_json :: string
  m_useragent :: string
  m_last_auth_username :: string
  m_version_rolling :: bool
  m_version_rolling_mask :: u32
  m_authorized :: bool
  m_subscribed :: bool
  m_subscribe_tsms :: u64
  m_last_sent_diff :: u64
  m_current_diff :: u64
  m_job_targets :: "nat \<Rightarrow> bytes"
  m_job_diffs :: "nat \<Rightarrow> u64"
  m_coinbase_selection :: nat
  m_share_diff_accepted :: u64
  m_share_count_accepted :: u64
  m_share_diff_rejected :: u64
  m_share_count_rejected :: u64
  m_share_count_since_snap :: u64
  m_share_diff_since_snap :: u64
  m_share_snap_tsms :: u64
  m_quickdiff_active :: bool
  m_quickdiff_value :: u64
  m_quickdiff_target :: bytes
  m_forced_high_min_diff :: u64
  m_last_sent_job_index :: nat
  m_has_user_addr :: bool
  m_user_script :: bytes
  m_user_commitment :: bytes
  m_user_sia_coinb1 :: bytes
  m_user_commit_job_index :: "nat option"
  m_connect_tsms :: u64
  m_stats :: user_stats

record stratum_conf =
  vardiff_min :: u64
  vardiff_quickdiff_count :: u64
  vardiff_quickdiff_delta :: u64
  vardiff_target_shares_min :: u64
  override_vardiff_min :: u64
  share_stale_seconds :: u64
  work_update_seconds :: u64
  fingerprint_miners :: bool
  personal_lotto :: bool
  blake2b_chirp :: bool
  username_mods :: "username_mod list"
  pool_address :: string

definition MAX_COINBASE_TYPES :: nat where "MAX_COINBASE_TYPES = 6"
definition STRATUM_JOB_INDEX_XOR :: u16 where "STRATUM_JOB_INDEX_XOR = 0xC0DE"
definition CLIENT_BUFFER :: nat where "CLIENT_BUFFER = 50176"
definition JOB_STATE_FULL_PRIORITY_WAIT_COINBASER :: nat where "JOB_STATE_FULL_PRIORITY_WAIT_COINBASER = 4"
definition STAT_CYCLE_MS :: u64 where "STAT_CYCLE_MS = 60000"

record conn =
  miner :: miner
  w_buffer :: string

section \<open>Sending\<close>

text \<open>A text that does not fit is dropped as a whole.\<close>

definition datum_socket_send_string_to_client :: "string \<Rightarrow> conn \<Rightarrow> conn" where
  "datum_socket_send_string_to_client s c =
     (if s = [] \<or> length (w_buffer c) + length s \<ge> CLIENT_BUFFER then c else c\<lparr>w_buffer := w_buffer c @ s\<rparr>)"

definition stratum_rpc_id_text :: "conn \<Rightarrow> u64 \<Rightarrow> string" where
  "stratum_rpc_id_text c rid =
     (if m_request_id_json (miner c) \<noteq> [] then take 159 (m_request_id_json (miner c)) else dec_digits (unat rid))"

definition stratum_rpc_id_clear :: "conn \<Rightarrow> conn" where
  "stratum_rpc_id_clear c = c\<lparr>miner := (miner c)\<lparr>m_request_id_json := []\<rparr>\<rparr>"

text \<open>\<open>dump\<close> is the JSON text of a string; the result is the new state and whether the id is accepted.\<close>

definition stratum_capture_request_id :: "(string \<Rightarrow> string) \<Rightarrow> json \<Rightarrow> conn \<Rightarrow> conn \<times> bool" where
  "stratum_capture_request_id dump id_obj c =
     (let c = stratum_rpc_id_clear c
      in case id_obj of
           JInt _ \<Rightarrow> (c, True)
         | JString s \<Rightarrow> (if length (dump s) \<ge> 129 then (c, False)
                         else (c\<lparr>miner := (miner c)\<lparr>m_request_id_json := dump s\<rparr>\<rparr>, True))
         | _ \<Rightarrow> (c, False))"

definition send_error_to_client :: "u64 \<Rightarrow> string \<Rightarrow> conn \<Rightarrow> conn" where
  "send_error_to_client rid e c =
     stratum_rpc_id_clear (datum_socket_send_string_to_client
       (take 1023 (''{'' @ quoted ''error'' @ '':'' @ e @ '','' @ quoted ''id'' @ '':'' @ stratum_rpc_id_text c rid @ '','' @ quoted ''result'' @ '':null}'' @ [CHR 0x0A])) c)"

datatype reject = Unknown_Work | High_Hash | Stale_Work | Time_Too_Old | Time_Too_New | Stale_Prevblk | H_Not_Zero | Bad_Version | Duplicate

fun reject_text :: "reject \<Rightarrow> string" where
  "reject_text Unknown_Work = ''[20,'' @ quoted ''unknown-work'' @ '',null]''"
| "reject_text High_Hash = ''[23,'' @ quoted ''high-hash'' @ '',null]''"
| "reject_text Stale_Work = ''[21,'' @ quoted ''stale-work'' @ '',null]''"
| "reject_text Time_Too_Old = ''[21,'' @ quoted ''time-too-old'' @ '',null]''"
| "reject_text Time_Too_New = ''[21,'' @ quoted ''time-too-new'' @ '',null]''"
| "reject_text Stale_Prevblk = ''[21,'' @ quoted ''stale-prevblk'' @ '',null]''"
| "reject_text H_Not_Zero = ''[23,'' @ quoted ''H-not-zero'' @ '',null]''"
| "reject_text Bad_Version = ''[23,'' @ quoted ''bad-version'' @ '',null]''"
| "reject_text Duplicate = ''[22,'' @ quoted ''duplicate'' @ '',null]''"

text \<open>The session id from the connection's number and its thread's.\<close>

definition get_new_session_id :: "u32 \<Rightarrow> u32 \<Rightarrow> u32" where
  "get_new_session_id cid thread_id = ((cid AND 0x003FFFFF) OR (push_bit 22 thread_id AND 0xFFC00000)) XOR 0xB10CF00D"

section \<open>Difficulty\<close>

definition reset_vardiff_stats :: "u64 \<Rightarrow> miner \<Rightarrow> miner" where
  "reset_vardiff_stats now m = m\<lparr>m_share_count_since_snap := 0, m_share_diff_since_snap := 0, m_share_snap_tsms := now\<rparr>"

definition lower_diff :: "stratum_conf \<Rightarrow> miner \<Rightarrow> miner" where
  "lower_diff conf m =
     (let d = drop_bit 1 (m_current_diff m);
          d = (if d < m_forced_high_min_diff m then m_forced_high_min_diff m else d);
          d = (if d < vardiff_min conf then vardiff_min conf else d)
      in m\<lparr>m_current_diff := d\<rparr>)"

text \<open>The new miner state and whether the quick bump is taken, which sends a notification before its reset.\<close>

definition vardiff_step :: "stratum_conf \<Rightarrow> u64 \<Rightarrow> bool \<Rightarrow> miner \<Rightarrow> miner \<times> bool" where
  "vardiff_step conf now no_quick m =
     (if m_current_diff m \<noteq> m_last_sent_diff m then (m, False)
      else if \<not> no_quick \<and> m_share_count_since_snap m < vardiff_quickdiff_count conf then (m, False)
      else let delta_tsms = now - m_share_snap_tsms m
           in if m_share_count_since_snap m = 0
              then (if delta_tsms > 60000 then (reset_vardiff_stats now (lower_diff conf m), False) else (m, False))
              else if delta_tsms < 1000 then (m, False)
              else let ms_per_share = delta_tsms div m_share_count_since_snap m;
                       ms_per_share = (if ms_per_share = 0 then 1 else ms_per_share);
                       target_ms_share = 60000 div vardiff_target_shares_min conf
                   in if \<not> m_quickdiff_active m \<and> \<not> no_quick \<and> ms_per_share < target_ms_share div vardiff_quickdiff_delta conf
                      then let d = roundDownToPowerOfTwo_64 ((target_ms_share div ms_per_share) * m_current_diff m);
                               d = (if d < push_bit 2 (m_current_diff m) then push_bit 2 (m_current_diff m) else d)
                           in (m\<lparr>m_current_diff := d\<rparr>, True)
                      else if ms_per_share > target_ms_share * 2
                      then (reset_vardiff_stats now (lower_diff conf m), False)
                      else if m_share_count_since_snap m < 16 then (m, False)
                      else if ms_per_share < target_ms_share div 2
                      then (reset_vardiff_stats now (m\<lparr>m_current_diff := push_bit 1 (m_current_diff m)\<rparr>), False)
                      else (m, False))"

definition stratum_update_miner_stats_accepted :: "u64 \<Rightarrow> u64 \<Rightarrow> miner \<Rightarrow> miner" where
  "stratum_update_miner_stats_accepted now diff m =
     (let st = m_stats m;
          (d0, d1) = us_diff_accepted st;
          st = st\<lparr>us_diff_accepted := (if us_active_index st then (d0, d1 + diff) else (d0 + diff, d1)), us_last_share_tsms := now\<rparr>;
          st = (if now \<ge> us_last_swap_tsms st + STAT_CYCLE_MS
                then let st = st\<lparr>us_last_swap_ms := now - us_last_swap_tsms st, us_last_swap_tsms := now\<rparr>
                     in if us_active_index st
                        then st\<lparr>us_active_index := False, us_diff_accepted := (0, snd (us_diff_accepted st))\<rparr>
                        else st\<lparr>us_active_index := True, us_diff_accepted := (fst (us_diff_accepted st), 0)\<rparr>
                else st)
      in m\<lparr>m_stats := st\<rparr>)"

definition send_mining_set_difficulty :: "stratum_conf \<Rightarrow> conn \<Rightarrow> conn" where
  "send_mining_set_difficulty conf c =
     (let m = miner c;
          m = (if m_current_diff m = 0 then m\<lparr>m_current_diff := vardiff_min conf\<rparr> else m);
          c = datum_socket_send_string_to_client
            (''{'' @ quoted ''id'' @ '':null,'' @ quoted ''method'' @ '':'' @ quoted ''mining.set_difficulty'' @ '','' @ quoted ''params''
              @ '':['' @ dec_digits (unat (m_current_diff m)) @ '']}'' @ [CHR 0x0A]) (c\<lparr>miner := m\<rparr>)
      in c\<lparr>miner := (miner c)\<lparr>m_last_sent_diff := m_current_diff (miner c)\<rparr>\<rparr>)"

section \<open>Jobs for the BLAKE2b header\<close>

definition stratum_job_is_blake2b :: "stratum_job \<Rightarrow> bool" where
  "stratum_job_is_blake2b j \<longleftrightarrow> t_header_version (j_template j) \<ge> 2"

definition template_txcount :: "template \<Rightarrow> u32" where
  "template_txcount t = (if t_header_transaction_count t \<noteq> 0 then t_header_transaction_count t else word_of_nat (length (t_txids t)) + 1)"

definition commit_fields :: "template \<Rightarrow> bytes \<Rightarrow> u32 \<Rightarrow> header_fields" where
  "commit_fields t merkle time_on_wire =
     \<lparr>hf_version = t_version t, hf_prevhash = t_previousblockhash_bin t, hf_height = t_height t, hf_merkle = merkle, hf_time = time_on_wire,
      hf_nbits = t_bits_uint t, hf_txcount = template_txcount t, hf_flags = t_header_flags t, hf_clear_bits = t_clear_bits t\<rparr>"

text \<open>
  The commitment for a coinbase transaction whose extranonce is zero, and the piece sent to the miner. The stack
  buffers of the commitment are \<open>buf1\<close> and \<open>buf2\<close>; without commitment the output buffer stays as it was.
\<close>

definition datum_blake2b_commit_for_coinbase ::
  "(bytes \<Rightarrow> bytes) \<Rightarrow> bytes \<Rightarrow> bytes \<Rightarrow> stratum_job \<Rightarrow> coinbase \<Rightarrow> u32 \<Rightarrow> bytes \<Rightarrow> bytes \<times> bytes" where
  "datum_blake2b_commit_for_coinbase sha buf1 buf2 s cb time_on_wire old =
     (let t = j_template s;
          cb_txn = coinb1_bin cb @ replicate 12 0 @ coinb2_bin cb;
          merkle = stratum_job_merkle_root_calc (my_dblsha256 sha) (j_merklebranches_bin s) (my_dblsha256 sha cb_txn);
          commitment = (case datum_blake2b_header_commitment sha buf1 buf2 (commit_fields t merkle time_on_wire) (t_xor_key t) (t_merge_mining_rhs t) of
             None \<Rightarrow> old | Some c \<Rightarrow> c)
      in (commitment, datum_blake2b_sia_coinb1 commitment))"

definition datum_stratum_job_refresh_blake2b :: "(bytes \<Rightarrow> bytes) \<Rightarrow> bytes \<Rightarrow> bytes \<Rightarrow> stratum_job \<Rightarrow> stratum_job" where
  "datum_stratum_job_refresh_blake2b sha buf1 buf2 s =
     (if \<not> stratum_job_is_blake2b s then s
      else let t = j_template s;
               time_on_wire = (if t_header_flags t AND DATUM_BLAKE2B_USE_TIME_OFFSET \<noteq> 0
                 then (case datum_blake2b_time_on_wire (t_curtime t) (ucast (t_header_time_offset t)) (t_header_flags t) of
                         None \<Rightarrow> ucast (t_curtime t) | Some x \<Rightarrow> x)
                 else ucast (t_curtime t));
               cbi = (if j_blake2b_coinbase_index s < MAX_COINBASE_TYPES then j_blake2b_coinbase_index s else 0);
               (commitment, coinb1) = datum_blake2b_commit_for_coinbase sha buf1 buf2 s (j_coinbase s ! cbi) time_on_wire (j_blake2b_commitment s);
               sia_prevhash = datum_blake2b_sia_prevhash sha (t_previousblockhash_bin t)
           in s\<lparr>j_blake2b_time_on_wire := time_on_wire, j_blake2b_commitment := commitment, j_blake2b_sia_coinb1 := coinb1,
                j_blake2b_sia_prevhash := sia_prevhash, j_prevhash := concat (map uchar_to_hex sia_prevhash)\<rparr>)"

section \<open>Notifications\<close>

text \<open>
  The per-miner coinbase transaction, \<open>None\<close> if the mode is off or it cannot be built; \<open>user_cb\<close> stands for
  \<^verbatim>\<open>datum_blake2b_build_user_coinbase\<close> with the fee script, applied to a job and the miner's script.
\<close>

definition user_coinbase :: "(stratum_job \<Rightarrow> bytes \<Rightarrow> coinbase option) \<Rightarrow> stratum_conf \<Rightarrow> miner \<Rightarrow> stratum_job \<Rightarrow> coinbase option" where
  "user_coinbase user_cb conf m j = (if personal_lotto conf \<and> m_has_user_addr m then user_cb j (m_user_script m) else None)"

text \<open>The share target of a difficulty on a job; \<open>None\<close> is the division by a zero difficulty.\<close>

definition job_target :: "stratum_job \<Rightarrow> u64 \<Rightarrow> bytes option" where
  "job_target j d =
     (if stratum_job_is_blake2b j
      then (case datum_blake2b_share_target (unat (floorPoT d)) of None \<Rightarrow> get_target_from_diff d | Some t \<Rightarrow> Some t)
      else get_target_from_diff d)"

definition notify_diff :: "stratum_conf \<Rightarrow> stratum_job \<Rightarrow> conn \<Rightarrow> conn" where
  "notify_diff conf j c =
     (let m = miner c;
          m = (if j_is_datum_job j \<and> m_current_diff m < override_vardiff_min conf then m\<lparr>m_current_diff := override_vardiff_min conf\<rparr> else m);
          c = c\<lparr>miner := m\<rparr>
      in if m_last_sent_diff m \<noteq> m_current_diff m then send_mining_set_difficulty conf c else c)"

definition notify_target :: "stratum_job \<Rightarrow> bool \<Rightarrow> miner \<Rightarrow> miner option" where
  "notify_target j quickdiff m =
     map_option (\<lambda>t.
       if \<not> quickdiff
       then m\<lparr>m_job_targets := (m_job_targets m)(j_global_index j := t),
              m_job_diffs := (m_job_diffs m)(j_global_index j := m_last_sent_diff m), m_quickdiff_active := False\<rparr>
       else m\<lparr>m_quickdiff_active := True, m_quickdiff_value := m_last_sent_diff m, m_quickdiff_target := t\<rparr>)
     (job_target j (m_last_sent_diff m))"

definition notify_cbselect :: "bool \<Rightarrow> stratum_job \<Rightarrow> miner \<Rightarrow> bool \<Rightarrow> nat" where
  "notify_cbselect full_coinbase_ready j m new_block =
     (if stratum_job_is_blake2b j then j_blake2b_coinbase_index j
      else if new_block then 0
      else if j_job_state j \<ge> JOB_STATE_FULL_PRIORITY_WAIT_COINBASER \<and> full_coinbase_ready then m_coinbase_selection m else 0)"

text \<open>The first piece as sent: with the target byte, and with the last two bytes replaced for a quick change.\<close>

definition notify_coinb1 :: "stratum_job \<Rightarrow> coinbase \<Rightarrow> u64 \<Rightarrow> bool \<Rightarrow> string" where
  "notify_coinb1 j cb diff quickdiff =
     (let c1 = coinb1_text cb; i = 2 * j_target_pot_index j; h = uchar_to_hex (floorPoT diff);
          c1 = c1[i := h ! 0, i + 1 := h ! 1]
      in if quickdiff
         then take (length c1 - 4) c1
           @ (if upk_u16le (coinb1_bin cb) (length (coinb1_bin cb) - 2) \<noteq> 0x5144 then ''4451'' else ''BBAE'')
         else c1)"

definition notify_id :: "stratum_job \<Rightarrow> nat \<Rightarrow> bool \<Rightarrow> bool \<Rightarrow> string" where
  "notify_id j cbselect quickdiff new_block =
     (if quickdiff then ''Q'' @ j_job_id j @ fmt_hex 2 cbselect
      else if new_block \<and> \<not> stratum_job_is_blake2b j then ''N'' @ j_job_id j @ ''ff''
      else j_job_id j @ fmt_hex 2 cbselect)"

definition notify_end :: "stratum_job \<Rightarrow> bool \<Rightarrow> string" where
  "notify_end j clean = quoted (j_version j) @ '','' @ quoted (j_nbits j) @ '','' @ quoted (j_ntime j) @ '',''
     @ (if clean then ''true]}'' else ''false]}'') @ [CHR 0x0A]"

text \<open>The pieces of the notification in the order they are sent, and the miner's new state.\<close>

definition notify_parts ::
  "(bytes \<Rightarrow> bytes) \<Rightarrow> bytes \<Rightarrow> bytes \<Rightarrow> (stratum_job \<Rightarrow> bytes \<Rightarrow> coinbase option) \<Rightarrow> stratum_conf \<Rightarrow> bool \<Rightarrow> stratum_job \<Rightarrow> bool \<Rightarrow> bool \<Rightarrow> bool
   \<Rightarrow> miner \<Rightarrow> miner \<times> string list" where
  "notify_parts sha buf1 buf2 user_cb conf full_ready j clean quickdiff new_block m =
     (let cbselect = notify_cbselect full_ready j m new_block;
          head = [''{'' @ quoted ''id'' @ '':null,'' @ quoted ''method'' @ '':'' @ quoted ''mining.notify'' @ '','' @ quoted ''params'' @ '':['',
                  quoted (notify_id j cbselect quickdiff new_block) @ '','' @ quoted (j_prevhash j) @ '','' @ [CHR 0x22]];
          fresh = (clean \<or> quickdiff \<or> new_block)
      in if stratum_job_is_blake2b j
         then let (m, sia) = (case user_coinbase user_cb conf m j of
                    None \<Rightarrow> (m, j_blake2b_sia_coinb1 j)
                  | Some cb \<Rightarrow> (let (commitment, sia) = datum_blake2b_commit_for_coinbase sha buf1 buf2 j cb (j_blake2b_time_on_wire j) (m_user_commitment m)
                               in (m\<lparr>m_user_commitment := commitment, m_user_sia_coinb1 := sia, m_user_commit_job_index := Some (j_global_index j)\<rparr>, sia)))
              in (m, head @ [concat (map uchar_to_hex (take 39 sia)), [CHR 0x22] @ '','' @ quoted '''' @ '',[],'', notify_end j fresh])
         else let cb = (if \<not> quickdiff \<and> new_block then j_subsidy_only_coinbase j else j_coinbase j ! cbselect)
              in (m, head @ [notify_coinb1 j cb (m_last_sent_diff m) quickdiff, [CHR 0x22] @ '','' @ [CHR 0x22], coinb2_text cb, [CHR 0x22] @ '','',
                     (if \<not> new_block then j_merklebranches_full j else ''[]''), '','' @ notify_end j fresh]))"

definition send_mining_notify ::
  "(bytes \<Rightarrow> bytes) \<Rightarrow> bytes \<Rightarrow> bytes \<Rightarrow> (stratum_job \<Rightarrow> bytes \<Rightarrow> coinbase option) \<Rightarrow> stratum_conf \<Rightarrow> u64 \<Rightarrow> bool \<Rightarrow> stratum_job option
   \<Rightarrow> bool \<Rightarrow> bool \<Rightarrow> bool \<Rightarrow> conn \<Rightarrow> conn option" where
  "send_mining_notify sha buf1 buf2 user_cb conf now full_ready cur_job clean quickdiff new_block c =
     (case cur_job of None \<Rightarrow> Some c
      | Some j \<Rightarrow>
          let quickdiff = (quickdiff \<and> \<not> new_block);
              c = (if \<not> quickdiff then c\<lparr>miner := fst (vardiff_step conf now True (miner c))\<rparr> else c);
              c = notify_diff conf j c
          in map_option (\<lambda>m.
               let (m, parts) = notify_parts sha buf1 buf2 user_cb conf full_ready j clean quickdiff new_block m;
                   c = fold datum_socket_send_string_to_client parts (c\<lparr>miner := m\<rparr>)
               in c\<lparr>miner := (miner c)\<lparr>m_last_sent_job_index := j_global_index j\<rparr>\<rparr>) (notify_target j quickdiff (miner c)))"

text \<open>The adjustment after an accepted share: a quick bump is announced at once.\<close>

definition stratum_update_vardiff ::
  "(bytes \<Rightarrow> bytes) \<Rightarrow> bytes \<Rightarrow> bytes \<Rightarrow> (stratum_job \<Rightarrow> bytes \<Rightarrow> coinbase option) \<Rightarrow> stratum_conf \<Rightarrow> u64 \<Rightarrow> bool \<Rightarrow> stratum_job option
   \<Rightarrow> bool \<Rightarrow> conn \<Rightarrow> conn option" where
  "stratum_update_vardiff sha buf1 buf2 user_cb conf now full_ready cur_job no_quick c =
     (let (m, quick) = vardiff_step conf now no_quick (miner c); c = c\<lparr>miner := m\<rparr>
      in if quick
         then map_option (\<lambda>c. c\<lparr>miner := reset_vardiff_stats now (miner c)\<rparr>)
                (send_mining_notify sha buf1 buf2 user_cb conf now full_ready cur_job True True False c)
         else Some c)"

end
