(* ===== verification/Handshake.thy ===== *)
theory Handshake
  imports Stratum
begin

text \<open>
  The requests that set up a connection, \<^verbatim>\<open>src/src/datum_stratum.c\<close>: subscribe, configure and authorize. A
  handler returns its code, negative to drop the connection, and the connection; \<open>None\<close> is the division by a
  zero difficulty.
\<close>

section \<open>Subscribe\<close>

definition ua_prefix :: "string \<Rightarrow> string \<Rightarrow> bool" where
  "ua_prefix p ua \<longleftrightarrow> take (length p) ua = p"

definition ua_contains :: "string \<Rightarrow> string \<Rightarrow> bool" where
  "ua_contains p ua \<longleftrightarrow> list_ex (\<lambda>k. ua_prefix p (drop k ua)) [0..<length ua + 1]"

definition datum_stratum_fingerprint_by_UA :: "miner \<Rightarrow> miner" where
  "datum_stratum_fingerprint_by_UA m =
     (let ua = m_useragent m
      in if ua_prefix ''Antminer A3'' ua then m\<lparr>m_coinbase_selection := 0\<rparr>
         else if ua_prefix ''Antminer S21/'' ua then m\<lparr>m_coinbase_selection := 5\<rparr>
         else if ua_prefix ''PowerPlay-BM/'' ua then m\<lparr>m_coinbase_selection := 4\<rparr>
         else if ua_prefix ''xminer-1.'' ua then m\<lparr>m_coinbase_selection := 4\<rparr>
         else if ua_prefix ''whatsminer/v1'' ua then m\<lparr>m_coinbase_selection := 3\<rparr>
         else if ua_contains ''bosminer-plus-tuner'' ua then m\<lparr>m_coinbase_selection := 5\<rparr>
         else if ua_prefix ''NiceHash/'' ua then m\<lparr>m_current_diff := 524288, m_forced_high_min_diff := 524288, m_coinbase_selection := 1\<rparr>
         else if ua_prefix ''bitaxe'' ua then m\<lparr>m_coinbase_selection := 3\<rparr>
         else m)"

definition reversed_sid :: "u32 \<Rightarrow> u32" where
  "reversed_sid sid = (drop_bit 24 sid AND 0xff) OR push_bit 8 (drop_bit 16 sid AND 0xff) OR push_bit 16 (drop_bit 8 sid AND 0xff) OR push_bit 24 (sid AND 0xff)"

definition subscribe_useragent :: "json \<Rightarrow> string" where
  "subscribe_useragent params =
     (case param_string params 0 of None \<Rightarrow> '''' | Some s \<Rightarrow> (case strncpy_uachars (Some s) 127 of None \<Rightarrow> '''' | Some ua \<Rightarrow> ua))"

definition subscribe_reply :: "string \<Rightarrow> u32 \<Rightarrow> string" where
  "subscribe_reply idbuf sid =
     (let h = fmt_hex 8 (unat sid)
      in ''{'' @ quoted ''error'' @ '':null,'' @ quoted ''id'' @ '':'' @ idbuf @ '','' @ quoted ''result'' @ '':[[['' @ quoted ''mining.notify'' @ '',''
         @ quoted (h @ ''1'') @ ''],['' @ quoted ''mining.set_difficulty'' @ '','' @ quoted (h @ ''2'') @ '']],'' @ quoted h @ '',8]}'' @ [CHR 0x0A])"

text \<open>\<open>notify\<close> is the first notification on the connection; \<open>cid\<close> and \<open>thread_id\<close> are its numbers.\<close>

definition client_mining_subscribe ::
  "(conn \<Rightarrow> conn option) \<Rightarrow> stratum_conf \<Rightarrow> u64 \<Rightarrow> u32 \<Rightarrow> u32 \<Rightarrow> u64 \<Rightarrow> json \<Rightarrow> conn \<Rightarrow> (int \<times> conn) option" where
  "client_mining_subscribe notify conf now cid thread_id rid params c =
     (if m_subscribed (miner c) then Some (0, c)
      else let m = (miner c)\<lparr>m_current_diff := vardiff_min conf, m_coinbase_selection := 2, m_useragent := subscribe_useragent params\<rparr>;
               m = (if fingerprint_miners conf \<and> m_useragent m \<noteq> []
                    then let m = datum_stratum_fingerprint_by_UA m
                         in if m_current_diff m < vardiff_min conf then m\<lparr>m_current_diff := vardiff_min conf\<rparr> else m
                    else m);
               sid = get_new_session_id cid thread_id;
               c = c\<lparr>miner := m\<lparr>m_sid := sid, m_sid_inv := reversed_sid sid\<rparr>\<rparr>;
               reply = take 1023 (subscribe_reply (stratum_rpc_id_text c rid) sid);
               c = datum_socket_send_string_to_client reply (stratum_rpc_id_clear c);
               c = send_mining_set_difficulty conf c;
               c = c\<lparr>miner := (miner c)\<lparr>m_subscribed := True\<rparr>\<rparr>
           in map_option (\<lambda>c. (0, c\<lparr>miner := (miner c)\<lparr>m_share_count_since_snap := 0, m_share_diff_since_snap := 0,
                m_share_snap_tsms := now, m_subscribe_tsms := now\<rparr>\<rparr>)) (notify c))"

section \<open>Configure\<close>

record configured =
  cf_miner :: miner
  cf_vroll :: bool
  cf_mdiff :: bool
  cf_sx :: string
  cf_sxl :: nat

definition version_mask_text :: "u32 \<Rightarrow> string" where
  "version_mask_text vmask = ''{'' @ quoted ''id'' @ '':null,'' @ quoted ''method'' @ '':'' @ quoted ''mining.set_version_mask'' @ '',''
     @ quoted ''params'' @ '':['' @ quoted (fmt_hex 8 (unat vmask)) @ '']}'' @ [CHR 0x0A]"

text \<open>One entry of the list of extensions; the message is written at the offset of the last length.\<close>

definition configure_item :: "json \<Rightarrow> json \<Rightarrow> configured \<Rightarrow> configured" where
  "configure_item p2 value cf =
     (case value of
        JString s \<Rightarrow>
          if s = ''version-rolling''
          then let m = (cf_miner cf)\<lparr>m_version_rolling := True, m_version_rolling_mask := 0x1fffe000\<rparr>;
                   m = (case Option.bind (json_object_get p2 ''version-rolling.mask'') json_string_value of
                          None \<Rightarrow> m
                        | Some s2 \<Rightarrow> m\<lparr>m_version_rolling_mask := ucast (strtoul16 s2 AND ucast (m_version_rolling_mask m))\<rparr>);
                   msg = version_mask_text (m_version_rolling_mask m)
               in cf\<lparr>cf_miner := m, cf_vroll := True, cf_sx := take (cf_sxl cf) (cf_sx cf) @ msg, cf_sxl := length msg\<rparr>
          else if s = ''minimum-difficulty'' then cf\<lparr>cf_mdiff := True\<rparr>
          else cf
      | _ \<Rightarrow> cf)"

definition configure_reply :: "string \<Rightarrow> bool \<Rightarrow> bool \<Rightarrow> u32 \<Rightarrow> string" where
  "configure_reply idbuf new_vroll new_mdiff vmask =
     ''{'' @ quoted ''error'' @ '':null,'' @ quoted ''id'' @ '':'' @ idbuf @ '','' @ quoted ''result'' @ '':{''
     @ (if new_vroll then quoted ''version-rolling'' @ '':true,'' @ quoted ''version-rolling.mask'' @ '':'' @ quoted (fmt_hex 8 (unat vmask)) else '''')
     @ (if new_mdiff then '','' @ quoted ''minimum-difficulty'' @ '':false'' else '''') @ ''}}'' @ [CHR 0x0A]"

definition client_mining_configure :: "u64 \<Rightarrow> json \<Rightarrow> conn \<Rightarrow> int \<times> conn" where
  "client_mining_configure rid params c =
     (case (json_array_get params 0, json_array_get params 1) of
        (Some p1, Some p2) \<Rightarrow>
          (let cf = fold (configure_item p2) (case p1 of JArray vs \<Rightarrow> vs | _ \<Rightarrow> [])
                 \<lparr>cf_miner = miner c, cf_vroll = False, cf_mdiff = False, cf_sx = '''', cf_sxl = 0\<rparr>;
               c = c\<lparr>miner := cf_miner cf\<rparr>;
               reply = configure_reply (stratum_rpc_id_text c rid) (cf_vroll cf) (cf_mdiff cf) (m_version_rolling_mask (miner c));
               c = stratum_rpc_id_clear (datum_socket_send_string_to_client reply c)
           in (0, if cf_sxl cf \<noteq> 0 then datum_socket_send_string_to_client (cf_sx cf) c else c))
      | _ \<Rightarrow> (-1, c))"

section \<open>Authorize\<close>

definition username_or_null :: "json \<Rightarrow> string" where
  "username_or_null params = (case param_string params 0 of None \<Rightarrow> ''NULL'' | Some s \<Rightarrow> s)"

definition simple_reply :: "string \<Rightarrow> string \<Rightarrow> string \<Rightarrow> string" where
  "simple_reply e idbuf result = ''{'' @ quoted ''error'' @ '':'' @ e @ '','' @ quoted ''id'' @ '':'' @ idbuf @ '','' @ quoted ''result'' @ '':'' @ result @ ''}'' @ [CHR 0x0A]"

definition client_mining_authorize :: "(string \<Rightarrow> bytes) \<Rightarrow> stratum_conf \<Rightarrow> u64 \<Rightarrow> json \<Rightarrow> conn \<Rightarrow> int \<times> conn" where
  "client_mining_authorize addr_script conf rid params c =
     (let username_s = username_or_null params;
          m = (miner c)\<lparr>m_last_auth_username := take 191 username_s, m_has_user_addr := False, m_user_commit_job_index := None\<rparr>;
          script = addr_script (take 127 (takeWhile (\<lambda>ch. ch \<noteq> CHR ''.'' \<and> ch \<noteq> CHR ''_'') username_s));
          idbuf = stratum_rpc_id_text c rid
      in if personal_lotto conf \<and> script = []
         then (0, stratum_rpc_id_clear (datum_socket_send_string_to_client
                (take 255 (simple_reply (''[20,'' @ quoted ''personal-lotto: username must be your BTC address'' @ '',null]'') idbuf ''false'')) (c\<lparr>miner := m\<rparr>)))
         else let m = (if personal_lotto conf then m\<lparr>m_user_script := script, m_has_user_addr := True\<rparr> else m);
                  c = stratum_rpc_id_clear (datum_socket_send_string_to_client (take 255 (simple_reply ''null'' idbuf ''true'')) (c\<lparr>miner := m\<rparr>))
              in (0, c\<lparr>miner := (miner c)\<lparr>m_authorized := True\<rparr>\<rparr>))"

end
