(* ===== verification/Submit.thy ===== *)
theory Submit
  imports Handshake
begin

text \<open>
  Submitted shares, \<^verbatim>\<open>client_mining_submit\<close> and \<^verbatim>\<open>assembleBlockAndSubmit\<close> in \<^verbatim>\<open>src/src/datum_stratum.c\<close>, and the
  dispatch of a request. What leaves the server (a block for the node, work for the pool, a payout record) is a
  list of effects. \<open>None\<close> is undefined behaviour or an endless loop of a part: a division by a zero difficulty,
  a walk in a ring of the duplicate table, a copy from beyond a user name.
\<close>

section \<open>State\<close>

datatype effect =
    Submit_Block string string
  | Notify_New string u64
  | Datum_Pow string bool bool bool bytes u64 bytes nat
  | Chirp_Record string u64

record server =
  srv_conn :: conn
  srv_dupes :: dupes
  srv_accepted :: "u64 \<times> u64"
  srv_rejected :: "u64 \<times> u64"
  srv_effects :: "effect list"

text \<open>What the handlers use of their surroundings: hashes, stack buffers, configuration, clock, jobs and the node.\<close>

record surroundings =
  e_sha :: "bytes \<Rightarrow> bytes"
  e_blake :: "bytes \<Rightarrow> bytes option"
  e_buf1 :: bytes
  e_buf2 :: bytes
  e_stack32 :: bytes
  e_user_cb :: "stratum_job \<Rightarrow> bytes \<Rightarrow> coinbase option"
  e_addr_script :: "string \<Rightarrow> bytes"
  e_conf :: stratum_conf
  e_now :: u64
  e_full_ready :: bool
  e_cur_job :: "stratum_job option"
  e_jobs :: "nat \<Rightarrow> stratum_job option"
  e_qs :: "dupe_item qsort"
  e_stale_before :: u64
  e_node :: "string \<Rightarrow> bool"
  e_time :: nat

definition emit :: "effect \<Rightarrow> server \<Rightarrow> server" where
  "emit x s = s\<lparr>srv_effects := srv_effects s @ [x]\<rparr>"

definition upd_miner :: "(miner \<Rightarrow> miner) \<Rightarrow> server \<Rightarrow> server" where
  "upd_miner f s = s\<lparr>srv_conn := (srv_conn s)\<lparr>miner := f (miner (srv_conn s))\<rparr>\<rparr>"

abbreviation miner_of :: "server \<Rightarrow> miner" where
  "miner_of s \<equiv> miner (srv_conn s)"

definition stratum_note_share :: "stratum_conf \<Rightarrow> bool \<Rightarrow> u64 \<Rightarrow> server \<Rightarrow> server" where
  "stratum_note_share conf accepted diff s =
     (if accepted
      then let s = upd_miner (\<lambda>m. m\<lparr>m_share_count_accepted := m_share_count_accepted m + 1, m_share_diff_accepted := m_share_diff_accepted m + diff\<rparr>) s;
               s = (if blake2b_chirp conf then emit (Chirp_Record (m_last_auth_username (miner_of s)) diff) s else s)
           in s\<lparr>srv_accepted := (fst (srv_accepted s) + 1, snd (srv_accepted s) + diff)\<rparr>
      else let s = upd_miner (\<lambda>m. m\<lparr>m_share_count_rejected := m_share_count_rejected m + 1, m_share_diff_rejected := m_share_diff_rejected m + diff\<rparr>) s
           in s\<lparr>srv_rejected := (fst (srv_rejected s) + 1, snd (srv_rejected s) + diff)\<rparr>)"

definition reject_share :: "stratum_conf \<Rightarrow> u64 \<Rightarrow> reject \<Rightarrow> u64 \<Rightarrow> server \<Rightarrow> server" where
  "reject_share conf rid r diff s =
     stratum_note_share conf False diff (s\<lparr>srv_conn := send_error_to_client rid (reject_text r) (srv_conn s)\<rparr>)"

section \<open>Reading the submission\<close>

definition job_index_of :: "string \<Rightarrow> u16" where
  "job_index_of id_s = (push_bit 8 (ucast (hex2bin_uchar (id_s ! 10) (id_s ! 11))) OR ucast (hex2bin_uchar (id_s ! 12) (id_s ! 13))) XOR STRATUM_JOB_INDEX_XOR"

text \<open>The job of a submission with its 16 characters, whether it is a quick change and whether it is empty work.\<close>

definition submit_job :: "(nat \<Rightarrow> stratum_job option) \<Rightarrow> json \<Rightarrow> (stratum_job \<times> nat \<times> string \<times> bool \<times> bool) option" where
  "submit_job jobs params =
     (case param_string params 1 of None \<Rightarrow> None
      | Some s \<Rightarrow>
          (case (if length s = 16 then Some (s, False, False)
                 else if length s = 17 \<and> s ! 0 = CHR ''Q'' then Some (drop 1 s, True, False)
                 else if length s = 17 \<and> s ! 0 = CHR ''N'' then Some (drop 1 s, False, True)
                 else None) of None \<Rightarrow> None
           | Some (id_s, quickdiff, empty_work) \<Rightarrow>
               let idx = unat (job_index_of id_s)
               in if idx \<ge> MAX_STRATUM_JOBS then None
                  else case jobs idx of None \<Rightarrow> None
                    | Some job \<Rightarrow>
                        if take 8 (j_job_id job @ replicate 8 CHR 0x00) \<noteq> take 8 id_s then None
                        else Some (job, idx, id_s, quickdiff, empty_work)))"

definition submit_version :: "miner \<Rightarrow> stratum_job \<Rightarrow> json \<Rightarrow> u32 option" where
  "submit_version m job params =
     (if \<not> m_version_rolling m then Some (j_version_uint job)
      else case param_string params 5 of None \<Rightarrow> None
        | Some s \<Rightarrow> let vroll = ucast (strtoul16 s) :: u32
                    in if vroll AND m_version_rolling_mask m \<noteq> vroll then None else Some (j_version_uint job OR vroll))"

definition submit_extranonce :: "miner \<Rightarrow> json \<Rightarrow> bytes option" where
  "submit_extranonce m params =
     (case param_string params 2 of None \<Rightarrow> None
      | Some s \<Rightarrow> if length s \<noteq> 16 then None else Some (pk_u32le (replicate 4 0) 0 (m_sid_inv m) @ hex_to_bin s))"

text \<open>Time or nonce: the eight bytes and the low word.\<close>

definition submit_field :: "bool \<Rightarrow> json \<Rightarrow> nat \<Rightarrow> (bytes \<times> u32) option" where
  "submit_field blake2b_job params i =
     (case param_string params i of None \<Rightarrow> None
      | Some s \<Rightarrow>
          let v = ucast (strtoul16 s) :: u32
          in if \<not> blake2b_job \<or> length s = 8 then Some (pk_u32le (replicate 8 0) 0 v, v)
             else if length s = 16 then Some (hex_to_bin s, upk_u32le (hex_to_bin s) 0)
             else None)"

section \<open>The work that was done\<close>

text \<open>The coinbase transaction the share is checked with, and the commitment in its work.\<close>

definition submit_coinbase :: "surroundings \<Rightarrow> miner \<Rightarrow> stratum_job \<Rightarrow> string \<Rightarrow> bool \<Rightarrow> (coinbase \<times> bytes \<times> nat) option" where
  "submit_coinbase e m job id_s empty_work =
     (let coinbase_index = unat (hex2bin_uchar (id_s ! 14) (id_s ! 15))
      in if coinbase_index \<ge> MAX_COINBASE_TYPES \<and> \<not> (empty_work \<and> coinbase_index = 255) then None
         else if empty_work then Some (j_subsidy_only_coinbase job, j_blake2b_commitment job, coinbase_index)
         else case (if stratum_job_is_blake2b job then user_coinbase (e_user_cb e) (e_conf e) m job else None) of
             None \<Rightarrow> Some (j_coinbase job ! coinbase_index, j_blake2b_commitment job, coinbase_index)
           | Some cb \<Rightarrow> Some (cb, fst (datum_blake2b_commit_for_coinbase (e_sha e) (e_buf1 e) (e_buf2 e) job cb (j_blake2b_time_on_wire job) (e_stack32 e)), coinbase_index))"

definition submit_full_cb :: "stratum_job \<Rightarrow> coinbase \<Rightarrow> bytes \<Rightarrow> bool \<Rightarrow> u64 \<Rightarrow> bytes" where
  "submit_full_cb job cb extranonce quickdiff job_diff =
     (let len1 = length (coinb1_bin cb);
          full = coinb1_bin cb @ (if stratum_job_is_blake2b job then replicate 12 0 else extranonce) @ coinb2_bin cb
      in if stratum_job_is_blake2b job then full
         else let full = (if quickdiff then pk_u16le full (len1 - 2) (if upk_u16le full (len1 - 2) \<noteq> 0x5144 then 0x5144 else 0xAEBB) else full)
              in full[j_target_pot_index job := floorPoT job_diff])"

definition submit_merkle :: "(bytes \<Rightarrow> bytes) \<Rightarrow> stratum_job \<Rightarrow> bool \<Rightarrow> bytes \<Rightarrow> bytes" where
  "submit_merkle sha job empty_work full_cb =
     (if j_merklebranches_bin job \<noteq> [] \<and> \<not> empty_work
      then stratum_job_merkle_root_calc (my_dblsha256 sha) (j_merklebranches_bin job) (my_dblsha256 sha full_cb)
      else my_dblsha256 sha full_cb)"

definition sha_header :: "stratum_job \<Rightarrow> u32 \<Rightarrow> bytes \<Rightarrow> u32 \<Rightarrow> u32 \<Rightarrow> bytes" where
  "sha_header job bver merkle nt nc =
     pk_u32le (replicate 4 0) 0 bver @ take 32 (j_prevhash_bin job) @ merkle @ pk_u32le (replicate 4 0) 0 nt @ take 4 (j_nbits_bin job)
       @ pk_u32le (replicate 4 0) 0 nc"

text \<open>The header and its hash, or the reason there is none.\<close>

definition submit_hash :: "surroundings \<Rightarrow> stratum_job \<Rightarrow> u32 \<Rightarrow> bytes \<Rightarrow> bytes \<Rightarrow> bytes \<Rightarrow> bytes \<times> u32 \<Rightarrow> bytes \<times> u32 \<Rightarrow> reject + (bytes \<times> bytes)" where
  "submit_hash e job bver merkle commitment extranonce nt nc =
     (if stratum_job_is_blake2b job
      then (case datum_blake2b_work_root (e_blake e) commitment extranonce of
              None \<Rightarrow> Inl Unknown_Work
            | Some wroot \<Rightarrow>
                let work = datum_blake2b_build_work_header (e_sha e) (replicate 80 0) (j_prevhash_bin job) (fst nc) (fst nt) wroot
                in case datum_blake2b_pow_hash_le (e_sha e) (e_blake e) work (t_xor_key (j_template job)) (t_clear_bits (j_template job)) of
                     None \<Rightarrow> Inl Unknown_Work | Some hash \<Rightarrow> Inr (work, hash))
      else let header = sha_header job bver merkle (snd nt) (snd nc); hash = my_dblsha256 (e_sha e) header
           in if upk_u32le hash 28 \<noteq> 0 then Inl H_Not_Zero else Inr (header, hash))"

record work_done =
  w_header :: bytes
  w_hash :: bytes
  w_full_cb :: bytes
  w_bver :: u32
  w_extranonce :: bytes
  w_ntime64 :: u64
  w_ntime :: u32
  w_nonce64 :: u64
  w_coinbase_index :: nat

text \<open>All of a submission up to its hash, in the order of the code; each failure has one reply.\<close>

definition submit_work :: "surroundings \<Rightarrow> miner \<Rightarrow> stratum_job \<Rightarrow> string \<Rightarrow> bool \<Rightarrow> bool \<Rightarrow> u64 \<Rightarrow> json \<Rightarrow> reject + work_done" where
  "submit_work e m job id_s quickdiff empty_work job_diff params =
     (case submit_version m job params of None \<Rightarrow> Inl Bad_Version
      | Some bver \<Rightarrow>
        (case submit_extranonce m params of None \<Rightarrow> Inl Unknown_Work
         | Some extranonce \<Rightarrow>
           (case submit_coinbase e m job id_s empty_work of None \<Rightarrow> Inl Unknown_Work
            | Some (cb, commitment, coinbase_index) \<Rightarrow>
              let full_cb = submit_full_cb job cb extranonce quickdiff job_diff;
                  merkle = submit_merkle (e_sha e) job empty_work full_cb
              in (case submit_field (stratum_job_is_blake2b job) params 3 of None \<Rightarrow> Inl Unknown_Work
                  | Some nt \<Rightarrow>
                    (case submit_field (stratum_job_is_blake2b job) params 4 of None \<Rightarrow> Inl Unknown_Work
                     | Some nc \<Rightarrow>
                       (case submit_hash e job bver merkle commitment extranonce nt nc of Inl r \<Rightarrow> Inl r
                        | Inr (header, hash) \<Rightarrow>
                            Inr \<lparr>w_header = header, w_hash = hash, w_full_cb = full_cb, w_bver = bver, w_extranonce = extranonce,
                              w_ntime64 = upk_u64le (fst nt) 0, w_ntime = snd nt, w_nonce64 = upk_u64le (fst nc) 0,
                              w_coinbase_index = coinbase_index\<rparr>))))))"

section \<open>A block for the node\<close>

definition MAX_COINBASE_TXN_SIZE_BYTES :: nat where "MAX_COINBASE_TXN_SIZE_BYTES = 16960"

definition datum_stratum_block_needs_witness :: "stratum_job \<Rightarrow> bool \<Rightarrow> bool" where
  "datum_stratum_block_needs_witness job only_subsidy \<longleftrightarrow> \<not> only_subsidy \<and> t_default_witness_commitment (j_template job) \<noteq> []"

definition hex_bytes :: "bytes \<Rightarrow> string" where
  "hex_bytes bs = concat (map uchar_to_hex bs)"

text \<open>The coinbase transaction as hex, with marker, flag and a zero witness where they are missing; empty if it does not fit.\<close>

definition datum_stratum_coinbase_for_block_hex :: "nat \<Rightarrow> bytes \<Rightarrow> bool \<Rightarrow> string" where
  "datum_stratum_coinbase_for_block_hex out_size txn add_witness =
     (let len = length txn;
          already_witnessed = (len \<ge> 6 \<and> txn ! 4 = 0 \<and> txn ! 5 = 1);
          insert_wit = (add_witness \<and> \<not> already_witnessed)
      in if add_witness \<and> len < 8 \<or> \<not> add_witness \<and> len < 1 then ''''
         else if (len + (if insert_wit then 36 else 0)) * 2 > out_size then ''''
         else if insert_wit
         then hex_bytes (take 4 txn @ [0, 1] @ take (len - 8) (drop 4 txn) @ [1, 0x20] @ replicate 32 0 @ drop (len - 4) txn)
         else hex_bytes txn)"

definition block_header_v2 :: "(bytes \<Rightarrow> bytes) \<Rightarrow> bytes \<Rightarrow> stratum_job \<Rightarrow> bytes \<Rightarrow> bytes \<Rightarrow> bool \<Rightarrow> bytes \<Rightarrow> block_header" where
  "block_header_v2 sha work job full_cb extranonce empty_work merkle =
     (let td = j_template job
      in \<lparr>bh_version = j_version_uint job, bh_prevhash = j_prevhash_bin job, bh_merkle = merkle, bh_time = j_blake2b_time_on_wire job,
          bh_nbits = j_nbits_uint job, bh_nonce = drop 32 work, bh_ntime = drop 40 work, bh_extranonce = extranonce,
          bh_txcount = (if t_header_transaction_count td \<noteq> 0 then ucast (t_header_transaction_count td)
                        else word_of_nat ((if empty_work then 0 else length (t_txids td)) + 1)),
          bh_flags = t_header_flags td, bh_clear_bits = t_clear_bits td, bh_xor_key = t_xor_key td,
          bh_height = ucast (j_height job), bh_rhs = t_merge_mining_rhs td\<rparr>)"

definition assemble_header :: "(bytes \<Rightarrow> bytes) \<Rightarrow> bytes \<Rightarrow> stratum_job \<Rightarrow> bytes \<Rightarrow> bytes \<Rightarrow> bool \<Rightarrow> bytes" where
  "assemble_header sha header job full_cb extranonce empty_work =
     (if stratum_job_is_blake2b job
      then datum_blake2b_serialize_block_header (replicate 164 0)
             (block_header_v2 sha header job full_cb extranonce empty_work (submit_merkle sha job empty_work full_cb))
      else take 80 header)"

definition assemble_block :: "(bytes \<Rightarrow> bytes) \<Rightarrow> bytes \<Rightarrow> stratum_job \<Rightarrow> bytes \<Rightarrow> bytes \<Rightarrow> bool \<Rightarrow> string" where
  "assemble_block sha header job full_cb extranonce empty_work =
     (let cbhex = datum_stratum_coinbase_for_block_hex ((MAX_COINBASE_TXN_SIZE_BYTES + 36) * 2 + 1) full_cb (datum_stratum_block_needs_witness job empty_work)
      in concat (map (\<lambda>b. fmt_hex 2 (unat b)) (assemble_header sha header job full_cb extranonce empty_work))
         @ append_bitcoin_varint_hex (if empty_work then 1 else word_of_nat (length (t_txids (j_template job))) + 1)
         @ (if cbhex = '''' then concat (map (\<lambda>b. fmt_hex 2 (unat b)) full_cb) else cbhex)
         @ (if empty_work then '''' else concat (t_txn_data_hex (j_template job))))"

definition submitblock_request :: "nat \<Rightarrow> string \<Rightarrow> string" where
  "submitblock_request time block = ''{'' @ quoted ''jsonrpc'' @ '':'' @ quoted ''1.0'' @ '','' @ quoted ''id'' @ '':'' @ quoted (dec_digits time) @ '',''
     @ quoted ''method'' @ '':'' @ quoted ''submitblock'' @ '','' @ quoted ''params'' @ '':['' @ quoted block @ '']}''"

definition assembleBlockAndSubmit :: "surroundings \<Rightarrow> bytes \<Rightarrow> bytes \<Rightarrow> stratum_job \<Rightarrow> string \<Rightarrow> bool \<Rightarrow> bytes \<Rightarrow> server \<Rightarrow> server \<times> bool" where
  "assembleBlockAndSubmit e header full_cb job block_hash_hex empty_work extranonce s =
     (let req = submitblock_request (e_time e) (assemble_block (e_sha e) header job full_cb extranonce empty_work)
      in (emit (Submit_Block req block_hash_hex) s, e_node e req))"

section \<open>Judging the share\<close>

text \<open>A block goes to the node, and to the pool, before anything else is checked.\<close>

definition submit_if_block :: "surroundings \<Rightarrow> stratum_job \<Rightarrow> string \<Rightarrow> bool \<Rightarrow> bool \<Rightarrow> u64 \<Rightarrow> work_done \<Rightarrow> server \<Rightarrow> server \<times> bool" where
  "submit_if_block e job username quickdiff empty_work job_diff w s =
     (if compare_hashes (w_hash w) (j_block_target job) \<le> 0
      then let hash_hex = concat (map uchar_to_hex (rev (take 32 (w_hash w))));
               (s, ok) = assembleBlockAndSubmit e (w_header w) (w_full_cb w) job hash_hex empty_work (w_extranonce w) s;
               s = (if ok then emit (Notify_New hash_hex (j_height job + 1)) s else s);
               s = (if j_is_datum_job job
                    then emit (Datum_Pow username True empty_work quickdiff (w_header w) job_diff (w_full_cb w) (w_coinbase_index w)) s else s)
           in (s, True)
      else (s, False))"

text \<open>The reasons to refuse, in order, that do not involve the duplicate table.\<close>

definition share_fault :: "surroundings \<Rightarrow> miner \<Rightarrow> stratum_job \<Rightarrow> nat \<Rightarrow> bool \<Rightarrow> work_done \<Rightarrow> reject option" where
  "share_fault e m job idx quickdiff w =
     (let t = j_template job;
          check_time = (if stratum_job_is_blake2b job then ucast (j_blake2b_time_on_wire job) else ucast (w_ntime w)) :: u64
      in if j_is_stale_prevblock job then Some Stale_Prevblk
         else if check_time < t_mintime t then Some Time_Too_Old
         else if check_time > t_curtime t + 7200 then Some Time_Too_New
         else if compare_hashes (w_hash w) (if quickdiff then m_quickdiff_target m else m_job_targets m idx) > 0 then Some High_Hash
         else if e_now e > j_tsms job + (share_stale_seconds (e_conf e) + work_update_seconds (e_conf e)) * 1000 then Some Stale_Work
         else None)"

definition dupe_share :: "nat \<Rightarrow> bool \<Rightarrow> work_done \<Rightarrow> share" where
  "dupe_share idx quickdiff w =
     \<lparr>s_nonce = w_nonce64 w, s_job_index = word_of_nat idx, s_ntime = (if quickdiff then NOT (w_ntime64 w) else w_ntime64 w),
      s_version_bits = w_bver w, s_extranonce = w_extranonce w\<rparr>"

definition job_times :: "surroundings \<Rightarrow> jobs" where
  "job_times e = (\<lambda>i. map_option j_tsms (e_jobs e i))"

definition accept_share :: "surroundings \<Rightarrow> u64 \<Rightarrow> u64 \<Rightarrow> server \<Rightarrow> server option" where
  "accept_share e rid job_diff s =
     (let reply = take 255 (simple_reply ''null'' (stratum_rpc_id_text (srv_conn s) rid) ''true'');
          s = s\<lparr>srv_conn := stratum_rpc_id_clear (datum_socket_send_string_to_client reply (srv_conn s))\<rparr>;
          s = stratum_note_share (e_conf e) True job_diff s;
          s = upd_miner (\<lambda>m. stratum_update_miner_stats_accepted (e_now e) job_diff
                (m\<lparr>m_share_count_since_snap := m_share_count_since_snap m + 1, m_share_diff_since_snap := m_share_diff_since_snap m + job_diff\<rparr>)) s
      in map_option (\<lambda>c. s\<lparr>srv_conn := c\<rparr>)
           (stratum_update_vardiff (e_sha e) (e_buf1 e) (e_buf2 e) (e_user_cb e) (e_conf e) (e_now e) (e_full_ready e) (e_cur_job e) False (srv_conn s)))"

definition client_mining_submit :: "surroundings \<Rightarrow> u64 \<Rightarrow> json \<Rightarrow> server \<Rightarrow> server option" where
  "client_mining_submit e rid params s =
     (case submit_job (e_jobs e) params of
        None \<Rightarrow> Some (reject_share (e_conf e) rid Unknown_Work (m_last_sent_diff (miner_of s)) s)
      | Some (job, idx, id_s, quickdiff, empty_work) \<Rightarrow>
          let m = miner_of s; job_diff = (if quickdiff then m_quickdiff_value m else m_job_diffs m idx)
          in (case submit_work e m job id_s quickdiff empty_work job_diff params of
                Inl r \<Rightarrow> Some (reject_share (e_conf e) rid r job_diff s)
              | Inr w \<Rightarrow>
                  (case modified_username (username_mods (e_conf e)) (pool_address (e_conf e)) (username_or_null params) (upk_u16le (w_hash w) 0) of
                     None \<Rightarrow> None
                   | Some username \<Rightarrow>
                       let (s, was_block) = submit_if_block e job username quickdiff empty_work job_diff w s
                       in (case share_fault e m job idx quickdiff w of
                             Some r \<Rightarrow> Some (reject_share (e_conf e) rid r job_diff s)
                           | None \<Rightarrow>
                               (case datum_stratum_check_for_dupe (e_qs e) (job_times e) (e_stale_before e) (srv_dupes s) (dupe_share idx quickdiff w) of
                                  None \<Rightarrow> None
                                | Some (True, d) \<Rightarrow> Some (reject_share (e_conf e) rid Duplicate job_diff (s\<lparr>srv_dupes := d\<rparr>))
                                | Some (False, d) \<Rightarrow>
                                    let s = s\<lparr>srv_dupes := d\<rparr>;
                                        s = (if \<not> was_block \<and> j_is_datum_job job
                                             then emit (Datum_Pow username False empty_work quickdiff (w_header w) job_diff (w_full_cb w) (w_coinbase_index w)) s
                                             else s)
                                    in accept_share e rid job_diff s)))))"

section \<open>Dispatch\<close>

text \<open>
  One line from the client: the code, negative to drop it, and the new state. \<open>parse\<close> reads JSON, \<open>dump\<close> writes
  a string; \<open>cid\<close> and \<open>thread_id\<close> number the connection.
\<close>

definition datum_stratum_v1_socket_thread_client_cmd ::
  "(string \<Rightarrow> json option) \<Rightarrow> (string \<Rightarrow> string) \<Rightarrow> surroundings \<Rightarrow> u32 \<Rightarrow> u32 \<Rightarrow> string \<Rightarrow> server \<Rightarrow> (int \<times> server) option" where
  "datum_stratum_v1_socket_thread_client_cmd parse dump e cid thread_id line s =
     (if line = [] then Some (0, s)
      else if line ! 0 \<noteq> CHR 0x7B then Some (-1, s)
      else case parse line of None \<Rightarrow> Some (-2, s)
        | Some j \<Rightarrow>
          (case json_object_get j ''method'' of None \<Rightarrow> Some (-3, s)
           | Some mo \<Rightarrow>
             (case json_string_value mo of None \<Rightarrow> Some (-6, s)
              | Some mth \<Rightarrow>
                (case json_object_get j ''id'' of None \<Rightarrow> Some (-4, s)
                 | Some id_obj \<Rightarrow>
                   let (c, ok) = stratum_capture_request_id dump id_obj (srv_conn s);
                       s = s\<lparr>srv_conn := c\<rparr>;
                       rid = (case id_obj of JInt i \<Rightarrow> word_of_int i | _ \<Rightarrow> 0)
                   in if \<not> ok then Some (-4, s)
                      else (case json_object_get j ''params'' of None \<Rightarrow> Some (-5, s)
                        | Some params \<Rightarrow>
                          if mth = [] then Some (-7, s)
                          else if mth = ''mining.submit'' then map_option (Pair 0) (client_mining_submit e rid params s)
                          else if mth = ''mining.configure''
                          then (let (r, c) = client_mining_configure rid params (srv_conn s) in Some (r, s\<lparr>srv_conn := c\<rparr>))
                          else if mth = ''mining.subscribe''
                          then map_option (\<lambda>(r, c). (r, s\<lparr>srv_conn := c\<rparr>))
                                 (client_mining_subscribe
                                   (send_mining_notify (e_sha e) (e_buf1 e) (e_buf2 e) (e_user_cb e) (e_conf e) (e_now e) (e_full_ready e) (e_cur_job e) True False False)
                                   (e_conf e) (e_now e) cid thread_id rid params (srv_conn s))
                          else if mth = ''mining.authorize''
                          then (let (r, c) = client_mining_authorize (e_addr_script e) (e_conf e) rid params (srv_conn s) in Some (r, s\<lparr>srv_conn := c\<rparr>))
                          else Some (0, s\<lparr>srv_conn := send_error_to_client rid (''[-3,'' @ quoted ''Method not found'' @ '',null]'') (srv_conn s)\<rparr>))))))"

end
