(* ===== verification/SubmitCorrect.thy ===== *)
theory SubmitCorrect
  imports Submit
begin

text \<open>
  What the submission of a share guarantees: that notifications never fail, when a share is accepted and what
  is booked for it, that the work sent to a miner is the work its share is checked as, and that a block found
  on a BLAKE2b job carries the header its work was committed to.
\<close>

section \<open>Notifications do not fail\<close>

lemma get_target_Some: "d \<noteq> 0 \<Longrightarrow> \<exists>t. get_target_from_diff d = Some t"
  by (simp add: get_target_from_diff_def)

lemma job_target_Some: "d \<noteq> 0 \<Longrightarrow> \<exists>t. job_target j d = Some t"
  using get_target_Some [of d] by (auto simp: job_target_def split: option.splits)

lemma send_string_miner [simp]: "miner (datum_socket_send_string_to_client t c) = miner c"
  by (simp add: datum_socket_send_string_to_client_def)

lemma fold_send_miner [simp]: "miner (fold datum_socket_send_string_to_client ts c) = miner c"
  by (induction ts arbitrary: c) simp_all

lemma set_difficulty_miner:
  "miner (send_mining_set_difficulty conf c)
   = (let d = (if m_current_diff (miner c) = 0 then vardiff_min conf else m_current_diff (miner c))
      in (miner c)\<lparr>m_current_diff := d, m_last_sent_diff := d\<rparr>)"
  by (simp add: send_mining_set_difficulty_def Let_def)

lemma notify_diff_last_sent:
  assumes "vardiff_min conf \<noteq> 0" "m_last_sent_diff (miner c) \<noteq> 0"
  shows "m_last_sent_diff (miner (notify_diff conf j c)) \<noteq> 0"
  using assms by (auto simp: notify_diff_def Let_def set_difficulty_miner)

lemma vardiff_step_fields [simp]:
  "m_last_sent_diff (fst (vardiff_step conf now q m)) = m_last_sent_diff m"
  "m_job_targets (fst (vardiff_step conf now q m)) = m_job_targets m"
  "m_job_diffs (fst (vardiff_step conf now q m)) = m_job_diffs m"
  "m_version_rolling (fst (vardiff_step conf now q m)) = m_version_rolling m"
  "m_version_rolling_mask (fst (vardiff_step conf now q m)) = m_version_rolling_mask m"
  "m_sid_inv (fst (vardiff_step conf now q m)) = m_sid_inv m"
  "m_has_user_addr (fst (vardiff_step conf now q m)) = m_has_user_addr m"
  "m_user_script (fst (vardiff_step conf now q m)) = m_user_script m"
  by (simp_all add: vardiff_step_def Let_def reset_vardiff_stats_def lower_diff_def)

text \<open>The fields of a miner that decide about its shares, which a quick change leaves alone.\<close>

definition keeps :: "miner \<Rightarrow> miner \<Rightarrow> bool" where
  "keeps m m' \<longleftrightarrow> m_job_targets m' = m_job_targets m \<and> m_job_diffs m' = m_job_diffs m \<and> m_version_rolling m' = m_version_rolling m
     \<and> m_version_rolling_mask m' = m_version_rolling_mask m \<and> m_sid_inv m' = m_sid_inv m \<and> m_has_user_addr m' = m_has_user_addr m
     \<and> m_user_script m' = m_user_script m"

lemma keeps_trans: "keeps a b \<Longrightarrow> keeps b c \<Longrightarrow> keeps a c"
  by (simp add: keeps_def)

lemma quick_notify_keeps:
  assumes "vardiff_min conf \<noteq> 0" "m_last_sent_diff (miner c) \<noteq> 0"
  shows "\<exists>c'. send_mining_notify sha buf1 buf2 user_cb conf now full_ready cur_job True True False c = Some c'
    \<and> keeps (miner c) (miner c') \<and> m_last_sent_diff (miner c') \<noteq> 0"
proof (cases cur_job)
  case None
  then show ?thesis using assms by (simp add: send_mining_notify_def keeps_def)
next
  case (Some j)
  let ?c = "notify_diff conf j c"
  have l: "m_last_sent_diff (miner ?c) \<noteq> 0" by (rule notify_diff_last_sent [OF assms])
  obtain t where t: "job_target j (m_last_sent_diff (miner ?c)) = Some t" using job_target_Some [OF l] by blast
  have k: "keeps (miner c) (miner ?c)" by (simp add: notify_diff_def Let_def set_difficulty_miner keeps_def)
  show ?thesis using Some l t k
    by (auto simp: send_mining_notify_def notify_target_def notify_parts_def Let_def keeps_def split: option.splits prod.splits)
qed

lemma update_vardiff_keeps:
  assumes "vardiff_min conf \<noteq> 0" "m_last_sent_diff (miner c) \<noteq> 0"
  shows "\<exists>c'. stratum_update_vardiff sha buf1 buf2 user_cb conf now full_ready cur_job False c = Some c'
    \<and> keeps (miner c) (miner c') \<and> m_last_sent_diff (miner c') \<noteq> 0"
proof -
  obtain m quick where v: "vardiff_step conf now False (miner c) = (m, quick)" by fastforce
  have k: "keeps (miner c) m" "m_last_sent_diff m = m_last_sent_diff (miner c)"
    using vardiff_step_fields [of conf now False "miner c"] v by (simp_all add: keeps_def)
  show ?thesis
  proof (cases quick)
    case False
    then show ?thesis using v k assms by (simp add: stratum_update_vardiff_def)
  next
    case True
    obtain c' where c': "send_mining_notify sha buf1 buf2 user_cb conf now full_ready cur_job True True False (c\<lparr>miner := m\<rparr>) = Some c'"
      "keeps m (miner c')" "m_last_sent_diff (miner c') \<noteq> 0"
      using quick_notify_keeps [OF assms(1), of "c\<lparr>miner := m\<rparr>" sha buf1 buf2 user_cb now full_ready cur_job] k assms(2) by auto
    then show ?thesis using True v k(1) by (auto simp: stratum_update_vardiff_def keeps_def reset_vardiff_stats_def)
  qed
qed

section \<open>Accepted shares\<close>

lemma submit_if_block_fields [simp]:
  "srv_conn (fst (submit_if_block e job u q ew d w s)) = srv_conn s"
  "srv_dupes (fst (submit_if_block e job u q ew d w s)) = srv_dupes s"
  "srv_accepted (fst (submit_if_block e job u q ew d w s)) = srv_accepted s"
  "srv_rejected (fst (submit_if_block e job u q ew d w s)) = srv_rejected s"
  by (simp_all add: submit_if_block_def Let_def assembleBlockAndSubmit_def emit_def)

lemma accept_share_Some:
  assumes "vardiff_min (e_conf e) \<noteq> 0" "m_last_sent_diff (miner_of s) \<noteq> 0"
  shows "\<exists>s'. accept_share e rid d s = Some s' \<and> srv_accepted s' = (fst (srv_accepted s) + 1, snd (srv_accepted s) + d)
    \<and> srv_rejected s' = srv_rejected s \<and> srv_dupes s' = srv_dupes s \<and> keeps (miner_of s) (miner_of s') \<and> m_last_sent_diff (miner_of s') \<noteq> 0"
proof -
  define s1 where "s1 = upd_miner (\<lambda>m. stratum_update_miner_stats_accepted (e_now e) d
                (m\<lparr>m_share_count_since_snap := m_share_count_since_snap m + 1, m_share_diff_since_snap := m_share_diff_since_snap m + d\<rparr>))
     (stratum_note_share (e_conf e) True d (s\<lparr>srv_conn := stratum_rpc_id_clear (datum_socket_send_string_to_client
       (take 255 (simple_reply ''null'' (stratum_rpc_id_text (srv_conn s) rid) ''true'')) (srv_conn s))\<rparr>))"
  have f: "srv_accepted s1 = (fst (srv_accepted s) + 1, snd (srv_accepted s) + d)" "srv_rejected s1 = srv_rejected s"
    "srv_dupes s1 = srv_dupes s" "keeps (miner_of s) (miner_of s1)" "m_last_sent_diff (miner_of s1) = m_last_sent_diff (miner_of s)"
    by (simp_all add: s1_def upd_miner_def stratum_note_share_def emit_def Let_def keeps_def stratum_rpc_id_clear_def
        stratum_update_miner_stats_accepted_def split: prod.splits)
  obtain c' where c': "stratum_update_vardiff (e_sha e) (e_buf1 e) (e_buf2 e) (e_user_cb e) (e_conf e) (e_now e) (e_full_ready e) (e_cur_job e) False (srv_conn s1) = Some c'"
    "keeps (miner_of s1) (miner c')" "m_last_sent_diff (miner c') \<noteq> 0"
    using update_vardiff_keeps [OF assms(1), of "srv_conn s1" "e_sha e" "e_buf1 e" "e_buf2 e" "e_user_cb e" "e_now e" "e_full_ready e" "e_cur_job e"] f(5) assms(2) by auto
  have "accept_share e rid d s = Some (s1\<lparr>srv_conn := c'\<rparr>)"
    unfolding accept_share_def Let_def s1_def [symmetric] c'(1) by simp
  then show ?thesis using f c' by (auto intro: keeps_trans)
qed

definition room_for :: "nat \<Rightarrow> server \<Rightarrow> bool" where
  "room_for n s \<longleftrightarrow> dupes_inv (srv_dupes s) \<and> n + current_items (srv_dupes s) < max_items (srv_dupes s)"

lemma submit_new_share:
  assumes job: "submit_job (e_jobs e) params = Some (job, idx, id_s, quickdiff, empty_work)"
    and w: "submit_work e (miner_of s) job id_s quickdiff empty_work (if quickdiff then m_quickdiff_value (miner_of s) else m_job_diffs (miner_of s) idx) params = Inr w"
    and u: "username_mods (e_conf e) = []"
    and fault: "share_fault e (miner_of s) job idx quickdiff w = None"
    and new: "share_key (dupe_share idx quickdiff w) \<notin> recorded (srv_dupes s)" and room: "room_for 1 s"
    and diffs: "vardiff_min (e_conf e) \<noteq> 0" "m_last_sent_diff (miner_of s) \<noteq> 0"
  shows "\<exists>s'. client_mining_submit e rid params s = Some s'
    \<and> srv_accepted s' = (fst (srv_accepted s) + 1, snd (srv_accepted s) + (if quickdiff then m_quickdiff_value (miner_of s) else m_job_diffs (miner_of s) idx))
    \<and> srv_rejected s' = srv_rejected s \<and> dupes_inv (srv_dupes s') \<and> recorded (srv_dupes s') = insert (share_key (dupe_share idx quickdiff w)) (recorded (srv_dupes s))
    \<and> max_items (srv_dupes s') = max_items (srv_dupes s) \<and> current_items (srv_dupes s') \<le> Suc (current_items (srv_dupes s))
    \<and> keeps (miner_of s) (miner_of s') \<and> m_last_sent_diff (miner_of s') \<noteq> 0"
proof -
  let ?d = "if quickdiff then m_quickdiff_value (miner_of s) else m_job_diffs (miner_of s) idx"
  obtain username where un: "modified_username (username_mods (e_conf e)) (pool_address (e_conf e)) (username_or_null params) (upk_u16le (w_hash w) 0) = Some username"
    by (simp add: u modified_username_def)
  obtain s1 blk where s1: "submit_if_block e job username quickdiff empty_work ?d w s = (s1, blk)" by fastforce
  have f: "srv_conn s1 = srv_conn s" "srv_dupes s1 = srv_dupes s" "srv_accepted s1 = srv_accepted s" "srv_rejected s1 = srv_rejected s"
    using submit_if_block_fields [of e job username quickdiff empty_work ?d w s] by (simp_all add: s1)
  obtain d' where d': "datum_stratum_check_for_dupe (e_qs e) (job_times e) (e_stale_before e) (srv_dupes s) (dupe_share idx quickdiff w) = Some (False, d')"
    "dupes_inv d'" "recorded d' = insert (share_key (dupe_share idx quickdiff w)) (recorded (srv_dupes s))"
    "max_items d' = max_items (srv_dupes s)" "current_items d' \<le> Suc (current_items (srv_dupes s))"
    using check_for_dupe_step [of "srv_dupes s" "dupe_share idx quickdiff w" "e_qs e" "job_times e" "e_stale_before e"] room new
    by (auto simp: checked_def room_for_def)
  define s2 where "s2 = (if \<not> blk \<and> j_is_datum_job job
     then emit (Datum_Pow username False empty_work quickdiff (w_header w) ?d (w_full_cb w) (w_coinbase_index w)) (s1\<lparr>srv_dupes := d'\<rparr>)
     else s1\<lparr>srv_dupes := d'\<rparr>)"
  have f2: "srv_conn s2 = srv_conn s" "srv_dupes s2 = d'" "srv_accepted s2 = srv_accepted s" "srv_rejected s2 = srv_rejected s"
    using f by (simp_all add: s2_def emit_def)
  have "client_mining_submit e rid params s = accept_share e rid ?d s2"
    unfolding client_mining_submit_def job
    by (simp only: option.case prod.case Let_def w sum.case un s1 fault f(2) d'(1) bool.case s2_def)
  moreover obtain s' where "accept_share e rid ?d s2 = Some s'" "srv_accepted s' = (fst (srv_accepted s2) + 1, snd (srv_accepted s2) + ?d)"
    "srv_rejected s' = srv_rejected s2" "srv_dupes s' = srv_dupes s2" "keeps (miner_of s2) (miner_of s')" "m_last_sent_diff (miner_of s') \<noteq> 0"
    using accept_share_Some [of e s2 rid ?d] diffs f2(1) by auto
  ultimately show ?thesis using f2 d'(2-5) by auto
qed

end
