(* ===== verification/Replay.thy ===== *)
theory Replay
  imports SubmitCorrect
begin

text \<open>
  On a BLAKE2b job the version of a share is part of the key of the duplicate table but not of the work that is
  hashed, so one piece of work is accepted once for each version string the miner may send. A small server for
  examples follows.
\<close>

section \<open>One piece of work, two versions\<close>

lemma submit_parts_keep:
  assumes "keeps m m'"
  shows "submit_version m' = submit_version m" "submit_extranonce m' = submit_extranonce m" "submit_coinbase e m' = submit_coinbase e m"
proof -
  show "submit_version m' = submit_version m" using assms unfolding keeps_def by (intro ext) (auto simp: submit_version_def split: option.split)
  show "submit_extranonce m' = submit_extranonce m" using assms unfolding keeps_def by (intro ext) (auto simp: submit_extranonce_def split: option.split)
  have "user_coinbase (e_user_cb e) (e_conf e) m' = user_coinbase (e_user_cb e) (e_conf e) m"
    using assms unfolding keeps_def by (intro ext) (simp add: user_coinbase_def)
  then show "submit_coinbase e m' = submit_coinbase e m" by (intro ext) (simp only: submit_coinbase_def Let_def)
qed

lemma submit_work_keeps: "keeps m m' \<Longrightarrow> submit_work e m' job id_s q ew d params = submit_work e m job id_s q ew d params"
  unfolding submit_work_def by (simp only: submit_parts_keep)

lemma share_fault_keeps: "keeps m m' \<Longrightarrow> share_fault e m' job idx False w = share_fault e m job idx False w"
  by (simp add: keeps_def share_fault_def)

lemma share_fault_bver [simp]: "share_fault e m job idx q (w\<lparr>w_bver := v\<rparr>) = share_fault e m job idx q w"
  unfolding share_fault_def by simp

lemma param_string_update: "i \<noteq> k \<Longrightarrow> param_string (JArray (xs[k := v])) i = param_string (JArray xs) i"
  by (simp add: param_string_def json_array_get_def)

lemma param_string_updated: "k < length xs \<Longrightarrow> param_string (JArray (xs[k := JString v])) k = Some v"
  by (simp add: param_string_def json_array_get_def json_string_value_def)

definition with_version :: "json list \<Rightarrow> string \<Rightarrow> json" where
  "with_version xs v = JArray (xs[5 := JString v])"

definition roll_of :: "stratum_job \<Rightarrow> string \<Rightarrow> u32" where
  "roll_of job v = j_version_uint job OR ucast (strtoul16 v)"

definition may_roll :: "miner \<Rightarrow> string \<Rightarrow> bool" where
  "may_roll m v \<longleftrightarrow> m_version_rolling m \<and> ucast (strtoul16 v) AND m_version_rolling_mask m = (ucast (strtoul16 v) :: u32)"

text \<open>On a BLAKE2b job the version is not part of the work.\<close>

lemma submit_work_version:
  assumes "stratum_job_is_blake2b job" "length xs = 6" "may_roll m v" "may_roll m v'"
    and "submit_work e m job id_s q ew d (with_version xs v) = Inr w"
  shows "submit_work e m job id_s q ew d (with_version xs v') = Inr (w\<lparr>w_bver := roll_of job v'\<rparr>)"
proof -
  have sv: "submit_version m job (with_version xs u) = Some (roll_of job u)" if "may_roll m u" for u
    using that assms(2) by (simp add: submit_version_def with_version_def may_roll_def roll_of_def param_string_updated Let_def)
  have other: "submit_extranonce m (with_version xs v') = submit_extranonce m (with_version xs v)"
    "submit_field b (with_version xs v') 3 = submit_field b (with_version xs v) 3"
    "submit_field b (with_version xs v') 4 = submit_field b (with_version xs v) 4" for b
    by (simp_all add: submit_extranonce_def submit_field_def with_version_def param_string_update)
  have hash: "submit_hash e job b merkle c en nt nc = submit_hash e job b' merkle c en nt nc" for b b' merkle c en nt nc
    using assms(1) by (simp add: submit_hash_def)
  show ?thesis using assms(5) hash [of "roll_of job v'" _ _ _ _ _ "roll_of job v"]
    unfolding submit_work_def sv [OF assms(3)] sv [OF assms(4)] option.case other
    by (auto simp: Let_def split: option.splits sum.splits prod.splits)
qed

lemma submit_job_version: "submit_job jobs (with_version xs v) = submit_job jobs (JArray xs)"
  by (simp add: submit_job_def with_version_def param_string_update)

text \<open>C34: on a BLAKE2b job a miner that may roll the version gets the same piece of work accepted twice, once for each of two allowed version strings.\<close>

theorem blake2b_version_replay:
  assumes blake: "stratum_job_is_blake2b job" and xs: "length xs = 6"
    and job: "submit_job (e_jobs e) (JArray xs) = Some (job, idx, id_s, False, empty_work)"
    and roll: "may_roll (miner_of s) v" "may_roll (miner_of s) v'" "roll_of job v \<noteq> roll_of job v'"
    and w: "submit_work e (miner_of s) job id_s False empty_work (m_job_diffs (miner_of s) idx) (with_version xs v) = Inr w"
    and u: "username_mods (e_conf e) = []"
    and fault: "share_fault e (miner_of s) job idx False w = None"
    and new: "recorded (srv_dupes s) = {}" and room: "room_for 2 s"
    and diffs: "vardiff_min (e_conf e) \<noteq> 0" "m_last_sent_diff (miner_of s) \<noteq> 0"
  shows "\<exists>s1 s2. client_mining_submit e rid (with_version xs v) s = Some s1 \<and> client_mining_submit e rid' (with_version xs v') s1 = Some s2
    \<and> srv_accepted s2 = (fst (srv_accepted s) + 2, snd (srv_accepted s) + 2 * m_job_diffs (miner_of s) idx) \<and> srv_rejected s2 = srv_rejected s
    \<and> submit_work e (miner_of s1) job id_s False empty_work (m_job_diffs (miner_of s1) idx) (with_version xs v') = Inr (w\<lparr>w_bver := roll_of job v'\<rparr>)"
proof -
  let ?m = "miner_of s" and ?w' = "w\<lparr>w_bver := roll_of job v'\<rparr>"
  have wv: "w_bver w = roll_of job v"
    using w xs roll(1) by (auto simp: submit_work_def submit_version_def with_version_def may_roll_def roll_of_def param_string_updated Let_def
        split: option.splits sum.splits prod.splits)
  obtain s1 where s1: "client_mining_submit e rid (with_version xs v) s = Some s1"
    "srv_accepted s1 = (fst (srv_accepted s) + 1, snd (srv_accepted s) + m_job_diffs ?m idx)" "srv_rejected s1 = srv_rejected s"
    "dupes_inv (srv_dupes s1)" "recorded (srv_dupes s1) = {share_key (dupe_share idx False w)}"
    "max_items (srv_dupes s1) = max_items (srv_dupes s)" "current_items (srv_dupes s1) \<le> Suc (current_items (srv_dupes s))"
    "keeps ?m (miner_of s1)" "m_last_sent_diff (miner_of s1) \<noteq> 0"
    using submit_new_share [of e "with_version xs v" job idx id_s False empty_work s w rid] job w u fault new room diffs
    by (auto simp: submit_job_version room_for_def)
  have w1: "submit_work e (miner_of s1) job id_s False empty_work (m_job_diffs (miner_of s1) idx) (with_version xs v') = Inr ?w'"
    using submit_work_version [OF blake xs roll(1,2) w] submit_work_keeps [OF s1(8)] s1(8) by (simp add: keeps_def)
  have f1: "share_fault e (miner_of s1) job idx False ?w' = None"
    using fault unfolding share_fault_keeps [OF s1(8)] by simp
  have "share_key (dupe_share idx False ?w') \<noteq> share_key (dupe_share idx False w)"
    using roll(3) wv by (simp add: dupe_share_def share_key_def)
  then obtain s2 where s2: "client_mining_submit e rid' (with_version xs v') s1 = Some s2"
    "srv_accepted s2 = (fst (srv_accepted s1) + 1, snd (srv_accepted s1) + m_job_diffs (miner_of s1) idx)" "srv_rejected s2 = srv_rejected s1"
    using submit_new_share [of e "with_version xs v'" job idx id_s False empty_work s1 ?w' rid'] job w1 u f1 s1(4,5,6,7,9) room diffs(1)
    by (auto simp: submit_job_version room_for_def)
  have "m_job_diffs (miner_of s1) idx = m_job_diffs ?m idx" using s1(8) by (simp add: keeps_def)
  then show ?thesis using s1(1,2,3) s2 w1 by (auto simp: algebra_simps)
qed

section \<open>A small server\<close>

text \<open>A small server for examples: constant hashes, one BLAKE2b job, a miner that may roll the version.\<close>

definition ex_template :: template where
  "ex_template = \<lparr>t_coinbasevalue = 5000000000, t_mintime = 10, t_curtime = 20, t_sizelimit = 4000000, t_weightlimit = 4000000, t_height = 100,
     t_version = 0x20000000, t_sigoplimit = 80000, t_bits = ''1d00ffff'', t_bits_bin = [0xff, 0xff, 0x00, 0x1d], t_bits_uint = 0x1d00ffff,
     t_previousblockhash = replicate 64 CHR ''0'', t_previousblockhash_bin = replicate 32 0, t_default_witness_commitment = [],
     t_default_witness_commitment_bin = [], t_block_target_hex = [], t_block_target = replicate 32 0, t_header_version = 2, t_header_transaction_count = 0,
     t_header_flags = 0, t_header_time_offset = 0, t_clear_bits = 0, t_xor_key = replicate 16 0, t_merge_mining_rhs = replicate 32 0,
     t_blake2b_headline = [], t_txn_total_weight = 0, t_txn_total_size = 0, t_txn_total_sigops = 0, t_txns = []\<rparr>"

definition ex_coinbase :: coinbase where
  "ex_coinbase = \<lparr>coinb1_text = '''', coinb2_text = '''', coinb1_bin = [1, 2], coinb2_bin = [3]\<rparr>"

definition ex_job :: stratum_job where
  "ex_job = \<lparr>j_global_index = 5, j_job_id = ''0000000100c0db'', j_prevhash = '''', j_prevhash_bin = replicate 32 0, j_version = '''',
     j_version_uint = 0x20000000, j_nbits = '''', j_nbits_bin = [0, 0, 0, 0], j_nbits_uint = 0x1d00ffff, j_ntime = '''', j_block_target = replicate 32 0,
     j_blake2b_commitment = replicate 32 9, j_blake2b_sia_prevhash = replicate 32 0, j_blake2b_sia_coinb1 = replicate 39 0, j_blake2b_time_on_wire = 20,
     j_template = ex_template, j_merklebranches_bin = [], j_merklebranches_full = ''[]'', j_coinbase = replicate 6 ex_coinbase,
     j_subsidy_only_coinbase = ex_coinbase, j_target_pot_index = 0, j_blake2b_coinbase_index = 0, j_height = 100, j_tsms = 1000,
     j_is_stale_prevblock = False, j_is_datum_job = False, j_job_state = 0, j_need_coinbaser = False, j_is_new_block = False,
     j_enprefix = 0, j_coinbase_value = 5000000000, j_pool_addr_script = [], j_carousel_supplier = [], j_carousel_supplier_name = [], j_datum_job_idx = 0\<rparr>"

definition ex_conf :: stratum_conf where
  "ex_conf = \<lparr>vardiff_min = 8, vardiff_quickdiff_count = 8, vardiff_quickdiff_delta = 8, vardiff_target_shares_min = 8, override_vardiff_min = 8,
     share_stale_seconds = 60, work_update_seconds = 60, fingerprint_miners = False, personal_lotto = False, blake2b_chirp = False,
     username_mods = [], pool_address = ''''\<rparr>"

definition ex_miner :: miner where
  "ex_miner = \<lparr>m_sid = 7, m_sid_inv = 7, m_request_id_json = '''', m_useragent = '''', m_last_auth_username = ''u'', m_version_rolling = True,
     m_version_rolling_mask = 0x1fffe000, m_authorized = True, m_subscribed = True, m_subscribe_tsms = 0, m_last_sent_diff = 8, m_current_diff = 8,
     m_job_targets = (\<lambda>_. replicate 32 0xff), m_job_diffs = (\<lambda>_. 8), m_coinbase_selection = 0, m_share_diff_accepted = 0,
     m_share_count_accepted = 0, m_share_diff_rejected = 0, m_share_count_rejected = 0, m_share_count_since_snap = 0, m_share_diff_since_snap = 0,
     m_share_snap_tsms = 0, m_quickdiff_active = False, m_quickdiff_value = 0, m_quickdiff_target = [], m_forced_high_min_diff = 0,
     m_last_sent_job_index = 5, m_has_user_addr = False, m_user_script = [], m_user_commitment = [], m_user_sia_coinb1 = [],
     m_user_commit_job_index = None, m_connect_tsms = 0, m_stats = \<lparr>us_active_index = False, us_last_swap_tsms = 0, us_last_swap_ms = 0, us_diff_accepted = (0, 0), us_last_share_tsms = 0\<rparr>\<rparr>"

definition ex_env :: surroundings where
  "ex_env = \<lparr>e_sha = (\<lambda>_. replicate 32 0), e_blake = (\<lambda>_. Some (1 # replicate 31 0)), e_buf1 = replicate 119 0, e_buf2 = replicate 96 0,
     e_stack32 = replicate 32 0, e_user_cb = (\<lambda>_ _. None), e_addr_script = (\<lambda>_. []), e_conf = ex_conf, e_now = 2000, e_full_ready = False,
     e_cur_job = None, e_jobs = (\<lambda>i. if i = 5 then Some ex_job else None), e_qs = insort_cmp, e_stale_before = 0, e_node = (\<lambda>_. True), e_time = 0\<rparr>"

definition ex_server :: server where
  "ex_server = \<lparr>srv_conn = \<lparr>miner = ex_miner, w_buffer = ''''\<rparr>, srv_dupes = ex_dupes, srv_accepted = (0, 0),
     srv_rejected = (0, 0), srv_effects = []\<rparr>"

definition ex_params :: "json list" where
  "ex_params = [JString ''u'', JString ''0000000100c0db00'', JString ''0000000000000000'', JString ''00000014'', JString ''00000001'', JString '''']"

lemma strtoul_ex [simp]: "strtoul16 ''00000000'' = 0" "strtoul16 ''00000014'' = 20" "strtoul16 ''00000001'' = 1" "strtoul16 ''00002000'' = 0x2000"
  by (simp_all add: strtoul16_def skip_0x_def hex_value_def is_space_def)

lemma ex_param [simp]:
  "param_string (with_version ex_params v) 0 = Some ''u''"
  "param_string (with_version ex_params v) 1 = Some ''0000000100c0db00''"
  "param_string (with_version ex_params v) 2 = Some ''0000000000000000''"
  "param_string (with_version ex_params v) 3 = Some ''00000014''"
  "param_string (with_version ex_params v) 4 = Some ''00000001''"
  "param_string (with_version ex_params v) 5 = Some v"
  by (simp_all add: with_version_def ex_params_def param_string_def json_array_get_def json_string_value_def)

lemma hex_zero [simp]: "hex2bin_uchar CHR ''0'' CHR ''0'' = 0"
  using hex2bin_hexd [of 0 0] by (simp add: hexd_def)

lemma replicate_4_8: "replicate 4 x = [x, x, x, x]" "replicate 8 x = [x, x, x, x, x, x, x, x]"
  by (simp_all add: eval_nat_numeral)

lemma pk_ex: "pk_u32le (replicate 4 0) 0 7 = [7, 0, 0, 0]"  "pk_u32le (replicate 8 0) 0 1 = [1, 0, 0, 0, 0, 0, 0, 0]"
  "pk_u32le (replicate 8 0) 0 20 = [20, 0, 0, 0, 0, 0, 0, 0]"
  unfolding replicate_4_8 by (simp_all add: pk_u32le_def)

lemma ex_sid [simp]: "m_sid_inv ex_miner = 7" by (simp add: ex_miner_def)

lemma ex_job_blake2b [simp]: "stratum_job_is_blake2b ex_job" by (simp add: stratum_job_is_blake2b_def ex_job_def ex_template_def)

lemma ex_pow_hash [simp]: "datum_blake2b_pow_hash_le (\<lambda>_. replicate 32 0) (\<lambda>_. Some (1 # replicate 31 0)) work (replicate 16 0) 0 = Some (replicate 31 0 @ [1])"
  by (simp add: pow_hash_rev datum_blake2b_xor_key_mask_def datum_xor_key_is_null_def masked_def upt_rec eval_nat_numeral)

lemma ex_version: "submit_version ex_miner ex_job (with_version ex_params ''00000000'') = Some 0x20000000"
  by (simp add: submit_version_def ex_job_def)
lemma ex_extranonce: "submit_extranonce ex_miner (with_version ex_params ''00000000'') = Some [7, 0, 0, 0, 0, 0, 0, 0, 0, 0, 0, 0]"
  by (simp add: submit_extranonce_def pk_ex)
lemma ex_submit_coinbase: "submit_coinbase ex_env ex_miner ex_job ''0000000100c0db00'' False = Some (ex_coinbase, replicate 32 9, 0)"
  by (simp add: submit_coinbase_def user_coinbase_def ex_env_def ex_conf_def) (simp add: ex_job_def MAX_COINBASE_TYPES_def)
lemma ex_ntime: "submit_field True (with_version ex_params ''00000000'') 3 = Some ([20,0,0,0,0,0,0,0], 20)"
 by (simp add: submit_field_def pk_ex)
lemma ex_nonce: "submit_field True (with_version ex_params ''00000000'') 4 = Some ([1,0,0,0,0,0,0,0], 1)"
 by (simp add: submit_field_def pk_ex)
lemma ex_hash: "\<exists>w. \<forall>ms. submit_hash ex_env ex_job v ms c en nt nc = Inr (w, replicate 31 0 @ [1])" 
  by (simp add: submit_hash_def datum_blake2b_work_root_def datum_blake2b_256_def) (simp add: ex_env_def ex_job_def ex_template_def)
lemma ex_compare: "compare_hashes (replicate 31 0 @ [1]) (replicate 32 0xff) \<le> 0"
  by code_simp
lemma ex_submit_work:
  "\<exists>w. submit_work ex_env ex_miner ex_job ''0000000100c0db00'' False False 8 (with_version ex_params ''00000000'') = Inr w
    \<and> share_fault ex_env ex_miner ex_job 5 False w = None"
proof -
  obtain h where h: "submit_hash ex_env ex_job 0x20000000 m (replicate 32 9) [7, 0, 0, 0, 0, 0, 0, 0, 0, 0, 0, 0] ([20,0,0,0,0,0,0,0], 20) ([1,0,0,0,0,0,0,0], 1) = Inr (h, replicate 31 0 @ [1])" for m
    using ex_hash by metis
  show ?thesis 
    using ex_compare by (simp add: submit_work_def ex_version ex_extranonce ex_submit_coinbase ex_ntime ex_nonce h Let_def share_fault_def) (simp add: ex_env_def ex_job_def ex_template_def ex_miner_def ex_conf_def)
qed
lemma ex_job_index: "job_index_of ''0000000100c0db00'' = 5"
  using hex2bin_hexd [of 12 0] hex2bin_hexd [of 13 11] by (simp add: job_index_of_def STRATUM_JOB_INDEX_XOR_def hexd_def)

lemma ex_submit_job: "submit_job (e_jobs ex_env) (JArray ex_params) = Some (ex_job, 5, ''0000000100c0db00'', False, False)"
proof -
  have "param_string (JArray ex_params) 1 = Some ''0000000100c0db00''"
    by (simp add: ex_params_def param_string_def json_array_get_def json_string_value_def)
  then show ?thesis
    by (simp add: submit_job_def ex_job_index MAX_STRATUM_JOBS_def del: One_nat_def) (simp add: ex_env_def ex_job_def)
qed

theorem blake2b_version_replay_witness:
  "\<exists>s1 s2. client_mining_submit ex_env 1 (with_version ex_params ''00000000'') ex_server = Some s1
    \<and> client_mining_submit ex_env 2 (with_version ex_params ''00002000'') s1 = Some s2 \<and> srv_accepted s2 = (2, 16) \<and> srv_rejected s2 = (0, 0)"
proof -
  obtain w where w: "submit_work ex_env ex_miner ex_job ''0000000100c0db00'' False False 8 (with_version ex_params ''00000000'') = Inr w"
    "share_fault ex_env ex_miner ex_job 5 False w = None" using ex_submit_work by blast
  have m: "miner_of ex_server = ex_miner" "srv_accepted ex_server = (0, 0)" "srv_rejected ex_server = (0, 0)" "m_job_diffs ex_miner 5 = 8"
    "m_last_sent_diff ex_miner = 8" by (simp_all add: ex_server_def ex_miner_def)
  have r: "roll_of ex_job ''00000000'' \<noteq> roll_of ex_job ''00002000''" "may_roll ex_miner ''00000000''" "may_roll ex_miner ''00002000''"
    by (simp_all add: roll_of_def may_roll_def ex_job_def ex_miner_def)
  have d: "recorded (srv_dupes ex_server) = {}" "room_for 2 ex_server"
    by (simp_all add: ex_server_def room_for_def dupes_init_fresh [OF ex_dupes_init]) (simp add: ex_dupes_def)
  have c: "username_mods (e_conf ex_env) = []" "vardiff_min (e_conf ex_env) \<noteq> 0" by (simp_all add: ex_env_def ex_conf_def)
  have "\<exists>s1 s2. client_mining_submit ex_env 1 (with_version ex_params ''00000000'') ex_server = Some s1 \<and> client_mining_submit ex_env 2 (with_version ex_params ''00002000'') s1 = Some s2
    \<and> srv_accepted s2 = (fst (srv_accepted ex_server) + 2, snd (srv_accepted ex_server) + 2 * m_job_diffs (miner_of ex_server) 5) \<and> srv_rejected s2 = srv_rejected ex_server
    \<and> submit_work ex_env (miner_of s1) ex_job ''0000000100c0db00'' False empty (m_job_diffs (miner_of s1) 5) (with_version ex_params ''00002000'') = Inr (w\<lparr>w_bver := roll_of ex_job ''00002000''\<rparr>)" if "empty = False" for empty
    unfolding that
    by (rule blake2b_version_replay [OF ex_job_blake2b _ ex_submit_job]) (use w m r d c in \<open>simp_all add: ex_params_def\<close>)
  then show ?thesis using m by simp blast
qed

end
