(* ===== verification/Work.thy ===== *)
theory Work
  imports Replay
begin

text \<open>
  The work a miner is sent and the work its share is checked as: \<^verbatim>\<open>send_mining_notify\<close> against
  \<^verbatim>\<open>client_mining_submit\<close>, and the header of a block against the commitment of its work.
\<close>

section \<open>Text and bytes\<close>

lemma length_hex_to_bin [simp]: "length (hex_to_bin s) = length s div 2"
  by (simp add: hex_to_bin_def)

lemma hex_to_bin_nth: "i < length s div 2 \<Longrightarrow> hex_to_bin s ! i = hex2bin_uchar (s ! (2 * i)) (s ! (2 * i + 1))"
  by (simp add: hex_to_bin_def)

lemma hex_to_bin_append: "even (length s) \<Longrightarrow> hex_to_bin (s @ t) = hex_to_bin s @ hex_to_bin t"
proof (induction "length s" arbitrary: s rule: less_induct)
  case less
  show ?case
  proof (cases s)
    case (Cons c s1)
    with less.prems obtain d s2 where "s = c # d # s2" by (cases s1) auto
    with less.hyps [of s2] less.prems show ?thesis by simp
  qed simp
qed

lemma hex_to_bin_update:
  assumes "i < length s div 2"
  shows "hex_to_bin (s[2 * i := c, 2 * i + 1 := d]) = (hex_to_bin s)[i := hex2bin_uchar c d]"
proof (rule nth_equalityI)
  fix j assume j: "j < length (hex_to_bin (s[2 * i := c, 2 * i + 1 := d]))"
  show "hex_to_bin (s[2 * i := c, 2 * i + 1 := d]) ! j = (hex_to_bin s)[i := hex2bin_uchar c d] ! j"
  proof (cases "j = i")
    case True
    have "2 * i + 1 < length s" using assms by linarith
    then show ?thesis using assms True by (simp add: hex_to_bin_nth)
  next
    case False
    then have "2 * j \<noteq> 2 * i + 1" "2 * j + 1 \<noteq> 2 * i" by presburger+
    then show ?thesis using assms False j by (simp add: hex_to_bin_nth)
  qed
qed simp

lemma hex_to_bin_take: "2 * n \<le> length s \<Longrightarrow> hex_to_bin (take (2 * n) s) = take n (hex_to_bin s)"
  by (rule nth_equalityI) (auto simp: hex_to_bin_nth)

lemma pk_u16le_last:
  "2 \<le> length b \<Longrightarrow> pk_u16le (b @ r) (length b - 2) v = take (length b - 2) b @ [ucast (v AND 0xff), ucast (drop_bit 8 v AND 0xff)] @ r"
  by (rule nth_equalityI) (auto simp: pk_u16le_def nth_append nth_list_update nth_Cons')

lemma upk_u16le_append: "2 \<le> length b \<Longrightarrow> upk_u16le (b @ r) (length b - 2) = upk_u16le b (length b - 2)"
proof -
  assume "2 \<le> length b"
  then have "length b - 2 < length b" "length b - 2 + 1 < length b" by linarith+
  then show ?thesis by (simp add: upk_u16le_def nth_append)
qed

lemma hex_to_bin_cut:
  assumes "length t = 2 * n" "2 \<le> n"
  shows "hex_to_bin (take (length t - 4) t @ e) = take (n - 2) (hex_to_bin t) @ hex_to_bin e"
proof -
  have "length t - 4 = 2 * (n - 2)" using assms by simp
  then show ?thesis using assms by (simp add: hex_to_bin_append hex_to_bin_take)
qed

section \<open>Jobs with a coinbase transaction\<close>

definition coinbase_ok :: "stratum_job \<Rightarrow> coinbase \<Rightarrow> bool" where
  "coinbase_ok j cb \<longleftrightarrow> even (length (coinb1_text cb)) \<and> coinb1_bin cb = hex_to_bin (coinb1_text cb) \<and> coinb2_bin cb = hex_to_bin (coinb2_text cb)
     \<and> j_target_pot_index j + 2 < length (coinb1_bin cb)"

lemma notified_coinb1:
  assumes ok: "coinbase_ok j cb" and blake: "\<not> stratum_job_is_blake2b j"
  shows "hex_to_bin (notify_coinb1 j cb d q) @ en @ hex_to_bin (coinb2_text cb) = submit_full_cb j cb en q d"
proof -
  define b i where "b = coinb1_bin cb" and "i = j_target_pot_index j"
  define t where "t = (coinb1_text cb)[2 * i := uchar_to_hex (floorPoT d) ! 0, 2 * i + 1 := uchar_to_hex (floorPoT d) ! 1]"
  have i: "i + 2 < length b" "hex_to_bin (coinb1_text cb) = b" "length (coinb1_text cb) = 2 * length b"
    using ok by (auto simp: coinbase_ok_def b_def i_def)
  have t: "hex_to_bin t = b[i := floorPoT d]" "length t = 2 * length b"
    using hex_to_bin_update [of i "coinb1_text cb"] i by (simp_all add: t_def)
  have h: "hex_to_bin ''4451'' = [0x44, 0x51]" "hex_to_bin ''BBAE'' = [0xBB, 0xAE]"
    using hex2bin_hexd [of 4 4] hex2bin_hexd [of 5 1] hex2bin_hexD [of 11 11] hex2bin_hexD [of 10 14] by (simp_all add: hexd_def hexD_def)
  have n: "notify_coinb1 j cb d q = (if q then take (length t - 4) t @ (if upk_u16le b (length b - 2) \<noteq> 0x5144 then ''4451'' else ''BBAE'') else t)"
    by (simp only: notify_coinb1_def Let_def b_def i_def t_def)
  have f: "submit_full_cb j cb en q d = (if q then pk_u16le (b @ en @ coinb2_bin cb) (length b - 2) (if upk_u16le b (length b - 2) \<noteq> 0x5144 then 0x5144 else 0xAEBB)
     else b @ en @ coinb2_bin cb)[i := floorPoT d]"
    using blake upk_u16le_append [of b] i(1) by (simp add: submit_full_cb_def Let_def b_def i_def)
  have c2: "coinb2_bin cb = hex_to_bin (coinb2_text cb)" using ok by (simp add: coinbase_ok_def)
  have cut: "hex_to_bin (take (length t - 4) t @ e) = take (length b - 2) (b[i := floorPoT d]) @ hex_to_bin e" for e
    using hex_to_bin_cut [OF t(2)] i(1) t(1) by simp
  show ?thesis
  proof (cases q)
    case False
    then show ?thesis unfolding n f c2 using t(1) i(1) by (simp add: list_update_append)
  next
    case True
    have i2: "i < length b - 2" "2 \<le> length b" using i(1) by linarith+
    then show ?thesis unfolding n f c2 pk_u16le_last [OF i2(2)] if_P [OF True] using cut h
      by (simp add: list_update_append take_update_swap)
  qed
qed


text \<open>The id of a submission without its letter, as the submission keeps it.\<close>

definition plain_id :: "string \<Rightarrow> string" where
  "plain_id s = (if length s = 17 then drop 1 s else s)"

lemma coinbase_of_id:
  assumes "length jid = 14" "n < 256"
  shows "unat (hex2bin_uchar ((jid @ fmt_hex 2 n) ! 14) ((jid @ fmt_hex 2 n) ! 15)) = n" "length (jid @ fmt_hex 2 n) = 16"
  using assms by (simp_all add: fmt_hex_byte nth_append unat_of_nat)

lemma coinbase_of_empty_id: "length jid = 14 \<Longrightarrow> unat (hex2bin_uchar ((jid @ ''ff'') ! 14) ((jid @ ''ff'') ! 15)) = 255"
  using hex2bin_hexd [of 15 15] by (simp add: nth_append hexd_def)

lemma notify_target_fields:
  assumes "notify_target j q m = Some m1"
  shows "m_last_sent_diff m1 = m_last_sent_diff m" "m_coinbase_selection m1 = m_coinbase_selection m"
    "(if q then m_quickdiff_value m1 else m_job_diffs m1 (j_global_index j)) = m_last_sent_diff m"
  using assms by (auto simp: notify_target_def)

text \<open>
  The coinbase transaction a miner builds from a notification and its extranonce is, on an ordinary job, the one
  its share is checked with, for the job id, difficulty and kind of the notification.
\<close>

lemma notified_coinbase_sent:
  assumes blake: "\<not> stratum_job_is_blake2b j" and id: "length (j_job_id j) = 14" and sel: "m_coinbase_selection m < MAX_COINBASE_TYPES"
    and ok: "coinbase_ok j (if new then j_subsidy_only_coinbase j else j_coinbase j ! notify_cbselect ready j m new)"
    and kind: "\<not> (q \<and> new)" and t: "notify_target j q m = Some m1"
    and p: "notify_parts sha buf1 buf2 u conf ready j clean q new m1 = (m2, parts)"
  shows "\<exists>cb com ci. submit_coinbase e m2 j (plain_id (notify_id j (notify_cbselect ready j m1 new) q new)) new = Some (cb, com, ci)
    \<and> hex_to_bin (parts ! 2) @ en @ hex_to_bin (parts ! 4) = submit_full_cb j cb en q (if q then m_quickdiff_value m2 else m_job_diffs m2 (j_global_index j))"
proof -
  let ?sel = "notify_cbselect ready j m1 new" and ?d = "m_last_sent_diff m1"
  define cb where "cb = (if \<not> q \<and> new then j_subsidy_only_coinbase j else j_coinbase j ! ?sel)"
  have six: "?sel < 6" using sel notify_target_fields(2) [OF t] by (simp add: notify_cbselect_def MAX_COINBASE_TYPES_def blake)
  have parts: "m2 = m1" "parts ! 2 = notify_coinb1 j cb ?d q" "parts ! 4 = coinb2_text cb"
    using p blake by (auto simp: notify_parts_def Let_def cb_def)
  have "?sel = notify_cbselect ready j m new" using notify_target_fields(2) [OF t] by (simp add: notify_cbselect_def)
  then have cb: "coinbase_ok j cb" using ok kind by (auto simp: cb_def)
  have "\<exists>com ci. submit_coinbase e m2 j (plain_id (notify_id j ?sel q new)) new = Some (cb, com, ci)"
  proof (cases new)
    case True
    then show ?thesis using kind blake id coinbase_of_empty_id [OF id] by (simp add: submit_coinbase_def notify_id_def plain_id_def cb_def)
  next
    case False
    have "plain_id (notify_id j ?sel q new) = j_job_id j @ fmt_hex 2 ?sel"
      using False six coinbase_of_id(2) [OF id, of ?sel] by (simp add: notify_id_def plain_id_def)
    then show ?thesis using False blake six coinbase_of_id(1) [OF id, of ?sel]
      by (simp add: submit_coinbase_def cb_def MAX_COINBASE_TYPES_def Let_def)
  qed
  moreover have "(if q then m_quickdiff_value m2 else m_job_diffs m2 (j_global_index j)) = ?d"
    using notify_target_fields [OF t] parts(1) by (auto split: if_splits)
  ultimately show ?thesis using notified_coinb1 [OF cb blake] parts by auto
qed

section \<open>Jobs with a commitment\<close>

lemma commitment_Some:
  assumes "length buf1 = 119"
  shows "\<exists>c. (\<forall>old. datum_blake2b_commit_for_coinbase sha buf1 buf2 s cb t old = (c, datum_blake2b_sia_coinb1 c))
    \<and> datum_blake2b_header_commitment sha buf1 buf2
         (commit_fields (j_template s) (stratum_job_merkle_root_calc (my_dblsha256 sha) (j_merklebranches_bin s) (my_dblsha256 sha (coinb1_bin cb @ replicate 12 0 @ coinb2_bin cb))) t)
         (t_xor_key (j_template s)) (t_merge_mining_rhs (j_template s)) = Some c"
proof -
  have "h1_payload h k buf1 \<noteq> None" for h k using assms by (simp add: h1_payload_def Let_def)
  then have "\<exists>c. datum_blake2b_header_commitment sha buf1 buf2 h k r = Some c" for h k r
    by (auto simp: datum_blake2b_header_commitment_def Let_def split: option.splits)
  then obtain c where "datum_blake2b_header_commitment sha buf1 buf2
         (commit_fields (j_template s) (stratum_job_merkle_root_calc (my_dblsha256 sha) (j_merklebranches_bin s) (my_dblsha256 sha (coinb1_bin cb @ replicate 12 0 @ coinb2_bin cb))) t)
         (t_xor_key (j_template s)) (t_merge_mining_rhs (j_template s)) = Some c" by blast
  then show ?thesis by (intro exI [of _ c]) (simp add: datum_blake2b_commit_for_coinbase_def)
qed

text \<open>The fields of a job that its commitment and its coinbase transactions come from.\<close>

definition refreshed :: "surroundings \<Rightarrow> stratum_job \<Rightarrow> bool" where
  "refreshed e j \<longleftrightarrow> stratum_job_is_blake2b j
     \<and> (let i = (if j_blake2b_coinbase_index j < MAX_COINBASE_TYPES then j_blake2b_coinbase_index j else 0)
        in \<exists>old. (j_blake2b_commitment j, j_blake2b_sia_coinb1 j)
             = datum_blake2b_commit_for_coinbase (e_sha e) (e_buf1 e) (e_buf2 e) j (j_coinbase j ! i) (j_blake2b_time_on_wire j) old)"

lemma refresh_form:
  assumes "stratum_job_is_blake2b j"
  obtains t c s1 sp ph old where
    "datum_stratum_job_refresh_blake2b sha buf1 buf2 j
     = j\<lparr>j_blake2b_time_on_wire := t, j_blake2b_commitment := c, j_blake2b_sia_coinb1 := s1, j_blake2b_sia_prevhash := sp, j_prevhash := ph\<rparr>"
    "datum_blake2b_commit_for_coinbase sha buf1 buf2 j
       (j_coinbase j ! (if j_blake2b_coinbase_index j < MAX_COINBASE_TYPES then j_blake2b_coinbase_index j else 0)) t old = (c, s1)"
proof -
  define t where "t = (if t_header_flags (j_template j) AND DATUM_BLAKE2B_USE_TIME_OFFSET \<noteq> 0
    then (case datum_blake2b_time_on_wire (t_curtime (j_template j)) (ucast (t_header_time_offset (j_template j))) (t_header_flags (j_template j)) of
            None \<Rightarrow> ucast (t_curtime (j_template j)) | Some x \<Rightarrow> x) else ucast (t_curtime (j_template j)))"
  define i where "i = (if j_blake2b_coinbase_index j < MAX_COINBASE_TYPES then j_blake2b_coinbase_index j else 0)"
  obtain c s1 where c: "datum_blake2b_commit_for_coinbase sha buf1 buf2 j (j_coinbase j ! i) t (j_blake2b_commitment j) = (c, s1)" by fastforce
  have r: "datum_stratum_job_refresh_blake2b sha buf1 buf2 j
    = (let sp = datum_blake2b_sia_prevhash sha (t_previousblockhash_bin (j_template j))
       in j\<lparr>j_blake2b_time_on_wire := t, j_blake2b_commitment := c, j_blake2b_sia_coinb1 := s1, j_blake2b_sia_prevhash := sp,
            j_prevhash := concat (map uchar_to_hex sp)\<rparr>)"
    using assms c unfolding datum_stratum_job_refresh_blake2b_def Let_def t_def [symmetric] i_def [symmetric] by simp
  show thesis by (rule that [OF r [unfolded Let_def] c [unfolded i_def]])
qed

lemma refresh_refreshed:
  assumes "stratum_job_is_blake2b j"
  shows "refreshed e (datum_stratum_job_refresh_blake2b (e_sha e) (e_buf1 e) (e_buf2 e) j)"
proof -
  have commit: "datum_blake2b_commit_for_coinbase sha b1 b2
      (j\<lparr>j_blake2b_time_on_wire := x1, j_blake2b_commitment := x2, j_blake2b_sia_coinb1 := x3, j_blake2b_sia_prevhash := x4, j_prevhash := x5\<rparr>) cb t old
    = datum_blake2b_commit_for_coinbase sha b1 b2 j cb t old" for sha b1 b2 x1 x2 x3 x4 x5 cb t old
    by (simp add: datum_blake2b_commit_for_coinbase_def)
  obtain t c s1 sp ph old where r: "datum_stratum_job_refresh_blake2b (e_sha e) (e_buf1 e) (e_buf2 e) j
     = j\<lparr>j_blake2b_time_on_wire := t, j_blake2b_commitment := c, j_blake2b_sia_coinb1 := s1, j_blake2b_sia_prevhash := sp, j_prevhash := ph\<rparr>"
    "datum_blake2b_commit_for_coinbase (e_sha e) (e_buf1 e) (e_buf2 e) j
       (j_coinbase j ! (if j_blake2b_coinbase_index j < MAX_COINBASE_TYPES then j_blake2b_coinbase_index j else 0)) t old = (c, s1)"
    by (rule refresh_form [OF assms])
  show ?thesis unfolding refreshed_def r(1) Let_def
    using assms r(2) by (auto simp: commit stratum_job_is_blake2b_def simp del: prod.inject intro!: exI [of _ old] split: if_splits)
qed

text \<open>C33: the piece of the commitment that a miner is sent on a BLAKE2b job gives, with its extranonce, the work root its share is checked with.\<close>

theorem notified_commitment_checked:
  assumes job: "refreshed e j" and buf: "length (e_buf1 e) = 119"
    and p: "notify_parts (e_sha e) (e_buf1 e) (e_buf2 e) (e_user_cb e) (e_conf e) ready j clean q new m = (m2, parts)"
    and sub: "submit_coinbase e m2 j id_s False = Some (cb, com, ci)"
  shows "e_blake e ([0] @ hex_to_bin (parts ! 2) @ take 12 en) = datum_blake2b_work_root (e_blake e) com en"
proof -
  have l: "take 39 (datum_blake2b_sia_coinb1 c) = datum_blake2b_sia_coinb1 c" for c by (simp add: datum_blake2b_sia_coinb1_def)
  have blake: "stratum_job_is_blake2b j" using job by (simp add: refreshed_def)
  have "hex_to_bin (parts ! 2) = datum_blake2b_sia_coinb1 com"
  proof (cases "user_coinbase (e_user_cb e) (e_conf e) m j")
    case None
    obtain c where c: "\<forall>old. datum_blake2b_commit_for_coinbase (e_sha e) (e_buf1 e) (e_buf2 e) j
        (j_coinbase j ! (if j_blake2b_coinbase_index j < MAX_COINBASE_TYPES then j_blake2b_coinbase_index j else 0)) (j_blake2b_time_on_wire j) old = (c, datum_blake2b_sia_coinb1 c)"
      using commitment_Some [OF buf] by blast
    then have "j_blake2b_commitment j = c" "j_blake2b_sia_coinb1 j = datum_blake2b_sia_coinb1 c" using job by (auto simp: refreshed_def Let_def)
    moreover have "m2 = m" "parts ! 2 = hex_of (take 39 (j_blake2b_sia_coinb1 j))" using p None blake by (auto simp: notify_parts_def Let_def hex_of_def)
    moreover have "com = j_blake2b_commitment j" using sub None \<open>m2 = m\<close> by (auto simp: submit_coinbase_def Let_def split: if_splits)
    ultimately show ?thesis using l by simp
  next
    case (Some ucb)
    obtain c where c: "\<forall>old. datum_blake2b_commit_for_coinbase (e_sha e) (e_buf1 e) (e_buf2 e) j ucb (j_blake2b_time_on_wire j) old = (c, datum_blake2b_sia_coinb1 c)"
      using commitment_Some [OF buf] by blast
    have m2: "user_coinbase (e_user_cb e) (e_conf e) m2 j = Some ucb" and s: "parts ! 2 = hex_of (take 39 (datum_blake2b_sia_coinb1 c))"
      using p Some blake c by (auto simp: notify_parts_def Let_def hex_of_def user_coinbase_def split: if_splits)
    have "com = c" using sub m2 blake c by (auto simp: submit_coinbase_def Let_def split: if_splits)
    then show ?thesis using s l by simp
  qed
  then show ?thesis by (simp add: datum_blake2b_work_root_def datum_blake2b_256_def)
qed


definition ex_ref_job :: stratum_job where
  "ex_ref_job = datum_stratum_job_refresh_blake2b (e_sha ex_env) (e_buf1 ex_env) (e_buf2 ex_env) ex_job"

lemma ex_ref_job [simp]: "refreshed ex_env ex_ref_job" "stratum_job_is_blake2b ex_ref_job" "length (e_buf1 ex_env) = 119"
  "j_template ex_ref_job = ex_template" "j_version_uint ex_ref_job = 0x20000000" "j_prevhash_bin ex_ref_job = replicate 32 0"
  "j_nbits_uint ex_ref_job = 0x1d00ffff" "j_height ex_ref_job = 100" "j_blake2b_coinbase_index ex_ref_job = 0"
proof -
  obtain t c s sp ph where r: "ex_ref_job = ex_job\<lparr>j_blake2b_time_on_wire := t, j_blake2b_commitment := c, j_blake2b_sia_coinb1 := s, j_blake2b_sia_prevhash := sp, j_prevhash := ph\<rparr>"
    unfolding ex_ref_job_def by (rule refresh_form [OF ex_job_blake2b, of "e_sha ex_env" "e_buf1 ex_env" "e_buf2 ex_env"])
  show "refreshed ex_env ex_ref_job" unfolding ex_ref_job_def by (rule refresh_refreshed) simp
  show "length (e_buf1 ex_env) = 119" by (simp add: ex_env_def)
  show "stratum_job_is_blake2b ex_ref_job" using ex_job_blake2b by (simp add: r stratum_job_is_blake2b_def)
  show "j_template ex_ref_job = ex_template" "j_version_uint ex_ref_job = 0x20000000" "j_prevhash_bin ex_ref_job = replicate 32 0"
    "j_nbits_uint ex_ref_job = 0x1d00ffff" "j_height ex_ref_job = 100" "j_blake2b_coinbase_index ex_ref_job = 0"
    by (simp_all add: r) (simp_all add: ex_job_def)
qed

lemma ex_no_user [simp]: "user_coinbase (e_user_cb ex_env) (e_conf ex_env) m j = None"
  by (simp add: user_coinbase_def ex_env_def ex_conf_def)

lemma ex_ref_submit:
  "submit_coinbase ex_env m ex_ref_job ''0000000100c0db00'' False = Some (j_coinbase ex_ref_job ! 0, j_blake2b_commitment ex_ref_job, 0)"
  by (simp add: submit_coinbase_def MAX_COINBASE_TYPES_def)

theorem notified_commitment_checked_witness:
  "\<exists>m2 parts. notify_parts (e_sha ex_env) (e_buf1 ex_env) (e_buf2 ex_env) (e_user_cb ex_env) (e_conf ex_env) True ex_ref_job False False False ex_miner = (m2, parts)
    \<and> e_blake ex_env ([0] @ hex_to_bin (parts ! 2) @ replicate 12 5) = datum_blake2b_work_root (e_blake ex_env) (j_blake2b_commitment ex_ref_job) (replicate 12 5)"
proof -
  obtain m2 parts where p: "notify_parts (e_sha ex_env) (e_buf1 ex_env) (e_buf2 ex_env) (e_user_cb ex_env) (e_conf ex_env) True ex_ref_job False False False ex_miner = (m2, parts)"
    by fastforce
  show ?thesis using notified_commitment_checked [OF ex_ref_job(1,3) p ex_ref_submit, of "replicate 12 5"] p by simp
qed

section \<open>Blocks\<close>

text \<open>The committed fields of a serialized header, and jobs that agree with their template.\<close>

definition header_commit_fields :: "block_header \<Rightarrow> header_fields" where
  "header_commit_fields h =
     \<lparr>hf_version = bh_version h, hf_prevhash = bh_prevhash h, hf_height = bh_height h, hf_merkle = bh_merkle h, hf_time = bh_time h,
      hf_nbits = bh_nbits h, hf_txcount = ucast (bh_txcount h), hf_flags = bh_flags h, hf_clear_bits = bh_clear_bits h\<rparr>"

definition from_template :: "stratum_job \<Rightarrow> bool" where
  "from_template j \<longleftrightarrow> (let t = j_template j in j_version_uint j = t_version t \<and> j_prevhash_bin j = t_previousblockhash_bin t
     \<and> j_nbits_uint j = t_bits_uint t \<and> j_height j = ucast (t_height t))"

lemma block_txcount:
  assumes "t_header_transaction_count t < 65536" "length (t_txids t) < 65535"
  shows "ucast (if t_header_transaction_count t \<noteq> 0 then ucast (t_header_transaction_count t) else word_of_nat (length (t_txids t) + 1) :: u16) = template_txcount t"
proof -
  have small: "ucast (ucast v :: u16) = v" if "v < 65536" for v :: u32
    using that by (intro word_unat_eq_iff [THEN iffD2]) (simp add: unsigned_ucast_eq word_less_nat_alt unsigned_take_bit_eq take_bit_nat_eq_self_iff)
  have n: "unat (word_of_nat (length (t_txids t)) :: u32) = length (t_txids t)" "unat (word_of_nat (length (t_txids t) + 1) :: u16) = length (t_txids t) + 1"
    using assms(2) by (simp_all only: unat_of_nat) simp_all
  have "unat (ucast (word_of_nat (length (t_txids t) + 1) :: u16) :: u32) = unat (word_of_nat (length (t_txids t)) + (1 :: u32))"
    using assms(2) n by (simp add: unat_word_ariths unsigned_ucast_eq take_bit_nat_eq_self_iff del: unsigned_of_nat of_nat_add)
  then have "ucast (word_of_nat (length (t_txids t) + 1) :: u16) = word_of_nat (length (t_txids t)) + (1 :: u32)"
    by (simp only: word_unat_eq_iff)
  then show ?thesis using small [OF assms(1)] unfolding template_txcount_def by presburger
qed

lemma height_ucast: "ucast (ucast h :: u64) = (h :: u32)"
  by (rule bit_word_eqI) (auto simp: bit_simps)

lemma header_of_coinbase:
  assumes job: "refreshed e j" "from_template j" and buf: "length (e_buf1 e) = 119"
    and txs: "t_header_transaction_count (j_template j) < 65536" "length (t_txids (j_template j)) < 65535"
    and sub: "submit_coinbase e m j id_s False = Some (cb, com, ci)"
    and ci: "ci = j_blake2b_coinbase_index j"
    and full: "full = submit_full_cb j cb en q d"
    and bh: "bh = block_header_v2 (e_sha e) work j full en False (submit_merkle (e_sha e) j False full)"
  shows "datum_blake2b_header_commitment (e_sha e) (e_buf1 e) (e_buf2 e) (header_commit_fields bh) (bh_xor_key bh) (bh_rhs bh) = Some com"
proof -
  have blake: "stratum_job_is_blake2b j" using job by (simp add: refreshed_def)
  have f: "full = coinb1_bin cb @ replicate 12 0 @ coinb2_bin cb" using blake by (simp add: full submit_full_cb_def Let_def)
  have merkle: "submit_merkle (e_sha e) j False full = stratum_job_merkle_root_calc (my_dblsha256 (e_sha e)) (j_merklebranches_bin j) (my_dblsha256 (e_sha e) full)"
    by (simp add: submit_merkle_def stratum_job_merkle_root_calc_def)
  have count: "hf_txcount (header_commit_fields bh) = template_txcount (j_template j)"
    unfolding block_txcount [OF txs, symmetric] by (simp add: bh header_commit_fields_def block_header_v2_def Let_def)
  have fields: "header_commit_fields bh = commit_fields (j_template j) (submit_merkle (e_sha e) j False full) (j_blake2b_time_on_wire j)"
    using job(2) count by (simp add: bh header_commit_fields_def block_header_v2_def commit_fields_def from_template_def Let_def height_ucast)
  have keys: "bh_xor_key bh = t_xor_key (j_template j)" "bh_rhs bh = t_merge_mining_rhs (j_template j)" by (simp_all add: bh block_header_v2_def Let_def)
  obtain c where c: "\<forall>old. datum_blake2b_commit_for_coinbase (e_sha e) (e_buf1 e) (e_buf2 e) j cb (j_blake2b_time_on_wire j) old = (c, datum_blake2b_sia_coinb1 c)"
    and h: "datum_blake2b_header_commitment (e_sha e) (e_buf1 e) (e_buf2 e)
      (commit_fields (j_template j) (submit_merkle (e_sha e) j False full) (j_blake2b_time_on_wire j)) (t_xor_key (j_template j)) (t_merge_mining_rhs (j_template j)) = Some c"
    using commitment_Some [OF buf, of "e_sha e" "e_buf2 e" j cb "j_blake2b_time_on_wire j"] unfolding f merkle [unfolded f] by (elim exE conjE)
  have "com = c"
  proof (cases "user_coinbase (e_user_cb e) (e_conf e) m j")
    case None
    then have "ci < MAX_COINBASE_TYPES" "cb = j_coinbase j ! ci" "com = j_blake2b_commitment j" using sub blake by (auto simp: submit_coinbase_def Let_def split: if_splits)
    then show ?thesis using c ci job(1) by (auto simp: refreshed_def Let_def)
  next
    case (Some ucb)
    then show ?thesis using sub blake c by (auto simp: submit_coinbase_def Let_def split: if_splits)
  qed
  then show ?thesis using h by (simp add: fields keys)
qed

text \<open>A notification on a BLAKE2b job never carries the letter of empty work, and its index is the one of the commitment.\<close>

lemma blake2b_id_submitted:
  assumes blake: "stratum_job_is_blake2b j" and len: "length (j_job_id j) = 14" and i: "j_blake2b_coinbase_index j < MAX_COINBASE_TYPES"
    and p: "param_string params 1 = Some (notify_id j (notify_cbselect ready j m new) quick new)"
    and s: "submit_job jobs params = Some (j, idx, id_s, qd, ew)"
  shows "\<not> ew" "unat (hex2bin_uchar (id_s ! 14) (id_s ! 15)) = j_blake2b_coinbase_index j"
proof -
  let ?i = "j_blake2b_coinbase_index j"
  have i': "?i < 256" using i by (simp add: MAX_COINBASE_TYPES_def)
  note c = coinbase_of_id [OF len i']
  have id: "notify_id j (notify_cbselect ready j m new) quick new = (if quick then ''Q'' else []) @ j_job_id j @ fmt_hex 2 ?i"
    using blake by (simp add: notify_id_def notify_cbselect_def)
  have l: "length (fmt_hex 2 ?i) = 2" using c(2) len by simp
  have "\<not> ew \<and> id_s = j_job_id j @ fmt_hex 2 ?i"
    using s l len unfolding submit_job_def p id by (auto simp: Let_def split: option.splits if_splits)
  then show "\<not> ew" "unat (hex2bin_uchar (id_s ! 14) (id_s ! 15)) = ?i" using c(1) by simp_all
qed

text \<open>C4: a share on a BLAKE2b job that carries the job id of a notification (whatever the kind of the notification):
  the commitment that the hashed work header was built from is the commitment of exactly the fields in the header of
  the block such a share is assembled into. For jobs as \<open>update_stratum_job\<close> and the coinbaser leave them
  (\<open>refreshed\<close>, \<open>from_template\<close>), with transaction counts that fit the header's 16 bits; a template has at most
  16383 transactions. A share with another coinbase index or with the letter of empty work is not refused, and this
  is not claimed of it: see \<open>coinbase_index_unchecked\<close>.\<close>

theorem block_header_committed:
  assumes job: "refreshed e j" "from_template j" and buf: "length (e_buf1 e) = 119"
    and txs: "t_header_transaction_count (j_template j) < 65536" "length (t_txids (j_template j)) < 65535"
    and j: "length (j_job_id j) = 14" "j_blake2b_coinbase_index j < MAX_COINBASE_TYPES"
    and p: "param_string params 1 = Some (notify_id j (notify_cbselect ready j m0 new) quick new)"
    and s: "submit_job (e_jobs e) params = Some (j, idx, id_s, qd, ew)"
    and w: "submit_work e m j id_s qd ew d params = Inr w"
    and bh: "bh = block_header_v2 (e_sha e) (w_header w) j (w_full_cb w) (w_extranonce w) ew (submit_merkle (e_sha e) j ew (w_full_cb w))"
  shows "\<exists>com wroot nc nt. datum_blake2b_header_commitment (e_sha e) (e_buf1 e) (e_buf2 e) (header_commit_fields bh) (bh_xor_key bh) (bh_rhs bh) = Some com
    \<and> datum_blake2b_work_root (e_blake e) com (w_extranonce w) = Some wroot
    \<and> w_header w = datum_blake2b_build_work_header (e_sha e) (replicate 80 0) (j_prevhash_bin j) nc nt wroot"
proof -
  have blake: "stratum_job_is_blake2b j" using job by (simp add: refreshed_def)
  note id = blake2b_id_submitted [OF blake j p s]
  obtain bver en cb com ci nt nc hd hs where x: "submit_coinbase e m j id_s ew = Some (cb, com, ci)"
    "submit_hash e j bver (submit_merkle (e_sha e) j ew (submit_full_cb j cb en qd d)) com en nt nc = Inr (hd, hs)"
    "w_header w = hd" "w_full_cb w = submit_full_cb j cb en qd d" "w_extranonce w = en"
    using w unfolding submit_work_def Let_def by (auto split: option.splits sum.splits prod.splits)
  have ci: "ci = j_blake2b_coinbase_index j"
    using x(1) id by (auto simp: submit_coinbase_def Let_def split: option.splits if_splits)
  have x1: "submit_coinbase e m j id_s False = Some (cb, com, ci)" using x(1) id(1) by simp
  have "datum_blake2b_header_commitment (e_sha e) (e_buf1 e) (e_buf2 e) (header_commit_fields bh) (bh_xor_key bh) (bh_rhs bh) = Some com"
    by (rule header_of_coinbase [OF job buf txs x1 ci x(4)]) (use bh id(1) x(5) in simp)
  moreover obtain wroot where "datum_blake2b_work_root (e_blake e) com en = Some wroot"
    "hd = datum_blake2b_build_work_header (e_sha e) (replicate 80 0) (j_prevhash_bin j) (fst nc) (fst nt) wroot"
    using x(2) blake by (auto simp: submit_hash_def Let_def split: option.splits)
  ultimately show ?thesis using x(3,5) by blast
qed

definition ref_env :: surroundings where
  "ref_env = ex_env\<lparr>e_jobs := (\<lambda>i. if i = 5 then Some ex_ref_job else None)\<rparr>"

lemma ex_ref_job_id: "j_job_id ex_ref_job = ''0000000100c0db''"
proof -
  obtain t c s sp ph where r: "ex_ref_job = ex_job\<lparr>j_blake2b_time_on_wire := t, j_blake2b_commitment := c, j_blake2b_sia_coinb1 := s, j_blake2b_sia_prevhash := sp, j_prevhash := ph\<rparr>"
    unfolding ex_ref_job_def by (rule refresh_form [OF ex_job_blake2b, of "e_sha ex_env" "e_buf1 ex_env" "e_buf2 ex_env"])
  show ?thesis by (simp add: r) (simp add: ex_job_def)
qed

lemma ref_submit_work:
  "\<exists>w. submit_work ref_env ex_miner ex_ref_job ''0000000100c0db00'' False False 8 (with_version ex_params ''00000000'') = Inr w"
proof -
  have v: "submit_version ex_miner ex_ref_job (with_version ex_params ''00000000'') = Some 0x20000000"
    by (simp add: submit_version_def)
  have c: "submit_coinbase ref_env ex_miner ex_ref_job ''0000000100c0db00'' False = Some (j_coinbase ex_ref_job ! 0, j_blake2b_commitment ex_ref_job, 0)"
    using ex_no_user by (simp add: submit_coinbase_def MAX_COINBASE_TYPES_def ref_env_def)
  have h: "\<exists>w. submit_hash ref_env ex_ref_job v ms c en nt nc = Inr (w, replicate 31 0 @ [1])" for v ms c en nt nc
    by (simp add: submit_hash_def datum_blake2b_work_root_def datum_blake2b_256_def) (simp add: ref_env_def ex_env_def ex_template_def)
  let ?en = "[7, 0, 0, 0, 0, 0, 0, 0, 0, 0, 0, 0]"
  let ?full = "submit_full_cb ex_ref_job (j_coinbase ex_ref_job ! 0) ?en False 8"
  obtain w where w: "submit_hash ref_env ex_ref_job 0x20000000 (submit_merkle (e_sha ref_env) ex_ref_job False ?full) (j_blake2b_commitment ex_ref_job) ?en
      ([20,0,0,0,0,0,0,0], 20) ([1,0,0,0,0,0,0,0], 1) = Inr (w, replicate 31 0 @ [1])" using h by blast
  have blake: "stratum_job_is_blake2b ex_ref_job = True" by simp
  show ?thesis unfolding submit_work_def v c ex_extranonce blake ex_ntime ex_nonce Let_def option.case prod.case w sum.case
    by (rule exI) (rule refl)
qed

theorem block_header_committed_witness:
  "\<exists>w com wroot. submit_work ref_env ex_miner ex_ref_job ''0000000100c0db00'' False False 8 (with_version ex_params ''00000000'') = Inr w
    \<and> (let bh = block_header_v2 (e_sha ref_env) (w_header w) ex_ref_job (w_full_cb w) (w_extranonce w) False (submit_merkle (e_sha ref_env) ex_ref_job False (w_full_cb w))
       in datum_blake2b_header_commitment (e_sha ref_env) (e_buf1 ref_env) (e_buf2 ref_env) (header_commit_fields bh) (bh_xor_key bh) (bh_rhs bh) = Some com)
    \<and> datum_blake2b_work_root (e_blake ref_env) com (w_extranonce w) = Some wroot"
proof -
  have f: "from_template ex_ref_job" by (simp add: from_template_def) (simp add: ex_template_def)
  have t: "t_header_transaction_count (j_template ex_ref_job) < 65536" "length (t_txids (j_template ex_ref_job)) < 65535"
    by (simp_all) (simp_all add: ex_template_def)
  have r: "refreshed ref_env ex_ref_job" "length (e_buf1 ref_env) = 119" using ex_ref_job(1,3) by (simp_all add: refreshed_def ref_env_def)
  have j: "length (j_job_id ex_ref_job) = 14" "j_blake2b_coinbase_index ex_ref_job < MAX_COINBASE_TYPES"
    by (simp_all add: ex_ref_job_id MAX_COINBASE_TYPES_def)
  have "fmt_hex 2 0 = ''00''" using fmt_hex_byte [of 0] by (simp add: hexd_def)
  then have p: "param_string (with_version ex_params ''00000000'') 1 = Some (notify_id ex_ref_job (notify_cbselect True ex_ref_job ex_miner False) False False)"
    by (simp add: notify_id_def notify_cbselect_def ex_ref_job_id del: One_nat_def)
  have s: "submit_job (e_jobs ref_env) (with_version ex_params ''00000000'') = Some (ex_ref_job, 5, ''0000000100c0db00'', False, False)"
    by (simp add: submit_job_def ex_job_index MAX_STRATUM_JOBS_def ex_ref_job_id ref_env_def del: One_nat_def)
  obtain w where w: "submit_work ref_env ex_miner ex_ref_job ''0000000100c0db00'' False False 8 (with_version ex_params ''00000000'') = Inr w"
    using ref_submit_work by blast
  from block_header_committed [OF r(1) f r(2) t j p s w refl] show ?thesis using w unfolding Let_def by blast
qed

text \<open>On a BLAKE2b job the coinbase index of a share is not checked: with any other index the same work is accepted as the same header and hash, but a block is built on another coinbase transaction than the committed one.\<close>

theorem coinbase_index_unchecked:
  assumes blake: "stratum_job_is_blake2b j" and u: "user_coinbase (e_user_cb e) (e_conf e) m j = None"
    and w: "submit_work e m j id_s q False d params = Inr w"
    and i: "unat (hex2bin_uchar (id' ! 14) (id' ! 15)) = i" "i < MAX_COINBASE_TYPES"
  shows "submit_work e m j id' q False d params
    = Inr (w\<lparr>w_full_cb := coinb1_bin (j_coinbase j ! i) @ replicate 12 0 @ coinb2_bin (j_coinbase j ! i), w_coinbase_index := i\<rparr>)"
proof -
  have full: "submit_full_cb j cb en q d = coinb1_bin cb @ replicate 12 0 @ coinb2_bin cb" for cb en
    using blake by (simp add: submit_full_cb_def Let_def)
  have hash: "submit_hash e j b x c en nt nc = submit_hash e j b x' c en nt nc" for b x x' c en nt nc
    using blake by (simp add: submit_hash_def)
  have sub: "submit_coinbase e m j id' False = Some (j_coinbase j ! i, j_blake2b_commitment j, i)"
    using blake u i by (simp add: submit_coinbase_def)
  show ?thesis using w hash [of _ "submit_merkle (e_sha e) j False _" _ _ _ _ "[]"] unfolding submit_work_def sub full
    using blake u by (auto simp: Let_def submit_coinbase_def split: option.splits sum.splits prod.splits if_splits)
qed


theorem coinbase_index_unchecked_witness:
  "\<exists>w. submit_work ex_env ex_miner ex_job ''0000000100c0db00'' False False 8 (with_version ex_params ''00000000'') = Inr w
    \<and> submit_work ex_env ex_miner ex_job ''0000000100c0db03'' False False 8 (with_version ex_params ''00000000'')
      = Inr (w\<lparr>w_full_cb := coinb1_bin (j_coinbase ex_job ! 3) @ replicate 12 0 @ coinb2_bin (j_coinbase ex_job ! 3), w_coinbase_index := 3\<rparr>)"
proof -
  obtain w where w: "submit_work ex_env ex_miner ex_job ''0000000100c0db00'' False False 8 (with_version ex_params ''00000000'') = Inr w"
    using ex_submit_work by blast
  have "unat (hex2bin_uchar (''0000000100c0db03'' ! 14) (''0000000100c0db03'' ! 15)) = 3"
    using hex2bin_hexd [of 0 3] by (simp add: hexd_def)
  from coinbase_index_unchecked [OF ex_job_blake2b ex_no_user w this] show ?thesis using w by (simp add: MAX_COINBASE_TYPES_def)
qed

end
