(* ===== verification/Jobs.thy ===== *)
theory Jobs
  imports Work
begin

text \<open>
  The table of jobs, \<^verbatim>\<open>update_stratum_job\<close> in \<^verbatim>\<open>src/src/datum_stratum.c\<close> and \<^verbatim>\<open>datum_protocol_setup_new_job_idx\<close> in
  \<^verbatim>\<open>src/src/datum_protocol.c\<close>. Jobs live in the slots of \<^verbatim>\<open>stratum_job_list\<close>; \<^verbatim>\<open>global_cur_stratum_jobs\<close> points
  into it. A slot never used, all zero in the code, is \<open>None\<close>. The result \<open>None\<close> is a panic or undefined
  behaviour of a part.
\<close>

section \<open>State\<close>

record job_table =
  jt_slots :: "nat \<Rightarrow> stratum_job option"
  jt_next :: nat
  jt_latest :: int
  jt_cur :: "nat \<Rightarrow> nat option"
  jt_enprefix :: u16
  jt_empty_complete :: u64
  jt_empty_ready :: bool
  jt_empty_index :: u64
  jt_empty_sent :: u64
  jt_datum_next :: nat
  jt_datum_jobs :: "nat \<Rightarrow> nat option"

definition initial_jobs :: job_table where
  "initial_jobs = \<lparr>jt_slots = (\<lambda>_. None), jt_next = 0, jt_latest = -1, jt_cur = (\<lambda>_. None), jt_enprefix = 0, jt_empty_complete = 0,
     jt_empty_ready = False, jt_empty_index = 0, jt_empty_sent = 0, jt_datum_next = 0, jt_datum_jobs = (\<lambda>_. None)\<rparr>"

text \<open>The jobs by their global index, as a submission finds them.\<close>

definition current_jobs :: "job_table \<Rightarrow> nat \<Rightarrow> stratum_job option" where
  "current_jobs T i = Option.bind (jt_cur T i) (jt_slots T)"

text \<open>What the update uses of its surroundings.\<close>

record job_env =
  je_sha :: "bytes \<Rightarrow> bytes"
  je_buf1 :: bytes
  je_buf2 :: bytes
  je_templist :: "bytes list"
  je_addr_script :: "string \<Rightarrow> bytes"
  je_conf :: cb_conf
  je_supplier :: string
  je_supplier_name :: string
  je_now :: u64
  je_time :: u32

section \<open>A new job\<close>

definition zero_coinbase :: coinbase where
  "zero_coinbase = \<lparr>coinb1_text = '''', coinb2_text = '''', coinb1_bin = [], coinb2_bin = []\<rparr>"

definition coinbase_of_pair :: "cb_pair \<Rightarrow> coinbase" where
  "coinbase_of_pair p = \<lparr>coinb1_text = coinb1 p, coinb2_text = coinb2 p, coinb1_bin = hex_to_bin (coinb1 p), coinb2_bin = hex_to_bin (coinb2 p)\<rparr>"

definition template_cb :: "template \<Rightarrow> cb_template" where
  "template_cb t = \<lparr>header_version = t_header_version t, blake2b_headline = t_blake2b_headline t,
     default_witness_commitment = t_default_witness_commitment t, sizelimit = uint (t_sizelimit t), weightlimit = uint (t_weightlimit t),
     txn_total_size = uint (t_txn_total_size t), txn_total_weight = uint (t_txn_total_weight t)\<rparr>"

definition job_cb :: "stratum_job \<Rightarrow> cb_job" where
  "job_cb s = \<lparr>height = ucast (j_height s), coinbase_value = j_coinbase_value s, enprefix = j_enprefix s, pool_addr_script = j_pool_addr_script s,
     carousel_supplier_name = j_carousel_supplier_name s, block_template = template_cb (j_template s)\<rparr>"

text \<open>The previous block hash with the order of its eight words reversed; the time as text.\<close>

definition words_reversed :: "string \<Rightarrow> string" where
  "words_reversed s = concat (map (\<lambda>i. take 8 (drop ((7 - i) * 8) s)) [0..<8])"

definition ntime_text :: "template \<Rightarrow> string" where
  "ntime_text t =
     (if t_header_version t \<ge> 2
      then concat (map uchar_to_hex (pk_u32le (pk_u32le (replicate 8 0) 0 (t_header_time_offset t)) 4 (ucast (t_curtime t))))
      else take 17 (fmt_hex 8 (unat (t_curtime t))))"

definition job_id_text :: "u32 \<Rightarrow> nat \<Rightarrow> nat \<Rightarrow> string" where
  "job_id_text time next_slot global_index =
     fmt_hex 8 (unat time) @ fmt_hex 2 (next_slot mod 256) @ fmt_hex 4 (unat (word_of_nat global_index XOR STRATUM_JOB_INDEX_XOR))"

text \<open>The job with the fields that come from the template, before its coinbase transactions.\<close>

definition template_job :: "job_env \<Rightarrow> template \<Rightarrow> bool \<Rightarrow> u16 \<Rightarrow> bytes \<Rightarrow> stratum_job" where
  "template_job E t new_block enp block_target =
     \<lparr>j_global_index = 0, j_job_id = '''', j_prevhash = words_reversed (t_previousblockhash t), j_prevhash_bin = t_previousblockhash_bin t,
      j_version = fmt_hex 8 (unat (t_version t)), j_version_uint = t_version t, j_nbits = take 9 (t_bits t), j_nbits_bin = t_bits_bin t,
      j_nbits_uint = upk_u32le (t_bits_bin t) 0, j_ntime = ntime_text t, j_block_target = block_target,
      j_blake2b_commitment = replicate 32 0, j_blake2b_sia_prevhash = replicate 32 0, j_blake2b_sia_coinb1 = replicate 39 0,
      j_blake2b_time_on_wire = 0, j_template = t, j_merklebranches_bin = [], j_merklebranches_full = '''',
      j_coinbase = replicate MAX_COINBASE_TYPES zero_coinbase, j_subsidy_only_coinbase = zero_coinbase, j_target_pot_index = 0,
      j_blake2b_coinbase_index = 0, j_height = ucast (t_height t), j_tsms = 0, j_is_stale_prevblock = False, j_is_datum_job = False,
      j_job_state = 0, j_need_coinbaser = False, j_is_new_block = new_block, j_enprefix = enp XOR 0xB10C,
      j_coinbase_value = t_coinbasevalue t, j_pool_addr_script = [], j_carousel_supplier = take 127 (je_supplier E),
      j_carousel_supplier_name = take 39 (je_supplier_name E), j_datum_job_idx = 0\<rparr>"

definition with_base_coinbase :: "job_env \<Rightarrow> bool \<Rightarrow> stratum_job \<Rightarrow> stratum_job option" where
  "with_base_coinbase E new_block s =
     map_option (\<lambda>(p, sub, pot).
       s\<lparr>j_pool_addr_script := pool_addr_script (set_pool_script (je_addr_script E) (je_conf E) (job_cb s)), j_is_datum_job := datum_active (je_conf E),
         j_coinbase := (j_coinbase s)[0 := coinbase_of_pair p],
         j_subsidy_only_coinbase := (case sub of None \<Rightarrow> j_subsidy_only_coinbase s | Some q \<Rightarrow> coinbase_of_pair q),
         j_target_pot_index := pot\<rparr>)
     (generate_base_coinbase_txns_for_stratum_job (je_addr_script E) (je_conf E) (job_cb s) new_block)"

definition with_branches :: "job_env \<Rightarrow> stratum_job \<Rightarrow> stratum_job option" where
  "with_branches E s =
     map_option (\<lambda>bs. s\<lparr>j_merklebranches_bin := bs,
         j_merklebranches_full := merklebranches_full (merklebranches_hex (case t_txns (j_template s) of [] \<Rightarrow> '''' | x # _ \<Rightarrow> x_txid_hex x) bs)\<rparr>)
     (returned_branches (stratum_calculate_merkle_branches (my_dblsha256 (je_sha E)) (t_txids (j_template s)) (je_templist E)))"

text \<open>The next of eight job slots of the pool's protocol.\<close>

definition MAX_DATUM_PROTOCOL_JOBS :: nat where "MAX_DATUM_PROTOCOL_JOBS = 8"

definition datum_protocol_setup_new_job_idx :: "nat \<Rightarrow> job_table \<Rightarrow> nat \<times> job_table" where
  "datum_protocol_setup_new_job_idx slot T =
     (let a = jt_datum_next T
      in (a, T\<lparr>jt_datum_next := (if a + 1 \<ge> MAX_DATUM_PROTOCOL_JOBS then 0 else a + 1), jt_datum_jobs := (jt_datum_jobs T)(a := Some slot)\<rparr>))"

definition next_index :: "nat \<Rightarrow> nat" where
  "next_index i = (if i + 1 = MAX_STRATUM_JOBS then 0 else i + 1)"

definition next_global :: "int \<Rightarrow> int" where
  "next_global i = (if i + 1 = int MAX_STRATUM_JOBS then 0 else i + 1)"

text \<open>The slots when a new block has made all other work stale.\<close>

definition marked :: "bool \<Rightarrow> job_table \<Rightarrow> nat \<Rightarrow> stratum_job option" where
  "marked new_block T =
     (if new_block
      then (\<lambda>i. if i \<noteq> jt_next T \<and> i < MAX_STRATUM_JOBS then map_option (\<lambda>j. j\<lparr>j_is_stale_prevblock := True\<rparr>) (jt_slots T i) else jt_slots T i)
      else jt_slots T)"

definition advance :: "job_table \<Rightarrow> job_table" where
  "advance T = T\<lparr>jt_enprefix := jt_enprefix T + 1, jt_next := next_index (jt_next T)\<rparr>"

definition reset_empty :: "bool \<Rightarrow> job_table \<Rightarrow> job_table" where
  "reset_empty new_block T =
     (if new_block
      then T\<lparr>jt_empty_complete := 0, jt_empty_ready := False, jt_empty_sent := 0, jt_empty_index := word_of_int (next_global (jt_latest T))\<rparr>
      else T)"

definition with_datum_idx :: "nat \<Rightarrow> stratum_job \<Rightarrow> job_table \<Rightarrow> stratum_job \<times> job_table" where
  "with_datum_idx slot s T =
     (if j_is_datum_job s then let (a, T) = datum_protocol_setup_new_job_idx slot T in (s\<lparr>j_datum_job_idx := word_of_nat a\<rparr>, T) else (s, T))"

definition publish :: "u32 \<Rightarrow> nat \<Rightarrow> (nat \<Rightarrow> stratum_job option) \<Rightarrow> stratum_job \<times> job_table \<Rightarrow> job_table" where
  "publish time slot slots sT =
     (let (s, T) = sT; g = next_global (jt_latest T);
          s = s\<lparr>j_global_index := nat g, j_job_id := job_id_text time (jt_next T) (nat g)\<rparr>
      in T\<lparr>jt_slots := slots(slot := Some s), jt_latest := g, jt_cur := (jt_cur T)(nat g := Some slot)\<rparr>)"

definition update_stratum_job :: "job_env \<Rightarrow> template \<Rightarrow> bool \<Rightarrow> nat \<Rightarrow> job_table \<Rightarrow> job_table option" where
  "update_stratum_job E t new_block job_state T =
     (case nbits_to_target (upk_u32le (t_bits_bin t) 0) of None \<Rightarrow> None
      | Some block_target \<Rightarrow>
        (case with_base_coinbase E new_block (template_job E t new_block (jt_enprefix T) block_target) of None \<Rightarrow> None
         | Some s \<Rightarrow>
           (case with_branches E (s\<lparr>j_job_state := job_state, j_need_coinbaser := (job_state = 4 \<or> job_state = 5), j_tsms := je_now E\<rparr>) of None \<Rightarrow> None
            | Some s \<Rightarrow>
                Some (publish (je_time E) (jt_next T) (marked new_block T)
                  (with_datum_idx (jt_next T) (datum_stratum_job_refresh_blake2b (je_sha E) (je_buf1 E) (je_buf2 E) s) (reset_empty new_block (advance T)))))))"

section \<open>Job ids\<close>

lemma length_hexw [simp]: "length (hexw w v) = w"
  by (induction w arbitrary: v) simp_all

lemma length_fmt_hex: "0 < w \<Longrightarrow> v < 16 ^ w \<Longrightarrow> length (fmt_hex w v) = w"
  by (simp add: fmt_hex_hexw)

lemma job_id_length: "length (job_id_text time nx g) = 14"
  using unsigned_less [of time, where ?'a = nat] by (simp add: job_id_text_def length_fmt_hex fmt_hex_en_prefix)

lemma en_prefix_word: "push_bit 8 (ucast (en_prefix w ! 0)) OR ucast (en_prefix w ! 1) = w"
proof -
  have "(word_of_nat (unat w div 256) :: u8) = ucast (drop_bit 8 w)"
    using ucast_drop_bit [of 8 w] by simp
  then have e: "en_prefix w = [ucast (drop_bit 8 w), ucast w]" by (simp add: en_prefix_def numeral_2_eq_2)
  show ?thesis unfolding e by (rule bit_word_eqI) (auto simp: bit_simps)
qed

lemma job_index_of_chars: "length A = 10 \<Longrightarrow> job_index_of (A @ c0 # c1 # c2 # c3 # r) = (push_bit 8 (ucast (hex2bin_uchar c0 c1)) OR ucast (hex2bin_uchar c2 c3)) XOR STRATUM_JOB_INDEX_XOR"
  using nth_append_length_plus [of A "c0 # c1 # c2 # c3 # r" 0] nth_append_length_plus [of A "c0 # c1 # c2 # c3 # r" 1]
    nth_append_length_plus [of A "c0 # c1 # c2 # c3 # r" 2] nth_append_length_plus [of A "c0 # c1 # c2 # c3 # r" 3]
  by (simp add: job_index_of_def)

lemma job_id_index: "job_index_of (job_id_text time nx g @ xs) = word_of_nat g"
proof -
  define w where "w = (word_of_nat g XOR STRATUM_JOB_INDEX_XOR :: u16)"
  define A where "A = fmt_hex 8 (unat time) @ fmt_hex 2 (nx mod 256)"
  have A: "length A = 10" using unsigned_less [of time, where ?'a = nat] by (simp add: A_def length_fmt_hex)
  have e: "en_prefix w = [en_prefix w ! 0, en_prefix w ! 1]" by (simp add: en_prefix_def numeral_2_eq_2)
  have "job_id_text time nx g @ xs = A @ hex_of (en_prefix w) @ xs"
    by (simp only: job_id_text_def w_def [symmetric] fmt_hex_en_prefix A_def append.assoc)
  also have "\<dots> = A @ uchar_to_hex (en_prefix w ! 0) @ uchar_to_hex (en_prefix w ! 1) @ xs"
    by (subst e) (simp only: hex_of_simps append.assoc append_Nil)
  finally have "job_index_of (job_id_text time nx g @ xs) = w XOR STRATUM_JOB_INDEX_XOR"
    using en_prefix_word [of w] by (simp add: job_index_of_chars [OF A])
  then show ?thesis by (simp add: w_def xor.assoc)
qed

section \<open>The ring\<close>

text \<open>What the steps after the template leave alone.\<close>

definition frame :: "stratum_job \<Rightarrow> template \<times> u32 \<times> bytes \<times> u32 \<times> u64 \<times> bool \<times> nat \<times> string" where
  "frame j = (j_template j, j_version_uint j, j_prevhash_bin j, j_nbits_uint j, j_height j, j_is_stale_prevblock j, j_blake2b_coinbase_index j,
     j_carousel_supplier j)"

lemma frame_base: "with_base_coinbase E nb s = Some s' \<Longrightarrow> frame s' = frame s"
  by (auto simp: with_base_coinbase_def frame_def)

lemma frame_branches: "with_branches E s = Some s' \<Longrightarrow> frame s' = frame s \<and> j_job_state s' = j_job_state s \<and> j_tsms s' = j_tsms s"
  by (auto simp: with_branches_def frame_def)

lemma frame_refresh: "frame (datum_stratum_job_refresh_blake2b sha b1 b2 s) = frame s \<and> j_job_state (datum_stratum_job_refresh_blake2b sha b1 b2 s) = j_job_state s
   \<and> j_tsms (datum_stratum_job_refresh_blake2b sha b1 b2 s) = j_tsms s"
proof (cases "stratum_job_is_blake2b s")
  case True
  show ?thesis by (rule refresh_form [OF True, of sha b1 b2]) (simp add: frame_def)
qed (simp add: datum_stratum_job_refresh_blake2b_def)

lemma setup_idx_fields:
  "datum_protocol_setup_new_job_idx slot T = (a, T') \<Longrightarrow> jt_slots T' = jt_slots T \<and> jt_next T' = jt_next T \<and> jt_latest T' = jt_latest T \<and> jt_cur T' = jt_cur T"
  by (auto simp: datum_protocol_setup_new_job_idx_def Let_def)

lemma frame_datum_idx:
  "with_datum_idx slot s T = (s', T') \<Longrightarrow> frame s' = frame s \<and> j_job_state s' = j_job_state s \<and> j_tsms s' = j_tsms s
     \<and> jt_next T' = jt_next T \<and> jt_latest T' = jt_latest T \<and> jt_cur T' = jt_cur T"
  by (auto simp: with_datum_idx_def frame_def dest: setup_idx_fields split: if_splits prod.splits)

lemma update_cases:
  assumes "update_stratum_job E t nb st T = Some T'"
  obtains s enp bt sb didx gidx jid where "jt_slots T' = (marked nb T)(jt_next T := Some s)"
    "jt_next T' = next_index (jt_next T)" "jt_latest T' = next_global (jt_latest T)" "jt_cur T' = (jt_cur T)(nat (next_global (jt_latest T)) := Some (jt_next T))"
    "j_global_index s = nat (next_global (jt_latest T))" "j_job_id s = job_id_text (je_time E) (next_index (jt_next T)) (nat (next_global (jt_latest T)))"
    "frame s = frame (template_job E t nb enp bt)" "j_job_state s = st" "j_tsms s = je_now E"
    "\<exists>s1. with_branches E s1 = Some sb \<and> s = (datum_stratum_job_refresh_blake2b (je_sha E) (je_buf1 E) (je_buf2 E) sb)\<lparr>j_datum_job_idx := didx, j_global_index := gidx, j_job_id := jid\<rparr>"
proof -
  note u = assms [unfolded update_stratum_job_def]
  obtain bt where bt: "nbits_to_target (upk_u32le (t_bits_bin t) 0) = Some bt" using u by (cases "nbits_to_target (upk_u32le (t_bits_bin t) 0)") simp_all
  note u = u [unfolded bt option.case]
  obtain s1 where s1: "with_base_coinbase E nb (template_job E t nb (jt_enprefix T) bt) = Some s1"
    using u by (cases "with_base_coinbase E nb (template_job E t nb (jt_enprefix T) bt)") simp_all
  note u = u [unfolded s1 option.case]
  obtain s3 where s3: "with_branches E (s1\<lparr>j_job_state := st, j_need_coinbaser := (st = 4 \<or> st = 5), j_tsms := je_now E\<rparr>) = Some s3"
    using u by (cases "with_branches E (s1\<lparr>j_job_state := st, j_need_coinbaser := (st = 4 \<or> st = 5), j_tsms := je_now E\<rparr>)") simp_all
  note s = s1 s3 u [unfolded s3 option.case option.inject, symmetric]
  obtain s5 T5 where r: "with_datum_idx (jt_next T) (datum_stratum_job_refresh_blake2b (je_sha E) (je_buf1 E) (je_buf2 E) s3) (reset_empty nb (advance T)) = (s5, T5)"
    by fastforce
  have f: "frame s5 = frame (template_job E t nb (jt_enprefix T) bt)" "j_job_state s5 = st" "j_tsms s5 = je_now E"
    using frame_base [OF s(1)] frame_branches [OF s(2)] frame_refresh [of "je_sha E" "je_buf1 E" "je_buf2 E" s3] frame_datum_idx [OF r]
    by (simp_all add: frame_def)
  have t: "jt_next T5 = next_index (jt_next T)" "jt_latest T5 = jt_latest T" "jt_cur T5 = jt_cur T"
    using frame_datum_idx [OF r] by (simp_all add: reset_empty_def advance_def)
  have s5: "s5 = (datum_stratum_job_refresh_blake2b (je_sha E) (je_buf1 E) (je_buf2 E) s3)\<lparr>j_datum_job_idx := j_datum_job_idx s5\<rparr>"
    using r by (auto simp: with_datum_idx_def split: if_splits prod.splits)
  let ?s = "s5\<lparr>j_global_index := nat (next_global (jt_latest T)), j_job_id := job_id_text (je_time E) (next_index (jt_next T)) (nat (next_global (jt_latest T)))\<rparr>"
  show thesis
  proof (rule that [where s = ?s and enp = "jt_enprefix T" and bt = bt and sb = s3 and didx = "j_datum_job_idx s5" and gidx = "j_global_index ?s" and jid = "j_job_id ?s"])
    show "\<exists>s1. with_branches E s1 = Some s3 \<and> ?s = (datum_stratum_job_refresh_blake2b (je_sha E) (je_buf1 E) (je_buf2 E) s3)
        \<lparr>j_datum_job_idx := j_datum_job_idx s5, j_global_index := j_global_index ?s, j_job_id := j_job_id ?s\<rparr>"
      by (rule exI, rule conjI, rule s(2)) (subst s5, simp)
  qed (use f t s(3) r in \<open>simp_all add: publish_def Let_def frame_def\<close>)
qed

text \<open>A pointer leads to the slot of its own index, and the id of the job there names that index.\<close>

definition own_slot :: "job_table \<Rightarrow> nat \<Rightarrow> stratum_job \<Rightarrow> bool" where
  "own_slot T i j \<longleftrightarrow> i < MAX_STRATUM_JOBS \<and> jt_slots T i = Some j \<and> j_global_index j = i \<and> length (j_job_id j) = 14
     \<and> (\<forall>xs. job_index_of (j_job_id j @ xs) = word_of_nat i)"

definition ring_inv :: "job_table \<Rightarrow> bool" where
  "ring_inv T \<longleftrightarrow> jt_next T < MAX_STRATUM_JOBS \<and> nat (next_global (jt_latest T)) = jt_next T \<and> -1 \<le> jt_latest T \<and> jt_latest T < int MAX_STRATUM_JOBS
     \<and> (\<forall>i. jt_cur T i = None \<or> jt_cur T i = Some i \<and> (\<exists>j. own_slot T i j))"

lemma current_own: "ring_inv T \<Longrightarrow> current_jobs T i = Some j \<Longrightarrow> own_slot T i j"
proof -
  assume a: "ring_inv T" "current_jobs T i = Some j"
  have "jt_cur T i = None \<or> jt_cur T i = Some i \<and> (\<exists>j. own_slot T i j)" using a(1) by (simp add: ring_inv_def)
  then show "own_slot T i j" using a(2) by (auto simp: current_jobs_def own_slot_def)
qed

lemma ring_init: "ring_inv initial_jobs"
  by (simp add: ring_inv_def initial_jobs_def next_global_def MAX_STRATUM_JOBS_def)

lemma ring_step:
  assumes inv: "ring_inv T" and u: "update_stratum_job E t nb st T = Some T'"
  shows "ring_inv T'"
proof -
  let ?n = "jt_next T"
  obtain s enp bt where T': "jt_slots T' = (marked nb T)(?n := Some s)" "jt_next T' = next_index ?n" "jt_latest T' = next_global (jt_latest T)"
    "jt_cur T' = (jt_cur T)(nat (next_global (jt_latest T)) := Some ?n)" and
    s: "j_global_index s = nat (next_global (jt_latest T))" "j_job_id s = job_id_text (je_time E) (next_index ?n) (nat (next_global (jt_latest T)))"
    by (rule update_cases [OF u]) blast
  have n: "nat (next_global (jt_latest T)) = ?n" "?n < MAX_STRATUM_JOBS" "-1 \<le> jt_latest T" "jt_latest T < int MAX_STRATUM_JOBS"
    using inv by (auto simp: ring_inv_def)
  have new: "own_slot T' ?n s" using n T'(1) s by (simp add: own_slot_def job_id_length job_id_index)
  have old: "jt_cur T i = None \<or> jt_cur T i = Some i \<and> (\<exists>j. own_slot T' i j)" if "i \<noteq> ?n" for i
  proof -
    have "\<exists>j. own_slot T' i j" if "own_slot T i j" for j
      using that \<open>i \<noteq> ?n\<close> T'(1) by (cases nb) (auto simp: own_slot_def marked_def)
    moreover have "jt_cur T i = None \<or> jt_cur T i = Some i \<and> (\<exists>j. own_slot T i j)" using inv by (simp add: ring_inv_def)
    ultimately show ?thesis by blast
  qed
  have "jt_latest T' = int ?n" using n T'(3) by (auto simp: next_global_def split: if_splits)
  then have idx: "jt_next T' < MAX_STRATUM_JOBS" "nat (next_global (jt_latest T')) = jt_next T'" "-1 \<le> jt_latest T'" "jt_latest T' < int MAX_STRATUM_JOBS"
    using n T'(2) by (auto simp: next_index_def next_global_def MAX_STRATUM_JOBS_def)
  have "\<forall>i. jt_cur T' i = None \<or> jt_cur T' i = Some i \<and> (\<exists>j. own_slot T' i j)"
    using new old T'(4) n(1) by (auto simp: fun_upd_def)
  with idx show ?thesis by (simp add: ring_inv_def)
qed

text \<open>
  The tables the template thread makes: it sets \<open>new_block\<close> at least whenever the previous block changes. The
  first argument is the previous block of the last template.
\<close>

inductive job_reach :: "string option \<Rightarrow> job_table \<Rightarrow> bool" where
  start: "job_reach None initial_jobs"
| update: "job_reach ph T \<Longrightarrow> nb \<or> ph = Some (t_previousblockhash t) \<Longrightarrow> update_stratum_job E t nb st T = Some T'
    \<Longrightarrow> job_reach (Some (t_previousblockhash t)) T'"

lemma job_reach_ring: "job_reach ph T \<Longrightarrow> ring_inv T"
  by (induction rule: job_reach.induct) (auto intro: ring_init ring_step)

definition on_tip :: "string option \<Rightarrow> job_table \<Rightarrow> bool" where
  "on_tip ph T \<longleftrightarrow> (\<forall>i j. i < MAX_STRATUM_JOBS \<longrightarrow> jt_slots T i = Some j \<longrightarrow> \<not> j_is_stale_prevblock j \<longrightarrow> Some (t_previousblockhash (j_template j)) = ph)"

lemma on_tip_update:
  assumes "on_tip ph T" "nb \<or> ph = Some (t_previousblockhash t)" "update_stratum_job E t nb st T = Some T'"
  shows "on_tip (Some (t_previousblockhash t)) T'"
proof -
  obtain s enp bt where T': "jt_slots T' = (marked nb T)(jt_next T := Some s)" and f: "frame s = frame (template_job E t nb enp bt)"
    by (rule update_cases [OF assms(3)]) blast
  have s: "j_template s = t" using f by (simp add: frame_def template_job_def)
  show ?thesis
    unfolding on_tip_def
  proof (intro allI impI)
    fix i j assume ij: "i < MAX_STRATUM_JOBS" "jt_slots T' i = Some j" "\<not> j_is_stale_prevblock j"
    show "Some (t_previousblockhash (j_template j)) = Some (t_previousblockhash t)"
    proof (cases "i = jt_next T")
      case True
      then show ?thesis using ij T' s by simp
    next
      case False
      then have "\<not> nb" "jt_slots T i = Some j" using ij T' by (auto simp: marked_def split: if_splits)
      then show ?thesis using assms(1,2) ij by (auto simp: on_tip_def)
    qed
  qed
qed

lemma on_tip_initial: "on_tip ph initial_jobs"
  by (simp add: on_tip_def initial_jobs_def)

lemma job_reach_tip: "job_reach ph T \<Longrightarrow> on_tip ph T"
  by (induction rule: job_reach.induct) (auto intro: on_tip_initial on_tip_update)

text \<open>C35: in every table the template thread makes, a current job is found under the id its notifications carry, also with the letter of a quick change or of empty work.\<close>

theorem job_found_by_id:
  assumes "job_reach ph T" "current_jobs T i = Some j" "length cc = 2"
  shows "list_all (\<lambda>(letter, q, n). submit_job (current_jobs T) (JArray [u, JString (letter @ j_job_id j @ cc)]) = Some (j, i, j_job_id j @ cc, q, n))
     [('''', False, False), (''Q'', True, False), (''N'', False, True)]"
proof -
  have own: "own_slot T i j"
    by (rule current_own [OF job_reach_ring [OF assms(1)] assms(2)])
  have i: "unat (job_index_of (j_job_id j @ cc)) = i" "i < MAX_STRATUM_JOBS" "length (j_job_id j) = 14"
    using own by (simp_all add: own_slot_def MAX_STRATUM_JOBS_def unat_of_nat)
  have p: "param_string (JArray [u, JString s]) 1 = Some s" for s
    by (simp add: param_string_def json_array_get_def json_string_value_def)
  have t: "take 8 (j_job_id j @ x) = take 8 (j_job_id j)" for x using i(3) by simp
  show ?thesis using i assms(2,3) t unfolding submit_job_def p by (simp add: Let_def)
qed

text \<open>C5: in every table the template thread makes, a share that no check refuses builds on the newest known block.\<close>

theorem fresh_share_on_tip:
  assumes "job_reach ph T" "submit_job (current_jobs T) params = Some (j, i, id_s, q, n)" "share_fault e m j i q w = None"
  shows "ph = Some (t_previousblockhash (j_template j))"
proof -
  have "current_jobs T i = Some j" "i < MAX_STRATUM_JOBS"
    using assms(2) by (auto simp: submit_job_def Let_def split: option.splits if_splits)
  then have "jt_slots T i = Some j" using current_own [OF job_reach_ring [OF assms(1)]] by (auto simp: own_slot_def)
  moreover have "\<not> j_is_stale_prevblock j" using assms(3) by (auto simp: share_fault_def Let_def)
  ultimately show ?thesis using job_reach_tip [OF assms(1)] \<open>i < MAX_STRATUM_JOBS\<close> by (auto simp: on_tip_def)
qed

section \<open>New jobs and their commitment\<close>

lemma refreshed_ids: "refreshed e (j\<lparr>j_datum_job_idx := a, j_global_index := b, j_job_id := c\<rparr>) = refreshed e j"
proof -
  have "datum_blake2b_commit_for_coinbase sha b1 b2 (j\<lparr>j_datum_job_idx := a, j_global_index := b, j_job_id := c\<rparr>) = datum_blake2b_commit_for_coinbase sha b1 b2 j" for sha b1 b2
    by (intro ext) (simp add: datum_blake2b_commit_for_coinbase_def)
  then show ?thesis by (simp add: refreshed_def stratum_job_is_blake2b_def)
qed

lemma updated_job:
  assumes u: "update_stratum_job E t nb st T = Some T'" and n: "jt_next T = nat (next_global (jt_latest T))"
  obtains j where "current_jobs T' (jt_next T) = Some j" "j_template j = t" "\<not> j_is_stale_prevblock j" "j_tsms j = je_now E"
    "upk_u32le (t_bits_bin t) 0 = t_bits_uint t \<Longrightarrow> from_template j"
    "\<And>e. e_sha e = je_sha E \<Longrightarrow> e_buf1 e = je_buf1 E \<Longrightarrow> e_buf2 e = je_buf2 E \<Longrightarrow> t_header_version t \<ge> 2 \<Longrightarrow> refreshed e j"
proof -
  obtain s enp bt sb s1 didx gidx jid where T': "jt_slots T' = (marked nb T)(jt_next T := Some s)"
    "jt_cur T' = (jt_cur T)(nat (next_global (jt_latest T)) := Some (jt_next T))" and
    s: "frame s = frame (template_job E t nb enp bt)" "j_tsms s = je_now E" and sb: "with_branches E s1 = Some sb"
    "s = (datum_stratum_job_refresh_blake2b (je_sha E) (je_buf1 E) (je_buf2 E) sb)\<lparr>j_datum_job_idx := didx, j_global_index := gidx, j_job_id := jid\<rparr>"
    by (rule update_cases [OF u]) blast
  have f: "j_template s = t" "\<not> j_is_stale_prevblock s" "upk_u32le (t_bits_bin t) 0 = t_bits_uint t \<Longrightarrow> from_template s"
    using s(1) by (simp_all add: frame_def template_job_def from_template_def)
  have "refreshed e s" if e: "e_sha e = je_sha E" "e_buf1 e = je_buf1 E" "e_buf2 e = je_buf2 E" "t_header_version t \<ge> 2" for e
  proof -
    have "j_template sb = t" using f(1) sb(2) frame_refresh [of "je_sha E" "je_buf1 E" "je_buf2 E" sb] by (simp add: frame_def)
    then have "refreshed e (datum_stratum_job_refresh_blake2b (je_sha E) (je_buf1 E) (je_buf2 E) sb)"
      using refresh_refreshed [of sb e] e by (simp add: stratum_job_is_blake2b_def)
    then show ?thesis unfolding sb(2) refreshed_ids .
  qed
  then show thesis using f s(2) T' n by (intro that [of s]) (simp_all add: current_jobs_def)
qed

section \<open>Examples\<close>

definition ex_jenv :: job_env where
  "ex_jenv = \<lparr>je_sha = (\<lambda>_. replicate 32 0), je_buf1 = replicate 119 0, je_buf2 = replicate 96 0, je_templist = [], je_addr_script = demo_addr,
     je_conf = demo_conf, je_supplier = '''', je_supplier_name = '''', je_now = 1000, je_time = 5\<rparr>"

definition ex_sha_template :: template where
  "ex_sha_template = ex_template\<lparr>t_header_version := 0, t_height := 900000\<rparr>"

lemma ex_update: "\<exists>T'. update_stratum_job ex_jenv ex_sha_template True 2 T = Some T'"
proof -
  have "\<exists>x. nbits_to_target (upk_u32le [0xff, 0xff, 0x00, 0x1d] 0) = Some x" by (simp add: upk_u32le_def nbits_to_target_def Let_def)
  then obtain bt where bt: "nbits_to_target (upk_u32le (t_bits_bin ex_sha_template) 0) = Some bt" by (auto simp: ex_sha_template_def ex_template_def)
  let ?s = "template_job ex_jenv ex_sha_template True (jt_enprefix T) bt"
  have cb: "height (job_cb ?s) = 900000" "carousel_supplier_name (job_cb ?s) = ''''" "headline_of (Some (block_template (job_cb ?s))) = []"
    by (simp_all add: job_cb_def template_job_def template_cb_def headline_of_def ex_sha_template_def ex_jenv_def)
  have "\<exists>x. generate_coinbase_input demo_conf (ucast (height (job_cb ?s))) (Some (block_template (job_cb ?s))) (carousel_supplier_name (job_cb ?s)) = Some x"
    unfolding generate_coinbase_input_def cb Let_def by (simp add: demo_conf_def MAX_COINBASE_TAG_SPACE_def secondary_tag_def tag_fit_def)
  then have "\<exists>x. generate_base_coinbase_txns_for_stratum_job (je_addr_script ex_jenv) (je_conf ex_jenv) (job_cb ?s) True = Some x"
    by (auto simp: generate_base_coinbase_txns_for_stratum_job_def ex_jenv_def set_pool_script_def demo_conf_def [THEN arg_cong, of datum_active] Let_def split: prod.split)
  then obtain s1 where s1: "with_base_coinbase ex_jenv True ?s = Some s1" by (auto simp: with_base_coinbase_def)
  then have "j_template s1 = ex_sha_template" using frame_base [OF s1] by (simp add: frame_def template_job_def)
  then have "\<exists>s3. with_branches ex_jenv (s1\<lparr>j_job_state := 2, j_need_coinbaser := (2 = (4::nat) \<or> 2 = (5::nat)), j_tsms := je_now ex_jenv\<rparr>) = Some s3"
    by (simp add: with_branches_def stratum_calculate_merkle_branches_def) (simp add: ex_sha_template_def ex_template_def)
  then show ?thesis using bt s1 by (auto simp: update_stratum_job_def)
qed

lemma ex_table:
  obtains T j where "job_reach (Some (t_previousblockhash ex_sha_template)) T" "current_jobs T 0 = Some j" "j_template j = ex_sha_template"
    "\<not> j_is_stale_prevblock j" "j_tsms j = 1000"
proof -
  obtain T where u: "update_stratum_job ex_jenv ex_sha_template True 2 initial_jobs = Some T" using ex_update by blast
  have n: "jt_next initial_jobs = nat (next_global (jt_latest initial_jobs))" "jt_next initial_jobs = 0"
    by (simp_all add: initial_jobs_def next_global_def MAX_STRATUM_JOBS_def)
  obtain j where "current_jobs T (jt_next initial_jobs) = Some j" "j_template j = ex_sha_template" "\<not> j_is_stale_prevblock j" "j_tsms j = je_now ex_jenv"
    by (rule updated_job [OF u n(1)]) blast
  moreover have "job_reach (Some (t_previousblockhash ex_sha_template)) T" by (rule job_reach.update [OF job_reach.start _ u]) simp
  ultimately show thesis using n(2) by (intro that [of T j]) (simp_all add: ex_jenv_def)
qed

theorem job_found_by_id_witness:
  "\<exists>T j. current_jobs T 0 = Some j \<and> j_template j = ex_sha_template
    \<and> submit_job (current_jobs T) (JArray [JNull, JString (''Q'' @ j_job_id j @ ''00'')]) = Some (j, 0, j_job_id j @ ''00'', True, False)"
proof -
  obtain T j where T: "job_reach (Some (t_previousblockhash ex_sha_template)) T" "current_jobs T 0 = Some j" "j_template j = ex_sha_template"
    by (rule ex_table) blast
  from job_found_by_id [OF T(1,2), of "''00''" JNull] T(2,3) show ?thesis by auto
qed

definition ex_work :: work_done where
  "ex_work = \<lparr>w_header = [], w_hash = replicate 31 0 @ [1], w_full_cb = [], w_bver = 0, w_extranonce = [], w_ntime64 = 20, w_ntime = 20, w_nonce64 = 0, w_coinbase_index = 0\<rparr>"

theorem fresh_share_on_tip_witness:
  "\<exists>T j. current_jobs T 0 = Some j \<and> share_fault ex_env ex_miner j 0 False ex_work = None \<and> t_previousblockhash (j_template j) = replicate 64 CHR ''0''"
proof -
  obtain T j where T: "job_reach (Some (t_previousblockhash ex_sha_template)) T" "current_jobs T 0 = Some j" "j_template j = ex_sha_template"
    "\<not> j_is_stale_prevblock j" "j_tsms j = 1000" by (rule ex_table) blast
  have own: "own_slot T 0 j" by (rule current_own [OF job_reach_ring [OF T(1)] T(2)])
  then have s: "submit_job (current_jobs T) (JArray [JNull, JString (j_job_id j @ ''00'')]) = Some (j, 0, j_job_id j @ ''00'', False, False)"
    using T(2) by (simp add: submit_job_def param_string_def json_array_get_def json_string_value_def own_slot_def MAX_STRATUM_JOBS_def)
  have blake: "\<not> stratum_job_is_blake2b j" using T(3) by (simp add: stratum_job_is_blake2b_def ex_sha_template_def)
  have t: "t_mintime ex_sha_template = 10" "t_curtime ex_sha_template = 20" by (simp_all add: ex_sha_template_def ex_template_def)
  have e: "e_now ex_env = 2000" "m_job_targets ex_miner = (\<lambda>_. replicate 32 0xff)" by (simp_all add: ex_env_def ex_miner_def)
  have f: "share_fault ex_env ex_miner j 0 False ex_work = None"
    using T blake t e ex_compare unfolding share_fault_def Let_def by (simp add: ex_work_def) (simp add: ex_env_def ex_conf_def)
  have "t_previousblockhash ex_sha_template = replicate 64 CHR ''0''" by (simp add: ex_sha_template_def ex_template_def)
  then have "t_previousblockhash (j_template j) = replicate 64 CHR ''0''" using fresh_share_on_tip [OF T(1) s f] by simp
  with f T(2) show ?thesis by blast
qed

end
