(* ===== verification/Notified.thy ===== *)
theory Notified
  imports Jobs
begin

text \<open>
  The jobs that reach a miner: as \<^verbatim>\<open>update_stratum_job\<close> publishes them, and as the coinbaser's thread completes
  them (\<^verbatim>\<open>generate_coinbase_txns_for_stratum_job\<close> and \<^verbatim>\<open>datum_coinbaser_thread\<close> in
  \<^verbatim>\<open>src/src/datum_coinbaser.c\<close>). The coinbase transaction a miner builds from a notification of such a job is
  the one its share is checked with.
\<close>

section \<open>Completing a job\<close>

text \<open>What the generation writes to the job; the payout engine \<open>fill\<close> and the outputs of the pool \<open>outs\<close> are arguments.\<close>

definition with_coinbases :: "job_env \<Rightarrow> (cb_job \<Rightarrow> cb_output list) \<Rightarrow> cb_output list \<Rightarrow> bool \<Rightarrow> stratum_job \<Rightarrow> stratum_job option" where
  "with_coinbases E fill outs empty_only s =
     map_option (\<lambda>r. datum_stratum_job_refresh_blake2b (je_sha E) (je_buf1 E) (je_buf2 E)
         (s\<lparr>j_pool_addr_script := pool_addr_script (set_pool_script (je_addr_script E) (je_conf E) (job_cb s)), j_is_datum_job := datum_active (je_conf E),
            j_coinbase := map coinbase_of_pair (coinbases r),
            j_subsidy_only_coinbase := (case subsidy_only r of None \<Rightarrow> j_subsidy_only_coinbase s | Some q \<Rightarrow> coinbase_of_pair q),
            j_target_pot_index := target_pot_index r, j_blake2b_coinbase_index := blake2b_coinbase_index r\<rparr>))
       (generate_coinbase_txns_for_stratum_job (je_addr_script E) fill (je_conf E) (job_cb s) outs empty_only)"

text \<open>A round of the coinbaser's thread on a job that needs it.\<close>

definition completed_job :: "job_env \<Rightarrow> (cb_job \<Rightarrow> cb_output list) \<Rightarrow> cb_output list \<Rightarrow> stratum_job \<Rightarrow> stratum_job option" where
  "completed_job E fill outs s =
     (if j_need_coinbaser s then map_option (\<lambda>s. s\<lparr>j_need_coinbaser := False\<rparr>) (with_coinbases E fill outs False s) else None)"

section \<open>The fields of a new job\<close>

definition cb_fields :: "stratum_job \<Rightarrow> coinbase list \<times> coinbase \<times> nat" where
  "cb_fields j = (j_coinbase j, j_subsidy_only_coinbase j, j_target_pot_index j)"

definition cb_inputs :: "stratum_job \<Rightarrow> u64 \<times> u64 \<times> u16 \<times> string \<times> template" where
  "cb_inputs j = (j_height j, j_coinbase_value j, j_enprefix j, j_carousel_supplier_name j, j_template j)"

lemma refresh_keeps_coinbases:
  "cb_fields (datum_stratum_job_refresh_blake2b sha b1 b2 s) = cb_fields s \<and> cb_inputs (datum_stratum_job_refresh_blake2b sha b1 b2 s) = cb_inputs s
   \<and> j_need_coinbaser (datum_stratum_job_refresh_blake2b sha b1 b2 s) = j_need_coinbaser s
   \<and> j_job_id (datum_stratum_job_refresh_blake2b sha b1 b2 s) = j_job_id s"
proof (cases "stratum_job_is_blake2b s")
  case True
  show ?thesis by (rule refresh_form [OF True, of sha b1 b2]) (simp add: cb_fields_def cb_inputs_def)
qed (simp add: datum_stratum_job_refresh_blake2b_def)

lemma set_script_inputs: "cb_inputs a = cb_inputs b \<Longrightarrow> set_pool_script f c (job_cb a) = set_pool_script f c (job_cb b)"
  by (simp add: cb_inputs_def set_pool_script_def job_cb_def)

lemma updated_coinbases:
  assumes u: "update_stratum_job E t nb st T = Some T'" and j: "jt_slots T' (jt_next T) = Some j"
  obtains enp bt p sub pot where
    "generate_base_coinbase_txns_for_stratum_job (je_addr_script E) (je_conf E) (job_cb (template_job E t nb enp bt)) nb = Some (p, sub, pot)"
    "cb_inputs j = cb_inputs (template_job E t nb enp bt)" "j_coinbase j = (replicate MAX_COINBASE_TYPES zero_coinbase)[0 := coinbase_of_pair p]"
    "sub \<noteq> None \<Longrightarrow> j_subsidy_only_coinbase j = coinbase_of_pair (the sub)" "j_target_pot_index j = pot"
    "j_need_coinbaser j = (st = 4 \<or> st = 5)" "j_job_state j = st" "length (j_job_id j) = 14" "j_template j = t"
proof -
  note u = u [unfolded update_stratum_job_def]
  obtain bt where bt: "nbits_to_target (upk_u32le (t_bits_bin t) 0) = Some bt" using u by (cases "nbits_to_target (upk_u32le (t_bits_bin t) 0)") simp_all
  note u = u [unfolded bt option.case]
  let ?s = "template_job E t nb (jt_enprefix T) bt"
  obtain s1 where s1: "with_base_coinbase E nb ?s = Some s1" using u by (cases "with_base_coinbase E nb ?s") simp_all
  note u = u [unfolded s1 option.case]
  let ?s2 = "s1\<lparr>j_job_state := st, j_need_coinbaser := (st = 4 \<or> st = 5), j_tsms := je_now E\<rparr>"
  obtain s3 where s3: "with_branches E ?s2 = Some s3" using u by (cases "with_branches E ?s2") simp_all
  note u = u [unfolded s3 option.case option.inject, symmetric]
  let ?s4 = "datum_stratum_job_refresh_blake2b (je_sha E) (je_buf1 E) (je_buf2 E) s3"
  obtain s5 T5 where r: "with_datum_idx (jt_next T) ?s4 (reset_empty nb (advance T)) = (s5, T5)" by fastforce
  have j5: "cb_fields j = cb_fields s5" "cb_inputs j = cb_inputs s5" "j_need_coinbaser j = j_need_coinbaser s5" "j_job_state j = j_job_state s5" "length (j_job_id j) = 14"
    using u j r by (auto simp: publish_def Let_def cb_fields_def cb_inputs_def job_id_length)
  have s5: "cb_fields s5 = cb_fields ?s4" "cb_inputs s5 = cb_inputs ?s4" "j_need_coinbaser s5 = j_need_coinbaser ?s4" "j_job_state s5 = j_job_state ?s4"
    using r by (auto simp: with_datum_idx_def cb_fields_def cb_inputs_def split: if_splits prod.splits)
  have s3': "cb_fields s3 = cb_fields s1" "cb_inputs s3 = cb_inputs s1" "j_need_coinbaser s3 = (st = 4 \<or> st = 5)" "j_job_state s3 = st"
    using s3 by (auto simp: with_branches_def cb_fields_def cb_inputs_def)
  obtain p sub pot where b: "generate_base_coinbase_txns_for_stratum_job (je_addr_script E) (je_conf E) (job_cb ?s) nb = Some (p, sub, pot)"
    "j_coinbase s1 = (j_coinbase ?s)[0 := coinbase_of_pair p]" "sub \<noteq> None \<Longrightarrow> j_subsidy_only_coinbase s1 = coinbase_of_pair (the sub)"
    "j_target_pot_index s1 = pot" "cb_inputs s1 = cb_inputs ?s"
  proof -
    obtain p sub pot where g: "generate_base_coinbase_txns_for_stratum_job (je_addr_script E) (je_conf E) (job_cb ?s) nb = Some (p, sub, pot)"
      "s1 = ?s\<lparr>j_pool_addr_script := pool_addr_script (set_pool_script (je_addr_script E) (je_conf E) (job_cb ?s)), j_is_datum_job := datum_active (je_conf E),
         j_coinbase := (j_coinbase ?s)[0 := coinbase_of_pair p],
         j_subsidy_only_coinbase := (case sub of None \<Rightarrow> j_subsidy_only_coinbase ?s | Some q \<Rightarrow> coinbase_of_pair q), j_target_pot_index := pot\<rparr>"
      using s1 by (auto simp: with_base_coinbase_def)
    show thesis by (rule that [OF g(1)]) (auto simp: g(2) cb_inputs_def)
  qed
  have k: "cb_fields j = cb_fields s1" "cb_inputs j = cb_inputs ?s" "j_need_coinbaser j = (st = 4 \<or> st = 5)" "j_job_state j = st"
    using j5 s5 s3' b(5) refresh_keeps_coinbases [of "je_sha E" "je_buf1 E" "je_buf2 E" s3] frame_refresh [of "je_sha E" "je_buf1 E" "je_buf2 E" s3] by simp_all
  have "j_template j = t" using k(2) by (simp add: cb_inputs_def template_job_def)
  then show thesis using that [OF b(1) k(2)] k b(2-4) j5(5) by (auto simp: cb_fields_def template_job_def)
qed

section \<open>Their coinbase transactions\<close>

lemma emit_outputs_length: "length (e_c1 e) \<le> length (e_c1 (emit_outputs cbv special c1cnt enp xs k j m e))"
proof (induction xs arbitrary: k j m e)
  case (Cons x xs)
  have one: "length (e_c1 e) \<le> length (e_c1 (emit_one special c1cnt enp k x e))" by (simp add: emit_one_def Let_def)
  then show ?case using Cons.IH [of "emit_one special c1cnt enp k x e" "Suc k" "j - out_cost x" "m - 1"] Cons.IH [of e "Suc k" j m]
    by (simp add: Let_def)
qed simp

lemma subtype_length:
  "length c1 \<le> length (fst (generate_coinbase_txns_for_stratum_job_subtypebysize s outs room space special c1))"
  unfolding generate_coinbase_txns_for_stratum_job_subtypebysize_def Let_def
  by (auto split: prod.split intro!: order_trans [OF _ emit_outputs_length] le_trans [OF _ le_add1])

text \<open>A piece that starts as the generation does is whole bytes and holds the target byte with two more after it.\<close>

lemma start_length: "length cbs < 2 ^ 32 \<Longrightarrow> 90 + 2 * length cbs \<le> length (coinb1_start b (hex_of cbs) enp)"
proof -
  assume "length cbs < 2 ^ 32"
  then have "length (coinb1_start b (hex_of cbs) enp) = 2 * length (tx_start @ compact (length cbs + (if b then 15 else 0)) @ cbs @ (if b then 0x0e # en_prefix enp else replicate 4 0xff))"
    by (simp only: coinb1_start_bytes length_hex_of)
  moreover have "1 \<le> length (compact n)" for n by (simp add: compact_def)
  moreover have "length tx_start = 41" by (simp add: tx_start_def)
  ultimately show ?thesis by simp
qed

definition pair_ok :: "nat \<Rightarrow> cb_pair \<Rightarrow> bool" where
  "pair_ok pot p \<longleftrightarrow> even (length (coinb1 p)) \<and> 2 * pot + 4 < length (coinb1 p)"

lemma coinbase_ok_pair: "pair_ok (j_target_pot_index j) p \<Longrightarrow> coinbase_ok j (coinbase_of_pair p)"
  by (auto simp: pair_ok_def coinbase_ok_def coinbase_of_pair_def)

lemma empty_pairs_ok:
  assumes "length (pool_addr_script s) \<le> 64" "default_witness_commitment (block_template s) = hex_of wc" "length wc \<le> 47"
    and cbs: "length cbs \<le> 210" "i < length cbs"
    and e: "empty_coinbase s b (coinb1_start b (hex_of cbs) (enprefix s)) = (p, q)"
  shows "pair_ok (42 + i) p \<and> pair_ok (42 + i) q"
proof -
  have l: "length cbs < 2 ^ 32" using cbs(1) by simp
  have n: "length (replicate 12 (0::u8)) = 12" by simp
  obtain b1 b2 s1 s2 where t: "p = \<lparr>coinb1 = hex_of b1, coinb2 = hex_of b2\<rparr>" "q = \<lparr>coinb1 = hex_of s1, coinb2 = hex_of s2\<rparr>"
    using empty_tx [OF assms(1-3) l n e] by blast
  have "90 + 2 * length cbs \<le> length (coinb1 p) \<and> 90 + 2 * length cbs \<le> length (coinb1 q)"
    using e start_length [OF l, of b "enprefix s"] by (auto simp: empty_coinbase_def Let_def split: if_splits)
  then show ?thesis using cbs(2) by (simp add: pair_ok_def t)
qed

lemma type_pair_ok:
  assumes ok: "job_ok s wc outs" and cbs: "length cbs \<le> 210" "i < length cbs"
  shows "pair_ok (42 + i) (type_coinbase s outs (hex_of cbs) ty)"
proof -
  define space where "space \<longleftrightarrow> ty \<noteq> 2 \<and> length cbs \<le> 85"
  define room where "room = datum_stratum_coinbase_fit_to_template (type_max ty) (cb_req_sz s (length cbs \<le> 85) (int (length cbs)) ty) (block_template s)"
  define c1 where "c1 = coinb1_start space (hex_of cbs) (enprefix s)"
  have l: "length cbs < 2 ^ 32" using cbs(1) by simp
  have t: "coinb1 (type_coinbase s outs (hex_of cbs) ty) = fst (generate_coinbase_txns_for_stratum_job_subtypebysize s outs room space (ty = 2) c1)"
    by (simp add: type_coinbase_def Let_def room_def space_def c1_def split: prod.split)
  have n: "length (replicate 12 (0::u8)) = 12" "space = (space \<and> \<not> ty = 2)" by (auto simp: space_def)
  obtain b1 b2 where "generate_coinbase_txns_for_stratum_job_subtypebysize s outs room space (ty = 2) c1 = (hex_of b1, hex_of b2)"
    using subtype_tx [OF ok l n, of room] unfolding c1_def by blast
  then have "even (length (coinb1 (type_coinbase s outs (hex_of cbs) ty)))" by (simp add: t)
  moreover have "90 + 2 * length cbs \<le> length (coinb1 (type_coinbase s outs (hex_of cbs) ty))"
    unfolding t using subtype_length start_length [OF l] by (metis c1_def le_trans)
  ultimately show ?thesis using cbs(2) by (simp add: pair_ok_def)
qed

lemma base_pairs_ok:
  assumes g: "generate_base_coinbase_txns_for_stratum_job addr_script conf s nb = Some (p, sub, pot)"
    and ok: "job_ok (set_pool_script addr_script conf s) wc []" and hl: "length (blake2b_headline (block_template s)) \<le> 100"
  shows "pair_ok pot p \<and> (\<forall>q. sub = Some q \<longrightarrow> pair_ok pot q) \<and> (nb \<longrightarrow> sub \<noteq> None)"
proof -
  define s' where "s' = set_pool_script addr_script conf s"
  have s': "block_template s' = block_template s" by (simp add: s'_def set_pool_script_def)
  obtain cb i where c: "generate_coinbase_input conf (ucast (height s')) (Some (block_template s')) (carousel_supplier_name s') = Some (cb, i)"
    using g unfolding generate_base_coinbase_txns_for_stratum_job_def Let_def s'_def [symmetric] by (auto split: if_splits option.splits)
  have "length (headline_of (Some (block_template s'))) \<le> 100" using hl by (simp add: headline_of_def s')
  from generate_coinbase_input_bytes [OF c this] obtain cbs where cbs: "cb = hex_of cbs" "i < length cbs" "length cbs \<le> 210" by blast
  obtain p' q' where pq: "empty_coinbase s' (length cbs \<le> 85) (coinb1_start (length cbs \<le> 85) (hex_of cbs) (enprefix s')) = (p', q')" by fastforce
  have st: "(length cbstart_hex + 2) div 2 = 42" by (simp add: lit_start tx_start_def)
  have r: "p = p'" "sub = (if nb then Some q' else None)" "pot = 42 + i"
    using g unfolding generate_base_coinbase_txns_for_stratum_job_def Let_def s'_def [symmetric] c st by (auto simp: cbs(1) pq split: if_splits)
  have "pair_ok (42 + i) p' \<and> pair_ok (42 + i) q'"
    by (rule empty_pairs_ok [OF _ _ _ cbs(3,2) pq]) (use ok in \<open>auto simp: job_ok_def s'_def\<close>)
  then show ?thesis by (auto simp: r)
qed

lemma made_pairs_ok:
  assumes g: "generate_coinbase_txns_for_stratum_job addr_script fill conf s outs empty_only = Some r"
    and ok: "job_ok (set_pool_script addr_script conf s) wc (available_outputs fill conf (set_pool_script addr_script conf s) outs)"
    and hl: "length (blake2b_headline (block_template s)) \<le> 100"
  shows "list_all (pair_ok (target_pot_index r)) (coinbases r) \<and> length (coinbases r) = 6"
proof -
  define s' where "s' = set_pool_script addr_script conf s"
  have s': "block_template s' = block_template s" by (simp add: s'_def set_pool_script_def)
  define outs' where "outs' = available_outputs fill conf s' outs"
  note ok = ok [folded s'_def, folded outs'_def]
  obtain cb i where c: "generate_coinbase_input conf (ucast (height s')) (Some (block_template s')) (carousel_supplier_name s') = Some (cb, i)"
    using g unfolding generate_coinbase_txns_for_stratum_job_def Let_def s'_def [symmetric] by (auto split: if_splits option.splits)
  have "length (headline_of (Some (block_template s'))) \<le> 100" using hl by (simp add: headline_of_def s')
  from generate_coinbase_input_bytes [OF c this] obtain cbs where cbs: "cb = hex_of cbs" "i < length cbs" "length cbs \<le> 210" by blast
  obtain p q where pq: "empty_coinbase s' (length cbs \<le> 85) (coinb1_start (length cbs \<le> 85) (hex_of cbs) (enprefix s')) = (p, q)" by fastforce
  have st: "(length cbstart_hex + 2) div 2 = 42" by (simp add: lit_start tx_start_def)
  have r: "length (coinbases r) = 6" "set (coinbases r) \<subseteq> insert p (range (type_coinbase s' outs' (hex_of cbs)))" "target_pot_index r = 42 + i"
    using g unfolding generate_coinbase_txns_for_stratum_job_def Let_def s'_def [symmetric] outs'_def [symmetric] c st
    by (auto simp: cbs(1) pq split: if_splits)
  have "pair_ok (42 + i) p \<and> pair_ok (42 + i) q"
    by (rule empty_pairs_ok [OF _ _ _ cbs(3,2) pq]) (use ok in \<open>auto simp: job_ok_def\<close>)
  moreover note type_pair_ok [OF ok cbs(3,2)]
  ultimately show ?thesis using r by (auto simp: list_all_iff)
qed

section \<open>What is sent is what is checked\<close>

lemma published_coinbase_ok:
  assumes u: "update_stratum_job E t nb st T = Some T'" "jt_slots T' (jt_next T) = Some j" and hl: "length (t_blake2b_headline t) \<le> 100"
    and ok: "job_ok (set_pool_script (je_addr_script E) (je_conf E) (job_cb j)) wc []"
  shows "coinbase_ok j (j_coinbase j ! 0)" "nb \<Longrightarrow> coinbase_ok j (j_subsidy_only_coinbase j)" "j_need_coinbaser j = (st = 4 \<or> st = 5)" "j_job_state j = st"
    "length (j_job_id j) = 14" "j_template j = t"
proof -
  obtain enp bt p sub pot where g: "generate_base_coinbase_txns_for_stratum_job (je_addr_script E) (je_conf E) (job_cb (template_job E t nb enp bt)) nb = Some (p, sub, pot)"
    and f: "cb_inputs j = cb_inputs (template_job E t nb enp bt)" "j_coinbase j = (replicate MAX_COINBASE_TYPES zero_coinbase)[0 := coinbase_of_pair p]"
    "sub \<noteq> None \<Longrightarrow> j_subsidy_only_coinbase j = coinbase_of_pair (the sub)" "j_target_pot_index j = pot"
    and k: "j_need_coinbaser j = (st = 4 \<or> st = 5)" "j_job_state j = st" "length (j_job_id j) = 14" "j_template j = t"
    by (rule updated_coinbases [OF u]) blast
  have ok': "job_ok (set_pool_script (je_addr_script E) (je_conf E) (job_cb (template_job E t nb enp bt))) wc []"
    using ok set_script_inputs [OF f(1)] by simp
  have "length (blake2b_headline (block_template (job_cb (template_job E t nb enp bt)))) \<le> 100"
    using hl by (simp add: job_cb_def template_job_def template_cb_def)
  from base_pairs_ok [OF g ok' this] have o: "pair_ok pot p" "\<And>x. sub = Some x \<Longrightarrow> pair_ok pot x" "nb \<Longrightarrow> sub \<noteq> None" by auto
  show "coinbase_ok j (j_coinbase j ! 0)" using o(1) f(2,4) by (intro coinbase_ok_pair [of j p, THEN back_subst [of "coinbase_ok j"]]) (simp_all add: MAX_COINBASE_TYPES_def)
  show "coinbase_ok j (j_subsidy_only_coinbase j)" if nb
    using o(2,3) that f(3,4) by (auto intro: coinbase_ok_pair)
  show "j_need_coinbaser j = (st = 4 \<or> st = 5)" "j_job_state j = st" "length (j_job_id j) = 14" "j_template j = t" using k by simp_all
qed

lemma completed_coinbase_ok:
  assumes c: "completed_job E fill outs j = Some j'" and hl: "length (t_blake2b_headline (j_template j)) \<le> 100"
    and ok: "job_ok (set_pool_script (je_addr_script E) (je_conf E) (job_cb j)) wc (available_outputs fill (je_conf E) (set_pool_script (je_addr_script E) (je_conf E) (job_cb j)) outs)"
  shows "i < MAX_COINBASE_TYPES \<Longrightarrow> coinbase_ok j' (j_coinbase j' ! i)" "\<not> j_need_coinbaser j'" "j_need_coinbaser j" "j_job_id j' = j_job_id j" "j_template j' = j_template j"
proof -
  obtain x where x: "with_coinbases E fill outs False j = Some x" and n: "j_need_coinbaser j" and jx: "j' = x\<lparr>j_need_coinbaser := False\<rparr>"
    using c by (auto simp: completed_job_def split: if_splits)
  obtain r where g: "generate_coinbase_txns_for_stratum_job (je_addr_script E) fill (je_conf E) (job_cb j) outs False = Some r"
    using x by (auto simp: with_coinbases_def)
  define s where "s = j\<lparr>j_pool_addr_script := pool_addr_script (set_pool_script (je_addr_script E) (je_conf E) (job_cb j)), j_is_datum_job := datum_active (je_conf E),
            j_coinbase := map coinbase_of_pair (coinbases r),
            j_subsidy_only_coinbase := (case subsidy_only r of None \<Rightarrow> j_subsidy_only_coinbase j | Some q \<Rightarrow> coinbase_of_pair q),
            j_target_pot_index := target_pot_index r, j_blake2b_coinbase_index := blake2b_coinbase_index r\<rparr>"
  have j': "j' = (datum_stratum_job_refresh_blake2b (je_sha E) (je_buf1 E) (je_buf2 E) s)\<lparr>j_need_coinbaser := False\<rparr>"
    using x by (simp add: jx with_coinbases_def g s_def)
  have s: "cb_fields s = (map coinbase_of_pair (coinbases r), j_subsidy_only_coinbase s, target_pot_index r)" "cb_inputs s = cb_inputs j" "j_job_id s = j_job_id j"
    by (simp_all add: s_def cb_fields_def cb_inputs_def)
  have "length (blake2b_headline (block_template (job_cb j))) \<le> 100" using hl by (simp add: job_cb_def template_cb_def)
  from made_pairs_ok [OF g ok this] have o: "list_all (pair_ok (target_pot_index r)) (coinbases r)" "length (coinbases r) = 6" by simp_all
  have f: "j_coinbase j' = map coinbase_of_pair (coinbases r)" "j_target_pot_index j' = target_pot_index r" "j_job_id j' = j_job_id j" "j_template j' = j_template j"
    using refresh_keeps_coinbases [of "je_sha E" "je_buf1 E" "je_buf2 E" s] s by (simp_all add: j' cb_fields_def cb_inputs_def)
  show "coinbase_ok j' (j_coinbase j' ! i)" if "i < MAX_COINBASE_TYPES"
    using o that f by (simp add: MAX_COINBASE_TYPES_def list_all_length) (rule coinbase_ok_pair, simp)
  show "\<not> j_need_coinbaser j'" "j_need_coinbaser j" "j_job_id j' = j_job_id j" "j_template j' = j_template j" using n f by (simp_all add: j')
qed

text \<open>C11: on a job for the old header, as \<open>update_stratum_job\<close> publishes it or as the coinbaser's thread completes it
  later: the coinbase transaction a miner builds from a notification and its extranonce is the one its share is checked
  with, for the job id, difficulty and kind of the notification. The inputs of the generation are those of the property
  on its payments (\<open>job_ok\<close>, a headline of at most 100 bytes). As the thread's loop does, the outputs of the
  coinbaser are offered only for a job that no longer waits for them, and the subsidy-only transaction only for a new
  block's empty work.\<close>

theorem notified_coinbase_checked:
  assumes u: "update_stratum_job E t nb st T = Some T'" "jt_slots T' (jt_next T) = Some j0" and st: "st \<le> 5"
    and old: "t_header_version t < 2" and hl: "length (t_blake2b_headline t) \<le> 100"
    and ok: "job_ok (set_pool_script (je_addr_script E) (je_conf E) (job_cb j0)) wc []"
    and ok2: "job_ok (set_pool_script (je_addr_script E2) (je_conf E2) (job_cb j0)) wc2
        (available_outputs fill (je_conf E2) (set_pool_script (je_addr_script E2) (je_conf E2) (job_cb j0)) outs)"
    and j: "j = j0 \<or> completed_job E2 fill outs j0 = Some j"
    and ready: "ready \<longrightarrow> \<not> j_need_coinbaser j" and new: "new \<longrightarrow> nb \<and> st \<in> {1, 2}" and kind: "\<not> (q \<and> new)"
    and sel: "m_coinbase_selection m < MAX_COINBASE_TYPES" and n: "notify_target j q m = Some m1"
    and p: "notify_parts sha buf1 buf2 u_cb conf ready j clean q new m1 = (m2, parts)"
  shows "\<exists>cb com ci. submit_coinbase e m2 j (plain_id (notify_id j (notify_cbselect ready j m1 new) q new)) new = Some (cb, com, ci)
    \<and> hex_to_bin (parts ! 2) @ en @ hex_to_bin (parts ! 4) = submit_full_cb j cb en q (if q then m_quickdiff_value m2 else m_job_diffs m2 (j_global_index j))"
proof -
  note base = published_coinbase_ok [OF u hl ok]
  have hl0: "length (t_blake2b_headline (j_template j0)) \<le> 100" using hl base(6) by simp
  have k: "length (j_job_id j) = 14 \<and> j_template j = t"
    using j base(5,6) completed_coinbase_ok(4,5) [OF _ hl0 ok2] by auto
  then have blake: "\<not> stratum_job_is_blake2b j" using old by (simp add: stratum_job_is_blake2b_def)
  have "coinbase_ok j (if new then j_subsidy_only_coinbase j else j_coinbase j ! notify_cbselect ready j m new)"
  proof (cases "j = j0")
    case True
    have "new = False \<Longrightarrow> notify_cbselect ready j m new = 0"
      using True ready base(3,4) st blake by (auto simp: notify_cbselect_def JOB_STATE_FULL_PRIORITY_WAIT_COINBASER_def)
    then show ?thesis using True base(1,2) new by (cases new) auto
  next
    case False
    then have c: "completed_job E2 fill outs j0 = Some j" using j by blast
    note full = completed_coinbase_ok [OF c hl0 ok2]
    have "\<not> new" using new full(3) base(3) by auto
    moreover have "notify_cbselect ready j m new < MAX_COINBASE_TYPES" using sel blake by (simp add: notify_cbselect_def MAX_COINBASE_TYPES_def)
    ultimately show ?thesis using full(1) by simp
  qed
  then show ?thesis using k by (intro notified_coinbase_sent [OF blake _ sel _ kind n p]) simp_all
qed

theorem notified_coinbase_checked_witness:
  "\<exists>T' j m1 m2 parts cb com ci. update_stratum_job ex_jenv ex_sha_template True 2 initial_jobs = Some T' \<and> jt_slots T' 0 = Some j
    \<and> notify_target j False ex_miner = Some m1
    \<and> notify_parts (e_sha ex_env) [] [] (\<lambda>_ _. None) ex_conf False j True False True m1 = (m2, parts)
    \<and> submit_coinbase ex_env m2 j (plain_id (notify_id j (notify_cbselect False j m1 True) False True)) True = Some (cb, com, ci)
    \<and> hex_to_bin (parts ! 2) @ [1, 2, 3] @ hex_to_bin (parts ! 4) = submit_full_cb j cb [1, 2, 3] False (m_job_diffs m2 (j_global_index j))"
proof -
  obtain T' where u: "update_stratum_job ex_jenv ex_sha_template True 2 initial_jobs = Some T'" using ex_update by blast
  have z: "jt_next initial_jobs = 0" by (simp add: initial_jobs_def)
  obtain j where j: "jt_slots T' (jt_next initial_jobs) = Some j" using update_cases [OF u] by (metis fun_upd_same)
  have t: "t_header_version ex_sha_template < 2" "length (t_blake2b_headline ex_sha_template) \<le> 100"
    by (simp_all add: ex_sha_template_def ex_template_def)
  have ok: "job_ok (set_pool_script (je_addr_script ex_jenv) (je_conf ex_jenv) (job_cb j)) [] []"
  proof -
    have "j_template j = ex_sha_template" by (rule updated_coinbases [OF u j])
    then show ?thesis by (simp add: job_ok_def set_pool_script_def job_cb_def template_cb_def ex_sha_template_def) (simp add: ex_template_def ex_jenv_def demo_conf_def)
  qed
  have ok2: "job_ok (set_pool_script (je_addr_script ex_jenv) (je_conf ex_jenv) (job_cb j)) []
        (available_outputs (\<lambda>_. []) (je_conf ex_jenv) (set_pool_script (je_addr_script ex_jenv) (je_conf ex_jenv) (job_cb j)) [])"
    using ok by (simp add: available_outputs_def)
  have "m_last_sent_diff ex_miner \<noteq> 0" by (simp add: ex_miner_def)
  then obtain m1 where n: "notify_target j False ex_miner = Some m1" using job_target_Some by (fastforce simp: notify_target_def)
  obtain m2 parts where p: "notify_parts (e_sha ex_env) [] [] (\<lambda>_ _. None) ex_conf False j True False True m1 = (m2, parts)" by fastforce
  have sel: "m_coinbase_selection ex_miner < MAX_COINBASE_TYPES" by (simp add: ex_miner_def MAX_COINBASE_TYPES_def)
  from notified_coinbase_checked [OF u j _ t ok ok2 _ _ _ _ sel n p, of ex_env "[1, 2, 3]"] show ?thesis
    using u j n p by (auto simp: z)
qed

end
