(* ===== verification/Thread.thy ===== *)
theory Thread
  imports Jobs "HOL-Library.Signed_Division"
begin

text \<open>
  The loop of a stratum thread, \<^verbatim>\<open>datum_stratum_v1_socket_thread_loop\<close> in \<^verbatim>\<open>src/src/datum_stratum.c\<close>, with what it
  calls: it takes over new jobs, sends them to all clients at once or paced over the update interval, counts
  the empty work that was sent, and marks idle clients. \<^verbatim>\<open>cur_stratum_job\<close> is a slot of the job table. \<open>None\<close>
  is a division by zero.
\<close>

section \<open>State\<close>

record client =
  cl_fd :: bool
  cl_conn :: conn
  cl_kill_request :: bool

record sthread =
  sd_slot :: "nat option"
  sd_latest :: int
  sd_new_job :: bool
  sd_last_was_empty :: bool
  sd_last_sent_state :: nat
  sd_loop_tsms :: u64
  sd_full_coinbase_ready :: bool
  sd_notify_remaining :: int
  sd_notify_start :: u64
  sd_notify_last :: u64
  sd_notify_delay :: u64
  sd_notify_last_cid :: int
  sd_last_job_height :: u64
  sd_next_kick_check :: u64
  sd_clients :: "client list"
  sd_has_kill_request :: bool

record loop_conf =
  lc_max_threads :: u64
  lc_thread_id :: u64
  lc_no_subscribe :: u64
  lc_no_share :: u64
  lc_max_last_work :: u64

definition subscribed_client :: "client \<Rightarrow> bool" where
  "subscribed_client c \<longleftrightarrow> cl_fd c \<and> m_subscribed (miner (cl_conn c))"

section \<open>Empty work\<close>

definition stratum_latest_empty_increment_complete :: "u64 \<Rightarrow> nat \<Rightarrow> job_table \<Rightarrow> job_table" where
  "stratum_latest_empty_increment_complete idx clients_notified T =
     (if jt_empty_index T = idx \<and> \<not> jt_empty_ready T
      then T\<lparr>jt_empty_complete := jt_empty_complete T + 1, jt_empty_sent := jt_empty_sent T + word_of_nat clients_notified\<rparr> else T)"

definition stratum_latest_empty_check_ready_for_full :: "job_table \<Rightarrow> bool" where
  "stratum_latest_empty_check_ready_for_full T = jt_empty_ready T"

text \<open>The step of the server's main loop.\<close>

definition server_step :: "u64 \<Rightarrow> job_table \<Rightarrow> job_table" where
  "server_step active_threads T = (if \<not> jt_empty_ready T \<and> jt_empty_complete T \<ge> active_threads then T\<lparr>jt_empty_ready := True\<rparr> else T)"

section \<open>Threads and clients\<close>

definition zero_miner :: miner where
  "zero_miner = \<lparr>m_sid = 0, m_sid_inv = 0, m_request_id_json = '''', m_useragent = '''', m_last_auth_username = '''', m_version_rolling = False,
     m_version_rolling_mask = 0, m_authorized = False, m_subscribed = False, m_subscribe_tsms = 0, m_last_sent_diff = 0, m_current_diff = 0,
     m_job_targets = (\<lambda>_. replicate 32 0), m_job_diffs = (\<lambda>_. 0), m_coinbase_selection = 0, m_share_diff_accepted = 0, m_share_count_accepted = 0,
     m_share_diff_rejected = 0, m_share_count_rejected = 0, m_share_count_since_snap = 0, m_share_diff_since_snap = 0, m_share_snap_tsms = 0,
     m_quickdiff_active = False, m_quickdiff_value = 0, m_quickdiff_target = replicate 32 0, m_forced_high_min_diff = 0, m_last_sent_job_index = 0,
     m_has_user_addr = False, m_user_script = [], m_user_commitment = replicate 32 0, m_user_sia_coinb1 = replicate 39 0,
     m_user_commit_job_index = Some 0, m_connect_tsms = 0,
     m_stats = \<lparr>us_active_index = False, us_last_swap_tsms = 0, us_last_swap_ms = 0, us_diff_accepted = (0, 0), us_last_share_tsms = 0\<rparr>\<rparr>"

definition datum_stratum_v1_socket_thread_client_new :: "u64 \<Rightarrow> u64 \<Rightarrow> conn \<Rightarrow> conn" where
  "datum_stratum_v1_socket_thread_client_new loop_tsms now c =
     c\<lparr>miner := zero_miner\<lparr>m_connect_tsms := (if loop_tsms > 0 then loop_tsms else now)\<rparr>\<rparr>"

text \<open>
  The dupe table of the thread is set up at the same time, by \<^verbatim>\<open>datum_stratum_dupes_init\<close>. Before the
  first job the index is \<open>-1\<close> and the read is outside the array (\<open>None\<close>); the server waits for a job
  before it starts to listen.
\<close>

definition datum_stratum_v1_socket_thread_init :: "u64 \<Rightarrow> job_table \<Rightarrow> sthread \<Rightarrow> sthread option" where
  "datum_stratum_v1_socket_thread_init now T s =
     (if jt_latest T < 0 then None
      else Some (s\<lparr>sd_latest := jt_latest T, sd_slot := jt_cur T (nat (jt_latest T)), sd_new_job := False, sd_last_sent_state := 0,
                   sd_next_kick_check := now + 10000\<rparr>))"

definition datum_stratum_v1_get_thread_subscriber_count :: "client list \<Rightarrow> nat" where
  "datum_stratum_v1_get_thread_subscriber_count cs = length (filter subscribed_client cs)"

definition stratum_job_coinbaser_ready :: "stratum_job \<Rightarrow> sthread \<Rightarrow> bool \<times> sthread" where
  "stratum_job_coinbaser_ready j s =
     (if sd_loop_tsms s > j_tsms j \<and> sd_loop_tsms s - j_tsms j > 5000 then (True, s\<lparr>sd_full_coinbase_ready := False\<rparr>)
      else if \<not> j_need_coinbaser j then (True, s\<lparr>sd_full_coinbase_ready := True\<rparr>)
      else (False, s))"

section \<open>A new job\<close>

text \<open>The thread takes over the latest job, unless it still owes full work and the job waits for its outputs.\<close>

definition take_job :: "nat \<Rightarrow> stratum_job \<Rightarrow> int \<Rightarrow> sthread \<Rightarrow> sthread" where
  "take_job slot j latest s =
     s\<lparr>sd_slot := Some slot, sd_latest := latest, sd_new_job := True,
       sd_last_was_empty := (if j_job_state j = 2 then False else sd_last_was_empty s),
       sd_notify_remaining := 0, sd_full_coinbase_ready := False, sd_last_job_height := j_height j\<rparr>"

definition see_job :: "job_table \<Rightarrow> sthread \<Rightarrow> sthread" where
  "see_job T s =
     (if jt_latest T = sd_latest s then s
      else case jt_cur T (nat (jt_latest T)) of None \<Rightarrow> s
        | Some slot \<Rightarrow>
            (case jt_slots T slot of None \<Rightarrow> s
             | Some j \<Rightarrow>
                 let (ready, s) = (if sd_last_was_empty s \<and> j_job_state j \<ge> JOB_STATE_FULL_PRIORITY_WAIT_COINBASER
                                   then (let (a, s) = stratum_job_coinbaser_ready j s in (a \<or> sd_last_job_height s \<noteq> j_height j, s))
                                   else (True, s))
                 in if ready then take_job slot j (jt_latest T) s else s))"

text \<open>A notification to every subscribed client; \<open>notify\<close> is \<^verbatim>\<open>send_mining_notify\<close>.\<close>

fun blast :: "(conn \<Rightarrow> conn option) \<Rightarrow> client list \<Rightarrow> client list option" where
  "blast notify [] = Some []"
| "blast notify (c # cs) =
     (if subscribed_client c
      then case notify (cl_conn c) of None \<Rightarrow> None | Some x \<Rightarrow> map_option ((#) (c\<lparr>cl_conn := x\<rparr>)) (blast notify cs)
      else map_option ((#) c) (blast notify cs))"

definition notify_with :: "surroundings \<Rightarrow> u64 \<Rightarrow> bool \<Rightarrow> stratum_job \<Rightarrow> bool \<Rightarrow> bool \<Rightarrow> conn \<Rightarrow> conn option" where
  "notify_with e now full_ready j clean new_block =
     send_mining_notify (e_sha e) (e_buf1 e) (e_buf2 e) (e_user_cb e) (e_conf e) now full_ready (Some j) clean False new_block"

definition blast_job :: "surroundings \<Rightarrow> stratum_job \<Rightarrow> bool \<Rightarrow> bool \<Rightarrow> sthread \<Rightarrow> sthread option" where
  "blast_job e j clean new_block s =
     map_option (\<lambda>cs. s\<lparr>sd_clients := cs\<rparr>) (blast (notify_with e (sd_loop_tsms s) (sd_full_coinbase_ready s) j clean new_block) (sd_clients s))"

definition sent :: "bool \<Rightarrow> bool \<Rightarrow> nat \<Rightarrow> sthread \<Rightarrow> sthread" where
  "sent new_job was_empty st s = s\<lparr>sd_new_job := new_job, sd_last_was_empty := was_empty, sd_last_sent_state := st\<rparr>"

text \<open>The pace of an update that is not urgent.\<close>

definition start_pacing :: "stratum_conf \<Rightarrow> loop_conf \<Rightarrow> sthread \<Rightarrow> sthread" where
  "start_pacing conf lc s =
     (let n = int (datum_stratum_v1_get_thread_subscriber_count (sd_clients s)); s = s\<lparr>sd_notify_remaining := n\<rparr>
      in if n > 0
         then let d = word_of_int (((uint (work_update_seconds conf) - 3) * 1000) sdiv n); d = (if d = 0 then 1 else d)
              in s\<lparr>sd_notify_last_cid := -1, sd_notify_start := sd_loop_tsms s, sd_notify_delay := d,
                   sd_notify_last := sd_loop_tsms s - (d div lc_max_threads lc) * lc_thread_id lc\<rparr>
         else s)"

definition send_job :: "surroundings \<Rightarrow> loop_conf \<Rightarrow> stratum_job \<Rightarrow> job_table \<Rightarrow> sthread \<Rightarrow> (sthread \<times> job_table) option" where
  "send_job e lc j T s =
     (let n = datum_stratum_v1_get_thread_subscriber_count (sd_clients s); st = j_job_state j; s = (if st \<in> {1, 2, 3, 4, 5} then s\<lparr>sd_full_coinbase_ready := False\<rparr> else s)
      in if st = 1
         then map_option (\<lambda>s. (sent False True 1 s, stratum_latest_empty_increment_complete (word_of_int (sd_latest s)) n T)) (blast_job e j True True s)
         else if st = 2
         then (if \<not> sd_last_was_empty s
               then map_option (\<lambda>s. (sent (sd_new_job s) True 2 s, stratum_latest_empty_increment_complete (word_of_int (sd_latest s)) n T)) (blast_job e j True True s)
               else if stratum_latest_empty_check_ready_for_full T
               then map_option (\<lambda>s. (sent False False 2 s, T)) (blast_job e j False False s)
               else Some (s, T))
         else if st = 3 then map_option (\<lambda>s. (sent False False 3 s, T)) (blast_job e j False False s)
         else if st = 4
         then (let (ready, s) = stratum_job_coinbaser_ready j s
               in if ready then map_option (\<lambda>s. (sent False False 4 s, T)) (blast_job e j False False s) else Some (s, T))
         else if st = 5
         then (let (ready, s) = stratum_job_coinbaser_ready j s
               in if ready
                  then map_option (\<lambda>s. (sent False False 5 s, T))
                         (if sd_last_was_empty s then blast_job e j False False s else Some (start_pacing (e_conf e) lc s))
                  else Some (s, T))
         else Some (s, T))"

section \<open>The paced update\<close>

definition due_client :: "u64 \<Rightarrow> client \<Rightarrow> bool" where
  "due_client start c \<longleftrightarrow> subscribed_client c \<and> m_subscribe_tsms (miner (cl_conn c)) \<le> start"

text \<open>From client \<open>i\<close> on, at most \<open>n\<close> notifications: the clients, the count left, the last client, and whether the end was reached.\<close>

fun pace_walk :: "(conn \<Rightarrow> conn option) \<Rightarrow> u64 \<Rightarrow> int \<Rightarrow> client list \<Rightarrow> u64 \<Rightarrow> int \<Rightarrow> int \<Rightarrow> (client list \<times> int \<times> int \<times> bool) option" where
  "pace_walk notify start i [] n remaining cid = Some ([], remaining, cid, True)"
| "pace_walk notify start i (c # cs) n remaining cid =
     (if due_client start c
      then case notify (cl_conn c) of None \<Rightarrow> None
        | Some x \<Rightarrow>
            if n - 1 = 0 then Some (c\<lparr>cl_conn := x\<rparr> # cs, remaining - 1, i, False)
            else map_option (\<lambda>(cs, r). (c\<lparr>cl_conn := x\<rparr> # cs, r)) (pace_walk notify start (i + 1) cs (n - 1) (remaining - 1) i)
      else map_option (\<lambda>(cs, r). (c # cs, r)) (pace_walk notify start (i + 1) cs n remaining cid))"

definition pace :: "(conn \<Rightarrow> conn option) \<Rightarrow> sthread \<Rightarrow> sthread option" where
  "pace notify s =
     (if sd_notify_remaining s > 0
      then let t = sd_loop_tsms s - sd_notify_last s
           in if t = 0 \<or> t \<ge> sd_notify_delay s
              then if sd_notify_delay s = 0 then None
                   else let n = t div sd_notify_delay s; n = (if n = 0 then 1 else n); k = nat (sd_notify_last_cid s + 1)
                        in map_option (\<lambda>(cs, remaining, cid, reached).
                             s\<lparr>sd_clients := take k (sd_clients s) @ cs, sd_notify_remaining := (if reached then 0 else remaining),
                               sd_notify_last_cid := cid, sd_notify_last := sd_loop_tsms s\<rparr>)
                             (pace_walk notify (sd_notify_start s) (int k) (drop k (sd_clients s)) n (sd_notify_remaining s) (sd_notify_last_cid s))
              else Some s
      else Some s)"

section \<open>Idle clients\<close>

definition kick_limit :: "u64 \<Rightarrow> u64 \<Rightarrow> u64" where
  "kick_limit now timeout = (if timeout > 0 then now - timeout * 1000 else 1)"

definition idle_client :: "loop_conf \<Rightarrow> u64 \<Rightarrow> miner \<Rightarrow> bool" where
  "idle_client lc now m =
     (if m_subscribed m
      then (if m_share_count_accepted m > 0 then us_last_share_tsms (m_stats m) < kick_limit now (lc_max_last_work lc)
            else m_connect_tsms m < kick_limit now (lc_no_share lc))
      else m_connect_tsms m < kick_limit now (lc_no_subscribe lc))"

definition kick_idle :: "loop_conf \<Rightarrow> sthread \<Rightarrow> sthread" where
  "kick_idle lc s =
     (if sd_loop_tsms s \<ge> sd_next_kick_check s
      then let now = sd_loop_tsms s;
               kick = (\<lambda>c. cl_fd c \<and> idle_client lc now (miner (cl_conn c)));
               s = (if lc_no_subscribe lc > 0 \<or> lc_no_share lc > 0 \<or> lc_max_last_work lc > 0
                    then s\<lparr>sd_clients := map (\<lambda>c. if kick c then c\<lparr>cl_kill_request := True\<rparr> else c) (sd_clients s),
                           sd_has_kill_request := (sd_has_kill_request s \<or> list_ex kick (sd_clients s))\<rparr>
                    else s)
           in s\<lparr>sd_next_kick_check := now + 11150\<rparr>
      else s)"

section \<open>The loop\<close>

definition datum_stratum_v1_socket_thread_loop :: "surroundings \<Rightarrow> loop_conf \<Rightarrow> u64 \<Rightarrow> job_table \<Rightarrow> sthread \<Rightarrow> (sthread \<times> job_table) option" where
  "datum_stratum_v1_socket_thread_loop e lc now T s =
     (let s = (see_job T s)\<lparr>sd_loop_tsms := now\<rparr>
      in case Option.bind (sd_slot s) (jt_slots T) of None \<Rightarrow> None
         | Some j \<Rightarrow>
             (case (if sd_new_job s then send_job e lc j T s else Some (s, T)) of None \<Rightarrow> None
              | Some (s, T) \<Rightarrow>
                  map_option (\<lambda>s. (kick_idle lc s, T)) (pace (notify_with e now (sd_full_coinbase_ready s) j False False) s)))"

section \<open>What a notification keeps\<close>

lemma vardiff_keeps: "m_last_sent_diff (fst (vardiff_step conf now q m)) = m_last_sent_diff m \<and> m_subscribed (fst (vardiff_step conf now q m)) = m_subscribed m
    \<and> m_subscribe_tsms (fst (vardiff_step conf now q m)) = m_subscribe_tsms m"
  by (simp add: vardiff_step_def Let_def lower_diff_def reset_vardiff_stats_def)

lemma set_difficulty_keeps:
  "m_subscribed (miner (send_mining_set_difficulty conf c)) = m_subscribed (miner c) \<and> m_subscribe_tsms (miner (send_mining_set_difficulty conf c)) = m_subscribe_tsms (miner c)
    \<and> (vardiff_min conf \<noteq> 0 \<longrightarrow> m_last_sent_diff (miner (send_mining_set_difficulty conf c)) \<noteq> 0)"
  by (simp add: send_mining_set_difficulty_def Let_def datum_socket_send_string_to_client_def)

lemma notify_diff_keeps:
  "m_subscribed (miner (notify_diff conf j c)) = m_subscribed (miner c) \<and> m_subscribe_tsms (miner (notify_diff conf j c)) = m_subscribe_tsms (miner c)
    \<and> (vardiff_min conf \<noteq> 0 \<longrightarrow> m_last_sent_diff (miner c) \<noteq> 0 \<longrightarrow> m_last_sent_diff (miner (notify_diff conf j c)) \<noteq> 0)"
  by (simp add: notify_diff_def Let_def set_difficulty_keeps)

lemma notify_parts_keeps:
  "notify_parts sha b1 b2 ucb conf fr j cl q nb m = (m', ps) \<Longrightarrow> m_subscribed m' = m_subscribed m \<and> m_subscribe_tsms m' = m_subscribe_tsms m
    \<and> m_last_sent_diff m' = m_last_sent_diff m"
  by (auto simp: notify_parts_def Let_def split: if_splits option.splits prod.splits)

lemma notify_target_keeps:
  "notify_target j q m = Some m' \<Longrightarrow> m_subscribed m' = m_subscribed m \<and> m_subscribe_tsms m' = m_subscribe_tsms m \<and> m_last_sent_diff m' = m_last_sent_diff m"
  by (cases q) (auto simp: notify_target_def)

lemma send_strings_miner: "miner (fold datum_socket_send_string_to_client ps c) = miner c"
  by (induction ps arbitrary: c) (simp_all add: datum_socket_send_string_to_client_def)

lemma notify_some:
  assumes "vardiff_min conf \<noteq> 0" "m_last_sent_diff (miner c) \<noteq> 0"
  obtains c' where "send_mining_notify sha b1 b2 ucb conf now fr (Some j) cl q nb c = Some c'"
    "m_last_sent_job_index (miner c') = j_global_index j" "m_subscribed (miner c') = m_subscribed (miner c)"
    "m_subscribe_tsms (miner c') = m_subscribe_tsms (miner c)" "m_last_sent_diff (miner c') \<noteq> 0"
proof -
  define q' where "q' = (q \<and> \<not> nb)"
  define c1 where "c1 = notify_diff conf j (if \<not> q' then c\<lparr>miner := fst (vardiff_step conf now True (miner c))\<rparr> else c)"
  have k: "m_last_sent_diff (miner c1) \<noteq> 0" "m_subscribed (miner c1) = m_subscribed (miner c)" "m_subscribe_tsms (miner c1) = m_subscribe_tsms (miner c)"
    using assms by (simp_all add: c1_def notify_diff_keeps vardiff_keeps)
  obtain t where "job_target j (m_last_sent_diff (miner c1)) = Some t" using job_target_Some [OF k(1), of j] by blast
  then obtain m where m: "notify_target j q' (miner c1) = Some m" by (simp add: notify_target_def)
  obtain m' ps where p: "notify_parts sha b1 b2 ucb conf fr j cl q' nb m = (m', ps)" by fastforce
  have r: "send_mining_notify sha b1 b2 ucb conf now fr (Some j) cl q nb c =
      Some (let d = fold datum_socket_send_string_to_client ps (c1\<lparr>miner := m'\<rparr>) in d\<lparr>miner := (miner d)\<lparr>m_last_sent_job_index := j_global_index j\<rparr>\<rparr>)"
    unfolding send_mining_notify_def option.case Let_def q'_def [symmetric] c1_def [symmetric] m by (simp add: p)
  show thesis by (rule that [OF r]) (use notify_parts_keeps [OF p] notify_target_keeps [OF m] k in \<open>simp_all add: Let_def send_strings_miner\<close>)
qed

section \<open>A paced update reaches every client\<close>

text \<open>A notification to a client always succeeds, leaves its subscription, and leaves the job's index as the last one sent.\<close>

definition serves :: "(conn \<Rightarrow> conn option) \<Rightarrow> nat \<Rightarrow> bool" where
  "serves notify g \<longleftrightarrow> (\<forall>c. m_last_sent_diff (miner c) \<noteq> 0 \<longrightarrow> (\<exists>c'. notify c = Some c' \<and> m_last_sent_job_index (miner c') = g \<and> m_subscribed (miner c') = m_subscribed (miner c)
     \<and> m_subscribe_tsms (miner c') = m_subscribe_tsms (miner c) \<and> m_last_sent_diff (miner c') \<noteq> 0))"

lemma notify_serves: "vardiff_min (e_conf e) \<noteq> 0 \<Longrightarrow> serves (notify_with e now fr j clean nb) (j_global_index j)"
  unfolding serves_def notify_with_def by (metis notify_some)

definition has_job :: "nat \<Rightarrow> u64 \<Rightarrow> client \<Rightarrow> bool" where
  "has_job g start c \<longleftrightarrow> (due_client start c \<longrightarrow> m_last_sent_job_index (miner (cl_conn c)) = g)"

definition can_send :: "u64 \<Rightarrow> client \<Rightarrow> bool" where
  "can_send start c \<longleftrightarrow> (subscribed_client c \<longrightarrow> m_last_sent_diff (miner (cl_conn c)) \<noteq> 0 \<and> m_subscribe_tsms (miner (cl_conn c)) \<le> start)"

text \<open>What a walk over clients does: a part served, then the rest as it was; the whole list or exactly \<open>n\<close> notifications.\<close>

definition due_count :: "u64 \<Rightarrow> client list \<Rightarrow> nat" where
  "due_count start cs = length (filter (due_client start) cs)"

lemma pace_walk_spec:
  assumes "serves notify g" "\<forall>c\<in>set cs. can_send start c" "n \<noteq> 0"
  shows "\<exists>xs ys us r' cid' reached. cs = us @ ys \<and> pace_walk notify start i cs n r cid = Some (xs @ ys, r', cid', reached)
    \<and> r' = r - int (due_count start us) \<and> due_count start xs = due_count start us \<and> length xs = length us \<and> list_all (has_job g start) xs \<and> list_all (can_send start) xs
    \<and> (if reached then ys = [] else due_count start us = unat n \<and> cid' = i + int (length us) - 1)"
  using assms(2,3)
proof (induction cs arbitrary: n r cid i)
  case Nil
  then show ?case by (simp add: due_count_def) blast
next
  case (Cons c cs)
  show ?case
  proof (cases "due_client start c")
    case False
    then have hj: "has_job g start c" by (simp add: has_job_def)
    obtain xs ys us r' cid' reached where w: "cs = us @ ys" "pace_walk notify start (i + 1) cs n r cid = Some (xs @ ys, r', cid', reached)"
      "r' = r - int (due_count start us)" "due_count start xs = due_count start us" "length xs = length us" "list_all (has_job g start) xs" "list_all (can_send start) xs"
      "if reached then ys = [] else due_count start us = unat n \<and> cid' = i + 1 + int (length us) - 1"
      using Cons.IH [of n "i + 1" r cid] Cons.prems by auto
    show ?thesis
      by (rule exI [of _ "c # xs"], rule exI [of _ ys], rule exI [of _ "c # us"], rule exI [of _ r'], rule exI [of _ cid'], rule exI [of _ reached])
        (use False w Cons.prems hj in \<open>auto simp: due_count_def\<close>)
  next
    case True
    then have d: "m_last_sent_diff (miner (cl_conn c)) \<noteq> 0" using Cons.prems(1) by (simp add: can_send_def due_client_def)
    obtain x where x: "notify (cl_conn c) = Some x" "m_last_sent_job_index (miner x) = g" "m_subscribed (miner x) = m_subscribed (miner (cl_conn c))"
      "m_subscribe_tsms (miner x) = m_subscribe_tsms (miner (cl_conn c))" "m_last_sent_diff (miner x) \<noteq> 0"
      using assms(1) d unfolding serves_def by blast
    let ?c = "c\<lparr>cl_conn := x\<rparr>"
    have c: "due_client start ?c" "has_job g start ?c" "can_send start ?c"
      using True x by (simp_all add: due_client_def subscribed_client_def has_job_def can_send_def)
    show ?thesis
    proof (cases "n - 1 = 0")
      case last: True
      then have n: "n = 1" by simp
      show ?thesis
        by (rule exI [of _ "[?c]"], rule exI [of _ cs], rule exI [of _ "[c]"], rule exI [of _ "r - 1"], rule exI [of _ i], rule exI [of _ False])
          (use True x c in \<open>simp add: due_count_def n\<close>)
    next
      case more: False
      obtain xs ys us r' cid' reached where w: "cs = us @ ys" "pace_walk notify start (i + 1) cs (n - 1) (r - 1) i = Some (xs @ ys, r', cid', reached)"
        "r' = r - 1 - int (due_count start us)" "due_count start xs = due_count start us" "length xs = length us" "list_all (has_job g start) xs" "list_all (can_send start) xs"
        "if reached then ys = [] else due_count start us = unat (n - 1) \<and> cid' = i + 1 + int (length us) - 1"
        using Cons.IH [of "n - 1" "i + 1" "r - 1" i] Cons.prems more by auto
      have u: "unat n = Suc (unat (n - 1))" using Cons.prems(2) unat_gt_0 [of n] by (simp add: unat_minus_one)
      show ?thesis
        by (rule exI [of _ "?c # xs"], rule exI [of _ ys], rule exI [of _ "c # us"], rule exI [of _ r'], rule exI [of _ cid'], rule exI [of _ reached])
          (use True w x c more u in \<open>auto simp: due_count_def\<close>)
    qed
  qed
qed

text \<open>The state of an update on its way: the clients before \<open>k\<close> are served, the count covers the due ones from \<open>k\<close> on.\<close>

definition pacing :: "nat \<Rightarrow> sthread \<Rightarrow> bool" where
  "pacing g s \<longleftrightarrow> (\<exists>k\<le>length (sd_clients s). list_all (has_job g (sd_notify_start s)) (take k (sd_clients s)) \<and> list_all (can_send (sd_notify_start s)) (sd_clients s)
     \<and> (if sd_notify_remaining s = 0 then list_all (has_job g (sd_notify_start s)) (sd_clients s)
        else sd_notify_last_cid s = int k - 1 \<and> sd_notify_remaining s = int (due_count (sd_notify_start s) (drop k (sd_clients s))) \<and> sd_notify_delay s \<noteq> 0))"

lemma no_due_has_job: "due_count start cs = 0 \<Longrightarrow> list_all (has_job g start) cs"
  by (induction cs) (auto simp: due_count_def has_job_def split: if_splits)

lemma pace_step:
  assumes "serves notify g" "pacing g s"
  obtains s' where "pace notify s = Some s'" "pacing g s'" "sd_notify_start s' = sd_notify_start s" "sd_notify_delay s' = sd_notify_delay s"
    "sd_latest s' = sd_latest s" "sd_new_job s' = sd_new_job s" "sd_slot s' = sd_slot s"
    "sd_loop_tsms s' = sd_loop_tsms s"
    "sd_notify_remaining s' \<le> sd_notify_remaining s" "sd_notify_last s' \<in> {sd_notify_last s, sd_loop_tsms s}"
    "if sd_notify_remaining s > 0 \<and> (sd_loop_tsms s - sd_notify_last s = 0 \<or> sd_loop_tsms s - sd_notify_last s \<ge> sd_notify_delay s)
     then sd_notify_last s' = sd_loop_tsms s \<and> sd_notify_remaining s' < sd_notify_remaining s else s' = s"
proof (cases "sd_notify_remaining s > 0 \<and> (sd_loop_tsms s - sd_notify_last s = 0 \<or> sd_loop_tsms s - sd_notify_last s \<ge> sd_notify_delay s)")
  case False
  have p: "pace notify s = Some s" using False by (auto simp: pace_def Let_def)
  show ?thesis by (rule that [OF p assms(2)]) (use False in auto)
next
  case True
  then have True: "sd_notify_remaining s > 0" and t: "sd_loop_tsms s - sd_notify_last s = 0 \<or> sd_loop_tsms s - sd_notify_last s \<ge> sd_notify_delay s" by simp_all
  define n where "n = (let n = (sd_loop_tsms s - sd_notify_last s) div sd_notify_delay s in if n = 0 then 1 else n)"
  have n: "n \<noteq> 0" by (simp add: n_def Let_def)
  obtain k where k: "k \<le> length (sd_clients s)" "list_all (has_job g (sd_notify_start s)) (take k (sd_clients s))" "list_all (can_send (sd_notify_start s)) (sd_clients s)"
    "sd_notify_last_cid s = int k - 1" "sd_notify_remaining s = int (due_count (sd_notify_start s) (drop k (sd_clients s)))" "sd_notify_delay s \<noteq> 0"
    using assms(2) True by (auto simp: pacing_def)
  have cs: "\<forall>c\<in>set (drop k (sd_clients s)). can_send (sd_notify_start s) c" using k(3) by (auto simp: list_all_iff dest: in_set_dropD)
  obtain xs ys us r' cid' reached where w: "drop k (sd_clients s) = us @ ys"
    "pace_walk notify (sd_notify_start s) (int k) (drop k (sd_clients s)) n (sd_notify_remaining s) (sd_notify_last_cid s) = Some (xs @ ys, r', cid', reached)"
    "r' = sd_notify_remaining s - int (due_count (sd_notify_start s) us)" "length xs = length us" "list_all (has_job g (sd_notify_start s)) xs" "list_all (can_send (sd_notify_start s)) xs"
    "if reached then ys = [] else due_count (sd_notify_start s) us = unat n \<and> cid' = int k + int (length us) - 1"
    using pace_walk_spec [OF assms(1) cs n, of "int k" "sd_notify_remaining s" "sd_notify_last_cid s"] by blast
  let ?s = "s\<lparr>sd_clients := take k (sd_clients s) @ xs @ ys, sd_notify_remaining := (if reached then 0 else r'), sd_notify_last_cid := cid', sd_notify_last := sd_loop_tsms s\<rparr>"
  have kk: "nat (sd_notify_last_cid s + 1) = k" using k(4) by simp
  have p: "pace notify s = Some ?s"
    unfolding pace_def Let_def kk using True t k(6) w(2) by (simp add: n_def Let_def)
  have split: "due_count (sd_notify_start s) (drop k (sd_clients s)) = due_count (sd_notify_start s) us + due_count (sd_notify_start s) ys"
    by (simp add: w(1) due_count_def)
  have r: "r' = int (due_count (sd_notify_start s) ys)" using w(3) k(5) split by simp
  have all: "list_all (can_send (sd_notify_start s)) (take k (sd_clients s) @ xs @ ys)"
    using k(3) w(6) cs w(1) by (auto simp: list_all_iff dest: in_set_takeD)
  have l: "k + length us \<le> length (take k (sd_clients s) @ xs @ ys)" using k(1) w(4) by simp
  have td: "take (k + length us) (take k (sd_clients s) @ xs @ ys) = take k (sd_clients s) @ xs" "drop (k + length us) (take k (sd_clients s) @ xs @ ys) = ys"
    using k(1) w(4) by simp_all
  have served: "list_all (has_job g (sd_notify_start s)) (take k (sd_clients s) @ xs)" using k(2) w(5) by simp
  have pc: "pacing g ?s"
    unfolding pacing_def
  proof (rule exI [of _ "k + length us"], intro conjI)
    show "if sd_notify_remaining ?s = 0 then list_all (has_job g (sd_notify_start ?s)) (sd_clients ?s)
        else sd_notify_last_cid ?s = int (k + length us) - 1 \<and> sd_notify_remaining ?s = int (due_count (sd_notify_start ?s) (drop (k + length us) (sd_clients ?s))) \<and> sd_notify_delay ?s \<noteq> 0"
      using served w(7) r k(6) no_due_has_job [of "sd_notify_start s" ys g] td(2) by (auto split: if_splits)
  qed (use l td served all in simp_all)
  have "0 < uint n" using n by (simp add: order_less_le uint_0_iff)
  then have dec: "(if reached then 0 else r') < sd_notify_remaining s" using True w(3) w(7) by (cases reached) (simp_all only: if_True if_False, simp)
  show ?thesis by (rule that [OF p pc]) (use True t dec in simp_all)
qed

lemma kick_keeps:
  "pacing g (kick_idle lc s) = pacing g s \<and> sd_notify_start (kick_idle lc s) = sd_notify_start s \<and> sd_notify_delay (kick_idle lc s) = sd_notify_delay s
    \<and> sd_notify_last (kick_idle lc s) = sd_notify_last s \<and> sd_notify_remaining (kick_idle lc s) = sd_notify_remaining s
    \<and> sd_loop_tsms (kick_idle lc s) = sd_loop_tsms s
    \<and> sd_latest (kick_idle lc s) = sd_latest s \<and> sd_new_job (kick_idle lc s) = sd_new_job s \<and> sd_slot (kick_idle lc s) = sd_slot s"
proof -
  define f where "f = (\<lambda>c :: client. if cl_fd c \<and> idle_client lc (sd_loop_tsms s) (miner (cl_conn c)) then c\<lparr>cl_kill_request := True\<rparr> else c)"
  have f: "due_client st (f c) = due_client st c" "has_job g st (f c) = has_job g st c" "can_send st (f c) = can_send st c" for st c
    by (simp_all add: f_def due_client_def subscribed_client_def has_job_def can_send_def)
  have d: "due_count st (map f cs) = due_count st cs" for st cs by (induction cs) (simp_all add: due_count_def f)
  have l: "list_all (has_job g st) (map f cs) = list_all (has_job g st) cs" "list_all (can_send st) (map f cs) = list_all (can_send st) cs" for st cs
    by (simp_all add: list_all_iff f)
  have "pacing g (s\<lparr>sd_clients := map f (sd_clients s), sd_has_kill_request := b, sd_next_kick_check := x\<rparr>) = pacing g s"
    "pacing g (s\<lparr>sd_next_kick_check := x\<rparr>) = pacing g s" for b x
    by (simp_all add: pacing_def take_map drop_map d l split del: if_split cong: if_cong)
  then show ?thesis by (simp add: kick_idle_def Let_def f_def)
qed

text \<open>The rounds of the loop at the given times; times at most \<open>g\<close> after one another; how much time passes.\<close>

fun thread_rounds :: "surroundings \<Rightarrow> loop_conf \<Rightarrow> u64 list \<Rightarrow> job_table \<Rightarrow> sthread \<Rightarrow> (sthread \<times> job_table) option" where
  "thread_rounds e lc [] T s = Some (s, T)"
| "thread_rounds e lc (t # ts) T s =
     (case datum_stratum_v1_socket_thread_loop e lc t T s of None \<Rightarrow> None | Some (s, T) \<Rightarrow> thread_rounds e lc ts T s)"

fun gaps_within :: "u64 \<Rightarrow> u64 \<Rightarrow> u64 list \<Rightarrow> bool" where
  "gaps_within g prev [] = True"
| "gaps_within g prev (t # ts) = (t - prev \<le> g \<and> gaps_within g t ts)"

fun time_passed :: "u64 \<Rightarrow> u64 list \<Rightarrow> nat" where
  "time_passed prev [] = 0"
| "time_passed prev (t # ts) = unat (t - prev) + time_passed t ts"

text \<open>A thread that has taken over the latest job and sent or queued it.\<close>

definition settled :: "job_table \<Rightarrow> stratum_job \<Rightarrow> sthread \<Rightarrow> bool" where
  "settled T j s \<longleftrightarrow> jt_latest T = sd_latest s \<and> \<not> sd_new_job s \<and> Option.bind (sd_slot s) (jt_slots T) = Some j"

lemma loop_settled:
  "settled T j s \<Longrightarrow> datum_stratum_v1_socket_thread_loop e lc t T s =
    map_option (\<lambda>s. (kick_idle lc s, T)) (pace (notify_with e t (sd_full_coinbase_ready s) j False False) (s\<lparr>sd_loop_tsms := t\<rparr>))"
  by (simp add: settled_def datum_stratum_v1_socket_thread_loop_def see_job_def)

text \<open>
  The slot that runs has not been used up when the last round ended; with rounds at most \<open>g\<close> apart each
  notification takes at most a slot and \<open>g\<close>.
\<close>

definition in_slot :: "sthread \<Rightarrow> bool" where
  "in_slot s \<longleftrightarrow> sd_loop_tsms s = sd_notify_last s \<or> sd_loop_tsms s - sd_notify_last s < sd_notify_delay s"

definition enough_time :: "u64 \<Rightarrow> sthread \<Rightarrow> u64 list \<Rightarrow> bool" where
  "enough_time g s ts \<longleftrightarrow> nat (sd_notify_remaining s) * (unat (sd_notify_delay s) + unat g)
     \<le> unat (sd_loop_tsms s - sd_notify_last s) + time_passed (sd_loop_tsms s) ts"

lemma slot_round:
  assumes i: "in_slot s" and g: "t - sd_loop_tsms s \<le> g" and small: "unat (sd_notify_delay s) + unat g < 2 ^ 64" "sd_notify_delay s \<noteq> 0"
  shows "unat (t - sd_notify_last s) = unat (sd_loop_tsms s - sd_notify_last s) + unat (t - sd_loop_tsms s)"
    "unat (t - sd_notify_last s) \<le> unat (sd_notify_delay s) + unat g"
proof -
  have a: "unat (sd_loop_tsms s - sd_notify_last s) \<le> unat (sd_notify_delay s)" using i by (auto simp: in_slot_def word_less_nat_alt)
  have d: "unat (t - sd_loop_tsms s) \<le> unat g" using g by (simp add: word_le_nat_alt)
  have e: "t - sd_notify_last s = (sd_loop_tsms s - sd_notify_last s) + (t - sd_loop_tsms s)" by simp
  show "unat (t - sd_notify_last s) = unat (sd_loop_tsms s - sd_notify_last s) + unat (t - sd_loop_tsms s)"
    unfolding e by (rule unat_add_u64) (use a d small(1) in linarith)
  then show "unat (t - sd_notify_last s) \<le> unat (sd_notify_delay s) + unat g" using a d by linarith
qed

lemma thread_rounds_all:
  assumes "vardiff_min (e_conf e) \<noteq> 0" "settled T j s" "pacing (j_global_index j) s" "gaps_within g (sd_loop_tsms s) ts"
    "sd_notify_remaining s > 0 \<Longrightarrow> in_slot s \<and> enough_time g s ts \<and> unat (sd_notify_delay s) + unat g < 2 ^ 64"
  shows "\<exists>s'. thread_rounds e lc ts T s = Some (s', T) \<and> sd_notify_remaining s' = 0
    \<and> list_all (\<lambda>c. subscribed_client c \<longrightarrow> m_last_sent_job_index (miner (cl_conn c)) = j_global_index j) (sd_clients s')"
  using assms(2-)
proof (induction ts arbitrary: s)
  case Nil
  have z: "sd_notify_remaining s = 0"
  proof (rule ccontr)
    assume r: "sd_notify_remaining s \<noteq> 0"
    then have "sd_notify_remaining s > 0" "sd_notify_delay s \<noteq> 0" using Nil.prems(2) by (auto simp: pacing_def)
    moreover from this have "0 < unat (sd_notify_delay s)" by (simp add: unat_gt_0)
    moreover have "unat (sd_loop_tsms s - sd_notify_last s) < unat (sd_notify_delay s) \<or> unat (sd_loop_tsms s - sd_notify_last s) = 0"
      using Nil.prems(4) calculation(1) by (auto simp: in_slot_def word_less_nat_alt)
    moreover have "1 * (unat (sd_notify_delay s) + unat g) \<le> nat (sd_notify_remaining s) * (unat (sd_notify_delay s) + unat g)"
      using calculation(1) by (intro mult_le_mono1) simp
    moreover have "nat (sd_notify_remaining s) * (unat (sd_notify_delay s) + unat g) \<le> unat (sd_loop_tsms s - sd_notify_last s)"
      using Nil.prems(4) calculation(1) by (simp add: enough_time_def)
    ultimately show False by (simp only: mult_1) arith
  qed
  then have "list_all (has_job (j_global_index j) (sd_notify_start s)) (sd_clients s)" "list_all (can_send (sd_notify_start s)) (sd_clients s)"
    using Nil(2) by (auto simp: pacing_def)
  then show ?case using z by (auto simp: list_all_iff has_job_def can_send_def due_client_def)
next
  case (Cons t ts)
  let ?s = "s\<lparr>sd_loop_tsms := t\<rparr>" and ?n = "notify_with e t (sd_full_coinbase_ready s) j False False"
  have p: "pacing (j_global_index j) ?s" using Cons.prems(2) by (simp add: pacing_def split del: if_split cong: if_cong)
  have g: "t - sd_loop_tsms s \<le> g" "gaps_within g t ts" using Cons.prems(3) by simp_all
  obtain s' where s': "pace ?n ?s = Some s'" "pacing (j_global_index j) s'" "sd_notify_delay s' = sd_notify_delay ?s"
      "sd_latest s' = sd_latest ?s" "sd_new_job s' = sd_new_job ?s" "sd_slot s' = sd_slot ?s" "sd_loop_tsms s' = t"
      "sd_notify_remaining s' \<le> sd_notify_remaining ?s"
      "if sd_notify_remaining ?s > 0 \<and> (sd_loop_tsms ?s - sd_notify_last ?s = 0 \<or> sd_loop_tsms ?s - sd_notify_last ?s \<ge> sd_notify_delay ?s)
       then sd_notify_last s' = sd_loop_tsms ?s \<and> sd_notify_remaining s' < sd_notify_remaining ?s else s' = ?s"
    by (rule pace_step [OF notify_serves [OF assms(1), where now = t and fr = "sd_full_coinbase_ready s" and j = j and clean = False and nb = False] p]) simp
  have next_slot: "in_slot s' \<and> enough_time g s' ts \<and> unat (sd_notify_delay s') + unat g < 2 ^ 64" if r: "sd_notify_remaining s' > 0"
  proof -
    have r0: "sd_notify_remaining s > 0" using r s'(8) by simp
    then have i: "in_slot s" "enough_time g s (t # ts)" "unat (sd_notify_delay s) + unat g < 2 ^ 64" "sd_notify_delay s \<noteq> 0"
      using Cons.prems(2,4) by (auto simp: pacing_def)
    note w = slot_round [OF i(1) g(1) i(3,4)]
    let ?D = "unat (sd_notify_delay s) + unat g"
    have e: "nat (sd_notify_remaining s) * ?D \<le> unat (t - sd_notify_last s) + time_passed t ts"
      using i(2) by (simp add: enough_time_def w(1))
    show ?thesis
    proof (cases "t - sd_notify_last s = 0 \<or> t - sd_notify_last s \<ge> sd_notify_delay s")
      case True
      then have "sd_notify_last s' = t" "sd_notify_remaining s' < sd_notify_remaining s" using s'(9) r0 by simp_all
      moreover have "Suc (nat (sd_notify_remaining s')) * ?D \<le> nat (sd_notify_remaining s) * ?D"
        using calculation(2) r by (intro mult_le_mono1) simp
      then have "nat (sd_notify_remaining s') * ?D \<le> time_passed t ts" using e w(2) by simp
      ultimately show ?thesis using s'(3,7) i(3) by (simp add: in_slot_def enough_time_def)
    next
      case False
      then have "s' = ?s" using s'(9) by simp
      then show ?thesis using False e i(3) by (auto simp: in_slot_def enough_time_def not_le)
    qed
  qed
  have l: "datum_stratum_v1_socket_thread_loop e lc t T s = Some (kick_idle lc s', T)" by (simp add: loop_settled [OF Cons.prems(1)] s'(1))
  have st: "settled T j (kick_idle lc s')" using s'(4-6) Cons.prems(1) by (simp add: settled_def kick_keeps)
  have "in_slot (kick_idle lc s') = in_slot s'" "enough_time g (kick_idle lc s') ts = enough_time g s' ts"
    by (simp_all add: in_slot_def enough_time_def kick_keeps)
  then show ?case using Cons.IH [OF st] s'(2,7) g(2) next_slot by (simp add: l kick_keeps)
qed

lemma subscribers_due: "list_all (can_send start) cs \<Longrightarrow> datum_stratum_v1_get_thread_subscriber_count cs = due_count start cs"
  by (induction cs) (auto simp: datum_stratum_v1_get_thread_subscriber_count_def due_count_def due_client_def can_send_def)

lemma start_pacing_paces:
  assumes "list_all (can_send (sd_loop_tsms s)) (sd_clients s)"
  shows "pacing g (start_pacing conf lc s)"
proof (cases "datum_stratum_v1_get_thread_subscriber_count (sd_clients s) = 0")
  case True
  then have "\<forall>c\<in>set (sd_clients s). \<not> subscribed_client c" by (auto simp: datum_stratum_v1_get_thread_subscriber_count_def filter_empty_conv)
  then have "list_all (has_job g st) (sd_clients s)" "list_all (can_send st) (sd_clients s)" for st
    by (auto simp: list_all_iff has_job_def can_send_def due_client_def)
  then show ?thesis using True by (auto simp: pacing_def start_pacing_def Let_def)
next
  case False
  then show ?thesis unfolding pacing_def
    by (intro exI [of _ 0]) (use assms subscribers_due [OF assms] in \<open>simp add: start_pacing_def Let_def\<close>)
qed

text \<open>A job with normal priority whose outputs are there, or that waited long enough.\<close>

definition normal_ready :: "u64 \<Rightarrow> stratum_job \<Rightarrow> bool" where
  "normal_ready now j \<longleftrightarrow> j_job_state j = 5 \<and> (\<not> j_need_coinbaser j \<or> now > j_tsms j \<and> now - j_tsms j > 5000)"

lemma ready_normal: "normal_ready now j \<Longrightarrow> sd_loop_tsms s = now \<Longrightarrow> \<exists>b. stratum_job_coinbaser_ready j s = (True, s\<lparr>sd_full_coinbase_ready := b\<rparr>)"
  by (auto simp: normal_ready_def stratum_job_coinbaser_ready_def)

lemma first_round:
  assumes "vardiff_min (e_conf e) \<noteq> 0" "normal_ready now j" "jt_latest T = sd_latest s" "sd_new_job s" "\<not> sd_last_was_empty s"
    "Option.bind (sd_slot s) (jt_slots T) = Some j" "list_all (can_send now) (sd_clients s)"
  shows "\<exists>s1. datum_stratum_v1_socket_thread_loop e lc now T s = Some (s1, T) \<and> settled T j s1 \<and> pacing (j_global_index j) s1
    \<and> sd_notify_remaining s1 \<le> int (datum_stratum_v1_get_thread_subscriber_count (sd_clients s))
    \<and> sd_notify_delay s1 = sd_notify_delay (start_pacing (e_conf e) lc (s\<lparr>sd_loop_tsms := now\<rparr>))
    \<and> sd_notify_last s1 \<in> {sd_notify_last (start_pacing (e_conf e) lc (s\<lparr>sd_loop_tsms := now\<rparr>)), now} \<and> sd_loop_tsms s1 = now
    \<and> (0 < sd_notify_remaining s1 \<longrightarrow> in_slot s1)"
proof -
  let ?s = "s\<lparr>sd_loop_tsms := now\<rparr>"
  obtain b where b: "stratum_job_coinbaser_ready j (?s\<lparr>sd_full_coinbase_ready := False\<rparr>) = (True, ?s\<lparr>sd_full_coinbase_ready := b\<rparr>)"
    using ready_normal [OF assms(2), of "?s\<lparr>sd_full_coinbase_ready := False\<rparr>"] by auto
  define s0 where "s0 = sent False False 5 (start_pacing (e_conf e) lc (?s\<lparr>sd_full_coinbase_ready := b\<rparr>))"
  have "send_job e lc j T ?s = Some (s0, T)"
    using assms(2,5) b by (simp add: send_job_def normal_ready_def Let_def s0_def)
  then have l: "datum_stratum_v1_socket_thread_loop e lc now T s =
      map_option (\<lambda>s. (kick_idle lc s, T)) (pace (notify_with e now (sd_full_coinbase_ready s0) j False False) s0)"
    using assms(3,4,6) by (simp add: datum_stratum_v1_socket_thread_loop_def see_job_def)
  have "pacing (j_global_index j) (start_pacing (e_conf e) lc (?s\<lparr>sd_full_coinbase_ready := b\<rparr>))"
    by (rule start_pacing_paces) (use assms(7) in simp)
  then have p: "pacing (j_global_index j) s0" by (simp add: s0_def sent_def pacing_def split del: if_split cong: if_cong)
  have f: "sd_latest s0 = sd_latest s" "\<not> sd_new_job s0" "sd_slot s0 = sd_slot s"
    "sd_notify_remaining s0 = int (datum_stratum_v1_get_thread_subscriber_count (sd_clients s))" "sd_loop_tsms s0 = now"
    "sd_notify_delay s0 = sd_notify_delay (start_pacing (e_conf e) lc ?s)" "sd_notify_last s0 = sd_notify_last (start_pacing (e_conf e) lc ?s)"
    by (simp_all add: s0_def sent_def start_pacing_def Let_def)
  obtain s1 where s1: "pace (notify_with e now (sd_full_coinbase_ready s0) j False False) s0 = Some s1" "pacing (j_global_index j) s1"
    "sd_latest s1 = sd_latest s0" "sd_new_job s1 = sd_new_job s0" "sd_slot s1 = sd_slot s0" "sd_notify_remaining s1 \<le> sd_notify_remaining s0"
    "sd_notify_delay s1 = sd_notify_delay s0" "sd_notify_last s1 \<in> {sd_notify_last s0, sd_loop_tsms s0}" "sd_loop_tsms s1 = sd_loop_tsms s0"
    "if sd_notify_remaining s0 > 0 \<and> (sd_loop_tsms s0 - sd_notify_last s0 = 0 \<or> sd_loop_tsms s0 - sd_notify_last s0 \<ge> sd_notify_delay s0)
     then sd_notify_last s1 = sd_loop_tsms s0 \<and> sd_notify_remaining s1 < sd_notify_remaining s0 else s1 = s0"
    by (rule pace_step [OF notify_serves [OF assms(1), where now = now and fr = "sd_full_coinbase_ready s0" and j = j and clean = False and nb = False] p])
  have "in_slot s1" if "0 < sd_notify_remaining s1" using s1(6,9,10) that by (auto simp: in_slot_def split: if_splits)
  then show ?thesis
    by (intro exI [of _ "kick_idle lc s1"]) (use s1(1-9) f assms(3,6) in \<open>simp add: l kick_keeps settled_def in_slot_def\<close>)
qed

lemma pace_delay:
  fixes w :: u64
  assumes w: "3 \<le> uint w" "uint w \<le> 120" and n: "0 < n"
  shows "n * unat (let d = word_of_int (((uint w - 3) * 1000) sdiv int n) :: u64 in if d = 0 then 1 else d) \<le> max (nat ((uint w - 3) * 1000)) n"
    "unat (let d = word_of_int (((uint w - 3) * 1000) sdiv int n) :: u64 in if d = 0 then 1 else d) \<le> 117000"
proof -
  define u where "u = nat ((uint w - 3) * 1000)"
  have u: "(uint w - 3) * 1000 = int u" "u \<le> 117000" using w by (simp_all add: u_def)
  have e: "int u sdiv int n = int (u div n)" by (simp add: signed_divide_int_def sgn_if zdiv_int)
  have "u div n \<le> u" by simp
  moreover have "(117000 :: nat) < 2 ^ 64" by simp
  ultimately have "u div n < 2 ^ 64" using u(2) by (meson le_trans le_less_trans)
  then have "unat (word_of_nat (u div n) :: u64) = u div n" by (simp add: unat_of_nat)
  with e have d: "unat (word_of_int (int u sdiv int n) :: u64) = u div n" by simp
  have le: "n * (u div n) \<le> u" by simp
  show "n * unat (let d = word_of_int (((uint w - 3) * 1000) sdiv int n) :: u64 in if d = 0 then 1 else d) \<le> max (nat ((uint w - 3) * 1000)) n"
    unfolding u(1) using d le by (auto simp: Let_def le_max_iff_disj)
  show "unat (let d = word_of_int (((uint w - 3) * 1000) sdiv int n) :: u64 in if d = 0 then 1 else d) \<le> 117000"
    unfolding u(1) using d le_trans [OF div_le_dividend u(2), of n] by (auto simp: Let_def)
qed


definition ex_thread :: sthread where
  "ex_thread = \<lparr>sd_slot = Some 0, sd_latest = 0, sd_new_job = True, sd_last_was_empty = False, sd_last_sent_state = 4, sd_loop_tsms = 0,
     sd_full_coinbase_ready = False, sd_notify_remaining = 0, sd_notify_start = 0, sd_notify_last = 0, sd_notify_delay = 0, sd_notify_last_cid = 0,
     sd_last_job_height = 100, sd_next_kick_check = 10000,
     sd_clients = [\<lparr>cl_fd = True, cl_conn = \<lparr>miner = ex_miner, w_buffer = ''''\<rparr>, cl_kill_request = False\<rparr>,
       \<lparr>cl_fd = False, cl_conn = \<lparr>miner = zero_miner, w_buffer = ''''\<rparr>, cl_kill_request = False\<rparr>], sd_has_kill_request = False\<rparr>"

definition ex_jobs :: job_table where
  "ex_jobs = initial_jobs\<lparr>jt_slots := (\<lambda>i. if i = 0 then Some (ex_job\<lparr>j_job_state := 5\<rparr>) else None), jt_latest := 0, jt_cur := (\<lambda>i. if i = 0 then Some 0 else None)\<rparr>"

definition ex_loop_conf :: loop_conf where
  "ex_loop_conf = \<lparr>lc_max_threads = 2, lc_thread_id = 0, lc_no_subscribe = 15, lc_no_share = 3600, lc_max_last_work = 0\<rparr>"


end
