(* ===== verification/Empties.thy ===== *)
theory Empties
  imports Thread
begin

text \<open>
  Empty work before full work: the template thread, the loop of the stratum server and the stratum threads
  (\<^verbatim>\<open>src/src/datum_stratum.c\<close>) as a step relation. A thread's round is cut at its locks: it takes over a job, then
  sends. There are no threads at first; the listener (\<^verbatim>\<open>assign_to_thread\<close> in \<^verbatim>\<open>src/src/datum_sockets.c\<close>) starts one
  for a connection while there are fewer than \<open>N\<close>, and counts it in \<^verbatim>\<open>datum_active_threads\<close> after it runs.
  Threads never end.
\<close>

section \<open>The system\<close>

text \<open>
  The last three fields are no variables of the code: the threads that sent the empty work of the newest block
  to all their clients, the number of threads that were running when that block's job was published, and
  whether all of them had been counted by then.
\<close>

record system =
  sy_jobs :: job_table
  sy_thread :: "nat \<Rightarrow> sthread"
  sy_running :: nat
  sy_active :: nat
  sy_served :: "nat set"
  sy_before :: nat
  sy_counted :: bool

text \<open>Whether the next send of a thread is empty work.\<close>

definition sends_empty :: "stratum_job \<Rightarrow> sthread \<Rightarrow> bool" where
  "sends_empty j s \<longleftrightarrow> j_job_state j = 1 \<or> j_job_state j = 2 \<and> \<not> sd_last_was_empty s"

text \<open>What else changes in a thread between two sends: its clients, the paced update, the time, idle clients.\<close>

definition same_work :: "sthread \<Rightarrow> sthread \<Rightarrow> bool" where
  "same_work s s' \<longleftrightarrow> sd_slot s' = sd_slot s \<and> sd_latest s' = sd_latest s \<and> sd_new_job s' = sd_new_job s \<and> sd_last_was_empty s' = sd_last_was_empty s"

text \<open>
  The template thread asks for empty work only together with a new block; the coinbaser thread completes a job's
  transactions and leaves its state. What a client is sent on its own, after a subscription or a quick change
  of its difficulty, belongs to the rule \<open>other\<close>: it is the current job with its full work, whatever
  the state of the job.
\<close>

definition published :: "bool \<Rightarrow> job_table \<Rightarrow> system \<Rightarrow> system" where
  "published nb T S =
     (if nb then S\<lparr>sy_jobs := T, sy_served := {}, sy_before := sy_running S, sy_counted := (sy_active S = sy_running S)\<rparr>
      else S\<lparr>sy_jobs := T\<rparr>)"

inductive sys_step :: "nat \<Rightarrow> system \<Rightarrow> system \<Rightarrow> bool" for N where
  new_job: "st \<in> {1, 2} \<longrightarrow> nb \<Longrightarrow> update_stratum_job E t nb st (sy_jobs S) = Some T
    \<Longrightarrow> sys_step N S (published nb T S)"
| coinbaser: "jt_slots (sy_jobs S) i = Some j \<Longrightarrow> j_job_state j' = j_job_state j
    \<Longrightarrow> sys_step N S (S\<lparr>sy_jobs := (sy_jobs S)\<lparr>jt_slots := (jt_slots (sy_jobs S))(i := Some j')\<rparr>\<rparr>)"
| server: "sys_step N S (S\<lparr>sy_jobs := server_step (word_of_nat (sy_active S)) (sy_jobs S)\<rparr>)"
| start_thread: "sy_active S < N \<Longrightarrow> sy_running S = sy_active S
    \<Longrightarrow> datum_stratum_v1_socket_thread_init now (sy_jobs S) (sy_thread S (sy_running S)) = Some s
    \<Longrightarrow> sys_step N S (S\<lparr>sy_thread := (sy_thread S)(sy_running S := s), sy_running := Suc (sy_running S)\<rparr>)"
| count_thread: "sys_step N S (S\<lparr>sy_active := sy_running S\<rparr>)"
| take_over: "i < sy_running S \<Longrightarrow> sys_step N S (S\<lparr>sy_thread := (sy_thread S)(i := (see_job (sy_jobs S) (sy_thread S i))\<lparr>sd_loop_tsms := now\<rparr>)\<rparr>)"
| send: "i < sy_running S \<Longrightarrow> sd_new_job (sy_thread S i) \<Longrightarrow> Option.bind (sd_slot (sy_thread S i)) (jt_slots (sy_jobs S)) = Some j
    \<Longrightarrow> send_job e lc j (sy_jobs S) (sy_thread S i) = Some (s, T)
    \<Longrightarrow> sys_step N S (S\<lparr>sy_jobs := T, sy_thread := (sy_thread S)(i := s),
          sy_served := (if sends_empty j (sy_thread S i) \<and> word_of_int (sd_latest (sy_thread S i)) = jt_empty_index (sy_jobs S)
                        then insert i (sy_served S) else sy_served S)\<rparr>)"
| other: "i < sy_running S \<Longrightarrow> same_work (sy_thread S i) s \<Longrightarrow> sys_step N S (S\<lparr>sy_thread := (sy_thread S)(i := s)\<rparr>)"

inductive sys_reach :: "nat \<Rightarrow> system \<Rightarrow> bool" for N where
  start: "(\<And>i. \<not> sd_new_job (ths i) \<and> sd_latest (ths i) = 0)
    \<Longrightarrow> sys_reach N \<lparr>sy_jobs = initial_jobs, sy_thread = ths, sy_running = 0, sy_active = 0, sy_served = {}, sy_before = 0, sy_counted = True\<rparr>"
| step: "sys_reach N S \<Longrightarrow> sys_step N S S' \<Longrightarrow> sys_reach N S'"

section \<open>The invariant\<close>

definition slot_state :: "job_table \<Rightarrow> nat option \<Rightarrow> nat option" where
  "slot_state T sl = map_option j_job_state (Option.bind sl (jt_slots T))"

definition index_range :: "int \<Rightarrow> bool" where
  "index_range i \<longleftrightarrow> -1 \<le> i \<and> i < int MAX_STRATUM_JOBS"

text \<open>A thread that has sent the empty work of the last block will not send it again.\<close>

definition idle_empty :: "job_table \<Rightarrow> sthread \<Rightarrow> bool" where
  "idle_empty T s \<longleftrightarrow> (word_of_int (sd_latest s) = jt_empty_index T \<longrightarrow> sd_new_job s \<longrightarrow>
     (\<forall>st. slot_state T (sd_slot s) = Some st \<longrightarrow> st \<noteq> 1 \<and> (st = 2 \<longrightarrow> sd_last_was_empty s)))
   \<and> (word_of_int (jt_latest T) = jt_empty_index T \<longrightarrow> (\<forall>st. slot_state T (jt_cur T (nat (jt_latest T))) = Some st \<longrightarrow> st \<in> {1, 2} \<longrightarrow> sd_latest s = jt_latest T))"

definition system_inv :: "nat \<Rightarrow> system \<Rightarrow> bool" where
  "system_inv N S \<longleftrightarrow> sy_served S \<subseteq> {..<sy_before S} \<and> unat (jt_empty_complete (sy_jobs S)) \<le> card (sy_served S)
     \<and> sy_before S \<le> sy_running S \<and> sy_active S \<le> sy_running S \<and> sy_active S \<le> N \<and> sy_running S \<le> Suc (sy_active S) \<and> sy_running S \<le> N
     \<and> (sy_counted S \<longrightarrow> sy_before S \<le> sy_active S)
     \<and> (jt_empty_ready (sy_jobs S) \<and> sy_counted S \<longrightarrow> sy_served S = {..<sy_before S})
     \<and> (\<forall>i. i \<in> sy_served S \<or> sy_before S \<le> i \<and> i < sy_running S \<longrightarrow> idle_empty (sy_jobs S) (sy_thread S i))
     \<and> index_range (jt_latest (sy_jobs S)) \<and> (\<forall>i. index_range (sd_latest (sy_thread S i)))"

lemma index_inj: "index_range i \<Longrightarrow> index_range k \<Longrightarrow> (word_of_int i :: u64) = word_of_int k \<Longrightarrow> i = k"
proof -
  assume r: "index_range i" "index_range k" and e: "(word_of_int i :: u64) = word_of_int k"
  have "(word_of_int (i + 1) :: u64) = word_of_int (k + 1)" using e by simp
  then have "uint (word_of_int (i + 1) :: u64) = uint (word_of_int (k + 1) :: u64)" by (rule arg_cong)
  then have "(i + 1) mod 2 ^ 64 = (k + 1) mod 2 ^ 64" by (simp only: uint_word_of_int) simp
  then show "i = k" using r by (simp add: index_range_def MAX_STRATUM_JOBS_def)
qed

lemma range_next: "index_range i \<Longrightarrow> index_range (next_global i)"
  by (auto simp: index_range_def next_global_def MAX_STRATUM_JOBS_def)

text \<open>What an update and a send do to the counters.\<close>

lemma update_counts:
  assumes "update_stratum_job E t nb st T = Some T'"
  shows "if nb then jt_empty_complete T' = 0 \<and> \<not> jt_empty_ready T'
    else jt_empty_complete T' = jt_empty_complete T \<and> jt_empty_ready T' = jt_empty_ready T \<and> jt_empty_index T' = jt_empty_index T"
proof -
  have d: "with_datum_idx sl s T0 = (s', T1) \<Longrightarrow> jt_empty_complete T1 = jt_empty_complete T0 \<and> jt_empty_ready T1 = jt_empty_ready T0 \<and> jt_empty_index T1 = jt_empty_index T0"
    for sl s T0 s' T1 by (auto simp: with_datum_idx_def datum_protocol_setup_new_job_idx_def Let_def split: if_splits)
  show ?thesis
    using assms d by (auto simp: update_stratum_job_def publish_def Let_def reset_empty_def advance_def split: option.splits prod.splits)
qed

lemma blast_job_keeps: "blast_job e j cl nb s = Some s' \<Longrightarrow> same_work s s' \<and> sd_loop_tsms s' = sd_loop_tsms s"
  by (auto simp: blast_job_def same_work_def)

lemma ready_keeps: "stratum_job_coinbaser_ready j s = (b, s') \<Longrightarrow> same_work s s' \<and> sd_loop_tsms s' = sd_loop_tsms s"
  by (auto simp: stratum_job_coinbaser_ready_def same_work_def split: if_splits)

lemma start_pacing_keeps: "sd_slot (start_pacing conf lc s) = sd_slot s" "sd_latest (start_pacing conf lc s) = sd_latest s"
  by (simp_all add: start_pacing_def Let_def)

lemma send_job_effect:
  assumes "send_job e lc j T s = Some (s', T')"
  shows "sd_slot s' = sd_slot s \<and> sd_latest s' = sd_latest s \<and> (sd_new_job s' \<longrightarrow> \<not> sends_empty j s')
    \<and> (\<exists>n. T' = (if sends_empty j s then stratum_latest_empty_increment_complete (word_of_int (sd_latest s)) n T else T))"
proof -
  note a = assms [unfolded send_job_def Let_def]
  consider "j_job_state j = 1" | "j_job_state j = 2" | "j_job_state j = 3" | "j_job_state j = 4" | "j_job_state j = 5" | "j_job_state j \<notin> {1, 2, 3, 4, 5}" by fastforce
  then show ?thesis
  proof cases
    case 1
    then show ?thesis using a by (auto simp: sends_empty_def sent_def same_work_def dest!: blast_job_keeps)
  next
    case 2
    then show ?thesis using a by (auto simp: sends_empty_def sent_def same_work_def dest!: blast_job_keeps split: if_splits)
  next
    case 3
    then show ?thesis using a by (auto simp: sends_empty_def sent_def same_work_def dest!: blast_job_keeps)
  next
    case 4
    then show ?thesis using a by (auto simp: sends_empty_def sent_def same_work_def dest!: blast_job_keeps ready_keeps split: if_splits prod.splits)
  next
    case 5
    then show ?thesis using a
      by (auto simp: start_pacing_keeps sends_empty_def sent_def same_work_def dest!: blast_job_keeps ready_keeps split: if_splits prod.splits)
  next
    case 6
    then show ?thesis using a by (auto simp: sends_empty_def)
  qed
qed

lemma see_job_effect:
  "(same_work s (see_job T s)) \<or> (\<exists>slot. jt_latest T \<noteq> sd_latest s \<and> jt_cur T (nat (jt_latest T)) = Some slot \<and> sd_slot (see_job T s) = Some slot
     \<and> sd_latest (see_job T s) = jt_latest T)"
  by (auto simp: see_job_def Let_def take_job_def same_work_def dest!: ready_keeps split: option.splits prod.splits if_splits)

section \<open>Every step keeps it\<close>

text \<open>The threads that will not send the empty work of the newest block (again): they have, or they started later.\<close>

definition past_empty :: "system \<Rightarrow> nat \<Rightarrow> bool" where
  "past_empty S i \<longleftrightarrow> i \<in> sy_served S \<or> sy_before S \<le> i \<and> i < sy_running S"

lemma inv_send:
  assumes inv: "system_inv N S" and i: "i < sy_running S" "sd_new_job (sy_thread S i)"
    and j: "Option.bind (sd_slot (sy_thread S i)) (jt_slots (sy_jobs S)) = Some j" and s: "send_job e lc j (sy_jobs S) (sy_thread S i) = Some (s, T)"
  shows "system_inv N (S\<lparr>sy_jobs := T, sy_thread := (sy_thread S)(i := s),
          sy_served := (if sends_empty j (sy_thread S i) \<and> word_of_int (sd_latest (sy_thread S i)) = jt_empty_index (sy_jobs S)
                        then insert i (sy_served S) else sy_served S)\<rparr>)"
proof -
  let ?T = "sy_jobs S" and ?s = "sy_thread S i"
  define hit where "hit \<longleftrightarrow> sends_empty j ?s \<and> word_of_int (sd_latest ?s) = jt_empty_index ?T"
  obtain n where k: "sd_slot s = sd_slot ?s" "sd_latest s = sd_latest ?s" "sd_new_job s \<Longrightarrow> \<not> sends_empty j s"
    "T = (if sends_empty j ?s then stratum_latest_empty_increment_complete (word_of_int (sd_latest ?s)) n ?T else ?T)"
    using send_job_effect [OF s] by blast
  have T: "jt_slots T = jt_slots ?T" "jt_cur T = jt_cur ?T" "jt_latest T = jt_latest ?T" "jt_empty_index T = jt_empty_index ?T" "jt_empty_ready T = jt_empty_ready ?T"
    "jt_empty_complete T = (if hit \<and> \<not> jt_empty_ready ?T then jt_empty_complete ?T + 1 else jt_empty_complete ?T)"
    by (auto simp: k(4) stratum_latest_empty_increment_complete_def hit_def)
  have st: "slot_state ?T (sd_slot ?s) = Some (j_job_state j)" by (simp add: slot_state_def j)
  have same: "idle_empty T x = idle_empty ?T x" for x by (simp add: idle_empty_def slot_state_def T)
  have old: "idle_empty ?T (sy_thread S x)" if "past_empty S x" for x using inv that by (auto simp: system_inv_def past_empty_def)
  have new: "\<not> past_empty S i" if hit
    using that old [of i] st i(2) by (auto simp: idle_empty_def hit_def sends_empty_def)
  have r: "index_range (jt_latest ?T)" "index_range (sd_latest ?s)" using inv by (simp_all add: system_inv_def)
  have idle: "idle_empty ?T s" if "hit \<or> past_empty S i"
  proof -
    have "\<not> sends_empty j s" if "sd_new_job s" using that k(3) by blast
    moreover have "sd_latest s = jt_latest ?T" if "word_of_int (jt_latest ?T) = jt_empty_index ?T"
      "slot_state ?T (jt_cur ?T (nat (jt_latest ?T))) = Some x" "x \<in> {1, 2}" for x
      using \<open>hit \<or> past_empty S i\<close> that old [of i] k(2) index_inj [OF r(2) r(1)] by (auto simp: hit_def idle_empty_def)
    ultimately show ?thesis using st by (auto simp: idle_empty_def k(1) sends_empty_def)
  qed
  have fin: "finite (sy_served S)" using inv by (auto simp: system_inv_def intro: finite_subset)
  have cnt: "unat (jt_empty_complete T) \<le> card (if hit then insert i (sy_served S) else sy_served S)"
  proof -
    have c: "unat (jt_empty_complete ?T) \<le> card (sy_served S)" using inv by (simp add: system_inv_def)
    have "unat (jt_empty_complete ?T + 1) \<le> Suc (unat (jt_empty_complete ?T))" by (simp add: unat_plus_if') arith
    then show ?thesis using c new fin by (auto simp: T(6) card_insert_if past_empty_def)
  qed
  have idles: "idle_empty T (((sy_thread S)(i := s)) x)"
    if x: "x \<in> (if hit then insert i (sy_served S) else sy_served S) \<or> sy_before S \<le> x \<and> x < sy_running S" for x
  proof (cases "x = i")
    case True
    then have "hit \<or> past_empty S i" using x by (auto simp: past_empty_def split: if_splits)
    then show ?thesis using idle same True by simp
  next
    case False
    then have "past_empty S x" using x by (auto simp: past_empty_def split: if_splits)
    then show ?thesis using False same old by simp
  qed
  have "i < sy_before S" if hit using new [OF that] i(1) by (auto simp: past_empty_def)
  then have all: "(if hit then insert i (sy_served S) else sy_served S) \<subseteq> {..<sy_before S}"
      "jt_empty_ready T \<Longrightarrow> sy_counted S \<Longrightarrow> (if hit then insert i (sy_served S) else sy_served S) = {..<sy_before S}"
    using inv i(1) by (auto simp: system_inv_def T)
  show ?thesis
    unfolding hit_def [symmetric] system_inv_def using all cnt idles r inv by (auto simp: system_inv_def T k(2))
qed

lemma inv_thread:
  assumes inv: "system_inv N S" and r: "index_range (sd_latest s)" and k: "past_empty S i \<Longrightarrow> idle_empty (sy_jobs S) s"
  shows "system_inv N (S\<lparr>sy_thread := (sy_thread S)(i := s)\<rparr>)"
  using assms by (auto simp: system_inv_def past_empty_def)

lemma idle_same_work: "same_work s s' \<Longrightarrow> idle_empty T s' = idle_empty T s"
  by (simp add: same_work_def idle_empty_def)

lemma inv_update:
  assumes inv: "system_inv N S" and st: "st \<in> {1, 2} \<longrightarrow> nb" and u: "update_stratum_job E t nb st (sy_jobs S) = Some T"
  shows "system_inv N (published nb T S)"
proof -
  obtain s where s: "jt_slots T = (marked nb (sy_jobs S))(jt_next (sy_jobs S) := Some s)" "jt_latest T = next_global (jt_latest (sy_jobs S))"
    "jt_cur T = (jt_cur (sy_jobs S))(nat (next_global (jt_latest (sy_jobs S))) := Some (jt_next (sy_jobs S)))" "j_job_state s = st"
    by (rule update_cases [OF u]) blast
  note c = update_counts [OF u]
  have idle: "idle_empty T x" if nb: "\<not> nb" and x: "idle_empty (sy_jobs S) x" for x
  proof -
    have "slot_state T sl = (if sl = Some (jt_next (sy_jobs S)) then Some st else slot_state (sy_jobs S) sl)" for sl
      using nb s(1,4) by (cases sl) (simp_all add: slot_state_def marked_def)
    then show ?thesis using x c nb st s(2,3) by (auto simp: idle_empty_def)
  qed
  have "index_range (jt_latest T)" using inv range_next by (simp add: system_inv_def s(2))
  then show ?thesis using inv c idle by (auto simp: system_inv_def published_def)
qed

lemma inv_server:
  assumes inv: "system_inv N S" and N: "N < 2 ^ 64"
  shows "system_inv N (S\<lparr>sy_jobs := server_step (word_of_nat (sy_active S)) (sy_jobs S)\<rparr>)"
proof -
  have all: "sy_served S = {..<sy_before S}" if r: "word_of_nat (sy_active S) \<le> jt_empty_complete (sy_jobs S)" and c: "sy_counted S"
  proof (rule card_subset_eq)
    have "sy_active S \<le> unat (jt_empty_complete (sy_jobs S))" using r N inv by (simp add: word_le_nat_alt unat_of_nat system_inv_def)
    moreover have "card (sy_served S) \<le> sy_before S" using inv card_mono [of "{..<sy_before S}" "sy_served S"] by (simp add: system_inv_def)
    ultimately show "card (sy_served S) = card {..<sy_before S}" using inv c by (simp add: system_inv_def)
  qed (use inv in \<open>simp_all add: system_inv_def\<close>)
  have idle: "idle_empty (sy_jobs S\<lparr>jt_empty_ready := True\<rparr>) x = idle_empty (sy_jobs S) x" for x by (simp add: idle_empty_def slot_state_def)
  show ?thesis using inv all idle by (auto simp: server_step_def system_inv_def)
qed

lemma inv_start:
  assumes inv: "system_inv N S" and a: "sy_active S < N" "sy_running S = sy_active S"
    and i: "datum_stratum_v1_socket_thread_init now (sy_jobs S) (sy_thread S (sy_running S)) = Some s"
  shows "system_inv N (S\<lparr>sy_thread := (sy_thread S)(sy_running S := s), sy_running := Suc (sy_running S)\<rparr>)"
proof -
  have s: "idle_empty (sy_jobs S) s" "sd_latest s = jt_latest (sy_jobs S)"
    using i by (auto simp: idle_empty_def datum_stratum_v1_socket_thread_init_def split: if_splits)
  show ?thesis using inv a s by (auto simp: system_inv_def less_Suc_eq)
qed

lemma inv_take_over:
  assumes inv: "system_inv N S"
  shows "system_inv N (S\<lparr>sy_thread := (sy_thread S)(i := (see_job (sy_jobs S) (sy_thread S i))\<lparr>sd_loop_tsms := now\<rparr>)\<rparr>)"
proof -
  let ?T = "sy_jobs S" and ?s = "sy_thread S i"
  have r: "index_range (jt_latest ?T)" "index_range (sd_latest ?s)" using inv by (simp_all add: system_inv_def)
  have same: "idle_empty ?T (x\<lparr>sd_loop_tsms := now\<rparr>) = idle_empty ?T x" for x by (simp add: idle_empty_def)
  have w: "sd_latest (see_job ?T ?s) \<in> {sd_latest ?s, jt_latest ?T}" using see_job_effect [of ?s ?T] by (auto simp: same_work_def)
  have "idle_empty ?T (see_job ?T ?s)" if "past_empty S i"
  proof -
    have old: "idle_empty ?T ?s" using inv that by (auto simp: system_inv_def past_empty_def)
    from see_job_effect [of ?s ?T] show ?thesis
    proof (elim disjE exE conjE)
      fix slot
      assume n: "jt_latest ?T \<noteq> sd_latest ?s" "jt_cur ?T (nat (jt_latest ?T)) = Some slot" "sd_slot (see_job ?T ?s) = Some slot" "sd_latest (see_job ?T ?s) = jt_latest ?T"
      have "st \<notin> {1, 2}" if "word_of_int (jt_latest ?T) = jt_empty_index ?T" "slot_state ?T (Some slot) = Some st" for st
      proof
        assume "st \<in> {1, 2}"
        then have "sd_latest ?s = jt_latest ?T" using that old n(2) unfolding idle_empty_def by auto
        then show False using n(1) by simp
      qed
      then show ?thesis using n by (auto simp: idle_empty_def)
    qed (use old idle_same_work in blast)
  qed
  then show ?thesis by (intro inv_thread [OF inv]) (use r w same in auto)
qed

lemma inv_step: "sys_step N S S' \<Longrightarrow> system_inv N S \<Longrightarrow> N < 2 ^ 64 \<Longrightarrow> system_inv N S'"
proof (induction rule: sys_step.induct)
  case (new_job st nb E t S T)
  then show ?case using inv_update by simp
next
  case (coinbaser S i j j')
  have "slot_state ((sy_jobs S)\<lparr>jt_slots := (jt_slots (sy_jobs S))(i := Some j')\<rparr>) sl = slot_state (sy_jobs S) sl" for sl
    using coinbaser by (cases sl) (simp_all add: slot_state_def)
  then have "idle_empty ((sy_jobs S)\<lparr>jt_slots := (jt_slots (sy_jobs S))(i := Some j')\<rparr>) x = idle_empty (sy_jobs S) x" for x
    by (simp add: idle_empty_def)
  then show ?case using coinbaser by (simp add: system_inv_def)
next
  case (server S)
  then show ?case using inv_server by simp
next
  case (start_thread S now s)
  then show ?case using inv_start by simp
next
  case (count_thread S)
  then show ?case by (auto simp: system_inv_def)
next
  case (take_over i S now)
  then show ?case using inv_take_over by simp
next
  case (send i S j e lc s T)
  then show ?case using inv_send by simp
next
  case (other i S s)
  have "idle_empty (sy_jobs S) s" if "past_empty S i" using other that idle_same_work by (auto simp: system_inv_def past_empty_def)
  moreover have "index_range (sd_latest s)" using other by (simp add: system_inv_def same_work_def)
  ultimately show ?case using other inv_thread by simp
qed

lemma reach_inv: "sys_reach N S \<Longrightarrow> N < 2 ^ 64 \<Longrightarrow> system_inv N S"
proof (induction rule: sys_reach.induct)
  case (start ths)
  then show ?case by (simp add: system_inv_def initial_jobs_def index_range_def MAX_STRATUM_JOBS_def)
next
  case (step S S')
  then show ?case using inv_step by blast
qed

text \<open>C15: in every interleaving of the template thread, the server's loop, the listener and the stratum threads: as
  long as one of the threads that ran when the newest block's job was published (all of them counted by then) has not
  sent the empty work of that block to its clients, no thread's loop broadcasts the full work of such a job: it leaves
  its clients alone and waits. Threads that start later take no part, and a client that subscribes or has its difficulty
  changed at once is sent full work on its own all the same.\<close>

theorem full_work_waits_for_empty:
  assumes "sys_reach N S" "N < 2 ^ 31" "sy_counted S" "k < sy_before S" "k \<notin> sy_served S" "j_job_state j = 2" "sd_last_was_empty s"
  shows "send_job e lc j (sy_jobs S) s = Some (s\<lparr>sd_full_coinbase_ready := False\<rparr>, sy_jobs S)"
proof -
  have "\<not> jt_empty_ready (sy_jobs S)" using reach_inv [OF assms(1)] assms(2-5) by (auto simp: system_inv_def)
  then show ?thesis using assms(6,7) by (simp add: send_job_def stratum_latest_empty_check_ready_for_full_def)
qed

text \<open>The witness: a first job, a thread that starts and is counted, then a new block.\<close>

theorem full_work_waits_for_empty_witness:
  "\<exists>S. sys_reach 3 S \<and> sy_before S = 1 \<and> sy_counted S \<and> sy_served S = {}
    \<and> send_job ex_env ex_loop_conf (ex_job\<lparr>j_job_state := 2\<rparr>) (sy_jobs S) (ex_thread\<lparr>sd_last_was_empty := True\<rparr>)
        = Some (ex_thread\<lparr>sd_last_was_empty := True, sd_full_coinbase_ready := False\<rparr>, sy_jobs S)"
proof -
  let ?S0 = "\<lparr>sy_jobs = initial_jobs, sy_thread = (\<lambda>_. ex_thread\<lparr>sd_new_job := False\<rparr>), sy_running = 0, sy_active = 0, sy_served = {}, sy_before = 0, sy_counted = True\<rparr>"
  obtain T1 where u1: "update_stratum_job ex_jenv ex_sha_template True 2 initial_jobs = Some T1" using ex_update by blast
  obtain T2 where u2: "update_stratum_job ex_jenv ex_sha_template True 2 T1 = Some T2" using ex_update by blast
  define S1 where "S1 = published True T1 ?S0"
  have n: "update_stratum_job ex_jenv ex_sha_template True 2 (sy_jobs ?S0) = Some T1" using u1 by simp
  have "sys_reach 3 ?S0" by (rule sys_reach.start) (simp add: ex_thread_def)
  then have r1: "sys_reach 3 S1" unfolding S1_def by (rule sys_reach.step) (rule sys_step.new_job [OF _ n], simp)
  have "jt_latest T1 = 0" using update_cases [OF u1] by (metis initial_jobs_def job_table.select_convs(3) next_global_def add.commute add.right_inverse zero_neq_neg_one of_nat_eq_0_iff MAX_STRATUM_JOBS_def zero_neq_numeral)
  then obtain s where s: "datum_stratum_v1_socket_thread_init 0 (sy_jobs S1) (sy_thread S1 (sy_running S1)) = Some s"
    by (simp add: datum_stratum_v1_socket_thread_init_def S1_def published_def)
  define S2 where "S2 = S1\<lparr>sy_thread := (sy_thread S1)(sy_running S1 := s), sy_running := Suc (sy_running S1)\<rparr>"
  define S3 where "S3 = S2\<lparr>sy_active := sy_running S2\<rparr>"
  define S4 where "S4 = published True T2 S3"
  have r2: "sys_reach 3 S2" unfolding S2_def by (rule sys_reach.step [OF r1], rule sys_step.start_thread [OF _ _ s]) (simp_all add: S1_def published_def)
  have r3: "sys_reach 3 S3" unfolding S3_def by (rule sys_reach.step [OF r2], rule sys_step.count_thread)
  have n2: "update_stratum_job ex_jenv ex_sha_template True 2 (sy_jobs S3) = Some T2" using u2 by (simp add: S3_def S2_def S1_def published_def)
  have r4: "sys_reach 3 S4" unfolding S4_def by (rule sys_reach.step [OF r3], rule sys_step.new_job [OF _ n2]) simp
  have f: "sy_before S4 = 1" "sy_counted S4" "sy_served S4 = {}" by (simp_all add: S4_def S3_def S2_def S1_def published_def)
  have "send_job ex_env ex_loop_conf (ex_job\<lparr>j_job_state := 2\<rparr>) (sy_jobs S4) (ex_thread\<lparr>sd_last_was_empty := True\<rparr>)
        = Some (ex_thread\<lparr>sd_last_was_empty := True, sd_full_coinbase_ready := False\<rparr>, sy_jobs S4)"
    by (rule full_work_waits_for_empty [OF r4, of 0, THEN trans]) (simp_all add: f)
  then show ?thesis using r4 f by blast
qed

text \<open>
  A thread that starts after the new block is counted and never sends that block's empty work: when it is counted
  before the others are done, the server's loop does not release the full work of that job any more.
\<close>

lemma late_thread_blocks:
  assumes "sys_reach N S" "N < 2 ^ 31" "sy_before S < sy_active S" "\<not> jt_empty_ready (sy_jobs S)"
  shows "server_step (word_of_nat (sy_active S)) (sy_jobs S) = sy_jobs S"
proof -
  note inv = reach_inv [OF assms(1)]
  have i: "sy_served S \<subseteq> {..<sy_before S}" "unat (jt_empty_complete (sy_jobs S)) \<le> card (sy_served S)" "sy_active S \<le> N"
    using inv assms(2) by (simp_all add: system_inv_def)
  have "card (sy_served S) \<le> sy_before S" using card_mono [OF _ i(1)] by simp
  then have "unat (jt_empty_complete (sy_jobs S)) < sy_active S" using i(2) assms(3) by simp
  then have "\<not> word_of_nat (sy_active S) \<le> jt_empty_complete (sy_jobs S)"
    using i(3) assms(2) by (simp add: word_le_nat_alt unat_of_nat)
  then show ?thesis by (simp add: server_step_def)
qed

end
