(* ===== verification/Gbt.thy ===== *)
theory Gbt
  imports Stratum
begin

text \<open>
  Block templates, \<^verbatim>\<open>src/src/datum_blocktemplates.c\<close>: the ring of templates in memory, the parser of the node's
  \<^verbatim>\<open>getblocktemplate\<close> answer, and the exchange of its transactions for a supplier's. The data of the
  transactions lies in the memory of a slot; the parser keeps their places there.
\<close>

section \<open>Reading the answer\<close>

definition json_integer_value :: "json \<Rightarrow> int" where
  "json_integer_value j = (case j of JInt i \<Rightarrow> i | _ \<Rightarrow> 0)"

definition json_string_length :: "json option \<Rightarrow> nat" where
  "json_string_length j = (case j of Some (JString s) \<Rightarrow> length s | _ \<Rightarrow> 0)"

definition int_of :: "json \<Rightarrow> string \<Rightarrow> int" where
  "int_of j key = (case json_object_get j key of None \<Rightarrow> 0 | Some v \<Rightarrow> json_integer_value v)"

definition string_of :: "json \<Rightarrow> string \<Rightarrow> string option" where
  "string_of j key = Option.bind (json_object_get j key) json_string_value"

definition has_key :: "json \<Rightarrow> string \<Rightarrow> bool" where
  "has_key j key \<longleftrightarrow> json_object_get j key \<noteq> None"

text \<open>The integer under a key, if there is one.\<close>

definition integer_at :: "json \<Rightarrow> string \<Rightarrow> int option" where
  "integer_at j key = (case json_object_get j key of Some (JInt i) \<Rightarrow> Some i | _ \<Rightarrow> None)"

section \<open>Header fields\<close>

definition datum_template_clear_header_fields :: "template \<Rightarrow> template" where
  "datum_template_clear_header_fields t =
     t\<lparr>t_header_version := 0, t_header_transaction_count := 0, t_header_flags := 0, t_header_time_offset := 0, t_clear_bits := 0,
       t_xor_key := replicate 16 0, t_merge_mining_rhs := replicate 32 0\<rparr>"

definition datum_template_clear :: "template \<Rightarrow> template" where
  "datum_template_clear t =
     datum_template_clear_header_fields (t\<lparr>t_coinbasevalue := 0, t_txns := [], t_txn_total_size := 0, t_txn_total_weight := 0, t_txn_total_sigops := 0\<rparr>)"

text \<open>The output of the strict decoder when it stops early: the bytes before the bad digit are written.\<close>

fun decode_hex_into :: "string \<Rightarrow> bytes \<Rightarrow> bytes" where
  "decode_hex_into (c0 # c1 # hex) (b # out) =
     (if datum_hex_nibble c0 < 0 \<or> datum_hex_nibble c1 < 0 then b # out else hex2bin_uchar c0 c1 # decode_hex_into hex out)"
| "decode_hex_into hex out = out"

definition datum_gbt_try_hex_field :: "json \<Rightarrow> string \<Rightarrow> bytes \<Rightarrow> bool \<times> bytes" where
  "datum_gbt_try_hex_field gbt key out =
     (case string_of gbt key of None \<Rightarrow> (False, out)
      | Some s \<Rightarrow> if length s \<noteq> length out * 2 then (False, out)
          else (datum_pow_decode_hex_exact s (length out) \<noteq> None, decode_hex_into s out))"

record gbt_conf =
  allow_hasher_time_rolling :: bool
  pow_algorithm :: string

text \<open>What \<^verbatim>\<open>powalgorithm\<close> and \<^verbatim>\<open>header_version\<close> say: the version, and whether SHA-256 was named; \<open>None\<close> refuses.\<close>

definition header_version_of :: "json \<Rightarrow> (nat \<times> bool) option" where
  "header_version_of gbt =
     (case (case json_object_get gbt ''powalgorithm'' of None \<Rightarrow> Some (0, False, False)
            | Some v \<Rightarrow> if v = JString ''blake2b'' then Some (2, True, False) else if v = JString ''sha256d'' then Some (0, False, True) else None)
      of None \<Rightarrow> None
       | Some (v, blake2b, sha256d) \<Rightarrow>
          (case (case json_object_get gbt ''header_version'' of None \<Rightarrow> Some v
                 | Some (JInt i) \<Rightarrow> if i = 0 then None else Some (unat (word_of_int i :: u32))
                 | Some _ \<Rightarrow> None)
           of None \<Rightarrow> None
            | Some v \<Rightarrow> if sha256d \<and> v \<ge> 2 then None else Some (if blake2b then 2 else v, sha256d)))"

definition header_flags_of :: "json \<Rightarrow> u8 option" where
  "header_flags_of gbt =
     (case json_object_get gbt (if has_key gbt ''h1_flags'' then ''h1_flags'' else ''header_flags'') of
        Some (JInt fv) \<Rightarrow> if 0 \<le> fv \<and> fv \<le> 255 then (if fv mod 4 \<noteq> 0 then None else Some (word_of_int fv)) else Some 0
      | _ \<Rightarrow> Some 0)"

definition with_transaction_count :: "json \<Rightarrow> template \<Rightarrow> template" where
  "with_transaction_count gbt t =
     (case integer_at gbt ''transaction_count'' of Some i \<Rightarrow> if i \<ge> 0 then t\<lparr>t_header_transaction_count := word_of_int i\<rparr> else t | None \<Rightarrow> t)"

definition with_time_offset :: "json \<Rightarrow> template \<Rightarrow> template" where
  "with_time_offset gbt t =
     (case integer_at gbt ''time_offset'' of Some i \<Rightarrow> if 0 \<le> i \<and> i \<le> 0xffffffff then t\<lparr>t_header_time_offset := word_of_int i\<rparr> else t | None \<Rightarrow> t)"

definition with_clear_bits :: "json \<Rightarrow> template \<Rightarrow> template" where
  "with_clear_bits gbt t =
     (case integer_at gbt ''xor_key_mask_clear_bits'' of Some i \<Rightarrow> if 0 \<le> i \<and> i \<le> 255 then t\<lparr>t_clear_bits := word_of_int i\<rparr> else t | None \<Rightarrow> t)"

definition with_keys :: "json \<Rightarrow> template \<Rightarrow> template" where
  "with_keys gbt t =
     t\<lparr>t_xor_key := snd (datum_gbt_try_hex_field gbt ''xor_key'' (t_xor_key t)),
       t_merge_mining_rhs := snd (datum_gbt_try_hex_field gbt ''merge_mining_rhs'' (t_merge_mining_rhs t))\<rparr>"

definition with_time_rolling :: "gbt_conf \<Rightarrow> template \<Rightarrow> template" where
  "with_time_rolling conf t = (if allow_hasher_time_rolling conf then t\<lparr>t_header_flags := DATUM_BLAKE2B_USE_TIME_OFFSET\<rparr> else t)"

definition datum_gbt_parse_header_fields :: "gbt_conf \<Rightarrow> json \<Rightarrow> template \<Rightarrow> bool \<times> template" where
  "datum_gbt_parse_header_fields conf gbt t =
     (let t = datum_template_clear_header_fields t
      in case gbt of
        JObject kvs \<Rightarrow>
          (case header_version_of gbt of None \<Rightarrow> (False, t)
           | Some (v, sha256d) \<Rightarrow>
             if v = 0 then (sha256d, t)
             else let t = with_transaction_count gbt (t\<lparr>t_header_version := v\<rparr>)
                  in case header_flags_of gbt of None \<Rightarrow> (False, t)
                    | Some flags \<Rightarrow>
                        (True, with_time_rolling conf (with_keys gbt (with_clear_bits gbt (with_time_offset gbt (t\<lparr>t_header_flags := flags\<rparr>))))))
      | _ \<Rightarrow> (False, t))"

text \<open>Without the two members the other hints of the answer decide.\<close>

definition wants_blake2b :: "gbt_conf \<Rightarrow> json \<Rightarrow> u32 \<Rightarrow> bool" where
  "wants_blake2b conf gbt version \<longleftrightarrow>
     (case json_object_get gbt ''rules'' of Some (JArray rs) \<Rightarrow> list_ex (\<lambda>r. r = JString ''blake2b'' \<or> r = JString ''!blake2b'') rs | _ \<Rightarrow> False)
     \<or> (case json_object_get gbt ''coinbaseaux'' of Some aux \<Rightarrow> has_key aux ''blake2b_headline'' | None \<Rightarrow> False)
     \<or> version AND 0x80000000 \<noteq> 0 \<or> pow_algorithm conf = ''blake2b''"

definition guess_header_fields :: "gbt_conf \<Rightarrow> json \<Rightarrow> template \<Rightarrow> template" where
  "guess_header_fields conf gbt t =
     (let want = wants_blake2b conf gbt (t_version t);
          t = t\<lparr>t_version := t_version t AND 0x7fffffff\<rparr>
      in if want \<and> pow_algorithm conf \<noteq> ''sha256d'' then with_time_rolling conf (t\<lparr>t_header_version := 2\<rparr>) else t)"

definition parse_headline :: "json \<Rightarrow> template \<Rightarrow> template" where
  "parse_headline gbt t =
     (if t_header_version t \<ge> 2
      then t\<lparr>t_blake2b_headline :=
         (case json_object_get gbt ''coinbaseaux'' of
            Some aux \<Rightarrow> (case string_of aux ''blake2b_headline'' of
                Some hs \<Rightarrow> if length hs \<ge> 2 \<and> even (length hs) \<and> length hs div 2 \<le> 100 then hex_to_bin hs else []
              | None \<Rightarrow> [])
          | None \<Rightarrow> [])\<rparr>
      else t)"

section \<open>The parser\<close>

text \<open>
  The memory of a slot: first the structs of the transactions, 256 bytes each on a 64-bit machine, then for each
  transaction its bytes and its text. A place is an offset into that memory.
\<close>

definition MAX_BLOCK_SIZE_BYTES :: nat where "MAX_BLOCK_SIZE_BYTES = 4000000"

definition TXN_STRUCT_SIZE :: nat where "TXN_STRUCT_SIZE = 256"

definition LOCAL_DATA_SIZE :: nat where
  "LOCAL_DATA_SIZE = TXN_STRUCT_SIZE * 16384 + MAX_BLOCK_SIZE_BYTES * 3 + 2000000"

record placed =
  p_txn :: txn
  p_binary :: u32
  p_hex :: u32

text \<open>One transaction at an offset: the transaction with its places and the next offset, \<open>None\<close> to refuse the answer.\<close>

definition parse_txn :: "json \<Rightarrow> u32 \<Rightarrow> (placed \<times> u32) option" where
  "parse_txn tx ofs =
     (case (string_of tx ''txid'', string_of tx ''hash'', string_of tx ''data'') of
        (Some txid, Some hsh, Some s) \<Rightarrow>
          if length txid \<noteq> 64 \<or> length hsh \<noteq> 64 then None
          else let sz = word_of_nat (length s div 2) :: u32;
                   hex_at = ofs + sz + 1;
                   next_ofs = hex_at + (sz * 2 + 2)
               in if next_ofs \<ge> word_of_nat LOCAL_DATA_SIZE then None
                  else Some (\<lparr>p_txn = \<lparr>x_txid_hex = txid, x_txid_bin = hex_to_bin_le txid, x_hash_hex = hsh, x_hash_bin = hex_to_bin_le hsh,
                         x_size = sz, x_weight = word_of_int (int_of tx ''weight''), x_fee_sats = word_of_int (int_of tx ''fee''),
                         x_sigops = word_of_int (int_of tx ''sigops''), x_data_hex = s, x_data_binary = hex_to_bin s\<rparr>,
                       p_binary = ofs, p_hex = hex_at\<rparr>, next_ofs)
      | _ \<Rightarrow> None)"

fun parse_txns :: "json list \<Rightarrow> u32 \<Rightarrow> placed list option" where
  "parse_txns [] ofs = Some []"
| "parse_txns (tx # txs) ofs =
     (case parse_txn tx ofs of None \<Rightarrow> None | Some (p, next_ofs) \<Rightarrow> map_option ((#) p) (parse_txns txs next_ofs))"

text \<open>A template and the places of its transactions, a refused answer, or a write outside the target array.\<close>

datatype gbt_result =
    Parsed template "placed list"
  | Refused
  | Undefined

definition parse_numbers :: "json \<Rightarrow> template \<Rightarrow> template option" where
  "parse_numbers gbt t =
     (let t = t\<lparr>t_height := word_of_int (int_of gbt ''height''), t_coinbasevalue := word_of_int (int_of gbt ''coinbasevalue''),
            t_mintime := word_of_int (int_of gbt ''mintime''), t_sigoplimit := word_of_int (int_of gbt ''sigoplimit''),
            t_curtime := word_of_int (int_of gbt ''curtime''), t_sizelimit := word_of_int (int_of gbt ''sizelimit''),
            t_weightlimit := word_of_int (int_of gbt ''weightlimit''), t_version := word_of_int (int_of gbt ''version'')\<rparr>
      in if t_height t = 0 \<or> t_coinbasevalue t = 0 \<or> t_mintime t = 0 \<or> t_sigoplimit t = 0 \<or> t_curtime t = 0 \<or> t_sizelimit t = 0
            \<or> t_weightlimit t = 0 \<or> t_version t = 0 then None else Some t)"

definition parse_header :: "gbt_conf \<Rightarrow> json \<Rightarrow> template \<Rightarrow> template option" where
  "parse_header conf gbt t =
     map_option (parse_headline gbt)
       (if has_key gbt ''powalgorithm'' \<or> has_key gbt ''header_version''
        then (let (ok, t) = datum_gbt_parse_header_fields conf gbt t in if ok then Some t else None)
        else Some (guess_header_fields conf gbt t))"

definition parse_strings :: "json \<Rightarrow> template \<Rightarrow> template option" where
  "parse_strings gbt t =
     (case (string_of gbt ''bits'', string_of gbt ''previousblockhash'', string_of gbt ''target'', string_of gbt ''default_witness_commitment'') of
        (Some bits, Some ph, Some tg, Some wc) \<Rightarrow>
          if length bits \<noteq> 8 \<or> length ph \<noteq> 64 \<or> length tg \<noteq> 64 \<or> length wc < 38 \<or> length wc > 95 then None
          else Some (t\<lparr>t_bits := bits, t_previousblockhash := ph, t_block_target_hex := tg, t_default_witness_commitment := wc,
                 t_previousblockhash_bin := hex_to_bin_le ph, t_bits_bin := hex_to_bin_le bits, t_bits_uint := upk_u32le (hex_to_bin_le bits) 0,
                 t_default_witness_commitment_bin := hex_to_bin (if even (length wc) then wc else wc @ [CHR 0x00])\<rparr>)
      | _ \<Rightarrow> None)"

definition txn_sum :: "(txn \<Rightarrow> u32) \<Rightarrow> placed list \<Rightarrow> u32" where
  "txn_sum f ps = fold (\<lambda>p s. s + f (p_txn p)) ps 0"

definition datum_gbt_parser :: "gbt_conf \<Rightarrow> json \<Rightarrow> template \<Rightarrow> gbt_result" where
  "datum_gbt_parser conf gbt t =
     (case parse_numbers gbt (datum_template_clear t) of None \<Rightarrow> Refused
      | Some t \<Rightarrow>
        (case parse_header conf gbt t of None \<Rightarrow> Refused
         | Some t \<Rightarrow>
           (case parse_strings gbt t of None \<Rightarrow> Refused
            | Some t \<Rightarrow>
              (case nbits_to_target (t_bits_uint t) of None \<Rightarrow> Undefined
               | Some tgt \<Rightarrow>
                 (case json_object_get gbt ''transactions'' of
                    Some (JArray txs) \<Rightarrow>
                      (case parse_txns (take 16383 txs) (word_of_nat (TXN_STRUCT_SIZE * length txs)) of None \<Rightarrow> Refused
                       | Some ps \<Rightarrow>
                           Parsed (t\<lparr>t_block_target := tgt, t_txns := map p_txn ps, t_txn_total_weight := txn_sum x_weight ps,
                             t_txn_total_size := txn_sum x_size ps, t_txn_total_sigops := txn_sum x_sigops ps\<rparr>) ps)
                  | _ \<Rightarrow> Refused)))))"

section \<open>The ring of templates\<close>

definition MAX_TEMPLATES_IN_MEMORY :: nat where "MAX_TEMPLATES_IN_MEMORY = 32"

text \<open>A slot whose last answer was refused half way is \<open>None\<close>.\<close>

record template_pool =
  tp_next :: nat
  tp_slots :: "nat \<Rightarrow> template option"

definition next_template_index :: "nat \<Rightarrow> nat" where
  "next_template_index i = (if i + 1 \<ge> MAX_TEMPLATES_IN_MEMORY then 0 else i + 1)"

definition parse_into_pool :: "gbt_conf \<Rightarrow> template \<Rightarrow> json \<Rightarrow> template_pool \<Rightarrow> (template_pool \<times> template option) option" where
  "parse_into_pool conf blank gbt P =
     (let i = tp_next P; old = (case tp_slots P i of None \<Rightarrow> blank | Some t \<Rightarrow> t)
      in case datum_gbt_parser conf gbt old of
           Undefined \<Rightarrow> None
         | Refused \<Rightarrow> Some (\<lparr>tp_next = next_template_index i, tp_slots = (tp_slots P)(i := None)\<rparr>, None)
         | Parsed t ps \<Rightarrow> Some (\<lparr>tp_next = next_template_index i, tp_slots = (tp_slots P)(i := Some t)\<rparr>, Some t))"

text \<open>Several answers, one after the other.\<close>

fun parse_many :: "gbt_conf \<Rightarrow> template \<Rightarrow> json list \<Rightarrow> template_pool \<Rightarrow> template_pool option" where
  "parse_many conf blank [] P = Some P"
| "parse_many conf blank (g # gs) P =
     (case parse_into_pool conf blank g P of None \<Rightarrow> None | Some (P, _) \<Rightarrow> parse_many conf blank gs P)"

lemma parse_into_pool_slot:
  "parse_into_pool conf blank g P = Some (P', r) \<Longrightarrow> tp_next P' = next_template_index (tp_next P) \<and> tp_slots P' = (tp_slots P)(tp_next P := r)"
  by (auto simp: parse_into_pool_def Let_def split: gbt_result.splits)

lemma next_template_mod: "i < MAX_TEMPLATES_IN_MEMORY \<Longrightarrow> next_template_index i = (i + 1) mod MAX_TEMPLATES_IN_MEMORY"
  by (cases "i = 31") (simp_all add: next_template_index_def MAX_TEMPLATES_IN_MEMORY_def)

lemma ring_away: "i < n \<Longrightarrow> k + 1 < n \<Longrightarrow> (i + 1 + k) mod n \<noteq> (i :: nat)"
  by (cases "i + 1 + k < n") (auto simp: mod_if)

lemma parse_many_slots:
  assumes "parse_many conf blank gs P = Some P'" "tp_next P = (i + 1 + k) mod MAX_TEMPLATES_IN_MEMORY" "i < MAX_TEMPLATES_IN_MEMORY" "k + length gs < MAX_TEMPLATES_IN_MEMORY"
  shows "tp_slots P' i = tp_slots P i \<and> tp_next P' = (i + 1 + k + length gs) mod MAX_TEMPLATES_IN_MEMORY"
  using assms
proof (induction gs arbitrary: P k)
  case (Cons g gs)
  obtain Q r where q: "parse_into_pool conf blank g P = Some (Q, r)" "parse_many conf blank gs Q = Some P'"
    using Cons.prems(1) by (auto split: option.splits)
  note s = parse_into_pool_slot [OF q(1)]
  have n: "(i + 1 + k) mod MAX_TEMPLATES_IN_MEMORY \<noteq> i" "next_template_index ((i + 1 + k) mod MAX_TEMPLATES_IN_MEMORY) = (i + 1 + Suc k) mod MAX_TEMPLATES_IN_MEMORY"
    using ring_away [of i MAX_TEMPLATES_IN_MEMORY k] Cons.prems(3,4) next_template_mod [of "(i + 1 + k) mod MAX_TEMPLATES_IN_MEMORY"]
    by (simp_all add: MAX_TEMPLATES_IN_MEMORY_def mod_Suc_eq)
  have "tp_slots P' i = tp_slots Q i \<and> tp_next P' = (i + 1 + Suc k + length gs) mod MAX_TEMPLATES_IN_MEMORY"
    by (rule Cons.IH [OF q(2)]) (use s n Cons.prems in simp_all)
  then show ?case using s n Cons.prems(2) by simp
qed simp

text \<open>The memory of a parsed template stays as it is for the next 31 answers of the node and is taken for the 32nd, whatever the answers hold
  and whether they are refused: a job may be used until then.\<close>

theorem template_slot_kept:
  assumes "parse_into_pool conf blank g P = Some (Q, Some t)" "tp_next P < MAX_TEMPLATES_IN_MEMORY"
    "parse_many conf blank gs Q = Some R" "length gs \<le> 31"
  shows "tp_slots R (tp_next P) = Some t \<and> (length gs = 31 \<and> parse_into_pool conf blank g' R = Some (R', r) \<longrightarrow> tp_slots R' (tp_next P) = r)"
proof -
  note s = parse_into_pool_slot [OF assms(1)]
  have "tp_next Q = (tp_next P + 1 + 0) mod MAX_TEMPLATES_IN_MEMORY"
    using s assms(2) by (simp add: next_template_mod)
  then have k: "tp_slots R (tp_next P) = tp_slots Q (tp_next P)" "tp_next R = (tp_next P + 1 + 0 + length gs) mod MAX_TEMPLATES_IN_MEMORY"
    using parse_many_slots [OF assms(3) _ assms(2), of 0] assms(4) by (simp_all add: MAX_TEMPLATES_IN_MEMORY_def)
  have "tp_next R = tp_next P" if "length gs = 31" using k(2) that assms(2) by (simp add: MAX_TEMPLATES_IN_MEMORY_def)
  then show ?thesis using s k(1) by (auto dest: parse_into_pool_slot)
qed

section \<open>The memory of a slot\<close>

text \<open>The structs end before \<open>lo\<close>, then the places follow one another without overlap and end before \<open>hi\<close>.\<close>

fun laid_out :: "nat \<Rightarrow> nat \<Rightarrow> placed list \<Rightarrow> bool" where
  "laid_out lo hi [] = True"
| "laid_out lo hi (p # ps) =
     (lo \<le> unat (p_binary p) \<and> unat (p_binary p) + length (x_data_binary (p_txn p)) \<le> unat (p_hex p)
      \<and> unat (p_hex p) + length (x_data_hex (p_txn p)) + 1 < hi \<and> laid_out (unat (p_hex p) + length (x_data_hex (p_txn p)) + 1) hi ps)"

definition data_small :: "json \<Rightarrow> bool" where
  "data_small tx \<longleftrightarrow> (case string_of tx ''data'' of None \<Rightarrow> True | Some s \<Rightarrow> length s < 2 ^ 30)"

lemma parse_txns_length: "parse_txns txs ofs = Some ps \<Longrightarrow> length ps = length txs"
  by (induction txs arbitrary: ofs ps) (auto split: option.splits prod.splits)

lemma laid_out_lower: "laid_out lo hi ps \<Longrightarrow> l \<le> lo \<Longrightarrow> laid_out l hi ps"
  by (cases ps) auto

lemma parse_txn_place:
  assumes "parse_txn tx ofs = Some (p, k)" "data_small tx" "unat ofs < 2 ^ 29"
  shows "p_binary p = ofs \<and> unat (p_binary p) + length (x_data_binary (p_txn p)) \<le> unat (p_hex p)
    \<and> unat (p_hex p) + length (x_data_hex (p_txn p)) + 1 \<le> unat k \<and> unat k < LOCAL_DATA_SIZE"
proof -
  obtain s where s: "string_of tx ''data'' = Some s" using assms(1) by (auto simp: parse_txn_def split: option.splits)
  define n where "n = length s div 2"
  have n: "n < 2 ^ 29" "length s \<le> 2 * n + 1" using assms(2) s by (simp_all add: data_small_def n_def)
  note o = assms(3)
  have h: "unat (ofs + word_of_nat n + 1 :: u32) = unat ofs + n + 1"
    using n o by (simp add: unat_word_ariths unat_of_nat)
  have k: "unat (ofs + word_of_nat n + 1 + (word_of_nat n * 2 + 2) :: u32) = unat ofs + n + 1 + (2 * n + 2)"
    using n o by (simp add: unat_word_ariths unat_of_nat)
  have p: "p_binary p = ofs" "p_hex p = ofs + word_of_nat n + 1" "x_data_hex (p_txn p) = s" "x_data_binary (p_txn p) = hex_to_bin s"
    "k = ofs + word_of_nat n + 1 + (word_of_nat n * 2 + 2)" "k < word_of_nat LOCAL_DATA_SIZE"
    using assms(1) s by (auto simp: parse_txn_def Let_def n_def split: option.splits if_splits)
  have "unat k < LOCAL_DATA_SIZE"
    using p(6) by (simp add: word_less_nat_alt LOCAL_DATA_SIZE_def TXN_STRUCT_SIZE_def MAX_BLOCK_SIZE_BYTES_def)
  then show ?thesis using p h k n by (simp add: hex_to_bin_def n_def)
qed

lemma parse_txns_laid_out:
  assumes "parse_txns txs ofs = Some ps" "list_all data_small txs" "unat ofs < 2 ^ 29"
  shows "laid_out (unat ofs) LOCAL_DATA_SIZE ps"
  using assms
proof (induction txs arbitrary: ofs ps)
  case (Cons tx txs)
  obtain p k qs where p: "parse_txn tx ofs = Some (p, k)" "parse_txns txs k = Some qs" "ps = p # qs"
    using Cons.prems(1) by (auto split: option.splits prod.splits)
  note h = parse_txn_place [OF p(1)]
  have "laid_out (unat k) LOCAL_DATA_SIZE qs" by (rule Cons.IH [OF p(2)]) (use h Cons.prems in \<open>simp_all add: LOCAL_DATA_SIZE_def TXN_STRUCT_SIZE_def MAX_BLOCK_SIZE_BYTES_def\<close>)
  then show ?case using h Cons.prems by (auto simp: p(3) intro: laid_out_lower)
qed simp

text \<open>The places of a parsed template's transactions lie behind the structs, one after the other and without overlap, each with room for its
  bytes and its text with the final zero, and all within the memory of the slot.\<close>

theorem gbt_transactions_fit:
  assumes "datum_gbt_parser conf gbt t = Parsed t' ps" "json_object_get gbt ''transactions'' = Some (JArray txs)"
    "list_all data_small txs" "length txs < 2 ^ 20"
  shows "TXN_STRUCT_SIZE * length ps \<le> TXN_STRUCT_SIZE * length txs \<and> laid_out (TXN_STRUCT_SIZE * length txs) LOCAL_DATA_SIZE ps"
proof -
  have ps: "parse_txns (take 16383 txs) (word_of_nat (TXN_STRUCT_SIZE * length txs)) = Some ps"
    using assms(1,2) by (auto simp: datum_gbt_parser_def split: option.splits)
  have o: "unat (word_of_nat (TXN_STRUCT_SIZE * length txs) :: u32) = TXN_STRUCT_SIZE * length txs"
    using assms(4) by (simp add: TXN_STRUCT_SIZE_def unat_of_nat del: of_nat_mult)
  have "laid_out (unat (word_of_nat (TXN_STRUCT_SIZE * length txs) :: u32)) LOCAL_DATA_SIZE ps"
    by (rule parse_txns_laid_out [OF ps]) (use o assms(3,4) in \<open>auto simp: list_all_iff TXN_STRUCT_SIZE_def dest: in_set_takeD\<close>)
  then show ?thesis using parse_txns_length [OF ps] o by simp
qed

section \<open>The transactions of a supplier\<close>

fun dec_prefix :: "nat \<Rightarrow> string \<Rightarrow> nat" where
  "dec_prefix acc [] = acc"
| "dec_prefix acc (c # cs) = (if 48 \<le> code c \<and> code c \<le> 57 then dec_prefix (10 * acc + (code c - 48)) cs else acc)"

definition strtoull10 :: "string \<Rightarrow> u64" where
  "strtoull10 s =
     (let s = dropWhile is_space s;
          neg = (s \<noteq> [] \<and> s ! 0 = CHR ''-'');
          s = (if s \<noteq> [] \<and> (s ! 0 = CHR ''-'' \<or> s ! 0 = CHR ''+'') then drop 1 s else s);
          v = dec_prefix 0 s
      in if v \<ge> 2 ^ 64 then -1 else if neg then - word_of_nat v else word_of_nat v)"

definition datum_json_u64 :: "json option \<Rightarrow> u64" where
  "datum_json_u64 v = (case v of Some (JInt i) \<Rightarrow> word_of_int i | Some (JString s) \<Rightarrow> strtoull10 s | _ \<Rightarrow> 0)"

text \<open>The supplier's name, its printable characters up to the size of the buffer.\<close>

definition datum_template_set_supplier_name :: "json \<Rightarrow> string" where
  "datum_template_set_supplier_name sj =
     (case string_of sj ''name'' of None \<Rightarrow> '''' | Some nm \<Rightarrow> take 39 (filter (\<lambda>c. 0x20 \<le> code c \<and> code c \<le> 0x7e) nm))"

definition json_object_set :: "string \<Rightarrow> json \<Rightarrow> json \<Rightarrow> json" where
  "json_object_set key v j =
     (case j of JObject kvs \<Rightarrow>
        JObject (if key \<in> set (map fst kvs) then map (\<lambda>(k, x). if k = key then (k, v) else (k, x)) kvs else kvs @ [(key, v)])
      | _ \<Rightarrow> j)"

definition json_items :: "json option \<Rightarrow> json list" where
  "json_items j = (case j of Some (JArray xs) \<Rightarrow> xs | _ \<Rightarrow> [])"

definition fee_sum :: "json list \<Rightarrow> u64" where
  "fee_sum txs = fold (\<lambda>tx s. s + datum_json_u64 (json_object_get tx ''fee'')) txs 0"

definition swapped_tx :: "json \<Rightarrow> json option" where
  "swapped_tx tx =
     (case (string_of tx ''txid'', string_of tx ''data'') of
        (Some txid, Some s) \<Rightarrow>
          Some (JObject [(''data'', JString s), (''txid'', JString txid), (''hash'', JString txid),
            (''fee'', JInt (sint (datum_json_u64 (json_object_get tx ''fee'')))),
            (''weight'', JInt (sint (datum_json_u64 (json_object_get tx ''weight'')))), (''sigops'', JInt 0)])
      | _ \<Rightarrow> None)"

text \<open>The new answer, if the supplier builds on our block and lists its transactions.\<close>

definition datum_template_swap_from :: "json \<Rightarrow> json \<Rightarrow> string \<Rightarrow> json option" where
  "datum_template_swap_from res sj our_ph =
     (case (string_of sj ''previousblockhash'', json_object_get sj ''transactions'') of
        (Some sup_ph, Some (JArray sup_txs)) \<Rightarrow>
          if our_ph \<noteq> sup_ph then None
          else let our_cbv = datum_json_u64 (json_object_get res ''coinbasevalue'');
                   our_fees = fee_sum (json_items (json_object_get res ''transactions''));
                   subsidy = (if our_cbv \<ge> our_fees then our_cbv - our_fees else our_cbv);
                   new_txs = List.map_filter swapped_tx sup_txs;
                   sup_fees = fee_sum (filter (\<lambda>tx. swapped_tx tx \<noteq> None) sup_txs);
                   res = (case string_of sj ''default_witness_commitment'' of None \<Rightarrow> res | Some wc \<Rightarrow> json_object_set ''default_witness_commitment'' (JString wc) res);
                   res = json_object_set ''coinbasevalue'' (JInt (sint (subsidy + sup_fees))) res
               in Some (json_object_set ''transactions'' (JArray new_txs) res)
      | _ \<Rightarrow> None)"

lemma json_set_get:
  "json_object_get (json_object_set key v (JObject kvs)) k = (if k = key then Some v else json_object_get (JObject kvs) k)"
proof -
  have m: "map_of (map (\<lambda>(k, x). if k = key then (k, v) else (k, x)) kvs) k =
      (if k = key then (if key \<in> set (map fst kvs) then Some v else None) else map_of kvs k)" for kvs
    by (induction kvs) force+
  show ?thesis
  proof (cases "key \<in> set (map fst kvs)")
    case True
    then show ?thesis using m [of kvs] by (simp add: json_object_set_def json_object_get_def)
  next
    case False
    then have "map_of kvs key = None" by (simp add: map_of_eq_None_iff)
    then show ?thesis using False by (auto simp: json_object_set_def json_object_get_def map_add_def split: option.splits)
  qed
qed

lemma json_set_object: "\<exists>kvs'. json_object_set key v (JObject kvs) = JObject kvs'"
  by (auto simp: json_object_set_def)

lemma u64_of_sint: "datum_json_u64 (Some (JInt (sint (w :: u64)))) = w"
  by (simp add: datum_json_u64_def)

lemma swapped_tx_fee: "swapped_tx tx = Some tx' \<Longrightarrow> datum_json_u64 (json_object_get tx' ''fee'') = datum_json_u64 (json_object_get tx ''fee'')"
  by (auto simp: swapped_tx_def json_object_get_def u64_of_sint split: option.splits)

lemma fee_sum_swapped: "fold (\<lambda>tx s. s + datum_json_u64 (json_object_get tx ''fee'')) (List.map_filter swapped_tx txs) a =
    fold (\<lambda>tx s. s + datum_json_u64 (json_object_get tx ''fee'')) (filter (\<lambda>tx. swapped_tx tx \<noteq> None) txs) a"
  by (induction txs arbitrary: a) (auto simp: List.map_filter_simps swapped_tx_fee split: option.splits)

lemma parse_txns_fees:
  assumes "parse_txns (List.map_filter swapped_tx txs) ofs = Some ps"
  shows "fold (\<lambda>x s. s + x_fee_sats x) (map p_txn ps) a = fold (\<lambda>tx s. s + datum_json_u64 (json_object_get tx ''fee'')) (List.map_filter swapped_tx txs) a"
  using assms
proof (induction txs arbitrary: ofs ps a)
  case (Cons tx txs)
  show ?case
  proof (cases "swapped_tx tx")
    case None
    then show ?thesis using Cons by (simp add: List.map_filter_simps)
  next
    case (Some tx')
    then obtain p k qs where p: "parse_txn tx' ofs = Some (p, k)" "parse_txns (List.map_filter swapped_tx txs) k = Some qs" "ps = p # qs"
      using Cons.prems by (auto simp: List.map_filter_simps split: option.splits prod.splits)
    have "x_fee_sats (p_txn p) = datum_json_u64 (json_object_get tx' ''fee'')"
      using p(1) Some by (auto simp: parse_txn_def swapped_tx_def Let_def string_of_def int_of_def json_object_get_def json_string_value_def json_integer_value_def
          datum_json_u64_def split: option.splits if_splits)
    then show ?thesis using Cons.IH [OF p(2)] Some p(3) by (simp add: List.map_filter_simps)
  qed
qed (simp add: List.map_filter_simps)

lemma parse_numbers_fields:
  "parse_numbers gbt t = Some t' \<Longrightarrow> t_coinbasevalue t' = word_of_int (int_of gbt ''coinbasevalue'') \<and> t_height t' = word_of_int (int_of gbt ''height'')"
  by (auto simp: parse_numbers_def Let_def split: if_splits)

lemma with_keep:
  "t_coinbasevalue (with_transaction_count g t) = t_coinbasevalue t \<and> t_height (with_transaction_count g t) = t_height t"
  "t_coinbasevalue (with_time_offset g t) = t_coinbasevalue t \<and> t_height (with_time_offset g t) = t_height t"
  "t_coinbasevalue (with_clear_bits g t) = t_coinbasevalue t \<and> t_height (with_clear_bits g t) = t_height t"
  "t_coinbasevalue (with_keys g t) = t_coinbasevalue t \<and> t_height (with_keys g t) = t_height t"
  "t_coinbasevalue (with_time_rolling c t) = t_coinbasevalue t \<and> t_height (with_time_rolling c t) = t_height t"
  "t_coinbasevalue (datum_template_clear_header_fields t) = t_coinbasevalue t \<and> t_height (datum_template_clear_header_fields t) = t_height t"
  by (simp_all add: with_transaction_count_def with_time_offset_def with_clear_bits_def with_keys_def with_time_rolling_def
      datum_template_clear_header_fields_def split: option.split)

lemma header_fields_keep:
  "datum_gbt_parse_header_fields conf gbt t = (b, t') \<Longrightarrow> t_coinbasevalue t' = t_coinbasevalue t \<and> t_height t' = t_height t"
  by (auto simp: datum_gbt_parse_header_fields_def Let_def with_keep split: json.splits option.splits prod.splits if_splits)

lemma parse_header_keep: "parse_header conf gbt t = Some t' \<Longrightarrow> t_coinbasevalue t' = t_coinbasevalue t \<and> t_height t' = t_height t"
  by (auto simp: parse_header_def parse_headline_def guess_header_fields_def Let_def with_keep split: if_splits prod.splits dest!: header_fields_keep)

lemma parse_strings_fields:
  "parse_strings gbt t = Some t' \<Longrightarrow> t_coinbasevalue t' = t_coinbasevalue t \<and> t_height t' = t_height t \<and> string_of gbt ''previousblockhash'' = Some (t_previousblockhash t')"
  by (auto simp: parse_strings_def split: if_splits option.splits)

lemma parsed_fields:
  assumes "datum_gbt_parser conf gbt t = Parsed t' ps"
  obtains txs where "json_object_get gbt ''transactions'' = Some (JArray txs)" "parse_txns (take 16383 txs) (word_of_nat (TXN_STRUCT_SIZE * length txs)) = Some ps"
    "t_txns t' = map p_txn ps" "t_coinbasevalue t' = word_of_int (int_of gbt ''coinbasevalue'')" "string_of gbt ''previousblockhash'' = Some (t_previousblockhash t')"
    "t_height t' = word_of_int (int_of gbt ''height'')"
proof -
  note u = assms [unfolded datum_gbt_parser_def]
  obtain t1 where t1: "parse_numbers gbt (datum_template_clear t) = Some t1" using u by (cases "parse_numbers gbt (datum_template_clear t)") simp_all
  obtain t2 where t2: "parse_header conf gbt t1 = Some t2" using u by (cases "parse_header conf gbt t1") (simp_all add: t1)
  obtain t3 where t3: "parse_strings gbt t2 = Some t3" using u by (cases "parse_strings gbt t2") (simp_all add: t1 t2)
  note f = parse_numbers_fields [OF t1] parse_header_keep [OF t2] parse_strings_fields [OF t3]
  show thesis
    using u [unfolded t1 t2 t3 option.case] f by (auto intro: that split: option.splits json.splits)
qed

definition own_subsidy :: "json \<Rightarrow> u64" where
  "own_subsidy res = datum_json_u64 (json_object_get res ''coinbasevalue'') - fee_sum (json_items (json_object_get res ''transactions''))"

lemma swap_members:
  assumes sw: "datum_template_swap_from (JObject kvs) sj ph = Some res"
    and fees: "fee_sum (json_items (json_object_get (JObject kvs) ''transactions'')) \<le> datum_json_u64 (json_object_get (JObject kvs) ''coinbasevalue'')"
  obtains stxs where "json_object_get sj ''transactions'' = Some (JArray stxs)"
    "json_object_get res ''transactions'' = Some (JArray (List.map_filter swapped_tx stxs))"
    "json_object_get res ''coinbasevalue'' = Some (JInt (sint (own_subsidy (JObject kvs) + fee_sum (filter (\<lambda>tx. swapped_tx tx \<noteq> None) stxs))))"
    "\<And>k. k \<notin> {''transactions'', ''coinbasevalue'', ''default_witness_commitment''} \<Longrightarrow> json_object_get res k = json_object_get (JObject kvs) k"
proof -
  obtain stxs where st: "json_object_get sj ''transactions'' = Some (JArray stxs)" using sw by (auto simp: datum_template_swap_from_def split: option.splits json.splits)
  define v where "v = JInt (sint (own_subsidy (JObject kvs) + fee_sum (filter (\<lambda>tx. swapped_tx tx \<noteq> None) stxs)))"
  obtain kv1 where kv1: "res = json_object_set ''transactions'' (JArray (List.map_filter swapped_tx stxs)) (json_object_set ''coinbasevalue'' v (JObject kv1))"
    "\<And>k. k \<noteq> ''default_witness_commitment'' \<Longrightarrow> json_object_get (JObject kv1) k = json_object_get (JObject kvs) k"
  proof (cases "string_of sj ''default_witness_commitment''")
    case None
    then show ?thesis using sw st fees by (intro that [of kvs]) (auto simp: datum_template_swap_from_def Let_def own_subsidy_def v_def split: option.splits if_splits)
  next
    case (Some wc)
    obtain kv where kv: "json_object_set ''default_witness_commitment'' (JString wc) (JObject kvs) = JObject kv" using json_set_object by blast
    show ?thesis using sw st fees kv Some json_set_get [of "''default_witness_commitment''" "JString wc" kvs]
      by (intro that [of kv]) (auto simp: datum_template_swap_from_def Let_def own_subsidy_def v_def split: option.splits if_splits)
  qed
  obtain kv2 where kv2: "json_object_set ''coinbasevalue'' v (JObject kv1) = JObject kv2" using json_set_object by blast
  have get: "json_object_get res k = (if k = ''transactions'' then Some (JArray (List.map_filter swapped_tx stxs))
      else if k = ''coinbasevalue'' then Some v else json_object_get (JObject kv1) k)" for k
    using json_set_get [of "''coinbasevalue''" v kv1 k] unfolding kv1(1) kv2 by (simp add: json_set_get)
  show thesis by (rule that [OF st]) (use get kv1(2) in \<open>simp_all add: v_def\<close>)
qed

text \<open>C17: with a supplier's transactions in it the answer is parsed to a template on the same block and height, that pays, when all transactions
  are taken, the node's subsidy and exactly the fees of the transactions the template then holds.\<close>

theorem swap_pays_fees:
  assumes sw: "datum_template_swap_from (JObject kvs) sj ph = Some res" and ph: "string_of (JObject kvs) ''previousblockhash'' = Some ph"
    and p: "datum_gbt_parser conf res t = Parsed t' ps"
    and n: "length (json_items (json_object_get sj ''transactions'')) \<le> 16383"
    and fees: "fee_sum (json_items (json_object_get (JObject kvs) ''transactions'')) \<le> datum_json_u64 (json_object_get (JObject kvs) ''coinbasevalue'')"
  shows "t_coinbasevalue t' = own_subsidy (JObject kvs) + fold (\<lambda>x s. s + x_fee_sats x) (t_txns t') 0
    \<and> t_previousblockhash t' = ph \<and> t_height t' = word_of_int (int_of (JObject kvs) ''height'')"
proof -
  obtain stxs where st: "json_object_get sj ''transactions'' = Some (JArray stxs)"
    "json_object_get res ''transactions'' = Some (JArray (List.map_filter swapped_tx stxs))"
    "json_object_get res ''coinbasevalue'' = Some (JInt (sint (own_subsidy (JObject kvs) + fee_sum (filter (\<lambda>tx. swapped_tx tx \<noteq> None) stxs))))"
    "\<And>k. k \<notin> {''transactions'', ''coinbasevalue'', ''default_witness_commitment''} \<Longrightarrow> json_object_get res k = json_object_get (JObject kvs) k"
    by (rule swap_members [OF sw fees]) blast
  obtain txs where f: "json_object_get res ''transactions'' = Some (JArray txs)" "parse_txns (take 16383 txs) (word_of_nat (TXN_STRUCT_SIZE * length txs)) = Some ps"
    "t_txns t' = map p_txn ps" "t_coinbasevalue t' = word_of_int (int_of res ''coinbasevalue'')" "string_of res ''previousblockhash'' = Some (t_previousblockhash t')"
    "t_height t' = word_of_int (int_of res ''height'')"
    by (rule parsed_fields [OF p]) blast
  have txs: "txs = List.map_filter swapped_tx stxs" using f(1) st(2) by simp
  have "length (List.map_filter swapped_tx stxs) \<le> length stxs" by (simp add: List.map_filter_def)
  then have "take 16383 txs = List.map_filter swapped_tx stxs" using n st(1) by (simp add: txs json_items_def)
  then have "fold (\<lambda>x s. s + x_fee_sats x) (t_txns t') 0 = fee_sum (filter (\<lambda>tx. swapped_tx tx \<noteq> None) stxs)"
    using parse_txns_fees [of stxs _ ps 0] f(2) by (simp add: f(3) fee_sum_swapped fee_sum_def)
  then show ?thesis using f(4-6) ph st(3,4) by (simp add: string_of_def int_of_def json_integer_value_def)
qed

section \<open>An answer\<close>

definition ex_gbt_conf :: gbt_conf where "ex_gbt_conf = \<lparr>allow_hasher_time_rolling = False, pow_algorithm = ''sha256d''\<rparr>"

definition ex_members :: "(string \<times> json) list" where
  "ex_members =
     [(''height'', JInt 800000), (''mintime'', JInt 1), (''sigoplimit'', JInt 80000), (''curtime'', JInt 2), (''sizelimit'', JInt 4000000),
      (''weightlimit'', JInt 4000000), (''version'', JInt 2), (''bits'', JString ''00000000''), (''previousblockhash'', JString (replicate 64 CHR ''0'')),
      (''target'', JString (replicate 64 CHR ''0''))]"

definition ex_gbt :: "int \<Rightarrow> string \<Rightarrow> json list \<Rightarrow> (string \<times> json) list" where
  "ex_gbt cbv wc txs = ex_members @ [(''coinbasevalue'', JInt cbv), (''default_witness_commitment'', JString wc), (''transactions'', JArray txs)]"

definition ex_tx :: "int \<Rightarrow> json" where
  "ex_tx fee = JObject [(''data'', JString ''0000''), (''txid'', JString (replicate 64 CHR ''0'')), (''hash'', JString (replicate 64 CHR ''0'')),
     (''fee'', JInt fee), (''weight'', JInt 8), (''sigops'', JInt 0)]"

lemma ex_get:
  "json_object_get (JObject (ex_gbt cbv wc txs)) ''transactions'' = Some (JArray txs)"
  "json_object_get (JObject (ex_gbt cbv wc txs)) ''coinbasevalue'' = Some (JInt cbv)"
  "json_object_get (JObject (ex_gbt cbv wc txs)) ''previousblockhash'' = Some (JString (replicate 64 CHR ''0''))"
  by (simp_all add: json_object_get_def ex_gbt_def ex_members_def)

lemma ex_bits: "nbits_to_target (upk_u32le (hex_to_bin_le ''00000000'') 0) \<noteq> None"
proof -
  have "hex2bin_uchar (CHR ''0'') (CHR ''0'') = 0" using hex2bin_hexd [of 0 0] by (simp add: hexd_def)
  then have "hex_to_bin_le ''00000000'' = [0, 0, 0, 0]" by (simp add: hex_to_bin_le_rev)
  then show ?thesis by (simp add: upk_u32le_def nbits_to_target_def Let_def)
qed

lemma ex_parses_fields:
  assumes "word_of_int cbv \<noteq> (0 :: u64)" "38 \<le> length wc" "length wc \<le> 95" "parse_txns (take 16383 txs) (word_of_nat (TXN_STRUCT_SIZE * length txs)) = Some ps"
  shows "\<exists>t'. datum_gbt_parser ex_gbt_conf (JObject (ex_gbt cbv wc txs)) t = Parsed t' ps \<and> t_header_version t' = 0 \<and> t_bits_bin t' = hex_to_bin_le ''00000000''
    \<and> t_txns t' = map p_txn ps"
proof -
  let ?g = "JObject (ex_gbt cbv wc txs)"
  obtain t1 where t1: "parse_numbers ?g (datum_template_clear t) = Some t1" "t_version t1 = 2" "t_header_version t1 = 0"
    using assms(1) by (simp add: parse_numbers_def Let_def int_of_def json_integer_value_def json_object_get_def ex_gbt_def ex_members_def datum_template_clear_def datum_template_clear_header_fields_def)
  have "\<not> wants_blake2b ex_gbt_conf ?g 2" by (simp add: wants_blake2b_def json_object_get_def ex_gbt_def ex_members_def ex_gbt_conf_def)
  then have g: "t_header_version (guess_header_fields ex_gbt_conf ?g t1) = 0" using t1(2,3) by (simp add: guess_header_fields_def Let_def)
  have "\<not> has_key ?g ''powalgorithm'' \<and> \<not> has_key ?g ''header_version''" by (simp add: has_key_def json_object_get_def ex_gbt_def ex_members_def)
  then obtain t2 where t2: "parse_header ex_gbt_conf ?g t1 = Some t2" "t_header_version t2 = 0" using g by (simp add: parse_header_def parse_headline_def)
  obtain tgt where tgt: "nbits_to_target (upk_u32le (hex_to_bin_le ''00000000'') 0) = Some tgt" using ex_bits by blast
  obtain t3 where t3: "parse_strings ?g t2 = Some t3" "t_bits_uint t3 = upk_u32le (hex_to_bin_le ''00000000'') 0" "t_header_version t3 = 0"
    "t_bits_bin t3 = hex_to_bin_le ''00000000''"
    using assms(2,3) t2(2) by (simp add: parse_strings_def string_of_def json_string_value_def json_object_get_def ex_gbt_def ex_members_def)
  show ?thesis
    unfolding datum_gbt_parser_def t1 t2 t3 tgt option.case ex_get using assms(4) t3(3,4) by simp
qed

lemma ex_parses:
  assumes "word_of_int cbv \<noteq> (0 :: u64)" "38 \<le> length wc" "length wc \<le> 95" "parse_txns (take 16383 txs) (word_of_nat (TXN_STRUCT_SIZE * length txs)) = Some ps"
  shows "\<exists>t'. datum_gbt_parser ex_gbt_conf (JObject (ex_gbt cbv wc txs)) t = Parsed t' ps"
  using ex_parses_fields [OF assms] by blast

lemma ex_tx_parses: "\<exists>p k. parse_txn (ex_tx fee) 256 = Some (p, k)"
  by (simp add: parse_txn_def ex_tx_def string_of_def json_string_value_def json_object_get_def LOCAL_DATA_SIZE_def TXN_STRUCT_SIZE_def MAX_BLOCK_SIZE_BYTES_def Let_def)

lemma null_refused: "datum_gbt_parser conf JNull t = Refused"
  by (simp add: datum_gbt_parser_def parse_numbers_def Let_def int_of_def json_object_get_def)

lemma many_null: "\<exists>R. parse_many conf blank (replicate n JNull) P = Some R"
proof (induction n arbitrary: P)
  case (Suc n)
  show ?case using Suc by (simp add: parse_into_pool_def null_refused Let_def split: option.split)
qed simp

theorem template_slot_kept_witness:
  "\<exists>Q t R R'. parse_into_pool ex_gbt_conf blank (JObject (ex_gbt 5 (replicate 40 CHR ''0'') [])) \<lparr>tp_next = 0, tp_slots = (\<lambda>_. None)\<rparr> = Some (Q, Some t)
     \<and> parse_many ex_gbt_conf blank (replicate 31 JNull) Q = Some R \<and> parse_into_pool ex_gbt_conf blank JNull R = Some (R', None)
     \<and> tp_slots R 0 = Some t \<and> tp_slots R' 0 = None"
proof -
  let ?P = "\<lparr>tp_next = 0, tp_slots = (\<lambda>_. None)\<rparr>"
  obtain t where "datum_gbt_parser ex_gbt_conf (JObject (ex_gbt 5 (replicate 40 CHR ''0'') [])) blank = Parsed t []"
    using ex_parses [of 5 "replicate 40 CHR ''0''" "[]" "[]" blank] by auto
  then obtain Q where Q: "parse_into_pool ex_gbt_conf blank (JObject (ex_gbt 5 (replicate 40 CHR ''0'') [])) ?P = Some (Q, Some t)"
    by (simp add: parse_into_pool_def Let_def)
  obtain R where R: "parse_many ex_gbt_conf blank (replicate 31 JNull) Q = Some R" using many_null by blast
  obtain R' where R': "parse_into_pool ex_gbt_conf blank JNull R = Some (R', None)" by (simp add: parse_into_pool_def null_refused Let_def)
  have z: "tp_next ?P < MAX_TEMPLATES_IN_MEMORY" by (simp add: MAX_TEMPLATES_IN_MEMORY_def)
  have "tp_slots R (tp_next ?P) = Some t \<and> (length (replicate 31 JNull) = 31 \<and> parse_into_pool ex_gbt_conf blank JNull R = Some (R', None) \<longrightarrow> tp_slots R' (tp_next ?P) = None)"
    by (rule template_slot_kept [OF Q z R]) simp
  then show ?thesis using Q R R' by auto
qed

lemma ex_tx_small: "data_small (ex_tx fee)"
  by (simp add: data_small_def string_of_def ex_tx_def json_object_get_def json_string_value_def)

theorem gbt_transactions_fit_witness:
  "\<exists>p. laid_out 256 LOCAL_DATA_SIZE [p]"
proof -
  obtain p k where p: "parse_txn (ex_tx 3) 256 = Some (p, k)" using ex_tx_parses by blast
  obtain t' where t': "datum_gbt_parser ex_gbt_conf (JObject (ex_gbt 5 (replicate 40 CHR ''0'') [ex_tx 3])) undefined = Parsed t' [p]"
    using ex_parses [of 5 "replicate 40 CHR ''0''" "[ex_tx 3]" "[p]" undefined] p by (auto simp: TXN_STRUCT_SIZE_def)
  show ?thesis
    using gbt_transactions_fit [OF t' ex_get(1)] ex_tx_small by (auto simp: TXN_STRUCT_SIZE_def)
qed

definition ex_supplier :: json where
  "ex_supplier = JObject [(''previousblockhash'', JString (replicate 64 CHR ''0'')), (''transactions'', JArray [ex_tx 7])]"

definition ex_swapped :: json where
  "ex_swapped = JObject [(''data'', JString ''0000''), (''txid'', JString (replicate 64 CHR ''0'')),
      (''hash'', JString (replicate 64 CHR ''0'')), (''fee'', JInt 7), (''weight'', JInt 8), (''sigops'', JInt 0)]"

lemma ex_swapped_tx: "swapped_tx (ex_tx 7) = Some ex_swapped"
  by (simp add: swapped_tx_def ex_tx_def ex_swapped_def string_of_def json_object_get_def json_string_value_def datum_json_u64_def)

lemma ex_fee: "datum_json_u64 (json_object_get (ex_tx n) ''fee'') = word_of_int n"
  by (simp add: ex_tx_def json_object_get_def datum_json_u64_def)

lemma ex_ours: "fee_sum (json_items (Some (JArray [ex_tx 3]))) = 3" "datum_json_u64 (Some (JInt 100)) = 100"
  by (simp add: fee_sum_def json_items_def ex_fee, simp add: datum_json_u64_def)

lemma ex_swap: "datum_template_swap_from (JObject (ex_gbt 100 (replicate 40 CHR ''0'') [ex_tx 3])) ex_supplier (replicate 64 CHR ''0'')
    = Some (JObject (ex_gbt 104 (replicate 40 CHR ''0'') [ex_swapped]))"
proof -
  have "json_object_get ex_supplier ''transactions'' = Some (JArray [ex_tx 7])" "string_of ex_supplier ''default_witness_commitment'' = None"
    "string_of ex_supplier ''previousblockhash'' = Some (replicate 64 CHR ''0'')"
    by (simp_all add: ex_supplier_def json_object_get_def string_of_def json_string_value_def)
  moreover have "fee_sum [ex_tx 7] = 7" by (simp add: fee_sum_def ex_fee)
  ultimately show ?thesis
    by (simp add: datum_template_swap_from_def ex_get ex_ours ex_swapped_tx List.map_filter_simps)
       (simp add: ex_gbt_def ex_members_def json_object_set_def)
qed

theorem swap_pays_fees_witness:
  "\<exists>res t' ps. datum_template_swap_from (JObject (ex_gbt 100 (replicate 40 CHR ''0'') [ex_tx 3])) ex_supplier (replicate 64 CHR ''0'') = Some res
     \<and> datum_gbt_parser ex_gbt_conf res undefined = Parsed t' ps \<and> t_coinbasevalue t' = 104 \<and> map x_fee_sats (t_txns t') = [7]"
proof -
  let ?g = "JObject (ex_gbt 100 (replicate 40 CHR ''0'') [ex_tx 3])"
  obtain p k where p: "parse_txn ex_swapped 256 = Some (p, k)" using ex_tx_parses [of 7] by (auto simp: ex_swapped_def ex_tx_def)
  obtain t' where t': "datum_gbt_parser ex_gbt_conf (JObject (ex_gbt 104 (replicate 40 CHR ''0'') [ex_swapped])) undefined = Parsed t' [p]"
    using ex_parses [of 104 "replicate 40 CHR ''0''" "[ex_swapped]" "[p]" undefined] p by (auto simp: TXN_STRUCT_SIZE_def)
  have "t_coinbasevalue t' = own_subsidy ?g + fold (\<lambda>x s. s + x_fee_sats x) (t_txns t') 0 \<and> t_previousblockhash t' = replicate 64 CHR ''0''
      \<and> t_height t' = word_of_int (int_of ?g ''height'')"
    by (rule swap_pays_fees [OF ex_swap _ t']) (simp_all add: ex_get string_of_def json_string_value_def ex_ours,
        simp add: ex_supplier_def json_object_get_def json_items_def)
  moreover have "x_fee_sats (p_txn p) = 7"
    using p by (auto simp: ex_swapped_def parse_txn_def string_of_def json_object_get_def json_string_value_def Let_def int_of_def json_integer_value_def split: if_splits)
  moreover have "t_txns t' = [p_txn p]" by (rule parsed_fields [OF t']) simp
  moreover have "own_subsidy ?g = 97" by (simp add: own_subsidy_def ex_get ex_ours)
  ultimately show ?thesis using ex_swap t' by fastforce
qed

section \<open>A key with a wrong digit\<close>

fun good_pairs :: "string \<Rightarrow> nat" where
  "good_pairs (c0 # c1 # s) = (if datum_hex_nibble c0 < 0 \<or> datum_hex_nibble c1 < 0 then 0 else Suc (good_pairs s))"
| "good_pairs s = 0"

lemma decode_into_prefix:
  "length s = 2 * length out \<Longrightarrow> decode_hex_into s out = take (good_pairs s) (hex_to_bin s) @ drop (good_pairs s) out"
  by (induction s out rule: decode_hex_into.induct) auto

lemma try_hex_field_key:
  "string_of gbt key = Some s \<Longrightarrow> length s = 2 * length out \<Longrightarrow>
   snd (datum_gbt_try_hex_field gbt key out) = take (good_pairs s) (hex_to_bin s) @ drop (good_pairs s) out"
  by (simp add: datum_gbt_try_hex_field_def decode_into_prefix mult.commute)

lemma with_keep_key:
  "t_xor_key (with_transaction_count g t) = t_xor_key t" "t_xor_key (with_time_offset g t) = t_xor_key t"
  "t_xor_key (with_clear_bits g t) = t_xor_key t" "t_xor_key (with_time_rolling c t) = t_xor_key t"
  "t_xor_key (with_keys g t) = snd (datum_gbt_try_hex_field g ''xor_key'' (t_xor_key t))"
  by (simp_all add: with_transaction_count_def with_time_offset_def with_clear_bits_def with_keys_def with_time_rolling_def split: option.split)

text \<open>A wrong digit in the mask key of an answer does not refuse the answer: an accepted header with a version has the bytes before the first
  wrong pair as its key, the rest of it zero.\<close>

theorem header_key_prefix:
  assumes "datum_gbt_parse_header_fields conf (JObject kvs) t = (True, t')" "t_header_version t' \<noteq> 0"
    "string_of (JObject kvs) ''xor_key'' = Some s" "length s = 32"
  shows "t_xor_key t' = take (good_pairs s) (hex_to_bin s) @ replicate (16 - good_pairs s) 0"
  using assms
  by (auto simp: datum_gbt_parse_header_fields_def Let_def with_keep_key datum_template_clear_header_fields_def try_hex_field_key drop_replicate
      split: option.splits if_splits)

definition ex_bad_key :: string where "ex_bad_key = ''00zz'' @ replicate 28 CHR ''0''"

theorem header_key_prefix_witness:
  "\<exists>t'. datum_gbt_parse_header_fields ex_gbt_conf (JObject [(''header_version'', JInt 2), (''xor_key'', JString ex_bad_key)]) undefined = (True, t')
     \<and> t_xor_key t' = replicate 16 0"
proof -
  let ?g = "JObject [(''header_version'', JInt 2), (''xor_key'', JString ex_bad_key)]"
  have v: "header_version_of ?g = Some (2, False)" by (simp add: header_version_of_def json_object_get_def)
  have f: "header_flags_of ?g = Some 0" by (simp add: header_flags_of_def json_object_get_def has_key_def)
  obtain t' where t': "datum_gbt_parse_header_fields ex_gbt_conf ?g undefined = (True, t')" "t_header_version t' = 2"
    by (simp add: datum_gbt_parse_header_fields_def Let_def v f with_transaction_count_def with_time_offset_def with_clear_bits_def
        with_keys_def with_time_rolling_def ex_gbt_conf_def integer_at_def json_object_get_def)
  have k: "string_of ?g ''xor_key'' = Some ex_bad_key" "length ex_bad_key = 32"
    by (simp_all add: string_of_def json_object_get_def json_string_value_def ex_bad_key_def)
  have "hex2bin_uchar (CHR ''0'') (CHR ''0'') = 0" using hex2bin_hexd [of 0 0] by (simp add: hexd_def)
  moreover have "good_pairs ex_bad_key = 1" by (simp add: ex_bad_key_def datum_hex_nibble_def)
  moreover have "(0 :: u8) # replicate 15 0 = replicate 16 0" by (simp add: numeral_eq_Suc)
  ultimately have "t_xor_key t' = replicate 16 0"
    using header_key_prefix [OF t'(1) _ k] t'(2) by (simp add: ex_bad_key_def)
  then show ?thesis using t' by blast
qed

end
