(* ===== verification/Carousel.thy ===== *)
theory Carousel
  imports Gbt "HOL-Library.List_Lexorder"
begin

text \<open>
  The exchange of the node's transactions for a supplier's, \<^verbatim>\<open>datum_template_apply_supplier\<close> of
  \<^verbatim>\<open>src/src/datum_blocktemplates.c\<close>: the height of activation, the mode with one supplier, and the carousel, that serves
  the suppliers with a fresh template in turn. Files are arguments: the listing of the directory with what each file holds when it is
  tested, and what a path holds when the file of the turn is loaded. \<open>blake\<close> is the hash of libsodium, \<open>buf\<close> what its buffer held.
\<close>

section \<open>State\<close>

definition CAROUSEL_MAX_SET :: nat where "CAROUSEL_MAX_SET = 4096"

record carousel_conf =
  cc_template :: bool
  cc_activate_height :: int
  cc_activate_tag :: string
  cc_carousel :: bool
  cc_dir :: string
  cc_block_stride :: int
  cc_require_validated :: bool
  cc_file :: string
  cc_supplier_address :: string

record rotation =
  rot_prevhash :: string
  rot_height :: u64
  rot_updated :: u64
  rot_active :: bool
  rot_activate_height :: u64
  rot_cycle :: u32
  rot_n :: nat
  rot_n_prev_block :: nat
  rot_start :: nat
  rot_idx :: int
  rot_skipped :: nat
  rot_failed :: bool
  rot_pick :: string
  rot_set_hash :: string
  rot_set :: "string list"

text \<open>
  The rotation as the API shows it, the supplier and name that the next job takes, and the static variables of the function; the
  hash of the last set logged is left out.
\<close>

record carousel =
  cr_rot :: rotation
  cr_supplier :: string
  cr_supplier_name :: string
  cr_activated :: bool
  cr_tag_primary :: string
  cr_prev :: string
  cr_cycle :: u32

record files =
  fs_listing :: "(string \<times> json option) list option"
  fs_load :: "string \<Rightarrow> json option"

definition no_supplier :: "carousel \<Rightarrow> carousel" where
  "no_supplier C = C\<lparr>cr_supplier := '''', cr_supplier_name := ''''\<rparr>"

section \<open>The fresh set\<close>

definition carousel_cache_fresh :: "carousel_conf \<Rightarrow> string \<Rightarrow> json option \<Rightarrow> bool" where
  "carousel_cache_fresh conf our_ph file =
     (case file of None \<Rightarrow> False
      | Some sj \<Rightarrow>
          string_of sj ''previousblockhash'' = Some our_ph
          \<and> (case json_object_get sj ''transactions'' of Some (JArray _) \<Rightarrow> True | _ \<Rightarrow> False)
          \<and> json_object_get sj ''stale'' \<noteq> Some (JBool True)
          \<and> (cc_require_validated conf \<longrightarrow>
               (case json_object_get sj ''validated'' of None \<Rightarrow> False | Some v \<Rightarrow> json_object_get v ''proposal'' = Some (JBool True))))"

definition json_file_name :: "string \<Rightarrow> bool" where
  "json_file_name f \<longleftrightarrow> length f > 5 \<and> length f \<le> 132 \<and> drop (length f - 5) f = ''.json''"

definition supplier_name :: "string \<Rightarrow> string" where
  "supplier_name f = take (min (length f - 5) 127) f"

definition fresh_names :: "carousel_conf \<Rightarrow> string \<Rightarrow> (string \<times> json option) list \<Rightarrow> string list" where
  "fresh_names conf our_ph entries =
     map (\<lambda>e. supplier_name (fst e)) (filter (\<lambda>e. json_file_name (fst e) \<and> carousel_cache_fresh conf our_ph (snd e)) entries)"

text \<open>The loop over the directory stops when the set is full; then the set is sorted, bytewise like \<^verbatim>\<open>strcmp\<close>.\<close>

definition carousel_set :: "carousel_conf \<Rightarrow> string \<Rightarrow> (string \<times> json option) list \<Rightarrow> string list" where
  "carousel_set conf our_ph entries = sort_key (map code) (take CAROUSEL_MAX_SET (fresh_names conf our_ph entries))"

definition hashed :: "(bytes \<Rightarrow> bytes option) \<Rightarrow> bytes \<Rightarrow> string \<Rightarrow> bytes" where
  "hashed blake buf s = (case datum_blake2b_256 blake (map byte_of s) of None \<Rightarrow> buf | Some h \<Rightarrow> h)"

definition set_hash_of :: "(bytes \<Rightarrow> bytes option) \<Rightarrow> bytes \<Rightarrow> string list \<Rightarrow> string" where
  "set_hash_of blake buf names = hex_of (take 8 (hashed blake buf (concat (map (\<lambda>nm. nm @ [CHR 0x0A]) names))))"

definition carousel_start :: "carousel_conf \<Rightarrow> (bytes \<Rightarrow> bytes option) \<Rightarrow> bytes \<Rightarrow> u64 \<Rightarrow> string \<Rightarrow> nat \<Rightarrow> nat" where
  "carousel_start conf blake buf block_height our_ph n =
     (if cc_block_stride conf > 0 then unat (block_height * word_of_int (cc_block_stride conf)) mod n
      else unat (fold (\<lambda>b s. push_bit 8 s OR ucast b) (take 8 (hashed blake buf our_ph)) (0 :: u64)) mod n)"

section \<open>A turn\<close>

definition carousel_rot_publish ::
  "u64 \<Rightarrow> string \<Rightarrow> u64 \<Rightarrow> u32 \<Rightarrow> nat \<Rightarrow> nat \<Rightarrow> int \<Rightarrow> bool \<Rightarrow> string \<Rightarrow> string \<Rightarrow> string list \<Rightarrow> carousel \<Rightarrow> carousel" where
  "carousel_rot_publish now our_ph block_height cycle n start idx failed pick set_hash names C =
     C\<lparr>cr_rot := (cr_rot C)\<lparr>rot_prevhash := take 79 our_ph, rot_height := block_height, rot_cycle := cycle, rot_n := n, rot_start := start,
         rot_idx := idx, rot_skipped := 0, rot_failed := failed, rot_pick := take 127 pick, rot_set_hash := take 16 set_hash,
         rot_set := map (take 127) (take n names), rot_updated := now\<rparr>\<rparr>"

definition begin_cycle :: "string \<Rightarrow> carousel \<Rightarrow> carousel" where
  "begin_cycle our_ph C =
     (if cr_prev C \<noteq> our_ph
      then C\<lparr>cr_prev := take 79 our_ph, cr_cycle := 0, cr_rot := (cr_rot C)\<lparr>rot_n_prev_block := rot_n (cr_rot C)\<rparr>\<rparr>
      else C\<lparr>cr_cycle := cr_cycle C + 1\<rparr>)"

definition json_path :: "carousel_conf \<Rightarrow> string \<Rightarrow> string" where
  "json_path conf nm = take 639 (cc_dir conf @ ''/'' @ nm @ ''.json'')"

text \<open>The answer with the supplier's transactions, if its file loads and fits, else \<open>None\<close>.\<close>

definition supplier_answer :: "carousel_conf \<Rightarrow> files \<Rightarrow> string \<Rightarrow> json \<Rightarrow> string \<Rightarrow> (json \<times> string) option" where
  "supplier_answer conf F our_ph res nm =
     (case fs_load F (json_path conf nm) of None \<Rightarrow> None
      | Some sj \<Rightarrow> map_option (\<lambda>r. (r, datum_template_set_supplier_name sj)) (datum_template_swap_from res sj our_ph))"

definition carousel_turn ::
  "carousel_conf \<Rightarrow> (bytes \<Rightarrow> bytes option) \<Rightarrow> bytes \<Rightarrow> u64 \<Rightarrow> files \<Rightarrow> string \<Rightarrow> json \<Rightarrow> carousel \<Rightarrow> json \<times> carousel" where
  "carousel_turn conf blake buf now F our_ph res C =
     (let block_height = datum_json_u64 (json_object_get res ''height'');
          C = begin_cycle our_ph C
      in case fs_listing F of None \<Rightarrow> (res, no_supplier C)
       | Some entries \<Rightarrow>
          (let names = carousel_set conf our_ph entries; n = length names
           in if n = 0 then (res, carousel_rot_publish now our_ph block_height (cr_cycle C) 0 0 (-1) False '''' '''' names (no_supplier C))
              else let set_hash = set_hash_of blake buf names;
                       start = carousel_start conf blake buf block_height our_ph n;
                       idx = (start + unat (cr_cycle C)) mod n
                   in case supplier_answer conf F our_ph res (names ! idx) of
                        None \<Rightarrow> (res, carousel_rot_publish now our_ph block_height (cr_cycle C) n start (int idx) True '''' set_hash names (no_supplier C))
                      | Some (r, nm) \<Rightarrow> (r, carousel_rot_publish now our_ph block_height (cr_cycle C) n start (int idx) False (names ! idx) set_hash names
                            (C\<lparr>cr_supplier := take 127 (names ! idx), cr_supplier_name := nm\<rparr>))))"

section \<open>The whole function\<close>

text \<open>Whether the template mode is active at this height.\<close>

definition activation :: "carousel_conf \<Rightarrow> u64 \<Rightarrow> u64 \<Rightarrow> carousel \<Rightarrow> bool \<times> carousel" where
  "activation conf now th C =
     (if cc_activate_height conf > 0
      then if th < word_of_int (cc_activate_height conf)
           then (False, (no_supplier C)\<lparr>cr_rot := (cr_rot C)\<lparr>rot_active := False, rot_activate_height := word_of_int (cc_activate_height conf),
                   rot_height := th, rot_n := 0, rot_set := [], rot_idx := -1, rot_pick := '''', rot_updated := now\<rparr>\<rparr>)
           else if \<not> cr_activated C
           then (True, C\<lparr>cr_activated := True, cr_tag_primary := (if cc_activate_tag conf \<noteq> '''' then take 63 (cc_activate_tag conf) else cr_tag_primary C),
                   cr_rot := (cr_rot C)\<lparr>rot_active := True, rot_activate_height := word_of_int (cc_activate_height conf)\<rparr>\<rparr>)
           else (True, C)
      else (True, C\<lparr>cr_rot := (cr_rot C)\<lparr>rot_active := True\<rparr>\<rparr>))"

definition single_supplier :: "carousel_conf \<Rightarrow> files \<Rightarrow> string \<Rightarrow> json \<Rightarrow> carousel \<Rightarrow> json \<times> carousel" where
  "single_supplier conf F our_ph res C =
     (if cc_file conf = '''' then (res, C)
      else case fs_load F (cc_file conf) of None \<Rightarrow> (res, C\<lparr>cr_supplier_name := ''''\<rparr>)
       | Some sj \<Rightarrow>
          (let nm = datum_template_set_supplier_name sj;
               nm = (if nm = '''' \<and> cc_supplier_address conf \<noteq> '''' then take 8 (cc_supplier_address conf) else nm)
           in (case datum_template_swap_from res sj our_ph of None \<Rightarrow> res | Some r \<Rightarrow> r, C\<lparr>cr_supplier_name := nm\<rparr>)))"

definition datum_template_apply_supplier ::
  "carousel_conf \<Rightarrow> (bytes \<Rightarrow> bytes option) \<Rightarrow> bytes \<Rightarrow> u64 \<Rightarrow> files \<Rightarrow> json \<Rightarrow> carousel \<Rightarrow> json \<times> carousel" where
  "datum_template_apply_supplier conf blake buf now F res C =
     (if \<not> cc_template conf then (res, C)
      else case string_of res ''previousblockhash'' of None \<Rightarrow> (res, C)
       | Some our_ph \<Rightarrow>
          (let (on, C) = activation conf now (datum_json_u64 (json_object_get res ''height'')) C
           in if \<not> on then (res, C)
              else if cc_carousel conf \<and> cc_dir conf \<noteq> '''' then carousel_turn conf blake buf now F our_ph res C
              else single_supplier conf F our_ph res C))"

section \<open>The set depends on the files alone\<close>

lemma inj_codes: "inj (map code)"
  by (simp add: inj_map_eq_map inj_def)

lemma sort_key_inj:
  assumes "inj (f :: 'a \<Rightarrow> 'b :: linorder)" "mset xs = mset ys"
  shows "sort_key f xs = sort_key f ys"
proof -
  have "map f (sort_key f zs) = sort (map f zs)" for zs
    by (rule sym, rule properties_for_sort) simp_all
  moreover have "sort (map f xs) = sort (map f ys)"
    by (rule properties_for_sort) (simp_all add: assms(2))
  ultimately show ?thesis using assms(1) by (metis inj_map_eq_map)
qed

lemma json_file_split: "json_file_name f \<Longrightarrow> f = supplier_name f @ ''.json'' \<and> length (supplier_name f) \<le> 127"
  using append_take_drop_id [of "length f - 5" f] by (auto simp: json_file_name_def supplier_name_def)

lemma json_file_inj: "json_file_name f \<Longrightarrow> json_file_name g \<Longrightarrow> supplier_name f = supplier_name g \<Longrightarrow> f = g"
  by (metis json_file_split)

text \<open>With at most 4096 fresh suppliers the set, in the order in which they are served, does not depend on the order in which the directory
  lists the files; it holds every fresh supplier exactly once, in ascending order.\<close>

theorem carousel_set_canonical:
  assumes "mset entries = mset entries'" "length (fresh_names conf ph entries) \<le> CAROUSEL_MAX_SET" "distinct (map fst entries)"
  shows "carousel_set conf ph entries = carousel_set conf ph entries'
    \<and> set (carousel_set conf ph entries) = set (fresh_names conf ph entries) \<and> distinct (carousel_set conf ph entries)
    \<and> sorted (map (map code) (carousel_set conf ph entries))"
proof -
  have m: "mset (fresh_names conf ph entries) = mset (fresh_names conf ph entries')"
    using assms(1) by (simp add: fresh_names_def)
  then have l: "length (fresh_names conf ph entries') \<le> CAROUSEL_MAX_SET" using assms(2) by (metis size_mset)
  have "inj_on (\<lambda>e. supplier_name (fst e)) (set (filter (\<lambda>e. json_file_name (fst e) \<and> carousel_cache_fresh conf ph (snd e)) entries))"
    using assms(3) json_file_inj by (simp add: inj_on_def distinct_map)
  then have "distinct (fresh_names conf ph entries)"
    using assms(3) by (auto simp: fresh_names_def distinct_map intro: distinct_filter)
  moreover have "set (fresh_names conf ph entries) = set (fresh_names conf ph entries')" "distinct (fresh_names conf ph entries) = distinct (fresh_names conf ph entries')"
    by (rule mset_eq_setD [OF m], rule mset_eq_imp_distinct_iff [OF m])
  ultimately show ?thesis using sort_key_inj [OF inj_codes m] assms(2) l by (simp add: carousel_set_def)
qed

section \<open>Every supplier in turn\<close>

text \<open>Some calls of the function, each with its time, files and answer; the answers and states it gives.\<close>

fun calls :: "carousel_conf \<Rightarrow> (bytes \<Rightarrow> bytes option) \<Rightarrow> bytes \<Rightarrow> (u64 \<times> files \<times> json) list \<Rightarrow> carousel \<Rightarrow> (json \<times> carousel) list" where
  "calls conf blake buf [] C = []"
| "calls conf blake buf ((now, F, res) # ins) C =
     (let (r, C') = datum_template_apply_supplier conf blake buf now F res C in (r, C') # calls conf blake buf ins C')"

text \<open>A call on a block of a given hash and height while the fresh set is \<open>ns\<close>.\<close>

definition same_set :: "carousel_conf \<Rightarrow> string \<Rightarrow> u64 \<Rightarrow> string list \<Rightarrow> u64 \<times> files \<times> json \<Rightarrow> bool" where
  "same_set conf ph h ns inp \<longleftrightarrow>
     string_of (snd (snd inp)) ''previousblockhash'' = Some ph \<and> datum_json_u64 (json_object_get (snd (snd inp)) ''height'') = h
     \<and> (case fs_listing (fst (snd inp)) of None \<Rightarrow> False | Some entries \<Rightarrow> carousel_set conf ph entries = ns)"

definition carousel_on :: "carousel_conf \<Rightarrow> u64 \<Rightarrow> bool" where
  "carousel_on conf h \<longleftrightarrow> cc_template conf \<and> cc_carousel conf \<and> cc_dir conf \<noteq> ''''
     \<and> (cc_activate_height conf \<le> 0 \<or> word_of_int (cc_activate_height conf) \<le> h)"

definition first_cycle :: "string \<Rightarrow> carousel \<Rightarrow> u32" where
  "first_cycle ph C = (if cr_prev C \<noteq> ph then 0 else cr_cycle C + 1)"

lemma activation_on: "cc_activate_height conf \<le> 0 \<or> word_of_int (cc_activate_height conf) \<le> h \<Longrightarrow>
    \<exists>C'. activation conf now h C = (True, C') \<and> cr_prev C' = cr_prev C \<and> cr_cycle C' = cr_cycle C"
  by (auto simp: activation_def)

lemma carousel_set_short: "nm \<in> set (carousel_set conf ph entries) \<Longrightarrow> length nm \<le> 127"
  using json_file_split by (auto simp: carousel_set_def fresh_names_def dest!: in_set_takeD)

text \<open>The supplier of the turn: scheduled in any case, served if its template can be used.\<close>

lemma turn_schedule:
  assumes "carousel_on conf h" "same_set conf ph h ns (now, F, res)" "ns \<noteq> []" "length ph \<le> 79"
    "datum_template_apply_supplier conf blake buf now F res C = (r, C')"
  shows "cr_prev C' = ph \<and> cr_cycle C' = first_cycle ph C
    \<and> rot_idx (cr_rot C') = int ((carousel_start conf blake buf h ph (length ns) + unat (first_cycle ph C)) mod length ns)
    \<and> (case supplier_answer conf F ph res (ns ! nat (rot_idx (cr_rot C'))) of
         None \<Rightarrow> r = res \<and> cr_supplier C' = '''' \<and> cr_supplier_name C' = '''' \<and> rot_failed (cr_rot C')
       | Some (r', nm) \<Rightarrow> r = r' \<and> cr_supplier C' = ns ! nat (rot_idx (cr_rot C')) \<and> cr_supplier_name C' = nm \<and> \<not> rot_failed (cr_rot C'))"
proof -
  obtain entries where e: "fs_listing F = Some entries" "carousel_set conf ph entries = ns" using assms(2) by (auto simp: same_set_def split: option.splits)
  obtain A where A: "activation conf now h C = (True, A)" "cr_prev A = cr_prev C" "cr_cycle A = cr_cycle C"
    using activation_on assms(1) unfolding carousel_on_def by blast
  have b: "cr_prev (begin_cycle ph A) = ph \<and> cr_cycle (begin_cycle ph A) = first_cycle ph C"
    using assms(4) A(2,3) by (simp add: begin_cycle_def first_cycle_def)
  have t: "(r, C') = carousel_turn conf blake buf now F ph res A"
    using assms(1,2,5) A(1) by (simp add: datum_template_apply_supplier_def same_set_def carousel_on_def)
  define idx where "idx = (carousel_start conf blake buf h ph (length ns) + unat (first_cycle ph C)) mod length ns"
  have i: "idx < length ns" using assms(3) by (simp add: idx_def)
  have "length (ns ! idx) \<le> 127" by (rule carousel_set_short [of _ conf ph entries]) (use i e(2) in simp)
  show ?thesis
    using t i \<open>length (ns ! idx) \<le> 127\<close> assms(2,3) b unfolding carousel_turn_def e(1)
    by (simp add: Let_def e(2) same_set_def carousel_rot_publish_def no_supplier_def flip: idx_def split: option.splits prod.splits)
qed

lemma calls_schedule:
  assumes "carousel_on conf h" "list_all (same_set conf ph h ns) ins" "ns \<noteq> []" "length ph \<le> 79" "unat (first_cycle ph C) + length ins \<le> 2 ^ 32"
  shows "map (\<lambda>z. rot_idx (cr_rot (snd z))) (calls conf blake buf ins C)
    = map (\<lambda>i. int ((carousel_start conf blake buf h ph (length ns) + unat (first_cycle ph C) + i) mod length ns)) [0..<length ins]"
  using assms(2,5)
proof (induction ins arbitrary: C)
  case (Cons inp ins)
  obtain now F res where inp: "inp = (now, F, res)" by (cases inp)
  obtain r C' where a: "datum_template_apply_supplier conf blake buf now F res C = (r, C')" by fastforce
  have sm: "same_set conf ph h ns (now, F, res)" using Cons.prems(1) inp by simp
  note t = turn_schedule [OF assms(1) sm assms(3,4) a]
  show ?case
  proof (cases "ins = []")
    case False
    then have "unat (first_cycle ph C) + 1 < 2 ^ 32" using Cons.prems(2) by (cases ins) simp_all
    then have f: "unat (first_cycle ph C') = unat (first_cycle ph C) + 1"
      using t by (simp add: first_cycle_def unat_word_ariths)
    have "map (\<lambda>z. rot_idx (cr_rot (snd z))) (calls conf blake buf ins C')
      = map (\<lambda>i. int ((carousel_start conf blake buf h ph (length ns) + unat (first_cycle ph C') + i) mod length ns)) [0..<length ins]"
      by (rule Cons.IH) (use Cons.prems f in simp_all)
    then show ?thesis using t by (simp add: inp a f upt_rec [of 0] map_Suc_upt [symmetric] del: upt_Suc)
  qed (use t in \<open>simp add: inp a\<close>)
qed simp

lemma rotated: "map (\<lambda>i. (a + i) mod n) [0..<n] = rotate a [0..<n]"
  by (rule nth_equalityI) (simp_all add: nth_rotate add.commute)

lemma mset_rotate: "mset (rotate k xs) = mset xs"
  by (metis append_take_drop_id mset_append rotate_drop_take union_commute)

text \<open>C16: while the block and the fresh set stay, as many calls as there are suppliers schedule every supplier exactly once, whatever their files
  and the node's transactions are; the turn of a supplier whose template cannot be used is not given to another.\<close>

theorem carousel_round_robin:
  assumes "carousel_on conf h" "list_all (same_set conf ph h ns) ins" "length ins = length ns" "ns \<noteq> []" "length ph \<le> 79"
    "unat (first_cycle ph C) + length ns \<le> 2 ^ 32"
  shows "mset (map (\<lambda>z. ns ! nat (rot_idx (cr_rot (snd z)))) (calls conf blake buf ins C)) = mset ns"
proof -
  define a where "a = carousel_start conf blake buf h ph (length ns) + unat (first_cycle ph C)"
  have "map (\<lambda>z. rot_idx (cr_rot (snd z))) (calls conf blake buf ins C) = map (\<lambda>i. int ((a + i) mod length ns)) [0..<length ns]"
    using calls_schedule [OF assms(1,2,4,5)] assms(3,6) by (simp add: a_def)
  then have "map (\<lambda>i. ns ! nat i) (map (\<lambda>z. rot_idx (cr_rot (snd z))) (calls conf blake buf ins C)) = map (\<lambda>i. ns ! i) (map (\<lambda>i. (a + i) mod length ns) [0..<length ns])"
    by simp
  then have "map (\<lambda>z. ns ! nat (rot_idx (cr_rot (snd z)))) (calls conf blake buf ins C) = rotate a ns"
    unfolding rotated using rotate_map [of a "(!) ns" "[0..<length ns]"] by (simp add: map_nth comp_def)
  then show ?thesis by (simp add: mset_rotate)
qed

text \<open>A supplier stands in the state only with its transactions in the answer.\<close>

definition supplier_serves :: "carousel_conf \<Rightarrow> files \<Rightarrow> string \<Rightarrow> json \<Rightarrow> json \<Rightarrow> carousel \<Rightarrow> bool" where
  "supplier_serves conf F ph res r C \<longleftrightarrow>
     (case (fs_listing F, fs_load F (json_path conf (cr_supplier C))) of
        (Some entries, Some sj) \<Rightarrow> cr_supplier C \<in> set (carousel_set conf ph entries) \<and> datum_template_swap_from res sj ph = Some r
          \<and> cr_supplier_name C = datum_template_set_supplier_name sj
      | _ \<Rightarrow> False)"

lemma supplier_serving:
  assumes "datum_template_apply_supplier conf blake buf now F res C = (r, C')" "string_of res ''previousblockhash'' = Some ph"
    "cc_template conf" "cc_carousel conf" "cc_dir conf \<noteq> ''''" "cr_supplier C' \<noteq> ''''"
  shows "supplier_serves conf F ph res r C'"
proof -
  define h where "h = datum_json_u64 (json_object_get res ''height'')"
  have on: "carousel_on conf h"
    using assms by (auto simp: carousel_on_def datum_template_apply_supplier_def activation_def no_supplier_def h_def split: if_splits)
  obtain A where A: "activation conf now h C = (True, A)" using activation_on on unfolding carousel_on_def by blast
  have t: "(r, C') = carousel_turn conf blake buf now F ph res A"
    using assms(1-5) A by (simp add: datum_template_apply_supplier_def h_def)
  obtain entries where e: "fs_listing F = Some entries" using t assms(6) by (cases "fs_listing F") (auto simp: carousel_turn_def no_supplier_def Let_def)
  define idx where "idx = (carousel_start conf blake buf h ph (length (carousel_set conf ph entries)) + unat (cr_cycle (begin_cycle ph A))) mod length (carousel_set conf ph entries)"
  let ?nm = "carousel_set conf ph entries ! idx"
  have n: "carousel_set conf ph entries \<noteq> []" using t assms(6) by (auto simp: carousel_turn_def e Let_def carousel_rot_publish_def no_supplier_def)
  obtain nm where s: "supplier_answer conf F ph res ?nm = Some (r, nm)" "cr_supplier C' = take 127 ?nm" "cr_supplier_name C' = nm"
    using t assms(6) n unfolding carousel_turn_def e
    by (auto simp: Let_def carousel_rot_publish_def no_supplier_def h_def [symmetric] idx_def [symmetric] split: option.splits prod.splits)
  have m: "?nm \<in> set (carousel_set conf ph entries)" using n by (simp add: idx_def)
  then have "cr_supplier C' = ?nm" using carousel_set_short s(2) by auto
  then show ?thesis using s(1,3) m e by (auto simp: supplier_serves_def supplier_answer_def split: option.splits)
qed

text \<open>In the carousel mode a coinbase has an output for a supplier only when the template holds that supplier's transactions: the supplier is
  of the fresh set, its file was loaded and its transactions were put into the answer.\<close>

theorem supplier_paid_for_template:
  assumes "datum_template_apply_supplier conf blake buf now F res C = (r, C')" "string_of res ''previousblockhash'' = Some ph"
    "cc_template conf" "cc_carousel conf" "cc_dir conf \<noteq> ''''" "mining_blake2b_template_carousel uc"
    "supplier_of addr_script uc (cr_supplier C') sats bps = (Some (script, v), bps')"
  shows "\<exists>entries sj. fs_listing F = Some entries \<and> cr_supplier C' \<in> set (carousel_set conf ph entries)
    \<and> fs_load F (json_path conf (cr_supplier C')) = Some sj \<and> datum_template_swap_from res sj ph = Some r
    \<and> cr_supplier_name C' = datum_template_set_supplier_name sj \<and> script = addr_script (cr_supplier C')"
proof -
  have "cr_supplier C' \<noteq> ''''" "script = addr_script (cr_supplier C')" using assms(6,7) by (auto simp: supplier_of_def Let_def split: if_splits)
  then show ?thesis using supplier_serving [OF assms(1-5)] by (auto simp: supplier_serves_def split: option.splits)
qed

section \<open>Two suppliers\<close>

definition ex_carousel :: carousel_conf where
  "ex_carousel = \<lparr>cc_template = True, cc_activate_height = 0, cc_activate_tag = '''', cc_carousel = True, cc_dir = ''d'', cc_block_stride = 1,
     cc_require_validated = False, cc_file = '''', cc_supplier_address = ''''\<rparr>"

definition ex_entries :: "(string \<times> json option) list" where
  "ex_entries = [(''b1.json'', Some ex_supplier), (''a1.json'', Some ex_supplier), (''readme'', None)]"

definition ex_files :: "json option \<Rightarrow> files" where
  "ex_files broken = \<lparr>fs_listing = Some ex_entries,
     fs_load = (\<lambda>path. if path = ''d/a1.json'' then Some ex_supplier else if path = ''d/b1.json'' then broken else None)\<rparr>"

definition ex_rotation :: rotation where
  "ex_rotation = \<lparr>rot_prevhash = '''', rot_height = 0, rot_updated = 0, rot_active = False, rot_activate_height = 0, rot_cycle = 0, rot_n = 0,
     rot_n_prev_block = 0, rot_start = 0, rot_idx = 0, rot_skipped = 0, rot_failed = False, rot_pick = '''', rot_set_hash = '''', rot_set = []\<rparr>"

definition ex_state :: carousel where
  "ex_state = \<lparr>cr_rot = ex_rotation, cr_supplier = '''', cr_supplier_name = '''', cr_activated = False, cr_tag_primary = '''', cr_prev = '''', cr_cycle = 0\<rparr>"

abbreviation ex_res :: json where
  "ex_res \<equiv> JObject (ex_gbt 100 (replicate 40 CHR ''0'') [ex_tx 3])"

abbreviation ex_ph :: string where
  "ex_ph \<equiv> replicate 64 CHR ''0''"

lemma ex_names: "fresh_names ex_carousel ex_ph ex_entries = [''b1'', ''a1'']"
  by (simp add: fresh_names_def ex_entries_def json_file_name_def supplier_name_def carousel_cache_fresh_def ex_supplier_def string_of_def
      json_object_get_def json_string_value_def ex_carousel_def min_def)

lemma ex_set: "carousel_set ex_carousel ex_ph ex_entries = [''a1'', ''b1'']"
  by (simp add: carousel_set_def ex_names CAROUSEL_MAX_SET_def)

lemma ex_height: "datum_json_u64 (json_object_get ex_res ''height'') = 800000"
  by (simp add: json_object_get_def ex_gbt_def ex_members_def datum_json_u64_def)

lemma ex_prev: "string_of ex_res ''previousblockhash'' = Some ex_ph"
  by (simp add: string_of_def ex_get json_string_value_def)

theorem carousel_set_canonical_witness:
  "carousel_set ex_carousel ex_ph (rev ex_entries) = [''a1'', ''b1'']"
proof -
  have "distinct (map fst ex_entries)" by (simp add: ex_entries_def)
  then show ?thesis using carousel_set_canonical [of ex_entries "rev ex_entries" ex_carousel ex_ph] by (simp add: ex_names ex_set CAROUSEL_MAX_SET_def)
qed

theorem carousel_round_robin_witness:
  "mset (map (\<lambda>z. [''a1'', ''b1''] ! nat (rot_idx (cr_rot (snd z))))
     (calls ex_carousel (\<lambda>_. None) [] [(5, ex_files None, ex_res), (6, ex_files None, ex_res)] ex_state)) = {#''a1'', ''b1''#}"
proof -
  have on: "carousel_on ex_carousel 800000" by (simp add: carousel_on_def ex_carousel_def)
  have sm: "same_set ex_carousel ex_ph 800000 [''a1'', ''b1''] (now, ex_files None, ex_res)" for now
    by (simp add: same_set_def ex_prev ex_height ex_files_def ex_set)
  show ?thesis
    using carousel_round_robin [OF on, of ex_ph "[''a1'', ''b1'']" "[(5, ex_files None, ex_res), (6, ex_files None, ex_res)]" ex_state "\<lambda>_. None" "[]"] sm
    by (simp add: first_cycle_def ex_state_def)
qed

theorem supplier_paid_for_template_witness:
  "\<exists>r C' uc v. datum_template_apply_supplier ex_carousel (\<lambda>_. None) [] 5 (ex_files None) ex_res ex_state = (r, C') \<and> r \<noteq> ex_res
     \<and> supplier_of (\<lambda>a. replicate 22 0) uc (cr_supplier C') 10000 90 = (Some (replicate 22 0, v), 100) \<and> v = 300
     \<and> cr_supplier C' \<in> set (carousel_set ex_carousel ex_ph ex_entries) \<and> datum_template_swap_from ex_res ex_supplier ex_ph = Some r"
proof -
  let ?uc = "\<lparr>mining_blake2b_template = True, mining_blake2b_template_carousel = True, mining_template_supplier_address = [],
    mining_template_pool_bps = 100, mining_template_supplier_bps = 300\<rparr>"
  have on: "carousel_on ex_carousel 800000" by (simp add: carousel_on_def ex_carousel_def)
  have sm: "same_set ex_carousel ex_ph 800000 [''a1'', ''b1''] (5, ex_files None, ex_res)"
    by (simp add: same_set_def ex_prev ex_height ex_files_def ex_set)
  obtain r C' where a: "datum_template_apply_supplier ex_carousel (\<lambda>_. None) [] 5 (ex_files None) ex_res ex_state = (r, C')" by fastforce
  have "supplier_answer ex_carousel (ex_files None) ex_ph ex_res ''a1'' \<noteq> None"
    by (simp add: supplier_answer_def ex_files_def json_path_def ex_carousel_def ex_swap)
  moreover have "(800000 :: nat) mod Suc (Suc 0) = 0" by (simp flip: numeral_2_eq_2)
  ultimately have c: "cr_supplier C' = ''a1''"
    using turn_schedule [OF on sm _ _ a] by (auto simp: carousel_start_def first_cycle_def ex_state_def ex_carousel_def split: option.splits)
  have s: "supplier_of (\<lambda>a. replicate 22 0) ?uc (cr_supplier C') 10000 90 = (Some (replicate 22 0, 300), 100)"
    by (simp add: supplier_of_def c)
  obtain entries sj where e: "fs_listing (ex_files None) = Some entries" "cr_supplier C' \<in> set (carousel_set ex_carousel ex_ph entries)"
    "fs_load (ex_files None) (json_path ex_carousel (cr_supplier C')) = Some sj" "datum_template_swap_from ex_res sj ex_ph = Some r"
    using supplier_paid_for_template [OF a ex_prev _ _ _ _ s] by (auto simp: ex_carousel_def)
  have "sj = ex_supplier" using e(3) by (simp add: c ex_files_def json_path_def ex_carousel_def)
  moreover have r: "r = JObject (ex_gbt 104 (replicate 40 CHR ''0'') [ex_swapped])" using e(4) calculation ex_swap by simp
  have "ex_res \<noteq> r" by (simp add: r ex_gbt_def)
  ultimately show ?thesis using a s e(1,2,4) by (auto simp: ex_files_def)
qed

end
