(* ===== verification/Template.thy ===== *)
theory Template
  imports Carousel Jobs
begin

text \<open>
  The template thread of \<^verbatim>\<open>src/src/datum_blocktemplates.c\<close>, \<^verbatim>\<open>datum_gateway_template_thread\<close>: what it does with an answer of
  the node, which jobs it makes from it, and how long it waits for the next; the notifications it reacts to, and the poller that raises them.
  A round composes the supplier's exchange, the parser and the update of the job table.
\<close>

section \<open>Notifications\<close>

record tthread =
  tt_p1 :: string
  tt_was_notified :: bool
  tt_wnc :: int
  tt_last_block_change :: u64
  tt_new_notify :: bool
  tt_othercause :: bool
  tt_notify_blockhash :: string
  tt_notify_height :: int

definition datum_blocktemplates_notifynew :: "string option \<Rightarrow> int \<Rightarrow> tthread \<Rightarrow> tthread" where
  "datum_blocktemplates_notifynew prevhash block_height th =
     (let th = th\<lparr>tt_new_notify := True\<rparr>
      in case prevhash of None \<Rightarrow> th
       | Some p \<Rightarrow> if p = '''' then th
           else th\<lparr>tt_notify_blockhash := take 66 p,
                  tt_notify_height := (if block_height > tt_notify_height th then block_height else tt_notify_height th)\<rparr>)"

definition datum_blocktemplates_notify_othercause :: "tthread \<Rightarrow> tthread" where
  "datum_blocktemplates_notify_othercause th = th\<lparr>tt_othercause := True\<rparr>"

text \<open>The poller's last hash and the thread after one result of \<^verbatim>\<open>getbestblockhash\<close>.\<close>

definition fallback_poll :: "json option \<Rightarrow> string \<Rightarrow> tthread \<Rightarrow> string \<times> tthread" where
  "fallback_poll reply p1 th =
     (case Option.bind reply (\<lambda>j. string_of j ''result'') of None \<Rightarrow> (p1, th)
      | Some s \<Rightarrow> if length s \<noteq> 64 then (p1, th)
          else if p1 = '''' then (s, th)
          else if s \<noteq> p1 then (s, datum_blocktemplates_notifynew (Some s) 0 th) else (p1, th))"

section \<open>A parsed template\<close>

definition JOB_STATE_EMPTY_PLUS :: nat where "JOB_STATE_EMPTY_PLUS = 2"
definition JOB_STATE_FULL_NORMAL_WAIT_COINBASER :: nat where "JOB_STATE_FULL_NORMAL_WAIT_COINBASER = 5"

text \<open>The arguments of a call of \<^verbatim>\<open>update_stratum_job\<close>.\<close>

type_synonym job_call = "template \<times> bool \<times> nat"

text \<open>The same block after a notification: whether it was expected, or a duplicate within 2.5 seconds of the change.\<close>

definition known_block :: "template \<Rightarrow> tthread \<Rightarrow> bool" where
  "known_block t th \<longleftrightarrow> tt_notify_blockhash th \<noteq> '''' \<and> t_previousblockhash t = tt_notify_blockhash th
     \<and> (tt_notify_height th \<le> 0 \<or> tt_notify_height th = int (unat (t_height t)))"

definition fast_forwards :: "template \<Rightarrow> tthread \<Rightarrow> bool" where
  "fast_forwards t th \<longleftrightarrow> (t_height t < 800000 \<or> t_height t > 2980000) \<and> take 1 (tt_notify_blockhash th) = ''T''"

text \<open>Difficulty 1 and a later time for the test networks.\<close>

definition fast_forward :: "tthread \<Rightarrow> template \<Rightarrow> template" where
  "fast_forward th t =
     t\<lparr>t_bits := ''1d00ffff'', t_bits_bin := [0xff, 0xff, 0x00, 0x1d], t_bits_uint := 0x1d00ffff,
       t_block_target := (case nbits_to_target 0x1d00ffff of None \<Rightarrow> t_block_target t | Some tgt \<Rightarrow> tgt),
       t_curtime := (if word_of_int (tt_notify_height th) > t_curtime t then word_of_int (tt_notify_height th) else t_curtime t + 1200)\<rparr>"

definition notified_again :: "u64 \<Rightarrow> template \<Rightarrow> tthread \<Rightarrow> job_call list \<times> tthread" where
  "notified_again now t th =
     (if known_block t th then ([], th\<lparr>tt_was_notified := False, tt_wnc := 0\<rparr>)
      else let th = (if now - 2500 < tt_last_block_change th then th\<lparr>tt_was_notified := False\<rparr> else th)
           in if fast_forwards t th
              then ([(fast_forward th t, True, JOB_STATE_FULL_PRIORITY_WAIT_COINBASER)],
                    th\<lparr>tt_notify_height := (if word_of_int (tt_notify_height th) > t_curtime t then -1 else tt_notify_height th),
                       tt_notify_blockhash := '''', tt_was_notified := False\<rparr>)
              else ([], th))"

definition handle_template :: "u64 \<Rightarrow> template \<Rightarrow> tthread \<Rightarrow> job_call list \<times> tthread" where
  "handle_template now t th =
     (let new_block = (t_previousblockhash t \<noteq> tt_p1 th)
      in if new_block \<or> tt_othercause th
         then ([(t, True, JOB_STATE_EMPTY_PLUS), (t, False, JOB_STATE_FULL_PRIORITY_WAIT_COINBASER)],
               (let th = th\<lparr>tt_othercause := False\<rparr>
                in if new_block then th\<lparr>tt_last_block_change := now, tt_p1 := t_previousblockhash t, tt_was_notified := False\<rparr> else th))
         else if tt_was_notified th then notified_again now t th
         else ([(t, False, JOB_STATE_FULL_NORMAL_WAIT_COINBASER)], th))"

section \<open>Waiting\<close>

record pause_conf =
  pc_work_update_seconds :: int
  pc_carousel :: bool
  pc_fast_recycle_ms :: int

definition thin_set :: "rotation \<Rightarrow> bool" where
  "thin_set R \<longleftrightarrow> rot_active R \<and> (rot_n R = 0 \<or> rot_n_prev_block R \<ge> 2 \<and> rot_n R < rot_n_prev_block R div 2)"

definition wait_us :: "pause_conf \<Rightarrow> u64 \<Rightarrow> rotation \<Rightarrow> tthread \<Rightarrow> u64" where
  "wait_us pc now R th =
     (if pc_carousel pc \<and> pc_fast_recycle_ms pc > 0 \<and> now - tt_last_block_change th < 30000 \<and> thin_set R
      then word_of_int (pc_fast_recycle_ms pc) * 1000 else word_of_int (pc_work_update_seconds pc) * 1000000)"

text \<open>
  The end of a round. \<open>flagged\<close> is the step of the wait, of 2.5 milliseconds, by which the flag of a notification is up.
\<close>

definition template_pause :: "pause_conf \<Rightarrow> u64 \<Rightarrow> rotation \<Rightarrow> nat option \<Rightarrow> tthread \<Rightarrow> tthread" where
  "template_pause pc now R flagged th =
     (if \<not> tt_was_notified th \<or> flagged = Some 0
      then (case flagged of None \<Rightarrow> th
            | Some k \<Rightarrow> if k < unat (wait_us pc now R th div 2500) then th\<lparr>tt_new_notify := False, tt_was_notified := True, tt_wnc := 0\<rparr> else th)
      else if tt_wnc th + 1 > 16 then th\<lparr>tt_was_notified := False, tt_wnc := 0\<rparr> else th\<lparr>tt_wnc := tt_wnc th + 1\<rparr>)"

section \<open>A round\<close>

fun update_calls :: "(nat \<Rightarrow> job_env) \<Rightarrow> job_call list \<Rightarrow> job_table \<Rightarrow> job_table option" where
  "update_calls E [] T = Some T"
| "update_calls E ((t, nb, st) # cs) T = Option.bind (update_stratum_job (E 0) t nb st T) (update_calls (\<lambda>k. E (Suc k)) cs)"

record tsystem =
  ts_carousel :: carousel
  ts_pool :: template_pool
  ts_thread :: tthread
  ts_jobs :: job_table

text \<open>The supplier of the cycle as a new job copies it.\<close>

definition pinned :: "carousel \<Rightarrow> (nat \<Rightarrow> job_env) \<Rightarrow> nat \<Rightarrow> job_env" where
  "pinned C E = (\<lambda>k. (E k)\<lparr>je_supplier := cr_supplier C, je_supplier_name := cr_supplier_name C\<rparr>)"

record round_env =
  re_carousel :: carousel_conf
  re_gbt :: gbt_conf
  re_blake :: "bytes \<Rightarrow> bytes option"
  re_blank :: template

definition template_round :: "round_env \<Rightarrow> bytes \<Rightarrow> u64 \<Rightarrow> u64 \<Rightarrow> files \<Rightarrow> (nat \<Rightarrow> job_env) \<Rightarrow> json \<Rightarrow> tsystem \<Rightarrow> tsystem option" where
  "template_round re buf unix_time now F E answer S =
     (let (res, C) = datum_template_apply_supplier (re_carousel re) (re_blake re) buf unix_time F answer (ts_carousel S)
      in case parse_into_pool (re_gbt re) (re_blank re) res (ts_pool S) of None \<Rightarrow> None
         | Some (P, None) \<Rightarrow> Some (S\<lparr>ts_carousel := C, ts_pool := P\<rparr>)
         | Some (P, Some t) \<Rightarrow>
             (let (cs, th) = handle_template now t (ts_thread S)
              in map_option (\<lambda>T. S\<lparr>ts_carousel := C, ts_pool := P, ts_thread := th, ts_jobs := T\<rparr>) (update_calls (pinned C E) cs (ts_jobs S))))"


section \<open>What the jobs are made from\<close>

text \<open>The states of the template thread, with the coinbaser thread, that completes jobs.\<close>

inductive template_reach :: "round_env \<Rightarrow> pause_conf \<Rightarrow> tsystem \<Rightarrow> bool" for re pc where
  start: "cr_supplier C = '''' \<Longrightarrow> template_reach re pc \<lparr>ts_carousel = C, ts_pool = P, ts_thread = th, ts_jobs = initial_jobs\<rparr>"
| round: "template_reach re pc S \<Longrightarrow> template_round re buf ut now F E answer S = Some S' \<Longrightarrow> template_reach re pc S'"
| pause: "template_reach re pc S \<Longrightarrow> template_reach re pc (S\<lparr>ts_thread := template_pause pc now (cr_rot (ts_carousel S)) fl (ts_thread S)\<rparr>)"
| notify: "template_reach re pc S \<Longrightarrow> template_reach re pc (S\<lparr>ts_thread := datum_blocktemplates_notifynew ph h (ts_thread S)\<rparr>)"
| othercause: "template_reach re pc S \<Longrightarrow> template_reach re pc (S\<lparr>ts_thread := datum_blocktemplates_notify_othercause (ts_thread S)\<rparr>)"
| coinbaser: "template_reach re pc S \<Longrightarrow> jt_slots (ts_jobs S) i = Some j \<Longrightarrow> frame j' = frame j
    \<Longrightarrow> template_reach re pc (S\<lparr>ts_jobs := (ts_jobs S)\<lparr>jt_slots := (jt_slots (ts_jobs S))(i := Some j')\<rparr>\<rparr>)"

text \<open>A template with the transactions of a supplier's file.\<close>

definition holds_supplier_txns :: "round_env \<Rightarrow> string \<Rightarrow> template \<Rightarrow> bool" where
  "holds_supplier_txns re nm t \<longleftrightarrow>
     (\<exists>(F :: files) sj answer ph res t0 t1 ps. fs_load F (json_path (re_carousel re) nm) = Some sj \<and> datum_template_swap_from answer sj ph = Some res
        \<and> datum_gbt_parser (re_gbt re) res t0 = Parsed t1 ps \<and> t_txns t = t_txns t1)"

definition suppliers_ok :: "round_env \<Rightarrow> job_table \<Rightarrow> bool" where
  "suppliers_ok re T \<longleftrightarrow> (\<forall>i j. jt_slots T i = Some j \<longrightarrow> j_carousel_supplier j \<noteq> '''' \<longrightarrow> holds_supplier_txns re (j_carousel_supplier j) (j_template j))"

definition carousel_mode :: "carousel_conf \<Rightarrow> bool" where
  "carousel_mode conf \<longleftrightarrow> cc_template conf \<and> cc_carousel conf \<and> cc_dir conf \<noteq> ''''"

definition tsystem_inv :: "round_env \<Rightarrow> tsystem \<Rightarrow> bool" where
  "tsystem_inv re S \<longleftrightarrow> on_tip (Some (tt_p1 (ts_thread S))) (ts_jobs S) \<and> suppliers_ok re (ts_jobs S)
     \<and> (carousel_mode (re_carousel re) \<or> cr_supplier (ts_carousel S) = '''')"

lemma calls_on_tip:
  "update_calls E cs T = Some T' \<Longrightarrow> on_tip ph T \<Longrightarrow> list_all (\<lambda>c. t_previousblockhash (fst c) = p) cs \<Longrightarrow> ph = Some p \<or> (\<exists>t st cs'. cs = (t, True, st) # cs')
   \<Longrightarrow> on_tip (if cs = [] then ph else Some p) T'"
proof (induction E cs T arbitrary: ph rule: update_calls.induct)
  case (2 E t nb st cs T)
  obtain T1 where u: "update_stratum_job (E 0) t nb st T = Some T1" "update_calls (\<lambda>k. E (Suc k)) cs T1 = Some T'"
    using "2.prems"(1) by (auto simp: bind_eq_Some_conv)
  have "on_tip (Some p) T1" using on_tip_update [OF "2.prems"(2) _ u(1)] "2.prems"(3,4) by auto
  then show ?case using "2.IH" [OF u(1) u(2), of "Some p"] "2.prems"(3) by (simp split: if_splits)
qed simp

lemma calls_suppliers:
  "update_calls E cs T = Some T' \<Longrightarrow> suppliers_ok re T \<Longrightarrow> (\<And>k. take 127 (je_supplier (E k)) = nm)
   \<Longrightarrow> list_all (\<lambda>c. nm \<noteq> '''' \<longrightarrow> holds_supplier_txns re nm (fst c)) cs \<Longrightarrow> suppliers_ok re T'"
proof (induction E cs T rule: update_calls.induct)
  case (2 E t nb st cs T)
  obtain T1 where u: "update_stratum_job (E 0) t nb st T = Some T1" "update_calls (\<lambda>k. E (Suc k)) cs T1 = Some T'"
    using "2.prems"(1) by (auto simp: bind_eq_Some_conv)
  obtain s enp bt where T1: "jt_slots T1 = (marked nb T)(jt_next T := Some s)" and f: "frame s = frame (template_job (E 0) t nb enp bt)"
    by (rule update_cases [OF u(1)]) blast
  have s: "j_template s = t" "j_carousel_supplier s = nm" using f "2.prems"(3) [of 0] by (simp_all add: frame_def template_job_def)
  have "suppliers_ok re T1"
    using "2.prems"(2,4) s by (auto simp: suppliers_ok_def T1 marked_def split: if_splits)
  then show ?case using "2.IH" [OF u] "2.prems"(3,4) by simp
qed simp

lemma fast_forward_keeps: "t_txns (fast_forward th t) = t_txns t" "t_previousblockhash (fast_forward th t) = t_previousblockhash t"
  by (simp_all add: fast_forward_def)

lemma handle_calls:
  assumes "handle_template now t th = (cs, th')"
  shows "list_all (\<lambda>c. t_previousblockhash (fst c) = t_previousblockhash t \<and> t_txns (fst c) = t_txns t) cs \<and> tt_p1 th' = t_previousblockhash t
    \<and> (tt_p1 th = t_previousblockhash t \<or> (\<exists>t st cs'. cs = (t, True, st) # cs')) \<and> (cs = [] \<longrightarrow> tt_p1 th = t_previousblockhash t)"
  using assms by (auto simp: handle_template_def notified_again_def Let_def fast_forward_keeps split: if_splits)

lemma apply_other_mode:
  "\<not> carousel_mode conf \<Longrightarrow> cr_supplier C = '''' \<Longrightarrow> cr_supplier (snd (datum_template_apply_supplier conf blake buf now F res C)) = ''''"
  by (auto simp: datum_template_apply_supplier_def carousel_mode_def activation_def no_supplier_def single_supplier_def Let_def split: option.split)

lemma parsed_prev: "datum_gbt_parser conf gbt t = Parsed t' ps \<Longrightarrow> string_of gbt ''previousblockhash'' \<noteq> None"
  by (erule parsed_fields) simp

lemma apply_keeps_no_prev:
  "string_of res ''previousblockhash'' = None \<Longrightarrow> datum_template_apply_supplier conf blake buf now F res C = (res, C)"
  by (simp add: datum_template_apply_supplier_def)

lemma round_inv:
  assumes r: "template_round re buf ut now F E answer S = Some S'" and inv: "tsystem_inv re S"
  shows "tsystem_inv re S'"
proof -
  obtain res C where a: "datum_template_apply_supplier (re_carousel re) (re_blake re) buf ut F answer (ts_carousel S) = (res, C)" by fastforce
  have m: "carousel_mode (re_carousel re) \<or> cr_supplier C = ''''"
    using apply_other_mode [of "re_carousel re" "ts_carousel S" "re_blake re" buf ut F answer] inv a by (auto simp: tsystem_inv_def)
  obtain P q where p: "parse_into_pool (re_gbt re) (re_blank re) res (ts_pool S) = Some (P, q)"
    using r a by (cases "parse_into_pool (re_gbt re) (re_blank re) res (ts_pool S)") (auto simp: template_round_def)
  show ?thesis
  proof (cases q)
    case None
    then show ?thesis using r a p inv m by (auto simp: template_round_def tsystem_inv_def)
  next
    case (Some t)
    obtain cs th where h: "handle_template now t (ts_thread S) = (cs, th)" by fastforce
    obtain T where T: "update_calls (pinned C E) cs (ts_jobs S) = Some T" "S' = S\<lparr>ts_carousel := C, ts_pool := P, ts_thread := th, ts_jobs := T\<rparr>"
      using r a p Some h by (auto simp: template_round_def)
    obtain t0 ps where d: "datum_gbt_parser (re_gbt re) res t0 = Parsed t ps"
      using p Some by (auto simp: parse_into_pool_def Let_def split: gbt_result.splits)
    note hc = handle_calls [OF h]
    have tip: "on_tip (Some (tt_p1 th)) T"
      using calls_on_tip [OF T(1), of "Some (tt_p1 (ts_thread S))" "t_previousblockhash t"] hc inv
      by (auto simp: tsystem_inv_def list_all_iff split: if_splits)
    have sup: "list_all (\<lambda>c. take 127 (cr_supplier C) \<noteq> '''' \<longrightarrow> holds_supplier_txns re (take 127 (cr_supplier C)) (fst c)) cs"
    proof (cases "cr_supplier C = ''''")
      case False
      obtain ph where ph: "string_of answer ''previousblockhash'' = Some ph"
        using parsed_prev [OF d] apply_keeps_no_prev [of answer "re_carousel re" "re_blake re" buf ut F "ts_carousel S"] a
        by (cases "string_of answer ''previousblockhash''") auto
      have "supplier_serves (re_carousel re) F ph answer res C"
        using supplier_serving [OF a ph] m False by (auto simp: carousel_mode_def)
      then obtain entries sj where s: "cr_supplier C \<in> set (carousel_set (re_carousel re) ph entries)"
        "fs_load F (json_path (re_carousel re) (cr_supplier C)) = Some sj" "datum_template_swap_from answer sj ph = Some res"
        by (auto simp: supplier_serves_def split: option.splits)
      then have "holds_supplier_txns re (cr_supplier C) (fst c)" if "t_txns (fst c) = t_txns t" for c :: job_call
        using d that unfolding holds_supplier_txns_def by blast
      then show ?thesis using hc carousel_set_short [OF s(1)] by (auto simp: list_all_iff)
    qed (simp add: list_all_iff)
    have "suppliers_ok re T"
      by (rule calls_suppliers [OF T(1) _ _ sup]) (use inv in \<open>simp_all add: tsystem_inv_def pinned_def\<close>)
    then show ?thesis using tip m T(2) by (simp add: tsystem_inv_def)
  qed
qed

lemma template_reach_inv: "template_reach re pc S \<Longrightarrow> tsystem_inv re S"
proof (induction rule: template_reach.induct)
  case (start C P th)
  then show ?case by (simp add: tsystem_inv_def on_tip_initial suppliers_ok_def) (simp add: initial_jobs_def)
next
  case (round S buf ut now F E answer S')
  then show ?case by (auto intro: round_inv)
next
  case (pause S now fl)
  then show ?case by (simp add: tsystem_inv_def template_pause_def split: option.split)
next
  case (notify S ph h)
  then show ?case by (simp add: tsystem_inv_def datum_blocktemplates_notifynew_def Let_def split: option.split)
next
  case (othercause S)
  then show ?case by (simp add: tsystem_inv_def datum_blocktemplates_notify_othercause_def)
next
  case (coinbaser S i j j')
  then show ?case by (auto simp: tsystem_inv_def on_tip_def suppliers_ok_def frame_def)
qed


section \<open>A notification without a block\<close>

text \<open>Rounds without another notification: the time and the template, if the answer was parsed, and the time of the wait.\<close>

fun quiet_rounds :: "pause_conf \<Rightarrow> (u64 \<times> template option \<times> u64 \<times> rotation) list \<Rightarrow> tthread \<Rightarrow> tthread" where
  "quiet_rounds pc [] th = th"
| "quiet_rounds pc ((now, t, later, R) # rs) th =
     quiet_rounds pc rs (template_pause pc later R None (case t of None \<Rightarrow> th | Some t \<Rightarrow> snd (handle_template now t th)))"

lemma handled_notified:
  "handle_template now t th = (cs, th') \<Longrightarrow> tt_was_notified th' \<Longrightarrow> tt_was_notified th \<and> tt_wnc th' = tt_wnc th"
  by (auto simp: handle_template_def notified_again_def Let_def split: if_splits)

lemma quiet_round:
  "tt_was_notified (quiet_rounds pc rs th) \<Longrightarrow> tt_was_notified th \<and> tt_wnc th + int (length rs) \<le> max 16 (tt_wnc th)"
proof (induction pc rs th rule: quiet_rounds.induct)
  case (2 pc now t later R rs th)
  define mid where "mid = (case t of None \<Rightarrow> th | Some t \<Rightarrow> snd (handle_template now t th))"
  define th1 where "th1 = template_pause pc later R None mid"
  have th1: "tt_was_notified th1 \<and> tt_wnc th1 + int (length rs) \<le> max 16 (tt_wnc th1)"
    using "2.IH" "2.prems" by (simp add: th1_def mid_def)
  then have a: "tt_was_notified mid" "tt_wnc th1 = tt_wnc mid + 1" "tt_wnc th1 \<le> 16" by (auto simp: th1_def template_pause_def split: if_splits)
  have b: "tt_was_notified th \<and> tt_wnc mid = tt_wnc th"
  proof (cases t)
    case (Some t1)
    then show ?thesis using handled_notified [of now t1 th "fst (handle_template now t1 th)" mid] a(1) by (simp add: mid_def)
  qed (use a(1) in \<open>simp add: mid_def\<close>)
  have "tt_wnc th1 + int (length rs) \<le> 16" using th1 a(3) by simp
  then show ?case using a(2) b by simp
qed simp

text \<open>A notification whose block never comes holds up the work for at most 17 rounds, each with a wait of a quarter of a second: after them,
  if no other notification came, every template is made into work again.\<close>

theorem notified_state_ends:
  assumes "17 \<le> length rs" "0 \<le> tt_wnc th"
  shows "fst (handle_template now t (quiet_rounds pc rs th)) \<noteq> []"
proof -
  have "\<not> tt_was_notified (quiet_rounds pc rs th)" using quiet_round [of pc rs th] assms by auto
  then show ?thesis by (simp add: handle_template_def Let_def)
qed

section \<open>A first block\<close>

definition ex_tthread :: tthread where
  "ex_tthread = \<lparr>tt_p1 = '''', tt_was_notified = True, tt_wnc = 0, tt_last_block_change = 0, tt_new_notify = False, tt_othercause = False,
     tt_notify_blockhash = replicate 64 CHR ''1'', tt_notify_height = 0\<rparr>"

theorem notified_state_ends_witness:
  "fst (handle_template 9000 ex_template (quiet_rounds \<lparr>pc_work_update_seconds = 40, pc_carousel = False, pc_fast_recycle_ms = 0\<rparr>
     (replicate 17 (9000, Some ex_template, 9000, ex_rotation)) (ex_tthread\<lparr>tt_p1 := t_previousblockhash ex_template\<rparr>))) \<noteq> []"
  by (rule notified_state_ends) (simp_all add: ex_tthread_def)

lemma update_succeeds:
  assumes "je_conf E = demo_conf" "je_addr_script E = demo_addr" "je_supplier_name E = ''''" "t_header_version t = 0"
    "nbits_to_target (upk_u32le (t_bits_bin t) 0) = Some bt" "length (t_txns t) = 1"
  shows "\<exists>T'. update_stratum_job E t nb st T = Some T'"
proof -
  let ?s = "template_job E t nb (jt_enprefix T) bt"
  have cb: "carousel_supplier_name (job_cb ?s) = ''''" "headline_of (Some (block_template (job_cb ?s))) = []"
    using assms(3,4) by (simp_all add: job_cb_def template_job_def template_cb_def headline_of_def)
  have "\<exists>x. generate_coinbase_input demo_conf (ucast (height (job_cb ?s))) (Some (block_template (job_cb ?s))) (carousel_supplier_name (job_cb ?s)) = Some x"
    unfolding generate_coinbase_input_def cb Let_def by (simp add: demo_conf_def MAX_COINBASE_TAG_SPACE_def secondary_tag_def tag_fit_def)
  then have "\<exists>x. generate_base_coinbase_txns_for_stratum_job (je_addr_script E) (je_conf E) (job_cb ?s) nb = Some x"
    using assms(1,2) by (auto simp: generate_base_coinbase_txns_for_stratum_job_def set_pool_script_def demo_conf_def [THEN arg_cong, of datum_active] Let_def split: prod.split)
  then obtain s1 where s1: "with_base_coinbase E nb ?s = Some s1" by (auto simp: with_base_coinbase_def)
  then have "j_template s1 = t" using frame_base [OF s1] by (simp add: frame_def template_job_def)
  then have "\<exists>s3. with_branches E (s1\<lparr>j_job_state := st, j_need_coinbaser := (st = 4 \<or> st = 5), j_tsms := je_now E\<rparr>) = Some s3"
    using assms(6) by (cases "t_txns t") (simp_all add: with_branches_def stratum_calculate_merkle_branches_def merkle_levels.simps)
  then show ?thesis using assms(5) s1 by (auto simp: update_stratum_job_def)
qed

definition ex_round_env :: round_env where
  "ex_round_env = \<lparr>re_carousel = ex_carousel, re_gbt = ex_gbt_conf, re_blake = (\<lambda>_. None), re_blank = ex_template\<rparr>"

definition ex_system :: tsystem where
  "ex_system = \<lparr>ts_carousel = ex_state, ts_pool = \<lparr>tp_next = 0, tp_slots = (\<lambda>_. None)\<rparr>,
     ts_thread = ex_tthread\<lparr>tt_p1 := ex_ph, tt_was_notified := False\<rparr>, ts_jobs = initial_jobs\<rparr>"


end
