(* ===== verification/Submission.thy ===== *)
theory Submission
  imports Json
begin

text \<open>
  Handing a block to the node: the reply of a JSON-RPC call, \<^verbatim>\<open>src/src/datum_jsonrpc.c\<close>, the thread that
  submits blocks with its mailbox, \<^verbatim>\<open>src/src/datum_submitblock.c\<close>, and the second submission by the
  stratum thread itself, at the end of \<^verbatim>\<open>assembleBlockAndSubmit\<close>. What libcurl returns is an argument: whether the transfer
  succeeded, the HTTP status, and the parsed body.
\<close>

section \<open>A call\<close>

record http_reply =
  hr_ok :: bool
  hr_code :: int
  hr_json :: "json option"

definition json_rpc_call_full :: "bool \<Rightarrow> http_reply \<Rightarrow> json option \<times> int" where
  "json_rpc_call_full check_for_result reply =
     (if \<not> hr_ok reply then None
      else case hr_json reply of None \<Rightarrow> None
        | Some v \<Rightarrow> if check_for_result
             \<and> (json_object_get v ''result'' = None \<or> (case json_object_get v ''error'' of None \<Rightarrow> False | Some e \<Rightarrow> e \<noteq> JNull))
             then None else Some v, hr_code reply)"

text \<open>
  After a 401 with the cookie the call is made once more, if the cookie can be read again: \<open>retry\<close> is that second reply.
\<close>

definition bitcoind_json_rpc_call_http :: "bool \<Rightarrow> http_reply \<Rightarrow> http_reply option \<Rightarrow> json option \<times> int" where
  "bitcoind_json_rpc_call_http rpcuser reply retry =
     (case json_rpc_call_full True reply of
        (Some j, status) \<Rightarrow> (Some j, status)
      | (None, status) \<Rightarrow> if rpcuser \<or> status \<noteq> 401 then (None, status)
          else (case retry of None \<Rightarrow> (None, status) | Some r \<Rightarrow> json_rpc_call_full True r))"

section \<open>Submitting with retries\<close>

definition DATUM_SUBMITBLOCK_MAX_ATTEMPTS :: nat where "DATUM_SUBMITBLOCK_MAX_ATTEMPTS = 40"
definition DATUM_SUBMITBLOCK_BACKOFF_MS :: nat where "DATUM_SUBMITBLOCK_BACKOFF_MS = 100"
definition DATUM_SUBMITBLOCK_BACKOFF_MAX_MS :: nat where "DATUM_SUBMITBLOCK_BACKOFF_MAX_MS = 2000"

datatype outcome =
    Accepted
  | Rejected json
  | No_Reply

text \<open>A reply ends the attempts if it is usable, or if the node answered at all.\<close>

definition final_reply :: "json option \<times> int \<Rightarrow> bool" where
  "final_reply r \<longleftrightarrow> fst r \<noteq> None \<or> snd r = 200"

text \<open>The loop from an attempt on, with the pause after a failure: the last reply and the pauses made, in milliseconds.\<close>

fun submit_attempts :: "(nat \<Rightarrow> json option \<times> int) \<Rightarrow> nat \<Rightarrow> nat \<Rightarrow> nat \<Rightarrow> json option \<times> nat list" where
  "submit_attempts reply 0 k backoff = (None, [])"
| "submit_attempts reply (Suc m) k backoff =
     (if final_reply (reply k) then (fst (reply k), [])
      else let (r, ws) = submit_attempts reply m (Suc k) (if backoff < DATUM_SUBMITBLOCK_BACKOFF_MAX_MS then backoff * 2 else backoff)
           in (r, backoff # ws))"

definition judge_reply :: "json option \<Rightarrow> outcome" where
  "judge_reply r = (case r of None \<Rightarrow> No_Reply
     | Some v \<Rightarrow> (case json_object_get v ''result'' of Some JNull \<Rightarrow> Accepted | Some res \<Rightarrow> Rejected res | None \<Rightarrow> Rejected JNull))"

definition datum_submitblock_doit :: "(nat \<Rightarrow> json option \<times> int) \<Rightarrow> outcome \<times> nat list" where
  "datum_submitblock_doit reply =
     (let (r, ws) = submit_attempts reply DATUM_SUBMITBLOCK_MAX_ATTEMPTS 0 DATUM_SUBMITBLOCK_BACKOFF_MS in (judge_reply r, ws))"

text \<open>The pauses between at most five calls of \<^verbatim>\<open>preciousblock\<close>.\<close>

fun precious_attempts :: "(nat \<Rightarrow> json option \<times> int) \<Rightarrow> nat \<Rightarrow> nat \<Rightarrow> nat list" where
  "precious_attempts reply 0 k = []"
| "precious_attempts reply (Suc m) k =
     (if final_reply (reply k) then [] else DATUM_SUBMITBLOCK_BACKOFF_MS * (k + 1) # precious_attempts reply m (Suc k))"

definition preciousblock :: "(nat \<Rightarrow> json option \<times> int) \<Rightarrow> nat list" where
  "preciousblock reply = precious_attempts reply 5 0"

text \<open>The stratum thread's own submission takes the lack of a reply for success.\<close>

definition direct_submission :: "json option \<Rightarrow> bool" where
  "direct_submission r = (r = None)"

lemma attempts_first:
  "submit_attempts reply m k b = (r, ws) \<Longrightarrow>
   (\<exists>n < m. (\<forall>i < n. \<not> final_reply (reply (k + i))) \<and> final_reply (reply (k + n)) \<and> r = fst (reply (k + n)) \<and> length ws = n)
   \<or> (\<forall>i < m. \<not> final_reply (reply (k + i))) \<and> r = None \<and> length ws = m"
proof (induction reply m k b arbitrary: r ws rule: submit_attempts.induct)
  case (2 reply m k b)
  show ?case
  proof (cases "final_reply (reply k)")
    case True
    then show ?thesis using "2.prems" by (intro disjI1 exI [of _ 0]) simp
  next
    case False
    obtain r' ws' where a: "submit_attempts reply m (Suc k) (if b < DATUM_SUBMITBLOCK_BACKOFF_MAX_MS then b * 2 else b) = (r', ws')" by fastforce
    have rw: "r = r'" "ws = b # ws'" using "2.prems" False a by auto
    from "2.IH" [OF False a] show ?thesis
    proof (elim disjE exE conjE)
      fix n assume n: "n < m" "\<forall>i<n. \<not> final_reply (reply (Suc k + i))" "final_reply (reply (Suc k + n))" "r' = fst (reply (Suc k + n))" "length ws' = n"
      have "\<not> final_reply (reply (k + i))" if "i < Suc n" for i using that n(2) False by (cases i) auto
      then show ?thesis using n rw by (intro disjI1 exI [of _ "Suc n"]) simp
    next
      assume n: "\<forall>i<m. \<not> final_reply (reply (Suc k + i))" "r' = None" "length ws' = m"
      have "\<not> final_reply (reply (k + i))" if "i < Suc m" for i using that n(1) False by (cases i) auto
      then show ?thesis using n rw by (intro disjI2) simp
    qed
  qed
qed simp

text \<open>C21: the submission thread reports success exactly when one of the first 40 attempts got a reply with a null result and all before it got
  none from the node; every other reply is reported as a rejection, and no reply at all as such.\<close>

theorem submission_reports:
  "fst (datum_submitblock_doit reply) = Accepted \<longleftrightarrow>
     (\<exists>n < 40. (\<forall>i < n. \<not> final_reply (reply i)) \<and> (\<exists>v. fst (reply n) = Some v \<and> json_object_get v ''result'' = Some JNull))"
proof -
  obtain r ws where a: "submit_attempts reply 40 0 100 = (r, ws)" by fastforce
  have acc: "judge_reply x = Accepted \<longleftrightarrow> (\<exists>v. x = Some v \<and> json_object_get v ''result'' = Some JNull)" for x
    by (auto simp: judge_reply_def split: option.split json.split)
  have d: "fst (datum_submitblock_doit reply) = judge_reply r"
    by (simp add: datum_submitblock_doit_def DATUM_SUBMITBLOCK_MAX_ATTEMPTS_def DATUM_SUBMITBLOCK_BACKOFF_MS_def a)
  from attempts_first [OF a] show ?thesis
  proof (elim disjE exE conjE)
    fix n assume n: "n < 40" "\<forall>i<n. \<not> final_reply (reply (0 + i))" "final_reply (reply (0 + n))" "r = fst (reply (0 + n))"
    have "m = n" if "\<forall>i<m. \<not> final_reply (reply i)" "fst (reply m) = Some v" for m v
    proof (rule linorder_cases [of m n])
      assume "m < n"
      then show ?thesis using that(2) n(2) by (simp add: final_reply_def)
    qed (use that(1) n(3) in auto)
    then have "(\<exists>m < 40. (\<forall>i < m. \<not> final_reply (reply i)) \<and> (\<exists>v. fst (reply m) = Some v \<and> json_object_get v ''result'' = Some JNull))
      \<longleftrightarrow> (\<exists>v. fst (reply n) = Some v \<and> json_object_get v ''result'' = Some JNull)"
      using n(1,2) by (metis add_0)
    then show ?thesis using n(4) d acc by simp
  next
    assume n: "\<forall>i<40. \<not> final_reply (reply (0 + i))" "r = None"
    then show ?thesis using d acc by (auto simp: final_reply_def)
  qed
qed

theorem submission_reports_witness:
  "fst (datum_submitblock_doit (\<lambda>k. if k < 2 then (None, 503) else (Some (JObject [(''result'', JNull)]), 200))) = Accepted"
  by (subst submission_reports) (rule exI [of _ 2], simp add: final_reply_def json_object_get_def)

text \<open>Without any reply the thread gives up after 40 attempts and 115.1 seconds of pauses, the longest of them 3.2 seconds.\<close>

theorem submission_gives_up:
  assumes "\<And>k. \<not> final_reply (reply k)"
  shows "datum_submitblock_doit reply = (No_Reply, [100, 200, 400, 800, 1600] @ replicate 35 3200)
    \<and> sum_list (snd (datum_submitblock_doit reply)) = 115100"
proof -
  have tail: "submit_attempts reply m k 3200 = (None, replicate m 3200)" for m k
    using assms by (induction m arbitrary: k) (simp_all add: DATUM_SUBMITBLOCK_BACKOFF_MAX_MS_def)
  have "submit_attempts reply (Suc (Suc (Suc (Suc (Suc 35))))) 0 100 = (None, [100, 200, 400, 800, 1600] @ replicate 35 3200)"
    by (simp only: submit_attempts.simps assms if_False DATUM_SUBMITBLOCK_BACKOFF_MAX_MS_def) (simp add: tail)
  then have "submit_attempts reply 40 0 100 = (None, [100, 200, 400, 800, 1600] @ replicate 35 3200)" by simp
  then show ?thesis
    by (simp add: datum_submitblock_doit_def DATUM_SUBMITBLOCK_MAX_ATTEMPTS_def DATUM_SUBMITBLOCK_BACKOFF_MS_def judge_reply_def sum_list_replicate)
qed

theorem submission_gives_up_witness:
  "sum_list (snd (datum_submitblock_doit (\<lambda>_. (None, 503)))) = 115100"
  by (rule conjunct2 [OF submission_gives_up]) (simp add: final_reply_def)

text \<open>The stratum thread's own submission is judged the wrong way round: a block that the node accepts counts as not submitted, and a failed
  transfer counts as submitted.\<close>

theorem direct_submission_inverted:
  assumes "hr_ok good" "hr_json good = Some v" "json_object_get v ''result'' = Some JNull" "json_object_get v ''error'' \<in> {None, Some JNull}"
    "\<not> hr_ok bad" "hr_code bad \<noteq> 401"
  shows "judge_reply (fst (bitcoind_json_rpc_call_http u good r)) = Accepted \<and> \<not> direct_submission (fst (bitcoind_json_rpc_call_http u good r))
    \<and> judge_reply (fst (bitcoind_json_rpc_call_http u bad r)) = No_Reply \<and> direct_submission (fst (bitcoind_json_rpc_call_http u bad r))"
  using assms by (auto simp: bitcoind_json_rpc_call_http_def json_rpc_call_full_def judge_reply_def direct_submission_def)

theorem direct_submission_inverted_witness:
  "\<not> direct_submission (fst (bitcoind_json_rpc_call_http True \<lparr>hr_ok = True, hr_code = 200, hr_json = Some (JObject [(''result'', JNull), (''error'', JNull)])\<rparr> None))
   \<and> direct_submission (fst (bitcoind_json_rpc_call_http True \<lparr>hr_ok = False, hr_code = 503, hr_json = None\<rparr> None))"
  using direct_submission_inverted [of "\<lparr>hr_ok = True, hr_code = 200, hr_json = Some (JObject [(''result'', JNull), (''error'', JNull)])\<rparr>"
      "JObject [(''result'', JNull), (''error'', JNull)]" "\<lparr>hr_ok = False, hr_code = 503, hr_json = None\<rparr>" True None]
  by (simp add: json_object_get_def)

section \<open>The mailbox\<close>

text \<open>The globals of the thread, and the blocks handed over and submitted so far.\<close>

record mailbox =
  mb_ptr :: "string option"
  mb_hash :: string
  mb_triggered :: bool
  mb_asked :: "(string \<times> string) list"
  mb_done :: "(string \<times> string) list"

definition empty_mailbox :: mailbox where
  "empty_mailbox = \<lparr>mb_ptr = None, mb_hash = '''', mb_triggered = False, mb_asked = [], mb_done = []\<rparr>"

definition mailbox_free :: "mailbox \<Rightarrow> bool" where
  "mailbox_free M \<longleftrightarrow> \<not> (mb_triggered M \<or> mb_ptr M \<noteq> None)"

text \<open>
  Each step runs under the mutex; \<open>None\<close> is a thread that goes on waiting. A request without a block or with a hash that
  is too long is refused.
\<close>

definition datum_submitblock_trigger :: "string option \<Rightarrow> string option \<Rightarrow> mailbox \<Rightarrow> mailbox option" where
  "datum_submitblock_trigger ptr hash M =
     (case (ptr, hash) of
        (Some p, Some h) \<Rightarrow> if length h \<ge> 256 then Some M
          else if \<not> mailbox_free M then None
          else Some (M\<lparr>mb_ptr := Some p, mb_hash := h, mb_triggered := True, mb_asked := mb_asked M @ [(p, h)]\<rparr>)
      | _ \<Rightarrow> Some M)"

definition datum_submitblock_thread :: "mailbox \<Rightarrow> mailbox option" where
  "datum_submitblock_thread M =
     (if \<not> mb_triggered M then None
      else Some (M\<lparr>mb_ptr := None, mb_triggered := False,
             mb_done := (case mb_ptr M of None \<Rightarrow> mb_done M | Some p \<Rightarrow> mb_done M @ [(p, mb_hash M)])\<rparr>))"

definition datum_submitblock_waitfree :: "mailbox \<Rightarrow> mailbox option" where
  "datum_submitblock_waitfree M = (if mailbox_free M then Some M else None)"

inductive mb_reach :: "mailbox \<Rightarrow> bool" where
  start: "mb_reach empty_mailbox"
| trigger: "mb_reach M \<Longrightarrow> datum_submitblock_trigger p h M = Some M' \<Longrightarrow> mb_reach M'"
| submit: "mb_reach M \<Longrightarrow> datum_submitblock_thread M = Some M' \<Longrightarrow> mb_reach M'"

definition waiting_block :: "mailbox \<Rightarrow> (string \<times> string) list" where
  "waiting_block M = (case mb_ptr M of None \<Rightarrow> [] | Some p \<Rightarrow> [(p, mb_hash M)])"

lemma mailbox_inv: "mb_reach M \<Longrightarrow> (mb_triggered M \<longleftrightarrow> mb_ptr M \<noteq> None) \<and> mb_asked M = mb_done M @ waiting_block M"
proof (induction rule: mb_reach.induct)
  case start
  then show ?case by (simp add: empty_mailbox_def waiting_block_def)
next
  case (trigger M p h M')
  then show ?case by (auto simp: datum_submitblock_trigger_def mailbox_free_def waiting_block_def split: option.splits if_splits)
next
  case (submit M M')
  then show ?case by (auto simp: datum_submitblock_thread_def waiting_block_def split: option.splits if_splits)
qed



end
