(* ===== verification/Wire.thy ===== *)
theory Wire
  imports Bytes
begin

text \<open>
  The connection to the pool on the wire, \<^verbatim>\<open>src/src/datum_protocol.c\<close>: the 32-bit header with its
  rolling mask, the session nonce, the buffer of bytes to send, and the state machine that reads commands from the socket in whatever
  pieces they arrive. The box cipher of libsodium is an argument.
\<close>

section \<open>Header\<close>

text \<open>
  A packed struct of bit fields, the first in the lowest bits, as compilers lay it out on little-endian machines.
\<close>

record header =
  h_cmd_len :: nat
  h_reserved :: nat
  h_signed :: bool
  h_encrypted_pubkey :: bool
  h_encrypted_channel :: bool
  h_proto_cmd :: nat

definition header_word :: "header \<Rightarrow> u32" where
  "header_word h = word_of_nat (h_cmd_len h mod 2 ^ 22 + 2 ^ 22 * (h_reserved h mod 4) + 2 ^ 24 * of_bool (h_signed h)
     + 2 ^ 25 * of_bool (h_encrypted_pubkey h) + 2 ^ 26 * of_bool (h_encrypted_channel h) + 2 ^ 27 * (h_proto_cmd h mod 32))"

definition word_header :: "u32 \<Rightarrow> header" where
  "word_header w =
     (let n = unat w
      in \<lparr>h_cmd_len = n mod 2 ^ 22, h_reserved = n div 2 ^ 22 mod 4, h_signed = odd (n div 2 ^ 24), h_encrypted_pubkey = odd (n div 2 ^ 25),
          h_encrypted_channel = odd (n div 2 ^ 26), h_proto_cmd = n div 2 ^ 27\<rparr>)"

definition wire_header_ok :: "header \<Rightarrow> bool" where
  "wire_header_ok h \<longleftrightarrow> h_cmd_len h < 2 ^ 22 \<and> h_reserved h < 4 \<and> h_proto_cmd h < 32"

definition datum_xor_header_key :: "u32 \<Rightarrow> u32 \<Rightarrow> u32" where
  "datum_xor_header_key w key = w XOR key"

definition datum_header_xor_feedback :: "u32 \<Rightarrow> u32" where
  "datum_header_xor_feedback i =
     (let h = 0xb10cfeed;
          k = i * 0xcc9e2d51;
          k = push_bit 15 k OR drop_bit 17 k;
          k = k * 0x1b873593;
          h = h XOR k;
          h = push_bit 13 h OR drop_bit 19 h;
          h = h * 5 + 0xe6546b64;
          h = h XOR 4;
          h = h XOR drop_bit 16 h;
          h = h * 0x85ebca6b;
          h = h XOR drop_bit 13 h;
          h = h * 0xc2b2ae35
      in h XOR drop_bit 16 h)"

lemma header_value:
  assumes "a < 2 ^ 22" "r < 4" "p < 32"
  shows "unat (word_of_nat (a + 2 ^ 22 * r + 2 ^ 24 * of_bool s + 2 ^ 25 * of_bool e + 2 ^ 26 * of_bool c + 2 ^ 27 * p) :: u32)
    = a + 2 ^ 22 * r + 2 ^ 24 * of_bool s + 2 ^ 25 * of_bool e + 2 ^ 26 * of_bool c + 2 ^ 27 * p"
  using assms by (cases s; cases e; cases c) (simp_all add: unat_of_nat del: of_nat_add of_nat_mult)

lemma word_header_word:
  assumes "wire_header_ok h"
  shows "word_header (header_word h) = h"
proof -
  have o: "h_cmd_len h < 2 ^ 22" "h_reserved h < 4" "h_proto_cmd h < 32" using assms by (simp_all add: wire_header_ok_def)
  then have m: "h_cmd_len h mod 2 ^ 22 = h_cmd_len h" "h_reserved h mod 4 = h_reserved h" "h_proto_cmd h mod 32 = h_proto_cmd h" by simp_all
  have v: "unat (header_word h) = h_cmd_len h + 2 ^ 22 * h_reserved h + 2 ^ 24 * of_bool (h_signed h) + 2 ^ 25 * of_bool (h_encrypted_pubkey h)
      + 2 ^ 26 * of_bool (h_encrypted_channel h) + 2 ^ 27 * h_proto_cmd h"
    unfolding header_word_def m by (rule header_value [OF o])
  define A where "A = of_bool (h_encrypted_channel h) + 2 * h_proto_cmd h"
  define B where "B = of_bool (h_encrypted_pubkey h) + 2 * A"
  define D where "D = of_bool (h_signed h) + 2 * B"
  define q where "q = h_reserved h + 4 * D"
  have n: "unat (header_word h) = h_cmd_len h + 2 ^ 22 * q" by (simp add: v q_def D_def B_def A_def)
  have q: "(h_cmd_len h + 2 ^ 22 * q) div 2 ^ 22 = q" "(h_cmd_len h + 2 ^ 22 * q) mod 2 ^ 22 = h_cmd_len h" using o(1) by simp_all
  have d: "q div 4 = D" "q mod 4 = h_reserved h" using o(2) by (simp_all add: q_def)
  have e: "D div 2 = B" "odd D = h_signed h" "B div 2 = A" "odd B = h_encrypted_pubkey h" "A div 2 = h_proto_cmd h" "odd A = h_encrypted_channel h"
    by (simp_all add: D_def B_def A_def)
  have "x div 2 ^ 24 = x div 2 ^ 22 div 4" "x div 2 ^ 25 = x div 2 ^ 22 div 4 div 2" "x div 2 ^ 26 = x div 2 ^ 22 div 4 div 2 div 2"
    "x div 2 ^ 27 = x div 2 ^ 22 div 4 div 2 div 2 div 2" for x :: nat
    by (simp_all add: div_mult2_eq [symmetric])
  then show ?thesis unfolding word_header_def n Let_def by (simp only: q d e) simp
qed

lemma header_word_word: "header_word (word_header w) = w"
proof -
  define n where "n = unat w"
  define q where "q = n div 2 ^ 22"
  define D where "D = q div 4"
  define B where "B = D div 2"
  define A where "A = B div 2"
  have n: "n < 2 ^ 32" using unsigned_less [of w, where ?'a = nat] by (simp add: n_def)
  have d: "x div 2 ^ 24 = x div 2 ^ 22 div 4" "x div 2 ^ 25 = x div 2 ^ 22 div 4 div 2" "x div 2 ^ 26 = x div 2 ^ 22 div 4 div 2 div 2"
    "x div 2 ^ 27 = x div 2 ^ 22 div 4 div 2 div 2 div 2" for x :: nat
    by (simp_all add: div_mult2_eq [symmetric])
  have p: "A div 2 < 32" using n by (simp add: A_def B_def D_def q_def div_mult2_eq [symmetric] less_mult_imp_div_less)
  have c: "n mod 2 ^ 22 + 2 ^ 22 * q = n" "q mod 4 + 4 * D = q" "of_bool (odd D) + 2 * B = D" "of_bool (odd B) + 2 * A = B" "of_bool (odd A) + 2 * (A div 2) = A"
    by (simp_all add: q_def D_def B_def A_def of_bool_odd_eq_mod_2)
  have "n mod 2 ^ 22 + 2 ^ 22 * (q mod 4 + 4 * (of_bool (odd D) + 2 * (of_bool (odd B) + 2 * (of_bool (odd A) + 2 * (A div 2))))) = n"
    by (simp only: c)
  then have "n mod 2 ^ 22 + 2 ^ 22 * (q mod 4) + 2 ^ 24 * of_bool (odd D) + 2 ^ 25 * of_bool (odd B) + 2 ^ 26 * of_bool (odd A) + 2 ^ 27 * (A div 2) = n"
    by (simp add: distrib_left)
  note sum = this
  have "h_cmd_len (word_header w) mod 2 ^ 22 = n mod 2 ^ 22" "h_reserved (word_header w) mod 4 = q mod 4" "h_signed (word_header w) = odd D"
    "h_encrypted_pubkey (word_header w) = odd B" "h_encrypted_channel (word_header w) = odd A" "h_proto_cmd (word_header w) mod 32 = A div 2"
    using p by (simp_all add: word_header_def Let_def n_def q_def D_def B_def A_def div_mult2_eq [symmetric])
  then have "header_word (word_header w) = word_of_nat n" unfolding header_word_def by (simp only: sum)
  then show ?thesis by (simp add: n_def)
qed

lemma word_header_ok: "wire_header_ok (word_header w)"
  using unsigned_less [of w, where ?'a = nat] by (simp add: wire_header_ok_def word_header_def Let_def less_mult_imp_div_less)

section \<open>Nonce\<close>

text \<open>24 bytes seen as six words.\<close>

fun datum_increment_session_nonce :: "u32 list \<Rightarrow> u32 list" where
  "datum_increment_session_nonce [] = []"
| "datum_increment_session_nonce (x # xs) = (if x + 1 = 0 then 0 # datum_increment_session_nonce xs else (x + 1) # xs)"

fun nonce_value :: "u32 list \<Rightarrow> nat" where
  "nonce_value [] = 0"
| "nonce_value (x # xs) = unat x + 2 ^ 32 * nonce_value xs"

lemma nonce_value_less: "nonce_value xs < 2 ^ (32 * length xs)"
proof (induction xs)
  case (Cons x xs)
  have "unat x < 2 ^ 32" using unsigned_less [of x, where ?'a = nat] by simp
  then have "unat x + 2 ^ 32 * nonce_value xs < 2 ^ 32 * (nonce_value xs + 1)" by simp
  also have "\<dots> \<le> 2 ^ 32 * 2 ^ (32 * length xs)" using Cons.IH by (intro mult_left_mono) simp_all
  finally show ?case by (simp add: power_add)
qed simp

lemma nonce_increment: "nonce_value (datum_increment_session_nonce xs) = (nonce_value xs + 1) mod 2 ^ (32 * length xs)"
proof (induction xs)
  case (Cons x xs)
  have n: "nonce_value (x # xs) < 2 ^ (32 * length (x # xs))" by (rule nonce_value_less)
  show ?case
  proof (cases "x + 1 = 0")
    case True
    then have "x = - 1" by (simp add: eq_neg_iff_add_eq_0)
    then have x: "unat x = 2 ^ 32 - 1" by (simp add: unsigned_minus_1_eq_mask mask_eq_exp_minus_1)
    have "(nonce_value (x # xs) + 1) mod 2 ^ (32 * length (x # xs)) = (2 ^ 32 * (nonce_value xs + 1)) mod (2 ^ 32 * 2 ^ (32 * length xs))"
      by (simp add: x power_add)
    also have "\<dots> = 2 ^ 32 * ((nonce_value xs + 1) mod 2 ^ (32 * length xs))" by (rule mult_mod_right [symmetric])
    finally show ?thesis using Cons.IH True by simp
  next
    case False
    then have x: "unat (x + 1) = unat x + 1" by (metis Suc_eq_plus1 unatSuc add.commute)
    have "nonce_value ((x + 1) # xs) < 2 ^ (32 * length ((x + 1) # xs))" by (rule nonce_value_less)
    then have "(nonce_value (x # xs) + 1) mod 2 ^ (32 * length (x # xs)) = nonce_value (x # xs) + 1" using x by simp
    then show ?thesis using False x by simp
  qed
qed simp

lemma nonce_length: "length (datum_increment_session_nonce xs) = length xs"
  by (induction xs) auto

lemma nonce_iterate: "nonce_value ((datum_increment_session_nonce ^^ k) xs) = (nonce_value xs + k) mod 2 ^ (32 * length xs)"
proof -
  have l: "length ((datum_increment_session_nonce ^^ k) xs) = length xs" for k by (induction k) (simp_all add: nonce_length)
  show ?thesis by (induction k) (simp_all add: nonce_value_less nonce_increment l mod_Suc_eq)
qed

text \<open>C0: the nonce of a session is a counter of 192 bits: within 2^192 messages no nonce is used twice.\<close>

theorem nonce_never_repeats:
  assumes "length n = 6" "i < j" "j < 2 ^ 192"
  shows "(datum_increment_session_nonce ^^ i) n \<noteq> (datum_increment_session_nonce ^^ j) n"
proof
  assume "(datum_increment_session_nonce ^^ i) n = (datum_increment_session_nonce ^^ j) n"
  then have "(nonce_value n + i) mod 2 ^ 192 = (nonce_value n + j) mod 2 ^ 192"
    using nonce_iterate [of i n] nonce_iterate [of j n] assms(1) by simp
  then have "2 ^ 192 dvd j - i" using mod_eq_dvd_iff_nat [of "nonce_value n + i" "nonce_value n + j" "2 ^ 192"] assms(2) by simp
  then have "2 ^ 192 \<le> j - i" using assms(2) by (intro dvd_imp_le) simp_all
  then show False using assms(2,3) by linarith
qed

theorem nonce_never_repeats_witness:
  "(datum_increment_session_nonce ^^ 5) [0xffffffff, 0xffffffff, 3, 0, 0, 0] \<noteq> (datum_increment_session_nonce ^^ 1000000) [0xffffffff, 0xffffffff, 3, 0, 0, 0]"
  by (rule nonce_never_repeats) simp_all

section \<open>Sending\<close>

definition crypto_box_MACBYTES :: nat where "crypto_box_MACBYTES = 16"
definition DATUM_PROTOCOL_MAX_CMD_DATA_SIZE :: nat where "DATUM_PROTOCOL_MAX_CMD_DATA_SIZE = 4194304"
definition DATUM_PROTOCOL_BUFFER_SIZE :: nat where "DATUM_PROTOCOL_BUFFER_SIZE = DATUM_PROTOCOL_MAX_CMD_DATA_SIZE * 3"

record sender =
  out_buf :: bytes
  sending_header_key :: u32
  session_nonce_sender :: "u32 list"

definition datum_protocol_chars_to_server :: "bytes \<Rightarrow> sender \<Rightarrow> int \<times> sender" where
  "datum_protocol_chars_to_server s S =
     (if s = [] then (0, S)
      else if length (out_buf S) + length s \<ge> DATUM_PROTOCOL_BUFFER_SIZE then (-1, S)
      else (int (length s), S\<lparr>out_buf := out_buf S @ s\<rparr>))"

definition word_bytes :: "u32 \<Rightarrow> bytes" where
  "word_bytes w = le_bytes 4 (unat w)"

definition mining_header :: "nat \<Rightarrow> header" where
  "mining_header len =
     \<lparr>h_cmd_len = (len mod 2 ^ 22 + crypto_box_MACBYTES) mod 2 ^ 22, h_reserved = 0, h_signed = False, h_encrypted_pubkey = False,
      h_encrypted_channel = True, h_proto_cmd = 5\<rparr>"

text \<open>\<open>easy\<close> is the box cipher with the keys of the session: from a nonce and a message to the tag and the cipher text.\<close>

definition datum_protocol_mining_cmd :: "(u32 list \<Rightarrow> bytes \<Rightarrow> bytes) \<Rightarrow> bytes \<Rightarrow> sender \<Rightarrow> int \<times> sender" where
  "datum_protocol_mining_cmd easy message S =
     (let boxed = easy (session_nonce_sender S) message;
          w = datum_xor_header_key (header_word (mining_header (length message))) (sending_header_key S);
          S = S\<lparr>sending_header_key := datum_header_xor_feedback (sending_header_key S),
                session_nonce_sender := datum_increment_session_nonce (session_nonce_sender S)\<rparr>;
          (i, S) = datum_protocol_chars_to_server (word_bytes w) S
      in if i < 1 then (-1, S)
         else let (i, S) = datum_protocol_chars_to_server (take (length message + crypto_box_MACBYTES) boxed) S
              in if i < 1 then (-1, S) else (0, S))"

text \<open>Commands as they follow one another on the wire.\<close>

fun encode_frames :: "u32 \<Rightarrow> (header \<times> bytes) list \<Rightarrow> bytes" where
  "encode_frames key [] = []"
| "encode_frames key ((h, d) # fs) = word_bytes (datum_xor_header_key (header_word h) key) @ d @ encode_frames (datum_header_xor_feedback key) fs"

lemma encode_frames_append:
  "encode_frames key (fs @ gs) = encode_frames key fs @ encode_frames ((datum_header_xor_feedback ^^ length fs) key) gs"
  by (induction key fs rule: encode_frames.induct) (simp_all add: funpow_swap1)

lemma length_word_bytes [simp]: "length (word_bytes w) = 4"
  by (simp add: word_bytes_def)

lemma word_bytes_not_Nil [simp]: "word_bytes w \<noteq> []"
  using length_word_bytes [of w] by (metis list.size(3) zero_neq_numeral)

text \<open>C0: a command that no longer fits the send buffer is dropped, but the header mask and the nonce have moved on, and its header may already be in the buffer: the peer can no longer read what follows.\<close>

theorem mining_cmd_overflow:
  assumes "DATUM_PROTOCOL_BUFFER_SIZE \<le> length (out_buf S) + 4 + length message + crypto_box_MACBYTES"
    "length (easy (session_nonce_sender S) message) = length message + crypto_box_MACBYTES"
  shows "\<exists>S'. datum_protocol_mining_cmd easy message S = (-1, S')
    \<and> sending_header_key S' = datum_header_xor_feedback (sending_header_key S)
    \<and> session_nonce_sender S' = datum_increment_session_nonce (session_nonce_sender S)
    \<and> out_buf S' = out_buf S @ (if DATUM_PROTOCOL_BUFFER_SIZE \<le> length (out_buf S) + 4 then []
        else word_bytes (datum_xor_header_key (header_word (mining_header (length message))) (sending_header_key S)))"
  using assms by (simp add: datum_protocol_mining_cmd_def datum_protocol_chars_to_server_def Let_def crypto_box_MACBYTES_def)

theorem mining_cmd_overflow_witness:
  "\<exists>S'. datum_protocol_mining_cmd (\<lambda>_ m. replicate 16 0 @ m) [1, 2, 3] \<lparr>out_buf = replicate 12582900 0, sending_header_key = 7, session_nonce_sender = [1, 0, 0, 0, 0, 0]\<rparr> = (-1, S')
     \<and> session_nonce_sender S' = [2, 0, 0, 0, 0, 0] \<and> length (out_buf S') = 12582904"
  using mining_cmd_overflow [of "\<lparr>out_buf = replicate 12582900 0, sending_header_key = 7, session_nonce_sender = [1, 0, 0, 0, 0, 0]\<rparr>" "[1, 2, 3]"
      "\<lambda>_ m. replicate 16 0 @ m"]
  by (auto simp: DATUM_PROTOCOL_BUFFER_SIZE_def DATUM_PROTOCOL_MAX_CMD_DATA_SIZE_def crypto_box_MACBYTES_def)

lemma mining_cmd_fits:
  assumes "length (easy (session_nonce_sender S) message) = length message + crypto_box_MACBYTES"
    "length (out_buf S) + 4 + length message + crypto_box_MACBYTES < DATUM_PROTOCOL_BUFFER_SIZE"
  shows "datum_protocol_mining_cmd easy message S = (0, S\<lparr>sending_header_key := datum_header_xor_feedback (sending_header_key S),
        session_nonce_sender := datum_increment_session_nonce (session_nonce_sender S),
        out_buf := out_buf S @ encode_frames (sending_header_key S) [(mining_header (length message), easy (session_nonce_sender S) message)]\<rparr>)"
proof -
  have "easy (session_nonce_sender S) message \<noteq> []" using assms(1) by (auto simp: crypto_box_MACBYTES_def)
  then show ?thesis using assms by (simp add: datum_protocol_mining_cmd_def datum_protocol_chars_to_server_def Let_def crypto_box_MACBYTES_def)
qed

section \<open>Receiving\<close>

text \<open>
  The socket holds the bytes that have arrived and are unread; a read of up to \<open>n\<close> bytes gives as many of them as there are.
  Each step is one entry into a case of the state machine: it ends the event, falls through to the next case, delivers a command, or
  gives up the connection.
\<close>

record reader =
  rd_state :: nat
  rd_head :: bytes
  rd_header :: header
  rd_buf :: bytes
  rd_key :: u32

datatype action = Wait | Next | Deliver header bytes | Break

definition head_word :: "bytes \<Rightarrow> u32" where
  "head_word bs = word_of_nat (le_val bs)"

definition read_header :: "reader \<Rightarrow> bytes \<Rightarrow> action \<times> reader \<times> bytes" where
  "read_header r unread =
     (if unread = [] then (Wait, r, unread)
      else let got = take 4 unread; n = length got
           in if n \<noteq> 4 then (Wait, r\<lparr>rd_state := 4 - n, rd_head := got\<rparr>, drop n unread)
              else (Next, r\<lparr>rd_state := 4, rd_head := got\<rparr>, drop n unread))"

definition read_header_rest :: "reader \<Rightarrow> bytes \<Rightarrow> action \<times> reader \<times> bytes" where
  "read_header_rest r unread =
     (if unread = [] then (Wait, r, unread)
      else let got = take (rd_state r) unread; n = length got; r' = r\<lparr>rd_head := rd_head r @ got\<rparr>
           in if n + (4 - rd_state r) \<noteq> 4
              then if n + rd_state r > 4 then (Break, r', drop n unread)
                   else (Wait, r'\<lparr>rd_state := 4 - n - (4 - rd_state r)\<rparr>, drop n unread)
              else (Wait, r'\<lparr>rd_state := 4\<rparr>, drop n unread))"

definition read_data :: "reader \<Rightarrow> bytes \<Rightarrow> action \<times> reader \<times> bytes" where
  "read_data r unread =
     (let h = word_header (datum_xor_header_key (head_word (rd_head r)) (rd_key r));
          r = r\<lparr>rd_header := h, rd_key := datum_header_xor_feedback (rd_key r), rd_state := 5, rd_buf := []\<rparr>
      in if h_cmd_len h = 0 then (Next, r, unread)
         else if unread = [] then (Wait, r, unread)
         else let got = take (h_cmd_len h) unread; n = length got; r = r\<lparr>rd_buf := got\<rparr>
              in if n < h_cmd_len h then (Wait, r, drop n unread) else (Next, r, drop n unread))"

definition deliver :: "reader \<Rightarrow> bytes \<Rightarrow> action \<times> reader \<times> bytes" where
  "deliver r unread = (Deliver (rd_header r) (rd_buf r), r\<lparr>rd_state := 0, rd_buf := []\<rparr>, unread)"

definition read_data_rest :: "reader \<Rightarrow> bytes \<Rightarrow> action \<times> reader \<times> bytes" where
  "read_data_rest r unread =
     (if length (rd_buf r) < h_cmd_len (rd_header r)
      then if unread = [] then (Wait, r, unread)
           else let got = take (h_cmd_len (rd_header r) - length (rd_buf r)) unread; n = length got; r = r\<lparr>rd_buf := rd_buf r @ got\<rparr>
                in if length (rd_buf r) < h_cmd_len (rd_header r) then (Wait, r, drop n unread) else deliver r (drop n unread)
      else deliver r unread)"

definition read_step :: "reader \<Rightarrow> bytes \<Rightarrow> action \<times> reader \<times> bytes" where
  "read_step r unread =
     (if rd_state r = 0 then read_header r unread
      else if rd_state r \<le> 3 then read_header_rest r unread
      else if rd_state r = 4 then read_data r unread
      else if rd_state r = 5 then read_data_rest r unread
      else (Break, r, unread))"

subsection \<open>Any split of the stream\<close>

definition mask_at :: "u32 \<Rightarrow> nat \<Rightarrow> u32" where
  "mask_at key n = (datum_header_xor_feedback ^^ n) key"

definition frame_ok :: "header \<times> bytes \<Rightarrow> bool" where
  "frame_ok f \<longleftrightarrow> wire_header_ok (fst f) \<and> length (snd f) = h_cmd_len (fst f)"

definition masked_header :: "header \<Rightarrow> u32 \<Rightarrow> bytes" where
  "masked_header h key = word_bytes (datum_xor_header_key (header_word h) key)"

lemma head_word_bytes [simp]: "head_word (word_bytes w) = w"
  using unat_u32_less [of w] by (simp add: head_word_def word_bytes_def le_val_bytes)

lemma word_bytes_head [simp]:
  assumes "length bs = 4"
  shows "word_bytes (head_word bs) = bs"
proof -
  have "le_val bs < 2 ^ 32" using le_val_less [of bs] assms by simp
  then have "unat (word_of_nat (le_val bs) :: u32) = le_val bs" by (simp add: unat_of_nat)
  then show ?thesis using le_bytes_val [of bs] assms by (simp add: word_bytes_def head_word_def)
qed

lemma xor_key_twice [simp]: "datum_xor_header_key (datum_xor_header_key w key) key = w"
  by (simp add: datum_xor_header_key_def xor.assoc)

lemma length_masked_header [simp]: "length (masked_header h key) = 4"
  by (simp add: masked_header_def)

lemma unmask_header [simp]: "wire_header_ok h \<Longrightarrow> word_header (datum_xor_header_key (head_word (masked_header h key)) key) = h"
  by (simp add: masked_header_def word_header_word)

lemma mask_header [simp]:
  "length bs = 4 \<Longrightarrow> masked_header (word_header (datum_xor_header_key (head_word bs) key)) key = bs"
  by (simp add: masked_header_def header_word_word)

lemma mask_at_Suc: "mask_at key (Suc n) = datum_header_xor_feedback (mask_at key n)"
  by (simp add: mask_at_def)

lemma encode_frames_snoc:
  "encode_frames key (fs @ [(h, d)]) = encode_frames key fs @ masked_header h (mask_at key (length fs)) @ d"
  by (simp add: encode_frames_append masked_header_def mask_at_def)

lemma encode_frames_inj:
  assumes "\<forall>f\<in>set fs. frame_ok f" "\<forall>f\<in>set gs. frame_ok f" "encode_frames key fs @ rest = encode_frames key gs"
  shows "\<exists>hs. gs = fs @ hs \<and> rest = encode_frames (mask_at key (length fs)) hs"
  using assms
proof (induction fs arbitrary: gs key)
  case (Cons f fs)
  obtain h d where f: "f = (h, d)" by (cases f)
  then have eq: "masked_header h key @ d @ encode_frames (datum_header_xor_feedback key) fs @ rest = encode_frames key gs"
    using Cons.prems(3) by (simp add: masked_header_def)
  have "gs \<noteq> []" using eq length_masked_header [of h key] by (metis Nil_is_append_conv encode_frames.simps(1) list.size(3) zero_neq_numeral)
  then obtain h' d' gs' where gs: "gs = (h', d') # gs'" by (cases gs) auto
  then have eq: "masked_header h key @ d @ encode_frames (datum_header_xor_feedback key) fs @ rest
      = masked_header h' key @ d' @ encode_frames (datum_header_xor_feedback key) gs'"
    using eq by (simp add: masked_header_def)
  then have "masked_header h key = masked_header h' key" by (metis append_eq_append_conv length_masked_header)
  then have h: "h' = h"
    using unmask_header [of h key] unmask_header [of h' key] Cons.prems(1,2) by (simp add: f gs frame_ok_def)
  then have d: "d' = d" "encode_frames (datum_header_xor_feedback key) fs @ rest = encode_frames (datum_header_xor_feedback key) gs'"
    using eq Cons.prems(1,2) append_eq_append_conv [of d d'] by (simp_all add: f gs frame_ok_def)
  obtain hs where "gs' = fs @ hs" "rest = encode_frames (mask_at (datum_header_xor_feedback key) (length fs)) hs"
    using Cons.IH [OF _ _ d(2)] Cons.prems(1,2) by (auto simp: gs)
  then show ?case by (auto simp: f gs h d(1) mask_at_def funpow_swap1)
qed (simp add: mask_at_def)

text \<open>What has been read and not delivered, and the invariant of the state machine: all that arrived is accounted for.\<close>

definition held :: "reader \<Rightarrow> u32 \<Rightarrow> bytes" where
  "held r key = (if rd_state r = 0 then [] else if rd_state r \<le> 4 then rd_head r else masked_header (rd_header r) key @ rd_buf r)"

definition reader_ok :: "u32 \<Rightarrow> bytes \<Rightarrow> (header \<times> bytes) list \<Rightarrow> reader \<Rightarrow> bytes \<Rightarrow> bool" where
  "reader_ok key arrived msgs r unread \<longleftrightarrow>
     arrived = encode_frames key msgs @ held r (mask_at key (length msgs)) @ unread
     \<and> (\<forall>f\<in>set msgs. frame_ok f)
     \<and> rd_key r = (if rd_state r = 5 then mask_at key (Suc (length msgs)) else mask_at key (length msgs))
     \<and> rd_state r \<le> 5
     \<and> (rd_state r \<in> {1..3} \<longrightarrow> length (rd_head r) = 4 - rd_state r)
     \<and> (rd_state r = 4 \<longrightarrow> length (rd_head r) = 4)
     \<and> (rd_state r = 5 \<longrightarrow> wire_header_ok (rd_header r) \<and> length (rd_buf r) \<le> h_cmd_len (rd_header r))"

definition delivered :: "action \<Rightarrow> (header \<times> bytes) list" where
  "delivered a = (case a of Deliver h d \<Rightarrow> [(h, d)] | _ \<Rightarrow> [])"

lemma read_header_ok:
  assumes "reader_ok key arrived msgs r unread" "rd_state r = 0" "read_header r unread = (a, r', unread')"
  shows "a \<noteq> Break" "reader_ok key arrived (msgs @ delivered a) r' unread'"
  using assms by (cases unread; auto simp: reader_ok_def read_header_def Let_def held_def delivered_def split: if_splits)+

lemma read_header_rest_ok:
  assumes "reader_ok key arrived msgs r unread" "rd_state r \<in> {1..3}" "read_header_rest r unread = (a, r', unread')"
  shows "a = Break \<longleftrightarrow> rd_state r = 3 \<and> length unread = 2" "a \<noteq> Break \<Longrightarrow> reader_ok key arrived (msgs @ delivered a) r' unread'"
  using assms by (auto simp: reader_ok_def read_header_rest_def Let_def held_def delivered_def split: if_splits)

lemma read_data_ok:
  assumes "reader_ok key arrived msgs r unread" "rd_state r = 4" "read_data r unread = (a, r', unread')"
  shows "a \<noteq> Break" "reader_ok key arrived (msgs @ delivered a) r' unread'"
  using assms by (auto simp: reader_ok_def read_data_def Let_def held_def delivered_def mask_at_Suc word_header_ok split: if_splits)

lemma deliver_ok:
  assumes "reader_ok key arrived msgs r unread" "rd_state r = 5" "h_cmd_len (rd_header r) \<le> length (rd_buf r)" "deliver r unread = (a, r', unread')"
  shows "a \<noteq> Break" "reader_ok key arrived (msgs @ delivered a) r' unread'"
  using assms by (auto simp: reader_ok_def deliver_def held_def delivered_def frame_ok_def encode_frames_snoc)

lemma read_data_rest_ok:
  assumes "reader_ok key arrived msgs r unread" "rd_state r = 5" "read_data_rest r unread = (a, r', unread')"
  shows "a \<noteq> Break" "reader_ok key arrived (msgs @ delivered a) r' unread'"
proof -
  define n where "n = h_cmd_len (rd_header r) - length (rd_buf r)"
  define r1 where "r1 = r\<lparr>rd_buf := rd_buf r @ take n unread\<rparr>"
  have r1: "reader_ok key arrived msgs r1 (drop n unread)" "rd_state r1 = 5"
    using assms(1,2) by (auto simp: reader_ok_def held_def r1_def n_def)
  consider "h_cmd_len (rd_header r) \<le> length (rd_buf r)" "deliver r unread = (a, r', unread')"
    | "a = Wait" "r' = r" "unread' = unread" | "a = Wait" "r' = r1" "unread' = drop n unread"
    | "h_cmd_len (rd_header r1) \<le> length (rd_buf r1)" "deliver r1 (drop n unread) = (a, r', unread')"
    using assms(3) by (auto simp: read_data_rest_def Let_def r1_def n_def min_def split: if_splits)
  then show "a \<noteq> Break" "reader_ok key arrived (msgs @ delivered a) r' unread'"
    using assms(1,2) r1 deliver_ok by (cases; auto simp: delivered_def)+
qed

lemma read_step_ok:
  assumes "reader_ok key arrived msgs r unread" "read_step r unread = (a, r', unread')"
  shows "a = Break \<longleftrightarrow> rd_state r = 3 \<and> length unread = 2" "a \<noteq> Break \<Longrightarrow> reader_ok key arrived (msgs @ delivered a) r' unread'"
proof -
  have "rd_state r \<le> 5" using assms(1) by (simp add: reader_ok_def)
  then consider "rd_state r = 0" "read_header r unread = (a, r', unread')"
    | "rd_state r \<in> {1..3}" "read_header_rest r unread = (a, r', unread')"
    | "rd_state r = 4" "read_data r unread = (a, r', unread')" | "rd_state r = 5" "read_data_rest r unread = (a, r', unread')"
    using assms(2) unfolding read_step_def by (cases "rd_state r = 0"; cases "rd_state r \<le> 3"; cases "rd_state r = 4"; simp)
  then have "(a = Break \<longleftrightarrow> rd_state r = 3 \<and> length unread = 2) \<and> (a \<noteq> Break \<longrightarrow> reader_ok key arrived (msgs @ delivered a) r' unread')"
  proof cases
    case 1 then show ?thesis using read_header_ok [OF assms(1)] by simp
  next
    case 2 then show ?thesis using read_header_rest_ok [OF assms(1)] by blast
  next
    case 3 then show ?thesis using read_data_ok [OF assms(1)] by simp
  next
    case 4 then show ?thesis using read_data_rest_ok [OF assms(1)] by simp
  qed
  then show "a = Break \<longleftrightarrow> rd_state r = 3 \<and> length unread = 2" "a \<noteq> Break \<Longrightarrow> reader_ok key arrived (msgs @ delivered a) r' unread'"
    by blast+
qed

text \<open>At the end of an event no complete command is left in the buffer.\<close>

definition quiet_reader :: "reader \<Rightarrow> bool" where
  "quiet_reader r \<longleftrightarrow> (rd_state r = 5 \<longrightarrow> length (rd_buf r) < h_cmd_len (rd_header r))"

lemma read_data_rest_ends:
  assumes "read_data_rest r unread = (a, r', unread')"
  shows "a \<noteq> Next" "rd_state r = 5 \<Longrightarrow> a \<noteq> Break \<Longrightarrow> quiet_reader r'"
  using assms by (auto simp: read_data_rest_def deliver_def quiet_reader_def Let_def split: if_splits)

lemma read_step_next:
  assumes "read_step r unread = (a, r', unread')" "a = Next"
  shows "rd_state r = 0 \<and> rd_state r' = 4 \<or> rd_state r = 4 \<and> rd_state r' = 5"
  using assms read_data_rest_ends(1) [of r unread a r' unread']
  by (auto simp: read_step_def read_header_def read_header_rest_def read_data_def Let_def split: if_splits)

text \<open>
  Runs of the loop: bytes arrive at any moment, also between the reads of one event; an event begins when there are unread bytes,
  and goes on while a case falls through to the next.
\<close>

definition start_reader :: "u32 \<Rightarrow> reader" where
  "start_reader key = \<lparr>rd_state = 0, rd_head = [], rd_header = word_header 0, rd_buf = [], rd_key = key\<rparr>"

inductive link :: "u32 \<Rightarrow> bytes \<Rightarrow> reader \<Rightarrow> bytes \<Rightarrow> bool \<Rightarrow> (header \<times> bytes) list \<Rightarrow> bool" where
  link_start: "link key [] (start_reader key) [] False []"
| link_arrive: "link key arrived r unread mid msgs \<Longrightarrow> link key (arrived @ bs) r (unread @ bs) mid msgs"
| link_read: "link key arrived r unread mid msgs \<Longrightarrow> mid \<or> unread \<noteq> [] \<Longrightarrow> read_step r unread = (a, r', unread') \<Longrightarrow> a \<noteq> Break
    \<Longrightarrow> link key arrived r' unread' (a = Next) (msgs @ delivered a)"

lemma read_step_settled:
  assumes "read_step r unread = (a, r', unread')" "a \<noteq> Break" "a \<noteq> Next" "rd_state r \<le> 5"
  shows "quiet_reader r'"
proof (cases "rd_state r = 5")
  case True
  then show ?thesis using assms read_data_rest_ends(2) by (simp add: read_step_def)
next
  case False
  then show ?thesis using assms
    by (auto simp: read_step_def read_header_def read_header_rest_def read_data_def quiet_reader_def Let_def split: if_splits)
qed

lemma link_ok: "link key arrived r unread mid msgs \<Longrightarrow> reader_ok key arrived msgs r unread \<and> (\<not> mid \<longrightarrow> quiet_reader r)"
proof (induction rule: link.induct)
  case (link_start key)
  then show ?case by (simp add: reader_ok_def start_reader_def held_def mask_at_def quiet_reader_def)
next
  case (link_arrive key arrived r unread mid msgs bs)
  then show ?case by (simp add: reader_ok_def)
next
  case (link_read key arrived r unread mid msgs a r' unread')
  then have "rd_state r \<le> 5" by (simp add: reader_ok_def)
  then show ?case using link_read read_step_ok(2) read_step_settled by blast
qed

lemma held_frames:
  assumes ok: "reader_ok key arrived msgs r unread" "quiet_reader r" and K: "K = mask_at key (length msgs)"
    and frames: "\<forall>f\<in>set hs. frame_ok f" "held r K = encode_frames K hs"
  shows "hs = [] \<or> rd_state r = 4 \<and> (\<exists>h. hs = [(h, [])])"
proof (cases hs)
  case (Cons f fs)
  obtain h d where f: "f = (h, d)" by (cases f)
  note ok = ok [unfolded reader_ok_def quiet_reader_def]
  have h: "wire_header_ok h" "length d = h_cmd_len h" using frames(1) by (simp_all add: Cons f frame_ok_def)
  have eq: "held r K = masked_header h K @ d @ encode_frames (datum_header_xor_feedback K) fs"
    using frames(2) by (simp add: Cons f masked_header_def)
  have len: "length (held r K) = 4 + length d + length (encode_frames (datum_header_xor_feedback K) fs)" by (simp add: eq)
  have "rd_state r \<ge> 4"
  proof (rule ccontr)
    assume "\<not> 4 \<le> rd_state r"
    then have "length (held r K) < 4" using ok by (cases "rd_state r = 0") (auto simp: held_def)
    then show False using len by simp
  qed
  moreover have "rd_state r \<noteq> 5"
  proof
    assume 5: "rd_state r = 5"
    then have "masked_header (rd_header r) K @ rd_buf r = masked_header h K @ d @ encode_frames (datum_header_xor_feedback K) fs"
      using eq by (simp add: held_def)
    then have "masked_header (rd_header r) K = masked_header h K" by (metis append_eq_append_conv length_masked_header)
    then have "rd_header r = h" using unmask_header [of h K] unmask_header [of "rd_header r" K] ok 5 h(1) by simp
    then show False using ok 5 len h(2) by (simp add: held_def)
  qed
  ultimately have 4: "rd_state r = 4" using ok by simp
  then have "d = []" "encode_frames (datum_header_xor_feedback K) fs = []" using ok len by (simp_all add: held_def)
  moreover have "fs = []" using \<open>encode_frames _ fs = []\<close> by (cases fs) auto
  ultimately show ?thesis using 4 by (simp add: Cons f)
qed simp

lemma link_prefix:
  assumes "link key arrived r unread mid msgs" "\<forall>f\<in>set sent. frame_ok f" "arrived @ later = encode_frames key sent"
  shows "\<exists>rest. sent = msgs @ rest \<and> (\<not> mid \<and> unread = [] \<and> later = [] \<longrightarrow> rest = [] \<or> rd_state r = 4 \<and> (\<exists>h. rest = [(h, [])]))"
proof -
  have ok: "reader_ok key arrived msgs r unread" "\<not> mid \<longrightarrow> quiet_reader r" using link_ok [OF assms(1)] by simp_all
  have "\<exists>hs. sent = msgs @ hs \<and> held r (mask_at key (length msgs)) @ unread @ later = encode_frames (mask_at key (length msgs)) hs"
    using ok(1) assms(2,3) by (intro encode_frames_inj) (auto simp: reader_ok_def)
  then obtain hs where "sent = msgs @ hs" "held r (mask_at key (length msgs)) @ unread @ later = encode_frames (mask_at key (length msgs)) hs" by blast
  then show ?thesis using held_frames [OF ok(1), of "mask_at key (length msgs)" hs] ok(2) assms(2) by auto
qed

lemma link_frame:
  assumes "link key arrived r [] False msgs" "rd_state r = 0" "frame_ok (h, d)"
  shows "\<exists>r'. link key (arrived @ masked_header h (mask_at key (length msgs)) @ d) r' [] False (msgs @ [(h, d)]) \<and> rd_state r' = 0"
proof -
  let ?m = "masked_header h (mask_at key (length msgs))"
  let ?r1 = "r\<lparr>rd_state := 4, rd_head := ?m\<rparr>"
  let ?r2 = "?r1\<lparr>rd_header := h, rd_key := datum_header_xor_feedback (rd_key r), rd_state := 5, rd_buf := d\<rparr>"
  let ?r3 = "?r2\<lparr>rd_state := 0, rd_buf := []\<rparr>"
  have h: "wire_header_ok h" "length d = h_cmd_len h" using assms(3) by (simp_all add: frame_ok_def)
  have key: "rd_key r = mask_at key (length msgs)" using link_ok [OF assms(1)] assms(2) by (simp add: reader_ok_def)
  have n: "?m \<noteq> []" by (simp add: masked_header_def)
  have "link key (arrived @ ?m @ d) r (?m @ d) False msgs" using link_arrive [OF assms(1), of "?m @ d"] by simp
  moreover have "read_step r (?m @ d) = (Next, ?r1, d)" using assms(2) n by (simp add: read_step_def read_header_def)
  ultimately have "link key (arrived @ ?m @ d) ?r1 d True msgs" using link_read n by (fastforce simp: delivered_def)
  moreover have "read_step ?r1 d = (Next, ?r2, [])" using h(1) h(2) [symmetric] key by (cases "d = []") (simp_all add: read_step_def read_data_def Let_def)
  ultimately have "link key (arrived @ ?m @ d) ?r2 [] True msgs" using link_read by (fastforce simp: delivered_def)
  moreover have "read_step ?r2 [] = (Deliver h d, ?r3, [])" using h by (simp add: read_step_def read_data_rest_def deliver_def)
  ultimately have "link key (arrived @ ?m @ d) ?r3 [] False (msgs @ [(h, d)])" using link_read [of key _ ?r2 "[]" True msgs "Deliver h d"] by (simp add: delivered_def)
  then show ?thesis by fastforce
qed

lemma link_frames: "\<forall>f\<in>set fs. frame_ok f \<Longrightarrow> \<exists>r. link key (encode_frames key fs) r [] False fs \<and> rd_state r = 0"
proof (induction fs rule: rev_induct)
  case Nil
  then show ?case using link_start [of key] by (fastforce simp: start_reader_def)
next
  case (snoc f fs)
  obtain h d where f: "f = (h, d)" by (cases f)
  obtain r where "link key (encode_frames key fs) r [] False fs" "rd_state r = 0" using snoc by auto
  then show ?case using link_frame [of key _ r fs h d] snoc.prems by (simp add: f encode_frames_snoc)
qed

text \<open>C10: whatever pieces the stream of the pool arrives in, the commands delivered are the first ones that were sent, each whole and once;
  when every byte has been read, all were delivered, except that a last command without data may wait for the next byte to arrive.\<close>

theorem commands_delivered:
  assumes "link key arrived r unread mid msgs" "\<forall>f\<in>set sent. frame_ok f" "arrived @ later = encode_frames key sent"
  shows "\<exists>rest. sent = msgs @ rest \<and> (\<not> mid \<and> unread = [] \<and> later = [] \<longrightarrow> rest = [] \<or> rd_state r = 4 \<and> (\<exists>h. rest = [(h, [])]))"
  using link_prefix [OF assms] .

text \<open>The reader gives up a connection in exactly one situation, and one that is no fault of the peer: one byte of a header has been
  read and exactly two more have arrived.\<close>

theorem reader_gives_up:
  assumes "link key arrived r unread mid msgs"
  shows "fst (read_step r unread) = Break \<longleftrightarrow> rd_state r = 3 \<and> length unread = 2"
  using read_step_ok(1) link_ok [OF assms] by (metis prod.collapse)

lemma link_one_byte: "link key [b] \<lparr>rd_state = 3, rd_head = [b], rd_header = word_header 0, rd_buf = [], rd_key = key\<rparr> [] False []"
  using link_read [OF link_arrive [OF link_start [of key], of "[b]"], of Wait]
  by (simp add: start_reader_def read_step_def read_header_def Let_def delivered_def)

theorem reader_gives_up_witness:
  "link 7 [1, 2, 3] \<lparr>rd_state = 3, rd_head = [1], rd_header = word_header 0, rd_buf = [], rd_key = 7\<rparr> [2, 3] False []
   \<and> fst (read_step \<lparr>rd_state = 3, rd_head = [1], rd_header = word_header 0, rd_buf = [], rd_key = 7\<rparr> [2, 3]) = Break"
  using link_arrive [OF link_one_byte [of 7 1], of "[2, 3]"] reader_gives_up [OF link_arrive [OF link_one_byte [of 7 1], of "[2, 3]"]] by simp

section \<open>Channel\<close>

text \<open>\<open>open\<close> undoes the box cipher, and fails on what the other side did not make; a failure closes the connection.\<close>

definition datum_protocol_decrypt_standard ::
  "(u32 list \<Rightarrow> bytes \<Rightarrow> bytes option) \<Rightarrow> header \<Rightarrow> bytes \<Rightarrow> u32 list \<Rightarrow> ((header \<times> bytes) \<times> u32 list) option" where
  "datum_protocol_decrypt_standard open h data n =
     (if h_cmd_len h < crypto_box_MACBYTES then None
      else case open n (take (h_cmd_len h) data) of
        None \<Rightarrow> None
      | Some m \<Rightarrow> Some ((h\<lparr>h_cmd_len := h_cmd_len h - crypto_box_MACBYTES\<rparr>, m), datum_increment_session_nonce n))"

primrec send_all :: "(u32 list \<Rightarrow> bytes \<Rightarrow> bytes) \<Rightarrow> bytes list \<Rightarrow> sender \<Rightarrow> sender" where
  "send_all easy [] S = S"
| "send_all easy (m # ms) S = send_all easy ms (snd (datum_protocol_mining_cmd easy m S))"

fun open_all :: "(u32 list \<Rightarrow> bytes \<Rightarrow> bytes option) \<Rightarrow> u32 list \<Rightarrow> (header \<times> bytes) list \<Rightarrow> (header \<times> bytes) list option" where
  "open_all open n [] = Some []"
| "open_all open n ((h, d) # fs) =
     (case datum_protocol_decrypt_standard open h d n of
        None \<Rightarrow> None
      | Some (m, n) \<Rightarrow> map_option ((#) m) (open_all open n fs))"

text \<open>The commands as they should be on the wire.\<close>

primrec boxed :: "(u32 list \<Rightarrow> bytes \<Rightarrow> bytes) \<Rightarrow> u32 list \<Rightarrow> bytes list \<Rightarrow> (header \<times> bytes) list" where
  "boxed easy n [] = []"
| "boxed easy n (m # ms) = (mining_header (length m), easy n m) # boxed easy (datum_increment_session_nonce n) ms"

definition room :: "bytes list \<Rightarrow> nat" where
  "room ms = sum_list (map (\<lambda>m. 4 + length m + crypto_box_MACBYTES) ms)"

lemma send_all_frames:
  assumes "\<And>n m. length (easy n m) = length m + crypto_box_MACBYTES" "length (out_buf S) + room ms < DATUM_PROTOCOL_BUFFER_SIZE"
  shows "out_buf (send_all easy ms S) = out_buf S @ encode_frames (sending_header_key S) (boxed easy (session_nonce_sender S) ms)"
  using assms(2)
proof (induction ms arbitrary: S)
  case (Cons m ms)
  have f: "datum_protocol_mining_cmd easy m S = (0, S\<lparr>sending_header_key := datum_header_xor_feedback (sending_header_key S),
        session_nonce_sender := datum_increment_session_nonce (session_nonce_sender S),
        out_buf := out_buf S @ encode_frames (sending_header_key S) [(mining_header (length m), easy (session_nonce_sender S) m)]\<rparr>)"
    using Cons.prems assms(1) by (intro mining_cmd_fits) (simp_all add: room_def)
  show ?case using Cons.prems by (simp add: f Cons.IH room_def assms(1))
qed simp

lemma boxed_ok:
  assumes "\<And>n m. length (easy n m) = length m + crypto_box_MACBYTES" "\<forall>m\<in>set ms. length m + crypto_box_MACBYTES < 2 ^ 22"
  shows "\<forall>f\<in>set (boxed easy n ms). frame_ok f \<and> snd f \<noteq> []"
  using assms(2)
proof (induction ms arbitrary: n)
  case (Cons m ms)
  have "easy n m \<noteq> []" using assms(1) [of n m] by (auto simp: crypto_box_MACBYTES_def)
  then show ?case using Cons by (simp add: assms(1) frame_ok_def mining_header_def wire_header_ok_def)
qed simp

lemma open_boxed:
  assumes "\<And>n m. length (easy n m) = length m + crypto_box_MACBYTES" "\<forall>m\<in>set ms. length m + crypto_box_MACBYTES < 2 ^ 22"
    "\<And>n m. open n (easy n m) = Some m"
  shows "map_option (map snd) (open_all open n (boxed easy n ms)) = Some ms"
  using assms(2)
proof (induction ms arbitrary: n)
  case (Cons m ms)
  obtain fs where "open_all open (datum_increment_session_nonce n) (boxed easy (datum_increment_session_nonce n) ms) = Some fs" "map snd fs = ms"
    using Cons.IH [of "datum_increment_session_nonce n"] Cons.prems by (auto simp: map_option_case split: option.splits)
  then show ?case using assms(3) Cons.prems by (simp add: datum_protocol_decrypt_standard_def assms(1) mining_header_def)
qed simp



theorem commands_delivered_witness:
  "\<exists>r. link 7 (encode_frames 7 [(word_header 3, [1, 2, 3]), (word_header 0, [])]) r [] False [(word_header 3, [1, 2, 3]), (word_header 0, [])]
     \<and> (\<exists>rest. [(word_header 3, [1, 2, 3]), (word_header 0, [])] = [(word_header 3, [1, 2, 3]), (word_header 0, [])] @ rest)"
proof -
  let ?fs = "[(word_header 3, [1, 2, 3]), (word_header 0, [])] :: (header \<times> bytes) list"
  have ok: "\<forall>f\<in>set ?fs. frame_ok f" by (simp add: frame_ok_def word_header_ok) (simp add: word_header_def Let_def)
  then obtain r where l: "link 7 (encode_frames 7 ?fs) r [] False ?fs" using link_frames by blast
  then show ?thesis using commands_delivered [OF l ok, of "[]"] by auto
qed

end
