(* ===== verification/Powmsg.thy ===== *)
theory Powmsg
  imports Jobs
begin

text \<open>
  Shares for the pool, \<^verbatim>\<open>src/src/datum_protocol.c\<close>: what a stratum thread queues (\<^verbatim>\<open>datum_protocol_pow_submit\<close>), and the
  message made of it (\<^verbatim>\<open>datum_protocol_pow_build_message\<close>), which describes the job and the coinbase only when the pool does not
  have them yet. Jobs are pointed to by their slot in the ring of theory \<^theory_text>\<open>Jobs\<close>; a slot whose template is still null is \<open>None\<close>.
\<close>

section \<open>Data\<close>

record pow =
  pw_job_id :: u8
  pw_extranonce :: bytes
  pw_username :: string
  pw_stratum_job_id :: string
  pw_sjob :: "nat option"
  pw_coinbase_id :: u8
  pw_subsidy_only :: bool
  pw_is_block :: bool
  pw_quickdiff :: bool
  pw_time_offset :: bool
  pw_target_byte :: u8
  pw_target_byte_index :: u16
  pw_ntime :: u64
  pw_nonce :: u64
  pw_time_on_wire :: u32
  pw_version :: u32

record pool_job =
  dj_sjob :: "nat option"
  dj_server_sjob :: "nat option"
  dj_has_merkle :: bool
  dj_has_coinbase :: "u8 \<Rightarrow> bool"
  dj_has_empty :: bool

record pow_env =
  pe_full_users :: bool
  pe_workers :: bool
  pe_address :: string
  pe_slots :: "nat \<Rightarrow> stratum_job option"
  pe_coinbaser_id :: "nat \<Rightarrow> u8"

definition DATUM_PROTOCOL_MAX_USERNAME_LEN :: nat where "DATUM_PROTOCOL_MAX_USERNAME_LEN = 384"

section \<open>Submission\<close>

definition datum_protocol_pow_submit ::
  "nat \<Rightarrow> stratum_job \<Rightarrow> string \<Rightarrow> bool \<Rightarrow> bool \<Rightarrow> bool \<Rightarrow> bytes \<Rightarrow> bytes \<Rightarrow> bytes \<Rightarrow> u8 \<Rightarrow> pow" where
  "datum_protocol_pow_submit slot job username was_block subsidy quickdiff hdr full_cb_tx extranonce coinbase_index =
     (let t = j_template job; v2 = t_header_version t \<ge> 2
      in \<lparr>pw_job_id = j_datum_job_idx job, pw_extranonce = take 12 extranonce, pw_username = take 383 username,
          pw_stratum_job_id = (if v2 then j_job_id job else ''''), pw_sjob = (if v2 then Some slot else None),
          pw_coinbase_id = coinbase_index, pw_subsidy_only = subsidy, pw_is_block = was_block, pw_quickdiff = quickdiff,
          pw_time_offset = (v2 \<and> t_header_flags t AND DATUM_BLAKE2B_USE_TIME_OFFSET \<noteq> 0),
          pw_target_byte = full_cb_tx ! j_target_pot_index job, pw_target_byte_index = word_of_nat (j_target_pot_index job),
          pw_ntime = (if v2 then upk_u64le hdr 40 else ucast (upk_u32le hdr 68)),
          pw_nonce = (if v2 then upk_u64le hdr 32 else ucast (upk_u32le hdr 76)),
          pw_time_on_wire = (if v2 then j_blake2b_time_on_wire job else 0),
          pw_version = (if v2 then j_version_uint job else upk_u32le hdr 0)\<rparr>)"

section \<open>Message\<close>

definition pow_username :: "pow_env \<Rightarrow> pow \<Rightarrow> string" where
  "pow_username E pow =
     (if (\<not> pe_full_users E \<and> \<not> pe_workers E) \<or> pw_username pow = [] then pe_address E
      else if pe_full_users E \<and> hd (pw_username pow) \<noteq> CHR ''.'' then pw_username pow
      else pe_address E @ (if hd (pw_username pow) = CHR ''.'' then '''' else ''.'') @ pw_username pow)"

definition pow_flags :: "pow \<Rightarrow> u8" where
  "pow_flags pow =
     ((if pw_is_block pow then 1 else 0) OR (if pw_subsidy_only pow then 2 else 0) OR (if pw_quickdiff pow then 4 else 0))
     OR (if pw_sjob pow \<noteq> None then 8 else 0)"

definition pow_share :: "pow \<Rightarrow> bytes" where
  "pow_share pow =
     [0x27, pw_job_id pow, pw_coinbase_id pow, pow_flags pow, pw_target_byte pow]
     @ le_bytes 4 (unat (pw_ntime pow) mod 2 ^ 32) @ le_bytes 4 (unat (pw_nonce pow) mod 2 ^ 32) @ le_bytes 4 (unat (pw_version pow))
     @ [12] @ pw_extranonce pow"

definition pow_user_part :: "pow_env \<Rightarrow> pow \<Rightarrow> bytes" where
  "pow_user_part E pow =
     map byte_of (take DATUM_PROTOCOL_MAX_USERNAME_LEN (pow_username E pow)) @ [0]
     @ [if pw_sjob pow \<noteq> None \<and> pw_time_offset pow then 1 else 0, 0, 0, 0]"

definition pow_blake2b :: "pow \<Rightarrow> bytes" where
  "pow_blake2b pow =
     [0x03, 1] @ le_bytes 8 (unat (pw_ntime pow)) @ le_bytes 8 (unat (pw_nonce pow)) @ [0x04] @ le_bytes 4 (unat (pw_time_on_wire pow))"

definition pow_merkle :: "pow_env \<Rightarrow> pow \<Rightarrow> nat \<Rightarrow> stratum_job \<Rightarrow> bytes" where
  "pow_merkle E pow p j =
     (let t = j_template j
      in [0x01] @ j_prevhash_bin j @ le_bytes 2 (unat (pw_target_byte_index pow)) @ j_nbits_bin j @ [pe_coinbaser_id E p]
         @ le_bytes 4 (unat (j_height j) mod 2 ^ 32) @ le_bytes 8 (unat (j_coinbase_value j)) @ le_bytes 4 (length (t_txns t))
         @ le_bytes 4 (unat (t_txn_total_weight t)) @ le_bytes 4 (unat (t_txn_total_size t)) @ le_bytes 4 (unat (t_txn_total_sigops t))
         @ [word_of_nat (length (j_merklebranches_bin j))] @ concat (j_merklebranches_bin j))"

definition pow_coinbase :: "u8 \<Rightarrow> coinbase \<Rightarrow> bytes" where
  "pow_coinbase i cb =
     [0x02, i] @ le_bytes 2 (length (coinb1_bin cb)) @ le_bytes 2 (length (coinb2_bin cb)) @ coinb1_bin cb @ coinb2_bin cb"

text \<open>The two fields and the one flag an update of the slot is about, and the mark that is left when the message is complete.\<close>

definition has_piece :: "pow \<Rightarrow> pool_job \<Rightarrow> bool" where
  "has_piece pow pj = (if pw_subsidy_only pow then dj_has_empty pj else dj_has_coinbase pj (pw_coinbase_id pow))"

definition set_piece :: "pow \<Rightarrow> pool_job \<Rightarrow> pool_job" where
  "set_piece pow pj =
     (if pw_subsidy_only pow then pj\<lparr>dj_has_empty := True\<rparr> else pj\<lparr>dj_has_coinbase := (dj_has_coinbase pj)(pw_coinbase_id pow := True)\<rparr>)"

definition note_job :: "pow \<Rightarrow> nat \<Rightarrow> pool_job \<Rightarrow> pool_job" where
  "note_job pow p pj =
     (if dj_server_sjob pj \<noteq> Some p
      then pj\<lparr>dj_has_merkle := True, dj_has_coinbase := (\<lambda>i. \<not> pw_subsidy_only pow \<and> pw_coinbase_id pow < 8 \<and> i = pw_coinbase_id pow),
              dj_has_empty := pw_subsidy_only pow, dj_server_sjob := Some p\<rparr>
      else pj)"

definition piece_of :: "pow \<Rightarrow> stratum_job \<Rightarrow> bytes" where
  "piece_of pow j =
     (if pw_subsidy_only pow then pow_coinbase 0xFF (j_subsidy_only_coinbase j)
      else pow_coinbase (pw_coinbase_id pow) (j_coinbase j ! unat (pw_coinbase_id pow)))"

text \<open>The part that describes the job: \<open>i\<close> bytes are in the message; the result is the rest of the message and the slot.\<close>

definition pow_job_part :: "pow_env \<Rightarrow> pow \<Rightarrow> nat \<Rightarrow> nat \<Rightarrow> nat \<Rightarrow> stratum_job \<Rightarrow> pool_job \<Rightarrow> bytes option \<times> pool_job" where
  "pow_job_part E pow msg_size i p j pj =
     (let new = dj_server_sjob pj \<noteq> Some p; m = new \<or> \<not> dj_has_merkle pj
      in if m \<and> i + 62 + 32 * length (j_merklebranches_bin j) \<ge> msg_size then (None, pj)
         else let merkle = (if m then pow_merkle E pow p j else []);
                  pj = (if m then pj\<lparr>dj_has_merkle := True\<rparr> else pj);
                  c = new \<or> \<not> has_piece pow pj
              in if c \<and> i + length merkle + length (piece_of pow j) \<ge> msg_size then (None, pj)
                 else let piece = (if c then piece_of pow j else []);
                          pj = (if c then set_piece pow pj else pj)
                      in if i + length merkle + length piece + 1 > msg_size then (None, pj)
                         else (Some (merkle @ piece @ [0xFE]), if m \<or> c then note_job pow p pj else pj))"

definition pow_acceptable :: "pow \<Rightarrow> bool" where
  "pow_acceptable pow \<longleftrightarrow>
     (if pw_sjob pow \<noteq> None then \<not> pw_subsidy_only pow \<and> unat (pw_coinbase_id pow) < MAX_COINBASE_TYPES
      else \<not> (pw_coinbase_id pow > 7 \<and> \<not> (pw_coinbase_id pow = 0xFF \<and> pw_subsidy_only pow)))"

definition pow_prefix :: "pow_env \<Rightarrow> pow \<Rightarrow> bytes" where
  "pow_prefix E pow = pow_share pow @ pow_user_part E pow @ (if pw_sjob pow \<noteq> None then pow_blake2b pow else [])"

definition datum_protocol_pow_build_message :: "pow_env \<Rightarrow> pow \<Rightarrow> nat \<Rightarrow> pool_job list \<Rightarrow> bytes option \<times> pool_job list" where
  "datum_protocol_pow_build_message E pow msg_size D =
     (let i = length (pow_share pow) + length (pow_user_part E pow); a = unat (pw_job_id pow)
      in if msg_size < 64 \<or> \<not> pow_acceptable pow \<or> i \<ge> msg_size \<or> pw_sjob pow \<noteq> None \<and> i + 23 \<ge> msg_size then (None, D)
         else case (case pw_sjob pow of Some p \<Rightarrow> Some p | None \<Rightarrow> dj_sjob (D ! a)) of
           None \<Rightarrow> (None, D)
         | Some p \<Rightarrow>
             (case pe_slots E p of
                None \<Rightarrow> (None, D)
              | Some j \<Rightarrow>
                  (case pow_job_part E pow msg_size (length (pow_prefix E pow)) p j (D ! a) of
                     (None, pj) \<Rightarrow> (None, D[a := pj])
                   | (Some rest, pj) \<Rightarrow> (Some (pow_prefix E pow @ rest), D[a := pj]))))"

section \<open>What the pool reads\<close>

text \<open>A decoder of the messages, section by section.\<close>

record job_info =
  ji_prevhash :: bytes
  ji_target_byte_index :: nat
  ji_nbits :: bytes
  ji_coinbaser_id :: u8
  ji_height :: nat
  ji_value :: nat
  ji_counts :: "nat list"
  ji_branches :: "bytes list"

record share_info =
  si_slot :: u8
  si_coinbase_id :: u8
  si_flags :: u8
  si_target_byte :: u8
  si_ntime :: nat
  si_nonce :: nat
  si_version :: nat
  si_extranonce :: bytes
  si_user :: bytes
  si_reserved :: bytes
  si_blake2b :: "(nat \<times> nat \<times> nat) option"
  si_job :: "job_info option"
  si_coinbase :: "(u8 \<times> bytes \<times> bytes) option"

fun take_pieces :: "nat \<Rightarrow> bytes \<Rightarrow> bytes list" where
  "take_pieces 0 bs = []"
| "take_pieces (Suc n) bs = take 32 bs # take_pieces n (drop 32 bs)"

definition read_blake2b :: "bytes \<Rightarrow> (nat \<times> nat \<times> nat) option \<times> bytes" where
  "read_blake2b m =
     (if take 2 m = [0x03, 1]
      then (Some (le_val (take 8 (drop 2 m)), le_val (take 8 (drop 10 m)), le_val (take 4 (drop 19 m))), drop 23 m)
      else (None, m))"

definition read_job :: "bytes \<Rightarrow> job_info option \<times> bytes" where
  "read_job m =
     (if take 1 m = [0x01]
      then let n = unat (m ! 68)
           in (Some \<lparr>ji_prevhash = take 32 (drop 1 m), ji_target_byte_index = le_val (take 2 (drop 33 m)), ji_nbits = take 4 (drop 35 m),
                 ji_coinbaser_id = m ! 39, ji_height = le_val (take 4 (drop 40 m)), ji_value = le_val (take 8 (drop 44 m)),
                 ji_counts = [le_val (take 4 (drop 52 m)), le_val (take 4 (drop 56 m)), le_val (take 4 (drop 60 m)), le_val (take 4 (drop 64 m))],
                 ji_branches = take_pieces n (drop 69 m)\<rparr>, drop (32 * n) (drop 69 m))
      else (None, m))"

definition read_coinbase :: "bytes \<Rightarrow> (u8 \<times> bytes \<times> bytes) option \<times> bytes" where
  "read_coinbase m =
     (if take 1 m = [0x02]
      then let a = le_val (take 2 (drop 2 m)); b = le_val (take 2 (drop 4 m))
           in (Some (m ! 1, take a (drop 6 m), take b (drop a (drop 6 m))), drop b (drop a (drop 6 m)))
      else (None, m))"

definition read_pow :: "bytes \<Rightarrow> share_info option" where
  "read_pow m =
     (let user = takeWhile (\<lambda>b. b \<noteq> 0) (drop 30 m); k = 31 + length user;
          (bl, m1) = read_blake2b (drop (k + 4) m);
          (job, m2) = read_job m1;
          (cb, m3) = read_coinbase m2
      in if take 1 m \<noteq> [0x27] \<or> m3 \<noteq> [0xFE] then None
         else Some \<lparr>si_slot = m ! 1, si_coinbase_id = m ! 2, si_flags = m ! 3, si_target_byte = m ! 4, si_ntime = le_val (take 4 (drop 5 m)),
           si_nonce = le_val (take 4 (drop 9 m)), si_version = le_val (take 4 (drop 13 m)), si_extranonce = take 12 (drop 18 m), si_user = user,
           si_reserved = take 4 (drop k m), si_blake2b = bl, si_job = job, si_coinbase = cb\<rparr>)"

definition job_info_of :: "pow_env \<Rightarrow> nat \<Rightarrow> u16 \<Rightarrow> stratum_job \<Rightarrow> job_info" where
  "job_info_of E p ix j =
     \<lparr>ji_prevhash = j_prevhash_bin j, ji_target_byte_index = unat ix, ji_nbits = j_nbits_bin j, ji_coinbaser_id = pe_coinbaser_id E p,
      ji_height = unat (j_height j) mod 2 ^ 32, ji_value = unat (j_coinbase_value j),
      ji_counts = [length (t_txns (j_template j)), unat (t_txn_total_weight (j_template j)), unat (t_txn_total_size (j_template j)),
        unat (t_txn_total_sigops (j_template j))],
      ji_branches = j_merklebranches_bin j\<rparr>"

definition coinbase_info_of :: "pow \<Rightarrow> stratum_job \<Rightarrow> u8 \<times> bytes \<times> bytes" where
  "coinbase_info_of pow j =
     (if pw_subsidy_only pow then (0xFF, coinb1_bin (j_subsidy_only_coinbase j), coinb2_bin (j_subsidy_only_coinbase j))
      else (pw_coinbase_id pow, coinb1_bin (j_coinbase j ! unat (pw_coinbase_id pow)), coinb2_bin (j_coinbase j ! unat (pw_coinbase_id pow))))"

text \<open>The sizes the structures of the gateway allow.\<close>

definition coinbase_fits :: "coinbase \<Rightarrow> bool" where
  "coinbase_fits cb \<longleftrightarrow> length (coinb1_bin cb) \<le> 512 \<and> length (coinb2_bin cb) \<le> 16384"

definition job_fits :: "stratum_job \<Rightarrow> bool" where
  "job_fits j \<longleftrightarrow> length (j_prevhash_bin j) = 32 \<and> length (j_nbits_bin j) = 4 \<and> length (j_merklebranches_bin j) \<le> 24
     \<and> (\<forall>b\<in>set (j_merklebranches_bin j). length b = 32) \<and> length (j_coinbase j) = MAX_COINBASE_TYPES
     \<and> (\<forall>cb\<in>set (j_coinbase j). coinbase_fits cb) \<and> coinbase_fits (j_subsidy_only_coinbase j) \<and> length (t_txns (j_template j)) < 2 ^ 32"

lemma take_pieces_concat: "\<forall>b\<in>set bs. length b = 32 \<Longrightarrow> take_pieces (length bs) (concat bs @ r) = bs"
  by (induction bs) auto

lemma length_concat_32: "\<forall>b\<in>set bs. length b = 32 \<Longrightarrow> length (concat bs) = 32 * length bs"
  by (induction bs) auto

lemma unat_u16_less [simp]: "unat (x :: u16) < 65536"
  using unsigned_less [of x, where ?'a = nat] by simp

lemma read_job_merkle:
  assumes "job_fits j"
  shows "read_job (pow_merkle E pow p j @ r) = (Some (job_info_of E p (pw_target_byte_index pow) j), r)"
proof -
  let ?bs = "j_merklebranches_bin j" and ?t = "j_template j"
  have l: "length (j_prevhash_bin j) = 32" "length (j_nbits_bin j) = 4" "length ?bs \<le> 24" "length (t_txns ?t) < 2 ^ 32"
    using assms by (simp_all add: job_fits_def)
  have b: "length (concat ?bs) = 32 * length ?bs" "take_pieces (length ?bs) (concat ?bs @ r) = ?bs"
    using assms by (auto simp: job_fits_def intro: length_concat_32 take_pieces_concat)
  have n: "length ?bs mod 256 = length ?bs" using l(3) by simp
  show ?thesis
    using l b n by (simp add: pow_merkle_def read_job_def job_info_of_def Let_def nth_append le_val_bytes unat_of_nat)
qed

lemma read_coinbase_piece:
  assumes "coinbase_fits cb"
  shows "read_coinbase (pow_coinbase i cb @ r) = (Some (i, coinb1_bin cb, coinb2_bin cb), r)"
  using assms by (simp add: coinbase_fits_def pow_coinbase_def read_coinbase_def Let_def le_val_bytes)

lemma read_blake2b_section: "read_blake2b (pow_blake2b pow @ r) = (Some (unat (pw_ntime pow), unat (pw_nonce pow), unat (pw_time_on_wire pow)), r)"
  by (simp add: pow_blake2b_def read_blake2b_def le_val_bytes)

text \<open>The optional parts of a message, and the message as the decoder sees it.\<close>

definition share_info_of :: "pow_env \<Rightarrow> pow \<Rightarrow> job_info option \<Rightarrow> (u8 \<times> bytes \<times> bytes) option \<Rightarrow> share_info" where
  "share_info_of E pow job cb =
     \<lparr>si_slot = pw_job_id pow, si_coinbase_id = pw_coinbase_id pow, si_flags = pow_flags pow, si_target_byte = pw_target_byte pow,
      si_ntime = unat (pw_ntime pow) mod 2 ^ 32, si_nonce = unat (pw_nonce pow) mod 2 ^ 32, si_version = unat (pw_version pow),
      si_extranonce = pw_extranonce pow, si_user = map byte_of (take DATUM_PROTOCOL_MAX_USERNAME_LEN (pow_username E pow)),
      si_reserved = [if pw_sjob pow \<noteq> None \<and> pw_time_offset pow then 1 else 0, 0, 0, 0],
      si_blake2b = (if pw_sjob pow \<noteq> None then Some (unat (pw_ntime pow), unat (pw_nonce pow), unat (pw_time_on_wire pow)) else None),
      si_job = job, si_coinbase = cb\<rparr>"

definition pow_ok :: "pow_env \<Rightarrow> pow \<Rightarrow> bool" where
  "pow_ok E pow \<longleftrightarrow> length (pw_extranonce pow) = 12 \<and> CHR 0x00 \<notin> set (pe_address E) \<and> CHR 0x00 \<notin> set (pw_username pow) \<and> pw_job_id pow < 8
     \<and> (\<not> pw_subsidy_only pow \<longrightarrow> unat (pw_coinbase_id pow) < MAX_COINBASE_TYPES)"

lemma byte_of_0 [simp]: "byte_of c = 0 \<longleftrightarrow> c = CHR 0x00"
  using byte_of_inject [of c "CHR 0x00"] by (simp add: byte_of_def)

lemma pow_username_no_nul:
  assumes "pow_ok E pow"
  shows "\<forall>b\<in>set (map byte_of (take n (pow_username E pow))). b \<noteq> 0"
proof -
  have "CHR 0x00 \<notin> set (pow_username E pow)" using assms by (auto simp: pow_ok_def pow_username_def)
  then show ?thesis using set_take_subset [of n "pow_username E pow"] by auto
qed

lemma length_pow_share: "pow_ok E pow \<Longrightarrow> length (pow_share pow) = 30"
  by (simp add: pow_ok_def pow_share_def)

lemma read_pow_parts:
  assumes "pow_ok E pow" "read_job (m1 @ m2 @ [0xFE]) = (job, m2 @ [0xFE])" "read_coinbase (m2 @ [0xFE]) = (cb, [0xFE])"
    "take 2 (m1 @ m2 @ [0xFE]) \<noteq> [0x03, 1]"
  shows "read_pow (pow_prefix E pow @ m1 @ m2 @ [0xFE]) = Some (share_info_of E pow job cb)"
proof -
  let ?u = "map byte_of (take DATUM_PROTOCOL_MAX_USERNAME_LEN (pow_username E pow))"
  let ?bl = "if pw_sjob pow \<noteq> None then pow_blake2b pow else []"
  let ?r = "[if pw_sjob pow \<noteq> None \<and> pw_time_offset pow then 1 else 0, 0, 0, 0 :: u8]"
  let ?m = "pow_prefix E pow @ m1 @ m2 @ [0xFE]"
  have m: "?m = pow_share pow @ ?u @ 0 # ?r @ ?bl @ m1 @ m2 @ [0xFE]" by (simp add: pow_prefix_def pow_user_part_def)
  have ls: "length (pow_share pow) = 30" using length_pow_share assms(1) by blast
  then have d30: "drop 30 ?m = ?u @ 0 # ?r @ ?bl @ m1 @ m2 @ [0xFE]" by (simp add: m)
  have u: "takeWhile (\<lambda>b. b \<noteq> 0) (drop 30 ?m) = ?u"
    using pow_username_no_nul [OF assms(1)] unfolding d30 by (subst takeWhile_append2) auto
  have dk: "drop (31 + length ?u) ?m = ?r @ ?bl @ m1 @ m2 @ [0xFE]" using ls by (simp add: m)
  have drp: "drop (a + 4) xs = drop 4 (drop a xs)" for a and xs :: bytes by (simp add: add.commute)
  have dk4: "drop (31 + length ?u + 4) ?m = ?bl @ m1 @ m2 @ [0xFE]"
    unfolding drp dk by simp
  have bl: "read_blake2b (?bl @ m1 @ m2 @ [0xFE]) =
      ((if pw_sjob pow \<noteq> None then Some (unat (pw_ntime pow), unat (pw_nonce pow), unat (pw_time_on_wire pow)) else None), m1 @ m2 @ [0xFE])"
    using assms(4) by (simp add: read_blake2b_section) (simp add: read_blake2b_def)
  have f: "?m ! 1 = pw_job_id pow" "?m ! 2 = pw_coinbase_id pow" "?m ! 3 = pow_flags pow" "?m ! 4 = pw_target_byte pow" "take 1 ?m = [0x27]"
    "take 4 (drop 5 ?m) = le_bytes 4 (unat (pw_ntime pow) mod 2 ^ 32)" "take 4 (drop 9 ?m) = le_bytes 4 (unat (pw_nonce pow) mod 2 ^ 32)"
    "take 4 (drop 13 ?m) = le_bytes 4 (unat (pw_version pow))" "take 12 (drop 18 ?m) = pw_extranonce pow"
    using assms(1) unfolding m pow_share_def by (simp_all add: pow_ok_def)
  show ?thesis
    unfolding read_pow_def Let_def u dk4 bl prod.case assms(2,3) f dk share_info_of_def
    using unat_u32_less [of "pw_version pow"] by (simp add: le_val_bytes)
qed

section \<open>The message fits\<close>

text \<open>\<open>POW_BUFFER\<close> is the array of \<^verbatim>\<open>datum_protocol_pow\<close>.\<close>

definition POW_BUFFER :: nat where "POW_BUFFER = 32768 + 16"

definition need_job :: "nat \<Rightarrow> pool_job \<Rightarrow> bool" where
  "need_job p pj \<longleftrightarrow> dj_server_sjob pj \<noteq> Some p \<or> \<not> dj_has_merkle pj"

definition need_piece :: "pow \<Rightarrow> nat \<Rightarrow> pool_job \<Rightarrow> bool" where
  "need_piece pow p pj \<longleftrightarrow> dj_server_sjob pj \<noteq> Some p \<or> \<not> has_piece pow pj"

definition after_message :: "pow \<Rightarrow> nat \<Rightarrow> pool_job \<Rightarrow> pool_job" where
  "after_message pow p pj =
     (let pj1 = (if need_job p pj then pj\<lparr>dj_has_merkle := True\<rparr> else pj);
          pj2 = (if need_piece pow p pj then set_piece pow pj1 else pj1)
      in if need_job p pj \<or> need_piece pow p pj then note_job pow p pj2 else pj2)"

lemma length_pow_merkle: "job_fits j \<Longrightarrow> length (pow_merkle E pow p j) = 69 + 32 * length (j_merklebranches_bin j)"
  using length_concat_32 [of "j_merklebranches_bin j"] by (simp add: pow_merkle_def Let_def job_fits_def)

lemma piece_fits:
  assumes "job_fits j" "pow_ok E pow"
  shows "length (piece_of pow j) \<le> 16902" "read_coinbase (piece_of pow j @ r) = (Some (coinbase_info_of pow j), r)"
proof -
  have "pw_subsidy_only pow \<or> coinbase_fits (j_coinbase j ! unat (pw_coinbase_id pow))" using assms by (auto simp: job_fits_def pow_ok_def)
  then show "length (piece_of pow j) \<le> 16902" "read_coinbase (piece_of pow j @ r) = (Some (coinbase_info_of pow j), r)"
    using assms(1) by (auto simp: piece_of_def coinbase_info_of_def read_coinbase_piece job_fits_def)
      (simp_all add: pow_coinbase_def coinbase_fits_def)
qed

lemma has_piece_merkle: "has_piece pow (pj\<lparr>dj_has_merkle := b\<rparr>) = has_piece pow pj"
  by (simp add: has_piece_def)

lemma pow_job_part_fits:
  assumes "job_fits j" "pow_ok E pow" "i \<le> 442"
  shows "pow_job_part E pow POW_BUFFER i p j pj =
    (Some ((if need_job p pj then pow_merkle E pow p j else []) @ (if need_piece pow p pj then piece_of pow j else []) @ [0xFE]), after_message pow p pj)"
proof -
  have l: "length (pow_merkle E pow p j) \<le> 837" "length (j_merklebranches_bin j) \<le> 24" "length (piece_of pow j) \<le> 16902"
    using length_pow_merkle [OF assms(1)] piece_fits(1) [OF assms(1,2)] assms(1) by (simp_all add: job_fits_def)
  then have "\<not> i + 62 + 32 * length (j_merklebranches_bin j) \<ge> POW_BUFFER" "\<not> i + length (pow_merkle E pow p j) + length (piece_of pow j) \<ge> POW_BUFFER"
    "\<not> i + length (piece_of pow j) \<ge> POW_BUFFER" "\<not> i + length (pow_merkle E pow p j) + length (piece_of pow j) + 1 > POW_BUFFER"
    "\<not> i + length (piece_of pow j) + 1 > POW_BUFFER" "\<not> i + length (pow_merkle E pow p j) + 1 > POW_BUFFER" "\<not> i + 1 > POW_BUFFER"
    using assms(3) by (simp_all add: POW_BUFFER_def)
  note c = this
  show ?thesis
    by (cases "dj_server_sjob pj = Some p"; cases "dj_has_merkle pj"; cases "has_piece pow pj")
      (simp_all add: pow_job_part_def Let_def c [simplified] has_piece_merkle after_message_def need_job_def need_piece_def)
qed

lemma length_pow_prefix: "pow_ok E pow \<Longrightarrow> length (pow_share pow) + length (pow_user_part E pow) \<le> 419 \<and> length (pow_prefix E pow) \<le> 442"
  by (simp add: pow_prefix_def length_pow_share pow_user_part_def pow_blake2b_def DATUM_PROTOCOL_MAX_USERNAME_LEN_def min_le_iff_disj)

definition pow_target :: "pow \<Rightarrow> pool_job list \<Rightarrow> nat option" where
  "pow_target pow D = (case pw_sjob pow of Some p \<Rightarrow> Some p | None \<Rightarrow> dj_sjob (D ! unat (pw_job_id pow)))"

definition env_fits :: "pow_env \<Rightarrow> bool" where
  "env_fits E \<longleftrightarrow> (\<forall>p j. pe_slots E p = Some j \<longrightarrow> job_fits j)"

lemma build_message:
  assumes "env_fits E" "pow_ok E pow"
  shows "datum_protocol_pow_build_message E pow POW_BUFFER D =
    (if pow_acceptable pow
     then (case Option.bind (pow_target pow D) (\<lambda>p. map_option (Pair p) (pe_slots E p)) of
             None \<Rightarrow> (None, D)
           | Some (p, j) \<Rightarrow>
               (let pj = D ! unat (pw_job_id pow)
                in (Some (pow_prefix E pow @ (if need_job p pj then pow_merkle E pow p j else []) @ (if need_piece pow p pj then piece_of pow j else []) @ [0xFE]),
                    D[unat (pw_job_id pow) := after_message pow p pj])))
     else (None, D))"
proof -
  have i: "length (pow_share pow) + length (pow_user_part E pow) \<le> 419" "length (pow_prefix E pow) \<le> 442" using length_pow_prefix assms(2) by blast+
  then have b: "\<not> POW_BUFFER < 64" "\<not> POW_BUFFER \<le> length (pow_share pow) + length (pow_user_part E pow)"
    "\<not> POW_BUFFER \<le> length (pow_share pow) + length (pow_user_part E pow) + 23"
    by (simp_all add: POW_BUFFER_def)
  show ?thesis
    unfolding datum_protocol_pow_build_message_def Let_def
    using b assms i(2) by (auto simp: pow_target_def env_fits_def pow_job_part_fits split: option.split)
qed

lemma read_job_none: "x \<noteq> 1 \<Longrightarrow> read_job (x # xs) = (None, x # xs)"
  by (simp add: read_job_def)

lemma read_coinbase_none: "x \<noteq> 2 \<Longrightarrow> read_coinbase (x # xs) = (None, x # xs)"
  by (simp add: read_coinbase_def)

lemma build_reads:
  assumes "env_fits E" "pow_ok E pow" "datum_protocol_pow_build_message E pow POW_BUFFER D = (Some m, D')"
  shows "\<exists>p j. pow_target pow D = Some p \<and> pe_slots E p = Some j
    \<and> read_pow m = Some (share_info_of E pow
        (if need_job p (D ! unat (pw_job_id pow)) then Some (job_info_of E p (pw_target_byte_index pow) j) else None)
        (if need_piece pow p (D ! unat (pw_job_id pow)) then Some (coinbase_info_of pow j) else None))
    \<and> D' = D[unat (pw_job_id pow) := after_message pow p (D ! unat (pw_job_id pow))]
    \<and> length m \<le> 18182"
proof -
  let ?pj = "D ! unat (pw_job_id pow)"
  obtain p j where p: "pow_target pow D = Some p" "pe_slots E p = Some j"
    and m: "m = pow_prefix E pow @ (if need_job p ?pj then pow_merkle E pow p j else []) @ (if need_piece pow p ?pj then piece_of pow j else []) @ [0xFE]"
    and D': "D' = D[unat (pw_job_id pow) := after_message pow p ?pj]"
    using assms(3) unfolding build_message [OF assms(1,2)] Let_def by (auto simp: bind_eq_Some_conv split: if_splits option.splits)
  have j: "job_fits j" using assms(1) p(2) by (simp add: env_fits_def)
  have starts: "take 1 (piece_of pow j) = [0x02]" "take 1 (pow_merkle E pow p j) = [0x01]"
    by (simp_all add: piece_of_def pow_coinbase_def pow_merkle_def Let_def)
  then obtain x y where xy: "piece_of pow j = 2 # x" "pow_merkle E pow p j = 1 # y"
    by (metis (no_types, lifting) One_nat_def list.inject list.simps(3) take_Suc_conv_app_nth take_eq_Nil2 take_Suc_Cons neq_Nil_conv)
  have "read_pow m = Some (share_info_of E pow (if need_job p ?pj then Some (job_info_of E p (pw_target_byte_index pow) j) else None)
      (if need_piece pow p ?pj then Some (coinbase_info_of pow j) else None))"
    unfolding m
  proof (rule read_pow_parts [OF assms(2)])
    show "read_job ((if need_job p ?pj then pow_merkle E pow p j else []) @ (if need_piece pow p ?pj then piece_of pow j else []) @ [0xFE]) =
      (if need_job p ?pj then Some (job_info_of E p (pw_target_byte_index pow) j) else None, (if need_piece pow p ?pj then piece_of pow j else []) @ [0xFE])"
      using xy(1) by (simp add: read_job_merkle [OF j] read_job_none)
    show "read_coinbase ((if need_piece pow p ?pj then piece_of pow j else []) @ [0xFE]) = (if need_piece pow p ?pj then Some (coinbase_info_of pow j) else None, [0xFE])"
      using read_coinbase_none by (simp add: piece_fits(2) [OF j assms(2)])
    show "take 2 ((if need_job p ?pj then pow_merkle E pow p j else []) @ (if need_piece pow p ?pj then piece_of pow j else []) @ [0xFE]) \<noteq> [0x03, 1]"
      using xy by (auto simp: numeral_2_eq_2)
  qed
  moreover have "length m \<le> 18182"
    using length_pow_prefix [OF assms(2)] piece_fits(1) [OF j assms(2)] length_pow_merkle [OF j, of E pow p] j by (auto simp: m job_fits_def)
  ultimately show ?thesis using p D' by blast
qed

text \<open>A share message is never too long: with up to 80 bytes of padding and the tag of the cipher it stays within the array it is made in.\<close>

theorem pow_message_fits:
  assumes "env_fits E" "pow_ok E pow" "datum_protocol_pow_build_message E pow POW_BUFFER D = (Some m, D')" "pad \<le> 80"
  shows "length m + pad + 16 \<le> POW_BUFFER"
  using build_reads [OF assms(1-3)] assms(4) by (auto simp: POW_BUFFER_def)

section \<open>What the pool knows\<close>

text \<open>
  For each slot the pool remembers the job it was last told about and the coinbases it was told since. \<open>learn\<close> reads a message;
  a new connection knows nothing, and the gateway forgets its marks, but not which job the marks were about.
\<close>

type_synonym knowledge = "u8 \<Rightarrow> (job_info \<times> (u8 \<times> bytes \<times> bytes) list) option"

definition learn :: "bytes \<Rightarrow> knowledge \<Rightarrow> knowledge" where
  "learn m V =
     (case read_pow m of
        None \<Rightarrow> V
      | Some s \<Rightarrow>
          (let cbs = (case si_coinbase s of None \<Rightarrow> [] | Some c \<Rightarrow> [c])
           in V(si_slot s := (case si_job s of Some ji \<Rightarrow> Some (ji, cbs) | None \<Rightarrow> map_option (\<lambda>(ji, cs). (ji, cs @ cbs)) (V (si_slot s))))))"

definition forget_slot :: "pool_job \<Rightarrow> pool_job" where
  "forget_slot pj = pj\<lparr>dj_has_merkle := False, dj_has_empty := False, dj_has_coinbase := (\<lambda>_. False)\<rparr>"

definition register_slot :: "nat \<Rightarrow> nat \<Rightarrow> pool_job list \<Rightarrow> pool_job list" where
  "register_slot a p D = D[a := (D ! a)\<lparr>dj_sjob := Some p\<rparr>]"

definition initial_slots :: "pool_job list" where
  "initial_slots = replicate 8 \<lparr>dj_sjob = None, dj_server_sjob = None, dj_has_merkle = False, dj_has_coinbase = (\<lambda>_. False), dj_has_empty = False\<rparr>"

datatype pool_event = Share pow | Register nat nat | Reconnect

fun pool_step :: "pow_env \<Rightarrow> pool_event \<Rightarrow> pool_job list \<times> knowledge \<Rightarrow> pool_job list \<times> knowledge" where
  "pool_step E (Share pow) (D, V) =
     (case datum_protocol_pow_build_message E pow POW_BUFFER D of (None, D) \<Rightarrow> (D, V) | (Some m, D) \<Rightarrow> (D, learn m V))"
| "pool_step E (Register a p) (D, V) = (register_slot a p D, V)"
| "pool_step E Reconnect (D, V) = (map forget_slot D, \<lambda>_. None)"

definition event_ok :: "pow_env \<Rightarrow> pool_event \<Rightarrow> bool" where
  "event_ok E ev = (case ev of Share pow \<Rightarrow> pow_ok E pow | _ \<Rightarrow> True)"

definition pool_run :: "pow_env \<Rightarrow> pool_event list \<Rightarrow> pool_job list \<times> knowledge" where
  "pool_run E evs = fold (pool_step E) evs (initial_slots, \<lambda>_. None)"

text \<open>The marks of a slot are true: what is marked was told, and is about the job the slot says.\<close>

definition marks_true :: "pow_env \<Rightarrow> pool_job \<Rightarrow> (job_info \<times> (u8 \<times> bytes \<times> bytes) list) option \<Rightarrow> bool" where
  "marks_true E pj v \<longleftrightarrow>
     (if dj_has_merkle pj
      then \<exists>p j ix cs. dj_server_sjob pj = Some p \<and> pe_slots E p = Some j \<and> v = Some (job_info_of E p ix j, cs)
        \<and> (\<forall>pow. has_piece pow pj \<longrightarrow> coinbase_info_of pow j \<in> set cs)
      else dj_has_coinbase pj = (\<lambda>_. False) \<and> \<not> dj_has_empty pj)"

definition pool_inv :: "pow_env \<Rightarrow> pool_job list \<times> knowledge \<Rightarrow> bool" where
  "pool_inv E DV = (length (fst DV) = 8 \<and> (\<forall>a<8. marks_true E (fst DV ! a) (snd DV (word_of_nat a))))"

lemma has_piece_after:
  "has_piece q (after_message pow p pj) \<longleftrightarrow>
     (if dj_server_sjob pj = Some p then has_piece q pj else False) \<or> need_piece pow p pj \<and> pw_subsidy_only q = pw_subsidy_only pow
       \<and> (pw_subsidy_only pow \<or> pw_coinbase_id q = pw_coinbase_id pow)"
  if "\<not> pw_subsidy_only pow \<longrightarrow> pw_coinbase_id pow < 8"
  using that by (auto simp: after_message_def Let_def note_job_def set_piece_def has_piece_def need_job_def need_piece_def)

lemma after_marks: "dj_has_merkle (after_message pow p pj)" "dj_server_sjob (after_message pow p pj) = Some p"
  by (auto simp: after_message_def Let_def note_job_def set_piece_def need_job_def need_piece_def)

lemma coinbase_info_cong:
  "pw_subsidy_only q = pw_subsidy_only pow \<Longrightarrow> pw_subsidy_only pow \<or> pw_coinbase_id q = pw_coinbase_id pow \<Longrightarrow> coinbase_info_of q j = coinbase_info_of pow j"
  by (auto simp: coinbase_info_of_def)

lemma share_marks:
  assumes "marks_true E pj v" "pe_slots E p = Some j" "\<not> pw_subsidy_only pow \<longrightarrow> pw_coinbase_id pow < 8"
    and v': "v' = (if need_job p pj then Some (job_info_of E p ix j, cbs) else map_option (\<lambda>(ji, cs). (ji, cs @ cbs)) v)"
    and cbs: "cbs = (if need_piece pow p pj then [coinbase_info_of pow j] else [])"
  shows "marks_true E (after_message pow p pj) v' \<and> (\<exists>ix cs. v' = Some (job_info_of E p ix j, cs) \<and> coinbase_info_of pow j \<in> set cs)"
proof -
  have told: "\<exists>ix cs. v' = Some (job_info_of E p ix j, cs) \<and> (\<forall>q. has_piece q (after_message pow p pj) \<longrightarrow> coinbase_info_of q j \<in> set cs)
      \<and> coinbase_info_of pow j \<in> set cs"
  proof (cases "need_job p pj")
    case True
    then have none: "\<not> has_piece q pj" if "dj_server_sjob pj = Some p" for q
      using assms(1) that by (auto simp: need_job_def marks_true_def has_piece_def)
    then have np: "need_piece pow p pj" by (auto simp: need_piece_def)
    have "coinbase_info_of q j \<in> set cbs" if "has_piece q (after_message pow p pj)" for q
      using that none [of q] coinbase_info_cong [of q pow j] by (auto simp: cbs np has_piece_after [OF assms(3)] split: if_splits)
    then show ?thesis using True by (auto simp: v' cbs np)
  next
    case False
    then obtain ix' cs where p: "dj_server_sjob pj = Some p" and v: "v = Some (job_info_of E p ix' j, cs)"
      and cs: "\<forall>q. has_piece q pj \<longrightarrow> coinbase_info_of q j \<in> set cs"
      using assms(1,2) by (auto simp: need_job_def marks_true_def)
    have "coinbase_info_of q j \<in> set (cs @ cbs)" if "has_piece q (after_message pow p pj)" for q
      using that cs coinbase_info_cong [of q pow j] by (auto simp: cbs has_piece_after [OF assms(3)] p)
    moreover have "coinbase_info_of pow j \<in> set (cs @ cbs)" using cs [rule_format, of pow] by (auto simp: cbs need_piece_def p)
    moreover have "v' = Some (job_info_of E p ix' j, cs @ cbs)" using False v by (simp add: v')
    ultimately show ?thesis by blast
  qed
  then have "marks_true E (after_message pow p pj) v'" using after_marks [of pow p pj] assms(2) by (auto simp: marks_true_def)
  with told show ?thesis by blast
qed

lemma learn_message:
  assumes "read_pow m = Some (share_info_of E pow job cb)"
  shows "learn m V (pw_job_id pow) =
      (case job of Some ji \<Rightarrow> Some (ji, case cb of None \<Rightarrow> [] | Some c \<Rightarrow> [c])
       | None \<Rightarrow> map_option (\<lambda>(ji, cs). (ji, cs @ (case cb of None \<Rightarrow> [] | Some c \<Rightarrow> [c]))) (V (pw_job_id pow)))"
    and "a \<noteq> pw_job_id pow \<Longrightarrow> learn m V a = V a"
  by (auto simp: learn_def assms share_info_of_def Let_def split: option.split)

lemma slot_byte: "a < 8 \<Longrightarrow> unat (word_of_nat a :: u8) = a"
  by (simp add: unat_of_nat)

lemma share_step:
  assumes E: "env_fits E" and ok: "pow_ok E pow" and inv: "pool_inv E (D, V)"
    and m: "datum_protocol_pow_build_message E pow POW_BUFFER D = (Some m, D')"
  shows "pool_inv E (D', learn m V) \<and> (\<exists>p j ix cs. pow_target pow D = Some p \<and> pe_slots E p = Some j
     \<and> learn m V (pw_job_id pow) = Some (job_info_of E p ix j, cs) \<and> coinbase_info_of pow j \<in> set cs)"
proof -
  let ?a = "unat (pw_job_id pow)"
  let ?pj = "D ! ?a"
  obtain p j where p: "pow_target pow D = Some p" "pe_slots E p = Some j"
    and r: "read_pow m = Some (share_info_of E pow (if need_job p ?pj then Some (job_info_of E p (pw_target_byte_index pow) j) else None)
        (if need_piece pow p ?pj then Some (coinbase_info_of pow j) else None))"
    and D': "D' = D[?a := after_message pow p ?pj]"
    using build_reads [OF E ok m] by blast
  have a: "?a < 8" using ok by (simp add: pow_ok_def word_less_nat_alt)
  have id: "\<not> pw_subsidy_only pow \<longrightarrow> pw_coinbase_id pow < 8" using ok by (auto simp: pow_ok_def MAX_COINBASE_TYPES_def word_less_nat_alt)
  have "marks_true E ?pj (V (pw_job_id pow))" using inv a by (auto simp: pool_inv_def)
  moreover have v: "learn m V (pw_job_id pow) = (if need_job p ?pj then Some (job_info_of E p (pw_target_byte_index pow) j, if need_piece pow p ?pj then [coinbase_info_of pow j] else [])
      else map_option (\<lambda>(ji, cs). (ji, cs @ (if need_piece pow p ?pj then [coinbase_info_of pow j] else []))) (V (pw_job_id pow)))"
    unfolding learn_message(1) [OF r] by (simp split: option.split)
  ultimately have s: "marks_true E (after_message pow p ?pj) (learn m V (pw_job_id pow))"
      "\<exists>ix cs. learn m V (pw_job_id pow) = Some (job_info_of E p ix j, cs) \<and> coinbase_info_of pow j \<in> set cs"
    using share_marks [OF _ p(2) id v] by blast+
  have "marks_true E (D' ! b) (learn m V (word_of_nat b))" if "b < 8" for b
  proof (cases "b = ?a")
    case True
    then show ?thesis using s(1) a inv by (simp add: D' pool_inv_def)
  next
    case False
    then have "word_of_nat b \<noteq> pw_job_id pow" using slot_byte [OF that] by auto
    then show ?thesis using False inv that learn_message(2) [OF r] by (simp add: D' pool_inv_def)
  qed
  moreover have "length D' = 8" using inv by (simp add: D' pool_inv_def)
  ultimately show ?thesis using s(2) p by (auto simp: pool_inv_def)
qed

lemma marks_forget: "marks_true E (forget_slot pj) v"
  by (simp add: marks_true_def forget_slot_def)

lemma marks_register: "marks_true E (pj\<lparr>dj_sjob := s\<rparr>) v = marks_true E pj v"
  by (simp add: marks_true_def has_piece_def)

lemma pool_step_inv:
  assumes "env_fits E" "event_ok E ev" "pool_inv E DV"
  shows "pool_inv E (pool_step E ev DV)"
proof -
  obtain D V where DV: "DV = (D, V)" by (cases DV)
  show ?thesis
  proof (cases ev)
    case (Share pow)
    show ?thesis
    proof (cases "datum_protocol_pow_build_message E pow POW_BUFFER D")
      case (Pair r D')
      show ?thesis
      proof (cases r)
        case None
        then have "D' = D" using Pair build_message [OF assms(1), of pow D] assms(2)
          by (auto simp: Share event_ok_def Let_def split: if_splits option.splits)
        then show ?thesis using assms(3) Pair None by (simp add: Share DV)
      next
        case (Some m)
        then show ?thesis using share_step [OF assms(1), of pow D V m D'] assms(2,3) Pair by (simp add: Share DV event_ok_def)
      qed
    qed
  next
    case (Register a p)
    have "marks_true E (register_slot a p D ! b) (V (word_of_nat b))" if "b < 8" for b
      using assms(3) that by (cases "b = a") (simp_all add: register_slot_def pool_inv_def DV marks_register nth_list_update)
    then show ?thesis using assms(3) by (simp add: Register DV pool_inv_def register_slot_def)
  next
    case Reconnect
    then show ?thesis using assms(3) by (simp add: DV pool_inv_def marks_forget)
  qed
qed

lemma pool_run_inv:
  assumes "env_fits E" "\<forall>ev\<in>set evs. event_ok E ev"
  shows "pool_inv E (pool_run E evs)"
proof -
  have "pool_inv E (initial_slots, \<lambda>_. None)" by (simp add: pool_inv_def initial_slots_def marks_true_def)
  then have "pool_inv E (fold (pool_step E) evs DV)" if "pool_inv E DV" for DV
    using that assms(2)
  proof (induction evs arbitrary: DV)
    case (Cons ev evs)
    then show ?case using pool_step_inv [OF assms(1)] by simp
  qed simp
  then show ?thesis using \<open>pool_inv E (initial_slots, \<lambda>_. None)\<close> by (simp add: pool_run_def)
qed



section \<open>Examples\<close>

definition ex_pow_env :: "bytes \<Rightarrow> pow_env" where
  "ex_pow_env ph = \<lparr>pe_full_users = True, pe_workers = False, pe_address = ''bc1q'',
     pe_slots = (\<lambda>p. if p = 5 then Some (ex_job\<lparr>j_prevhash_bin := ph, j_merklebranches_bin := [replicate 32 7]\<rparr>) else None),
     pe_coinbaser_id = (\<lambda>_. 0)\<rparr>"

definition ex_pow :: "nat \<Rightarrow> pow" where
  "ex_pow c = \<lparr>pw_job_id = 5, pw_extranonce = replicate 12 1, pw_username = ''worker'', pw_stratum_job_id = '''', pw_sjob = Some 5, pw_coinbase_id = word_of_nat c,
     pw_subsidy_only = False, pw_is_block = False, pw_quickdiff = False, pw_time_offset = False, pw_target_byte = 3, pw_target_byte_index = 9,
     pw_ntime = 1700000000, pw_nonce = 42, pw_time_on_wire = 7, pw_version = 0x20000000\<rparr>"

lemma ex_pow_env_fits: "length ph = 32 \<Longrightarrow> env_fits (ex_pow_env ph)"
  by (simp add: env_fits_def ex_pow_env_def job_fits_def coinbase_fits_def ex_job_def ex_coinbase_def ex_template_def MAX_COINBASE_TYPES_def)

lemma ex_pow_ok: "c < 6 \<Longrightarrow> pow_ok (ex_pow_env ph) (ex_pow c)"
  by (simp add: pow_ok_def ex_pow_env_def ex_pow_def MAX_COINBASE_TYPES_def unat_of_nat)

lemma ex_pow_target: "pow_target (ex_pow c) D = Some 5"
  by (simp add: pow_target_def ex_pow_def)

lemma ex_slot: "pe_slots (ex_pow_env ph) 5 = Some (ex_job\<lparr>j_prevhash_bin := ph, j_merklebranches_bin := [replicate 32 7]\<rparr>)"
  by (simp add: ex_pow_env_def)

lemma ex_build:
  assumes "c < 6" "length ph = 32"
  shows "\<exists>m D'. datum_protocol_pow_build_message (ex_pow_env ph) (ex_pow c) POW_BUFFER D = (Some m, D')"
proof -
  have "pow_acceptable (ex_pow c)" using assms(1) by (simp add: pow_acceptable_def ex_pow_def MAX_COINBASE_TYPES_def unat_of_nat)
  then show ?thesis
    unfolding build_message [OF ex_pow_env_fits [OF assms(2)] ex_pow_ok [OF assms(1)]] ex_pow_target Let_def by (simp add: ex_slot)
qed

theorem pow_message_fits_witness:
  "\<exists>m D'. datum_protocol_pow_build_message (ex_pow_env (replicate 32 0)) (ex_pow 4) POW_BUFFER initial_slots = (Some m, D') \<and> length m + 80 + 16 \<le> POW_BUFFER"
proof -
  have e: "env_fits (ex_pow_env (replicate 32 0))" by (rule ex_pow_env_fits) simp
  obtain m D' where m: "datum_protocol_pow_build_message (ex_pow_env (replicate 32 0)) (ex_pow 4) POW_BUFFER initial_slots = (Some m, D')"
    using ex_build [of 4 "replicate 32 0"] by fastforce
  then show ?thesis using pow_message_fits [OF e ex_pow_ok m, of 80] by simp
qed



text \<open>C0: the share as it was queued is what the pool reads: slot, coinbase, target byte, extranonce, time and nonce in full width, and the user name
  the configuration asks for, cut to 384 bytes.\<close>

theorem share_message_fields:
  assumes "env_fits E" "pow_ok E pow" "datum_protocol_pow_build_message E pow POW_BUFFER D = (Some m, D')"
    "pow = datum_protocol_pow_submit slot job username was_block subsidy quickdiff hdr full_cb_tx extranonce coinbase_index"
    "t_header_version (j_template job) \<ge> 2"
  shows "\<exists>s. read_pow m = Some s \<and> si_slot s = j_datum_job_idx job \<and> si_coinbase_id s = coinbase_index
    \<and> si_target_byte s = full_cb_tx ! j_target_pot_index job \<and> si_extranonce s = take 12 extranonce
    \<and> si_blake2b s = Some (unat (upk_u64le hdr 40), unat (upk_u64le hdr 32), unat (j_blake2b_time_on_wire job))
    \<and> si_version s = unat (j_version_uint job) \<and> si_user s = map byte_of (take 384 (pow_username E pow))"
  using build_reads [OF assms(1-3)] assms(5)
  by (auto simp: share_info_of_def datum_protocol_pow_submit_def Let_def assms(4) DATUM_PROTOCOL_MAX_USERNAME_LEN_def)

theorem share_message_fields_witness:
  "\<exists>m D' s. datum_protocol_pow_build_message (ex_pow_env (replicate 32 0))
       (datum_protocol_pow_submit 5 ex_job ''worker'' False False False (replicate 32 0 @ le_bytes 8 42 @ le_bytes 8 1700000000) [3] (replicate 12 1) 4) POW_BUFFER initial_slots = (Some m, D')
     \<and> read_pow m = Some s \<and> si_extranonce s = replicate 12 1 \<and> si_blake2b s = Some (1700000000, 42, 20)"
proof -
  let ?E = "ex_pow_env (replicate 32 0)"
  let ?pow = "datum_protocol_pow_submit 5 ex_job ''worker'' False False False (replicate 32 0 @ le_bytes 8 42 @ le_bytes 8 1700000000) [3] (replicate 12 1) 4"
  have e: "env_fits ?E" by (rule ex_pow_env_fits) simp
  have v: "t_header_version (j_template ex_job) \<ge> 2" by (simp add: ex_job_def ex_template_def)
  then have p: "pw_sjob ?pow = Some 5" "pw_subsidy_only ?pow = False" "pw_coinbase_id ?pow = 4" by (simp_all add: datum_protocol_pow_submit_def Let_def)
  have ok: "pow_ok ?E ?pow"
    using v by (simp add: pow_ok_def datum_protocol_pow_submit_def Let_def ex_pow_env_def MAX_COINBASE_TYPES_def ex_job_def)
  have "pow_acceptable ?pow" "pow_target ?pow initial_slots = Some 5" using p by (simp_all add: pow_acceptable_def pow_target_def MAX_COINBASE_TYPES_def)
  then obtain m D' where m: "datum_protocol_pow_build_message ?E ?pow POW_BUFFER initial_slots = (Some m, D')"
    unfolding build_message [OF e ok] Let_def by (simp add: ex_slot)
  have u: "unat (upk_u64le (replicate 32 0 @ le_bytes 8 42 @ le_bytes 8 1700000000) 40) = 1700000000"
    "unat (upk_u64le (replicate 32 0 @ le_bytes 8 42 @ le_bytes 8 1700000000) 32) = 42"
    by (simp_all add: upk_u64le_word unat_le_word le_val_bytes)
  have t: "unat (j_blake2b_time_on_wire ex_job) = 20" by (simp add: ex_job_def)
  show ?thesis using share_message_fields [OF e ok m refl v] m by (auto simp: u t)
qed

end
