(* ===== verification/Validation.thy ===== *)
theory Validation
  imports Powmsg Util
begin

text \<open>
  The pool checks the template of a job, \<^verbatim>\<open>src/src/datum_protocol.c\<close>: a list of short transaction ids
  (\<^verbatim>\<open>datum_protocol_job_validation_stxlist\<close>), chosen transactions (\<^verbatim>\<open>stxlist_byid\<close>), or all of them
  (\<^verbatim>\<open>sblock\<close>). A command is its bytes and whatever lies behind them in the receive buffer; the result is the message handed
  to \<^verbatim>\<open>datum_protocol_mining_cmd\<close>, or \<open>None\<close> when it does not fit the array it is made in. Each message uses two
  random numbers, \<open>r1\<close> and \<open>r2\<close>.
\<close>

section \<open>Messages\<close>

definition padding :: "nat \<Rightarrow> nat \<Rightarrow> nat \<Rightarrow> bytes" where
  "padding m r1 r2 = replicate (1 + r1 mod m) (word_of_nat r2)"

definition validation_error :: "u8 \<Rightarrow> u8 \<Rightarrow> u8 \<Rightarrow> nat \<Rightarrow> nat \<Rightarrow> bytes" where
  "validation_error cmd slot reason r1 r2 = [0x50, cmd, slot, reason] @ padding 100 r1 r2"

text \<open>The checks all three commands begin with.\<close>

definition validation_template :: "u8 \<Rightarrow> u8 \<Rightarrow> (nat \<Rightarrow> stratum_job option) \<Rightarrow> pool_job list \<Rightarrow> nat \<Rightarrow> nat \<Rightarrow> bytes + template" where
  "validation_template cmd slot slots D r1 r2 =
     (if slot \<ge> 8 then Inl (validation_error cmd 0xFF 0xF3 r1 r2)
      else case dj_sjob (D ! unat slot) of
        None \<Rightarrow> Inl (validation_error cmd slot 0xF0 r1 r2)
      | Some p \<Rightarrow>
          (case slots p of
             None \<Rightarrow> Inl (validation_error cmd slot 0xF1 r1 r2)
           | Some j \<Rightarrow> Inr (j_template j)))"

section \<open>Short ids\<close>

definition crosscheck_start :: bytes where
  "crosscheck_start =
     [0xA3, 0x4F, 0xC1, 0x9C, 0x5E, 0x88, 0x76, 0x12, 0x0A, 0x79, 0x3E, 0xF1, 0x6C, 0x93, 0x54, 0xAF,
      0xB8, 0x1D, 0xE8, 0x5A, 0x20, 0xC7, 0x94, 0x38, 0x6F, 0xA1, 0x02, 0xD9, 0x4A, 0x7B, 0xF0, 0x11]"

definition siphash_key :: "bytes \<Rightarrow> bytes \<Rightarrow> bytes" where
  "siphash_key local_pk pool_pk = map (\<lambda>j. local_pk ! j XOR pool_pk ! j XOR 0x55) [0..<16]"

definition short_id :: "bytes \<Rightarrow> txn \<Rightarrow> bytes" where
  "short_id key x =
     (let h = datum_siphash_mod8 (x_hash_bin x) key
      in le_bytes 4 (unat (h AND 0xFFFFFFFF)) @ le_bytes 2 (unat (drop_bit 32 h AND 0xFFFF)))"

definition xor_hash :: "bytes \<Rightarrow> bytes \<Rightarrow> bytes" where
  "xor_hash acc h = map (\<lambda>k. acc ! k XOR h ! k) [0..<32]"

definition datum_protocol_job_validation_stxlist ::
  "bytes \<Rightarrow> bytes \<Rightarrow> (nat \<Rightarrow> stratum_job option) \<Rightarrow> pool_job list \<Rightarrow> bytes \<Rightarrow> nat \<Rightarrow> nat \<Rightarrow> bytes" where
  "datum_protocol_job_validation_stxlist local_pk pool_pk slots D data r1 r2 =
     (let slot = data ! 0
      in case validation_template 0x90 slot slots D r1 r2 of
           Inl e \<Rightarrow> e
         | Inr t \<Rightarrow>
             (if length (t_txns t) = 0 then [0x50, 0x90, slot, 0x01, 0, 0] @ padding 100 r1 r2
              else if length (t_txns t) > 16383 then validation_error 0x90 slot 0xF2 r1 r2
              else let key = siphash_key local_pk pool_pk
                   in [0x50, 0x90, slot, 0x01] @ le_bytes 2 (length (t_txns t)) @ concat (map (short_id key) (t_txns t))
                      @ fold (\<lambda>x acc. xor_hash acc (x_hash_bin x)) (t_txns t) crosscheck_start @ [0xFE] @ padding 111 r1 r2))"

section \<open>Transactions\<close>

text \<open>\<open>TEMP_DATA\<close> is the array \<^verbatim>\<open>temp_data\<close>.\<close>

definition TEMP_DATA :: nat where "TEMP_DATA = 4194304 + 16384"

definition txn_entry :: "txn \<Rightarrow> bytes" where
  "txn_entry x =
     le_bytes 2 (unat (x_size x AND 0xFFFF)) @ [ucast (drop_bit 16 (x_size x) AND 0xFF)] @ take (unat (x_size x)) (x_data_binary x)"

text \<open>The ids are read from position \<open>k\<close> of the buffer; \<open>Inl True\<close> is an id without a transaction, \<open>Inl False\<close> an overrun.\<close>

fun chosen_txns :: "template \<Rightarrow> bytes \<Rightarrow> nat \<Rightarrow> nat \<Rightarrow> bytes \<Rightarrow> bool + bytes" where
  "chosen_txns t data k 0 msg = Inr msg"
| "chosen_txns t data k (Suc n) msg =
     (let req_id = unat (upk_u16le data k)
      in if req_id \<ge> length (t_txns t) then Inl True
         else if length msg + 3 + unat (x_size (t_txns t ! req_id)) > TEMP_DATA then Inl False
         else chosen_txns t data (k + 2) n (msg @ txn_entry (t_txns t ! req_id)))"

definition datum_protocol_job_validation_stxlist_byid ::
  "(nat \<Rightarrow> stratum_job option) \<Rightarrow> pool_job list \<Rightarrow> bytes \<Rightarrow> nat \<Rightarrow> nat \<Rightarrow> bytes option" where
  "datum_protocol_job_validation_stxlist_byid slots D data r1 r2 =
     (let slot = data ! 0; req_count = unat (upk_u16le data 1)
      in case validation_template 0x91 slot slots D r1 r2 of
           Inl e \<Rightarrow> Some e
         | Inr t \<Rightarrow>
             (if req_count = 0 \<or> req_count > length (t_txns t) then Some (validation_error 0x91 slot 0xF4 r1 r2)
              else case chosen_txns t data 3 req_count ([0x50, 0x91, slot, 0x01] @ le_bytes 2 req_count) of
                Inl True \<Rightarrow> Some (validation_error 0x91 slot 0xF4 r1 r2)
              | Inl False \<Rightarrow> None
              | Inr msg \<Rightarrow>
                  (let msg = msg @ [0xFE] @ padding 111 r1 r2 in if length msg + 16 > TEMP_DATA then None else Some msg)))"

definition datum_protocol_job_validation_sblock ::
  "(nat \<Rightarrow> stratum_job option) \<Rightarrow> pool_job list \<Rightarrow> bytes \<Rightarrow> nat \<Rightarrow> nat \<Rightarrow> bytes option" where
  "datum_protocol_job_validation_sblock slots D data r1 r2 =
     (let slot = data ! 0
      in case validation_template 0x92 slot slots D r1 r2 of
           Inl e \<Rightarrow> Some e
         | Inr t \<Rightarrow>
             (let msg = [0x50, 0x92, slot, 0x01] @ le_bytes 2 (length (t_txns t)) @ concat (map txn_entry (t_txns t)) @ [0xFE]
              in if length msg + 16 > TEMP_DATA then None else Some msg))"

datatype validation = Ignored int | Reply "bytes option"

definition datum_protocol_job_validation_cmd ::
  "bytes \<Rightarrow> bytes \<Rightarrow> (nat \<Rightarrow> stratum_job option) \<Rightarrow> pool_job list \<Rightarrow> nat \<Rightarrow> bytes \<Rightarrow> nat \<Rightarrow> nat \<Rightarrow> validation" where
  "datum_protocol_job_validation_cmd local_pk pool_pk slots D len data r1 r2 =
     (if len < 2 then Ignored 0
      else let p = drop 1 data
           in if data ! 0 = 0x10 then Reply (Some (datum_protocol_job_validation_stxlist local_pk pool_pk slots D p r1 r2))
              else if data ! 0 = 0x11 then Reply (datum_protocol_job_validation_stxlist_byid slots D p r1 r2)
              else if data ! 0 = 0x12 then Reply (datum_protocol_job_validation_sblock slots D p r1 r2)
              else Ignored 1)"

section \<open>What the pool reads\<close>

definition txn_ok :: "txn \<Rightarrow> bool" where
  "txn_ok x \<longleftrightarrow> length (x_data_binary x) = unat (x_size x) \<and> unat (x_size x) < 2 ^ 24 \<and> length (x_hash_bin x) = 32"

fun read_txns :: "nat \<Rightarrow> bytes \<Rightarrow> bytes list \<times> bytes" where
  "read_txns 0 m = ([], m)"
| "read_txns (Suc n) m =
     (let k = le_val (take 3 m); (ts, r) = read_txns n (drop k (drop 3 m)) in (take k (drop 3 m) # ts, r))"

definition read_block_reply :: "bytes \<Rightarrow> bytes list \<times> bytes" where
  "read_block_reply m = read_txns (le_val (take 2 (drop 4 m))) (drop 6 m)"

lemma txn_entry_bytes:
  assumes "txn_ok x"
  shows "txn_entry x = le_bytes 3 (unat (x_size x)) @ x_data_binary x"
proof -
  have m: "(0xFFFF :: u32) = mask 16" "(0xFF :: u32) = mask 8" by (simp_all add: mask_eq_exp_minus_1)
  have a: "unat (x_size x AND 0xFFFF) = unat (x_size x) mod 2 ^ 16" unfolding m by (rule unat_and_mask)
  have "(ucast (drop_bit 16 (x_size x) AND 0xFF) :: u8) = word_of_nat (unat (x_size x) div 2 ^ 16)"
    unfolding m by (simp add: word_unat_eq_iff unat_ucast_mod unat_and_mask unat_drop_bit_div unat_of_nat)
  moreover have "le_bytes 2 (v mod 2 ^ 16) @ [word_of_nat (v div 2 ^ 16)] = le_bytes 3 v" if "v < 2 ^ 24" for v
  proof -
    have "v div 2 ^ 16 < 256" using that by (simp add: less_mult_imp_div_less)
    then have "le_val (le_bytes 2 (v mod 2 ^ 16) @ [word_of_nat (v div 2 ^ 16)]) = v mod 2 ^ 16 + 2 ^ 16 * (v div 2 ^ 16)"
      by (simp add: le_val_append le_val_bytes unat_of_nat)
    also have "\<dots> = le_val (le_bytes 3 v)" using that by (simp add: le_val_bytes)
    finally show ?thesis by (subst (asm) le_val_inject) simp_all
  qed
  ultimately show ?thesis using assms a by (simp add: txn_entry_def txn_ok_def)
qed

lemma length_txn_entry: "txn_ok x \<Longrightarrow> length (txn_entry x) = 3 + unat (x_size x)"
  by (simp add: txn_entry_bytes txn_ok_def)

definition entries_size :: "txn list \<Rightarrow> nat" where
  "entries_size xs = sum_list (map (\<lambda>x. 3 + unat (x_size x)) xs)"

lemma length_entries: "\<forall>x\<in>set xs. txn_ok x \<Longrightarrow> length (concat (map txn_entry xs)) = entries_size xs"
  by (induction xs) (simp_all add: length_txn_entry entries_size_def)

lemma read_txns_entries: "\<forall>x\<in>set xs. txn_ok x \<Longrightarrow> read_txns (length xs) (concat (map txn_entry xs) @ r) = (map x_data_binary xs, r)"
proof (induction xs)
  case (Cons x xs)
  have x: "txn_ok x" using Cons.prems by simp
  have "le_val (le_bytes 3 (unat (x_size x))) = unat (x_size x)" using x by (simp add: le_val_bytes txn_ok_def)
  then show ?case using Cons x by (simp add: txn_entry_bytes) (simp add: txn_ok_def)
qed simp


lemma chosen_txns_fit:
  assumes "\<forall>x\<in>set (t_txns t). txn_ok x" "\<forall>i<n. unat (upk_u16le data (k + 2 * i)) < length (t_txns t)"
  shows "chosen_txns t data k n msg =
    (let xs = map (\<lambda>i. t_txns t ! unat (upk_u16le data (k + 2 * i))) [0..<n]
     in if length msg + entries_size xs > TEMP_DATA \<and> n > 0 then Inl False else Inr (msg @ concat (map txn_entry xs)))"
  using assms(2)
proof (induction n arbitrary: k msg)
  case (Suc n)
  let ?x = "t_txns t ! unat (upk_u16le data k)"
  have i: "unat (upk_u16le data k) < length (t_txns t)" using Suc.prems [rule_format, of 0] by simp
  then have x: "txn_ok ?x" using assms(1) by simp
  have "\<forall>i<n. unat (upk_u16le data (k + 2 + 2 * i)) < length (t_txns t)" using Suc.prems [rule_format, of "Suc i" for i] by auto
  note IH = Suc.IH [OF this, of "msg @ txn_entry ?x"]
  have xs: "map (\<lambda>i. t_txns t ! unat (upk_u16le data (k + 2 * i))) [0..<Suc n]
      = ?x # map (\<lambda>i. t_txns t ! unat (upk_u16le data (k + 2 + 2 * i))) [0..<n]"
    by (simp add: upt_conv_Cons map_Suc_upt [symmetric] o_def del: upt_Suc)
  show ?case
    unfolding xs using i IH length_txn_entry [OF x] by (auto simp: Let_def entries_size_def add.assoc)
qed (simp add: entries_size_def)

text \<open>C38: the pool may ask for the same transaction again and again: the number of ids is only compared with the number of transactions, and with enough copies
  of one transaction the reply runs over the end of its array.\<close>

theorem repeated_ids_overrun:
  assumes "validation_template 0x91 (data ! 0) slots D r1 r2 = Inr t" "\<forall>x\<in>set (t_txns t). txn_ok x"
    "n = unat (upk_u16le data 1)" "0 < n" "n \<le> length (t_txns t)" "\<forall>i<n. unat (upk_u16le data (3 + 2 * i)) = a" "a < length (t_txns t)"
    "6 + n * (3 + unat (x_size (t_txns t ! a))) > TEMP_DATA"
  shows "datum_protocol_job_validation_stxlist_byid slots D data r1 r2 = None"
proof -
  let ?xs = "map (\<lambda>i. t_txns t ! unat (upk_u16le data (3 + 2 * i))) [0..<n]"
  have "?xs = replicate n (t_txns t ! a)" using assms(6) by (intro nth_equalityI) simp_all
  then have s: "entries_size ?xs = n * (3 + unat (x_size (t_txns t ! a)))" by (simp add: entries_size_def sum_list_replicate)
  have f: "\<forall>i<n. unat (upk_u16le data (3 + 2 * i)) < length (t_txns t)" using assms(6,7) by simp
  have "chosen_txns t data 3 n ([0x50, 0x91, data ! 0, 0x01] @ le_bytes 2 n) = Inl False"
    unfolding chosen_txns_fit [OF assms(2) f] Let_def s using assms(4,8) by simp
  then show ?thesis
    unfolding datum_protocol_job_validation_stxlist_byid_def Let_def assms(1) sum.case assms(3) [symmetric] using assms(4,5) by simp
qed

text \<open>The list of short ids: one id of 48 bits for each transaction, and the crosscheck.\<close>

lemma length_xor_hash [simp]: "length (xor_hash a b) = 32"
  by (simp add: xor_hash_def)

lemma length_crosscheck: "length (fold (\<lambda>x acc. xor_hash acc (x_hash_bin x)) xs crosscheck_start) = 32"
  by (cases xs rule: rev_cases) (simp_all add: crosscheck_start_def)

lemma short_id_value: "short_id key x = le_bytes 6 (unat (datum_siphash_mod8 (x_hash_bin x) key))"
proof -
  define h where "h = datum_siphash_mod8 (x_hash_bin x) key"
  have m: "(0xFFFFFFFF :: u64) = mask 32" "(0xFFFF :: u64) = mask 16" by (simp_all add: mask_eq_exp_minus_1)
  have "unat (h AND 0xFFFFFFFF) = unat h mod 2 ^ 32" "unat (drop_bit 32 h AND 0xFFFF) = unat h div 2 ^ 32 mod 2 ^ 16"
    unfolding m by (simp_all add: unat_and_mask unat_drop_bit_div)
  then have "le_val (short_id key x) = unat h mod 2 ^ 32 + 2 ^ 32 * (unat h div 2 ^ 32 mod 2 ^ 16)"
    by (simp add: short_id_def h_def [symmetric] Let_def le_val_append le_val_bytes)
  also have "\<dots> = unat h mod 2 ^ 48" using mod_mult2_eq [of "unat h" "2 ^ 32" "2 ^ 16"] by simp
  also have "\<dots> = le_val (le_bytes 6 (unat h))" by (simp add: le_val_bytes)
  finally show ?thesis by (subst (asm) le_val_inject) (simp_all add: short_id_def h_def Let_def)
qed

lemma take_piece:
  assumes "i < length xs" "\<forall>x\<in>set xs. length (f x) = k"
  shows "take k (drop (k * i) (concat (map f xs) @ r)) = f (xs ! i)"
  using assms
proof (induction xs arbitrary: i)
  case (Cons x xs)
  then show ?case by (cases i) (simp_all add: drop_append)
qed simp

text \<open>C0: the list of short ids has the low 48 bits of the keyed hash of every transaction at its place, then the crosscheck over all of them, and fits
  the array it is made in.\<close>

theorem short_list_read:
  assumes "validation_template 0x90 (data ! 0) slots D r1 r2 = Inr t" "0 < length (t_txns t)" "length (t_txns t) \<le> 16383"
    "m = datum_protocol_job_validation_stxlist local_pk pool_pk slots D data r1 r2"
  shows "take 6 m = [0x50, 0x90, data ! 0, 0x01] @ le_bytes 2 (length (t_txns t)) \<and> length m + 16 \<le> 128 * 1024
    \<and> (\<forall>i<length (t_txns t). le_val (take 6 (drop (6 + 6 * i) m))
        = unat (datum_siphash_mod8 (x_hash_bin (t_txns t ! i)) (siphash_key local_pk pool_pk)) mod 2 ^ 48)
    \<and> take 32 (drop (6 + 6 * length (t_txns t)) m) = fold (\<lambda>x acc. xor_hash acc (x_hash_bin x)) (t_txns t) crosscheck_start"
proof -
  let ?xs = "t_txns t" and ?key = "siphash_key local_pk pool_pk"
  let ?x = "fold (\<lambda>x acc. xor_hash acc (x_hash_bin x)) ?xs crosscheck_start"
  let ?ids = "concat (map (short_id ?key) ?xs)" and ?r = "?x @ [0xFE] @ padding 111 r1 r2"
  have m: "m = ([0x50, 0x90, data ! 0, 0x01] @ le_bytes 2 (length ?xs)) @ ?ids @ ?r"
    unfolding assms(4) datum_protocol_job_validation_stxlist_def Let_def assms(1) sum.case using assms(2,3) by simp
  have l6: "\<forall>x\<in>set ?xs. length (short_id ?key x) = 6" by (simp add: short_id_value)
  have ids: "length ?ids = 6 * length ?xs" by (simp add: length_concat comp_def short_id_value sum_list_triv)
  have d6: "drop 6 m = ?ids @ ?r" by (simp add: m)
  have d: "drop (6 + n) m = drop n (?ids @ ?r)" for n unfolding d6 [symmetric] by (simp add: add.commute)
  have "le_val (take 6 (drop (6 + 6 * i) m)) = unat (datum_siphash_mod8 (x_hash_bin (?xs ! i)) ?key) mod 2 ^ 48" if "i < length ?xs" for i
    unfolding d take_piece [OF that l6] by (simp add: short_id_value le_val_bytes)
  moreover have "take 32 (drop (6 + 6 * length ?xs) m) = ?x" unfolding d by (simp add: ids length_crosscheck)
  moreover have "length m + 16 \<le> 128 * 1024"
  proof -
    have "length (padding 111 r1 r2) \<le> 111" using mod_less_divisor [of 111 r1] by (simp add: padding_def del: mod_less_divisor)
    then show ?thesis using assms(3) by (simp add: m ids length_crosscheck)
  qed
  ultimately show ?thesis by (simp add: m)
qed

section \<open>Examples\<close>

definition ex_txn :: txn where
  "ex_txn = \<lparr>x_txid_hex = '''', x_txid_bin = replicate 32 1, x_hash_hex = '''', x_hash_bin = replicate 32 2, x_size = 60000, x_weight = 240000,
     x_fee_sats = 0, x_sigops = 0, x_data_hex = '''', x_data_binary = replicate 60000 7\<rparr>"

definition ex_vslots :: "nat \<Rightarrow> nat \<Rightarrow> stratum_job option" where
  "ex_vslots n = (\<lambda>p. if p = 5 then Some (ex_job\<lparr>j_template := ex_template\<lparr>t_txns := replicate n ex_txn\<rparr>\<rparr>) else None)"

lemma ex_vtemplate: "validation_template cmd 3 (ex_vslots n) (register_slot 3 5 initial_slots) r1 r2 = Inr (ex_template\<lparr>t_txns := replicate n ex_txn\<rparr>)"
  by (simp add: validation_template_def register_slot_def initial_slots_def ex_vslots_def)

lemma ex_txn_ok: "txn_ok ex_txn"
  by (simp add: txn_ok_def ex_txn_def)

lemma ex_size: "x_size ex_txn = 60000" "x_data_binary ex_txn = replicate 60000 7"
  by (simp_all add: ex_txn_def)


theorem short_list_read_witness:
  "take 6 (datum_protocol_job_validation_stxlist (replicate 32 1) (replicate 32 2) (ex_vslots 2) (register_slot 3 5 initial_slots) [3] 0 0)
     = [0x50, 0x90, 3, 0x01] @ le_bytes 2 2"
proof -
  let ?t = "ex_template\<lparr>t_txns := replicate 2 ex_txn\<rparr>"
  have t: "validation_template 0x90 ([3] ! 0) (ex_vslots 2) (register_slot 3 5 initial_slots) 0 0 = Inr ?t" by (simp add: ex_vtemplate)
  show ?thesis using short_list_read [OF t _ _ refl, of "replicate 32 1" "replicate 32 2"] by simp
qed

theorem repeated_ids_overrun_witness:
  "datum_protocol_job_validation_stxlist_byid (ex_vslots 80) (register_slot 3 5 initial_slots) (3 # 80 # replicate 200 0) 0 0 = None"
proof -
  let ?t = "ex_template\<lparr>t_txns := replicate 80 ex_txn\<rparr>" and ?data = "3 # 80 # replicate 200 (0 :: u8)"
  have t: "validation_template 0x91 (?data ! 0) (ex_vslots 80) (register_slot 3 5 initial_slots) 0 0 = Inr ?t" by (simp add: ex_vtemplate)
  have u: "upk_u16le ?data 1 = 80" by (simp add: upk_u16le_def)
  have z: "\<forall>i<80. unat (upk_u16le ?data (3 + 2 * i)) = 0" by (simp add: upk_u16le_def nth_Cons')
  show ?thesis
    by (rule repeated_ids_overrun [OF t, where n = 80 and a = 0]) (use z in \<open>simp_all add: u [simplified] ex_txn_ok ex_size TEMP_DATA_def\<close>)
qed

end
