(* ===== verification/Pool.thy ===== *)
theory Pool
  imports Wire Validation
begin

text \<open>
  The session with the pool, \<^verbatim>\<open>src/src/datum_protocol.c\<close>: the first message and the nonces it fixes, and every command of
  the pool: \<^verbatim>\<open>datum_protocol_server_msg\<close> undoes encryption and signature and dispatches to the handshake, the
  configuration, the coinbaser, the share responses and the validation of theory \<^theory_text>\<open>Validation\<close>. The functions of
  libsodium are the record \<open>crypto\<close>. A command is its header and the receive buffer from its first byte on: what lies behind the command is
  still there from earlier ones. Results are those of the functions; a negative one closes the connection.
\<close>

section \<open>State\<close>

record pool_keys =
  pk_ed25519 :: bytes
  pk_x25519 :: bytes

record crypto =
  cr_seal_open :: "pool_keys \<Rightarrow> bytes \<Rightarrow> bytes option"
  cr_open :: "bytes \<Rightarrow> u32 list \<Rightarrow> bytes \<Rightarrow> bytes option"
  cr_beforenm :: "bytes \<Rightarrow> pool_keys \<Rightarrow> bytes option"
  cr_verify :: "bytes \<Rightarrow> bytes \<Rightarrow> bytes \<Rightarrow> bool"

text \<open>The two buffers for answers of the coinbaser, used in turn.\<close>

record answers =
  ca_idx :: nat
  ca_received :: bool
  ca_buf :: "nat \<Rightarrow> bytes"
  ca_value :: "nat \<Rightarrow> u64"
  ca_len :: "nat \<Rightarrow> nat"

record tallies =
  accepted_count :: u64
  accepted_diff :: u64
  rejected_count :: u64
  rejected_diff :: u64
  last_accepted :: u64

record pool_settings =
  ps_scriptsig :: bytes
  ps_prime_id :: u32
  ps_tag :: bytes
  ps_vardiff_min :: u64

record session =
  ss_state :: nat
  ss_local :: pool_keys
  ss_session :: pool_keys
  ss_remote :: pool_keys
  ss_pool :: pool_keys
  ss_precomp :: bytes
  ss_nonce_receiver :: "u32 list"
  ss_latest :: u64
  ss_settings :: pool_settings
  ss_tallies :: tallies
  ss_answers :: answers
  ss_notified :: nat
  ss_replies :: "bytes list"

section \<open>Keys and first message\<close>

fun hex_pairs :: "string \<Rightarrow> bytes" where
  "hex_pairs (c0 # c1 # cs) = hex2bin_uchar c0 c1 # hex_pairs cs"
| "hex_pairs _ = []"

definition datum_pubkey_to_struct :: "string \<Rightarrow> pool_keys option" where
  "datum_pubkey_to_struct input =
     (if input = [] \<or> length input \<noteq> 128 then None
      else Some \<lparr>pk_ed25519 = hex_pairs (take 64 input), pk_x25519 = hex_pairs (drop 64 input)\<rparr>)"

text \<open>The plain text: keys, version and build as text, the key of the header mask, padding.\<close>

definition hello_body :: "pool_keys \<Rightarrow> pool_keys \<Rightarrow> string \<Rightarrow> string \<Rightarrow> string option \<Rightarrow> u32 \<Rightarrow> nat \<Rightarrow> nat \<Rightarrow> bytes" where
  "hello_body local session version commit tag nk r1 r2 =
     pk_ed25519 local @ pk_x25519 local @ pk_ed25519 session @ pk_x25519 session
     @ map byte_of (take 127 version @ ''/'' @ take 127 commit @ (case tag of None \<Rightarrow> '''' | Some g \<Rightarrow> ''('' @ take 127 g @ '')''))
     @ [0, 0xFE] @ word_bytes nk @ padding 200 r1 r2"

definition hello_header :: "nat \<Rightarrow> header" where
  "hello_header len =
     \<lparr>h_cmd_len = len mod 2 ^ 22, h_reserved = 0, h_signed = True, h_encrypted_pubkey = True, h_encrypted_channel = False, h_proto_cmd = 1\<rparr>"

fun nonce_words :: "nat \<Rightarrow> u32 \<Rightarrow> u32 list" where
  "nonce_words 0 nk = []"
| "nonce_words (Suc n) nk = (let r = datum_header_xor_feedback (nk - 42) in r # nonce_words n (NOT r))"

definition receiver_nonce :: "pool_keys \<Rightarrow> u32 \<Rightarrow> u32 list" where
  "receiver_nonce session nk = nonce_words 6 ((nk - 42) XOR upk_u32le (pk_ed25519 session) 7)"

definition sender_nonce :: "u32 list \<Rightarrow> u32 list" where
  "sender_nonce rs = map (\<lambda>r. r XOR 0x57575757) rs"

record hello =
  he_message :: bytes
  he_sending_key :: u32
  he_receiving_key :: u32
  he_nonce_receiver :: "u32 list"
  he_nonce_sender :: "u32 list"

text \<open>\<open>sign\<close> gives the 64 bytes of a signature with the local key, \<open>seal\<close> the message sealed for the pool, 48 bytes longer.\<close>

definition datum_protocol_send_hello ::
  "(bytes \<Rightarrow> bytes) \<Rightarrow> (bytes \<Rightarrow> bytes) \<Rightarrow> pool_keys \<Rightarrow> pool_keys \<Rightarrow> string \<Rightarrow> string \<Rightarrow> string option \<Rightarrow> u32 \<Rightarrow> nat \<Rightarrow> nat \<Rightarrow> u32 \<Rightarrow> hello" where
  "datum_protocol_send_hello sign seal local session version commit tag nk r1 r2 sending_key =
     (let body = hello_body local session version commit tag nk r1 r2;
          sealed = seal (body @ sign body);
          w = datum_xor_header_key (header_word (hello_header (length body + 64 + 48))) sending_key;
          rs = receiver_nonce session nk
      in \<lparr>he_message = word_bytes w @ sealed, he_sending_key = datum_header_xor_feedback nk, he_receiving_key = datum_header_xor_feedback (NOT nk),
          he_nonce_receiver = rs, he_nonce_sender = sender_nonce rs\<rparr>)"

section \<open>Commands\<close>

subsection \<open>Configuration\<close>

definition vardiff_setting :: "u64 \<Rightarrow> u64" where
  "vardiff_setting v = (if v \<noteq> roundDownToPowerOfTwo_64 v then push_bit 1 (roundDownToPowerOfTwo_64 v) else v)"

text \<open>What has been stored stays stored when a later part is missing.\<close>

definition configure_end :: "bytes \<Rightarrow> nat \<Rightarrow> nat \<Rightarrow> session \<Rightarrow> int \<times> session" where
  "configure_end data len i S =
     (if i + 2 > len then (0, S) else if data ! i \<noteq> 0 \<or> data ! (i + 1) \<noteq> 0xFE then (0, S) else (1, S\<lparr>ss_state := 3\<rparr>))"

definition configure_vardiff :: "bytes \<Rightarrow> nat \<Rightarrow> nat \<Rightarrow> session \<Rightarrow> int \<times> session" where
  "configure_vardiff data len i S =
     (if i + 8 > len then (0, S)
      else configure_end data len (i + 8) (S\<lparr>ss_settings := (ss_settings S)\<lparr>ps_vardiff_min := vardiff_setting (upk_u64le data i)\<rparr>\<rparr>))"

definition configure_tag :: "bytes \<Rightarrow> nat \<Rightarrow> nat \<Rightarrow> session \<Rightarrow> int \<times> session" where
  "configure_tag data len i S =
     (if i \<ge> len then (0, S)
      else let a = unat (data ! i); i = i + 1
           in if i + a > len then (0, S)
              else configure_vardiff data len (i + a) (S\<lparr>ss_settings := (ss_settings S)\<lparr>ps_tag := take a (drop i data)\<rparr>\<rparr>))"

definition configure_prime :: "bytes \<Rightarrow> nat \<Rightarrow> nat \<Rightarrow> session \<Rightarrow> int \<times> session" where
  "configure_prime data len i S =
     (if i + 4 > len then (0, S) else configure_tag data len (i + 4) (S\<lparr>ss_settings := (ss_settings S)\<lparr>ps_prime_id := upk_u32le data i\<rparr>\<rparr>))"

definition datum_protocol_client_configure :: "nat \<Rightarrow> bytes \<Rightarrow> session \<Rightarrow> int \<times> session" where
  "datum_protocol_client_configure len data S =
     (if 0 \<ge> len \<or> data ! 0 \<noteq> 1 then (0, S)
      else if 1 \<ge> len then (0, S)
      else let a = unat (data ! 1)
           in if 2 + a > len then (0, S)
              else configure_prime data len (2 + a) (S\<lparr>ss_settings := (ss_settings S)\<lparr>ps_scriptsig := take a (drop 2 data)\<rparr>\<rparr>))"

subsection \<open>Shares\<close>

definition datum_protocol_add_share_diff :: "u64 \<Rightarrow> u8 \<Rightarrow> u64" where
  "datum_protocol_add_share_diff tally pot =
     (if pot \<ge> 64 then 0xFFFFFFFFFFFFFFFF
      else let add = push_bit (unat pot) 1
           in if tally > 0xFFFFFFFFFFFFFFFF - add then 0xFFFFFFFFFFFFFFFF else tally + add)"

definition datum_protocol_share_response :: "u64 \<Rightarrow> nat \<Rightarrow> bytes \<Rightarrow> session \<Rightarrow> int \<times> session" where
  "datum_protocol_share_response now len data S =
     (let T = ss_tallies S
      in if len < 9 then (0, S)
         else if data ! 0 = 0x66
         then (1, S\<lparr>ss_tallies := T\<lparr>rejected_count := rejected_count T + 1,
                rejected_diff := (if data ! 7 \<noteq> 0xFF then datum_protocol_add_share_diff (rejected_diff T) (data ! 7)
                                  else rejected_diff T + ps_vardiff_min (ss_settings S))\<rparr>\<rparr>)
         else if data ! 0 \<noteq> 0x50 \<and> data ! 0 \<noteq> 0x55 then (1, S)
         else (1, S\<lparr>ss_tallies := T\<lparr>accepted_count := accepted_count T + 1,
                accepted_diff := datum_protocol_add_share_diff (accepted_diff T) (data ! 7), last_accepted := now\<rparr>\<rparr>))"

subsection \<open>Coinbaser\<close>

text \<open>\<open>locked\<close> says whether the lock was had within five seconds.\<close>

definition datum_protocol_coinbaser_fetch_response :: "bool \<Rightarrow> nat \<Rightarrow> bytes \<Rightarrow> session \<Rightarrow> int \<times> session" where
  "datum_protocol_coinbaser_fetch_response locked len data S =
     (if len < 12 then (0, S)
      else let v = upk_u64le data 0; x = unat (upk_u32le data 8)
           in if x > 32768 - 1 \<or> x < 1 \<or> x > len - 12 then (0, S)
              else if \<not> locked then (0, S)
              else let A = ss_answers S; i = (if ca_idx A = 0 then 1 else 0)
                   in (1, S\<lparr>ss_answers := A\<lparr>ca_idx := i, ca_received := True, ca_buf := (ca_buf A)(i := take x (drop 12 data) @ drop x (ca_buf A i)),
                          ca_value := (ca_value A)(i := v), ca_len := (ca_len A)(i := x)\<rparr>\<rparr>))"

definition coinbaser_request :: "u64 \<Rightarrow> bytes \<Rightarrow> nat \<Rightarrow> nat \<Rightarrow> bytes" where
  "coinbaser_request v prevhash r1 r2 = [0x10] @ le_bytes 8 (unat v) @ prevhash @ [0xFE] @ padding 80 r1 r2"

datatype wake = Signalled | Timed_Out | Wait_Error

definition coinbaser_collect :: "u64 \<Rightarrow> wake \<Rightarrow> answers \<Rightarrow> v2_result" where
  "coinbaser_collect v w A =
     (if w = Signalled \<and> ca_received A \<and> ca_value A (ca_idx A) = v
      then datum_coinbaser_v2_parse v (Some (take (ca_len A (ca_idx A)) (ca_buf A (ca_idx A)))) False
      else datum_coinbaser_v2_parse v None False)"

text \<open>The request, if one is sent, and the outputs found for the job.\<close>

definition datum_protocol_coinbaser_fetch :: "u64 \<Rightarrow> bytes \<Rightarrow> nat \<Rightarrow> wake \<Rightarrow> answers \<Rightarrow> nat \<Rightarrow> nat \<Rightarrow> bytes option \<times> v2_result" where
  "datum_protocol_coinbaser_fetch v prevhash client_active w A r1 r2 =
     (if v < 31250000 \<or> client_active \<noteq> 3 then (None, datum_coinbaser_v2_parse v None False)
      else (Some (coinbaser_request v prevhash r1 r2), coinbaser_collect v w A))"

subsection \<open>Dispatch\<close>

text \<open>
  What the commands use besides the session: the jobs for the validation, the clock of the main loop, the lock of the coinbaser, and two random numbers.
\<close>

record command_env =
  ce_crypto :: crypto
  ce_slots :: "nat \<Rightarrow> stratum_job option"
  ce_jobs :: "pool_job list"
  ce_now :: u64
  ce_locked :: bool
  ce_r1 :: nat
  ce_r2 :: nat

definition validation_reply :: "command_env \<Rightarrow> nat \<Rightarrow> bytes \<Rightarrow> session \<Rightarrow> (int \<times> session) option" where
  "validation_reply E len data S =
     (case datum_protocol_job_validation_cmd (pk_ed25519 (ss_local S)) (pk_ed25519 (ss_pool S)) (ce_slots E) (ce_jobs E) len data (ce_r1 E) (ce_r2 E) of
        Ignored i \<Rightarrow> Some (i, S)
      | Reply None \<Rightarrow> None
      | Reply (Some m) \<Rightarrow> Some (1, S\<lparr>ss_replies := ss_replies S @ [m]\<rparr>))"

text \<open>\<open>None\<close> is an overrun in the validation.\<close>

definition datum_protocol_mining_cmd5 :: "command_env \<Rightarrow> header \<Rightarrow> bytes \<Rightarrow> session \<Rightarrow> (int \<times> session) option" where
  "datum_protocol_mining_cmd5 E h data S =
     (if h_cmd_len h = 0 then Some (0, S)
      else let c = data ! 0; p = drop 1 data; len = h_cmd_len h - 1
           in if c = 0x99 then Some (if \<not> h_signed h then (0, S) else datum_protocol_client_configure len p S)
              else if c = 0x11 then Some (datum_protocol_coinbaser_fetch_response (ce_locked E) len p S)
              else if c = 0x50 then validation_reply E len p S
              else if c = 0x8F then Some (datum_protocol_share_response (ce_now E) len p S)
              else if c = 0xF9 then Some (1, S\<lparr>ss_notified := ss_notified S + 1\<rparr>)
              else Some (0, S))"

definition datum_protocol_compare_data :: "bytes \<Rightarrow> bytes \<Rightarrow> bool" where
  "datum_protocol_compare_data a b \<longleftrightarrow> take (length b) a = b"

definition datum_protocol_handshake_response :: "crypto \<Rightarrow> header \<Rightarrow> bytes \<Rightarrow> session \<Rightarrow> int \<times> session" where
  "datum_protocol_handshake_response C h data S =
     (if \<not> h_signed h then (-1, S)
      else if \<not> datum_protocol_compare_data data (pk_ed25519 (ss_local S)) then (-1, S)
      else if \<not> datum_protocol_compare_data (drop 32 data) (pk_x25519 (ss_local S)) then (-1, S)
      else if \<not> datum_protocol_compare_data (drop 64 data) (pk_ed25519 (ss_session S)) then (-1, S)
      else if \<not> datum_protocol_compare_data (drop 96 data) (pk_x25519 (ss_session S)) then (-1, S)
      else let remote = \<lparr>pk_ed25519 = take 32 (drop 128 data), pk_x25519 = take 32 (drop 160 data)\<rparr>
           in (1, S\<lparr>ss_remote := remote,
                 ss_precomp := (case cr_beforenm C (pk_x25519 remote) (ss_session S) of Some k \<Rightarrow> k | None \<Rightarrow> ss_precomp S),
                 ss_state := 2\<rparr>))"

definition overlay :: "bytes \<Rightarrow> bytes \<Rightarrow> bytes" where
  "overlay m data = m @ drop (length m) data"

definition datum_protocol_decrypt_sealed :: "crypto \<Rightarrow> header \<Rightarrow> bytes \<Rightarrow> session \<Rightarrow> (header \<times> bytes) option" where
  "datum_protocol_decrypt_sealed C h data S =
     (if h_cmd_len h < 48 then None
      else case cr_seal_open C (ss_session S) (take (h_cmd_len h) data) of
        None \<Rightarrow> None
      | Some m \<Rightarrow> Some (h\<lparr>h_cmd_len := h_cmd_len h - 48\<rparr>, overlay m data))"

definition decrypt_command :: "crypto \<Rightarrow> header \<Rightarrow> bytes \<Rightarrow> session \<Rightarrow> (header \<times> bytes \<times> session) option" where
  "decrypt_command C h data S =
     (if h_encrypted_pubkey h \<and> \<not> h_encrypted_channel h
      then map_option (\<lambda>(h, data). (h, data, S)) (datum_protocol_decrypt_sealed C h data S)
      else if \<not> h_encrypted_pubkey h \<and> h_encrypted_channel h
      then map_option (\<lambda>((h, m), n). (h, overlay m data, S\<lparr>ss_nonce_receiver := n\<rparr>))
             (datum_protocol_decrypt_standard (cr_open C (ss_precomp S)) h data (ss_nonce_receiver S))
      else Some (h, data, S))"

text \<open>The key a signature is checked with, and the check; the signature is cut off.\<close>

definition signing_key :: "session \<Rightarrow> bytes" where
  "signing_key S = (if ss_state S \<ge> 2 then pk_ed25519 (ss_remote S) else pk_ed25519 (ss_pool S))"

definition check_signature :: "crypto \<Rightarrow> header \<Rightarrow> bytes \<Rightarrow> session \<Rightarrow> header option" where
  "check_signature C h data S =
     (if \<not> h_signed h then Some h
      else if h_cmd_len h < 64 then None
      else if \<not> cr_verify C (take 64 (drop (h_cmd_len h - 64) data)) (take (h_cmd_len h - 64) data) (signing_key S) then None
      else Some (h\<lparr>h_cmd_len := h_cmd_len h - 64\<rparr>))"

definition dispatch :: "command_env \<Rightarrow> header \<Rightarrow> bytes \<Rightarrow> session \<Rightarrow> (int \<times> session) option" where
  "dispatch E h data S =
     (if h_proto_cmd h = 2 then Some (datum_protocol_handshake_response (ce_crypto E) h data S)
      else if h_proto_cmd h = 5 then datum_protocol_mining_cmd5 E h data S
      else Some (1, S))"

definition datum_protocol_server_msg :: "command_env \<Rightarrow> header \<Rightarrow> bytes \<Rightarrow> session \<Rightarrow> (int \<times> session) option" where
  "datum_protocol_server_msg E h data S =
     (case decrypt_command (ce_crypto E) h data S of
        None \<Rightarrow> Some (-1, S)
      | Some (h, data, S) \<Rightarrow>
          (case check_signature (ce_crypto E) h data S of
             None \<Rightarrow> Some (-1, S)
           | Some h \<Rightarrow> dispatch E h data (S\<lparr>ss_latest := ce_now E\<rparr>)))"

section \<open>Nonces\<close>

lemma length_nonce_words: "length (nonce_words n nk) = n"
  by (induction n arbitrary: nk) (simp_all add: Let_def)

lemma xor_minus: "x XOR y = x + y - 2 * (x AND y)" for x y :: int
proof -
  have "(x XOR y) AND (x AND y) = 0" by (rule bit_eqI) (auto simp: bit_simps)
  then have "(x XOR y) + (x AND y) = (x XOR y) OR (x AND y)" by (rule disjunctive_add_eq_or)
  moreover have "(x XOR y) OR (x AND y) = x OR y" by (rule bit_eqI) (auto simp: bit_simps)
  ultimately show ?thesis using plus_and_or [of x y] by linarith
qed

text \<open>The mask of the sender's nonce moves a word far away from itself.\<close>

lemma xor_far:
  fixes t :: int
  assumes "0 \<le> t"
  shows "0x28A8A8A9 \<le> \<bar>(t XOR 0x57575757) - t\<bar>" "\<bar>(t XOR 0x57575757) - t\<bar> \<le> 0x57575757"
proof -
  define m where "m = t AND 0x17575757"
  have m: "0 \<le> m" "m \<le> 0x17575757" by (simp_all add: m_def)
  have "t AND (x OR y) = (t AND x) OR (t AND y)" for x y :: int by (rule bit_eqI) (auto simp: bit_simps)
  from this [of "0x40000000" "0x17575757"] have "t AND 0x57575757 = (t AND 0x40000000) OR m" unfolding m_def by simp
  moreover have "(t AND x) AND (t AND y) = t AND (x AND y)" for x y :: int by (rule bit_eqI) (auto simp: bit_simps)
  from this [of "0x40000000" "0x17575757"] have "(t AND 0x40000000) AND m = 0" unfolding m_def by simp
  ultimately have a: "t AND 0x57575757 = (t AND 0x40000000) + m" by (simp add: disjunctive_add_eq_or)
  have "t AND 2 ^ n = (if bit t n then 2 ^ n else 0)" for n by (rule bit_eqI) (auto simp: bit_simps)
  from this [of 30] have "t AND 0x40000000 = (if bit t 30 then 0x40000000 else 0)" by simp
  then have "(t XOR 0x57575757) - t = 0x57575757 - 2 * m \<or> (t XOR 0x57575757) - t = 0x57575757 - 0x80000000 - 2 * m"
    unfolding xor_minus [of t] a by (simp split: if_splits)
  then show "0x28A8A8A9 \<le> \<bar>(t XOR 0x57575757) - t\<bar>" "\<bar>(t XOR 0x57575757) - t\<bar> \<le> 0x57575757" using m by auto
qed

lemma nonce_value_append: "nonce_value (xs @ ys) = nonce_value xs + 2 ^ (32 * length xs) * nonce_value ys"
  by (induction xs) (simp_all add: power_add algebra_simps)

text \<open>C19: the two directions of a session share one key and never use the same nonce: the sender's counter starts so far from the receiver's that
  neither reaches the nonces of the other within 2^180 messages.\<close>

theorem directions_never_share_nonce:
  assumes "length rs = 6" "i < 2 ^ 180" "j < 2 ^ 180"
  shows "(datum_increment_session_nonce ^^ i) (sender_nonce rs) \<noteq> (datum_increment_session_nonce ^^ j) rs"
proof
  assume eq: "(datum_increment_session_nonce ^^ i) (sender_nonce rs) = (datum_increment_session_nonce ^^ j) rs"
  obtain xs t where rs: "rs = xs @ [t]" using assms(1) by (cases rs rule: rev_cases) auto
  then have xs: "length xs = 5" using assms(1) by simp
  define d where "d = (uint t XOR 0x57575757) - uint t"
  define e where "e = int (nonce_value (sender_nonce xs)) - int (nonce_value xs)"
  have d: "0x28A8A8A9 \<le> \<bar>d\<bar>" "\<bar>d\<bar> \<le> 0x57575757" using xor_far [of "uint t"] by (simp_all add: d_def)
  have "nonce_value (sender_nonce xs) < 2 ^ 160" "nonce_value xs < 2 ^ 160"
    using nonce_value_less [of "sender_nonce xs"] nonce_value_less [of xs] xs by (simp_all add: sender_nonce_def)
  then have e: "\<bar>e\<bar> < 2 ^ 160" by (simp add: e_def)
  have "uint (t XOR 0x57575757) = uint t XOR 0x57575757" by (simp add: unsigned_xor_eq)
  then have diff: "int (nonce_value (sender_nonce rs)) - int (nonce_value rs) = 2 ^ 160 * d + e"
    by (simp add: rs sender_nonce_def nonce_value_append xs d_def e_def algebra_simps)
  have "(nonce_value (sender_nonce rs) + i) mod 2 ^ 192 = (nonce_value rs + j) mod 2 ^ 192"
    using nonce_iterate [of i "sender_nonce rs"] nonce_iterate [of j rs] eq assms(1) by (simp add: sender_nonce_def)
  from arg_cong [OF this, of int]
  have "(int (nonce_value (sender_nonce rs)) + int i) mod 2 ^ 192 = (int (nonce_value rs) + int j) mod 2 ^ 192"
    by (simp only: zmod_int of_nat_add of_nat_power of_nat_numeral)
  then have "2 ^ 192 dvd (int (nonce_value (sender_nonce rs)) + int i) - (int (nonce_value rs) + int j)" by (simp only: mod_eq_dvd_iff)
  moreover have "(int (nonce_value (sender_nonce rs)) + int i) - (int (nonce_value rs) + int j) = 2 ^ 160 * d + e + (int i - int j)" using diff by linarith
  ultimately have dvd: "2 ^ 192 dvd 2 ^ 160 * d + e + (int i - int j)" by simp
  define A where "A = 2 ^ 160 * d"
  have A: "2 ^ 160 * 0x28A8A8A9 \<le> \<bar>A\<bar>" "\<bar>A\<bar> \<le> 2 ^ 160 * 0x57575757" using d by (simp_all add: A_def abs_mult)
  have "int i < int (2 ^ 180)" "int j < int (2 ^ 180)" using assms(2,3) by (simp_all only: of_nat_less_iff)
  then have "int i < 2 ^ 180" "int j < 2 ^ 180" by (simp_all only: of_nat_power of_nat_numeral)
  then have k: "\<bar>int i - int j\<bar> < 2 ^ 180" by linarith
  have "(0 :: int) < 2 ^ 160 * 0x28A8A8A9 - 2 ^ 160 - 2 ^ 180" "(2 ^ 160 * 0x57575757 + 2 ^ 160 + 2 ^ 180 :: int) < 2 ^ 192" by simp_all
  then have "0 < \<bar>2 ^ 160 * d + e + (int i - int j)\<bar>" "\<bar>2 ^ 160 * d + e + (int i - int j)\<bar> < 2 ^ 192"
    using A e k unfolding A_def [symmetric] by arith+
  then show False using zdvd_imp_le [of "2 ^ 192" "\<bar>2 ^ 160 * d + e + (int i - int j)\<bar>"] dvd by simp
qed

theorem directions_never_share_nonce_witness:
  "(datum_increment_session_nonce ^^ 1000) (sender_nonce (nonce_words 6 7)) \<noteq> (datum_increment_session_nonce ^^ 100000) (nonce_words 6 7)"
  by (rule directions_never_share_nonce) (simp_all add: length_nonce_words)

text \<open>The first message is one frame of the stream, and fits the array it is made in.\<close>

lemma hello_framed:
  assumes "\<And>m. length (seal m) = length m + 48" "\<And>m. length (sign m) = 64"
    "length (pk_ed25519 local) = 32" "length (pk_x25519 local) = 32" "length (pk_ed25519 session) = 32" "length (pk_x25519 session) = 32"
  shows "\<exists>d. he_message (datum_protocol_send_hello sign seal local session version commit tag nk r1 r2 key) = encode_frames key [(hello_header (length d), d)]
    \<and> frame_ok (hello_header (length d), d) \<and> length d + 4 \<le> 1024"
proof -
  let ?b = "hello_body local session version commit tag nk r1 r2"
  let ?d = "seal (?b @ sign ?b)"
  have "length (padding 200 r1 r2) \<le> 200" using mod_less_divisor [of 200 r1] by (simp add: padding_def del: mod_less_divisor)
  moreover have "min (length version) 127 \<le> 127" "min (length commit) 127 \<le> 127" by simp_all
  moreover have "length (case tag of None \<Rightarrow> '''' | Some g \<Rightarrow> ''('' @ take 127 g @ '')'') \<le> 129" by (simp split: option.split)
  ultimately have "length ?b \<le> 721" unfolding hello_body_def using assms(3-6) by simp
  then have l: "length ?d = length ?b + 64 + 48" "length ?d \<le> 833" using assms(1,2) by simp_all
  then show ?thesis
    by (intro exI [of _ ?d]) (simp add: datum_protocol_send_hello_def Let_def frame_ok_def wire_header_ok_def hello_header_def)
qed

section \<open>What a command may change\<close>

lemma share_response_keeps:
  "datum_protocol_share_response now len data S = (i, S') \<Longrightarrow> ss_state S' = ss_state S \<and> ss_settings S' = ss_settings S \<and> ss_remote S' = ss_remote S \<and> ss_precomp S' = ss_precomp S"
  by (auto simp: datum_protocol_share_response_def Let_def split: if_splits)

lemma fetch_response_keeps:
  "datum_protocol_coinbaser_fetch_response l len data S = (i, S') \<Longrightarrow> ss_state S' = ss_state S \<and> ss_settings S' = ss_settings S \<and> ss_remote S' = ss_remote S \<and> ss_precomp S' = ss_precomp S"
  by (auto simp: datum_protocol_coinbaser_fetch_response_def Let_def split: if_splits)

lemma validation_reply_keeps:
  "validation_reply E len data S = Some (i, S') \<Longrightarrow> ss_state S' = ss_state S \<and> ss_settings S' = ss_settings S \<and> ss_remote S' = ss_remote S \<and> ss_precomp S' = ss_precomp S"
  by (auto simp: validation_reply_def split: validation.splits option.splits)

lemma unsigned_keeps:
  assumes "dispatch E h data S = Some (i, S')" "\<not> h_signed h"
  shows "ss_state S' = ss_state S \<and> ss_settings S' = ss_settings S \<and> ss_remote S' = ss_remote S \<and> ss_precomp S' = ss_precomp S"
  using assms share_response_keeps fetch_response_keeps validation_reply_keeps
  unfolding dispatch_def datum_protocol_mining_cmd5_def datum_protocol_handshake_response_def Let_def
  by (auto split: if_splits)

lemma decrypt_keeps:
  assumes "decrypt_command C h data S = Some (h', data', S')"
  shows "h_signed h' = h_signed h \<and> ss_state S' = ss_state S \<and> ss_settings S' = ss_settings S \<and> ss_remote S' = ss_remote S \<and> ss_precomp S' = ss_precomp S
    \<and> signing_key S' = signing_key S"
  using assms by (auto simp: decrypt_command_def datum_protocol_decrypt_sealed_def datum_protocol_decrypt_standard_def signing_key_def
      split: if_splits option.splits)

text \<open>C9: the state of the session, the pool's session keys and the settings of the configuration change only through a command whose signature is
  right: under the configured key of the pool before the handshake, under its session key after.\<close>

theorem settings_authenticated:
  assumes "datum_protocol_server_msg E h data S = Some (i, S')"
    "ss_state S' \<noteq> ss_state S \<or> ss_settings S' \<noteq> ss_settings S \<or> ss_remote S' \<noteq> ss_remote S \<or> ss_precomp S' \<noteq> ss_precomp S"
  shows "\<exists>h1 data1 S1. decrypt_command (ce_crypto E) h data S = Some (h1, data1, S1) \<and> h_signed h \<and> 64 \<le> h_cmd_len h1
    \<and> cr_verify (ce_crypto E) (take 64 (drop (h_cmd_len h1 - 64) data1)) (take (h_cmd_len h1 - 64) data1) (signing_key S)"
proof -
  obtain h1 data1 S1 h2 where d: "decrypt_command (ce_crypto E) h data S = Some (h1, data1, S1)" "check_signature (ce_crypto E) h1 data1 S1 = Some h2"
    and disp: "dispatch E h2 data1 (S1\<lparr>ss_latest := ce_now E\<rparr>) = Some (i, S')"
    using assms by (auto simp: datum_protocol_server_msg_def split: option.splits dest: decrypt_keeps)
  note k = decrypt_keeps [OF d(1)]
  have "h_signed h2"
    using unsigned_keeps [OF disp] k assms(2) by auto
  then have "h_signed h1" using d(2) by (auto simp: check_signature_def split: if_splits)
  then show ?thesis using d k by (auto simp: check_signature_def split: if_splits)
qed

section \<open>Configuration\<close>

definition config_encode :: "bytes \<Rightarrow> u32 \<Rightarrow> bytes \<Rightarrow> u64 \<Rightarrow> bytes" where
  "config_encode script prime tag v =
     [1, word_of_nat (length script)] @ script @ le_bytes 4 (unat prime) @ [word_of_nat (length tag)] @ tag @ le_bytes 8 (unat v) @ [0, 0xFE]"

lemma length_config: "length (config_encode script prime tag v) = length script + length tag + 17"
  by (simp add: config_encode_def)

lemma upk_le: "length pre = i \<Longrightarrow> upk_u32le (pre @ le_bytes 4 (unat x) @ post) i = x" "length pre = i \<Longrightarrow> upk_u64le (pre @ le_bytes 8 (unat y) @ post) i = y"
  using unat_u32_less [of x] unat_u64_less [of y]
  by (simp_all add: upk_u32le_word upk_u64le_word word_unat_eq_iff unat_le_word le_val_bytes)

text \<open>What a command of at least \<open>len\<close> bytes stores part by part: each part is stored when it is complete.\<close>

lemma configure_parts:
  assumes "length script < 256" "length tag < 256"
  shows "datum_protocol_client_configure len (config_encode script prime tag v @ rest) S =
    (if len < 2 + length script then (0, S)
     else if len < 6 + length script then (0, S\<lparr>ss_settings := (ss_settings S)\<lparr>ps_scriptsig := script\<rparr>\<rparr>)
     else if len < 7 + length script + length tag then (0, S\<lparr>ss_settings := (ss_settings S)\<lparr>ps_scriptsig := script, ps_prime_id := prime\<rparr>\<rparr>)
     else if len < 15 + length script + length tag
     then (0, S\<lparr>ss_settings := (ss_settings S)\<lparr>ps_scriptsig := script, ps_prime_id := prime, ps_tag := tag\<rparr>\<rparr>)
     else (let S' = S\<lparr>ss_settings := (ss_settings S)\<lparr>ps_scriptsig := script, ps_prime_id := prime, ps_tag := tag, ps_vardiff_min := vardiff_setting v\<rparr>\<rparr>
           in if len < 17 + length script + length tag then (0, S') else (1, S'\<lparr>ss_state := 3\<rparr>)))"
proof -
  let ?d = "config_encode script prime tag v @ rest" and ?a = "length script" and ?b = "length tag"
  have d: "?d = [1, word_of_nat ?a] @ script @ le_bytes 4 (unat prime) @ [word_of_nat ?b] @ tag @ le_bytes 8 (unat v) @ [0, 0xFE] @ rest"
    by (simp add: config_encode_def)
  have n: "?d ! 0 = 1" "?d ! 1 = word_of_nat ?a" "?d ! (6 + ?a) = word_of_nat ?b" "?d ! (15 + ?a + ?b) = 0" "?d ! (16 + ?a + ?b) = 0xFE"
    unfolding d by (simp_all add: nth_append)
  have w: "unat (word_of_nat ?a :: u8) = ?a" "unat (word_of_nat ?b :: u8) = ?b" using assms by (simp_all add: unat_of_nat)
  have s: "take ?a (drop 2 ?d) = script" "take ?b (drop (7 + ?a) ?d) = tag"
    using take_drop_field [of "[1, word_of_nat ?a] @ script @ le_bytes 4 (unat prime) @ [word_of_nat ?b]" "7 + ?a" tag ?b "le_bytes 8 (unat v) @ [0, 0xFE] @ rest"]
    unfolding d by simp_all
  have u: "upk_u32le ?d (2 + ?a) = prime" "upk_u64le ?d (7 + ?a + ?b) = v"
    using upk_le(1) [of "[1, word_of_nat ?a] @ script" "2 + ?a" prime "[word_of_nat ?b] @ tag @ le_bytes 8 (unat v) @ [0, 0xFE] @ rest"]
      upk_le(2) [of "[1, word_of_nat ?a] @ script @ le_bytes 4 (unat prime) @ [word_of_nat ?b] @ tag" "7 + ?a + ?b" v "[0, 0xFE] @ rest"]
    unfolding d by simp_all
  have i: "2 + ?a + 4 = 6 + ?a" "6 + ?a + 1 = 7 + ?a" "7 + ?a + ?b + 8 = 15 + ?a + ?b" "15 + ?a + ?b + 1 = 16 + ?a + ?b" by simp_all
  show ?thesis
    unfolding datum_protocol_client_configure_def configure_prime_def configure_tag_def configure_vardiff_def configure_end_def Let_def n w s u i
    by (cases "len < 2 + ?a", simp, cases "len < 6 + ?a", simp, cases "len < 7 + ?a + ?b", simp, cases "len < 15 + ?a + ?b", simp, simp)
qed

lemma round_down_power:
  assumes "v \<noteq> 0"
  shows "\<exists>k<64. roundDownToPowerOfTwo_64 v = push_bit k 1 \<and> 2 ^ k \<le> unat v \<and> unat v < 2 * 2 ^ k"
proof -
  obtain k where k: "top_bit v k" using top_bit_ex [OF assms] by blast
  then have "k < 64" by (simp add: top_bit_def)
  then show ?thesis using clzll_top_bit [OF k] top_bit_bounds [OF k] by (auto simp: roundDownToPowerOfTwo_64_def)
qed

lemma unat_push_bit_1:
  assumes "k < 64"
  shows "unat (push_bit k 1 :: u64) = 2 ^ k"
proof -
  have "unat (push_bit k 1 :: u64) = push_bit k 1" using assms by (intro bit_eqI) (auto simp: bit_simps)
  then show ?thesis by (simp add: push_bit_eq_mult)
qed

lemma vardiff_setting_power:
  assumes "0 < v" "unat v \<le> 2 ^ 63"
  shows "unat v \<le> unat (vardiff_setting v) \<and> unat (vardiff_setting v) < 2 * unat v \<and> (\<exists>k. unat (vardiff_setting v) = 2 ^ k)"
proof -
  obtain k where k: "k < 64" "roundDownToPowerOfTwo_64 v = push_bit k 1" "2 ^ k \<le> unat v" "unat v < 2 * 2 ^ k"
    using round_down_power [of v] assms(1) by auto
  show ?thesis
  proof (cases "v = push_bit k 1")
    case True
    then show ?thesis using k unat_push_bit_1 [OF k(1)] by (auto simp: vardiff_setting_def)
  next
    case False
    then have ne: "unat v \<noteq> 2 ^ k" using unat_push_bit_1 [OF k(1)] by (metis unsigned_word_eqI)
    have "k < 63"
    proof (rule ccontr)
      assume "\<not> k < 63"
      then have "k = 63" using k(1) by simp
      then show False using k(3) assms(2) ne by simp
    qed
    then have w: "unat (push_bit (Suc k) 1 :: u64) = 2 ^ Suc k" by (intro unat_push_bit_1) simp
    have "vardiff_setting v = push_bit (Suc k) 1" using False unfolding vardiff_setting_def k(2) push_bit_push_bit by simp
    then have "unat (vardiff_setting v) = 2 ^ Suc k" using w by (simp only:)
    then show ?thesis using k ne by (intro conjI exI [of _ "Suc k"]) simp_all
  qed
qed

text \<open>C0: a configuration is stored as the pool encoded it, and makes the session ready for work; a minimum difficulty up to 2^63 that is no power of two is
  raised to the next one.\<close>

theorem configuration_stored:
  assumes "length script < 256" "length tag < 256" "0 < v" "unat v \<le> 2 ^ 63"
  shows "\<exists>w. datum_protocol_client_configure (length (config_encode script prime tag v)) (config_encode script prime tag v @ rest) S
      = (1, S\<lparr>ss_settings := \<lparr>ps_scriptsig = script, ps_prime_id = prime, ps_tag = tag, ps_vardiff_min = w\<rparr>, ss_state := 3\<rparr>)
    \<and> unat v \<le> unat w \<and> unat w < 2 * unat v \<and> (\<exists>k. unat w = 2 ^ k)"
  using vardiff_setting_power [OF assms(3,4)]
  by (intro exI [of _ "vardiff_setting v"]) (simp add: configure_parts [OF assms(1,2)] length_config Let_def)

text \<open>Above 2^63 the shift wraps: the minimum difficulty becomes 0.\<close>

lemma vardiff_setting_wraps:
  assumes "2 ^ 63 < unat v"
  shows "vardiff_setting v = 0"
proof -
  have "v \<noteq> 0" using assms by auto
  then obtain k where k: "k < 64" "roundDownToPowerOfTwo_64 v = push_bit k 1" "2 ^ k \<le> unat v" "unat v < 2 * 2 ^ k"
    using round_down_power by blast
  have "(2 :: nat) ^ 63 < 2 ^ Suc k" using assms k(4) by simp
  then have "63 < Suc k" by (rule power_less_imp_less_exp [rotated]) simp
  then have k63: "k = 63" using k(1) by simp
  then have "v \<noteq> push_bit k 1" using assms unat_push_bit_1 [of 63] by auto
  then show ?thesis by (simp add: vardiff_setting_def k(2) k63)
qed

text \<open>C0: a configuration that is refused because it ends too early has changed the settings all the same: the script the pool is paid with is already
  the one of the refused command.\<close>

theorem refused_configuration_applied:
  assumes "length script < 256" "length tag < 256" "2 + length script \<le> len" "len < length (config_encode script prime tag v)"
  shows "\<exists>S'. datum_protocol_client_configure len (config_encode script prime tag v @ rest) S = (0, S') \<and> ps_scriptsig (ss_settings S') = script
    \<and> ss_state S' = ss_state S"
  using configure_parts [OF assms(1,2), of len prime v rest S] assms(3,4) unfolding length_config Let_def
  by (cases "len < 6 + length script"; cases "len < 7 + length script + length tag"; cases "len < 15 + length script + length tag") simp_all

section \<open>Outputs from the pool\<close>

definition coinbaser_encode :: "u64 \<Rightarrow> bytes \<Rightarrow> bytes" where
  "coinbaser_encode v outs = le_bytes 8 (unat v) @ le_bytes 4 (length outs) @ outs"

lemma coinbaser_stored:
  assumes "0 < length outs" "length outs < 32768" "12 + length outs \<le> len"
  shows "\<exists>A. datum_protocol_coinbaser_fetch_response True len (coinbaser_encode v outs @ rest) S = (1, S\<lparr>ss_answers := A\<rparr>)
    \<and> ca_received A \<and> ca_value A (ca_idx A) = v \<and> take (ca_len A (ca_idx A)) (ca_buf A (ca_idx A)) = outs"
proof -
  let ?d = "coinbaser_encode v outs @ rest"
  have d: "?d = le_bytes 8 (unat v) @ le_bytes 4 (length outs) @ outs @ rest" by (simp add: coinbaser_encode_def)
  have l: "length outs = unat (word_of_nat (length outs) :: u32)" using assms(2) by (simp add: unat_of_nat)
  have "upk_u64le ?d 0 = v" using upk_le(2) [of "[]" 0 v "le_bytes 4 (length outs) @ outs @ rest"] by (simp add: d)
  moreover have "unat (upk_u32le ?d 8) = length outs"
    using upk_le(1) [of "le_bytes 8 (unat v)" 8 "word_of_nat (length outs)" "outs @ rest"] l by (simp add: d)
  moreover have "take (length outs) (drop 12 ?d) = outs" by (simp add: d)
  moreover define k where "k = (if ca_idx (ss_answers S) = 0 then 1 else 0 :: nat)"
  moreover define A where "A = (ss_answers S)\<lparr>ca_idx := k, ca_received := True, ca_buf := (ca_buf (ss_answers S))(k := outs @ drop (length outs) (ca_buf (ss_answers S) k)),
      ca_value := (ca_value (ss_answers S))(k := v), ca_len := (ca_len (ss_answers S))(k := length outs)\<rparr>"
  ultimately have "datum_protocol_coinbaser_fetch_response True len ?d S = (1, S\<lparr>ss_answers := A\<rparr>)"
    using assms unfolding datum_protocol_coinbaser_fetch_response_def Let_def by simp
  moreover have "ca_received A" "ca_value A (ca_idx A) = v" "take (ca_len A (ca_idx A)) (ca_buf A (ca_idx A)) = outs" by (simp_all add: A_def)
  ultimately show ?thesis by blast
qed

lemma coinbaser_paid:
  assumes "ca_received A" "ca_value A (ca_idx A) = v" "take (ca_len A (ca_idx A)) (ca_buf A (ca_idx A)) = v2_encode i outs"
    "list_all v2_script_ok outs" "0 < length outs" "length outs \<le> 512" "out_sum outs \<le> unat v" "31250000 \<le> v"
  shows "v2_outputs (snd (datum_protocol_coinbaser_fetch v prevhash 3 Signalled A r1 r2)) = map v2_entry outs"
proof -
  have "\<not> length (v2_encode i outs) < 9" using assms(5) by (cases outs) (auto simp: v2_encode_def le8_def)
  moreover have "v2_loop v [] t acc = Some acc" for t acc by (simp add: v2_loop.simps)
  ultimately have "v2_outputs (datum_coinbaser_v2_parse v (Some (v2_encode i outs)) False) = map v2_entry outs"
    using v2_loop_encode [of outs "[]" 0 v "[]"] assms(4-7) by (simp add: datum_coinbaser_v2_parse_def v2_encode_def)
  moreover have "\<not> v < 31250000" using assms(8) by (simp add: not_less)
  ultimately show ?thesis unfolding datum_protocol_coinbaser_fetch_def coinbaser_collect_def assms(2,3) using assms(1) by simp
qed


text \<open>C36: outputs are taken from anyone who can write to the connection: a command without encryption and without a signature is accepted as if it were the pool's,
  in every state of the session and whatever the keys, and the next job pays the outputs it names.\<close>

theorem forged_coinbaser:
  assumes "list_all v2_script_ok outs" "0 < length outs" "length outs \<le> 512" "out_sum outs \<le> unat v" "31250000 \<le> v"
    "length (v2_encode i outs) < 32768" "data = 0x11 # coinbaser_encode v (v2_encode i outs)" "ce_locked E"
    "h = \<lparr>h_cmd_len = length data, h_reserved = 0, h_signed = False, h_encrypted_pubkey = False, h_encrypted_channel = False, h_proto_cmd = 5\<rparr>"
  shows "\<exists>A. datum_protocol_server_msg E h data S = Some (1, S\<lparr>ss_latest := ce_now E, ss_answers := A\<rparr>)
    \<and> v2_outputs (snd (datum_protocol_coinbaser_fetch v prevhash 3 Signalled A r1 r2)) = map v2_entry outs"
proof -
  let ?bs = "coinbaser_encode v (v2_encode i outs)" and ?S = "S\<lparr>ss_latest := ce_now E\<rparr>"
  have "0 < length (v2_encode i outs)" by (simp add: v2_encode_def)
  then obtain A where A: "datum_protocol_coinbaser_fetch_response True (length ?bs) ?bs ?S = (1, ?S\<lparr>ss_answers := A\<rparr>)"
    "ca_received A" "ca_value A (ca_idx A) = v" "take (ca_len A (ca_idx A)) (ca_buf A (ca_idx A)) = v2_encode i outs"
    using coinbaser_stored [of "v2_encode i outs" "length ?bs" v "[]" ?S] assms(6) by (auto simp: coinbaser_encode_def)
  have "datum_protocol_server_msg E h data S = Some (1, ?S\<lparr>ss_answers := A\<rparr>)"
    using A(1) assms(8) by (simp add: datum_protocol_server_msg_def assms(7,9) decrypt_command_def check_signature_def dispatch_def datum_protocol_mining_cmd5_def)
  then show ?thesis using coinbaser_paid [OF A(2-4) assms(1-5)] by (intro exI [of _ A]) simp
qed

section \<open>Examples\<close>

definition ex_crypto :: crypto where
  "ex_crypto = \<lparr>cr_seal_open = (\<lambda>_ m. Some (drop 48 m)), cr_open = (\<lambda>_ _ m. Some (drop 16 m)), cr_beforenm = (\<lambda>pk _. Some pk), cr_verify = (\<lambda>sig m pk. sig = replicate 64 9)\<rparr>"

definition ex_command_env :: command_env where
  "ex_command_env = \<lparr>ce_crypto = ex_crypto, ce_slots = (\<lambda>_. None), ce_jobs = initial_slots, ce_now = 1000, ce_locked = True, ce_r1 = 0, ce_r2 = 0\<rparr>"

definition ex_keys :: "u8 \<Rightarrow> pool_keys" where
  "ex_keys b = \<lparr>pk_ed25519 = replicate 32 b, pk_x25519 = replicate 32 b\<rparr>"

definition ex_session :: session where
  "ex_session = \<lparr>ss_state = 2, ss_local = ex_keys 1, ss_session = ex_keys 2, ss_remote = ex_keys 3, ss_pool = ex_keys 4, ss_precomp = [], ss_nonce_receiver = replicate 6 0,
     ss_latest = 0, ss_settings = \<lparr>ps_scriptsig = [], ps_prime_id = 0, ps_tag = [], ps_vardiff_min = 0\<rparr>,
     ss_tallies = \<lparr>accepted_count = 0, accepted_diff = 0, rejected_count = 0, rejected_diff = 0, last_accepted = 0\<rparr>,
     ss_answers = \<lparr>ca_idx = 0, ca_received = False, ca_buf = (\<lambda>_. []), ca_value = (\<lambda>_. 0), ca_len = (\<lambda>_. 0)\<rparr>, ss_notified = 0, ss_replies = []\<rparr>"

theorem configuration_stored_witness:
  "\<exists>w. datum_protocol_client_configure (length (config_encode [0x6a] 7 [65] 1000)) (config_encode [0x6a] 7 [65] 1000 @ []) ex_session
      = (1, ex_session\<lparr>ss_settings := \<lparr>ps_scriptsig = [0x6a], ps_prime_id = 7, ps_tag = [65], ps_vardiff_min = w\<rparr>, ss_state := 3\<rparr>)"
  using configuration_stored [of "[0x6a]" "[65]" 1000 7 "[]" ex_session] by auto

theorem refused_configuration_applied_witness:
  "\<exists>S'. datum_protocol_client_configure 3 (config_encode [0x6a] 7 [65] 1000 @ []) ex_session = (0, S') \<and> ps_scriptsig (ss_settings S') = [0x6a]"
  using refused_configuration_applied [of "[0x6a]" "[65]" 3 7 1000 "[]" ex_session] by (auto simp: length_config)


theorem forged_coinbaser_witness:
  "\<exists>data A. datum_protocol_server_msg ex_command_env
       \<lparr>h_cmd_len = length data, h_reserved = 0, h_signed = False, h_encrypted_pubkey = False, h_encrypted_channel = False, h_proto_cmd = 5\<rparr> data ex_session
     = Some (1, ex_session\<lparr>ss_latest := 1000, ss_answers := A\<rparr>)
     \<and> v2_outputs (snd (datum_protocol_coinbaser_fetch 312500000 (replicate 32 0) 3 Signalled A 0 0)) = map v2_entry demo_outs"
proof -
  have l: "length (v2_encode 3 demo_outs) < 32768" by (simp add: v2_encode_def demo_outs_def le8_def)
  have e: "ce_locked ex_command_env" "ce_now ex_command_env = 1000" by (simp_all add: ex_command_env_def)
  have o: "list_all v2_script_ok demo_outs" "0 < length demo_outs" "length demo_outs \<le> 512" "out_sum demo_outs \<le> unat (312500000 :: u64)"
    by (simp_all add: demo_outs_def v2_script_ok_def)
  obtain A where "datum_protocol_server_msg ex_command_env
      \<lparr>h_cmd_len = length (0x11 # coinbaser_encode 312500000 (v2_encode 3 demo_outs)), h_reserved = 0, h_signed = False, h_encrypted_pubkey = False, h_encrypted_channel = False, h_proto_cmd = 5\<rparr>
      (0x11 # coinbaser_encode 312500000 (v2_encode 3 demo_outs)) ex_session = Some (1, ex_session\<lparr>ss_latest := 1000, ss_answers := A\<rparr>)"
    "v2_outputs (snd (datum_protocol_coinbaser_fetch 312500000 (replicate 32 0) 3 Signalled A 0 0)) = map v2_entry demo_outs"
    using forged_coinbaser [OF o _ l refl e(1) refl, of ex_session "replicate 32 0" 0 0] unfolding e(2) by auto
  then show ?thesis by (intro exI conjI)
qed

theorem settings_authenticated_witness:
  "\<exists>S' (h1 :: header) data1. datum_protocol_server_msg ex_command_env
       \<lparr>h_cmd_len = 84, h_reserved = 0, h_signed = True, h_encrypted_pubkey = False, h_encrypted_channel = False, h_proto_cmd = 5\<rparr>
       (0x99 # config_encode [0x6a] 7 [65] 1000 @ replicate 64 9) ex_session = Some (1, S') \<and> ss_state S' = 3
     \<and> cr_verify ex_crypto (take 64 (drop (h_cmd_len h1 - 64) data1)) (take (h_cmd_len h1 - 64) data1) (signing_key ex_session)"
proof -
  let ?h = "\<lparr>h_cmd_len = 84, h_reserved = 0, h_signed = True, h_encrypted_pubkey = False, h_encrypted_channel = False, h_proto_cmd = 5\<rparr>"
  let ?d = "0x99 # config_encode [0x6a] 7 [65] 1000 @ replicate 64 9"
  let ?w = "vardiff_setting 1000" and ?S = "ex_session\<lparr>ss_latest := 1000\<rparr>"
  have "datum_protocol_client_configure 19 (config_encode [0x6a] 7 [65] 1000 @ replicate 64 9) ?S
      = (1, ?S\<lparr>ss_settings := (ss_settings ?S)\<lparr>ps_scriptsig := [0x6a], ps_prime_id := 7, ps_tag := [65], ps_vardiff_min := ?w\<rparr>, ss_state := 3\<rparr>)"
    by (subst configure_parts) (simp_all add: Let_def)
  moreover have "take 64 (drop 20 ?d) = replicate 64 9" by (simp add: length_config)
  ultimately have m: "datum_protocol_server_msg ex_command_env ?h ?d ex_session
      = Some (1, ?S\<lparr>ss_settings := (ss_settings ?S)\<lparr>ps_scriptsig := [0x6a], ps_prime_id := 7, ps_tag := [65], ps_vardiff_min := ?w\<rparr>, ss_state := 3\<rparr>)"
    by (simp add: datum_protocol_server_msg_def decrypt_command_def check_signature_def dispatch_def datum_protocol_mining_cmd5_def ex_command_env_def ex_crypto_def)
  have "ss_state ex_session = 2" by (simp add: ex_session_def)
  then obtain h1 data1 S1 where
    "cr_verify (ce_crypto ex_command_env) (take 64 (drop (h_cmd_len h1 - 64) (data1 :: bytes))) (take (h_cmd_len (h1 :: header) - 64) data1) (signing_key ex_session)"
    using settings_authenticated [OF m] by auto
  moreover have "ce_crypto ex_command_env = ex_crypto" by (simp add: ex_command_env_def)
  ultimately show ?thesis using m by (intro exI conjI) (simp_all only:, simp)
qed

end
