(* ===== verification/Sockets.thy ===== *)
theory Sockets
  imports Thread Json
begin

text \<open>
  The thread pool that carries the stratum connections, \<^verbatim>\<open>src/src/datum_sockets.c\<close>: the slots of a thread, the choice of a
  thread and a slot for a new connection, the splitting of what is received into lines, the sending of queued text and one round of a
  thread. The functions of the application (\<^verbatim>\<open>client_cmd_func\<close> and the other pointers of \<^verbatim>\<open>T_DATUM_SOCKET_APP\<close>) are the
  record \<open>app_funcs\<close>, over a state \<open>'w\<close> of the application's own; the answers of the kernel (\<^verbatim>\<open>recv\<close>, \<^verbatim>\<open>send\<close>,
  \<^verbatim>\<open>epoll_ctl\<close>) are arguments. The lists of slots of a thread are the first \<^verbatim>\<open>max_clients_thread\<close> of its array.
\<close>

section \<open>Data\<close>

text \<open>
  \<open>k_buffer\<close> is the text in \<^verbatim>\<open>buffer[0 .. in_buf)\<close>; the send buffer with its length \<^verbatim>\<open>out_buf\<close> is part of the connection
  \<open>k_conn\<close>. \<open>k_armed\<close> is the kernel's side: whether the descriptor is registered with epoll and not used up (\<^verbatim>\<open>EPOLLONESHOT\<close>).
\<close>

record slot =
  k_fd :: int
  k_cid :: nat
  k_new_connection :: bool
  k_buffer :: string
  k_conn :: conn
  k_rem_host :: string
  k_kill_request :: bool
  k_proxy_line_read :: int
  k_armed :: bool

record pool_thread =
  pt_is_active :: bool
  pt_has_new_clients :: bool
  pt_empty_request :: bool
  pt_has_client_kill_request :: bool
  pt_thread_id :: nat
  pt_clients :: "slot list"
  pt_connected_clients :: int
  pt_next_open :: nat

record socket_app =
  sa_max_clients :: int
  sa_threads :: "pool_thread list"
  sa_active_threads :: int

record 'w app_funcs =
  client_cmd_func :: "string \<Rightarrow> conn \<Rightarrow> 'w \<Rightarrow> int \<times> conn \<times> 'w"
  closed_client_func :: "conn \<Rightarrow> string \<Rightarrow> 'w \<Rightarrow> 'w"
  new_client_func :: "conn \<Rightarrow> 'w \<Rightarrow> conn \<times> 'w"
  loop_func :: "client list \<Rightarrow> bool \<Rightarrow> 'w \<Rightarrow> client list \<times> bool \<times> 'w"

abbreviation client_slot :: "pool_thread \<Rightarrow> nat \<Rightarrow> slot" where
  "client_slot d i \<equiv> pt_clients d ! i"

definition put_slot :: "nat \<Rightarrow> slot \<Rightarrow> pool_thread \<Rightarrow> pool_thread" where
  "put_slot i c d = d\<lparr>pt_clients := (pt_clients d)[i := c]\<rparr>"

definition slot_free :: "slot \<Rightarrow> bool" where
  "slot_free c \<longleftrightarrow> k_fd c = 0"

section \<open>Closing a connection\<close>

definition datum_socket_thread_client_count_decrement :: "nat \<Rightarrow> pool_thread \<Rightarrow> pool_thread" where
  "datum_socket_thread_client_count_decrement cid d =
     put_slot cid ((client_slot d cid)\<lparr>k_fd := 0\<rparr>)
       (d\<lparr>pt_connected_clients := pt_connected_clients d - 1,
          pt_next_open := (if cid < pt_next_open d then cid else pt_next_open d)\<rparr>)"

text \<open>The descriptor leaves epoll and is closed, the application is told, the slot is given back.\<close>

definition close_client :: "'w app_funcs \<Rightarrow> string \<Rightarrow> nat \<Rightarrow> pool_thread \<Rightarrow> 'w \<Rightarrow> pool_thread \<times> 'w" where
  "close_client af reason cid d w =
     (datum_socket_thread_client_count_decrement cid (put_slot cid ((client_slot d cid)\<lparr>k_armed := False\<rparr>) d),
      closed_client_func af (k_conn (client_slot d cid)) reason w)"

fun each_slot :: "(nat \<Rightarrow> pool_thread \<Rightarrow> 'w \<Rightarrow> pool_thread \<times> 'w) \<Rightarrow> nat list \<Rightarrow> pool_thread \<Rightarrow> 'w \<Rightarrow> pool_thread \<times> 'w" where
  "each_slot f [] d w = (d, w)"
| "each_slot f (i # is) d w = (let (d, w) = f i d w in each_slot f is d w)"

section \<open>New connections of a thread\<close>

definition take_in_one :: "'w app_funcs \<Rightarrow> (int \<Rightarrow> bool) \<Rightarrow> nat \<Rightarrow> pool_thread \<Rightarrow> 'w \<Rightarrow> pool_thread \<times> 'w" where
  "take_in_one af add_ok i d w =
     (let c = client_slot d i
      in if \<not> k_new_connection c then (d, w)
         else let c = c\<lparr>k_new_connection := False, k_buffer := [], k_conn := (k_conn c)\<lparr>w_buffer := []\<rparr>, k_proxy_line_read := 0\<rparr>;
                  d = put_slot i c d
              in if \<not> add_ok (k_fd c) then close_client af ''epoll_ctl add failed @ new connection'' i d w
                 else let (cn, w) = new_client_func af (k_conn c) w
                      in (put_slot i (c\<lparr>k_conn := cn, k_armed := True\<rparr>) d, w))"

definition take_in :: "'w app_funcs \<Rightarrow> (int \<Rightarrow> bool) \<Rightarrow> pool_thread \<Rightarrow> 'w \<Rightarrow> pool_thread \<times> 'w" where
  "take_in af add_ok d w =
     (if pt_has_new_clients d
      then let (d, w) = each_slot (take_in_one af add_ok) [0..<length (pt_clients d)] d w in (d\<lparr>pt_has_new_clients := False\<rparr>, w)
      else (d, w))"

section \<open>Requests to disconnect\<close>

definition empty_one :: "'w app_funcs \<Rightarrow> nat \<Rightarrow> pool_thread \<Rightarrow> 'w \<Rightarrow> pool_thread \<times> 'w" where
  "empty_one af j d w = (if \<not> slot_free (client_slot d j) then close_client af ''empty thread command'' j d w else (d, w))"

definition kill_one :: "'w app_funcs \<Rightarrow> nat \<Rightarrow> pool_thread \<Rightarrow> 'w \<Rightarrow> pool_thread \<times> 'w" where
  "kill_one af j d w =
     (if \<not> slot_free (client_slot d j) \<and> k_kill_request (client_slot d j)
      then close_client af ''client kill command'' j (put_slot j ((client_slot d j)\<lparr>k_kill_request := False\<rparr>) d) w
      else (d, w))"

definition clear_requests :: "pool_thread \<Rightarrow> pool_thread" where
  "clear_requests d = d\<lparr>pt_has_client_kill_request := False, pt_empty_request := False\<rparr>"

definition serve_requests :: "'w app_funcs \<Rightarrow> pool_thread \<Rightarrow> 'w \<Rightarrow> pool_thread \<times> 'w" where
  "serve_requests af d w =
     (let (d, w) = (if pt_empty_request d then each_slot (empty_one af) [0..<length (pt_clients d)] d w
                    else if pt_has_client_kill_request d then each_slot (kill_one af) [0..<length (pt_clients d)] d w
                    else (d, w))
      in (clear_requests d, w))"

section \<open>The loop of the application\<close>

text \<open>It sees which slots are in use, the connections and the requests to disconnect, and may change the last two.\<close>

definition client_view :: "slot \<Rightarrow> client" where
  "client_view c = \<lparr>cl_fd = (\<not> slot_free c), cl_conn = k_conn c, cl_kill_request = k_kill_request c\<rparr>"

definition put_view :: "client list \<Rightarrow> nat \<Rightarrow> slot \<Rightarrow> slot" where
  "put_view vs i c = (if i < length vs then c\<lparr>k_conn := cl_conn (vs ! i), k_kill_request := cl_kill_request (vs ! i)\<rparr> else c)"

definition run_loop_func :: "'w app_funcs \<Rightarrow> pool_thread \<Rightarrow> 'w \<Rightarrow> pool_thread \<times> 'w" where
  "run_loop_func af d w =
     (let (vs, kill, w) = loop_func af (map client_view (pt_clients d)) (pt_has_client_kill_request d) w
      in (d\<lparr>pt_clients := map (\<lambda>i. put_view vs i (client_slot d i)) [0..<length (pt_clients d)], pt_has_client_kill_request := kill\<rparr>, w))"

section \<open>Sending\<close>

text \<open>The answer of \<^verbatim>\<open>send\<close> is the count and whether \<^verbatim>\<open>errno\<close> says to try again.\<close>

definition sent_off :: "int \<Rightarrow> conn \<Rightarrow> conn" where
  "sent_off n c = c\<lparr>w_buffer := (if n \<le> int (length (w_buffer c)) then drop (nat n) (w_buffer c) else [])\<rparr>"

definition flush_one :: "'w app_funcs \<Rightarrow> (nat \<Rightarrow> int \<times> bool) \<Rightarrow> nat \<Rightarrow> pool_thread \<Rightarrow> 'w \<Rightarrow> pool_thread \<times> 'w" where
  "flush_one af answers j d w =
     (let c = client_slot d j
      in if \<not> slot_free c \<and> w_buffer (k_conn c) \<noteq> []
         then let (sent, again) = answers j
              in if sent > 0 then (put_slot j (c\<lparr>k_conn := sent_off sent (k_conn c)\<rparr>) d, w)
                 else if again then (d, w) else close_client af ''send error'' j d w
         else (d, w))"

definition datum_socket_send_chars_to_client :: "string \<Rightarrow> nat \<Rightarrow> conn \<Rightarrow> int \<times> conn" where
  "datum_socket_send_chars_to_client s n c =
     (if n = 0 then (0, c)
      else if length (w_buffer c) + n \<ge> CLIENT_BUFFER then (-1, c)
      else let n = (if n > CLIENT_BUFFER - length (w_buffer c) - 1 then CLIENT_BUFFER - length (w_buffer c) - 1 else n)
           in (int n, c\<lparr>w_buffer := w_buffer c @ take n s\<rparr>))"

section \<open>Receiving\<close>

abbreviation LF :: char where "LF \<equiv> CHR 0x0A"
abbreviation NUL :: char where "NUL \<equiv> CHR 0x00"

text \<open>\<^verbatim>\<open>sscanf(line, "PROXY <family> %<n>s")\<close>: blanks of a format match any white space, also none.\<close>

definition scan_proxy :: "string \<Rightarrow> nat \<Rightarrow> string \<Rightarrow> string option" where
  "scan_proxy family n line =
     (let r = dropWhile is_space (drop 5 line)
      in if take 5 line \<noteq> ''PROXY'' \<or> take 4 r \<noteq> family then None
         else let ip = take n (takeWhile (\<lambda>x. \<not> is_space x) (dropWhile is_space (drop 4 r)))
              in if ip = [] then None else Some ip)"

definition proxy_ip :: "string \<Rightarrow> string option" where
  "proxy_ip line = (case scan_proxy ''TCP4'' 15 line of Some ip \<Rightarrow> Some ip | None \<Rightarrow> scan_proxy ''TCP6'' 45 line)"

definition proxy_line :: "int \<Rightarrow> string \<Rightarrow> slot \<Rightarrow> slot" where
  "proxy_line trust line c =
     (let c = c\<lparr>k_proxy_line_read := k_proxy_line_read c + 1\<rparr>
      in if k_proxy_line_read c \<le> trust then (case proxy_ip line of Some ip \<Rightarrow> c\<lparr>k_rem_host := ip\<rparr> | None \<Rightarrow> c) else c)"

definition client_line :: "'w app_funcs \<Rightarrow> int \<Rightarrow> string \<Rightarrow> slot \<Rightarrow> 'w \<Rightarrow> int \<times> slot \<times> 'w" where
  "client_line af trust line c w =
     (let proxied = (trust \<noteq> -1 \<and> k_proxy_line_read c \<noteq> -1)
      in if proxied \<and> take 6 line = ''PROXY '' then (0, proxy_line trust line c, w)
         else let c = (if proxied then c\<lparr>k_proxy_line_read := -1\<rparr> else c);
                  (j, cn, w) = client_cmd_func af line (k_conn c) w
              in (j, c\<lparr>k_conn := cn\<rparr>, w))"

text \<open>The lines in the buffer. The result says whether the client stays, and what is left over.\<close>

function client_lines :: "'w app_funcs \<Rightarrow> int \<Rightarrow> string \<Rightarrow> slot \<Rightarrow> 'w \<Rightarrow> bool \<times> string \<times> slot \<times> 'w" where
  "client_lines af trust start_line c w =
     (case dropWhile (\<lambda>x. x \<noteq> LF) start_line of
        [] \<Rightarrow> (True, start_line, c, w)
      | end_line # rest \<Rightarrow>
          (let (j, c, w) = client_line af trust (takeWhile (\<lambda>x. x \<noteq> LF) start_line) c w
           in if j < 0 then (False, [], c, w) else client_lines af trust rest c w))"
  by pat_completeness auto
termination
proof (relation "measure (\<lambda>(af, trust, s, c, w). length s)", simp_all)
  fix s rest :: string and x
  assume "dropWhile (\<lambda>x. x \<noteq> LF) s = x # rest"
  then have "Suc (length rest) = length (dropWhile (\<lambda>x. x \<noteq> LF) s)" by simp
  also have "\<dots> \<le> length s" by (rule length_dropWhile_le)
  finally show "length rest < length s" by simp
qed

declare client_lines.simps [simp del]

text \<open>The handling of received data; the first component is the reason to close the connection, if any.\<close>

definition client_input :: "'w app_funcs \<Rightarrow> int \<Rightarrow> string \<Rightarrow> slot \<Rightarrow> 'w \<Rightarrow> string option \<times> slot \<times> 'w" where
  "client_input af trust data c w =
     (let (stays, leftover, c, w) = client_lines af trust (takeWhile (\<lambda>x. x \<noteq> NUL) (k_buffer c @ data)) c w;
          c = c\<lparr>k_buffer := leftover\<rparr>
      in if \<not> stays then (Some ''client_cmd_func returned error'', c, w)
         else if length leftover \<ge> CLIENT_BUFFER - 1
         then (Some ''read buffer overrun before client command break'', c\<lparr>k_buffer := []\<rparr>, w)
         else (None, c, w))"

datatype recv_answer = Received string | Recv_again | Recv_closed

definition read_room :: "slot \<Rightarrow> nat" where
  "read_room c = CLIENT_BUFFER - 1 - length (k_buffer c)"

definition rearm :: "'w app_funcs \<Rightarrow> bool \<Rightarrow> nat \<Rightarrow> pool_thread \<Rightarrow> 'w \<Rightarrow> pool_thread \<times> 'w" where
  "rearm af mod_ok cidx d w =
     (if k_fd (client_slot d cidx) > 0
      then if mod_ok then (put_slot cidx ((client_slot d cidx)\<lparr>k_armed := True\<rparr>) d, w)
           else close_client af ''epoll_ctl error re-upping client polling'' cidx d w
      else (d, w))"

text \<open>An event of epoll, which uses up the registration; it holds the slot's number, the answer of \<^verbatim>\<open>recv\<close> and of the later \<^verbatim>\<open>epoll_ctl\<close>.\<close>

definition client_event :: "'w app_funcs \<Rightarrow> int \<Rightarrow> nat \<times> recv_answer \<times> bool \<Rightarrow> pool_thread \<Rightarrow> 'w \<Rightarrow> pool_thread \<times> 'w" where
  "client_event af trust ev d w =
     (let (cidx, answer, mod_ok) = ev;
          d = put_slot cidx ((client_slot d cidx)\<lparr>k_armed := False\<rparr>) d
      in case answer of
           Recv_again \<Rightarrow> (d, w)
         | Recv_closed \<Rightarrow> (let (d, w) = close_client af ''client closed connection'' cidx d w in rearm af mod_ok cidx d w)
         | Received data \<Rightarrow>
             (let (r, c, w) = client_input af trust data (client_slot d cidx) w;
                  d = put_slot cidx c d;
                  (d, w) = (case r of None \<Rightarrow> (d, w) | Some reason \<Rightarrow> close_client af reason cidx d w)
              in rearm af mod_ok cidx d w))"

fun client_events :: "'w app_funcs \<Rightarrow> int \<Rightarrow> (nat \<times> recv_answer \<times> bool) list \<Rightarrow> pool_thread \<Rightarrow> 'w \<Rightarrow> pool_thread \<times> 'w" where
  "client_events af trust [] d w = (d, w)"
| "client_events af trust (ev # evs) d w = (let (d, w) = client_event af trust ev d w in client_events af trust evs d w)"

section \<open>A round of a thread\<close>

text \<open>
  What the kernel answers in a round: to the registration of a new descriptor, to \<^verbatim>\<open>send\<close>, the slots with something to
  read in the order of the events, and for each the answer of \<^verbatim>\<open>recv\<close> and of the renewal of its registration. A failed \<^verbatim>\<open>epoll_wait\<close> is a round without events.
\<close>

record kernel_answers =
  ka_add_ok :: "int \<Rightarrow> bool"
  ka_send :: "nat \<Rightarrow> int \<times> bool"
  ka_ready :: "nat list"
  ka_recv :: "nat \<Rightarrow> recv_answer \<times> bool"

text \<open>Epoll reports a slot at most once, and only one whose descriptor is registered and not used up.\<close>

definition epoll_wait :: "kernel_answers \<Rightarrow> pool_thread \<Rightarrow> (nat \<times> recv_answer \<times> bool) list" where
  "epoll_wait ka d =
     map (\<lambda>i. (i, ka_recv ka i)) (filter (\<lambda>i. i < length (pt_clients d) \<and> k_armed (client_slot d i)) (remdups (ka_ready ka)))"

definition serve_clients :: "'w app_funcs \<Rightarrow> int \<Rightarrow> kernel_answers \<Rightarrow> pool_thread \<Rightarrow> 'w \<Rightarrow> pool_thread \<times> 'w" where
  "serve_clients af trust ka d w =
     (let (d, w) = serve_requests af d w;
          (d, w) = run_loop_func af d w;
          (d, w) = each_slot (flush_one af (ka_send ka)) [0..<length (pt_clients d)] d w
      in client_events af trust (epoll_wait ka d) d w)"

definition datum_threadpool_thread :: "'w app_funcs \<Rightarrow> int \<Rightarrow> kernel_answers \<Rightarrow> pool_thread \<Rightarrow> 'w \<Rightarrow> pool_thread \<times> 'w" where
  "datum_threadpool_thread af trust ka d w =
     (if pt_connected_clients d = 0 then (let (d, w) = run_loop_func af d w in (clear_requests d, w))
      else let (d, w) = take_in af (ka_add_ok ka) d w in serve_clients af trust ka d w)"

section \<open>A slot for a new connection\<close>

definition clean_thread_data :: "pool_thread \<Rightarrow> pool_thread" where
  "clean_thread_data d =
     d\<lparr>pt_clients := map (\<lambda>c. c\<lparr>k_new_connection := False, k_fd := 0, k_buffer := [], k_conn := (k_conn c)\<lparr>w_buffer := []\<rparr>\<rparr>) (pt_clients d),
       pt_connected_clients := 0, pt_next_open := 0, pt_has_new_clients := False\<rparr>"

text \<open>The slots from the one after \<open>cid\<close> on, around the end of the array, up to the one before it.\<close>

definition slots_after :: "nat \<Rightarrow> nat \<Rightarrow> nat list" where
  "slots_after cid n = [Suc cid..<n] @ [0..<cid]"

definition place_client :: "int \<Rightarrow> pool_thread \<Rightarrow> (nat \<times> pool_thread) option" where
  "place_client fd d =
     (let n = length (pt_clients d);
          free = (\<lambda>i. slot_free (client_slot d i))
      in if pt_connected_clients d \<ge> int n then None
         else case (if free (pt_next_open d) then Some (pt_next_open d) else find free [0..<n]) of
                None \<Rightarrow> None
              | Some cid \<Rightarrow>
                  (let c = client_slot d cid
                   in Some (cid, put_slot cid (c\<lparr>k_fd := fd, k_cid := cid, k_new_connection := True, k_buffer := [], k_conn := (k_conn c)\<lparr>w_buffer := []\<rparr>\<rparr>)
                        (d\<lparr>pt_next_open := (case find free (slots_after cid n) of Some i \<Rightarrow> i | None \<Rightarrow> n - 1),
                           pt_connected_clients := pt_connected_clients d + 1, pt_has_new_clients := True\<rparr>))))"

fun least_loaded :: "pool_thread list \<Rightarrow> nat \<Rightarrow> int \<Rightarrow> nat option \<Rightarrow> nat option" where
  "least_loaded [] i j tid = tid"
| "least_loaded (d # ds) i j tid =
     (if pt_connected_clients d < j then least_loaded ds (Suc i) (pt_connected_clients d) (Some i) else least_loaded ds (Suc i) j tid)"

text \<open>\<open>start_ok\<close> is the answer of \<^verbatim>\<open>pthread_create\<close>, \<open>host\<close> the address of the peer.\<close>

definition place_on :: "nat \<Rightarrow> int \<Rightarrow> string \<Rightarrow> socket_app \<Rightarrow> bool \<times> socket_app" where
  "place_on tid fd host app =
     (case place_client fd (sa_threads app ! tid) of None \<Rightarrow> (False, app)
      | Some (cid, d) \<Rightarrow> (True, app\<lparr>sa_threads := (sa_threads app)[tid := put_slot cid ((client_slot d cid)\<lparr>k_rem_host := host\<rparr>) d]\<rparr>))"

definition assign_to_thread :: "nat \<Rightarrow> bool \<Rightarrow> int \<Rightarrow> string \<Rightarrow> socket_app \<Rightarrow> bool \<times> socket_app" where
  "assign_to_thread max_clients_thread start_ok fd host app =
     (let ts = sa_threads app
      in if sa_active_threads app < int (length ts)
         then case find (\<lambda>i. \<not> pt_is_active (ts ! i)) [0..<length ts] of None \<Rightarrow> (False, app)
              | Some tid \<Rightarrow>
                  (let app = app\<lparr>sa_threads := ts[tid := (clean_thread_data (ts ! tid))\<lparr>pt_thread_id := tid, pt_is_active := True\<rparr>]\<rparr>
                   in if \<not> start_ok then (False, app) else place_on tid fd host (app\<lparr>sa_active_threads := sa_active_threads app + 1\<rparr>))
         else case least_loaded ts 0 (int max_clients_thread) None of None \<Rightarrow> (False, app)
              | Some tid \<Rightarrow> if sum_list (map pt_connected_clients ts) \<ge> sa_max_clients app then (False, app) else place_on tid fd host app)"

text \<open>
  The listener: it resets the threads at its start, and turns connections away (they are closed) while mining is only meant for the pool
  and the pool is not connected.
\<close>

definition listener_init :: "socket_app \<Rightarrow> socket_app" where
  "listener_init app =
     app\<lparr>sa_threads := map (\<lambda>i. (sa_threads app ! i)\<lparr>pt_thread_id := i, pt_connected_clients := 0, pt_next_open := 0\<rparr>) [0..<length (sa_threads app)],
         sa_active_threads := 0\<rparr>"

definition listener_accept :: "nat \<Rightarrow> bool \<Rightarrow> bool \<Rightarrow> bool \<Rightarrow> int \<Rightarrow> string \<Rightarrow> socket_app \<Rightarrow> bool \<times> socket_app" where
  "listener_accept max_clients_thread pooled_mining_only protocol_is_active start_ok fd host app =
     (if pooled_mining_only \<and> \<not> protocol_is_active then (False, app) else assign_to_thread max_clients_thread start_ok fd host app)"

section \<open>What a stream of lines means\<close>

text \<open>The complete lines of a text and the unfinished rest.\<close>

fun split_lines :: "string \<Rightarrow> string list \<times> string" where
  "split_lines [] = ([], [])"
| "split_lines (x # xs) =
     (let (ls, r) = split_lines xs
      in if x = LF then ([] # ls, r) else case ls of [] \<Rightarrow> ([], x # r) | l # ls \<Rightarrow> ((x # l) # ls, r))"

text \<open>
  The promise of the receiver, on lines and without buffers or reads: each line goes to the handler, in order; an error of the handler
  or a line of \<open>CLIENT_BUFFER - 1\<close> characters or more, finished or not, closes the connection.
\<close>

fun serve_lines :: "'w app_funcs \<Rightarrow> int \<Rightarrow> string list \<Rightarrow> string \<Rightarrow> slot \<Rightarrow> 'w \<Rightarrow> string option \<times> slot \<times> 'w" where
  "serve_lines af trust [] r c w =
     (if length r \<ge> CLIENT_BUFFER - 1 then (Some ''read buffer overrun before client command break'', c\<lparr>k_buffer := []\<rparr>, w)
      else (None, c\<lparr>k_buffer := r\<rparr>, w))"
| "serve_lines af trust (l # ls) r c w =
     (if length l \<ge> CLIENT_BUFFER - 1 then (Some ''read buffer overrun before client command break'', c\<lparr>k_buffer := []\<rparr>, w)
      else let (j, c, w) = client_line af trust l c w
           in if j < 0 then (Some ''client_cmd_func returned error'', c\<lparr>k_buffer := []\<rparr>, w) else serve_lines af trust ls r c w)"

abbreviation serve_stream :: "'w app_funcs \<Rightarrow> int \<Rightarrow> string \<Rightarrow> slot \<Rightarrow> 'w \<Rightarrow> string option \<times> slot \<times> 'w" where
  "serve_stream af trust s c w \<equiv> serve_lines af trust (fst (split_lines s)) (snd (split_lines s)) c w"

lemma split_lines_rest: "LF \<notin> set (snd (split_lines s))"
  by (induction s) (auto simp: Let_def split: prod.splits list.splits if_splits)

lemma split_lines_none: "LF \<notin> set s \<Longrightarrow> split_lines s = ([], s)"
  by (induction s) auto

lemma split_lines_line: "LF \<notin> set l \<Longrightarrow> split_lines (l @ LF # s) = (l # fst (split_lines s), snd (split_lines s))"
  by (induction l) (auto simp: Let_def split: prod.splits)

lemma split_lines_append:
  "split_lines (x @ y) = (fst (split_lines x) @ fst (split_lines (snd (split_lines x) @ y)), snd (split_lines (snd (split_lines x) @ y)))"
proof (induction "length x" arbitrary: x rule: less_induct)
  case less
  show ?case
  proof (cases "LF \<in> set x")
    case False
    then show ?thesis by (simp add: split_lines_none)
  next
    case True
    then obtain l s where x: "x = l @ LF # s" "LF \<notin> set l" by (meson split_list_first)
    have "split_lines (s @ y) = (fst (split_lines s) @ fst (split_lines (snd (split_lines s) @ y)), snd (split_lines (snd (split_lines s) @ y)))"
      by (rule less) (simp add: x(1))
    then show ?thesis by (simp add: x split_lines_line)
  qed
qed

lemma split_lines_head:
  assumes "split_lines (r @ y) = (ls, t)" "LF \<notin> set r"
  shows "case ls of [] \<Rightarrow> length r \<le> length t | l # _ \<Rightarrow> length r \<le> length l"
  using assms by (induction r arbitrary: ls t) (fastforce split: list.splits prod.splits)+

text \<open>The handler does not see the buffer.\<close>

lemma client_line_buffer:
  "client_line af trust l (c\<lparr>k_buffer := b\<rparr>) w = (let (j, c', w') = client_line af trust l c w in (j, c'\<lparr>k_buffer := b\<rparr>, w'))"
  by (simp add: client_line_def proxy_line_def Let_def split: prod.splits option.splits)

lemma serve_lines_buffer: "serve_lines af trust ls r (c\<lparr>k_buffer := b\<rparr>) w = serve_lines af trust ls r c w"
  by (induction ls arbitrary: c w) (simp_all add: client_line_buffer split: prod.split)

lemma serve_more_none:
  fixes ms :: "string list"
  shows "serve_lines af trust ls r c w = (None, c', w') \<Longrightarrow> serve_lines af trust (ls @ ms) t c w = serve_lines af trust ms t c' w'"
  by (induction ls arbitrary: c w) (auto simp: serve_lines_buffer split: if_splits prod.splits)

lemma serve_more_some:
  fixes ms :: "string list"
  assumes "serve_lines af trust ls r c w = (Some e, c', w')" "case ms of [] \<Rightarrow> length r \<le> length t | m # _ \<Rightarrow> length r \<le> length m"
  shows "serve_lines af trust (ls @ ms) t c w = (Some e, c', w')"
  using assms by (induction ls arbitrary: c w) (auto split: if_splits prod.splits list.splits)

lemma serve_keeps_rest:
  "serve_lines af trust ls r c w = (None, c', w') \<Longrightarrow> k_buffer c' = r \<and> length r < CLIENT_BUFFER - 1"
  by (induction ls arbitrary: c w) (auto split: if_splits prod.splits)

lemma serve_closed_buffer: "serve_lines af trust ls r c w = (Some e, c', w') \<Longrightarrow> k_buffer c' = []"
  by (induction ls arbitrary: c w) (auto split: if_splits prod.splits)

lemma serve_stream_more:
  assumes "serve_stream af trust x c w = (res, c', w')"
  shows "serve_stream af trust (x @ y) c w = (case res of None \<Rightarrow> serve_stream af trust (k_buffer c' @ y) c' w' | Some e \<Rightarrow> (Some e, c', w'))"
proof -
  define r where "r = snd (split_lines x)"
  obtain ms t where s: "split_lines (r @ y) = (ms, t)" by fastforce
  have a: "split_lines (x @ y) = (fst (split_lines x) @ ms, t)" using split_lines_append [of x y] by (simp add: s flip: r_def)
  show ?thesis
  proof (cases res)
    case None
    have "k_buffer c' = r" using serve_keeps_rest assms by (fastforce simp: None r_def)
    then show ?thesis using serve_more_none [OF assms [unfolded None], where ms = ms and t = t] by (simp add: a s None)
  next
    case (Some e)
    have m: "case ms of [] \<Rightarrow> length r \<le> length t | l # _ \<Rightarrow> length r \<le> length l"
      by (rule split_lines_head [OF s]) (simp add: r_def split_lines_rest)
    show ?thesis using serve_more_some [OF assms [unfolded Some] m [unfolded r_def]] by (simp add: a Some)
  qed
qed

lemma client_lines_serve:
  assumes "client_lines af trust s c w = (stays, leftover, c', w')" "length s \<le> CLIENT_BUFFER - 1"
  shows "serve_stream af trust s c w =
     (if \<not> stays then (Some ''client_cmd_func returned error'', c'\<lparr>k_buffer := leftover\<rparr>, w')
      else if length leftover \<ge> CLIENT_BUFFER - 1 then (Some ''read buffer overrun before client command break'', c'\<lparr>k_buffer := []\<rparr>, w')
      else (None, c'\<lparr>k_buffer := leftover\<rparr>, w'))"
  using assms
proof (induction af trust s c w rule: client_lines.induct)
  case (1 af trust s c w)
  show ?case
  proof (cases "LF \<in> set s")
    case False
    then have d: "dropWhile (\<lambda>x. x \<noteq> LF) s = []" by (auto simp: dropWhile_eq_Nil_conv)
    have "stays" "leftover = s" "c' = c" "w' = w" using 1(2) by (simp_all add: client_lines.simps [of af trust s] d)
    then show ?thesis using False by (simp add: split_lines_none)
  next
    case True
    then obtain l u where s: "s = l @ LF # u" "LF \<notin> set l" by (meson split_list_first)
    then have d: "dropWhile (\<lambda>x. x \<noteq> LF) s = LF # u" "takeWhile (\<lambda>x. x \<noteq> LF) s = l" by (auto simp: dropWhile_append takeWhile_append)
    have l: "length l < CLIENT_BUFFER - 1" "length u \<le> CLIENT_BUFFER - 1" using 1(3) by (simp_all add: s(1))
    obtain j c1 w1 where h: "client_line af trust l c w = (j, c1, w1)" using prod_cases3 by blast
    show ?thesis
    proof (cases "j < 0")
      case True
      then have "\<not> stays" "leftover = []" "c' = c1" "w' = w1" using 1(2) by (simp_all add: client_lines.simps [of af trust s] d h)
      then show ?thesis using True l(1) by (simp add: s split_lines_line h)
    next
      case False
      have "serve_stream af trust u c1 w1 =
         (if \<not> stays then (Some ''client_cmd_func returned error'', c'\<lparr>k_buffer := leftover\<rparr>, w')
          else if length leftover \<ge> CLIENT_BUFFER - 1 then (Some ''read buffer overrun before client command break'', c'\<lparr>k_buffer := []\<rparr>, w')
          else (None, c'\<lparr>k_buffer := leftover\<rparr>, w'))"
        using 1(1) [OF d(1) h [folded d(2), symmetric] refl refl False] 1(2) l(2) False by (simp add: client_lines.simps [of af trust s] d h)
      then show ?thesis using False l(1) by (simp add: s split_lines_line h)
    qed
  qed
qed

text \<open>A read is the specification, on what was left over and the new data.\<close>

lemma client_input_serve:
  assumes "NUL \<notin> set (k_buffer c)" "NUL \<notin> set data" "length data \<le> read_room c" "length (k_buffer c) < CLIENT_BUFFER"
  shows "client_input af trust data c w = serve_stream af trust (k_buffer c @ data) c w"
proof -
  have t: "takeWhile (\<lambda>x. x \<noteq> NUL) (k_buffer c @ data) = k_buffer c @ data" using assms(1,2) by (auto simp: takeWhile_eq_all_conv)
  obtain stays leftover c1 w1 where h: "client_lines af trust (k_buffer c @ data) c w = (stays, leftover, c1, w1)" using prod_cases4 by blast
  have "length (k_buffer c @ data) \<le> CLIENT_BUFFER - 1" using assms(3,4) by (simp add: read_room_def)
  then show ?thesis using client_lines_serve [OF h] by (simp add: client_input_def t h)
qed

section \<open>Reading a stream\<close>

text \<open>
  The data the peer sent and the sizes in which the kernel hands it out: each \<^verbatim>\<open>recv\<close> returns at least one character, at most as
  much as fits and as there is. Reading stops when the connection is closed; the second component is what was not read.
\<close>

fun client_reads :: "'w app_funcs \<Rightarrow> int \<Rightarrow> nat list \<Rightarrow> string \<Rightarrow> slot \<Rightarrow> 'w \<Rightarrow> string option \<times> string \<times> slot \<times> 'w" where
  "client_reads af trust [] s c w = (None, s, c, w)"
| "client_reads af trust (k # ks) s c w =
     (if s = [] then (None, s, c, w)
      else let n = min (max 1 k) (read_room c);
               (r, c, w) = client_input af trust (take n s) c w
           in if r \<noteq> None then (r, drop n s, c, w) else client_reads af trust ks (drop n s) c w)"

lemma client_reads_serve:
  assumes "client_reads af trust ks s c w = (res, unread, c', w')" "NUL \<notin> set s" "NUL \<notin> set (k_buffer c)"
    "LF \<notin> set (k_buffer c)" "length (k_buffer c) < CLIENT_BUFFER - 1"
  shows "\<exists>done. s = done @ unread \<and> serve_stream af trust (k_buffer c @ done) c w = (res, c', w') \<and> (length s \<le> length ks \<longrightarrow> res \<noteq> None \<or> unread = [])"
  using assms
proof (induction ks arbitrary: s c w)
  case Nil
  then show ?case by (auto simp: split_lines_none)
next
  case (Cons k ks)
  show ?case
  proof (cases "s = []")
    case True
    then show ?thesis using Cons.prems by (auto simp: split_lines_none)
  next
    case False
    define n where "n = min (max 1 k) (read_room c)"
    then have nd: "n = min (max (Suc 0) k) (read_room c)" by simp
    have n: "0 < n" "n \<le> read_room c" using Cons.prems(5) by (auto simp: n_def read_room_def)
    obtain r c1 w1 where h: "client_input af trust (take n s) c w = (r, c1, w1)" using prod_cases3 by blast
    have q: "NUL \<notin> set (take n s)" "NUL \<notin> set (drop n s)" using Cons.prems(2) by (auto dest: in_set_takeD in_set_dropD)
    have i: "serve_stream af trust (k_buffer c @ take n s) c w = (r, c1, w1)"
      using client_input_serve [of c "take n s" af trust w] h q(1) Cons.prems(3,5) n(2) by simp
    show ?thesis
    proof (cases r)
      case (Some e)
      then have "res = Some e" "unread = drop n s" "c' = c1" "w' = w1" using Cons.prems(1) False by (simp_all add: h flip: nd)
      then show ?thesis using i Some by (intro exI [of _ "take n s"]) simp
    next
      case None
      then have rd: "client_reads af trust ks (drop n s) c1 w1 = (res, unread, c', w')" using Cons.prems(1) False by (simp add: h flip: nd)
      have b: "k_buffer c1 = snd (split_lines (k_buffer c @ take n s))" "length (k_buffer c1) < CLIENT_BUFFER - 1"
        using serve_keeps_rest [OF i [unfolded None]] by simp_all
      have "set (snd (split_lines t)) \<subseteq> set t" for t
        by (induction t) (auto split: prod.splits list.splits if_splits)
      then have nn: "NUL \<notin> set (k_buffer c1)" using b(1) Cons.prems(3) q(1) by fastforce
      obtain rest where rest: "drop n s = rest @ unread" "serve_stream af trust (k_buffer c1 @ rest) c1 w1 = (res, c', w')"
          "length (drop n s) \<le> length ks \<longrightarrow> res \<noteq> None \<or> unread = []"
        using Cons.IH [OF rd q(2) nn _ b(2)] split_lines_rest [of "k_buffer c @ take n s"] unfolding b(1) [symmetric] by blast
      have "serve_stream af trust ((k_buffer c @ take n s) @ rest) c w = (res, c', w')"
        using serve_stream_more [OF i, of rest] rest(2) None by simp
      moreover have "s = (take n s @ rest) @ unread" using rest(1) by (metis append_assoc append_take_drop_id)
      ultimately show ?thesis using rest(3) n(1) False by (intro exI [of _ "take n s @ rest"]) auto
    qed
  qed
qed


definition ex_funcs :: "string list app_funcs" where
  "ex_funcs = \<lparr>client_cmd_func = (\<lambda>l c w. (if l = ''bad'' then -1 else 0, c, w @ [l])), closed_client_func = (\<lambda>c r w. w @ [r]),
     new_client_func = (\<lambda>c w. (c, w)), loop_func = (\<lambda>vs k w. (vs, k, w))\<rparr>"

definition ex_slot :: slot where
  "ex_slot = \<lparr>k_fd = 5, k_cid = 0, k_new_connection = False, k_buffer = [], k_conn = \<lparr>miner = zero_miner, w_buffer = []\<rparr>,
     k_rem_host = ''10.0.0.1'', k_kill_request = False, k_proxy_line_read = 0, k_armed = True\<rparr>"


text \<open>Text after a zero byte in a read is lost.\<close>

lemma nul_hides_rest:
  assumes "NUL \<notin> set (k_buffer c)" "NUL \<notin> set x"
  shows "client_input af trust (x @ NUL # y) c w = client_input af trust x c w"
proof -
  have "takeWhile (\<lambda>z. z \<noteq> NUL) (k_buffer c @ x @ t) = k_buffer c @ x @ takeWhile (\<lambda>z. z \<noteq> NUL) t" for t
    using takeWhile_append2 [of "k_buffer c @ x" "\<lambda>z. z \<noteq> NUL" t] assms by fastforce
  from this [of "NUL # y"] this [of "[]"] have "takeWhile (\<lambda>z. z \<noteq> NUL) (k_buffer c @ x @ NUL # y) = k_buffer c @ x"
    "takeWhile (\<lambda>z. z \<noteq> NUL) (k_buffer c @ x) = k_buffer c @ x" by simp_all
  then show ?thesis by (simp only: client_input_def)
qed

section \<open>The slots of a thread\<close>

text \<open>
  What the slots of a thread satisfy between its rounds: the count is that of the slots in use, the next open slot is free unless all
  are in use, a connection not yet taken in has a descriptor and is announced, and every connection taken in is registered with epoll.
\<close>

definition slot_new :: "pool_thread \<Rightarrow> nat \<Rightarrow> bool" where
  "slot_new d i \<longleftrightarrow> i < length (pt_clients d) \<and> k_new_connection (client_slot d i)"

definition slots_ok :: "pool_thread \<Rightarrow> bool" where
  "slots_ok d \<longleftrightarrow>
     pt_connected_clients d = int (length (filter (\<lambda>c. \<not> slot_free c) (pt_clients d))) \<and> pt_next_open d < length (pt_clients d)
     \<and> (if pt_connected_clients d < int (length (pt_clients d)) then slot_free (client_slot d (pt_next_open d))
          else Suc (pt_next_open d) = length (pt_clients d))
     \<and> (\<forall>i<length (pt_clients d).
          (slot_new d i \<longrightarrow> pt_has_new_clients d \<and> \<not> slot_free (client_slot d i))
          \<and> k_fd (client_slot d i) \<ge> 0 \<and> (k_armed (client_slot d i) \<longrightarrow> \<not> slot_free (client_slot d i) \<and> \<not> slot_new d i))"

definition polled :: "pool_thread \<Rightarrow> bool" where
  "polled d \<longleftrightarrow> (\<forall>i<length (pt_clients d). \<not> slot_free (client_slot d i) \<longrightarrow> \<not> slot_new d i \<longrightarrow> k_armed (client_slot d i))"

lemma filter_update_count:
  "i < length xs \<Longrightarrow> length (filter P (xs[i := x])) + of_bool (P (xs ! i)) = length (filter P xs) + of_bool (P x)"
proof (induction xs arbitrary: i)
  case (Cons y ys)
  then show ?case by (cases i) auto
qed simp

lemma filter_some_index: "length (filter P xs) < length xs \<longleftrightarrow> (\<exists>i<length xs. \<not> P (xs ! i))"
proof
  assume "\<exists>i<length xs. \<not> P (xs ! i)"
  then show "length (filter P xs) < length xs" using length_filter_less by (metis nth_mem)
next
  assume "length (filter P xs) < length xs"
  then show "\<exists>i<length xs. \<not> P (xs ! i)" by (metis filter_True in_set_conv_nth order_less_irrefl)
qed

lemma put_slot_simps [simp]:
  "length (pt_clients (put_slot i c d)) = length (pt_clients d)"
  "pt_connected_clients (put_slot i c d) = pt_connected_clients d" "pt_next_open (put_slot i c d) = pt_next_open d"
  "pt_has_new_clients (put_slot i c d) = pt_has_new_clients d"
  "j < length (pt_clients d) \<Longrightarrow> client_slot (put_slot i c d) j = (if j = i then c else client_slot d j)"
  by (simp_all add: put_slot_def nth_list_update)

lemma slots_okI:
  assumes "pt_connected_clients d = int (length (filter (\<lambda>c. \<not> slot_free c) (pt_clients d)))" "pt_next_open d < length (pt_clients d)"
    "pt_connected_clients d < int (length (pt_clients d)) \<Longrightarrow> slot_free (client_slot d (pt_next_open d))"
    "\<not> pt_connected_clients d < int (length (pt_clients d)) \<Longrightarrow> Suc (pt_next_open d) = length (pt_clients d)"
    "\<And>i. slot_new d i \<Longrightarrow> pt_has_new_clients d \<and> \<not> slot_free (client_slot d i)" "\<And>i. i < length (pt_clients d) \<Longrightarrow> k_fd (client_slot d i) \<ge> 0"
    "\<And>i. i < length (pt_clients d) \<Longrightarrow> k_armed (client_slot d i) \<Longrightarrow> \<not> slot_free (client_slot d i) \<and> \<not> slot_new d i"
  shows "slots_ok d"
  using assms by (auto simp: slots_ok_def)

lemma slots_okD:
  assumes "slots_ok d"
  shows "pt_connected_clients d = int (length (filter (\<lambda>c. \<not> slot_free c) (pt_clients d)))" "pt_next_open d < length (pt_clients d)"
    "pt_connected_clients d < int (length (pt_clients d)) \<Longrightarrow> slot_free (client_slot d (pt_next_open d))"
    "\<not> pt_connected_clients d < int (length (pt_clients d)) \<Longrightarrow> Suc (pt_next_open d) = length (pt_clients d)"
    "\<And>i. slot_new d i \<Longrightarrow> pt_has_new_clients d \<and> \<not> slot_free (client_slot d i)" "\<And>i. i < length (pt_clients d) \<Longrightarrow> k_fd (client_slot d i) \<ge> 0"
    "\<And>i. i < length (pt_clients d) \<Longrightarrow> k_armed (client_slot d i) \<Longrightarrow> \<not> slot_free (client_slot d i) \<and> \<not> slot_new d i"
  using assms by (auto simp: slots_ok_def slot_new_def)

text \<open>A change of a slot that keeps its descriptor and does not announce it.\<close>

lemma put_slot_ok:
  assumes "slots_ok d" "i < length (pt_clients d)" "k_fd c = k_fd (client_slot d i)" "k_new_connection c \<longrightarrow> slot_new d i"
    "k_armed c \<longrightarrow> \<not> slot_free c \<and> \<not> k_new_connection c"
  shows "slots_ok (put_slot i c d)"
proof -
  have f: "slot_free c = slot_free (client_slot d i)" using assms(3) by (simp add: slot_free_def)
  have n: "length (filter (\<lambda>c. \<not> slot_free c) (pt_clients (put_slot i c d))) = length (filter (\<lambda>c. \<not> slot_free c) (pt_clients d))"
    using filter_update_count [OF assms(2), of "\<lambda>c. \<not> slot_free c" c] by (simp add: put_slot_def f)
  note D = slots_okD [OF assms(1)]
  show ?thesis
  proof (rule slots_okI)
    show "pt_connected_clients (put_slot i c d) = int (length (filter (\<lambda>c. \<not> slot_free c) (pt_clients (put_slot i c d))))" using D(1) n by simp
  qed (use D(2-) assms(2-) f in \<open>auto simp: slot_new_def split: if_splits\<close>)
qed

lemma close_client_simps [simp]:
  "length (pt_clients (fst (close_client af r i d w))) = length (pt_clients d)"
  "pt_connected_clients (fst (close_client af r i d w)) = pt_connected_clients d - 1"
  "pt_has_new_clients (fst (close_client af r i d w)) = pt_has_new_clients d"
  "j < length (pt_clients d) \<Longrightarrow>
     client_slot (fst (close_client af r i d w)) j = (if j = i then (client_slot d i)\<lparr>k_fd := 0, k_armed := False\<rparr> else client_slot d j)"
  by (auto simp: close_client_def datum_socket_thread_client_count_decrement_def put_slot_def nth_list_update)

lemma close_client_ok:
  assumes "slots_ok d" "i < length (pt_clients d)" "\<not> slot_free (client_slot d i)" "\<not> slot_new d i"
  shows "slots_ok (fst (close_client af r i d w))"
proof -
  define c where "c = (client_slot d i)\<lparr>k_armed := False, k_fd := 0\<rparr>"
  note D = slots_okD [OF assms(1)]
  have cl: "pt_clients (fst (close_client af r i d w)) = (pt_clients d)[i := c]"
    using assms(2) by (simp add: close_client_def datum_socket_thread_client_count_decrement_def put_slot_def c_def)
  have no: "pt_next_open (fst (close_client af r i d w)) = (if i < pt_next_open d then i else pt_next_open d)"
    by (simp add: close_client_def datum_socket_thread_client_count_decrement_def)
  have lt: "pt_connected_clients d - 1 < int (length (pt_clients d))"
    using D(1) length_filter_le [of "\<lambda>c. \<not> slot_free c" "pt_clients d"] by linarith
  have fc: "slot_free c" by (simp add: c_def slot_free_def)
  have n: "length (filter (\<lambda>c. \<not> slot_free c) ((pt_clients d)[i := c])) + 1 = length (filter (\<lambda>c. \<not> slot_free c) (pt_clients d))"
    using filter_update_count [OF assms(2), of "\<lambda>c. \<not> slot_free c" c] assms(3) fc by simp
  show ?thesis
  proof (rule slots_okI)
    show "pt_connected_clients (fst (close_client af r i d w)) = int (length (filter (\<lambda>c. \<not> slot_free c) (pt_clients (fst (close_client af r i d w)))))"
      using D(1) n by (simp add: cl)
    show "slot_free (client_slot (fst (close_client af r i d w)) (pt_next_open (fst (close_client af r i d w))))"
    proof (cases "i < pt_next_open d \<or> i = pt_next_open d")
      case True
      then show ?thesis using assms(2) fc by (auto simp: cl no)
    next
      case False
      then have "\<not> slot_free (client_slot d i)" "pt_next_open d \<noteq> i" "\<not> i < pt_next_open d" using assms(3) by auto
      moreover have "slot_free (client_slot d (pt_next_open d))" using D(3,4) False assms(2) by fastforce
      ultimately show ?thesis by (simp add: cl no)
    qed
  qed (use D(2,5-) assms(2,4) no lt in \<open>auto simp: slot_new_def slot_free_def split: if_splits\<close>)
qed

section \<open>Taking in new connections\<close>

text \<open>Walks over the slots: a property of the thread, and what is left of the new connections.\<close>

lemma each_slot_inv:
  assumes "P d" "\<And>i d w. i \<in> set is \<Longrightarrow> P d \<Longrightarrow> P (fst (f i d w))"
  shows "P (fst (each_slot f is d w))"
  using assms
proof (induction "is" arbitrary: d w)
  case (Cons i "is")
  obtain e v where f: "f i d w = (e, v)" by fastforce
  then have "P e" using Cons.prems(1) Cons.prems(2) [of i d w] by simp
  then show ?case using Cons.IH [of e v] Cons.prems(2) by (simp add: f)
qed simp

lemma take_in_one_ok:
  assumes "slots_ok d" "i < length (pt_clients d)"
  shows "slots_ok (fst (take_in_one af add_ok i d w))" "length (pt_clients (fst (take_in_one af add_ok i d w))) = length (pt_clients d)"
    "slot_new (fst (take_in_one af add_ok i d w)) j \<longleftrightarrow> slot_new d j \<and> j \<noteq> i"
    "polled d \<Longrightarrow> polled (fst (take_in_one af add_ok i d w))"
proof -
  show l: "length (pt_clients (fst (take_in_one af add_ok i d w))) = length (pt_clients d)"
    by (simp add: take_in_one_def Let_def split: prod.split)
  define c where "c = (client_slot d i)\<lparr>k_new_connection := False, k_buffer := [], k_conn := (k_conn (client_slot d i))\<lparr>w_buffer := []\<rparr>, k_proxy_line_read := 0\<rparr>"
  define e where "e = put_slot i c d"
  have "slots_ok (fst (take_in_one af add_ok i d w)) \<and> (slot_new (fst (take_in_one af add_ok i d w)) j \<longleftrightarrow> slot_new d j \<and> j \<noteq> i)
     \<and> (polled d \<longrightarrow> polled (fst (take_in_one af add_ok i d w)))"
  proof (cases "k_new_connection (client_slot d i)")
    case False
    then show ?thesis using assms by (auto simp: take_in_one_def slot_new_def)
  next
    case True
    then have nf: "\<not> slot_free (client_slot d i)" "\<not> k_armed (client_slot d i)" using assms slots_okD(5) [OF assms(1), of i] slots_okD(7) [OF assms(1), of i] by (auto simp: slot_new_def)
    have eo: "slots_ok e" unfolding e_def by (rule put_slot_ok [OF assms]) (use nf in \<open>simp_all add: c_def\<close>)
    have ei: "client_slot e i = c" "length (pt_clients e) = length (pt_clients d)" using assms(2) by (simp_all add: e_def)
    have fc: "\<not> slot_free c" "\<not> k_new_connection c" using nf by (simp_all add: c_def slot_free_def)
    show ?thesis
    proof (cases "add_ok (k_fd c)")
      case False
      then have t: "take_in_one af add_ok i d w = close_client af ''epoll_ctl add failed @ new connection'' i e w"
        using True by (simp add: take_in_one_def Let_def e_def c_def)
      have "slots_ok (fst (take_in_one af add_ok i d w))" unfolding t by (rule close_client_ok [OF eo]) (use assms(2) ei fc in \<open>simp_all add: slot_new_def\<close>)
      then show ?thesis using assms(2) fc ei by (auto simp: t slot_new_def e_def polled_def slot_free_def split: if_splits)
    next
      case True2: True
      define cn where "cn = fst (new_client_func af (k_conn c) w)"
      have t: "fst (take_in_one af add_ok i d w) = put_slot i (c\<lparr>k_conn := cn, k_armed := True\<rparr>) e"
        using True True2 by (simp add: take_in_one_def Let_def e_def c_def cn_def split: prod.split)
      have "slots_ok (fst (take_in_one af add_ok i d w))" unfolding t
        by (rule put_slot_ok [OF eo]) (use assms(2) ei fc in \<open>simp_all add: slot_new_def slot_free_def\<close>)
      then show ?thesis using assms(2) fc ei by (auto simp: t slot_new_def e_def polled_def slot_free_def split: if_splits)
    qed
  qed
  then show "slots_ok (fst (take_in_one af add_ok i d w))" "slot_new (fst (take_in_one af add_ok i d w)) j \<longleftrightarrow> slot_new d j \<and> j \<noteq> i"
    "polled d \<Longrightarrow> polled (fst (take_in_one af add_ok i d w))" by blast+
qed

lemma take_in_walk:
  assumes "slots_ok d" "\<forall>i\<in>set is. i < length (pt_clients d)"
  shows "slots_ok (fst (each_slot (take_in_one af add_ok) is d w)) \<and> length (pt_clients (fst (each_slot (take_in_one af add_ok) is d w))) = length (pt_clients d)
     \<and> (\<forall>j. slot_new (fst (each_slot (take_in_one af add_ok) is d w)) j \<longleftrightarrow> slot_new d j \<and> j \<notin> set is)
     \<and> (polled d \<longrightarrow> polled (fst (each_slot (take_in_one af add_ok) is d w)))"
  using assms
proof (induction "is" arbitrary: d w)
  case (Cons i "is")
  obtain d1 w1 where t: "take_in_one af add_ok i d w = (d1, w1)" by fastforce
  have i: "i < length (pt_clients d)" using Cons.prems(2) by simp
  note o = take_in_one_ok [OF Cons.prems(1) i, of af add_ok w, unfolded t fst_conv]
  show ?case using Cons.IH [OF o(1), of w1] Cons.prems(2) o(2-) by (auto simp: t)
qed simp

definition all_taken_in :: "pool_thread \<Rightarrow> bool" where
  "all_taken_in d \<longleftrightarrow> slots_ok d \<and> (\<forall>i. \<not> slot_new d i)"

lemma take_in_ok:
  assumes "slots_ok d"
  shows "all_taken_in (fst (take_in af add_ok d w))" "polled d \<Longrightarrow> polled (fst (take_in af add_ok d w))"
    "length (pt_clients (fst (take_in af add_ok d w))) = length (pt_clients d)"
proof -
  define e where "e = fst (each_slot (take_in_one af add_ok) [0..<length (pt_clients d)] d w)"
  have e: "slots_ok e" "length (pt_clients e) = length (pt_clients d)" "\<forall>j. slot_new e j \<longleftrightarrow> slot_new d j \<and> j \<notin> set [0..<length (pt_clients d)]"
    "polled d \<longrightarrow> polled e"
    using take_in_walk [OF assms, of "[0..<length (pt_clients d)]" af add_ok w] unfolding e_def [symmetric] by simp_all
  have n: "\<not> slot_new e j" for j
  proof
    assume j: "slot_new e j"
    then have "j < length (pt_clients d)" using e(2) by (simp add: slot_new_def)
    then show False using e(3) j by simp
  qed
  have t: "fst (take_in af add_ok d w) = (if pt_has_new_clients d then e\<lparr>pt_has_new_clients := False\<rparr> else d)"
    by (simp add: take_in_def e_def split: prod.split)
  have "\<not> slot_new d j" if "\<not> pt_has_new_clients d" for j using slots_okD(5) [OF assms] that by blast
  then show "all_taken_in (fst (take_in af add_ok d w))" using e(1) n assms by (auto simp: t all_taken_in_def slots_ok_def slot_new_def)
  show "polled d \<Longrightarrow> polled (fst (take_in af add_ok d w))" using e(4) by (auto simp: t polled_def slot_new_def)
  show "length (pt_clients (fst (take_in af add_ok d w))) = length (pt_clients d)" using e(2) by (simp add: t)
qed

section \<open>The rest of a round\<close>

text \<open>\<open>serving p n d\<close>: the thread has \<open>n\<close> slots and no connection waits to be taken in, and if \<open>p\<close> all connections are polled.\<close>

definition serving :: "bool \<Rightarrow> nat \<Rightarrow> pool_thread \<Rightarrow> bool" where
  "serving p n d \<longleftrightarrow> all_taken_in d \<and> length (pt_clients d) = n \<and> (p \<longrightarrow> polled d)"

lemma serving_close:
  assumes "serving p n d" "i < n" "\<not> slot_free (client_slot d i)"
  shows "serving p n (fst (close_client af r i d w))"
proof -
  have l: "i < length (pt_clients d)" "slots_ok d" "\<not> slot_new d j" for j using assms(1,2) by (simp_all add: serving_def all_taken_in_def)
  have "slots_ok (fst (close_client af r i d w))" by (rule close_client_ok [OF l(2,1) assms(3) l(3)])
  then show ?thesis using assms l by (auto simp: serving_def all_taken_in_def slot_new_def polled_def slot_free_def)
qed

lemma serving_put:
  assumes "serving p n d" "i < n" "k_fd c = k_fd (client_slot d i)" "\<not> k_new_connection c" "k_armed c = k_armed (client_slot d i)"
  shows "serving p n (put_slot i c d)"
proof -
  have l: "i < length (pt_clients d)" "slots_ok d" "\<not> slot_new d j" for j using assms(1,2) by (simp_all add: serving_def all_taken_in_def)
  have "slots_ok (put_slot i c d)"
    by (rule put_slot_ok [OF l(2,1)]) (use assms l slots_okD(7) [OF l(2,1)] in \<open>simp_all add: slot_free_def\<close>)
  then show ?thesis using assms l by (auto simp: serving_def all_taken_in_def slot_new_def polled_def slot_free_def split: if_splits)
qed

lemma serving_flags: "serving p n (clear_requests d) = serving p n d"
  by (simp add: serving_def all_taken_in_def slots_ok_def slot_new_def polled_def clear_requests_def)

lemma serving_not_new: "serving p n d \<Longrightarrow> i < n \<Longrightarrow> \<not> k_new_connection (client_slot d i)"
  by (auto simp: serving_def all_taken_in_def slot_new_def)

lemma serving_requests:
  assumes "serving p n d"
  shows "serving p n (fst (serve_requests af d w))"
proof -
  have e: "serving p n (fst (empty_one af i d w))" if "i < n" "serving p n d" for i d w
    using that by (auto simp: empty_one_def intro: serving_close)
  have k: "serving p n (fst (kill_one af i d w))" if "i < n" "serving p n d" for i d w
  proof (cases "\<not> slot_free (client_slot d i) \<and> k_kill_request (client_slot d i)")
    case True
    have "serving p n (put_slot i ((client_slot d i)\<lparr>k_kill_request := False\<rparr>) d)"
      by (rule serving_put [OF that(2,1)]) (simp_all add: serving_not_new [OF that(2,1)])
    moreover have "\<not> slot_free (client_slot (put_slot i ((client_slot d i)\<lparr>k_kill_request := False\<rparr>) d) i)"
      using True that by (simp add: serving_def slot_free_def)
    ultimately show ?thesis using True that(1) by (simp add: kill_one_def serving_close)
  qed (use that in \<open>auto simp: kill_one_def\<close>)
  have l: "length (pt_clients d) = n" using assms by (simp add: serving_def)
  have "serving p n (fst (each_slot (empty_one af) [0..<n] d w))" by (rule each_slot_inv) (use assms e in auto)
  moreover have "serving p n (fst (each_slot (kill_one af) [0..<n] d w))" by (rule each_slot_inv) (use assms k in auto)
  ultimately show ?thesis using assms by (auto simp: serve_requests_def l serving_flags Let_def split: prod.split)
qed

lemma serving_loop_func:
  assumes "serving p n d"
  shows "serving p n (fst (run_loop_func af d w))"
proof -
  obtain vs k v where f: "loop_func af (map client_view (pt_clients d)) (pt_has_client_kill_request d) w = (vs, k, v)" using prod_cases3 by blast
  define e where "e = fst (run_loop_func af d w)"
  have e: "pt_clients e = map (\<lambda>i. put_view vs i (client_slot d i)) [0..<length (pt_clients d)]" "pt_connected_clients e = pt_connected_clients d"
    "pt_next_open e = pt_next_open d" "pt_has_new_clients e = pt_has_new_clients d" by (simp_all add: e_def run_loop_func_def f)
  have v: "slot_free (put_view vs i c) = slot_free c" "k_fd (put_view vs i c) = k_fd c" "k_new_connection (put_view vs i c) = k_new_connection c"
    "k_armed (put_view vs i c) = k_armed c" for i c by (simp_all add: put_view_def slot_free_def)
  have "map slot_free (pt_clients e) = map slot_free (pt_clients d)" by (rule nth_equalityI) (simp_all add: e v)
  then have c: "length (filter (\<lambda>c. \<not> slot_free c) (pt_clients e)) = length (filter (\<lambda>c. \<not> slot_free c) (pt_clients d))"
    by (metis (no_types, lifting) filter_map length_map comp_def filter_cong)
  have n: "slot_new e i = slot_new d i" for i by (auto simp: slot_new_def e v)
  have l: "slots_ok d" "length (pt_clients d) = n" "\<And>i. \<not> slot_new d i" "p \<longrightarrow> polled d" using assms by (simp_all add: serving_def all_taken_in_def)
  note D = slots_okD [OF l(1)]
  have "slots_ok e" by (rule slots_okI) (use D c n l(3) in \<open>simp_all add: e v\<close>)
  then show ?thesis unfolding e_def [symmetric] using l n by (auto simp: serving_def all_taken_in_def polled_def e v)
qed

lemma serving_flush:
  assumes "serving p n d" "i < n"
  shows "serving p n (fst (flush_one af answers i d w))"
proof -
  have "serving p n (put_slot i ((client_slot d i)\<lparr>k_conn := x\<rparr>) d)" for x
    by (rule serving_put [OF assms]) (simp_all add: serving_not_new [OF assms])
  then show ?thesis using assms by (auto simp: flush_one_def Let_def intro: serving_close split: prod.split)
qed

lemma client_line_keeps:
  "client_line af trust l c w = (j, c', w') \<Longrightarrow> k_fd c' = k_fd c \<and> k_new_connection c' = k_new_connection c \<and> k_armed c' = k_armed c"
  by (auto simp: client_line_def proxy_line_def Let_def split: if_splits prod.splits option.splits)

lemma client_lines_keeps:
  "client_lines af trust s c w = (b, r, c', w') \<Longrightarrow> k_fd c' = k_fd c \<and> k_new_connection c' = k_new_connection c \<and> k_armed c' = k_armed c"
proof (induction af trust s c w rule: client_lines.induct)
  case (1 af trust s c w)
  show ?case
  proof (cases "dropWhile (\<lambda>x. x \<noteq> LF) s")
    case Nil
    show ?thesis using 1(2) by (simp add: client_lines.simps [of af trust s] Nil)
  next
    case (Cons x rest)
    obtain j c1 w1 where h: "client_line af trust (takeWhile (\<lambda>x. x \<noteq> LF) s) c w = (j, c1, w1)" using prod_cases3 by blast
    note k = client_line_keeps [OF h]
    show ?thesis
    proof (cases "j < 0")
      case True
      then show ?thesis using 1(2) k by (simp add: client_lines.simps [of af trust s] Cons h)
    next
      case False
      then show ?thesis using 1(1) [OF Cons h [symmetric] refl refl False] 1(2) k by (simp add: client_lines.simps [of af trust s] Cons h)
    qed
  qed
qed

lemma client_input_keeps:
  "client_input af trust s c w = (r, c', w') \<Longrightarrow> k_fd c' = k_fd c \<and> k_new_connection c' = k_new_connection c \<and> k_armed c' = k_armed c"
  by (auto simp: client_input_def Let_def split: prod.splits if_splits dest!: client_lines_keeps)

text \<open>An event of a registered slot touches no other slot and leaves the slot registered again, unless there was nothing to read.\<close>

lemma client_event_ok:
  assumes "serving False n d" "i < n" "k_armed (client_slot d i)"
  shows "serving False n (fst (client_event af trust (i, answer, mod_ok) d w))"
    "j < n \<Longrightarrow> j \<noteq> i \<Longrightarrow> client_slot (fst (client_event af trust (i, answer, mod_ok) d w)) j = client_slot d j"
    "answer \<noteq> Recv_again \<Longrightarrow> slot_free (client_slot (fst (client_event af trust (i, answer, mod_ok) d w)) i) \<or>
       k_armed (client_slot (fst (client_event af trust (i, answer, mod_ok) d w)) i)"
proof -
  have l: "i < length (pt_clients d)" "length (pt_clients d) = n" "slots_ok d" "\<And>j. \<not> slot_new d j" using assms(1,2) by (simp_all add: serving_def all_taken_in_def)
  have a: "\<not> slot_free (client_slot d i)" "k_fd (client_slot d i) > 0" "\<not> k_new_connection (client_slot d i)"
    using slots_okD(6,7) [OF l(3,1)] assms(3) serving_not_new [OF assms(1,2)] by (auto simp: slot_free_def)
  define d0 where "d0 = put_slot i ((client_slot d i)\<lparr>k_armed := False\<rparr>) d"
  have put: "serving False n (put_slot i c e)" if "serving False n e" "k_fd c = k_fd (client_slot e i)" "\<not> k_new_connection c" "k_armed c \<longrightarrow> k_fd c \<noteq> 0" for c e
  proof -
    have e: "i < length (pt_clients e)" "slots_ok e" "\<And>j. \<not> slot_new e j" "length (pt_clients e) = n" using that(1) assms(2) by (simp_all add: serving_def all_taken_in_def)
    have "slots_ok (put_slot i c e)" by (rule put_slot_ok [OF e(2,1) that(2)]) (use that(3,4) in \<open>simp_all add: slot_free_def\<close>)
    then show ?thesis using e that(3) by (auto simp: serving_def all_taken_in_def slot_new_def split: if_splits)
  qed
  have d0: "serving False n d0" "client_slot d0 i = (client_slot d i)\<lparr>k_armed := False\<rparr>" "length (pt_clients d0) = n"
    "j < n \<Longrightarrow> j \<noteq> i \<Longrightarrow> client_slot d0 j = client_slot d j" for j
    using put [OF assms(1)] l a by (simp_all add: d0_def)
  have re: "serving False n (fst (rearm af mod_ok i e v))
      \<and> (\<forall>j<n. j \<noteq> i \<longrightarrow> client_slot (fst (rearm af mod_ok i e v)) j = client_slot e j)
      \<and> (slot_free (client_slot (fst (rearm af mod_ok i e v)) i) \<or> k_armed (client_slot (fst (rearm af mod_ok i e v)) i))"
    if e: "serving False n e" for e v
  proof -
    have m: "i < length (pt_clients e)" "length (pt_clients e) = n" "slots_ok e" using e assms(2) by (simp_all add: serving_def all_taken_in_def)
    have nn: "\<not> k_new_connection (client_slot e i)" by (rule serving_not_new [OF e assms(2)])
    have "k_fd (client_slot e i) \<ge> 0" by (rule slots_okD(6) [OF m(3,1)])
    then consider "k_fd (client_slot e i) = 0" | "k_fd (client_slot e i) > 0" by fastforce
    then show ?thesis
    proof cases
      case 1
      then show ?thesis using e by (simp add: rearm_def slot_free_def)
    next
      case 2
      then have nf: "\<not> slot_free (client_slot e i)" by (simp add: slot_free_def)
      show ?thesis
      proof (cases mod_ok)
        case True
        have "serving False n (put_slot i ((client_slot e i)\<lparr>k_armed := True\<rparr>) e)" by (rule put [OF e]) (use 2 nn in simp_all)
        then show ?thesis using True 2 m by (simp add: rearm_def)
      next
        case False
        then show ?thesis using 2 m serving_close [OF e assms(2) nf] by (simp add: rearm_def slot_free_def)
      qed
    qed
  qed
  have all: "serving False n (fst (client_event af trust (i, answer, mod_ok) d w))
      \<and> (\<forall>j<n. j \<noteq> i \<longrightarrow> client_slot (fst (client_event af trust (i, answer, mod_ok) d w)) j = client_slot d j)
      \<and> (answer \<noteq> Recv_again \<longrightarrow> slot_free (client_slot (fst (client_event af trust (i, answer, mod_ok) d w)) i)
           \<or> k_armed (client_slot (fst (client_event af trust (i, answer, mod_ok) d w)) i))"
  proof (cases answer)
    case Recv_again
    then show ?thesis using d0 by (simp add: client_event_def flip: d0_def)
  next
    case Recv_closed
    obtain e v where c: "close_client af ''client closed connection'' i d0 w = (e, v)" by fastforce
    have "serving False n e" using serving_close [OF d0(1) assms(2), of af "''client closed connection''" w] a d0(2) by (simp add: c slot_free_def)
    moreover have "client_slot e j = client_slot d j" if "j < n" "j \<noteq> i" for j
      using close_client_simps(4) [of j d0 af "''client closed connection''" i w] d0 that by (simp add: c)
    ultimately show ?thesis using re [of e v] by (simp add: Recv_closed client_event_def c flip: d0_def)
  next
    case (Received data)
    obtain r c v where h: "client_input af trust data (client_slot d0 i) w = (r, c, v)" using prod_cases3 by blast
    have k: "k_fd c = k_fd (client_slot d i)" "\<not> k_new_connection c" "\<not> k_armed c" using client_input_keeps [OF h] d0(2) a(3) by simp_all
    define e where "e = put_slot i c d0"
    have e: "serving False n e" "client_slot e i = c" "\<And>j. j < n \<Longrightarrow> j \<noteq> i \<Longrightarrow> client_slot e j = client_slot d j" "length (pt_clients e) = n"
      using put [OF d0(1), of c] k d0 assms(2) by (simp_all add: e_def)
    show ?thesis
    proof (cases r)
      case None
      then show ?thesis using re [OF e(1), of v] e(3) by (simp add: Received client_event_def h flip: d0_def e_def)
    next
      case (Some reason)
      obtain g x where c: "close_client af reason i e v = (g, x)" by fastforce
      have "serving False n g" using serving_close [OF e(1) assms(2), of af reason v] a e(2) k(1) by (simp add: c slot_free_def)
      moreover have "client_slot g j = client_slot d j" if "j < n" "j \<noteq> i" for j
        using close_client_simps(4) [of j e af reason i v] e that by (simp add: c)
      ultimately show ?thesis using re [of g x] by (simp add: Received client_event_def h Some c flip: d0_def e_def)
    qed
  qed
  then show "serving False n (fst (client_event af trust (i, answer, mod_ok) d w))"
    "j < n \<Longrightarrow> j \<noteq> i \<Longrightarrow> client_slot (fst (client_event af trust (i, answer, mod_ok) d w)) j = client_slot d j"
    "answer \<noteq> Recv_again \<Longrightarrow> slot_free (client_slot (fst (client_event af trust (i, answer, mod_ok) d w)) i) \<or>
       k_armed (client_slot (fst (client_event af trust (i, answer, mod_ok) d w)) i)" by blast+
qed

lemma client_event_serving:
  assumes "serving p n d" "i < n" "k_armed (client_slot d i)" "p \<longrightarrow> answer \<noteq> Recv_again"
  shows "serving p n (fst (client_event af trust (i, answer, mod_ok) d w))"
proof -
  have s: "serving False n d" "p \<longrightarrow> polled d" "length (pt_clients d) = n" using assms(1) by (simp_all add: serving_def)
  note o = client_event_ok [OF s(1) assms(2,3), where af = af and trust = trust and answer = answer and mod_ok = mod_ok and w = w]
  define e where "e = fst (client_event af trust (i, answer, mod_ok) d w)"
  have e: "serving False n e" "\<And>j. j < n \<Longrightarrow> j \<noteq> i \<Longrightarrow> client_slot e j = client_slot d j" "answer \<noteq> Recv_again \<Longrightarrow> slot_free (client_slot e i) \<or> k_armed (client_slot e i)"
    using o by (simp_all add: e_def)
  have "polled e" if p
    unfolding polled_def
  proof (intro allI impI)
    fix j assume j: "j < length (pt_clients e)" "\<not> slot_free (client_slot e j)" "\<not> slot_new e j"
    then have jn: "j < n" using e(1) by (simp add: serving_def)
    show "k_armed (client_slot e j)"
    proof (cases "j = i")
      case True
      then show ?thesis using e(3) assms(4) that j(2) by blast
    next
      case False
      have "\<not> slot_new d j" using assms(1) by (simp add: serving_def all_taken_in_def)
      then show ?thesis using s(2,3) that j(2) e(2) [OF jn False] jn by (simp add: polled_def)
    qed
  qed
  then show ?thesis unfolding e_def [symmetric] using e(1) by (simp add: serving_def)
qed

lemma client_events_serving:
  assumes "serving p n d" "distinct (map fst evs)" "\<forall>(i, a, b)\<in>set evs. i < n \<and> k_armed (client_slot d i) \<and> (p \<longrightarrow> a \<noteq> Recv_again)"
  shows "serving p n (fst (client_events af trust evs d w))"
  using assms
proof (induction evs arbitrary: d w)
  case (Cons ev evs)
  obtain i a b where ev: "ev = (i, a, b)" using prod_cases3 by blast
  have i: "i < n" "k_armed (client_slot d i)" "p \<longrightarrow> a \<noteq> Recv_again" using Cons.prems(3) by (simp_all add: ev)
  obtain e v where c: "client_event af trust (i, a, b) d w = (e, v)" by fastforce
  have e: "serving p n e" using client_event_serving [OF Cons.prems(1) i, of af trust b w] by (simp add: c)
  have s: "serving False n d" using Cons.prems(1) by (simp add: serving_def)
  have k: "client_slot e j = client_slot d j" if "j < n" "j \<noteq> i" for j
    using client_event_ok(2) [OF s i(1,2) that, of af trust a b w] by (simp add: c)
  have "\<forall>(j, a, b)\<in>set evs. j < n \<and> k_armed (client_slot e j) \<and> (p \<longrightarrow> a \<noteq> Recv_again)"
  proof (clarify)
    fix j a' b' assume j: "(j, a', b') \<in> set evs"
    then have "j \<noteq> i" using Cons.prems(2) by (force simp: ev)
    then show "j < n \<and> k_armed (client_slot e j) \<and> (p \<longrightarrow> a' \<noteq> Recv_again)" using Cons.prems(3) j k by fastforce
  qed
  then show ?case using Cons.IH [OF e] Cons.prems(2) by (simp add: ev c)
qed simp

lemma serve_clients_ok:
  assumes "serving p n d" "p \<longrightarrow> (\<forall>i. fst (ka_recv ka i) \<noteq> Recv_again)"
  shows "serving p n (fst (serve_clients af trust ka d w))"
proof -
  obtain d1 w1 where s1: "serve_requests af d w = (d1, w1)" by fastforce
  obtain d2 w2 where s2: "run_loop_func af d1 w1 = (d2, w2)" by fastforce
  obtain d3 w3 where s3: "each_slot (flush_one af (ka_send ka)) [0..<length (pt_clients d2)] d2 w2 = (d3, w3)" by fastforce
  have "serving p n d1" using serving_requests [OF assms(1), of af w] by (simp add: s1)
  then have d2: "serving p n d2" using serving_loop_func [of p n d1 af w1] by (simp add: s2)
  then have l: "length (pt_clients d2) = n" by (simp add: serving_def)
  have "serving p n (fst (each_slot (flush_one af (ka_send ka)) [0..<length (pt_clients d2)] d2 w2))"
    by (rule each_slot_inv) (use d2 l serving_flush in auto)
  then have d3: "serving p n d3" by (simp add: s3)
  have a: "\<forall>(i, a, b)\<in>set (epoll_wait ka d3). i < n \<and> k_armed (client_slot d3 i) \<and> (p \<longrightarrow> a \<noteq> Recv_again)"
    using d3 assms(2) by (auto simp: epoll_wait_def serving_def) (metis fst_conv)
  have "serving p n (fst (client_events af trust (epoll_wait ka d3) d3 w3))"
    by (rule client_events_serving [OF d3 _ a]) (simp add: epoll_wait_def comp_def)
  then show ?thesis by (simp add: serve_clients_def s1 s2 s3)
qed

lemma idle_taken_in:
  assumes "slots_ok d" "pt_connected_clients d = 0"
  shows "all_taken_in d"
proof -
  have "filter (\<lambda>c. \<not> slot_free c) (pt_clients d) = []" using slots_okD(1) [OF assms(1)] assms(2) by simp
  then have "slot_free (client_slot d i)" if "i < length (pt_clients d)" for i using that by (auto simp: filter_empty_conv)
  then show ?thesis using assms(1) slots_okD(5) [OF assms(1)] by (auto simp: all_taken_in_def slot_new_def)
qed

lemma threadpool_round_ok:
  assumes "slots_ok d" "p \<longrightarrow> polled d \<and> (\<forall>i. fst (ka_recv ka i) \<noteq> Recv_again)"
  shows "serving p (length (pt_clients d)) (fst (datum_threadpool_thread af trust ka d w))"
proof (cases "pt_connected_clients d = 0")
  case True
  then have "serving p (length (pt_clients d)) d" using idle_taken_in [OF assms(1)] assms(2) by (simp add: serving_def)
  then show ?thesis using True serving_loop_func [of p "length (pt_clients d)" d af w]
    by (cases "run_loop_func af d w") (simp add: datum_threadpool_thread_def serving_flags)
next
  case False
  obtain e v where t: "take_in af (ka_add_ok ka) d w = (e, v)" by fastforce
  have "serving p (length (pt_clients d)) e" using take_in_ok [OF assms(1), of af "ka_add_ok ka" w] assms(2) by (simp add: t serving_def)
  then show ?thesis using serve_clients_ok [of p _ e ka] False assms(2) by (simp add: datum_threadpool_thread_def t)
qed

section \<open>Placing a connection\<close>

lemma find_none_iff: "find P xs = None \<longleftrightarrow> (\<forall>x\<in>set xs. \<not> P x)"
  by (auto simp: find_None_iff)

lemma find_some: "find P xs = Some x \<Longrightarrow> x \<in> set xs \<and> P x"
  by (metis find_Some_iff nth_mem)

lemma place_client_ok:
  assumes "slots_ok d" "0 < fd"
  shows "place_client fd d = None \<longleftrightarrow> (\<forall>i<length (pt_clients d). \<not> slot_free (client_slot d i))"
    "place_client fd d = Some (cid, e) \<Longrightarrow>
       slots_ok e \<and> (polled d \<longrightarrow> polled e) \<and> cid < length (pt_clients d) \<and> length (pt_clients e) = length (pt_clients d) \<and> slot_free (client_slot d cid)
       \<and> k_fd (client_slot e cid) = fd \<and> slot_new e cid \<and> (\<forall>i<length (pt_clients d). i \<noteq> cid \<longrightarrow> client_slot e i = client_slot d i)
       \<and> pt_connected_clients e = pt_connected_clients d + 1"
proof -
  note D = slots_okD [OF assms(1)]
  define n where "n = length (pt_clients d)"
  have full: "pt_connected_clients d < int n \<longleftrightarrow> (\<exists>i<n. slot_free (client_slot d i))"
    using D(1) filter_some_index [of "\<lambda>c. \<not> slot_free c" "pt_clients d"] by (simp add: n_def)
  have b: "place_client fd d = None" if "\<not> pt_connected_clients d < int n" using that by (simp add: place_client_def n_def Let_def)
  have c: "\<exists>e. place_client fd d = Some (pt_next_open d, e)" if "pt_connected_clients d < int n"
    using that D(3) by (simp add: place_client_def n_def Let_def)
  show "place_client fd d = None \<longleftrightarrow> (\<forall>i<length (pt_clients d). \<not> slot_free (client_slot d i))"
    using b c full unfolding n_def by fastforce
  assume p: "place_client fd d = Some (cid, e)"
  then have lt: "pt_connected_clients d < int n" using b by fastforce
  then have ci: "cid = pt_next_open d" using c p by fastforce
  have cn: "cid < n" "slot_free (client_slot d cid)" using D(2) D(3) lt by (simp_all add: ci n_def)
  define c where "c = (client_slot d cid)\<lparr>k_fd := fd, k_cid := cid, k_new_connection := True, k_buffer := [], k_conn := (k_conn (client_slot d cid))\<lparr>w_buffer := []\<rparr>\<rparr>"
  define nx where "nx = (case find (\<lambda>i. slot_free (client_slot d i)) (slots_after cid n) of Some i \<Rightarrow> i | None \<Rightarrow> n - 1)"
  have ed: "e = put_slot cid c (d\<lparr>pt_next_open := nx, pt_connected_clients := pt_connected_clients d + 1, pt_has_new_clients := True\<rparr>)"
    using p lt cn(2) unfolding place_client_def nx_def c_def n_def by (simp add: Let_def flip: ci)
  have sa: "set (slots_after cid n) = {i. i < n \<and> i \<noteq> cid}" using cn(1) by (auto simp: slots_after_def)
  have len: "length (pt_clients e) = n" by (simp add: ed n_def)
  have cl: "client_slot e i = (if i = cid then c else client_slot d i)" if "i < n" for i using that by (simp add: ed n_def put_slot_def nth_list_update)
  have cc: "\<not> slot_free c" "k_fd c = fd" "k_new_connection c" using assms(2) by (simp_all add: c_def slot_free_def)
  have ca: "\<not> k_armed c" using D(7) [of cid] cn by (auto simp: c_def n_def)
  have count: "pt_connected_clients e = int (length (filter (\<lambda>c. \<not> slot_free c) (pt_clients e)))"
    using filter_update_count [of cid "pt_clients d" "\<lambda>c. \<not> slot_free c" c] cn cc(1) D(1) by (simp add: ed put_slot_def n_def)
  have full_e: "pt_connected_clients e < int n \<longleftrightarrow> (\<exists>i<n. slot_free (client_slot e i))"
    using count filter_some_index [of "\<lambda>c. \<not> slot_free c" "pt_clients e"] by (simp add: len)
  have nxt: "nx < n" "pt_connected_clients e < int n \<longrightarrow> slot_free (client_slot e nx)" "\<not> pt_connected_clients e < int n \<longrightarrow> Suc nx = n"
  proof -
    consider (none) "find (\<lambda>i. slot_free (client_slot d i)) (slots_after cid n) = None" | (some) i where "find (\<lambda>i. slot_free (client_slot d i)) (slots_after cid n) = Some i"
      by fastforce
    then have "nx < n \<and> (pt_connected_clients e < int n \<longrightarrow> slot_free (client_slot e nx)) \<and> (\<not> pt_connected_clients e < int n \<longrightarrow> Suc nx = n)"
    proof cases
      case none
      then have "\<forall>i<n. \<not> slot_free (client_slot e i)" using cl cc(1) sa by (auto simp: find_none_iff)
      then show ?thesis using full_e cn(1) none by (auto simp: nx_def)
    next
      case (some i)
      then have "i < n" "i \<noteq> cid" "slot_free (client_slot d i)" using find_some sa by fastforce+
      then show ?thesis using full_e cl some by (auto simp: nx_def)
    qed
    then show "nx < n" "pt_connected_clients e < int n \<longrightarrow> slot_free (client_slot e nx)" "\<not> pt_connected_clients e < int n \<longrightarrow> Suc nx = n" by blast+
  qed
  have new: "slot_new e i \<longleftrightarrow> i = cid \<or> slot_new d i" if "i < n" for i using that cl cc(3) by (auto simp: slot_new_def len n_def)
  have ex: "pt_next_open e = nx" "pt_has_new_clients e" by (simp_all add: ed)
  have so: "slots_ok e"
  proof (rule slots_okI)
    show "pt_connected_clients e = int (length (filter (\<lambda>c. \<not> slot_free c) (pt_clients e)))" by (rule count)
    show "pt_next_open e < length (pt_clients e)" "pt_connected_clients e < int (length (pt_clients e)) \<Longrightarrow> slot_free (client_slot e (pt_next_open e))"
      "\<not> pt_connected_clients e < int (length (pt_clients e)) \<Longrightarrow> Suc (pt_next_open e) = length (pt_clients e)" using nxt by (simp_all add: ex len)
  next
    fix i assume i: "slot_new e i"
    then have "i < n" by (simp add: slot_new_def len)
    then show "pt_has_new_clients e \<and> \<not> slot_free (client_slot e i)" using i new cl cc(1) D(5) ex(2) by auto
  next
    fix i assume "i < length (pt_clients e)"
    then have i: "i < n" by (simp add: len)
    show "k_fd (client_slot e i) \<ge> 0" using cl [OF i] cc(2) assms(2) D(6) [of i] i by (simp add: n_def)
    show "\<not> slot_free (client_slot e i) \<and> \<not> slot_new e i" if "k_armed (client_slot e i)"
      using that cl [OF i] ca D(7) [of i] i new [OF i] by (auto simp: n_def split: if_splits)
  qed
  have po: "polled e" if "polled d" using that cl new by (auto simp: polled_def len n_def split: if_splits)
  show "slots_ok e \<and> (polled d \<longrightarrow> polled e) \<and> cid < length (pt_clients d) \<and> length (pt_clients e) = length (pt_clients d) \<and> slot_free (client_slot d cid)
       \<and> k_fd (client_slot e cid) = fd \<and> slot_new e cid \<and> (\<forall>i<length (pt_clients d). i \<noteq> cid \<longrightarrow> client_slot e i = client_slot d i)
       \<and> pt_connected_clients e = pt_connected_clients d + 1"
    using so po cn cl cc new len by (simp add: n_def) (simp add: ed)
qed

section \<open>The life of a thread\<close>

text \<open>The listener places connections between the rounds of a thread.\<close>

datatype pool_op = Connect int | Round kernel_answers

fun pool_run :: "'w app_funcs \<Rightarrow> int \<Rightarrow> pool_op list \<Rightarrow> pool_thread \<Rightarrow> 'w \<Rightarrow> pool_thread \<times> 'w" where
  "pool_run af trust [] d w = (d, w)"
| "pool_run af trust (Connect fd # ops) d w =
     (case place_client fd d of None \<Rightarrow> pool_run af trust ops d w | Some (cid, d) \<Rightarrow> pool_run af trust ops d w)"
| "pool_run af trust (Round ka # ops) d w = (let (d, w) = datum_threadpool_thread af trust ka d w in pool_run af trust ops d w)"

fun op_ok :: "pool_op \<Rightarrow> bool" where
  "op_ok (Connect fd) \<longleftrightarrow> fd > 0"
| "op_ok (Round ka) \<longleftrightarrow> True"

text \<open>\<^verbatim>\<open>recv\<close> never answers that there is nothing to read after epoll said there is.\<close>

fun op_readable :: "pool_op \<Rightarrow> bool" where
  "op_readable (Connect fd) \<longleftrightarrow> True"
| "op_readable (Round ka) \<longleftrightarrow> (\<forall>i. fst (ka_recv ka i) \<noteq> Recv_again)"

lemma pool_run_ok:
  assumes "slots_ok d" "list_all op_ok ops" "p \<longrightarrow> polled d \<and> list_all op_readable ops"
  shows "slots_ok (fst (pool_run af trust ops d w)) \<and> length (pt_clients (fst (pool_run af trust ops d w))) = length (pt_clients d)
     \<and> (p \<longrightarrow> polled (fst (pool_run af trust ops d w)))"
  using assms
proof (induction ops arbitrary: d w)
  case (Cons x ops)
  show ?case
  proof (cases x)
    case (Connect fd)
    then have fd: "fd > 0" using Cons.prems(2) by simp
    show ?thesis
    proof (cases "place_client fd d")
      case None
      then show ?thesis using Cons.IH [OF Cons.prems(1), of w] Cons.prems by (simp add: Connect)
    next
      case (Some a)
      obtain cid e where a: "a = (cid, e)" by fastforce
      note o = place_client_ok(2) [OF Cons.prems(1) fd Some [unfolded a]]
      show ?thesis using Cons.IH [of e w] o Cons.prems by (simp add: Connect Some a)
    qed
  next
    case (Round ka)
    obtain e v where r: "datum_threadpool_thread af trust ka d w = (e, v)" by fastforce
    have "serving p (length (pt_clients d)) e"
      using threadpool_round_ok [OF Cons.prems(1), of p ka af trust w] Cons.prems(3) by (simp add: Round r)
    then show ?thesis using Cons.IH [of e v] Cons.prems by (simp add: Round r serving_def all_taken_in_def)
  qed
qed simp


text \<open>C0: no client is forgotten: as long as reads that epoll announced find something, every connection that was taken in stays registered with epoll.\<close>

theorem clients_stay_polled:
  assumes "slots_ok d" "polled d" "list_all op_ok ops" "list_all op_readable ops" "pool_run af trust ops d w = (d', w')"
    "i < length (pt_clients d)" "\<not> slot_free (client_slot d' i)" "\<not> k_new_connection (client_slot d' i)"
  shows "k_armed (client_slot d' i)"
proof -
  have "polled d'" "length (pt_clients d') = length (pt_clients d)"
    using pool_run_ok [OF assms(1,3), of True af trust w] assms(2,4) by (simp_all add: assms(5))
  then show ?thesis using assms(6-) by (simp add: polled_def slot_new_def)
qed

text \<open>A read that finds nothing leaves the connection unregistered: it is never read again.\<close>

lemma empty_read_forgets:
  assumes "i < length (pt_clients d)"
  shows "\<not> k_armed (client_slot (fst (client_event af trust (i, Recv_again, mod_ok) d w)) i)"
    and "k_fd (client_slot (fst (client_event af trust (i, Recv_again, mod_ok) d w)) i) = k_fd (client_slot d i)"
  using assms by (simp_all add: client_event_def)

section \<open>Bursts of connections\<close>

text \<open>The contract of the slots, and what it means for connections that come one after the other.\<close>

fun place_all :: "(int \<Rightarrow> 's \<Rightarrow> (nat \<times> 's) option) \<Rightarrow> int list \<Rightarrow> 's \<Rightarrow> nat list \<times> 's" where
  "place_all place [] s = ([], s)"
| "place_all place (fd # fds) s =
     (case place fd s of None \<Rightarrow> place_all place fds s | Some (i, s) \<Rightarrow> let (is, s) = place_all place fds s in (i # is, s))"

locale slot_pool =
  fixes pool_ok :: "'s \<Rightarrow> bool" and used :: "'s \<Rightarrow> nat set" and room :: "'s \<Rightarrow> nat" and place :: "int \<Rightarrow> 's \<Rightarrow> (nat \<times> 's) option"
  assumes used_room: "pool_ok s \<Longrightarrow> used s \<subseteq> {..<room s}"
    and place_none: "pool_ok s \<Longrightarrow> 0 < fd \<Longrightarrow> place fd s = None \<longleftrightarrow> used s = {..<room s}"
    and place_some: "pool_ok s \<Longrightarrow> 0 < fd \<Longrightarrow> place fd s = Some (i, s') \<Longrightarrow>
      pool_ok s' \<and> room s' = room s \<and> i < room s \<and> i \<notin> used s \<and> used s' = insert i (used s)"
begin

lemma place_burst:
  assumes "pool_ok s" "\<forall>fd\<in>set fds. 0 < fd" "place_all place fds s = (is, s')"
  shows "pool_ok s' \<and> room s' = room s \<and> distinct is \<and> set is \<inter> used s = {} \<and> used s' = used s \<union> set is
     \<and> length is = min (length fds) (room s - card (used s))"
  using assms
proof (induction fds arbitrary: s "is" s')
  case (Cons fd fds)
  have fd: "0 < fd" using Cons.prems(2) by simp
  have fin: "finite (used s)" using used_room [OF Cons.prems(1)] finite_subset by blast
  show ?case
  proof (cases "place fd s")
    case None
    then have u: "used s = {..<room s}" using place_none [OF Cons.prems(1) fd] by simp
    then show ?thesis using Cons.IH [OF Cons.prems(1), of "is" s'] Cons.prems(2,3) by (simp add: None)
  next
    case (Some a)
    obtain i t where a: "a = (i, t)" by fastforce
    obtain js t' where r: "place_all place fds t = (js, t')" by fastforce
    note o = place_some [OF Cons.prems(1) fd Some [unfolded a]]
    have e: "is = i # js" "s' = t'" using Cons.prems(3) by (simp_all add: Some a r)
    have h: "pool_ok t' \<and> room t' = room t \<and> distinct js \<and> set js \<inter> used t = {} \<and> used t' = used t \<union> set js \<and> length js = min (length fds) (room t - card (used t))"
      using Cons.IH [of t js t'] o r Cons.prems(2) by simp
    have c: "card (used t) = Suc (card (used s))" using o fin by simp
    have "card (insert i (used s)) \<le> card {..<room s}" using used_room [OF Cons.prems(1)] o by (intro card_mono) auto
    then have "card (used s) < room s" using o fin by simp
    then have "length is = min (length (fd # fds)) (room s - card (used s))" using h o c by (simp add: e)
    then show ?thesis using h o by (auto simp: e)
  qed
qed simp

end

interpretation thread_slots: slot_pool slots_ok "\<lambda>d. {i. i < length (pt_clients d) \<and> \<not> slot_free (client_slot d i)}" "\<lambda>d. length (pt_clients d)" place_client
proof
  fix d fd i e
  show "{i. i < length (pt_clients d) \<and> \<not> slot_free (client_slot d i)} \<subseteq> {..<length (pt_clients d)}" by blast
  assume d: "slots_ok d" "0 < (fd :: int)"
  show "place_client fd d = None \<longleftrightarrow> {i. i < length (pt_clients d) \<and> \<not> slot_free (client_slot d i)} = {..<length (pt_clients d)}"
    using place_client_ok(1) [OF d] by auto
  assume p: "place_client fd d = Some (i, e)"
  note o = place_client_ok(2) [OF d p]
  then show "slots_ok e \<and> length (pt_clients e) = length (pt_clients d) \<and> i < length (pt_clients d) \<and> i \<notin> {i. i < length (pt_clients d) \<and> \<not> slot_free (client_slot d i)}
     \<and> {i. i < length (pt_clients e) \<and> \<not> slot_free (client_slot e i)} = insert i {i. i < length (pt_clients d) \<and> \<not> slot_free (client_slot d i)}"
    using d(2) by (auto simp: slot_free_def split: if_splits)
qed

section \<open>Choosing a thread\<close>

definition app_ok :: "nat \<Rightarrow> socket_app \<Rightarrow> bool" where
  "app_ok m app \<longleftrightarrow>
     0 < m \<and> sa_active_threads app = int (length (filter pt_is_active (sa_threads app)))
     \<and> (\<forall>d\<in>set (sa_threads app). length (pt_clients d) = m \<and> (if pt_is_active d then slots_ok d else \<forall>c\<in>set (pt_clients d). \<not> k_armed c))"

text \<open>The threads as they are allocated, with zeroes, are a good start.\<close>

lemma listener_init_ok:
  assumes "0 < m" "list_all (\<lambda>d. length (pt_clients d) = m \<and> \<not> pt_is_active d \<and> list_all (\<lambda>c. \<not> k_armed c) (pt_clients d)) (sa_threads app)"
  shows "app_ok m (listener_init app)"
  using assms by (auto simp: app_ok_def listener_init_def list_all_iff filter_empty_conv)

lemma least_loaded_spec:
  "case least_loaded ds i j None of
     None \<Rightarrow> \<forall>d\<in>set ds. pt_connected_clients d \<ge> j
   | Some k \<Rightarrow> i \<le> k \<and> k < i + length ds \<and> pt_connected_clients (ds ! (k - i)) < j \<and> (\<forall>d\<in>set ds. pt_connected_clients (ds ! (k - i)) \<le> pt_connected_clients d)"
proof -
  have g: "case least_loaded ds i j t of
     None \<Rightarrow> t = None \<and> (\<forall>d\<in>set ds. pt_connected_clients d \<ge> j)
   | Some k \<Rightarrow> t = Some k \<and> (\<forall>d\<in>set ds. pt_connected_clients d \<ge> j)
       \<or> i \<le> k \<and> k < i + length ds \<and> pt_connected_clients (ds ! (k - i)) < j \<and> (\<forall>d\<in>set ds. pt_connected_clients (ds ! (k - i)) \<le> pt_connected_clients d)" for t
  proof (induction ds arbitrary: i j t)
    case (Cons d ds)
    show ?case
    proof (cases "pt_connected_clients d < j")
      case True
      then show ?thesis using Cons.IH [where i = "Suc i" and j = "pt_connected_clients d" and t = "Some i"] by (auto split: option.splits simp: nth_Cons')
    next
      case False
      then show ?thesis using Cons.IH [where i = "Suc i" and j = j and t = t] by (auto split: option.splits simp: nth_Cons')
    qed
  qed (simp split: option.split)
  from g [of None] show ?thesis by (simp split: option.splits)
qed

lemma clean_thread_ok:
  assumes "0 < length (pt_clients d)" "\<forall>c\<in>set (pt_clients d). \<not> k_armed c"
  shows "slots_ok ((clean_thread_data d)\<lparr>pt_thread_id := t, pt_is_active := True\<rparr>)"
  using assms by (auto simp: slots_ok_def clean_thread_data_def slot_new_def slot_free_def comp_def filter_map)

lemma place_on_ok:
  assumes "place_on tid fd host app = (ok, app')" "tid < length (sa_threads app)" "slots_ok (sa_threads app ! tid)" "0 < fd"
  shows "if ok then \<exists>cid d. place_client fd (sa_threads app ! tid) = Some (cid, d) \<and> cid < length (pt_clients (sa_threads app ! tid))
           \<and> app' = app\<lparr>sa_threads := (sa_threads app)[tid := put_slot cid ((client_slot d cid)\<lparr>k_rem_host := host\<rparr>) d]\<rparr>
           \<and> slots_ok (put_slot cid ((client_slot d cid)\<lparr>k_rem_host := host\<rparr>) d)
         else app' = app \<and> (\<forall>i<length (pt_clients (sa_threads app ! tid)). \<not> slot_free (client_slot (sa_threads app ! tid) i))"
proof (cases "place_client fd (sa_threads app ! tid)")
  case None
  then show ?thesis using assms place_client_ok(1) [OF assms(3,4)] by (simp add: place_on_def)
next
  case (Some a)
  obtain cid d where a: "a = (cid, d)" by fastforce
  note o = place_client_ok(2) [OF assms(3,4) Some [unfolded a]]
  then have l: "cid < length (pt_clients d)" "slots_ok d" by simp_all
  have "slots_ok (put_slot cid ((client_slot d cid)\<lparr>k_rem_host := host\<rparr>) d)"
    by (rule put_slot_ok [OF l(2,1)]) (use slots_okD(7) [OF l(2,1)] l in \<open>auto simp: slot_new_def slot_free_def\<close>)
  then show ?thesis using assms(1) o by (auto simp: place_on_def Some a)
qed

text \<open>
  Where a connection went: it has a slot of thread \<open>tid\<close> that was not in use, and no other slot of a running thread changed.
\<close>

definition placed :: "int \<Rightarrow> string \<Rightarrow> socket_app \<Rightarrow> nat \<Rightarrow> nat \<Rightarrow> socket_app \<Rightarrow> bool" where
  "placed fd host app tid cid app' \<longleftrightarrow>
     tid < length (sa_threads app) \<and> length (sa_threads app') = length (sa_threads app) \<and> cid < length (pt_clients (sa_threads app ! tid))
     \<and> (pt_is_active (sa_threads app ! tid) \<longrightarrow> slot_free (client_slot (sa_threads app ! tid) cid))
     \<and> k_fd (client_slot (sa_threads app' ! tid) cid) = fd \<and> k_rem_host (client_slot (sa_threads app' ! tid) cid) = host
     \<and> (\<forall>t<length (sa_threads app). t \<noteq> tid \<longrightarrow> sa_threads app' ! t = sa_threads app ! t)
     \<and> (pt_is_active (sa_threads app ! tid) \<longrightarrow>
          (\<forall>i<length (pt_clients (sa_threads app ! tid)). i \<noteq> cid \<longrightarrow> client_slot (sa_threads app' ! tid) i = client_slot (sa_threads app ! tid) i))"

lemma app_okD:
  assumes "app_ok m app" "t < length (sa_threads app)"
  shows "0 < m" "length (pt_clients (sa_threads app ! t)) = m" "pt_is_active (sa_threads app ! t) \<Longrightarrow> slots_ok (sa_threads app ! t)"
    "\<not> pt_is_active (sa_threads app ! t) \<Longrightarrow> \<forall>c\<in>set (pt_clients (sa_threads app ! t)). \<not> k_armed c"
  using assms by (auto simp: app_ok_def split: if_splits dest: nth_mem)

lemma app_ok_update:
  assumes "app_ok m app" "t < length (sa_threads app)" "length (pt_clients d) = m" "pt_is_active d" "slots_ok d"
    "a = sa_active_threads app + (if pt_is_active (sa_threads app ! t) then 0 else 1)"
  shows "app_ok m (app\<lparr>sa_threads := (sa_threads app)[t := d], sa_active_threads := a\<rparr>)"
proof -
  have "length (filter pt_is_active ((sa_threads app)[t := d])) + of_bool (pt_is_active (sa_threads app ! t)) = length (filter pt_is_active (sa_threads app)) + 1"
    using filter_update_count [OF assms(2), of pt_is_active d] assms(4) by simp
  then have "a = int (length (filter pt_is_active ((sa_threads app)[t := d])))" using assms(1,6) by (auto simp: app_ok_def split: if_splits)
  moreover have "\<forall>x\<in>set ((sa_threads app)[t := d]). length (pt_clients x) = m \<and> (if pt_is_active x then slots_ok x else \<forall>c\<in>set (pt_clients x). \<not> k_armed c)"
    using assms set_update_subset_insert [of "sa_threads app" t d] unfolding app_ok_def by (metis insert_iff subset_iff)
  ultimately show ?thesis using assms(1) by (simp add: app_ok_def)
qed

lemma all_active:
  assumes "app_ok m app" "\<not> sa_active_threads app < int (length (sa_threads app))" "t < length (sa_threads app)"
  shows "pt_is_active (sa_threads app ! t)"
  using assms filter_some_index [of pt_is_active "sa_threads app"] by (auto simp: app_ok_def)

lemma assign_fresh:
  assumes "app_ok m app" "sa_active_threads app < int (length (sa_threads app))" "0 < fd"
    "assign_to_thread m True fd host app = (ok, app')"
  shows "ok \<and> app_ok m app' \<and> (\<exists>tid cid. placed fd host app tid cid app' \<and> \<not> pt_is_active (sa_threads app ! tid))"
proof -
  define ts where "ts = sa_threads app"
  obtain k where "k < length ts" "\<not> pt_is_active (ts ! k)"
    using assms(1,2) filter_some_index [of pt_is_active ts] by (auto simp: app_ok_def ts_def)
  then obtain tid where f: "find (\<lambda>i. \<not> pt_is_active (ts ! i)) [0..<length ts] = Some tid"
    by (cases "find (\<lambda>i. \<not> pt_is_active (ts ! i)) [0..<length ts]") (auto simp: find_none_iff)
  have tid: "tid < length ts" "\<not> pt_is_active (ts ! tid)" using find_some [OF f] by simp_all
  note A = app_okD [OF assms(1), of tid, folded ts_def]
  define d where "d = (clean_thread_data (ts ! tid))\<lparr>pt_thread_id := tid, pt_is_active := True\<rparr>"
  have d: "slots_ok d" "pt_is_active d" "length (pt_clients d) = m" "\<And>i. i < m \<Longrightarrow> slot_free (client_slot d i)"
    unfolding d_def using clean_thread_ok [of "ts ! tid" tid] A tid by (simp_all add: clean_thread_data_def slot_free_def)
  define app1 where "app1 = app\<lparr>sa_threads := ts[tid := d], sa_active_threads := sa_active_threads app + 1\<rparr>"
  have a1: "app_ok m app1" unfolding app1_def ts_def by (rule app_ok_update [OF assms(1)]) (use tid d in \<open>simp_all add: ts_def\<close>)
  have t1: "sa_threads app1 ! tid = d" "tid < length (sa_threads app1)" using tid by (simp_all add: app1_def)
  have p: "place_on tid fd host app1 = (ok, app')"
    using assms(2,4) f by (simp add: assign_to_thread_def Let_def app1_def d_def flip: ts_def)
  note P = place_on_ok [OF p t1(2) _ assms(3), unfolded t1(1), OF d(1)]
  have ok: "ok" using P d(3,4) A(1) tid by (auto split: if_splits)
  then obtain cid e where c: "place_client fd d = Some (cid, e)" "cid < m"
      "app' = app1\<lparr>sa_threads := (sa_threads app1)[tid := put_slot cid ((client_slot e cid)\<lparr>k_rem_host := host\<rparr>) e]\<rparr>"
      "slots_ok (put_slot cid ((client_slot e cid)\<lparr>k_rem_host := host\<rparr>) e)" using P d(3) by auto
  note o = place_client_ok(2) [OF d(1) assms(3) c(1)]
  have ac: "pt_is_active e" using c(1) d(2) by (auto simp: place_client_def Let_def put_slot_def split: if_splits option.splits)
  have "app_ok m (app1\<lparr>sa_threads := (sa_threads app1)[tid := put_slot cid ((client_slot e cid)\<lparr>k_rem_host := host\<rparr>) e], sa_active_threads := sa_active_threads app1\<rparr>)"
    by (rule app_ok_update [OF a1 t1(2)]) (use o d c(4) ac t1(1) in \<open>simp_all add: put_slot_def\<close>)
  then have "app_ok m app'" by (simp add: c(3))
  moreover have "placed fd host app tid cid app'"
    using tid c(2,3) o d(3) A(2) by (simp add: placed_def app1_def flip: ts_def)
  ultimately show ?thesis using ok tid(2) by (auto simp: ts_def)
qed

lemma assign_loaded:
  assumes "app_ok m app" "\<not> sa_active_threads app < int (length (sa_threads app))" "0 < fd"
    "assign_to_thread m s fd host app = (ok, app')"
  shows "app_ok m app' \<and>
     (if ok then (\<exists>tid cid. placed fd host app tid cid app' \<and> (\<forall>d\<in>set (sa_threads app). pt_connected_clients (sa_threads app ! tid) \<le> pt_connected_clients d))
        \<and> sum_list (map pt_connected_clients (sa_threads app)) < sa_max_clients app
      else app' = app \<and> ((\<forall>d\<in>set (sa_threads app). \<forall>c\<in>set (pt_clients d). \<not> slot_free c) \<or> sum_list (map pt_connected_clients (sa_threads app)) \<ge> sa_max_clients app))"
proof -
  define ts where "ts = sa_threads app"
  have act: "t < length ts \<Longrightarrow> slots_ok (ts ! t) \<and> pt_is_active (ts ! t) \<and> length (pt_clients (ts ! t)) = m" for t
    using all_active [OF assms(1,2)] app_okD [OF assms(1)] by (simp add: ts_def)
  have L: "case least_loaded ts 0 (int m) None of None \<Rightarrow> \<forall>d\<in>set ts. pt_connected_clients d \<ge> int m
      | Some k \<Rightarrow> k < length ts \<and> pt_connected_clients (ts ! k) < int m \<and> (\<forall>d\<in>set ts. pt_connected_clients (ts ! k) \<le> pt_connected_clients d)"
    using least_loaded_spec [where ds = ts and i = 0 and j = "int m"] by (simp split: option.splits)
  show ?thesis
  proof (cases "least_loaded ts 0 (int m) None")
    case None
    then have r: "\<not> ok" "app' = app" using assms(2,4) by (simp_all add: assign_to_thread_def Let_def flip: ts_def)
    have "\<not> slot_free c" if dc: "d \<in> set ts" "c \<in> set (pt_clients d)" for d c
    proof -
      obtain t where t: "t < length ts" "d = ts ! t" using dc(1) by (auto simp: in_set_conv_nth)
      have a: "slots_ok d" "length (pt_clients d) = m" using act [OF t(1)] t(2) by simp_all
      have "\<forall>d\<in>set ts. pt_connected_clients d \<ge> int m" using L None by simp
      then have "\<not> pt_connected_clients d < int m" using dc(1) by (meson not_le)
      then have "\<not> length (filter (\<lambda>c. \<not> slot_free c) (pt_clients d)) < length (pt_clients d)" using slots_okD(1) [OF a(1)] a(2) by simp
      then show ?thesis using dc(2) length_filter_less [of c "pt_clients d" "\<lambda>c. \<not> slot_free c"] by blast
    qed
    then show ?thesis using r assms(1) by (simp add: ts_def)
  next
    case (Some tid)
    then have t: "tid < length ts" "pt_connected_clients (ts ! tid) < int m" "\<forall>d\<in>set ts. pt_connected_clients (ts ! tid) \<le> pt_connected_clients d" using L by simp_all
    show ?thesis
    proof (cases "sum_list (map pt_connected_clients ts) \<ge> sa_max_clients app")
      case True
      then have "\<not> ok" "app' = app" using assms(2,4) Some by (simp_all add: assign_to_thread_def Let_def flip: ts_def)
      then show ?thesis using True assms(1) by (simp add: ts_def)
    next
      case False
      then have p: "place_on tid fd host app = (ok, app')" using assms(2,4) Some by (simp add: assign_to_thread_def Let_def flip: ts_def)
      note a = act [OF t(1)]
      have P: "if ok then \<exists>cid d. place_client fd (ts ! tid) = Some (cid, d) \<and> cid < length (pt_clients (ts ! tid))
           \<and> app' = app\<lparr>sa_threads := ts[tid := put_slot cid ((client_slot d cid)\<lparr>k_rem_host := host\<rparr>) d]\<rparr>
           \<and> slots_ok (put_slot cid ((client_slot d cid)\<lparr>k_rem_host := host\<rparr>) d)
         else app' = app \<and> (\<forall>i<length (pt_clients (ts ! tid)). \<not> slot_free (client_slot (ts ! tid) i))"
        using place_on_ok [OF p t(1) [unfolded ts_def] conjunct1 [OF a [unfolded ts_def]] assms(3)] unfolding ts_def .
      have "\<exists>i<length (pt_clients (ts ! tid)). slot_free (client_slot (ts ! tid) i)"
        using t(2) slots_okD(1) [of "ts ! tid"] a filter_some_index [of "\<lambda>c. \<not> slot_free c" "pt_clients (ts ! tid)"] by simp
      then have ok: "ok" using P by (auto split: if_splits)
      then obtain cid e where c: "place_client fd (ts ! tid) = Some (cid, e)" "cid < m"
          "app' = app\<lparr>sa_threads := ts[tid := put_slot cid ((client_slot e cid)\<lparr>k_rem_host := host\<rparr>) e]\<rparr>"
          "slots_ok (put_slot cid ((client_slot e cid)\<lparr>k_rem_host := host\<rparr>) e)" using P a by auto
      have o: "slots_ok e" "length (pt_clients e) = m" "slot_free (client_slot (ts ! tid) cid)" "k_fd (client_slot e cid) = fd"
          "\<forall>i<m. i \<noteq> cid \<longrightarrow> client_slot e i = client_slot (ts ! tid) i" using place_client_ok(2) [OF _ assms(3) c(1)] a by simp_all
      have ac: "pt_is_active e" using c(1) a by (auto simp: place_client_def Let_def put_slot_def split: if_splits option.splits)
      have "app_ok m (app\<lparr>sa_threads := (sa_threads app)[tid := put_slot cid ((client_slot e cid)\<lparr>k_rem_host := host\<rparr>) e], sa_active_threads := sa_active_threads app\<rparr>)"
        by (rule app_ok_update [OF assms(1)]) (use o a c(4) ac t(1) in \<open>simp_all add: put_slot_def ts_def\<close>)
      then have "app_ok m app'" by (simp add: c(3) ts_def)
      moreover have "placed fd host app tid cid app'"
        using t(1) c(2,3) o a by (simp add: placed_def flip: ts_def)
      ultimately show ?thesis using ok t(3) False by (auto simp: ts_def)
    qed
  qed
qed


text \<open>
  When a thread cannot be started its entry stays marked as running without being counted. If it was the last one, every later
  connection is turned away, however many clients the other threads could take.
\<close>

lemma start_failure_rejects_all:
  assumes "app_ok m app" "sa_active_threads app + 1 = int (length (sa_threads app))" "assign_to_thread m False fd host app = (ok, app')"
  shows "\<not> ok \<and> (\<forall>m s fd host. assign_to_thread m s fd host app' = (False, app'))"
proof -
  define ts where "ts = sa_threads app"
  have a: "sa_active_threads app = int (length (filter pt_is_active ts))" using assms(1) by (simp add: app_ok_def ts_def)
  then have lt: "length (filter pt_is_active ts) < length ts" using assms(2) by (simp add: ts_def)
  then obtain k where "k < length ts" "\<not> pt_is_active (ts ! k)" by (auto simp: filter_some_index)
  then obtain tid where f: "find (\<lambda>i. \<not> pt_is_active (ts ! i)) [0..<length ts] = Some tid"
    by (cases "find (\<lambda>i. \<not> pt_is_active (ts ! i)) [0..<length ts]") (auto simp: find_none_iff)
  have tid: "tid < length ts" "\<not> pt_is_active (ts ! tid)" using find_some [OF f] by simp_all
  define d where "d = (clean_thread_data (ts ! tid))\<lparr>pt_thread_id := tid, pt_is_active := True\<rparr>"
  have r: "\<not> ok" "app' = app\<lparr>sa_threads := ts[tid := d]\<rparr>"
    using assms(2,3) f by (simp_all add: assign_to_thread_def Let_def d_def flip: ts_def)
  have "length (filter pt_is_active (ts[tid := d])) = Suc (length (filter pt_is_active ts))"
    using filter_update_count [OF tid(1), of pt_is_active d] tid(2) by (simp add: d_def)
  then have "\<not> length (filter pt_is_active (ts[tid := d])) < length (ts[tid := d])" using a assms(2) by (simp add: ts_def)
  then have "\<forall>i<length ts. pt_is_active (ts[tid := d] ! i)" using filter_some_index [of pt_is_active "ts[tid := d]"] by auto
  then have "find (\<lambda>i. \<not> pt_is_active (ts[tid := d] ! i)) [0..<length ts] = None" by (simp add: find_none_iff)
  then show ?thesis using r assms(2) by (simp add: assign_to_thread_def Let_def flip: ts_def)
qed

section \<open>A connection that comes before its thread is emptied\<close>

text \<open>How far the count of clients is off.\<close>

definition count_off :: "pool_thread \<Rightarrow> int" where
  "count_off d = pt_connected_clients d - int (length (filter (\<lambda>c. \<not> slot_free c) (pt_clients d)))"

lemma count_off_put:
  assumes "i < length (pt_clients d)" "slot_free c = slot_free (client_slot d i)"
  shows "count_off (put_slot i c d) = count_off d"
  using filter_update_count [OF assms(1), of "\<lambda>c. \<not> slot_free c" c] assms(2) by (simp add: count_off_def put_slot_def)

lemma count_off_close:
  assumes "i < length (pt_clients d)"
  shows "count_off (fst (close_client af r i d w)) = count_off d - of_bool (slot_free (client_slot d i))"
proof -
  define c where "c = (client_slot d i)\<lparr>k_armed := False, k_fd := 0\<rparr>"
  have "pt_clients (fst (close_client af r i d w)) = (pt_clients d)[i := c]"
    using assms by (simp add: close_client_def datum_socket_thread_client_count_decrement_def put_slot_def c_def)
  moreover have "slot_free c" by (simp add: c_def slot_free_def)
  ultimately show ?thesis using filter_update_count [OF assms, of "\<lambda>c. \<not> slot_free c" c]
    by (cases "slot_free (client_slot d i)") (simp_all add: count_off_def)
qed

lemma close_client_next: "pt_next_open (fst (close_client af r i d w)) \<le> pt_next_open d"
  by (simp add: close_client_def datum_socket_thread_client_count_decrement_def)

lemma empty_walk:
  assumes "\<forall>i\<in>set is. i < length (pt_clients d)" "each_slot (empty_one af) is d w = (e, v)"
  shows "length (pt_clients e) = length (pt_clients d) \<and> pt_has_new_clients e = pt_has_new_clients d \<and> count_off e = count_off d
    \<and> pt_next_open e \<le> pt_next_open d \<and> (\<forall>j. slot_new e j = slot_new d j) \<and> (\<forall>j<length (pt_clients d). slot_free (client_slot e j) \<longleftrightarrow> j \<in> set is \<or> slot_free (client_slot d j))"
  using assms
proof (induction "is" arbitrary: d w)
  case (Cons i "is")
  obtain d1 w1 where o: "empty_one af i d w = (d1, w1)" by fastforce
  have i: "i < length (pt_clients d)" using Cons.prems(1) by simp
  have s: "length (pt_clients d1) = length (pt_clients d) \<and> pt_has_new_clients d1 = pt_has_new_clients d \<and> count_off d1 = count_off d
    \<and> pt_next_open d1 \<le> pt_next_open d \<and> (\<forall>j. slot_new d1 j = slot_new d j) \<and> (\<forall>j<length (pt_clients d). slot_free (client_slot d1 j) \<longleftrightarrow> j = i \<or> slot_free (client_slot d j))"
  proof (cases "slot_free (client_slot d i)")
    case True
    then show ?thesis using o i by (auto simp: empty_one_def)
  next
    case False
    then have "d1 = fst (close_client af ''empty thread command'' i d w)" using o by (simp add: empty_one_def)
    then show ?thesis using False i close_client_next [of af _ i d w] by (auto simp: count_off_close slot_new_def slot_free_def split: if_splits)
  qed
  show ?case using Cons.IH [of d1 w1] Cons.prems s by (auto simp: o)
qed simp

lemma take_in_count_off:
  assumes "\<forall>i\<in>set is. i < length (pt_clients d)" "each_slot (take_in_one af add_ok) is d w = (e, v)" "distinct is" "\<not> add_ok 0"
  shows "length (pt_clients e) = length (pt_clients d)
     \<and> count_off e = count_off d - int (length (filter (\<lambda>i. slot_new d i \<and> slot_free (client_slot d i)) is))"
  using assms
proof (induction "is" arbitrary: d w)
  case (Cons i "is")
  obtain d1 w1 where o: "take_in_one af add_ok i d w = (d1, w1)" by fastforce
  have i: "i < length (pt_clients d)" using Cons.prems(1) by simp
  have s: "length (pt_clients d1) = length (pt_clients d) \<and> count_off d1 = count_off d - of_bool (slot_new d i \<and> slot_free (client_slot d i))
    \<and> (\<forall>j<length (pt_clients d). j \<noteq> i \<longrightarrow> client_slot d1 j = client_slot d j)"
  proof (cases "k_new_connection (client_slot d i)")
    case False
    then show ?thesis using o by (auto simp: take_in_one_def slot_new_def)
  next
    case True
    define c where "c = (client_slot d i)\<lparr>k_new_connection := False, k_buffer := [], k_conn := (k_conn (client_slot d i))\<lparr>w_buffer := []\<rparr>, k_proxy_line_read := 0\<rparr>"
    define b where "b = put_slot i c d"
    have f: "slot_free c = slot_free (client_slot d i)" by (simp add: c_def slot_free_def)
    have b: "count_off b = count_off d" "length (pt_clients b) = length (pt_clients d)" "client_slot b i = c" "\<And>j. j < length (pt_clients d) \<Longrightarrow> j \<noteq> i \<Longrightarrow> client_slot b j = client_slot d j"
      using count_off_put [OF i f] i by (simp_all add: b_def)
    show ?thesis
    proof (cases "add_ok (k_fd c)")
      case False
      then have "d1 = fst (close_client af ''epoll_ctl add failed @ new connection'' i b w)" using True o by (simp add: take_in_one_def Let_def b_def c_def)
      then show ?thesis using True i b f by (simp add: count_off_close slot_new_def)
    next
      case ok: True
      then have nf: "\<not> slot_free c" using Cons.prems(4) by (auto simp: slot_free_def)
      obtain cn v where n: "new_client_func af (k_conn c) w = (cn, v)" by fastforce
      have d1: "d1 = put_slot i (c\<lparr>k_conn := cn, k_armed := True\<rparr>) b" using True ok o n by (simp add: take_in_one_def Let_def b_def c_def)
      have "count_off d1 = count_off b" unfolding d1 by (rule count_off_put) (use i b in \<open>simp_all add: slot_free_def\<close>)
      then show ?thesis using nf f b i by (simp add: d1)
    qed
  qed
  obtain e1 v1 where r: "each_slot (take_in_one af add_ok) is d1 w1 = (e1, v1)" by fastforce
  have ev: "e1 = e" using Cons.prems(2) r by (simp add: o)
  have "filter (\<lambda>j. slot_new d1 j \<and> slot_free (client_slot d1 j)) is = filter (\<lambda>j. slot_new d j \<and> slot_free (client_slot d j)) is"
    using s Cons.prems(1,3) by (intro filter_cong refl) (auto simp: slot_new_def)
  then show ?case using Cons.IH [of d1 w1] Cons.prems r s by (auto simp: o ev)
qed simp

text \<open>
  A connection placed after the thread has taken in the earlier ones, and closed by the request to empty the thread before it is taken
  in itself, keeps its mark; in the next round it is taken in with the descriptor 0, and closed and counted down a second time when epoll refuses that.
\<close>


section \<open>Witnesses\<close>

definition ex_free :: slot where "ex_free = ex_slot\<lparr>k_fd := 0, k_armed := False\<rparr>"

definition ex_pool :: pool_thread where
  "ex_pool = \<lparr>pt_is_active = True, pt_has_new_clients = False, pt_empty_request = False, pt_has_client_kill_request = False, pt_thread_id = 0,
     pt_clients = [ex_slot, ex_free], pt_connected_clients = 1, pt_next_open = 1\<rparr>"

definition ex_answers :: kernel_answers where
  "ex_answers = \<lparr>ka_add_ok = (\<lambda>fd. fd \<noteq> 0), ka_send = (\<lambda>i. (0, True)), ka_ready = [1, 0, 1], ka_recv = (\<lambda>i. (Received (''ab'' @ [LF]), True))\<rparr>"

lemma ex_pool_ok: "slots_ok ex_pool" "polled ex_pool"
  by (auto simp: slots_ok_def polled_def ex_pool_def slot_free_def slot_new_def ex_slot_def ex_free_def nth_Cons' less_Suc_eq)

lemmas socket_defs = datum_threadpool_thread_def take_in_def take_in_one_def serve_clients_def serve_requests_def clear_requests_def run_loop_func_def client_view_def
  put_view_def flush_one_def epoll_wait_def client_event_def rearm_def client_input_def client_lines.simps client_line_def place_client_def slots_after_def
  put_slot_def slot_free_def ex_pool_def ex_slot_def ex_free_def ex_answers_def ex_funcs_def close_client_def datum_socket_thread_client_count_decrement_def
  empty_one_def Let_def CLIENT_BUFFER_def


theorem clients_stay_polled_witness:
  "k_armed (client_slot (fst (pool_run ex_funcs (-1) [Connect 7, Round ex_answers] ex_pool [])) 0)"
proof -
  obtain d w where r: "pool_run ex_funcs (-1) [Connect 7, Round ex_answers] ex_pool [] = (d, w)" by fastforce
  have n: "k_fd (client_slot d 0) = 5" "\<not> k_new_connection (client_slot d 0)" using r by (auto simp: socket_defs)
  show ?thesis using clients_stay_polled [OF ex_pool_ok _ _ r, of 0] n r by (simp add: ex_answers_def ex_pool_def slot_free_def)
qed

definition ex_app :: socket_app where
  "ex_app = \<lparr>sa_max_clients = 3, sa_threads = [ex_pool, ex_pool\<lparr>pt_is_active := False\<rparr>\<lparr>pt_clients := [ex_free, ex_free]\<rparr>], sa_active_threads = 1\<rparr>"

lemma ex_app_ok: "app_ok 2 ex_app"
  using ex_pool_ok(1) by (simp add: app_ok_def ex_app_def) (simp add: ex_pool_def ex_free_def)


definition ex_arrival :: pool_thread where
  "ex_arrival = (snd (the (place_client 7 ex_pool)))\<lparr>pt_empty_request := True\<rparr>"

definition ex_emptied :: pool_thread where "ex_emptied = fst (serve_requests ex_funcs ex_arrival [])"


end
