(* ===== verification/Spec2Isabelle.thy ===== *)
theory Spec2Isabelle
  imports Prelude Bytes Targets Hex Dupes Queue Pow Double Chirp Coinbase Bech32 Base58 Address Util ChirpGlue Json Usermods Merkle Stratum Handshake Submit SubmitCorrect Replay Work Jobs Notified Thread Empties Gbt Carousel Template Submission Wire Powmsg Validation Pool Sockets
begin

text \<open>
  Verification of the DATUM gateway for BLAKE2b mining with the CHIRP payout syndicate, the C program under
  \<^verbatim>\<open>src/src/\<close>. A gateway stands between a Bitcoin node and mining hardware: it takes block templates from the node,
  makes them into jobs, sends the jobs to its clients over the stratum protocol, checks the shares the clients send back, and submits
  the blocks among them. A pool may be connected over the DATUM protocol and then decides on the outputs of the generation
  transaction; without one, the CHIRP engine may split the reward among the members of a syndicate.

  \<^bold>\<open>Parts and how they interact.\<close> The template thread (\<^verbatim>\<open>datum_blocktemplates.c\<close>) fetches an answer of
  \<^verbatim>\<open>getblocktemplate\<close>, may exchange its transactions for those of a supplier, parses it into a slot of a ring of
  templates and calls \<^verbatim>\<open>update_stratum_job\<close> (\<^verbatim>\<open>datum_stratum.c\<close>), which makes a job with its merkle
  branches and a first coinbase transaction; the coinbaser's thread completes the job with the others (\<^verbatim>\<open>datum_coinbaser.c\<close>). The
  connections of the clients are spread over threads with slots (\<^verbatim>\<open>datum_sockets.c\<close>), which cut what is received into lines for the stratum
  functions. The stratum threads see the new job and notify their
  clients; a submitted share is rebuilt to a header, hashed (\<^verbatim>\<open>datum_pow.c\<close>), compared with targets
  (\<^verbatim>\<open>datum_utils.c\<close>), looked up in the duplicate table (\<^verbatim>\<open>datum_stratum_dupes.c\<close>) and counted; a block goes
  to the submission thread (\<^verbatim>\<open>datum_submitblock.c\<close>). Accepted work is recorded in the CHIRP registry
  (\<^verbatim>\<open>datum_chirp.c\<close>, \<^verbatim>\<open>datum_chirp_glue.c\<close>). With a pool (\<^verbatim>\<open>datum_protocol.c\<close>) a share is queued
  for the protocol thread, which makes a message of it and tells the pool about the job when it has to; the pool sends settings, the outputs for a
  coinbase value, answers to shares, and asks for the transactions of a job.

  \<^bold>\<open>Theories.\<close>
  \<^item> Prelude: type synonyms, the lemmas on lists, words and characters that the others share.
  \<^item> Bytes: the little-endian loads and stores of \<^verbatim>\<open>datum_utils.h\<close>; locale \<open>le_codec\<close>, interpreted for 2, 4 and 8 bytes.
  \<^item> Hex, Util, Targets, Json: \<^verbatim>\<open>datum_utils.c\<close> - hexadecimal tables and text, script numbers and varints, SipHash, base64, strict numbers,
    difficulty and target conversions, comparison of hashes; JSON values as the code reads them.
  \<^item> Double: IEEE binary64 by exact rationals, for the \<^verbatim>\<open>double\<close> arithmetic of the payout engine and the difficulties of clients.
  \<^item> Dupes: the duplicate table, a chained hash table in an array with pruning; locale \<open>share_filter\<close> states its contract, interpreted on the code's table.
  \<^item> Queue: the double-buffered queue \<^verbatim>\<open>datum_queue.c\<close>; locale \<open>item_queue\<close> for one thread, a step relation for its interleavings.
  \<^item> Pow: BLAKE2b headers, commitments, key masks, work roots, block header serialisation, \<^verbatim>\<open>datum_pow.c\<close>.
  \<^item> Chirp, ChirpGlue: the registry, tenure, weights, the weighted draw and the split; loading, saving and the outputs for a job; locale
    \<open>addr_store\<close> for the registry by address.
  \<^item> Bech32, Base58, Address: the two address formats and their conversion from and to output scripts.
  \<^item> Coinbase: the input script, the output sets for six kinds of miners, the per-user transaction, the outputs a pool sends.
  \<^item> Merkle: the branches of a job and the root from them.
  \<^item> Stratum, Handshake, Usermods: the state of a connection, sending, difficulty, notification, subscribe, configure and authorize, user name modifiers.
  \<^item> Submit, SubmitCorrect, Work, Replay: a submission from its parameters to its effects; what an accepted share is; that the miner's own
    view of its work and the gateway's are the same; examples.
  \<^item> Jobs, Notified: the ring of jobs and its update, a job completed by the coinbaser's thread, and the coinbase transactions miners are sent.
  \<^item> Thread, Empties: the loop of a stratum thread, and it with the template thread, the server's loop and the start of threads as a step relation.
  \<^item> Sockets: the slots of a thread, the choice of thread and slot for a connection, received lines, sending, closing, and a round of a thread; locale
    \<open>slot_pool\<close> for the slots, interpreted as \<open>thread_slots\<close>.
  \<^item> Gbt, Carousel, Template: templates, suppliers, and the template thread, whose rounds compose all of these with the update of the jobs.
  \<^item> Submission: the thread that submits blocks, its mailbox and the reading of replies.
  \<^item> Wire, Powmsg, Validation, Pool: the DATUM protocol, \<^verbatim>\<open>datum_protocol.c\<close> - masked headers, nonces, the send buffer and the
    reading of commands in pieces; the messages with shares and what the pool knows of a job; the validation of templates; the first message and
    every command of the pool.

  \<^bold>\<open>How state and operations correspond to the code.\<close> A struct is a record with the code's fields (buffers as lists, a C string as the
  list of its characters), an integer a word of its width, a global table a record that the operations take and return. Operations have the
  names of the functions they model; a handler that is long is cut into definitions named after its steps. Errors and early returns are
  values: \<open>None\<close> is undefined behaviour (a product of type \<^verbatim>\<open>int\<close> that overflows, a pointer that dangles, a write or read
  past an array), a panic, a loop that does not end, or a failed call, as the definition's comment says. Where the callers of an allocation end
  the program when it fails (\<^verbatim>\<open>panic_from_thread\<close>), it is taken to succeed; where they go on, its outcome is an argument. Effects on
  the outside (bytes sent, records to the payout engine, blocks submitted) are values of a datatype or text appended to a buffer. Threads are
  cut at their locks into the steps of an inductive relation.

  Two representations are not the code's. A job holds the value of its template, while the code keeps a pointer into a ring of 32 templates: for
  the next 31 answers of the node the two are the same (\<open>Gbt.template_slot_kept\<close>), after that an old job of the ring of 256 still mined is
  beyond the model. The height of a job is a word of 32 bits where the code has 64 bits and passes them as \<^verbatim>\<open>int\<close> to the input script:
  the two agree below \<open>2^31\<close>.

  \<^bold>\<open>What the lemmas show.\<close> Codecs: each load inverts its store, decoders invert encoders. Tables: the invariants of the duplicate table, the
  queue, the registry, the job ring and the template ring are kept by every operation, and from them follow their contracts. Money: the outputs
  of a generation transaction sum to the reward, for the engine's split, the pool's outputs, the per-user transaction and a supplier's template.
  Work: a share that is accepted is the work that was sent, on the newest block, and while the duplicate table is not full no share is counted
  twice; the header of a block found with a job id as it was sent carries the fields its commitment was computed from. Connections: lines are delivered
  whole and in order however the stream is split, the count of clients is that of the slots in use, a connection is refused only when nothing is free.
  Scheduling: the threads that ran when a block came broadcast its empty work before any of them broadcasts full work, a notification of paced work is
  issued to every client within a bounded time, every supplier has its turn, a notification of a block that does not come holds up work for a bounded
  time, no block handed to the submission thread is lost. Pool: commands are delivered whole, once and in
  order however the stream is split; what one side encrypts the other reads, and no nonce is used twice; the pool knows the job and the coinbase of every
  share it gets; settings change only with a right signature. Where the code falls short of what it means to do, the failing case is a theorem too.

  \<^bold>\<open>Bounds and loops.\<close> Recursion is structural or has a measure: the attempts of an add to the queue and of a submission are counted as
  in the code (10000000 and 40), searches and walks over arrays by the elements left. The two walks through the chains of the duplicate table are
  partial functions whose value is \<open>None\<close> when they do not end; on well-formed tables they are proved to end, and the table after which one does
  not is a theorem. No fuel is used.

  \<^bold>\<open>Arguments of the model.\<close> SHA-256, BLAKE2b, boxes, seals and signatures (libsodium), random numbers, the clock, the content of files and directories, replies over
  HTTP (libcurl), the text of a JSON string as jansson prints it, and the content of uninitialised buffers are arguments of the definitions that use them, and so are the answers of the kernel and the functions an application gives to the thread pool.
  The hash of the payout snapshot is one too.

  \<^bold>\<open>Not modelled.\<close> Opening, timing out and writing the socket of the pool in
  \<^verbatim>\<open>datum_protocol.c\<close>; the web interface
  \<^verbatim>\<open>datum_api.c\<close> (HTML and JSON output of values of the other parts); logging; the opening of listening
  sockets, their options and \<^verbatim>\<open>get_remote_ip\<close> of \<^verbatim>\<open>datum_sockets.c\<close>; the options and messages of \<^verbatim>\<open>datum_gateway.c\<close>; the table of options in \<^verbatim>\<open>datum_conf.c\<close> but
  for the user name modifiers; start-up, statistics and the saving of blocks to disk in \<^verbatim>\<open>datum_stratum.c\<close>; the tests in the repository.
\<close>

end
